(* ===== verification/Prelude.thy ===== *)
theory Prelude imports Main "HOL-Library.Word" "HOL-Library.AList" "HOL-Library.List_Lexorder" "HOL-Library.Product_Lexorder"
  "HOL-Library.Multiset"
begin

text \<open>
  Shared vocabulary of the development.

  \<^item> Machine types: a byte is an 8-bit word; addresses and ports are 32, 128 and 16-bit words.
    Counts and lengths that the code keeps far below its word size are \<open>nat\<close>; where an
    overflow is a branch of the code, the checked operations below write the bound out.
  \<^item> Time: an \<open>Instant\<close> or \<open>Duration\<close> is a number of nanoseconds, so Rust's
    \<open>saturating_duration_since\<close> is subtraction on \<open>nat\<close>.
  \<^item> Errors: \<open>Result<T, E>\<close> is \<open>'e + 'a\<close>, chained with \<open>and_then\<close> (the
    \<open>?\<close> operator); a panic is \<open>None\<close> of an option type.
  \<^item> A \<open>HashMap\<close> is an association list with distinct keys (\<open>hm_ok\<close>): its order is
    the iteration order, which no operation promises.
  \<^item> Two interfaces: \<open>keyed_store\<close> (what a map promises) and \<open>panic_free_ops\<close> (a set
    of operations that never panics and keeps an invariant).
\<close>

section \<open>Types\<close>

type_synonym u8 = "8 word"
type_synonym u16 = "16 word"
type_synonym u32 = "32 word"
type_synonym u64 = "64 word"
type_synonym u128 = "128 word"
type_synonym bytes = "u8 list"
type_synonym instant = nat
type_synonym duration = nat

named_theorems guard_simps \<open>unfolding of the guards of the operations\<close>
named_theorems inv_intros \<open>introduction rules that establish an invariant\<close>

abbreviation secs :: "nat \<Rightarrow> duration" where
  "secs n \<equiv> n * 1000000000"

abbreviation millis :: "nat \<Rightarrow> duration" where
  "millis n \<equiv> n * 1000000"

section \<open>Results\<close>

fun and_then :: "'e + 'a \<Rightarrow> ('a \<Rightarrow> 'e + 'b) \<Rightarrow> 'e + 'b" where
  "and_then (Inl e) f = Inl e"
| "and_then (Inr x) f = f x"

definition ok_or :: "'a option \<Rightarrow> 'e \<Rightarrow> 'e + 'a" where
  "ok_or r e = (case r of None \<Rightarrow> Inl e | Some x \<Rightarrow> Inr x)"

fun result_ok :: "'e + 'a \<Rightarrow> 'a option" where
  "result_ok (Inl e) = None"
| "result_ok (Inr x) = Some x"

lemma and_then_Inr [simp]:
  "and_then r f = Inr y \<longleftrightarrow> (\<exists>x. r = Inr x \<and> f x = Inr y)"
  by (cases r) auto

lemma and_then_Inl:
  "and_then r f = Inl e \<longleftrightarrow> r = Inl e \<or> (\<exists>x. r = Inr x \<and> f x = Inl e)"
  by (cases r) auto

lemma ok_or_Inr [simp]: "ok_or r e = Inr x \<longleftrightarrow> r = Some x"
  by (auto simp: ok_or_def split: option.splits)

lemma ok_or_Inl [simp]: "ok_or r e = Inl e' \<longleftrightarrow> r = None \<and> e' = e"
  by (auto simp: ok_or_def split: option.splits)

lemma ok_or_simps [simp]: "ok_or None e = Inl e" "ok_or (Some x) e = Inr x"
  by (simp_all add: ok_or_def)

text \<open>
  A postcondition of the successful results, and the rules that push it through a chain of \<open>?\<close>
  operators; \<open>ensures_all\<close> keeps the equation of a call whose result is used later.
\<close>

definition ensures :: "'e + 'a \<Rightarrow> ('a \<Rightarrow> bool) \<Rightarrow> bool" where
  "ensures r P \<longleftrightarrow> (\<forall>x. r = Inr x \<longrightarrow> P x)"

named_theorems ensures_intros \<open>postconditions of fallible chains\<close>

lemma ensures_bind [ensures_intros]: "ensures r (\<lambda>x. ensures (f x) P) \<Longrightarrow> ensures (and_then r f) P"
  by (auto simp: ensures_def)

lemma ensures_if [ensures_intros]:
  "(c \<Longrightarrow> ensures a P) \<Longrightarrow> (\<not> c \<Longrightarrow> ensures b P) \<Longrightarrow> ensures (if c then a else b) P"
  by simp

lemma ensures_Inl [ensures_intros, simp]: "ensures (Inl e) P"
  by (simp add: ensures_def)

lemma ensures_Inr [ensures_intros, simp]: "P x \<Longrightarrow> ensures (Inr x) P"
  by (simp add: ensures_def)

lemma ensures_all: "(\<And>x. r = Inr x \<Longrightarrow> P x) \<Longrightarrow> ensures r P"
  by (simp add: ensures_def)

lemma ensuresD: "ensures r P \<Longrightarrow> r = Inr x \<Longrightarrow> P x"
  by (simp add: ensures_def)

lemma ensures_mono: "ensures r Q \<Longrightarrow> (\<And>x. r = Inr x \<Longrightarrow> Q x \<Longrightarrow> P x) \<Longrightarrow> ensures r P"
  by (simp add: ensures_def)

text \<open>\<open>try_map\<close> is an iterator of results collected into one result: the first error wins.\<close>

fun try_map :: "('a \<Rightarrow> 'e + 'b) \<Rightarrow> 'a list \<Rightarrow> 'e + 'b list" where
  "try_map f [] = Inr []"
| "try_map f (x # xs) = and_then (f x) (\<lambda>y. and_then (try_map f xs) (\<lambda>ys. Inr (y # ys)))"

lemma try_map_Inr:
  "try_map f xs = Inr ys \<longleftrightarrow> list_all2 (\<lambda>x y. f x = Inr y) xs ys"
  by (induction xs arbitrary: ys) (auto simp: list_all2_Cons1)

lemma try_map_length: "try_map f xs = Inr ys \<Longrightarrow> length ys = length xs"
  by (auto simp: try_map_Inr dest: list_all2_lengthD)

lemma try_map_pure: "try_map (\<lambda>x. Inr (g x)) xs = Inr (map g xs)"
  by (induction xs) auto

text \<open>\<open>try_fold\<close> is a loop over a list whose body may return early with an error.\<close>

fun try_fold :: "('s \<Rightarrow> 'a \<Rightarrow> 'e + 's) \<Rightarrow> 's \<Rightarrow> 'a list \<Rightarrow> 'e + 's" where
  "try_fold f s [] = Inr s"
| "try_fold f s (x # xs) = and_then (f s x) (\<lambda>t. try_fold f t xs)"

lemma try_fold_append:
  "try_fold f s (xs @ ys) = and_then (try_fold f s xs) (\<lambda>t. try_fold f t ys)"
proof (induction xs arbitrary: s)
  case (Cons x xs)
  then show ?case by (cases "f s x") simp_all
qed simp

text \<open>A loop keeps what its body keeps; the processed prefix is available to the invariant.\<close>

lemma try_fold_invariant:
  assumes "try_fold f s xs = Inr t" and "P [] s"
    and "\<And>ys y s s' zs. xs = ys @ y # zs \<Longrightarrow> P ys s \<Longrightarrow> f s y = Inr s' \<Longrightarrow> P (ys @ [y]) s'"
  shows "P xs t"
proof -
  have "try_fold f s ys = Inr u \<Longrightarrow> \<exists>zs. xs = ys @ zs \<Longrightarrow> P ys u" for ys u
  proof (induction ys arbitrary: u rule: rev_induct)
    case Nil
    then show ?case using assms(2) by simp
  next
    case (snoc y ys)
    obtain v where v: "try_fold f s ys = Inr v" and u: "f v y = Inr u"
      using snoc.prems(1) by (auto simp: try_fold_append)
    from snoc.prems(2) obtain zs where zs: "xs = ys @ y # zs" by auto
    have "P ys v" using snoc.IH [OF v] zs by blast
    from assms(3) [OF zs this u] show ?case .
  qed
  then show ?thesis using assms(1) by blast
qed

section \<open>Checked arithmetic\<close>

definition checked_add64 :: "nat \<Rightarrow> nat \<Rightarrow> nat option" where
  "checked_add64 a b = (if a + b < 2 ^ 64 then Some (a + b) else None)"

lemma checked_add64_Some [simp]:
  "checked_add64 a b = Some c \<longleftrightarrow> c = a + b \<and> a + b < 2 ^ 64"
  by (auto simp: checked_add64_def)

definition saturating_add64 :: "nat \<Rightarrow> nat \<Rightarrow> nat" where
  "saturating_add64 a b = min (a + b) (2 ^ 64 - 1)"

text \<open>
  \<open>Instant::checked_add\<close> fails beyond the range of the platform's clock, a signed 64-bit number of
  seconds.
\<close>

definition instant_checked_add :: "instant \<Rightarrow> duration \<Rightarrow> instant option" where
  "instant_checked_add now d = (if now + d < secs (2 ^ 63) then Some (now + d) else None)"

definition div_ceil :: "nat \<Rightarrow> nat \<Rightarrow> nat" where
  "div_ceil a b = (if a mod b = 0 then a div b else a div b + 1)"

lemma div_ceil_mult_ge: "0 < b \<Longrightarrow> a \<le> div_ceil a b * b"
proof -
  assume b: "0 < b"
  have d: "a div b * b + a mod b = a" by simp
  have "a mod b < b" using b by simp
  then have "a \<le> a div b * b + b" using d by linarith
  then show ?thesis using d by (auto simp: div_ceil_def)
qed

lemma div_ceil_mult_less: "0 < b \<Longrightarrow> 0 < a \<Longrightarrow> (div_ceil a b - 1) * b < a"
proof -
  assume b: "0 < b" and a: "0 < a"
  have d: "a div b * b + a mod b = a" by simp
  show ?thesis
  proof (cases "a mod b = 0")
    case True
    then have ab: "a div b * b = a" using d by simp
    then have "0 < a div b" using a by (metis mult_0 neq0_conv)
    then have "(a div b - 1) * b < a div b * b" using b by simp
    then show ?thesis using True ab by (simp add: div_ceil_def)
  next
    case False
    then have "a div b * b < a" using d by linarith
    then show ?thesis using False by (simp add: div_ceil_def)
  qed
qed

lemma div_ceil_unique:
  assumes "a \<le> c * b" and "c * b < a + b"
  shows "c = div_ceil a b"
proof (cases "a = 0")
  case False
  have b: "0 < b" using assms by (cases b) auto
  let ?d = "div_ceil a b"
  have "(?d - 1) * b < a" "a \<le> ?d * b" using div_ceil_mult_less [OF b] div_ceil_mult_ge [OF b] False by simp_all
  then have "(?d - 1) * b < c * b" "c * b < ?d * b + b" using assms by linarith+
  then have "?d - 1 < c" "c * b < Suc ?d * b" by simp_all
  moreover from this(2) have "c < Suc ?d" by (simp only: mult_less_cancel2)
  ultimately show ?thesis by linarith
next
  case True
  then have "c = 0" using assms by auto
  then show ?thesis by (simp add: True div_ceil_def)
qed

lemma div_ceil_iff: "0 < b \<Longrightarrow> i < div_ceil a b \<longleftrightarrow> i * b < a"
proof
  assume b: "0 < b" and i: "i < div_ceil a b"
  then have "0 < a" by (cases "a = 0") (auto simp: div_ceil_def)
  with b have below: "(div_ceil a b - 1) * b < a" by (rule div_ceil_mult_less)
  have "i \<le> div_ceil a b - 1" using i by linarith
  then have "i * b \<le> (div_ceil a b - 1) * b" by (rule mult_le_mono1)
  then show "i * b < a" using below by (rule le_less_trans)
next
  assume b: "0 < b" and below: "i * b < a"
  from below div_ceil_mult_ge [OF b] have "i * b < div_ceil a b * b" by (rule less_le_trans)
  then show "i < div_ceil a b" by simp
qed

section \<open>Hash maps\<close>

type_synonym ('k, 'v) hmap = "('k \<times> 'v) list"

definition hm_ok :: "('k, 'v) hmap \<Rightarrow> bool" where
  "hm_ok m = distinct (map fst m)"

definition hm_get :: "('k, 'v) hmap \<Rightarrow> 'k \<Rightarrow> 'v option" where
  "hm_get m k = map_of m k"

definition hm_put :: "'k \<Rightarrow> 'v \<Rightarrow> ('k, 'v) hmap \<Rightarrow> ('k, 'v) hmap" where
  "hm_put k v m = AList.update k v m"

definition hm_remove :: "'k \<Rightarrow> ('k, 'v) hmap \<Rightarrow> ('k, 'v) hmap" where
  "hm_remove k m = filter (\<lambda>(k', _). k' \<noteq> k) m"

definition hm_has :: "('k, 'v) hmap \<Rightarrow> 'k \<Rightarrow> bool" where
  "hm_has m k = (hm_get m k \<noteq> None)"

definition hm_keys :: "('k, 'v) hmap \<Rightarrow> 'k list" where
  "hm_keys m = map fst m"

definition hm_values :: "('k, 'v) hmap \<Rightarrow> 'v list" where
  "hm_values m = map snd m"

definition hm_retain :: "('k \<Rightarrow> 'v \<Rightarrow> bool) \<Rightarrow> ('k, 'v) hmap \<Rightarrow> ('k, 'v) hmap" where
  "hm_retain p m = filter (\<lambda>(k, v). p k v) m"

text \<open>The contract of a map from keys to values, as its clients use it.\<close>

locale keyed_store =
  fixes get :: "'m \<Rightarrow> 'k \<Rightarrow> 'v option"
    and put :: "'k \<Rightarrow> 'v \<Rightarrow> 'm \<Rightarrow> 'm"
    and remove :: "'k \<Rightarrow> 'm \<Rightarrow> 'm"
    and size_of :: "'m \<Rightarrow> nat"
    and ok :: "'m \<Rightarrow> bool"
  assumes get_put: "get (put k v m) k' = (if k' = k then Some v else get m k')"
    and get_remove: "get (remove k m) k' = (if k' = k then None else get m k')"
    and ok_put: "ok m \<Longrightarrow> ok (put k v m)"
    and ok_remove: "ok m \<Longrightarrow> ok (remove k m)"
    and size_put: "ok m \<Longrightarrow> size_of (put k v m) = (if get m k = None then Suc (size_of m) else size_of m)"
    and size_remove: "ok m \<Longrightarrow> size_of (remove k m) = (if get m k = None then size_of m else size_of m - 1)"
    and size_pos: "get m k \<noteq> None \<Longrightarrow> 0 < size_of m"
begin

lemma put_overwrites: "get (put k v (put k w m)) = get (put k v m)"
  by (rule ext) (simp add: get_put)

lemma put_remove: "get (put k v (remove k m)) = get (put k v m)"
  by (rule ext) (simp add: get_put get_remove)

lemma remove_put_fresh: "get m k = None \<Longrightarrow> get (remove k (put k v m)) = get m"
  by (rule ext) (simp add: get_put get_remove)

lemma size_put_bounded:
  "ok m \<Longrightarrow> size_of m < n \<Longrightarrow> size_of (put k v m) \<le> n"
  by (simp add: size_put)

lemma size_put_known:
  "ok m \<Longrightarrow> get m k \<noteq> None \<Longrightarrow> size_of (put k v m) = size_of m"
  by (simp add: size_put)

lemma size_remove_known:
  "ok m \<Longrightarrow> get m k \<noteq> None \<Longrightarrow> Suc (size_of (remove k m)) = size_of m"
  using size_pos [of m k] by (auto simp: size_remove)

end

lemma hm_get_put [simp]:
  "hm_get (hm_put k v m) k' = (if k' = k then Some v else hm_get m k')"
  by (simp add: hm_get_def hm_put_def update_conv')

lemma hm_get_remove [simp]:
  "hm_get (hm_remove k m) k' = (if k' = k then None else hm_get m k')"
  by (induction m) (auto simp: hm_get_def hm_remove_def split: if_splits)

lemma hm_put_keys: "map fst (hm_put k v m) = (if hm_get m k = None then map fst m @ [k] else map fst m)"
  by (induction m) (auto simp: hm_put_def hm_get_def)

lemma hm_get_None: "hm_get m k = None \<longleftrightarrow> k \<notin> fst ` set m"
  by (simp add: hm_get_def map_of_eq_None_iff)

lemma hm_put_fresh: "hm_get m k = None \<Longrightarrow> hm_put k v m = m @ [(k, v)]"
  by (induction m) (auto simp: hm_put_def hm_get_def split: if_splits)

lemma hm_ok_put [simp]: "hm_ok m \<Longrightarrow> hm_ok (hm_put k v m)"
  by (auto simp: hm_ok_def hm_put_keys hm_get_None)

lemma hm_ok_filter [simp]: "hm_ok m \<Longrightarrow> hm_ok (filter p m)"
  by (induction m) (auto simp: hm_ok_def)

lemma hm_ok_remove [simp]: "hm_ok m \<Longrightarrow> hm_ok (hm_remove k m)"
  by (simp add: hm_remove_def)

lemma hm_ok_retain [simp]: "hm_ok m \<Longrightarrow> hm_ok (hm_retain p m)"
  by (simp add: hm_retain_def)

lemma hm_ok_Nil [simp]: "hm_ok []"
  by (simp add: hm_ok_def)

lemma hm_get_Nil [simp]: "hm_get [] k = None"
  by (simp add: hm_get_def)

lemma hm_get_Some: "hm_ok m \<Longrightarrow> hm_get m k = Some v \<longleftrightarrow> (k, v) \<in> set m"
  by (simp add: hm_ok_def hm_get_def)

lemma hm_get_in: "hm_get m k = Some v \<Longrightarrow> (k, v) \<in> set m"
  by (simp add: hm_get_def map_of_SomeD)

lemma length_hm_put:
  "length (hm_put k v m) = (if hm_get m k = None then Suc (length m) else length m)"
proof -
  have "length (map fst (hm_put k v m)) = (if hm_get m k = None then Suc (length m) else length m)"
    by (simp only: hm_put_keys) simp
  then show ?thesis by simp
qed

lemma hm_remove_absent: "hm_get m k = None \<Longrightarrow> hm_remove k m = m"
  by (induction m) (auto simp: hm_get_def hm_remove_def split: if_splits)

lemma length_hm_remove:
  "hm_ok m \<Longrightarrow> length (hm_remove k m) = (if hm_get m k = None then length m else length m - 1)"
proof (induction m)
  case Nil
  then show ?case by (simp add: hm_remove_def)
next
  case (Cons a m)
  obtain k' v where a: "a = (k', v)" by (cases a)
  have ok: "hm_ok m" and fresh: "k' \<notin> fst ` set m"
    using Cons.prems by (auto simp: hm_ok_def a)
  show ?case
  proof (cases "k' = k")
    case True
    then have "hm_get m k = None" using fresh by (simp add: hm_get_None)
    then have "hm_remove k m = m" by (rule hm_remove_absent)
    then show ?thesis using True by (simp add: a hm_remove_def hm_get_def)
  next
    case False
    have "hm_get m k \<noteq> None \<Longrightarrow> 0 < length m" by (cases m) auto
    then show ?thesis using False Cons.IH [OF ok]
      by (auto simp: a hm_remove_def hm_get_def split: if_splits)
  qed
qed

interpretation hm: keyed_store hm_get hm_put hm_remove length hm_ok
proof unfold_locales
  fix m :: "('a, 'b) hmap" and k
  show "hm_get m k \<noteq> None \<Longrightarrow> 0 < length m" by (cases m) auto
qed (auto simp: length_hm_put length_hm_remove)

lemma hm_set_put:
  "hm_ok m \<Longrightarrow> set (hm_put k v m) = insert (k, v) {p \<in> set m. fst p \<noteq> k}"
proof -
  assume ok: "hm_ok m"
  have "(a, b) \<in> set (hm_put k v m) \<longleftrightarrow> (a, b) \<in> insert (k, v) {p \<in> set m. fst p \<noteq> k}" for a b
    using hm_get_Some [OF hm_ok_put [OF ok], of k v a b] hm_get_Some [OF ok, of a b]
    by (auto split: if_splits)
  then show ?thesis by auto
qed

lemma hm_set_remove: "set (hm_remove k m) = {p \<in> set m. fst p \<noteq> k}"
  by (auto simp: hm_remove_def)

lemma hm_set_retain: "set (hm_retain p m) = {e \<in> set m. p (fst e) (snd e)}"
  by (auto simp: hm_retain_def)

lemma hm_get_retain:
  "hm_ok m \<Longrightarrow> hm_get (hm_retain p m) k =
     (case hm_get m k of None \<Rightarrow> None | Some v \<Rightarrow> if p k v then Some v else None)"
proof -
  assume ok: "hm_ok m"
  have "hm_get (hm_retain p m) k = Some v \<longleftrightarrow> hm_get m k = Some v \<and> p k v" for v
    by (simp add: hm_get_Some [OF hm_ok_retain [OF ok]] hm_get_Some [OF ok] hm_set_retain)
  then show ?thesis
    by (cases "hm_get m k"; cases "hm_get (hm_retain p m) k") (simp_all, metis+)
qed

text \<open>The number of entries whose value satisfies a predicate.\<close>

definition hm_count :: "('v \<Rightarrow> bool) \<Rightarrow> ('k, 'v) hmap \<Rightarrow> nat" where
  "hm_count p m = length (filter (\<lambda>(_, v). p v) m)"

lemma hm_count_Nil [simp]: "hm_count p [] = 0"
  by (simp add: hm_count_def)

lemma hm_count_put:
  "hm_count p (hm_put k v m) + (case hm_get m k of None \<Rightarrow> 0 | Some w \<Rightarrow> of_bool (p w)) = hm_count p m + of_bool (p v)"
  by (induction m) (auto simp: hm_count_def hm_put_def hm_get_def)

lemma hm_count_remove:
  "hm_ok m \<Longrightarrow> hm_count p (hm_remove k m) + (case hm_get m k of None \<Rightarrow> 0 | Some w \<Rightarrow> of_bool (p w)) = hm_count p m"
proof (induction m)
  case (Cons e m)
  obtain l w where e: "e = (l, w)" by (cases e)
  have ok: "hm_ok m" and l: "l \<notin> fst ` set m" using Cons.prems by (auto simp: hm_ok_def e)
  show ?case
  proof (cases "l = k")
    case True
    then have "hm_get m k = None" using l by (simp add: hm_get_None)
    then have "hm_remove k m = m" by (rule hm_remove_absent)
    then show ?thesis using True by (simp add: e hm_count_def hm_remove_def hm_get_def)
  next
    case False
    then show ?thesis using Cons.IH [OF ok] by (auto simp: e hm_count_def hm_remove_def hm_get_def)
  qed
qed (simp add: hm_remove_def)

lemma hm_count_pos: "hm_get m k = Some v \<Longrightarrow> p v \<Longrightarrow> 0 < hm_count p m"
  by (auto simp: hm_count_def length_greater_0_conv filter_empty_conv dest!: hm_get_in)

lemma hm_count_length: "hm_count p m \<le> length m"
  by (simp add: hm_count_def)

lemma hm_count_retain: "(\<And>k v. (k, v) \<in> set m \<Longrightarrow> p v \<Longrightarrow> q k v) \<Longrightarrow> hm_count p (hm_retain q m) = hm_count p m"
  by (induction m) (auto simp: hm_count_def hm_retain_def)

lemma hm_put_nonempty [simp]: "hm_put k v m \<noteq> []"
  by (metis hm_get_Nil hm_get_put option.distinct(1))

lemma hm_card: "hm_ok m \<Longrightarrow> card (fst ` set m) = length m"
  using distinct_card [of "map fst m"] by (simp add: hm_ok_def)

lemma hm_length_mono:
  assumes "hm_ok m" and "hm_ok m'" and "\<And>k. hm_get m' k \<noteq> None \<Longrightarrow> hm_get m k \<noteq> None"
  shows "length m' \<le> length m"
proof -
  have "k \<in> fst ` set m" if "k \<in> fst ` set m'" for k
    using assms(3) [of k] hm_get_None [of m k] hm_get_None [of m' k] that by simp
  then have "fst ` set m' \<subseteq> fst ` set m" by (rule subsetI)
  then have "card (fst ` set m') \<le> card (fst ` set m)" by (intro card_mono) auto
  then show ?thesis using hm_card [OF assms(1)] hm_card [OF assms(2)] by simp
qed

lemma hm_length_strict:
  assumes "hm_ok m" and "hm_ok m'" and "\<And>k. hm_get m' k \<noteq> None \<Longrightarrow> hm_get m k \<noteq> None"
    and "hm_get m k0 \<noteq> None" and "hm_get m' k0 = None"
  shows "length m' < length m"
proof -
  have "length m' \<le> length (hm_remove k0 m)"
    using assms by (intro hm_length_mono) auto
  moreover have "length (hm_remove k0 m) < length m"
    using hm.size_remove_known [OF assms(1,4)] by simp
  ultimately show ?thesis by simp
qed

section \<open>The closest entries under a key\<close>

text \<open>
  Sorting by a key with Rust's stable \<open>sort_by_key\<close> and keeping the first \<open>n\<close>: the
  selection that routing, lookups and sampling share.
\<close>

definition closest_by :: "('a \<Rightarrow> 'k::linorder) \<Rightarrow> nat \<Rightarrow> 'a list \<Rightarrow> 'a list" where
  "closest_by f n xs = take n (sort_key f xs)"

lemma closest_by_subset: "set (closest_by f n xs) \<subseteq> set xs"
  using set_take_subset [of n "sort_key f xs"] by (simp add: closest_by_def)

lemma length_closest_by [simp]: "length (closest_by f n xs) = min n (length xs)"
  by (simp add: closest_by_def min.commute)

lemma sorted_closest_by: "sorted (map f (closest_by f n xs))"
  by (simp add: closest_by_def take_map [symmetric] sorted_wrt_take)

lemma distinct_closest_by: "distinct xs \<Longrightarrow> distinct (closest_by f n xs)"
  by (simp add: closest_by_def)

lemma closest_by_minimal:
  assumes "x \<in> set (closest_by f n xs)" and "y \<in> set xs" and "y \<notin> set (closest_by f n xs)"
  shows "f x \<le> f y"
proof -
  let ?s = "sort_key f xs"
  have y: "y \<in> set (drop n ?s)"
    using assms(2,3) append_take_drop_id [of n ?s] set_append [of "take n ?s" "drop n ?s"]
    by (auto simp: closest_by_def)
  have "sorted (map f (take n ?s @ drop n ?s))" by simp
  then have "\<forall>a\<in>set (take n ?s). \<forall>b\<in>set (drop n ?s). f a \<le> f b"
    by (auto simp: sorted_append simp del: append_take_drop_id)
  with assms(1) y show ?thesis by (auto simp: closest_by_def)
qed

lemma closest_by_all: "length xs \<le> n \<Longrightarrow> set (closest_by f n xs) = set xs"
  by (simp add: closest_by_def)

section \<open>Operations that never panic\<close>

fun run_ops :: "('s \<Rightarrow> 'op \<Rightarrow> 's option) \<Rightarrow> 's \<Rightarrow> 'op list \<Rightarrow> 's option" where
  "run_ops step s [] = Some s"
| "run_ops step s (x # xs) = (case step s x of None \<Rightarrow> None | Some t \<Rightarrow> run_ops step t xs)"

lemma run_ops_append:
  "run_ops step s (xs @ ys) = (case run_ops step s xs of None \<Rightarrow> None | Some t \<Rightarrow> run_ops step t ys)"
  by (induction xs arbitrary: s) (auto split: option.splits)

text \<open>A run is admissible when each operation is, in the state it meets.\<close>

fun ops_ok :: "('s \<Rightarrow> 'op \<Rightarrow> 's option) \<Rightarrow> ('s \<Rightarrow> 'op \<Rightarrow> bool) \<Rightarrow> 's \<Rightarrow> 'op list \<Rightarrow> bool" where
  "ops_ok step adm s [] = True"
| "ops_ok step adm s (x # xs) =
     (adm s x \<and> (case step s x of None \<Rightarrow> True | Some t \<Rightarrow> ops_ok step adm t xs))"

text \<open>
  The shared contract of a component whose handlers may panic: from a state that satisfies the
  invariant an admissible operation does not panic and keeps the invariant.
\<close>

locale panic_free_ops =
  fixes step :: "'s \<Rightarrow> 'op \<Rightarrow> 's option"
    and inv :: "'s \<Rightarrow> bool"
    and adm :: "'s \<Rightarrow> 'op \<Rightarrow> bool"
  assumes safe_step: "inv s \<Longrightarrow> adm s x \<Longrightarrow> \<exists>t. step s x = Some t \<and> inv t"
begin

lemma safe_run: "inv s \<Longrightarrow> ops_ok step adm s xs \<Longrightarrow> \<exists>t. run_ops step s xs = Some t \<and> inv t"
proof (induction xs arbitrary: s)
  case Nil
  then show ?case by simp
next
  case (Cons x xs)
  then obtain t where "step s x = Some t" and "inv t" using safe_step by fastforce
  with Cons show ?case by simp
qed

lemma run_keeps: "inv s \<Longrightarrow> ops_ok step adm s xs \<Longrightarrow> run_ops step s xs = Some t \<Longrightarrow> inv t"
  using safe_run by fastforce

lemma run_not_stuck: "inv s \<Longrightarrow> ops_ok step adm s xs \<Longrightarrow> run_ops step s xs \<noteq> None"
  using safe_run by fastforce

end

section \<open>Lists\<close>

lemma foldl_min_le: "foldl min d ds \<le> x \<longleftrightarrow> (\<exists>y\<in>set (d # ds). y \<le> (x :: nat))"
  by (induction ds arbitrary: d) (auto simp: min_le_iff_disj)

lemma find_Some_iff2: "List.find p xs = Some x \<Longrightarrow> x \<in> set xs \<and> p x"
  by (induction xs) (auto split: if_splits)

lemma find_None_iff2: "List.find p xs = None \<longleftrightarrow> (\<forall>x\<in>set xs. \<not> p x)"
  by (induction xs) auto

text \<open>The position of the first element that satisfies a predicate (Rust's \<open>position\<close>).\<close>

fun position :: "('a \<Rightarrow> bool) \<Rightarrow> 'a list \<Rightarrow> nat option" where
  "position p [] = None"
| "position p (x # xs) = (if p x then Some 0 else map_option Suc (position p xs))"

lemma position_None: "position p xs = None \<longleftrightarrow> (\<forall>x\<in>set xs. \<not> p x)"
  by (induction xs) auto

lemma position_Some:
  "position p xs = Some i \<Longrightarrow> i < length xs \<and> p (xs ! i) \<and> (\<forall>j<i. \<not> p (xs ! j))"
proof (induction xs arbitrary: i)
  case Nil
  then show ?case by simp
next
  case (Cons x xs)
  show ?case
  proof (cases "p x")
    case True
    with Cons.prems show ?thesis by simp
  next
    case False
    with Cons.prems obtain k where k: "position p xs = Some k" and i: "i = Suc k" by auto
    from Cons.IH [OF k] False show ?thesis by (auto simp: i less_Suc_eq_0_disj)
  qed
qed

lemma position_unique:
  assumes "i < length xs" and "p (xs ! i)" and "\<And>j. j < length xs \<Longrightarrow> p (xs ! j) \<Longrightarrow> j = i"
  shows "position p xs = Some i"
proof (cases "position p xs")
  case None
  then have "\<not> p (xs ! i)" using assms(1) unfolding position_None by simp
  with assms(2) show ?thesis by simp
next
  case (Some k)
  then have "k < length xs" and "p (xs ! k)" using position_Some [OF Some] by blast+
  then have "k = i" by (rule assms(3))
  with Some show ?thesis by simp
qed

end
