(* ===== verification/Bytes.thy ===== *)
theory Bytes imports Prelude begin

text \<open>
  Big-endian byte strings (\<open>to_be_bytes\<close>, \<open>from_be_bytes\<close>, \<open>octets\<close> of the
  standard library), their order, the exclusive or of two byte arrays, and the splitting of a byte
  string into records of a fixed width (\<open>as_chunks\<close>), with the round trip of any record
  codec lifted to concatenations in the locale \<open>record_codec\<close>.
\<close>

unbundle bit_operations_syntax

section \<open>Big-endian numbers\<close>

definition be_nat :: "bytes \<Rightarrow> nat" where
  "be_nat bs = foldl (\<lambda>acc b. 256 * acc + unat b) 0 bs"

fun be_bytes :: "nat \<Rightarrow> nat \<Rightarrow> bytes" where
  "be_bytes 0 m = []"
| "be_bytes (Suc n) m = be_bytes n (m div 256) @ [of_nat (m mod 256)]"

lemma length_be_bytes [simp]: "length (be_bytes n m) = n"
  by (induction n arbitrary: m) auto

lemma be_nat_Nil [simp]: "be_nat [] = 0"
  by (simp add: be_nat_def)

lemma be_nat_snoc [simp]: "be_nat (bs @ [b]) = 256 * be_nat bs + unat b"
  by (simp add: be_nat_def)

lemma unat_u8_less [simp]: "unat (b :: u8) < 256"
  using unsigned_less [of b] by simp

lemma be_nat_less: "be_nat bs < 256 ^ length bs"
proof (induction bs rule: rev_induct)
  case Nil
  then show ?case by simp
next
  case (snoc b bs)
  have b: "unat b < 256" by simp
  have "be_nat bs + 1 \<le> 256 ^ length bs" using snoc by simp
  then have le: "256 * (be_nat bs + 1) \<le> 256 * 256 ^ length bs" by (rule mult_le_mono2)
  have "256 * be_nat bs + unat b < 256 * (be_nat bs + 1)" using b by simp
  with le have "256 * be_nat bs + unat b < 256 * 256 ^ length bs" by (rule less_le_trans [rotated])
  then show ?case by simp
qed

lemma be_bytes_be_nat [simp]: "be_bytes (length bs) (be_nat bs) = bs"
proof (induction bs rule: rev_induct)
  case Nil
  then show ?case by simp
next
  case (snoc b bs)
  have "(256 * be_nat bs + unat b) div 256 = be_nat bs" by simp
  moreover have "(256 * be_nat bs + unat b) mod 256 = unat b" by simp
  ultimately show ?case using snoc by simp
qed

lemma be_nat_be_bytes: "be_nat (be_bytes n m) = m mod 256 ^ n"
proof (induction n arbitrary: m)
  case 0
  then show ?case by simp
next
  case (Suc n)
  have "unat (of_nat (m mod 256) :: u8) = m mod 256"
    by (simp add: unat_of_nat)
  then have "be_nat (be_bytes (Suc n) m) = 256 * (m div 256 mod 256 ^ n) + m mod 256"
    by (simp add: Suc)
  also have "\<dots> = m mod (256 * 256 ^ n)"
    by (simp add: mod_mult2_eq)
  finally show ?case by simp
qed

lemma be_nat_append: "be_nat (xs @ ys) = be_nat xs * 256 ^ length ys + be_nat ys"
proof (induction ys rule: rev_induct)
  case Nil
  then show ?case by simp
next
  case (snoc y ys)
  have "be_nat (xs @ ys @ [y]) = 256 * be_nat (xs @ ys) + unat y"
    by (metis append_assoc be_nat_snoc)
  then show ?case using snoc by simp
qed

lemma be_nat_Cons: "be_nat (x # xs) = unat x * 256 ^ length xs + be_nat xs"
  using be_nat_append [of "[x]" xs] by (simp add: be_nat_def)

text \<open>On arrays of one length the byte order is the order of the numbers.\<close>

lemma be_nat_less_iff:
  "length xs = length ys \<Longrightarrow> xs < ys \<longleftrightarrow> be_nat xs < be_nat ys"
proof (induction xs ys rule: list_induct2)
  case Nil
  then show ?case by simp
next
  case (Cons x xs y ys)
  let ?n = "256 ^ length ys"
  have bx: "be_nat xs < ?n" using be_nat_less [of xs] Cons.hyps by simp
  have by': "be_nat ys < ?n" by (rule be_nat_less)
  have eqs: "be_nat (x # xs) = unat x * ?n + be_nat xs" "be_nat (y # ys) = unat y * ?n + be_nat ys"
    using Cons.hyps by (simp_all add: be_nat_Cons)
  have lt: "be_nat (a # as) < be_nat (b # bs)"
    if "unat a < unat b" "be_nat as < ?n" "length as = length ys" "length bs = length ys" for a b as bs
  proof -
    have "unat a * ?n + be_nat as < (unat a + 1) * ?n" using that(2) by simp
    also have "\<dots> \<le> unat b * ?n" using that(1) by (intro mult_le_mono1) simp
    finally show ?thesis using that by (simp add: be_nat_Cons)
  qed
  consider "unat x < unat y" | "unat y < unat x" | "unat x = unat y" by linarith
  then show ?case
  proof cases
    case 1
    with bx lt [OF 1 bx] Cons.hyps show ?thesis by (simp add: word_less_nat_alt)
  next
    case 2
    have "be_nat (y # ys) < be_nat (x # xs)" using lt [OF 2 by'] Cons.hyps by simp
    moreover have "\<not> x # xs < y # ys" using 2 by (auto simp: word_less_nat_alt)
    ultimately show ?thesis by simp
  next
    case 3
    then have "x = y" by (simp add: word_unat_eq_iff)
    with Cons eqs show ?thesis by simp
  qed
qed

lemma be_nat_le_iff:
  "length xs = length ys \<Longrightarrow> xs \<le> ys \<longleftrightarrow> be_nat xs \<le> be_nat ys"
  using be_nat_less_iff [of ys xs] by (simp add: not_less [symmetric])

lemma be_nat_inj: "length xs = length ys \<Longrightarrow> be_nat xs = be_nat ys \<longleftrightarrow> xs = ys"
  by (metis be_bytes_be_nat)

section \<open>Words and their bytes\<close>

definition word_be :: "nat \<Rightarrow> 'a::len word \<Rightarrow> bytes" where
  "word_be n w = be_bytes n (unat w)"

definition be_word :: "bytes \<Rightarrow> 'a::len word" where
  "be_word bs = of_nat (be_nat bs)"

lemma length_word_be [simp]: "length (word_be n w) = n"
  by (simp add: word_be_def)

lemma be_word_word_be: "LENGTH('a) = 8 * n \<Longrightarrow> be_word (word_be n w) = (w :: 'a::len word)"
proof -
  assume n: "LENGTH('a) = 8 * n"
  have "(256::nat) ^ n = 2 ^ LENGTH('a)" by (simp add: n power_mult)
  moreover have "unat w < 2 ^ LENGTH('a)" by (rule unsigned_less)
  ultimately have "be_nat (be_bytes n (unat w)) = unat w"
    by (simp add: be_nat_be_bytes)
  then show ?thesis by (simp add: be_word_def word_be_def)
qed

lemma word_be_be_word:
  "LENGTH('a) = 8 * n \<Longrightarrow> length bs = n \<Longrightarrow> word_be n (be_word bs :: 'a::len word) = bs"
proof -
  assume n: "LENGTH('a) = 8 * n" and l: "length bs = n"
  have "(256::nat) ^ n = 2 ^ LENGTH('a)" by (simp add: n power_mult)
  then have "be_nat bs < 2 ^ LENGTH('a)" using be_nat_less [of bs] l by simp
  then have "unat (of_nat (be_nat bs) :: 'a word) = be_nat bs" by (simp add: unat_of_nat)
  then show ?thesis using be_bytes_be_nat [of bs] l by (simp add: word_be_def be_word_def)
qed

section \<open>Exclusive or of byte arrays\<close>

definition xor_bytes :: "bytes \<Rightarrow> bytes \<Rightarrow> bytes" where
  "xor_bytes xs ys = map2 (XOR) xs ys"

lemma length_xor_bytes [simp]: "length (xor_bytes xs ys) = min (length xs) (length ys)"
  by (simp add: xor_bytes_def)

lemma xor_bytes_commute: "xor_bytes xs ys = xor_bytes ys xs"
proof (induction xs arbitrary: ys)
  case Nil
  then show ?case by (simp add: xor_bytes_def)
next
  case (Cons x xs)
  then show ?case by (cases ys) (auto simp: xor_bytes_def xor.commute)
qed

lemma xor_bytes_cancel: "length xs = length ys \<Longrightarrow> xor_bytes (xor_bytes xs ys) ys = xs"
  by (induction xs ys rule: list_induct2) (auto simp: xor_bytes_def xor.assoc)

lemma xor_bytes_inj:
  "length xs = length zs \<Longrightarrow> length ys = length zs \<Longrightarrow>
   xor_bytes xs zs = xor_bytes ys zs \<longleftrightarrow> xs = ys"
  by (metis xor_bytes_cancel)

lemma xor_bytes_self: "xor_bytes xs xs = replicate (length xs) 0"
  by (induction xs) (auto simp: xor_bytes_def)

section \<open>Records of a fixed width\<close>

fun chunks :: "nat \<Rightarrow> nat \<Rightarrow> 'a list \<Rightarrow> 'a list list" where
  "chunks w 0 xs = []"
| "chunks w (Suc n) xs = take w xs # chunks w n (drop w xs)"

lemma length_chunks [simp]: "length (chunks w n xs) = n"
  by (induction n arbitrary: xs) auto

lemma concat_chunks: "length xs = w * n \<Longrightarrow> concat (chunks w n xs) = xs"
  by (induction n arbitrary: xs) auto

lemma chunks_widths: "length xs = w * n \<Longrightarrow> c \<in> set (chunks w n xs) \<Longrightarrow> length c = w"
proof (induction n arbitrary: xs)
  case 0
  then show ?case by simp
next
  case (Suc n)
  have "length (drop w xs) = w * n" using Suc.prems(1) by simp
  with Suc.IH [of "drop w xs"] Suc.prems show ?case by auto
qed

lemma chunks_concat:
  "\<forall>c\<in>set cs. length c = w \<Longrightarrow> chunks w (length cs) (concat cs) = cs"
  by (induction cs) auto

lemma length_concat_width: "\<forall>c\<in>set cs. length c = w \<Longrightarrow> length (concat cs) = w * length cs"
  by (induction cs) auto

text \<open>
  What a fixed-width record format promises: every valid value is written to exactly \<open>w\<close>
  bytes, reading inverts writing, and every \<open>w\<close>-byte record is the image of the value read.
\<close>

locale record_codec =
  fixes enc :: "'r \<Rightarrow> bytes" and dec :: "bytes \<Rightarrow> 'r" and w :: nat and valid :: "'r \<Rightarrow> bool"
  assumes width_pos: "0 < w"
    and enc_width: "valid r \<Longrightarrow> length (enc r) = w"
    and dec_enc: "valid r \<Longrightarrow> dec (enc r) = r"
    and enc_dec: "length bs = w \<Longrightarrow> enc (dec bs) = bs"
    and dec_valid: "length bs = w \<Longrightarrow> valid (dec bs)"
begin

lemma enc_all_length: "list_all valid rs \<Longrightarrow> length (concat (map enc rs)) = w * length rs"
  by (induction rs) (auto simp: enc_width)

lemma decode_all:
  assumes "list_all valid rs"
  shows "map dec (chunks w (length (concat (map enc rs)) div w) (concat (map enc rs))) = rs"
proof -
  have "\<forall>c\<in>set (map enc rs). length c = w"
    using assms by (auto simp: enc_width list_all_iff)
  then have "chunks w (length (map enc rs)) (concat (map enc rs)) = map enc rs"
    by (rule chunks_concat)
  moreover have "length (concat (map enc rs)) div w = length rs"
    using enc_all_length [OF assms] width_pos by simp
  ultimately have "map dec (chunks w (length (concat (map enc rs)) div w) (concat (map enc rs)))
      = map dec (map enc rs)" by simp
  also have "\<dots> = rs"
    using assms by (auto simp: dec_enc list_all_iff intro: map_idI)
  finally show ?thesis .
qed

lemma encode_all:
  assumes "length bs mod w = 0"
  shows "concat (map enc (map dec (chunks w (length bs div w) bs))) = bs"
proof -
  have l: "length bs = w * (length bs div w)" using assms by (simp add: mult.commute mod_0_imp_dvd)
  have "\<forall>c\<in>set (chunks w (length bs div w) bs). enc (dec c) = c"
    by (intro ballI enc_dec chunks_widths [OF l])
  then have "map (\<lambda>c. enc (dec c)) (chunks w (length bs div w) bs) = chunks w (length bs div w) bs"
    by (intro map_idI) auto
  then have "concat (map enc (map dec (chunks w (length bs div w) bs))) =
      concat (chunks w (length bs div w) bs)"
    by (simp add: comp_def)
  also have "\<dots> = bs" using concat_chunks [OF l] .
  finally show ?thesis .
qed

lemma decoded_valid:
  assumes "length bs mod w = 0"
  shows "list_all valid (map dec (chunks w (length bs div w) bs))"
proof -
  have l: "length bs = w * (length bs div w)" using assms by (simp add: mult.commute mod_0_imp_dvd)
  have "\<forall>c\<in>set (chunks w (length bs div w) bs). valid (dec c)"
    by (intro ballI dec_valid chunks_widths [OF l])
  then show ?thesis by (simp add: list_all_iff)
qed

end

end
