(* ===== verification/Address.thy ===== *)
theory Address imports Bytes begin

text \<open>
  Network addresses and the address policy of \<open>src/address.rs\<close>, with the standard library's
  \<open>IpAddr\<close> and \<open>SocketAddr\<close> types, their derived orders and the classification methods
  the source calls (\<open>is_private\<close>, \<open>is_loopback\<close>, \<open>to_ipv4_mapped\<close> and the others),
  the address family of \<open>src/dht/routing/mod.rs\<close>, and the reserved-block table that the IPv4
  policy implements.
\<close>

section \<open>Standard-library addresses\<close>

datatype ip_addr = IPV4 u32 | IPV6 u128

datatype socket_addr =
  SA4 (sa4_ip: u32) (sa4_port: u16)
| SA6 (sa6_ip: u128) (sa6_port: u16) (sa6_flowinfo: u32) (sa6_scope: u32)

fun sa_ip :: "socket_addr \<Rightarrow> ip_addr" where
  "sa_ip (SA4 ip _) = IPV4 ip"
| "sa_ip (SA6 ip _ _ _) = IPV6 ip"

fun sa_port :: "socket_addr \<Rightarrow> u16" where
  "sa_port (SA4 _ p) = p"
| "sa_port (SA6 _ p _ _) = p"

fun sa_new :: "ip_addr \<Rightarrow> u16 \<Rightarrow> socket_addr" where
  "sa_new (IPV4 ip) p = SA4 ip p"
| "sa_new (IPV6 ip) p = SA6 ip p 0 0"

lemma sa_ip_new [simp]: "sa_ip (sa_new ip p) = ip"
  by (cases ip) auto

lemma sa_port_new [simp]: "sa_port (sa_new ip p) = p"
  by (cases ip) auto

fun is_ipv4 :: "ip_addr \<Rightarrow> bool" where
  "is_ipv4 (IPV4 _) = True"
| "is_ipv4 (IPV6 _) = False"

text \<open>The derived \<open>Ord\<close>: IPv4 before IPv6, then the fields from left to right.\<close>

fun sa_key :: "socket_addr \<Rightarrow> nat list" where
  "sa_key (SA4 ip p) = [0, unat ip, unat p]"
| "sa_key (SA6 ip p f s) = [1, unat ip, unat p, unat f, unat s]"

lemma sa_key_inj: "sa_key a = sa_key b \<longleftrightarrow> a = b"
  by (cases a; cases b) (auto simp: word_unat_eq_iff)

instantiation socket_addr :: linorder
begin

definition less_eq_socket_addr :: "socket_addr \<Rightarrow> socket_addr \<Rightarrow> bool" where
  "less_eq_socket_addr a b \<longleftrightarrow> sa_key a \<le> sa_key b"

definition less_socket_addr :: "socket_addr \<Rightarrow> socket_addr \<Rightarrow> bool" where
  "less_socket_addr a b \<longleftrightarrow> sa_key a < sa_key b"

instance
proof
  fix a b c :: socket_addr
  show "a < b \<longleftrightarrow> a \<le> b \<and> \<not> b \<le> a"
    unfolding less_eq_socket_addr_def less_socket_addr_def by (rule less_le_not_le)
  show "a \<le> a" by (simp add: less_eq_socket_addr_def)
  show "a \<le> b \<Longrightarrow> b \<le> c \<Longrightarrow> a \<le> c"
    unfolding less_eq_socket_addr_def by (rule order_trans)
  show "a \<le> b \<Longrightarrow> b \<le> a \<Longrightarrow> a = b"
    unfolding less_eq_socket_addr_def sa_key_inj [symmetric] by (rule order_antisym)
  show "a \<le> b \<or> b \<le> a"
    unfolding less_eq_socket_addr_def by (rule linear)
qed

end

definition octets4 :: "u32 \<Rightarrow> bytes" where
  "octets4 ip = word_be 4 ip"

definition octets6 :: "u128 \<Rightarrow> bytes" where
  "octets6 ip = word_be 16 ip"

fun ip_octets :: "ip_addr \<Rightarrow> bytes" where
  "ip_octets (IPV4 ip) = octets4 ip"
| "ip_octets (IPV6 ip) = octets6 ip"

definition segments6 :: "u128 \<Rightarrow> u16 list" where
  "segments6 ip = map be_word (chunks 2 8 (octets6 ip))"

lemma length_octets4 [simp]: "length (octets4 ip) = 4"
  by (simp add: octets4_def)

lemma length_octets6 [simp]: "length (octets6 ip) = 16"
  by (simp add: octets6_def)

lemma length_segments6 [simp]: "length (segments6 ip) = 8"
  by (simp add: segments6_def)

lemma octets4_inj: "octets4 a = octets4 b \<longleftrightarrow> a = b"
proof
  assume "octets4 a = octets4 b"
  then have "be_word (word_be 4 a) = (be_word (word_be 4 b) :: u32)" by (simp add: octets4_def)
  then show "a = b" by (simp add: be_word_word_be)
qed simp

lemma octets6_inj: "octets6 a = octets6 b \<longleftrightarrow> a = b"
proof
  assume "octets6 a = octets6 b"
  then have "be_word (word_be 16 a) = (be_word (word_be 16 b) :: u128)" by (simp add: octets6_def)
  then show "a = b" by (simp add: be_word_word_be)
qed simp

definition octet_at :: "u32 \<Rightarrow> nat \<Rightarrow> nat" where
  "octet_at ip i = unat (octets4 ip ! i)"

definition v4_is_private :: "u32 \<Rightarrow> bool" where
  "v4_is_private ip = (let a = octet_at ip 0; b = octet_at ip 1 in
     a = 10 \<or> (a = 172 \<and> 16 \<le> b \<and> b \<le> 31) \<or> (a = 192 \<and> b = 168))"

definition v4_is_loopback :: "u32 \<Rightarrow> bool" where
  "v4_is_loopback ip = (octet_at ip 0 = 127)"

definition v4_is_link_local :: "u32 \<Rightarrow> bool" where
  "v4_is_link_local ip = (octet_at ip 0 = 169 \<and> octet_at ip 1 = 254)"

definition v4_is_broadcast :: "u32 \<Rightarrow> bool" where
  "v4_is_broadcast ip = (ip = 0xffffffff)"

definition v4_is_documentation :: "u32 \<Rightarrow> bool" where
  "v4_is_documentation ip = (let a = octet_at ip 0; b = octet_at ip 1; c = octet_at ip 2 in
     (a = 192 \<and> b = 0 \<and> c = 2) \<or> (a = 198 \<and> b = 51 \<and> c = 100) \<or> (a = 203 \<and> b = 0 \<and> c = 113))"

definition v6_is_unspecified :: "u128 \<Rightarrow> bool" where
  "v6_is_unspecified ip = (ip = 0)"

definition v6_is_loopback :: "u128 \<Rightarrow> bool" where
  "v6_is_loopback ip = (ip = 1)"

definition v6_is_multicast :: "u128 \<Rightarrow> bool" where
  "v6_is_multicast ip = (octets6 ip ! 0 = 0xff)"

definition v6_is_ipv4_mapped :: "u128 \<Rightarrow> bool" where
  "v6_is_ipv4_mapped ip = (take 12 (octets6 ip) = [0, 0, 0, 0, 0, 0, 0, 0, 0, 0, 0xff, 0xff])"

definition v6_is_unique_local :: "u128 \<Rightarrow> bool" where
  "v6_is_unique_local ip = (segments6 ip ! 0 AND 0xfe00 = 0xfc00)"

definition v6_is_link_local :: "u128 \<Rightarrow> bool" where
  "v6_is_link_local ip = (segments6 ip ! 0 AND 0xffc0 = 0xfe80)"

section \<open>Address family\<close>

datatype address_family = Ipv4 | Ipv6

fun family_accepts :: "address_family \<Rightarrow> socket_addr \<Rightarrow> bool" where
  "family_accepts Ipv4 (SA4 _ _) = True"
| "family_accepts Ipv6 (SA6 _ _ _ _) = True"
| "family_accepts _ _ = False"

section \<open>Address policy\<close>

datatype address_policy = PublicOnly | LocalUnicast

fun policy_accepts_ip :: "address_policy \<Rightarrow> ip_addr \<Rightarrow> bool" where
  "policy_accepts_ip pol (IPV4 ip) =
     (let a = octet_at ip 0; b = octet_at ip 1; c = octet_at ip 2 in
      if a = 0 \<or> a \<ge> 224 \<or> v4_is_broadcast ip then False
      else if pol = LocalUnicast then True
      else \<not> (v4_is_private ip \<or> v4_is_loopback ip \<or> v4_is_link_local ip \<or> v4_is_documentation ip
        \<or> (a = 100 \<and> 64 \<le> b \<and> b \<le> 127)
        \<or> (a = 198 \<and> 18 \<le> b \<and> b \<le> 19)
        \<or> (a = 192 \<and> b = 0 \<and> c = 0)
        \<or> (a = 192 \<and> b = 88 \<and> c = 99)))"
| "policy_accepts_ip pol (IPV6 ip) =
     (if v6_is_unspecified ip \<or> v6_is_multicast ip \<or> v6_is_ipv4_mapped ip then False
      else if pol = LocalUnicast then True
      else (let s = segments6 ip in
        (s ! 0 AND 0xe000 = 0x2000)
        \<and> \<not> (s ! 0 = 0x2001 \<and> (s ! 1 < 0x200 \<or> s ! 1 = 0xdb8))
        \<and> s ! 0 \<noteq> 0x2002
        \<and> s ! 0 AND 0xfff0 \<noteq> 0x3ff0))"

definition policy_accepts :: "address_policy \<Rightarrow> socket_addr \<Rightarrow> bool" where
  "policy_accepts pol a = (if sa_port a = 0 then False else policy_accepts_ip pol (sa_ip a))"

lemma policy_accepts_port: "policy_accepts pol a \<Longrightarrow> sa_port a \<noteq> 0"
  by (simp add: policy_accepts_def split: if_splits)

lemma policy_public_local:
  "policy_accepts PublicOnly a \<Longrightarrow> policy_accepts LocalUnicast a"
  by (cases "sa_ip a") (auto simp: policy_accepts_def Let_def split: if_splits)

section \<open>The reserved IPv4 blocks\<close>

text \<open>
  The same policy as a table of CIDR blocks (base address, prefix length): an IPv4 address is
  public when no block contains it.
\<close>

definition in_block :: "nat \<Rightarrow> nat \<times> nat \<Rightarrow> bool" where
  "in_block n blk = (case blk of (base, len) \<Rightarrow> n div 2 ^ (32 - len) = base div 2 ^ (32 - len))"

definition v4 :: "nat \<Rightarrow> nat \<Rightarrow> nat \<Rightarrow> nat \<Rightarrow> nat" where
  "v4 a b c d = ((a * 256 + b) * 256 + c) * 256 + d"

definition reserved_blocks :: "(nat \<times> nat) list" where
  "reserved_blocks =
     [(v4 0 0 0 0, 8), (v4 10 0 0 0, 8), (v4 100 64 0 0, 10), (v4 127 0 0 0, 8),
      (v4 169 254 0 0, 16), (v4 172 16 0 0, 12), (v4 192 0 0 0, 24), (v4 192 0 2 0, 24),
      (v4 192 88 99 0, 24), (v4 192 168 0 0, 16), (v4 198 18 0 0, 15), (v4 198 51 100 0, 24),
      (v4 203 0 113 0, 24), (v4 224 0 0 0, 3)]"

lemma octets4_unfold:
  "octets4 ip = [of_nat (unat ip div 16777216 mod 256), of_nat (unat ip div 65536 mod 256),
     of_nat (unat ip div 256 mod 256), of_nat (unat ip mod 256)]"
proof -
  have four: "(4::nat) = Suc (Suc (Suc (Suc 0)))" by simp
  show ?thesis
    unfolding octets4_def word_be_def four be_bytes.simps
    by (simp add: div_mult2_eq [symmetric])
qed

lemma octet_at_unfold:
  "octet_at ip 0 = unat ip div 16777216" (is ?A)
  "octet_at ip (Suc 0) = unat ip div 65536 mod 256" (is ?B)
  "octet_at ip 2 = unat ip div 256 mod 256" (is ?C)
proof -
  have "unat ip < 4294967296" using unsigned_less [of ip] by simp
  then have "unat ip div 16777216 < 256" by linarith
  then show ?A by (simp add: octet_at_def octets4_unfold unat_of_nat)
  show ?B by (simp add: octet_at_def octets4_unfold unat_of_nat)
  show ?C by (simp add: octet_at_def octets4_unfold unat_of_nat)
qed

text \<open>The block tests in terms of the octets of an address.\<close>

lemma block_tests:
  assumes "a < 256" "b < 256" "c < 256" "d < 256"
  shows "v4 a b c d div 536870912 = a div 32"
    and "v4 a b c d div 16777216 = a"
    and "v4 a b c d div 4194304 = a * 4 + b div 64"
    and "v4 a b c d div 1048576 = a * 16 + b div 16"
    and "v4 a b c d div 131072 = a * 128 + b div 2"
    and "v4 a b c d div 65536 = a * 256 + b"
    and "v4 a b c d div 256 = (a * 256 + b) * 256 + c"
  using assms unfolding v4_def by simp_all

lemma octet_tests:
  assumes "a < 256" "b < 256" "c < 256" "d < 256"
  shows "v4 a b c d div 65536 mod 256 = b" and "v4 a b c d div 256 mod 256 = c"
  unfolding block_tests [OF assms] mod_mult_self3 using assms by simp_all

lemma v4_split: "n < 4294967296 \<Longrightarrow> \<exists>a b c d. n = v4 a b c d \<and> a < 256 \<and> b < 256 \<and> c < 256 \<and> d < 256"
proof -
  assume n: "n < 4294967296"
  let ?a = "n div 16777216" and ?b = "n div 65536 mod 256" and ?c = "n div 256 mod 256"
  have "n = n div 256 * 256 + n mod 256" by simp
  moreover have "n div 256 = n div 65536 * 256 + ?c"
    using div_mult_mod_eq [of "n div 256" 256] by (simp add: div_mult2_eq [symmetric])
  moreover have "n div 65536 = ?a * 256 + ?b"
    using div_mult_mod_eq [of "n div 65536" 256] by (simp add: div_mult2_eq [symmetric])
  ultimately have "n = v4 ?a ?b ?c (n mod 256)" unfolding v4_def by presburger
  moreover have "?a < 256" using n by linarith
  ultimately show ?thesis by (metis mod_less_divisor zero_less_numeral)
qed

lemma base_eq:
  assumes "b < k"
  shows "a * k + b = n \<longleftrightarrow> a = n div k \<and> b = (n mod k :: nat)"
proof
  assume "a * k + b = n"
  then show "a = n div k \<and> b = n mod k" using assms by auto
qed simp

lemma public_v4_blocks:
  "policy_accepts_ip PublicOnly (IPV4 ip) \<longleftrightarrow> \<not> list_ex (in_block (unat ip)) reserved_blocks"
proof -
  have "unat ip < 4294967296" using unsigned_less [of ip] by simp
  then obtain a b c d where n: "unat ip = v4 a b c d"
    and lt: "a < 256" "b < 256" "c < 256" "d < 256" using v4_split by blast
  note tests = block_tests [OF lt]
  have bc: "v4_is_broadcast ip \<Longrightarrow> a = 255"
  proof -
    assume "v4_is_broadcast ip"
    then have "unat ip = 4294967295" by (simp add: v4_is_broadcast_def)
    then show "a = 255" using n tests(2) by simp
  qed
  have oct: "octet_at ip 0 = a" "octet_at ip (Suc 0) = b" "octet_at ip 2 = c"
    by (simp_all only: octet_at_unfold n tests(2) octet_tests [OF lt])
  have A: "policy_accepts_ip PublicOnly (IPV4 ip) \<longleftrightarrow>
      \<not> (a = 0 \<or> a \<ge> 224 \<or> a = 10 \<or> (a = 172 \<and> 16 \<le> b \<and> b \<le> 31) \<or> (a = 192 \<and> b = 168) \<or> a = 127
        \<or> (a = 169 \<and> b = 254) \<or> (a = 192 \<and> b = 0 \<and> c = 2) \<or> (a = 198 \<and> b = 51 \<and> c = 100)
        \<or> (a = 203 \<and> b = 0 \<and> c = 113) \<or> (a = 100 \<and> 64 \<le> b \<and> b \<le> 127)
        \<or> (a = 198 \<and> 18 \<le> b \<and> b \<le> 19) \<or> (a = 192 \<and> b = 0 \<and> c = 0) \<or> (a = 192 \<and> b = 88 \<and> c = 99))"
    using bc by (auto simp: Let_def oct v4_is_private_def v4_is_loopback_def v4_is_link_local_def
        v4_is_documentation_def)
  have B: "list_ex (in_block (unat ip)) reserved_blocks \<longleftrightarrow>
      (a = 0 \<or> a = 10 \<or> a * 4 + b div 64 = 401 \<or> a = 127 \<or> a * 256 + b = 43518
        \<or> a * 16 + b div 16 = 2753 \<or> (a * 256 + b) * 256 + c = 12582912
        \<or> (a * 256 + b) * 256 + c = 12582914 \<or> (a * 256 + b) * 256 + c = 12605539
        \<or> a * 256 + b = 49320 \<or> a * 128 + b div 2 = 25353
        \<or> (a * 256 + b) * 256 + c = 12989284 \<or> (a * 256 + b) * 256 + c = 13303921 \<or> a div 32 = 7)"
    by (simp add: reserved_blocks_def in_block_def n tests) (simp add: v4_def)
  have bits: "b div 64 < 4" "b div 16 < 16" "b div 2 < 128" using lt by simp_all
  have ranges: "b div 64 = 1 \<longleftrightarrow> 64 \<le> b \<and> b \<le> 127" "b div 16 = 1 \<longleftrightarrow> 16 \<le> b \<and> b \<le> 31"
    "b div 2 = 9 \<longleftrightarrow> 18 \<le> b \<and> b \<le> 19" "a div 32 = 7 \<longleftrightarrow> a \<ge> 224"
    using lt by auto
  have C: "a * 4 + b div 64 = 401 \<longleftrightarrow> a = 100 \<and> 64 \<le> b \<and> b \<le> 127"
    "a * 16 + b div 16 = 2753 \<longleftrightarrow> a = 172 \<and> 16 \<le> b \<and> b \<le> 31"
    "a * 128 + b div 2 = 25353 \<longleftrightarrow> a = 198 \<and> 18 \<le> b \<and> b \<le> 19"
    using base_eq [OF bits(1)] base_eq [OF bits(2)] base_eq [OF bits(3)] by (simp_all add: ranges [unfolded One_nat_def])
  have D: "a * 256 + b = 43518 \<longleftrightarrow> a = 169 \<and> b = 254"
    "a * 256 + b = 49320 \<longleftrightarrow> a = 192 \<and> b = 168"
    "(a * 256 + b) * 256 + c = 12582912 \<longleftrightarrow> a = 192 \<and> b = 0 \<and> c = 0"
    "(a * 256 + b) * 256 + c = 12582914 \<longleftrightarrow> a = 192 \<and> b = 0 \<and> c = 2"
    "(a * 256 + b) * 256 + c = 12605539 \<longleftrightarrow> a = 192 \<and> b = 88 \<and> c = 99"
    "(a * 256 + b) * 256 + c = 12989284 \<longleftrightarrow> a = 198 \<and> b = 51 \<and> c = 100"
    "(a * 256 + b) * 256 + c = 13303921 \<longleftrightarrow> a = 203 \<and> b = 0 \<and> c = 113"
    unfolding base_eq [OF lt(2)] base_eq [OF lt(3)] by simp_all
  show ?thesis unfolding A B C D ranges(4) by blast
qed

end
