(* ===== verification/InfoHash.thy ===== *)
theory InfoHash imports Bytes begin

text \<open>
  DHT lookup keys and torrent identities of \<open>src/info_hash.rs\<close>, and the node identifier of
  \<open>src/dht/krpc/message.rs\<close>. The three 20-byte newtypes stay distinct types; the array length
  is the well-formedness predicate \<open>arr20\<close>.
\<close>

definition arr20 :: "bytes \<Rightarrow> bool" where
  "arr20 bs = (length bs = 20)"

datatype swarm_key = SwarmKey (key_bytes: bytes)

datatype node_id = NodeId (id_bytes: bytes)

datatype info_hash_v1 = InfoHashV1 (v1_bytes: bytes)

datatype info_hash_v2 = InfoHashV2 (v2_bytes: bytes)

datatype torrent_identity = TV1 info_hash_v1 | TV2 info_hash_v2

fun identity_bytes :: "torrent_identity \<Rightarrow> bytes" where
  "identity_bytes (TV1 h) = v1_bytes h"
| "identity_bytes (TV2 h) = v2_bytes h"

fun identity_kind :: "torrent_identity \<Rightarrow> string" where
  "identity_kind (TV1 _) = ''v1''"
| "identity_kind (TV2 _) = ''v2''"

definition identity_swarm_key :: "torrent_identity \<Rightarrow> swarm_key" where
  "identity_swarm_key t = SwarmKey (take 20 (identity_bytes t))"

fun identity_ok :: "torrent_identity \<Rightarrow> bool" where
  "identity_ok (TV1 h) = (length (v1_bytes h) = 20)"
| "identity_ok (TV2 h) = (length (v2_bytes h) = 32)"

lemma identity_swarm_key_arr20: "identity_ok t \<Longrightarrow> arr20 (key_bytes (identity_swarm_key t))"
  by (cases t) (auto simp: identity_swarm_key_def arr20_def)

definition id_ok :: "node_id \<Rightarrow> bool" where
  "id_ok i = arr20 (id_bytes i)"

definition key_ok :: "swarm_key \<Rightarrow> bool" where
  "key_ok k = arr20 (key_bytes k)"

lemma id_ok_NodeId [simp]: "id_ok (NodeId bs) \<longleftrightarrow> length bs = 20"
  by (simp add: id_ok_def arr20_def)

lemma key_ok_SwarmKey [simp]: "key_ok (SwarmKey bs) \<longleftrightarrow> length bs = 20"
  by (simp add: key_ok_def arr20_def)

lemma id_ok_length: "id_ok i \<Longrightarrow> length (id_bytes i) = 20"
  by (simp add: id_ok_def arr20_def)

lemma key_ok_length: "key_ok k \<Longrightarrow> length (key_bytes k) = 20"
  by (simp add: key_ok_def arr20_def)

end
