(* ===== verification/Routing.thy ===== *)
theory Routing imports Address InfoHash begin

text \<open>
  The dynamic Kademlia routing table of \<open>src/dht/routing/mod.rs\<close>: contacts and their status,
  bucket prefixes, splitting of the bucket that holds the local identifier, the insertion decision
  of \<open>insert_verified\<close>, query observation, failure recording, the closest-contact queries and
  the refresh schedule; and the shortlist of \<open>src/dht/shortlist.rs\<close>.
  \<open>bucket_index\<close> panics when no bucket contains an identifier: the model returns \<open>None\<close>.
\<close>

section \<open>Contacts\<close>

definition BUCKET_SIZE :: nat where
  "BUCKET_SIZE = 8"

definition GOOD_FOR :: duration where
  "GOOD_FOR = secs (15 * 60)"

definition DEFAULT_BUCKET_REFRESH_AFTER :: duration where
  "DEFAULT_BUCKET_REFRESH_AFTER = secs (15 * 60)"

definition MAX_CONSECUTIVE_FAILURES :: nat where
  "MAX_CONSECUTIVE_FAILURES = 2"

datatype node_status = Good | Questionable | Bad

record node_contact =
  nc_id :: node_id
  nc_address :: socket_addr
  nc_last_response :: instant
  nc_last_query :: "instant option"
  nc_failures :: nat

definition verified_contact :: "node_id \<Rightarrow> socket_addr \<Rightarrow> instant \<Rightarrow> node_contact" where
  "verified_contact i a now =
     \<lparr>nc_id = i, nc_address = a, nc_last_response = now, nc_last_query = None, nc_failures = 0\<rparr>"

definition contact_for_lookup :: "node_id \<Rightarrow> socket_addr \<Rightarrow> instant \<Rightarrow> node_contact" where
  "contact_for_lookup i a now = verified_contact i a now"

definition contact_status :: "node_contact \<Rightarrow> instant \<Rightarrow> node_status" where
  "contact_status c now =
     (if nc_failures c \<ge> MAX_CONSECUTIVE_FAILURES then Bad
      else let responded_recently = now - nc_last_response c \<le> GOOD_FOR;
               queried_recently = (case nc_last_query c of None \<Rightarrow> False
                                   | Some seen \<Rightarrow> now - seen \<le> GOOD_FOR)
           in if responded_recently \<or> queried_recently then Good else Questionable)"

definition last_activity :: "node_contact \<Rightarrow> instant" where
  "last_activity c = (case nc_last_query c of None \<Rightarrow> nc_last_response c
                      | Some q \<Rightarrow> max (nc_last_response c) q)"

section \<open>Bits of identifiers and bucket prefixes\<close>

definition bit_mask :: "nat \<Rightarrow> u8" where
  "bit_mask k = push_bit (7 - k mod 8) 1"

definition bit_value :: "node_id \<Rightarrow> nat \<Rightarrow> bool" where
  "bit_value i k = ((id_bytes i ! (k div 8)) AND bit_mask k \<noteq> 0)"

definition set_bit :: "node_id \<Rightarrow> nat \<Rightarrow> bool \<Rightarrow> node_id" where
  "set_bit i k v = (let byte = k div 8; old = id_bytes i ! byte in
     NodeId ((id_bytes i)[byte := (if v then old OR bit_mask k else old AND NOT (bit_mask k))]))"

record bucket_prefix =
  bp_prefix :: node_id
  bp_len :: nat

definition prefix_root :: bucket_prefix where
  "prefix_root = \<lparr>bp_prefix = NodeId (replicate 20 0), bp_len = 0\<rparr>"

definition prefix_contains :: "bucket_prefix \<Rightarrow> node_id \<Rightarrow> bool" where
  "prefix_contains p i = list_all (\<lambda>k. bit_value (bp_prefix p) k = bit_value i k) [0..<bp_len p]"

definition prefix_split :: "bucket_prefix \<Rightarrow> bucket_prefix \<times> bucket_prefix" where
  "prefix_split p =
     (let right = set_bit (bp_prefix p) (bp_len p) True in
      (\<lparr>bp_prefix = bp_prefix p, bp_len = bp_len p + 1\<rparr>,
       \<lparr>bp_prefix = right, bp_len = bp_len p + 1\<rparr>))"

definition random_target :: "bucket_prefix \<Rightarrow> bytes \<Rightarrow> node_id" where
  "random_target p random =
     fold (\<lambda>k target. set_bit target k (bit_value (bp_prefix p) k)) [0..<bp_len p] (NodeId random)"

definition xor_distance :: "bytes \<Rightarrow> bytes \<Rightarrow> bytes" where
  "xor_distance left right = map (\<lambda>i. left ! i XOR right ! i) [0..<20]"

section \<open>The table\<close>

record bucket =
  bk_range :: bucket_prefix
  bk_nodes :: "node_contact list"
  bk_last_changed :: instant
  bk_last_refresh :: "instant option"

definition new_bucket :: "bucket_prefix \<Rightarrow> instant \<Rightarrow> bucket" where
  "new_bucket r now = \<lparr>bk_range = r, bk_nodes = [], bk_last_changed = now, bk_last_refresh = None\<rparr>"

definition maintenance_base :: "bucket \<Rightarrow> instant" where
  "maintenance_base b = (case bk_last_refresh b of None \<Rightarrow> bk_last_changed b
                         | Some r \<Rightarrow> max (bk_last_changed b) r)"

datatype insert_outcome =
  Inserted
| Updated
| ReplacedBad node_contact
| ProbeRequired "node_contact list" node_contact
| RejectedFull
| IgnoredSelf
| IgnoredWrongAddressFamily

datatype query_observation =
  QueryUpdated
| VerificationRequired node_id socket_addr
| QueryIgnoredReadOnly
| QueryIgnoredSelf
| QueryIgnoredWrongAddressFamily

record routing_table =
  rt_local_id :: node_id
  rt_family :: address_family
  rt_buckets :: "bucket list"

definition new_table :: "node_id \<Rightarrow> address_family \<Rightarrow> instant \<Rightarrow> routing_table" where
  "new_table local fam now =
     \<lparr>rt_local_id = local, rt_family = fam, rt_buckets = [new_bucket prefix_root now]\<rparr>"

definition table_contacts :: "routing_table \<Rightarrow> node_contact list" where
  "table_contacts rt = concat (map bk_nodes (rt_buckets rt))"

definition table_is_empty :: "routing_table \<Rightarrow> bool" where
  "table_is_empty rt = list_all (\<lambda>b. bk_nodes b = []) (rt_buckets rt)"

definition bucket_index :: "routing_table \<Rightarrow> node_id \<Rightarrow> nat option" where
  "bucket_index rt i = position (\<lambda>b. prefix_contains (bk_range b) i) (rt_buckets rt)"

definition contact :: "routing_table \<Rightarrow> node_id \<Rightarrow> node_contact option option" where
  "contact rt i = (case bucket_index rt i of None \<Rightarrow> None
     | Some k \<Rightarrow> Some (List.find (\<lambda>c. nc_id c = i) (bk_nodes (rt_buckets rt ! k))))"

definition put_bucket :: "routing_table \<Rightarrow> nat \<Rightarrow> bucket \<Rightarrow> routing_table" where
  "put_bucket rt k b = rt\<lparr>rt_buckets := (rt_buckets rt)[k := b]\<rparr>"

definition split_nodes :: "bucket_prefix \<Rightarrow> node_contact list \<Rightarrow> node_contact list \<times> node_contact list" where
  "split_nodes l ns = (filter (\<lambda>c. prefix_contains l (nc_id c)) ns,
                       filter (\<lambda>c. \<not> prefix_contains l (nc_id c)) ns)"

definition split_bucket :: "routing_table \<Rightarrow> nat \<Rightarrow> instant \<Rightarrow> routing_table" where
  "split_bucket rt k now =
     (let old = rt_buckets rt ! k;
          (l, r) = prefix_split (bk_range old);
          (ln, rn) = split_nodes l (bk_nodes old)
      in rt\<lparr>rt_buckets := take k (rt_buckets rt)
            @ [(new_bucket l now)\<lparr>bk_nodes := ln\<rparr>, (new_bucket r now)\<lparr>bk_nodes := rn\<rparr>]
            @ drop (Suc k) (rt_buckets rt)\<rparr>)"

definition split_weight :: "routing_table \<Rightarrow> nat" where
  "split_weight rt = sum_list (map (\<lambda>b. 3 ^ (160 - bp_len (bk_range b))) (rt_buckets rt))"

lemma split_weight_less:
  assumes "bucket_index rt i = Some k" and "bp_len (bk_range (rt_buckets rt ! k)) < 160"
  shows "split_weight (split_bucket rt k now) < split_weight rt"
proof -
  let ?bs = "rt_buckets rt" and ?f = "\<lambda>b. 3 ^ (160 - bp_len (bk_range b)) :: nat"
  let ?n = "bp_len (bk_range (?bs ! k))"
  have k: "k < length ?bs" using assms(1) by (auto simp: bucket_index_def dest: position_Some)
  have "sum_list (map ?f ?bs) = sum_list (map ?f (take k ?bs @ ?bs ! k # drop (Suc k) ?bs))"
    using id_take_nth_drop [OF k] by simp
  also have "\<dots> = sum_list (map ?f (take k ?bs)) + ?f (?bs ! k) + sum_list (map ?f (drop (Suc k) ?bs))"
    by simp
  finally have old: "split_weight rt =
      sum_list (map ?f (take k ?bs)) + ?f (?bs ! k) + sum_list (map ?f (drop (Suc k) ?bs))"
    by (simp add: split_weight_def)
  have new: "split_weight (split_bucket rt k now) =
      sum_list (map ?f (take k ?bs)) + 2 * 3 ^ (160 - Suc ?n) + sum_list (map ?f (drop (Suc k) ?bs))"
    by (simp add: split_weight_def split_bucket_def prefix_split_def split_nodes_def Let_def
        new_bucket_def)
  have "160 - ?n = Suc (160 - Suc ?n)" using assms(2) by simp
  then have "?f (?bs ! k) = 3 * 3 ^ (160 - Suc ?n)" by simp
  with old new show ?thesis by simp
qed

function insert_verified ::
  "routing_table \<Rightarrow> node_contact \<Rightarrow> instant \<Rightarrow> (routing_table \<times> insert_outcome) option" where
  "insert_verified rt candidate now =
     (case bucket_index rt (nc_id candidate) of
        None \<Rightarrow> None
      | Some k \<Rightarrow>
         (let b = rt_buckets rt ! k in
          if length (bk_nodes b) < BUCKET_SIZE then
            Some (put_bucket rt k (b\<lparr>bk_nodes := bk_nodes b @ [candidate], bk_last_changed := now\<rparr>),
                  Inserted)
          else case position (\<lambda>c. contact_status c now = Bad) (bk_nodes b) of
            Some p \<Rightarrow>
              Some (put_bucket rt k (b\<lparr>bk_nodes := (bk_nodes b)[p := candidate], bk_last_changed := now\<rparr>),
                    ReplacedBad (bk_nodes b ! p))
          | None \<Rightarrow>
             (let incumbents = sort_key last_activity
                    (filter (\<lambda>c. contact_status c now = Questionable) (bk_nodes b))
              in if incumbents \<noteq> [] then Some (rt, ProbeRequired incumbents candidate)
                 else if prefix_contains (bk_range b) (rt_local_id rt) \<and> bp_len (bk_range b) < 160
                 then insert_verified (split_bucket rt k now) candidate now
                 else Some (rt, RejectedFull))))"
  by pat_completeness auto
termination
  by (relation "measure (\<lambda>(rt, _, _). split_weight rt)") (auto intro: split_weight_less)

declare insert_verified.simps [simp del]

section \<open>Operations\<close>

definition update_nodes :: "(node_contact \<Rightarrow> bool) \<Rightarrow> (node_contact \<Rightarrow> node_contact)
    \<Rightarrow> node_contact list \<Rightarrow> node_contact list option" where
  "update_nodes p f ns = (case position p ns of None \<Rightarrow> None | Some j \<Rightarrow> Some (ns[j := f (ns ! j)]))"

definition observe_response ::
  "routing_table \<Rightarrow> node_id \<Rightarrow> socket_addr \<Rightarrow> instant \<Rightarrow> (routing_table \<times> insert_outcome) option" where
  "observe_response rt i a now =
     (if i = rt_local_id rt then Some (rt, IgnoredSelf)
      else if \<not> family_accepts (rt_family rt) a then Some (rt, IgnoredWrongAddressFamily)
      else case bucket_index rt i of
        None \<Rightarrow> None
      | Some k \<Rightarrow>
         (let b = rt_buckets rt ! k in
          case update_nodes (\<lambda>c. nc_id c = i)
                 (\<lambda>c. c\<lparr>nc_address := a, nc_last_response := now, nc_failures := 0\<rparr>) (bk_nodes b) of
            Some ns \<Rightarrow> Some (put_bucket rt k (b\<lparr>bk_nodes := ns, bk_last_changed := now\<rparr>), Updated)
          | None \<Rightarrow> insert_verified rt (verified_contact i a now) now))"

definition reconsider_candidate ::
  "routing_table \<Rightarrow> node_contact \<Rightarrow> instant \<Rightarrow> (routing_table \<times> insert_outcome) option" where
  "reconsider_candidate rt candidate now = insert_verified rt candidate now"

definition observe_query ::
  "routing_table \<Rightarrow> node_id \<Rightarrow> socket_addr \<Rightarrow> bool \<Rightarrow> instant \<Rightarrow> (routing_table \<times> query_observation) option" where
  "observe_query rt i a read_only now =
     (if read_only then Some (rt, QueryIgnoredReadOnly)
      else if i = rt_local_id rt then Some (rt, QueryIgnoredSelf)
      else if \<not> family_accepts (rt_family rt) a then Some (rt, QueryIgnoredWrongAddressFamily)
      else case bucket_index rt i of
        None \<Rightarrow> None
      | Some k \<Rightarrow>
         (let b = rt_buckets rt ! k in
          case update_nodes (\<lambda>c. nc_id c = i \<and> nc_address c = a)
                 (\<lambda>c. c\<lparr>nc_last_query := Some now\<rparr>) (bk_nodes b) of
            Some ns \<Rightarrow> Some (put_bucket rt k (b\<lparr>bk_nodes := ns\<rparr>), QueryUpdated)
          | None \<Rightarrow> Some (rt, VerificationRequired i a)))"

definition record_failure ::
  "routing_table \<Rightarrow> node_id \<Rightarrow> instant \<Rightarrow> (routing_table \<times> node_status option) option" where
  "record_failure rt i now =
     (case bucket_index rt i of
        None \<Rightarrow> None
      | Some k \<Rightarrow>
         (let b = rt_buckets rt ! k in
          case position (\<lambda>c. nc_id c = i) (bk_nodes b) of
            None \<Rightarrow> Some (rt, None)
          | Some j \<Rightarrow>
              (let c = (bk_nodes b ! j)\<lparr>nc_failures := min (nc_failures (bk_nodes b ! j) + 1) 255\<rparr>
               in Some (put_bucket rt k (b\<lparr>bk_nodes := (bk_nodes b)[j := c]\<rparr>),
                        Some (contact_status c now)))))"

definition mark_refreshed :: "routing_table \<Rightarrow> node_id \<Rightarrow> instant \<Rightarrow> routing_table option" where
  "mark_refreshed rt target now =
     (case bucket_index rt target of
        None \<Rightarrow> None
      | Some k \<Rightarrow> Some (put_bucket rt k ((rt_buckets rt ! k)\<lparr>bk_last_refresh := Some now\<rparr>)))"

section \<open>Queries\<close>

definition closest_matching ::
  "routing_table \<Rightarrow> bytes \<Rightarrow> nat \<Rightarrow> (node_contact \<Rightarrow> bool) \<Rightarrow> node_contact list" where
  "closest_matching rt target limit include =
     closest_by (\<lambda>c. xor_distance (id_bytes (nc_id c)) target) limit
       (filter include (table_contacts rt))"

definition closest_good :: "routing_table \<Rightarrow> bytes \<Rightarrow> nat \<Rightarrow> instant \<Rightarrow> node_contact list" where
  "closest_good rt target limit now =
     closest_matching rt target limit (\<lambda>c. contact_status c now = Good)"

definition usable_key :: "node_id \<Rightarrow> instant \<Rightarrow> node_contact \<Rightarrow> bytes" where
  "usable_key target now c =
     (if contact_status c now \<noteq> Good then 1 else 0) # xor_distance (id_bytes (nc_id c)) (id_bytes target)"

definition closest_usable :: "routing_table \<Rightarrow> node_id \<Rightarrow> nat \<Rightarrow> instant \<Rightarrow> node_contact list" where
  "closest_usable rt target limit now =
     closest_by (usable_key target now) limit
       (closest_matching rt (id_bytes target) (length (table_contacts rt))
          (\<lambda>c. contact_status c now \<noteq> Bad))"

definition next_refresh_deadline :: "routing_table \<Rightarrow> duration \<Rightarrow> instant option" where
  "next_refresh_deadline rt refresh_after =
     (if table_is_empty rt then None
      else case map (\<lambda>b. maintenance_base b + refresh_after) (rt_buckets rt) of
        [] \<Rightarrow> None | d # ds \<Rightarrow> Some (foldl min d ds))"

fun min_by_key :: "('a \<Rightarrow> 'k::linorder) \<Rightarrow> 'a list \<Rightarrow> 'a option" where
  "min_by_key f [] = None"
| "min_by_key f (x # xs) = (case min_by_key f xs of None \<Rightarrow> Some x
     | Some y \<Rightarrow> if f y < f x then Some y else Some x)"

definition stale_refresh_target ::
  "routing_table \<Rightarrow> instant \<Rightarrow> duration \<Rightarrow> bytes \<Rightarrow> node_id option" where
  "stale_refresh_target rt now refresh_after random =
     (if table_is_empty rt then None
      else map_option (\<lambda>b. random_target (bk_range b) random)
        (min_by_key maintenance_base
          (filter (\<lambda>b. now \<ge> maintenance_base b + refresh_after) (rt_buckets rt))))"

section \<open>Shortlist\<close>

datatype candidate_state = Unqueried | InFlight | Succeeded | Failed

definition closest_valid :: "(node_id \<times> candidate_state) list \<Rightarrow> node_id \<Rightarrow> nat \<Rightarrow> node_id list" where
  "closest_valid candidates target limit =
     map fst (closest_by (\<lambda>(i, _). xor_distance (id_bytes i) (id_bytes target)) limit
       (filter (\<lambda>(_, s). s \<noteq> Failed) candidates))"

end
