(* ===== verification/RoutingInv.thy ===== *)
theory RoutingInv imports Routing "HOL-Library.Multiset" begin

text \<open>
  The invariant of the routing table and its preservation by every operation: the bucket ranges
  partition the identifier space (so \<open>bucket_index\<close> never panics), every bucket holds at most
  eight contacts of its own range and of the table's family, and the number of buckets is one more
  than the depth of the bucket that holds the local identifier. What an insertion does to the
  contacts is stated over multisets.
\<close>

section \<open>Bits\<close>

lemma bit_mask_exp: "bit_mask k = 2 ^ (7 - k mod 8)"
  by (simp add: bit_mask_def push_bit_eq_mult)

lemma bit_value_alt: "bit_value i k \<longleftrightarrow> bit (id_bytes i ! (k div 8)) (7 - k mod 8)"
  by (simp add: bit_value_def bit_mask_exp and_exp_eq_0_iff_not_bit)

lemma id_ok_set_bit [simp]: "id_ok (set_bit i k v) = id_ok i"
  by (simp add: set_bit_def id_ok_def arr20_def Let_def)

lemma bit_value_set_bit:
  assumes "id_ok i" and "k < 160"
  shows "bit_value (set_bit i k v) j = (if j = k then v else bit_value i j)"
proof -
  have b: "k div 8 < length (id_bytes i)"
    using assms by (simp add: id_ok_length div_less_iff_less_mult)
  show ?thesis
  proof (cases "j div 8 = k div 8")
    case False
    then have "j \<noteq> k" by auto
    with False show ?thesis by (simp add: bit_value_alt set_bit_def Let_def)
  next
    case True
    have m: "j = k \<longleftrightarrow> j mod 8 = k mod 8"
      using True by (metis div_mult_mod_eq)
    have "j mod 8 < 8" "k mod 8 < 8" by simp_all
    then have "7 - j mod 8 = 7 - k mod 8 \<longleftrightarrow> j = k" and "7 - j mod 8 < 8" using m by linarith+
    then show ?thesis using True b
      by (auto simp: bit_value_alt set_bit_def Let_def bit_mask_exp bit_simps)
  qed
qed

section \<open>Bucket prefixes\<close>

definition prefix_ok :: "bucket_prefix \<Rightarrow> bool" where
  "prefix_ok p \<longleftrightarrow> id_ok (bp_prefix p) \<and> bp_len p \<le> 160
     \<and> (\<forall>k. bp_len p \<le> k \<and> k < 160 \<longrightarrow> \<not> bit_value (bp_prefix p) k)"

lemma prefix_contains_iff:
  "prefix_contains p i \<longleftrightarrow> (\<forall>k<bp_len p. bit_value (bp_prefix p) k = bit_value i k)"
  by (auto simp: prefix_contains_def list_all_iff)

lemma prefix_ok_root [simp]: "prefix_ok prefix_root"
proof -
  have "\<not> bit_value (bp_prefix prefix_root) k" if "k < 160" for k
  proof -
    have "k div 8 < 20" using that by (simp add: div_less_iff_less_mult)
    then show ?thesis by (simp add: bit_value_alt prefix_root_def)
  qed
  then show ?thesis by (simp add: prefix_ok_def) (simp add: prefix_root_def)
qed

lemma prefix_contains_root [simp]: "prefix_contains prefix_root i"
  by (simp add: prefix_contains_def prefix_root_def)

lemma prefix_split_contains:
  assumes "prefix_ok p" and "bp_len p < 160"
  shows "prefix_contains (fst (prefix_split p)) i \<longleftrightarrow> prefix_contains p i \<and> \<not> bit_value i (bp_len p)"
    and "prefix_contains (snd (prefix_split p)) i \<longleftrightarrow> prefix_contains p i \<and> bit_value i (bp_len p)"
proof -
  have zero: "\<not> bit_value (bp_prefix p) (bp_len p)" and ok: "id_ok (bp_prefix p)"
    using assms by (auto simp: prefix_ok_def)
  show "prefix_contains (fst (prefix_split p)) i \<longleftrightarrow> prefix_contains p i \<and> \<not> bit_value i (bp_len p)"
    using zero by (auto simp: prefix_contains_iff prefix_split_def Let_def less_Suc_eq)
  show "prefix_contains (snd (prefix_split p)) i \<longleftrightarrow> prefix_contains p i \<and> bit_value i (bp_len p)"
    using bit_value_set_bit [OF ok assms(2), of True]
    by (auto simp: prefix_contains_iff prefix_split_def Let_def less_Suc_eq)
qed

lemma prefix_split_ok:
  assumes "prefix_ok p" and "bp_len p < 160"
  shows "prefix_ok (fst (prefix_split p))" and "prefix_ok (snd (prefix_split p))"
  using assms by (auto simp: prefix_ok_def prefix_split_def Let_def bit_value_set_bit)

lemma prefix_split_len [simp]:
  "bp_len (fst (prefix_split p)) = Suc (bp_len p)" "bp_len (snd (prefix_split p)) = Suc (bp_len p)"
  by (simp_all add: prefix_split_def Let_def)

lemma random_target_bits:
  assumes "length random = 20" and "prefix_ok p"
  shows "id_ok (random_target p random) \<and>
    (\<forall>k. bit_value (random_target p random) k =
      (if k < bp_len p then bit_value (bp_prefix p) k else bit_value (NodeId random) k))"
proof -
  have "id_ok (fold (\<lambda>k t. set_bit t k (bit_value (bp_prefix p) k)) [0..<n] (NodeId random)) \<and>
    (\<forall>k. bit_value (fold (\<lambda>k t. set_bit t k (bit_value (bp_prefix p) k)) [0..<n] (NodeId random)) k =
      (if k < n then bit_value (bp_prefix p) k else bit_value (NodeId random) k))"
    if "n \<le> 160" for n
    using that
  proof (induction n)
    case 0
    then show ?case using assms(1) by simp
  next
    case (Suc n)
    then show ?case by (auto simp: bit_value_set_bit less_Suc_eq)
  qed
  then show ?thesis using assms(2) by (simp add: random_target_def prefix_ok_def)
qed

lemma random_target_contains:
  "length random = 20 \<Longrightarrow> prefix_ok p \<Longrightarrow> prefix_contains p (random_target p random)"
  using random_target_bits by (auto simp: prefix_contains_iff)

section \<open>The invariant\<close>

definition contact_ok :: "routing_table \<Rightarrow> node_contact \<Rightarrow> bool" where
  "contact_ok rt c \<longleftrightarrow> id_ok (nc_id c) \<and> nc_id c \<noteq> rt_local_id rt \<and> family_accepts (rt_family rt) (nc_address c)"

definition bucket_ok :: "routing_table \<Rightarrow> bucket \<Rightarrow> bool" where
  "bucket_ok rt b \<longleftrightarrow> prefix_ok (bk_range b) \<and> length (bk_nodes b) \<le> BUCKET_SIZE
     \<and> (\<forall>c\<in>set (bk_nodes b). contact_ok rt c \<and> prefix_contains (bk_range b) (nc_id c))"

definition holds :: "node_id \<Rightarrow> bucket \<Rightarrow> bool" where
  "holds i b = prefix_contains (bk_range b) i"

definition covers :: "bucket list \<Rightarrow> bool" where
  "covers bs \<longleftrightarrow> (\<forall>i. id_ok i \<longrightarrow> length (filter (holds i) bs) = 1)"

definition depth_ok :: "routing_table \<Rightarrow> bool" where
  "depth_ok rt \<longleftrightarrow> (\<forall>b\<in>set (rt_buckets rt). holds (rt_local_id rt) b
     \<longrightarrow> length (rt_buckets rt) = bp_len (bk_range b) + 1)"

definition rt_inv :: "routing_table \<Rightarrow> bool" where
  "rt_inv rt \<longleftrightarrow> id_ok (rt_local_id rt) \<and> (\<forall>b\<in>set (rt_buckets rt). bucket_ok rt b)
     \<and> covers (rt_buckets rt) \<and> depth_ok rt"

lemma rt_inv_new [intro]: "id_ok i \<Longrightarrow> rt_inv (new_table i fam now)"
  by (simp add: rt_inv_def new_table_def new_bucket_def bucket_ok_def covers_def depth_ok_def holds_def)
    (simp add: prefix_root_def)

lemma covers_cong: "map bk_range bs = map bk_range cs \<Longrightarrow> covers bs = covers cs"
proof -
  assume eq: "map bk_range bs = map bk_range cs"
  have "length (filter (holds i) xs) = length (filter (\<lambda>p. prefix_contains p i) (map bk_range xs))" for i xs
    by (induction xs) (auto simp: holds_def)
  then show ?thesis unfolding covers_def by (simp only: eq)
qed

lemma bucket_index_total:
  assumes "rt_inv rt" and "id_ok i"
  obtains k where "bucket_index rt i = Some k" and "k < length (rt_buckets rt)"
    and "holds i (rt_buckets rt ! k)"
    and "\<And>b. b \<in> set (take k (rt_buckets rt)) \<Longrightarrow> \<not> holds i b"
    and "\<And>b. b \<in> set (drop (Suc k) (rt_buckets rt)) \<Longrightarrow> \<not> holds i b"
proof -
  let ?bs = "rt_buckets rt"
  have one: "length (filter (holds i) ?bs) = 1" using assms by (simp add: rt_inv_def covers_def)
  then have "filter (holds i) ?bs \<noteq> []" by auto
  then have ex: "\<exists>b\<in>set ?bs. holds i b" by (auto simp: filter_empty_conv)
  obtain k where k: "bucket_index rt i = Some k"
    using ex by (cases "bucket_index rt i") (auto simp: bucket_index_def position_None holds_def)
  then have lt: "k < length ?bs" and h: "holds i (?bs ! k)"
    using position_Some [of "\<lambda>b. prefix_contains (bk_range b) i" ?bs k] by (auto simp: bucket_index_def holds_def)
  have "filter (holds i) ?bs = filter (holds i) (take k ?bs) @ ?bs ! k # filter (holds i) (drop (Suc k) ?bs)"
    using h by (subst id_take_nth_drop [OF lt]) simp
  with one have "filter (holds i) (take k ?bs) = [] \<and> filter (holds i) (drop (Suc k) ?bs) = []" by simp
  then show ?thesis using that [OF k lt h] by (auto simp: filter_empty_conv)
qed

lemma rt_bucket_ok: "rt_inv rt \<Longrightarrow> k < length (rt_buckets rt) \<Longrightarrow> bucket_ok rt (rt_buckets rt ! k)"
  by (simp add: rt_inv_def)

lemma put_bucket_fields [simp]:
  "rt_local_id (put_bucket rt k b) = rt_local_id rt" "rt_family (put_bucket rt k b) = rt_family rt"
  by (simp_all add: put_bucket_def)

lemma contact_ok_put [simp]: "contact_ok (put_bucket rt k b) = contact_ok rt"
  by (rule ext) (simp add: contact_ok_def)

lemma bucket_ok_put [simp]: "bucket_ok (put_bucket rt k b) = bucket_ok rt"
  by (rule ext) (simp add: bucket_ok_def)

lemma rt_inv_put [inv_intros]:
  assumes inv: "rt_inv rt" and k: "k < length (rt_buckets rt)"
    and range: "bk_range b = bk_range (rt_buckets rt ! k)" and ok: "bucket_ok rt b"
  shows "rt_inv (put_bucket rt k b)"
proof -
  let ?rt = "put_bucket rt k b"
  have bs: "rt_buckets ?rt = (rt_buckets rt)[k := b]" by (simp add: put_bucket_def)
  have ranges: "map bk_range (rt_buckets ?rt) = map bk_range (rt_buckets rt)"
    using k range by (simp add: bs map_update list_update_same_conv)
  have "covers (rt_buckets ?rt)"
    using inv covers_cong [OF ranges] by (simp add: rt_inv_def)
  moreover have "\<forall>b'\<in>set (rt_buckets ?rt). bucket_ok rt b'"
    using inv ok set_update_subset_insert [of "rt_buckets rt" k b] by (auto simp: bs rt_inv_def)
  moreover have "depth_ok ?rt"
  proof -
    have "\<forall>p\<in>set (map bk_range (rt_buckets rt)). prefix_contains p (rt_local_id rt)
        \<longrightarrow> length (rt_buckets rt) = bp_len p + 1"
      using inv by (auto simp: rt_inv_def depth_ok_def holds_def)
    then have "\<forall>p\<in>set (map bk_range (rt_buckets ?rt)). prefix_contains p (rt_local_id rt)
        \<longrightarrow> length (rt_buckets ?rt) = bp_len p + 1"
      unfolding ranges by (simp add: bs)
    then show ?thesis by (auto simp: depth_ok_def holds_def)
  qed
  ultimately show ?thesis using inv by (simp add: rt_inv_def)
qed

section \<open>Splitting a bucket\<close>

lemma split_bucket_fields [simp]:
  "rt_local_id (split_bucket rt k now) = rt_local_id rt" "rt_family (split_bucket rt k now) = rt_family rt"
  by (simp_all add: split_bucket_def Let_def split: prod.splits)

definition left_half :: "bucket \<Rightarrow> instant \<Rightarrow> bucket" where
  "left_half b now = (new_bucket (fst (prefix_split (bk_range b))) now)
     \<lparr>bk_nodes := filter (\<lambda>c. prefix_contains (fst (prefix_split (bk_range b))) (nc_id c)) (bk_nodes b)\<rparr>"

definition right_half :: "bucket \<Rightarrow> instant \<Rightarrow> bucket" where
  "right_half b now = (new_bucket (snd (prefix_split (bk_range b))) now)
     \<lparr>bk_nodes := filter (\<lambda>c. \<not> prefix_contains (fst (prefix_split (bk_range b))) (nc_id c)) (bk_nodes b)\<rparr>"

lemma split_bucket_buckets:
  "rt_buckets (split_bucket rt k now) = take k (rt_buckets rt)
     @ [left_half (rt_buckets rt ! k) now, right_half (rt_buckets rt ! k) now]
     @ drop (Suc k) (rt_buckets rt)"
  by (simp add: split_bucket_def left_half_def right_half_def split_nodes_def Let_def split: prod.splits)

lemma half_simps [simp]:
  "bk_range (left_half b now) = fst (prefix_split (bk_range b))"
  "bk_range (right_half b now) = snd (prefix_split (bk_range b))"
  "bk_nodes (left_half b now) = filter (\<lambda>c. prefix_contains (fst (prefix_split (bk_range b))) (nc_id c)) (bk_nodes b)"
  "bk_nodes (right_half b now) = filter (\<lambda>c. \<not> prefix_contains (fst (prefix_split (bk_range b))) (nc_id c)) (bk_nodes b)"
  by (simp_all add: left_half_def right_half_def new_bucket_def)

lemma rt_inv_split:
  assumes inv: "rt_inv rt" and i: "id_ok i" and idx: "bucket_index rt i = Some k"
    and loc: "holds (rt_local_id rt) (rt_buckets rt ! k)"
    and len: "bp_len (bk_range (rt_buckets rt ! k)) < 160"
  shows "rt_inv (split_bucket rt k now)"
proof -
  let ?bs = "rt_buckets rt" and ?b = "rt_buckets rt ! k" and ?rt = "split_bucket rt k now"
  obtain k' where k': "bucket_index rt i = Some k'" "k' < length ?bs"
    using bucket_index_total [OF inv i] by blast
  then have k: "k < length ?bs" using idx by simp
  have bok: "bucket_ok rt ?b" using inv k by (rule rt_bucket_ok)
  then have pok: "prefix_ok (bk_range ?b)" by (simp add: bucket_ok_def)
  note cont = prefix_split_contains [OF pok len] and poks = prefix_split_ok [OF pok len]
  have ok_l: "bucket_ok ?rt (left_half ?b now)"
    using bok poks(1) by (auto simp: bucket_ok_def contact_ok_def intro: le_trans [OF length_filter_le])
  have ok_r: "bucket_ok ?rt (right_half ?b now)"
    using bok poks(2) by (auto simp: bucket_ok_def contact_ok_def cont intro: le_trans [OF length_filter_le])
  have rest: "\<forall>b\<in>set (take k ?bs) \<union> set (drop (Suc k) ?bs). bucket_ok ?rt b"
    using inv by (auto simp: rt_inv_def bucket_ok_def contact_ok_def dest!: in_set_takeD in_set_dropD)
  have halves: "length (filter (holds j) [left_half ?b now, right_half ?b now]) =
      (if holds j ?b then 1 else 0)" for j
    by (simp add: holds_def cont)
  have count: "length (filter (holds j) (rt_buckets ?rt)) = length (filter (holds j) ?bs)" for j
  proof -
    have "length (filter (holds j) ?bs) = length (filter (holds j) (take k ?bs))
        + (if holds j ?b then 1 else 0) + length (filter (holds j) (drop (Suc k) ?bs))"
      by (subst (1) id_take_nth_drop [OF k]) simp
    moreover have "length (filter (holds j) (rt_buckets ?rt)) = length (filter (holds j) (take k ?bs))
        + (if holds j ?b then 1 else 0) + length (filter (holds j) (drop (Suc k) ?bs))"
      unfolding split_bucket_buckets filter_append length_append halves by simp
    ultimately show ?thesis by simp
  qed
  have cov: "covers (rt_buckets ?rt)"
    using inv by (simp add: covers_def count rt_inv_def)
  have lenb: "length (rt_buckets ?rt) = Suc (length ?bs)"
    using k by (simp add: split_bucket_buckets)
  have nb: "length ?bs = bp_len (bk_range ?b) + 1"
    using inv loc k by (simp add: rt_inv_def depth_ok_def)
  have lid: "id_ok (rt_local_id rt)" using inv by (simp add: rt_inv_def)
  have others: "\<not> holds (rt_local_id rt) b" if b: "b \<in> set (take k ?bs) \<union> set (drop (Suc k) ?bs)" for b
  proof -
    have "length (filter (holds (rt_local_id rt)) ?bs) = 1"
      using inv lid by (simp add: rt_inv_def covers_def)
    moreover have "filter (holds (rt_local_id rt)) ?bs = filter (holds (rt_local_id rt)) (take k ?bs)
        @ ?b # filter (holds (rt_local_id rt)) (drop (Suc k) ?bs)"
      using loc by (subst (1) id_take_nth_drop [OF k]) simp
    ultimately have "filter (holds (rt_local_id rt)) (take k ?bs) = []"
      "filter (holds (rt_local_id rt)) (drop (Suc k) ?bs) = []" by simp_all
    with b show ?thesis by (auto simp: filter_empty_conv)
  qed
  have dep: "depth_ok ?rt"
    unfolding depth_ok_def using others lenb nb
    by (auto simp: split_bucket_buckets)
  have "\<forall>b\<in>set (rt_buckets ?rt). bucket_ok ?rt b"
    using rest ok_l ok_r by (auto simp: split_bucket_buckets)
  then show ?thesis using lid cov dep by (simp add: rt_inv_def)
qed

lemma table_contacts_split:
  assumes "k < length (rt_buckets rt)"
  shows "mset (table_contacts (split_bucket rt k now)) = mset (table_contacts rt)"
proof -
  let ?b = "rt_buckets rt ! k"
  have "mset (table_contacts rt) = mset (concat (map bk_nodes (take k (rt_buckets rt))))
      + mset (bk_nodes ?b) + mset (concat (map bk_nodes (drop (Suc k) (rt_buckets rt))))"
    unfolding table_contacts_def by (subst (1) id_take_nth_drop [OF assms]) simp
  moreover have "mset (bk_nodes ?b) = mset (bk_nodes (left_half ?b now)) + mset (bk_nodes (right_half ?b now))"
    using multiset_partition [of "mset (bk_nodes ?b)"
        "\<lambda>c. prefix_contains (fst (prefix_split (bk_range ?b))) (nc_id c)"] by simp
  ultimately show ?thesis
    by (simp add: table_contacts_def split_bucket_buckets del: half_simps mset_filter)
qed

lemma table_contacts_put:
  assumes "k < length (rt_buckets rt)"
  shows "mset (table_contacts (put_bucket rt k b)) + mset (bk_nodes (rt_buckets rt ! k)) =
    mset (table_contacts rt) + mset (bk_nodes b)"
proof -
  let ?bs = "rt_buckets rt"
  have "mset (table_contacts rt) = mset (concat (map bk_nodes (take k ?bs)))
      + mset (bk_nodes (?bs ! k)) + mset (concat (map bk_nodes (drop (Suc k) ?bs)))"
    unfolding table_contacts_def by (subst (1) id_take_nth_drop [OF assms]) simp
  moreover have "rt_buckets (put_bucket rt k b) = take k ?bs @ b # drop (Suc k) ?bs"
    using assms by (simp add: put_bucket_def upd_conv_take_nth_drop)
  ultimately show ?thesis by (simp add: table_contacts_def)
qed

end
