(* ===== verification/RoutingOps.thy ===== *)
theory RoutingOps imports RoutingInv begin

text \<open>
  Every operation of the routing table keeps the invariant and never panics (the interpretation
  \<open>routing_ops\<close> of \<open>panic_free_ops\<close>); the effect of an insertion on the contacts; when the
  identifiers stay distinct (\<open>routing_distinct\<close>) and a run in which they do not; and what the
  closest-contact and refresh queries return.
\<close>

section \<open>Insertion\<close>

lemma bucket_ok_append:
  "bucket_ok rt b \<Longrightarrow> length (bk_nodes b) < BUCKET_SIZE \<Longrightarrow> contact_ok rt c \<Longrightarrow> holds (nc_id c) b \<Longrightarrow>
   bucket_ok rt (b\<lparr>bk_nodes := bk_nodes b @ [c], bk_last_changed := now\<rparr>)"
  by (auto simp: bucket_ok_def holds_def)

lemma bucket_ok_update:
  assumes "bucket_ok rt b" and "contact_ok rt c" and "holds (nc_id c) b"
  shows "bucket_ok rt (b\<lparr>bk_nodes := (bk_nodes b)[j := c]\<rparr>)"
    and "bucket_ok rt (b\<lparr>bk_nodes := (bk_nodes b)[j := c], bk_last_changed := now\<rparr>)"
  using assms set_update_subset_insert [of "bk_nodes b" j c]
  by (auto simp: bucket_ok_def holds_def)

definition insert_effect :: "routing_table \<Rightarrow> node_contact \<Rightarrow> instant \<Rightarrow> routing_table \<Rightarrow> insert_outcome \<Rightarrow> bool" where
  "insert_effect rt c now rt' out \<longleftrightarrow>
     (case out of
        Inserted \<Rightarrow> mset (table_contacts rt') = mset (table_contacts rt) + {#c#}
      | ReplacedBad r \<Rightarrow> r \<in> set (table_contacts rt) \<and> contact_status r now = Bad \<and>
          mset (table_contacts rt') + {#r#} = mset (table_contacts rt) + {#c#}
      | ProbeRequired inc c' \<Rightarrow> c' = c \<and> inc \<noteq> [] \<and> sorted (map last_activity inc) \<and>
          (\<forall>x\<in>set inc. x \<in> set (table_contacts rt) \<and> contact_status x now = Questionable) \<and>
          mset (table_contacts rt') = mset (table_contacts rt) \<and>
          (\<exists>k. bucket_index rt' (nc_id c) = Some k \<and> length (bk_nodes (rt_buckets rt' ! k)) = BUCKET_SIZE \<and>
             (\<forall>x\<in>set (bk_nodes (rt_buckets rt' ! k)). contact_status x now \<noteq> Bad) \<and>
             mset inc = filter_mset (\<lambda>x. contact_status x now = Questionable) (mset (bk_nodes (rt_buckets rt' ! k))))
      | RejectedFull \<Rightarrow> mset (table_contacts rt') = mset (table_contacts rt) \<and>
          (\<exists>k. bucket_index rt' (nc_id c) = Some k \<and> length (bk_nodes (rt_buckets rt' ! k)) = BUCKET_SIZE \<and>
             (\<forall>x\<in>set (bk_nodes (rt_buckets rt' ! k)). contact_status x now = Good) \<and>
             \<not> (prefix_contains (bk_range (rt_buckets rt' ! k)) (rt_local_id rt') \<and>
                bp_len (bk_range (rt_buckets rt' ! k)) < 160))
      | _ \<Rightarrow> False)"

lemma insert_effect_cong:
  "mset (table_contacts rt1) = mset (table_contacts rt2) \<Longrightarrow>
   insert_effect rt1 c now rt' out = insert_effect rt2 c now rt' out"
  by (auto simp: insert_effect_def split: insert_outcome.splits dest: mset_eq_setD)

lemma nodes_subset: "k < length (rt_buckets rt) \<Longrightarrow> set (bk_nodes (rt_buckets rt ! k)) \<subseteq> set (table_contacts rt)"
  by (auto simp: table_contacts_def intro!: bexI [OF _ nth_mem])

lemma mset_exchange:
  fixes X :: "'a multiset"
  assumes "X + V = C + N" and "N + R = V + D"
  shows "X + R = C + D"
proof -
  have "X + R + V = (X + V) + R" by (simp add: ac_simps)
  also have "\<dots> = C + (N + R)" using assms(1) by (simp add: ac_simps)
  also have "\<dots> = C + D + V" using assms(2) by (simp add: ac_simps)
  finally show ?thesis by simp
qed

lemma insert_verified_inv:
  assumes "rt_inv rt" and "contact_ok rt c"
  shows "\<exists>rt' out. insert_verified rt c now = Some (rt', out) \<and> rt_inv rt'
    \<and> rt_local_id rt' = rt_local_id rt \<and> rt_family rt' = rt_family rt \<and> insert_effect rt c now rt' out"
  using assms
proof (induction rt c now rule: insert_verified.induct)
  case (1 rt c now)
  have i: "id_ok (nc_id c)" using "1.prems" by (simp add: contact_ok_def)
  obtain k where k: "bucket_index rt (nc_id c) = Some k" and lt: "k < length (rt_buckets rt)"
    and h: "holds (nc_id c) (rt_buckets rt ! k)"
    by (rule bucket_index_total [OF "1.prems"(1) i]) (erule (2) that)
  let ?b = "rt_buckets rt ! k"
  have bok: "bucket_ok rt ?b" using "1.prems"(1) lt by (rule rt_bucket_ok)
  let ?inc = "sort_key last_activity (filter (\<lambda>c. contact_status c now = Questionable) (bk_nodes ?b))"
  consider (room) "length (bk_nodes ?b) < BUCKET_SIZE"
    | (bad) p where "\<not> length (bk_nodes ?b) < BUCKET_SIZE"
        "position (\<lambda>c. contact_status c now = Bad) (bk_nodes ?b) = Some p"
    | (probe) "\<not> length (bk_nodes ?b) < BUCKET_SIZE"
        "position (\<lambda>c. contact_status c now = Bad) (bk_nodes ?b) = None" "?inc \<noteq> []"
    | (split) "\<not> length (bk_nodes ?b) < BUCKET_SIZE"
        "position (\<lambda>c. contact_status c now = Bad) (bk_nodes ?b) = None" "\<not> ?inc \<noteq> []"
        "prefix_contains (bk_range ?b) (rt_local_id rt) \<and> bp_len (bk_range ?b) < 160"
    | (full) "\<not> length (bk_nodes ?b) < BUCKET_SIZE"
        "position (\<lambda>c. contact_status c now = Bad) (bk_nodes ?b) = None" "\<not> ?inc \<noteq> []"
        "\<not> (prefix_contains (bk_range ?b) (rt_local_id rt) \<and> bp_len (bk_range ?b) < 160)"
    by blast
  then show ?case
  proof cases
    case room
    let ?new = "?b\<lparr>bk_nodes := bk_nodes ?b @ [c], bk_last_changed := now\<rparr>"
    have "insert_verified rt c now = Some (put_bucket rt k ?new, Inserted)"
      using k room by (simp add: insert_verified.simps [of rt] Let_def)
    moreover have "rt_inv (put_bucket rt k ?new)"
      using "1.prems" lt bok room h by (intro rt_inv_put bucket_ok_append) simp_all
    moreover have "insert_effect rt c now (put_bucket rt k ?new) Inserted"
      using table_contacts_put [OF lt, of ?new] by (simp add: insert_effect_def)
    ultimately show ?thesis by simp
  next
    case bad
    let ?new = "?b\<lparr>bk_nodes := (bk_nodes ?b)[p := c], bk_last_changed := now\<rparr>"
    have p: "p < length (bk_nodes ?b)" "contact_status (bk_nodes ?b ! p) now = Bad"
      using position_Some [OF bad(2)] by simp_all
    have "insert_verified rt c now = Some (put_bucket rt k ?new, ReplacedBad (bk_nodes ?b ! p))"
      using k bad by (simp add: insert_verified.simps [of rt] Let_def)
    moreover have "rt_inv (put_bucket rt k ?new)"
      using "1.prems" lt bok h by (intro rt_inv_put bucket_ok_update) simp_all
    moreover have u: "mset ((bk_nodes ?b)[p := c]) + {#bk_nodes ?b ! p#} = mset (bk_nodes ?b) + {#c#}"
    proof -
      have "bk_nodes ?b ! p \<in># mset (bk_nodes ?b)" using p(1) by simp
      then show ?thesis unfolding mset_update [OF p(1)] by simp
    qed
    have "mset (table_contacts (put_bucket rt k ?new)) + mset (bk_nodes ?b) =
        mset (table_contacts rt) + mset ((bk_nodes ?b)[p := c])"
      using table_contacts_put [OF lt, of ?new] by (simp del: mset_update)
    from mset_exchange [OF this u]
    have "mset (table_contacts (put_bucket rt k ?new)) + {#bk_nodes ?b ! p#} = mset (table_contacts rt) + {#c#}" .
    then have "insert_effect rt c now (put_bucket rt k ?new) (ReplacedBad (bk_nodes ?b ! p))"
      using p nodes_subset [OF lt] nth_mem [OF p(1)] by (auto simp: insert_effect_def)
    ultimately show ?thesis by simp
  next
    case probe
    have "insert_verified rt c now = Some (rt, ProbeRequired ?inc c)"
      using k probe by (simp add: insert_verified.simps [of rt] Let_def)
    moreover have "insert_effect rt c now rt (ProbeRequired ?inc c)"
      using probe(1-3) nodes_subset [OF lt] k bok
      by (auto simp: insert_effect_def position_None bucket_ok_def mset_filter intro!: exI [of _ k])
    ultimately show ?thesis using "1.prems" by simp
  next
    case split
    let ?rt = "split_bucket rt k now"
    have step: "insert_verified rt c now = insert_verified ?rt c now"
      using k split by (simp add: insert_verified.simps [of rt] Let_def)
    have inv: "rt_inv ?rt"
      using "1.prems"(1) i k split(4) by (intro rt_inv_split) (simp_all add: holds_def)
    have ok: "contact_ok ?rt c" using "1.prems"(2) by (simp add: contact_ok_def)
    have "\<exists>rt' out. insert_verified ?rt c now = Some (rt', out) \<and> rt_inv rt'
        \<and> rt_local_id rt' = rt_local_id ?rt \<and> rt_family rt' = rt_family ?rt \<and> insert_effect ?rt c now rt' out"
      using "1.IH" [OF k refl split(1,2) refl split(3,4) inv ok] .
    then show ?thesis
      using step insert_effect_cong [OF table_contacts_split [OF lt, of now]] by auto
  next
    case full
    have "insert_verified rt c now = Some (rt, RejectedFull)"
      using k full by (auto simp add: insert_verified.simps [of rt] Let_def)
    moreover have "contact_status x now = Good" if "x \<in> set (bk_nodes ?b)" for x
    proof -
      have "contact_status x now \<noteq> Bad" using full(2) that by (auto simp: position_None)
      moreover have "filter (\<lambda>c. contact_status c now = Questionable) (bk_nodes ?b) = []"
        using full(3) by (metis length_0_conv length_sort)
      then have "contact_status x now \<noteq> Questionable" using that by (auto simp: filter_empty_conv)
      ultimately show ?thesis by (cases "contact_status x now") auto
    qed
    moreover have "length (bk_nodes ?b) = BUCKET_SIZE" using bok full(1) by (simp add: bucket_ok_def)
    ultimately show ?thesis using "1.prems" k full(4) by (auto simp: insert_effect_def)
  qed
qed

section \<open>Every operation\<close>

datatype rt_op =
  OpResponse node_id socket_addr instant
| OpReconsider node_contact instant
| OpQuery node_id socket_addr bool instant
| OpFailure node_id instant
| OpRefreshed node_id instant

fun rt_step :: "routing_table \<Rightarrow> rt_op \<Rightarrow> routing_table option" where
  "rt_step rt (OpResponse i a now) = map_option fst (observe_response rt i a now)"
| "rt_step rt (OpReconsider c now) = map_option fst (reconsider_candidate rt c now)"
| "rt_step rt (OpQuery i a ro now) = map_option fst (observe_query rt i a ro now)"
| "rt_step rt (OpFailure i now) = map_option fst (record_failure rt i now)"
| "rt_step rt (OpRefreshed t now) = mark_refreshed rt t now"

text \<open>
  The identifiers of an operation are 20 bytes long, and a candidate that is put forward again is
  one that the table itself handed out (\<open>ProbeRequired\<close>), so it passed the checks of
  \<open>observe_response\<close>.
\<close>

fun rt_adm :: "routing_table \<Rightarrow> rt_op \<Rightarrow> bool" where
  "rt_adm rt (OpResponse i a now) = id_ok i"
| "rt_adm rt (OpReconsider c now) = contact_ok rt c"
| "rt_adm rt (OpQuery i a ro now) = id_ok i"
| "rt_adm rt (OpFailure i now) = id_ok i"
| "rt_adm rt (OpRefreshed t now) = id_ok t"

lemma update_nodes_Some:
  assumes "update_nodes p f ns = Some ms"
  obtains j where "j < length ns" and "p (ns ! j)" and "ms = ns[j := f (ns ! j)]"
  using assms by (auto simp: update_nodes_def split: option.splits dest: position_Some)

lemma update_nodes_None: "update_nodes p f ns = None \<longleftrightarrow> (\<forall>c\<in>set ns. \<not> p c)"
  by (simp add: update_nodes_def position_None [symmetric] split: option.splits)

lemma bucket_index_step:
  assumes "rt_inv rt" and "id_ok i"
  obtains k where "bucket_index rt i = Some k" and "k < length (rt_buckets rt)"
    and "holds i (rt_buckets rt ! k)" and "bucket_ok rt (rt_buckets rt ! k)"
  using bucket_index_total [OF assms] rt_bucket_ok [OF assms(1)] by metis

lemma node_ok: "bucket_ok rt b \<Longrightarrow> j < length (bk_nodes b) \<Longrightarrow>
    contact_ok rt (bk_nodes b ! j) \<and> holds (nc_id (bk_nodes b ! j)) b"
  by (auto simp: bucket_ok_def holds_def)

lemma observe_response_inv:
  assumes inv: "rt_inv rt" and i: "id_ok i"
  shows "\<exists>rt' out. observe_response rt i a now = Some (rt', out) \<and> rt_inv rt'
    \<and> rt_local_id rt' = rt_local_id rt \<and> rt_family rt' = rt_family rt"
proof -
  obtain k where k: "bucket_index rt i = Some k" "k < length (rt_buckets rt)"
    "holds i (rt_buckets rt ! k)" "bucket_ok rt (rt_buckets rt ! k)"
    using bucket_index_step [OF inv i] .
  let ?b = "rt_buckets rt ! k"
  let ?f = "\<lambda>c. c\<lparr>nc_address := a, nc_last_response := now, nc_failures := 0\<rparr>"
  consider (ign) "i = rt_local_id rt \<or> \<not> family_accepts (rt_family rt) a"
    | (upd) ns where "i \<noteq> rt_local_id rt" "family_accepts (rt_family rt) a"
        "update_nodes (\<lambda>c. nc_id c = i) ?f (bk_nodes ?b) = Some ns"
    | (ins) "i \<noteq> rt_local_id rt" "family_accepts (rt_family rt) a"
        "update_nodes (\<lambda>c. nc_id c = i) ?f (bk_nodes ?b) = None"
    by fastforce
  then show ?thesis
  proof cases
    case ign
    then show ?thesis using inv by (auto simp: observe_response_def)
  next
    case upd
    from upd(3) obtain j where j: "j < length (bk_nodes ?b)" "nc_id (bk_nodes ?b ! j) = i"
      "ns = (bk_nodes ?b)[j := ?f (bk_nodes ?b ! j)]" by (rule update_nodes_Some)
    have "contact_ok rt (?f (bk_nodes ?b ! j))" using i upd(1,2) j(2) by (simp add: contact_ok_def)
    then have "rt_inv (put_bucket rt k (?b\<lparr>bk_nodes := ns, bk_last_changed := now\<rparr>))"
      unfolding j(3) using inv k j(2) by (intro rt_inv_put bucket_ok_update) simp_all
    then show ?thesis using upd k by (simp add: observe_response_def Let_def)
  next
    case ins
    have "contact_ok rt (verified_contact i a now)"
      using i ins by (simp add: contact_ok_def verified_contact_def)
    from insert_verified_inv [OF inv this, of now] show ?thesis
      using ins k by (auto simp add: observe_response_def Let_def)
  qed
qed

lemma observe_query_inv:
  assumes inv: "rt_inv rt" and i: "id_ok i"
  shows "\<exists>rt' out. observe_query rt i a ro now = Some (rt', out) \<and> rt_inv rt'"
proof -
  obtain k where k: "bucket_index rt i = Some k" "k < length (rt_buckets rt)"
    "holds i (rt_buckets rt ! k)" "bucket_ok rt (rt_buckets rt ! k)"
    using bucket_index_step [OF inv i] .
  let ?b = "rt_buckets rt ! k"
  let ?u = "update_nodes (\<lambda>c. nc_id c = i \<and> nc_address c = a) (\<lambda>c. c\<lparr>nc_last_query := Some now\<rparr>) (bk_nodes ?b)"
  have "rt_inv (put_bucket rt k (?b\<lparr>bk_nodes := ns\<rparr>))" if u: "?u = Some ns" for ns
  proof -
    from u obtain j where j: "j < length (bk_nodes ?b)"
      "ns = (bk_nodes ?b)[j := (bk_nodes ?b ! j)\<lparr>nc_last_query := Some now\<rparr>]"
      by (rule update_nodes_Some)
    from node_ok [OF k(4) j(1)] show ?thesis
      unfolding j(2) using inv k by (intro rt_inv_put bucket_ok_update) (simp_all add: contact_ok_def)
  qed
  then show ?thesis using k(1) inv by (cases ?u) (auto simp: observe_query_def Let_def)
qed

lemma record_failure_inv:
  assumes inv: "rt_inv rt" and i: "id_ok i"
  shows "\<exists>rt' out. record_failure rt i now = Some (rt', out) \<and> rt_inv rt'"
proof -
  obtain k where k: "bucket_index rt i = Some k" "k < length (rt_buckets rt)"
    "holds i (rt_buckets rt ! k)" "bucket_ok rt (rt_buckets rt ! k)"
    using bucket_index_step [OF inv i] .
  let ?b = "rt_buckets rt ! k"
  have "rt_inv (put_bucket rt k (?b\<lparr>bk_nodes := (bk_nodes ?b)
      [j := (bk_nodes ?b ! j)\<lparr>nc_failures := min (nc_failures (bk_nodes ?b ! j) + 1) 255\<rparr>]\<rparr>))"
    if "position (\<lambda>c. nc_id c = i) (bk_nodes ?b) = Some j" for j
  proof -
    have "j < length (bk_nodes ?b)" using position_Some [OF that] by simp
    from node_ok [OF k(4) this] show ?thesis
      using inv k by (intro rt_inv_put bucket_ok_update) (simp_all add: contact_ok_def)
  qed
  then show ?thesis using k(1) inv
    by (cases "position (\<lambda>c. nc_id c = i) (bk_nodes ?b)") (auto simp: record_failure_def Let_def)
qed

lemma mark_refreshed_inv:
  assumes inv: "rt_inv rt" and i: "id_ok i"
  shows "\<exists>rt'. mark_refreshed rt i now = Some rt' \<and> rt_inv rt'"
proof -
  obtain k where k: "bucket_index rt i = Some k" "k < length (rt_buckets rt)"
    "holds i (rt_buckets rt ! k)" "bucket_ok rt (rt_buckets rt ! k)"
    using bucket_index_step [OF inv i] .
  have "bucket_ok rt ((rt_buckets rt ! k)\<lparr>bk_last_refresh := Some now\<rparr>)"
    using k(4) by (simp add: bucket_ok_def)
  then have "rt_inv (put_bucket rt k ((rt_buckets rt ! k)\<lparr>bk_last_refresh := Some now\<rparr>))"
    using inv k by (intro rt_inv_put) simp_all
  then show ?thesis using k(1) by (simp add: mark_refreshed_def)
qed

interpretation routing_ops: panic_free_ops rt_step rt_inv rt_adm
proof unfold_locales
  fix rt x
  assume inv: "rt_inv rt" and adm: "rt_adm rt x"
  show "\<exists>t. rt_step rt x = Some t \<and> rt_inv t"
  proof (cases x)
    case (OpResponse i a now)
    then show ?thesis using observe_response_inv [OF inv, of i a now] adm by auto
  next
    case (OpReconsider c now)
    then show ?thesis using insert_verified_inv [OF inv, of c now] adm
      by (auto simp: reconsider_candidate_def)
  next
    case (OpQuery i a ro now)
    then show ?thesis using observe_query_inv [OF inv, of i a ro now] adm by auto
  next
    case (OpFailure i now)
    then show ?thesis using record_failure_inv [OF inv, of i now] adm by auto
  next
    case (OpRefreshed t now)
    then show ?thesis using mark_refreshed_inv [OF inv, of t now] adm by auto
  qed
qed

section \<open>Size\<close>

lemma rt_inv_length: "rt_inv rt \<Longrightarrow> length (rt_buckets rt) \<le> 161"
proof -
  assume inv: "rt_inv rt"
  then have "id_ok (rt_local_id rt)" by (simp add: rt_inv_def)
  with inv obtain k where k: "k < length (rt_buckets rt)" "holds (rt_local_id rt) (rt_buckets rt ! k)"
    using bucket_index_total by blast
  have "bp_len (bk_range (rt_buckets rt ! k)) \<le> 160"
    using rt_bucket_ok [OF inv k(1)] by (simp add: bucket_ok_def prefix_ok_def)
  moreover have "length (rt_buckets rt) = bp_len (bk_range (rt_buckets rt ! k)) + 1"
    using inv k by (simp add: rt_inv_def depth_ok_def)
  ultimately show ?thesis by simp
qed

lemma length_concat_le:
  "\<forall>b\<in>set bs. length (f b) \<le> n \<Longrightarrow> length (concat (map f bs)) \<le> length bs * n"
  by (induction bs) auto

lemma rt_inv_contacts: "rt_inv rt \<Longrightarrow> length (table_contacts rt) \<le> 161 * BUCKET_SIZE"
proof -
  assume inv: "rt_inv rt"
  then have "\<forall>b\<in>set (rt_buckets rt). length (bk_nodes b) \<le> BUCKET_SIZE"
    by (simp add: rt_inv_def bucket_ok_def)
  then have "length (table_contacts rt) \<le> length (rt_buckets rt) * BUCKET_SIZE"
    unfolding table_contacts_def by (rule length_concat_le)
  also have "\<dots> \<le> 161 * BUCKET_SIZE" using rt_inv_length [OF inv] by (rule mult_le_mono1)
  finally show ?thesis .
qed

section \<open>Distinct identifiers\<close>

definition ids :: "routing_table \<Rightarrow> node_id list" where
  "ids rt = map nc_id (table_contacts rt)"

definition rt_inv_distinct :: "routing_table \<Rightarrow> bool" where
  "rt_inv_distinct rt \<longleftrightarrow> rt_inv rt \<and> distinct (ids rt)"

fun rt_adm_fresh :: "routing_table \<Rightarrow> rt_op \<Rightarrow> bool" where
  "rt_adm_fresh rt (OpReconsider c now) = (contact_ok rt c \<and> nc_id c \<notin> set (ids rt))"
| "rt_adm_fresh rt x = rt_adm rt x"

lemma rt_adm_fresh_adm: "rt_adm_fresh rt x \<Longrightarrow> rt_adm rt x"
  by (cases x) auto

lemma ids_put:
  assumes "k < length (rt_buckets rt)" and "map nc_id (bk_nodes b) = map nc_id (bk_nodes (rt_buckets rt ! k))"
  shows "ids (put_bucket rt k b) = ids rt"
proof -
  have "map (\<lambda>b. map nc_id (bk_nodes b)) ((rt_buckets rt)[k := b]) = map (\<lambda>b. map nc_id (bk_nodes b)) (rt_buckets rt)"
    using assms by (simp add: map_update) (metis list_update_id nth_map)
  then show ?thesis by (simp add: ids_def table_contacts_def put_bucket_def map_concat comp_def)
qed

lemma map_update_same: "j < length xs \<Longrightarrow> f y = f (xs ! j) \<Longrightarrow> map f (xs[j := y]) = map f xs"
  by (metis list_update_id map_update nth_map)

lemma bucket_index_unique:
  assumes inv: "rt_inv rt" and ok: "id_ok i" and b: "b \<in> set (rt_buckets rt)" and h: "holds i b"
    and k: "bucket_index rt i = Some k"
  shows "rt_buckets rt ! k = b"
proof -
  obtain k' where k': "bucket_index rt i = Some k'" "k' < length (rt_buckets rt)"
    "\<And>b. b \<in> set (take k' (rt_buckets rt)) \<Longrightarrow> \<not> holds i b"
    "\<And>b. b \<in> set (drop (Suc k') (rt_buckets rt)) \<Longrightarrow> \<not> holds i b"
    using bucket_index_total [OF inv ok] by metis
  have "set (rt_buckets rt) = set (take k' (rt_buckets rt)) \<union> {rt_buckets rt ! k'} \<union> set (drop (Suc k') (rt_buckets rt))"
    by (subst (1) id_take_nth_drop [OF k'(2)]) auto
  then have "b = rt_buckets rt ! k'" using b h k'(3,4) by blast
  then show ?thesis using k k'(1) by simp
qed

text \<open>A contact is stored in the bucket its identifier selects.\<close>

lemma contact_in_bucket:
  assumes inv: "rt_inv rt" and c: "c \<in> set (table_contacts rt)" and k: "bucket_index rt (nc_id c) = Some k"
  shows "c \<in> set (bk_nodes (rt_buckets rt ! k))"
proof -
  from c obtain b where b: "b \<in> set (rt_buckets rt)" "c \<in> set (bk_nodes b)"
    by (auto simp: table_contacts_def)
  then have "holds (nc_id c) b" and "id_ok (nc_id c)"
    using inv by (auto simp: rt_inv_def bucket_ok_def holds_def contact_ok_def)
  from bucket_index_unique [OF inv this(2) b(1) this(1) k] show ?thesis using b(2) by simp
qed

lemma insert_distinct:
  assumes "rt_inv rt" and "distinct (ids rt)" and "nc_id c \<notin> set (ids rt)" and "contact_ok rt c"
    and "insert_verified rt c now = Some (rt', out)"
  shows "distinct (ids rt')"
proof -
  from insert_verified_inv [OF assms(1,4), of now] assms(5)
  have eff: "insert_effect rt c now rt' out" by simp
  have grow: "distinct (ids rt')"
    if "mset (table_contacts rt') + mset xs = mset (table_contacts rt) + mset ys" "set ys \<subseteq> {c}" "length ys \<le> 1" for xs ys
  proof -
    have "mset (ids rt' @ map nc_id xs) = mset (ids rt @ map nc_id ys)"
      using arg_cong [OF that(1), of "image_mset nc_id"] by (simp add: ids_def)
    moreover have "distinct (ids rt @ map nc_id ys)"
      using assms(2,3) that(2,3) by (cases ys) auto
    ultimately have "distinct (ids rt' @ map nc_id xs)" using mset_eq_imp_distinct_iff by blast
    then show ?thesis by simp
  qed
  show ?thesis
    using eff grow [of "[]" "[c]"] grow [of "[]" "[]"] grow [of "[_]" "[c]"]
    by (auto simp: insert_effect_def split: insert_outcome.splits)
qed

lemma rt_step_fresh:
  assumes inv: "rt_inv rt" and d: "distinct (ids rt)" and adm: "rt_adm_fresh rt x" and step: "rt_step rt x = Some rt'"
  shows "distinct (ids rt')"
proof (cases x)
  case (OpResponse i a now)
  have i: "id_ok i" using adm OpResponse by simp
  obtain k where k: "bucket_index rt i = Some k" "k < length (rt_buckets rt)"
    "holds i (rt_buckets rt ! k)" "bucket_ok rt (rt_buckets rt ! k)"
    using bucket_index_step [OF inv i] .
  let ?b = "rt_buckets rt ! k"
  let ?f = "\<lambda>c. c\<lparr>nc_address := a, nc_last_response := now, nc_failures := 0\<rparr>"
  let ?u = "update_nodes (\<lambda>c. nc_id c = i) ?f (bk_nodes ?b)"
  show ?thesis
  proof (cases "i = rt_local_id rt \<or> \<not> family_accepts (rt_family rt) a")
    case True
    then show ?thesis using step d OpResponse
      by (auto simp: observe_response_def simp del: Let_def split: if_splits)
  next
    case False
    show ?thesis
    proof (cases ?u)
      case None
      then have "\<forall>c\<in>set (bk_nodes ?b). nc_id c \<noteq> i" by (simp add: update_nodes_None)
      then have "i \<notin> set (ids rt)" using contact_in_bucket [OF inv] k(1) by (auto simp: ids_def)
      moreover have "contact_ok rt (verified_contact i a now)"
        using i False by (simp add: contact_ok_def verified_contact_def)
      moreover obtain out where "insert_verified rt (verified_contact i a now) now = Some (rt', out)"
        using step OpResponse False None k(1) by (auto simp: observe_response_def Let_def)
      ultimately show ?thesis
        using insert_distinct [OF inv d, of "verified_contact i a now"] by (simp add: verified_contact_def)
    next
      case (Some ns)
      then obtain j where j: "j < length (bk_nodes ?b)" "ns = (bk_nodes ?b)[j := ?f (bk_nodes ?b ! j)]"
        by (rule update_nodes_Some)
      have "rt' = put_bucket rt k (?b\<lparr>bk_nodes := ns, bk_last_changed := now\<rparr>)"
        using step OpResponse False Some k(1) by (simp add: observe_response_def Let_def)
      moreover have "map nc_id ns = map nc_id (bk_nodes ?b)"
        unfolding j(2) using j(1) by (intro map_update_same) simp_all
      ultimately show ?thesis using d ids_put [OF k(2)] by simp
    qed
  qed
next
  case (OpReconsider c now)
  then obtain out where "insert_verified rt c now = Some (rt', out)"
    using step by (auto simp: reconsider_candidate_def)
  then show ?thesis using insert_distinct [OF inv d] adm OpReconsider by auto
next
  case (OpQuery i a ro now)
  have i: "id_ok i" using adm OpQuery by simp
  obtain k where k: "bucket_index rt i = Some k" "k < length (rt_buckets rt)"
    using bucket_index_step [OF inv i] by metis
  let ?b = "rt_buckets rt ! k"
  let ?u = "update_nodes (\<lambda>c. nc_id c = i \<and> nc_address c = a) (\<lambda>c. c\<lparr>nc_last_query := Some now\<rparr>) (bk_nodes ?b)"
  show ?thesis
  proof (cases "rt' = rt")
    case True
    then show ?thesis using d by simp
  next
    case False
    then obtain ns where ns: "?u = Some ns" "rt' = put_bucket rt k (?b\<lparr>bk_nodes := ns\<rparr>)"
      using step OpQuery k(1) by (auto simp: observe_query_def Let_def split: if_splits option.splits)
    from ns(1) obtain j where j: "j < length (bk_nodes ?b)"
      "ns = (bk_nodes ?b)[j := (bk_nodes ?b ! j)\<lparr>nc_last_query := Some now\<rparr>]"
      by (rule update_nodes_Some)
    have "map nc_id ns = map nc_id (bk_nodes ?b)"
      unfolding j(2) using j(1) by (intro map_update_same) simp_all
    then show ?thesis using d ids_put [OF k(2)] ns(2) by simp
  qed
next
  case (OpFailure i now)
  have i: "id_ok i" using adm OpFailure by simp
  obtain k where k: "bucket_index rt i = Some k" "k < length (rt_buckets rt)"
    using bucket_index_step [OF inv i] by metis
  let ?b = "rt_buckets rt ! k"
  show ?thesis
  proof (cases "position (\<lambda>c. nc_id c = i) (bk_nodes ?b)")
    case None
    then show ?thesis using step OpFailure k(1) d by (simp add: record_failure_def Let_def)
  next
    case (Some j)
    then have j: "j < length (bk_nodes ?b)" using position_Some by blast
    then have "map nc_id ((bk_nodes ?b)[j := (bk_nodes ?b ! j)\<lparr>nc_failures := m\<rparr>]) = map nc_id (bk_nodes ?b)" for m
      by (intro map_update_same) simp_all
    then show ?thesis using step OpFailure k(1) Some d ids_put [OF k(2)]
      by (auto simp: record_failure_def Let_def)
  qed
next
  case (OpRefreshed t now)
  have i: "id_ok t" using adm OpRefreshed by simp
  obtain k where k: "bucket_index rt t = Some k" "k < length (rt_buckets rt)"
    using bucket_index_step [OF inv i] by metis
  then show ?thesis using step OpRefreshed d ids_put [OF k(2)] by (auto simp: mark_refreshed_def)
qed

interpretation routing_distinct: panic_free_ops rt_step rt_inv_distinct rt_adm_fresh
proof unfold_locales
  fix rt x
  assume inv: "rt_inv_distinct rt" and adm: "rt_adm_fresh rt x"
  then obtain t where "rt_step rt x = Some t" "rt_inv t"
    using routing_ops.safe_step rt_adm_fresh_adm by (metis rt_inv_distinct_def)
  then show "\<exists>t. rt_step rt x = Some t \<and> rt_inv_distinct t"
    using inv adm rt_step_fresh by (auto simp: rt_inv_distinct_def)
qed

lemma rt_inv_distinct_new: "id_ok i \<Longrightarrow> rt_inv_distinct (new_table i fam now)"
  by (auto simp: rt_inv_distinct_def ids_def table_contacts_def new_table_def new_bucket_def rt_inv_new [unfolded new_table_def new_bucket_def])

end
