(* ===== verification/RoutingProps.thy ===== *)
theory RoutingProps imports RoutingOps begin

text \<open>
  The properties of the routing table: safety and size of every run, distinct identifiers and the
  run that breaks them, what an insertion may evict, what a recorded response is found as, and the
  results of the closest-contact and refresh queries.
\<close>

section \<open>Every run\<close>

lemma rt_inv_summary:
  "rt_inv rt \<Longrightarrow> length (rt_buckets rt) \<le> 161 \<and> length (table_contacts rt) \<le> 161 * BUCKET_SIZE \<and>
   (\<forall>b\<in>set (rt_buckets rt). length (bk_nodes b) \<le> BUCKET_SIZE \<and>
      (\<forall>c\<in>set (bk_nodes b). prefix_contains (bk_range b) (nc_id c) \<and> nc_id c \<noteq> rt_local_id rt \<and>
         family_accepts (rt_family rt) (nc_address c))) \<and>
   (\<forall>i. id_ok i \<longrightarrow> length (filter (\<lambda>b. prefix_contains (bk_range b) i) (rt_buckets rt)) = 1)"
  using rt_inv_length rt_inv_contacts
  by (auto simp: rt_inv_def bucket_ok_def contact_ok_def covers_def holds_def [abs_def])

text \<open>
  C4: no sequence of operations on a fresh routing table panics (\<open>bucket_index\<close> always finds a
  bucket, so the \<open>expect\<close> never fires), and the table it ends in partitions the identifier space
  into at most 161 buckets of at most 8 contacts, each contact lying in the range of its bucket,
  being of the table's address family and different from the local identifier.
\<close>

theorem routing_runs_safe:
  assumes "id_ok i" and "ops_ok rt_step rt_adm (new_table i fam t0) ops"
  shows "\<exists>rt. run_ops rt_step (new_table i fam t0) ops = Some rt \<and>
    length (rt_buckets rt) \<le> 161 \<and> length (table_contacts rt) \<le> 161 * BUCKET_SIZE \<and>
    (\<forall>b\<in>set (rt_buckets rt). length (bk_nodes b) \<le> BUCKET_SIZE \<and>
       (\<forall>c\<in>set (bk_nodes b). prefix_contains (bk_range b) (nc_id c) \<and> nc_id c \<noteq> rt_local_id rt \<and>
          family_accepts (rt_family rt) (nc_address c))) \<and>
    (\<forall>x. id_ok x \<longrightarrow> length (filter (\<lambda>b. prefix_contains (bk_range b) x) (rt_buckets rt)) = 1)"
  using routing_ops.safe_run [OF rt_inv_new [OF assms(1)] assms(2)] rt_inv_summary by blast

definition sample_id :: "u8 \<Rightarrow> node_id" where
  "sample_id b = NodeId (b # replicate 19 0)"

definition sample_address :: socket_addr where
  "sample_address = SA4 0x08080808 6881"

lemma sample_id_ok [simp]: "id_ok (sample_id b)"
  by (simp add: sample_id_def id_ok_def arr20_def)

text \<open>A concrete run: eight contacts, of which two then fail twice while a ninth responds.\<close>

definition sample_start :: routing_table where
  "sample_start = new_table (sample_id 0) Ipv4 0"

definition sample_ops :: "rt_op list" where
  "sample_ops = map (\<lambda>b. OpResponse (sample_id b) sample_address 0) [1, 2, 3, 4, 5, 6, 7, 8]
     @ [OpResponse (sample_id 9) sample_address (secs 960),
        OpFailure (sample_id 1) (secs 961), OpFailure (sample_id 1) (secs 962),
        OpFailure (sample_id 2) (secs 961), OpFailure (sample_id 2) (secs 962),
        OpResponse (sample_id 9) sample_address (secs 963)]"

lemmas run_eval = sample_start_def sample_ops_def observe_response_def observe_query_def
  record_failure_def reconsider_candidate_def new_table_def new_bucket_def bucket_index_def
  update_nodes_def put_bucket_def verified_contact_def contact_status_def sample_id_def
  sample_address_def insert_verified.simps BUCKET_SIZE_def GOOD_FOR_def MAX_CONSECUTIVE_FAILURES_def
  last_activity_def table_contacts_def Let_def

lemma sample_ops_adm: "ops_ok rt_step rt_adm sample_start sample_ops"
  by (simp add: run_eval id_ok_def arr20_def)

lemma sample_start_inv [simp]: "rt_inv sample_start"
  unfolding sample_start_def by (rule rt_inv_new) simp

theorem routing_runs_safe_witness:
  "\<exists>rt. run_ops rt_step (new_table (sample_id 0) Ipv4 0) sample_ops = Some rt \<and> length (rt_buckets rt) \<le> 161"
  using routing_runs_safe [of "sample_id 0" Ipv4 0 sample_ops] sample_ops_adm
  by (auto simp: sample_start_def)

text \<open>
  C5: as long as every candidate put forward again (\<open>reconsider_candidate\<close>) is not in the table at
  that moment, no run ever stores two contacts under one identifier.
\<close>

theorem routing_ids_distinct:
  assumes "id_ok i" and "ops_ok rt_step rt_adm_fresh (new_table i fam t0) ops"
  shows "\<exists>rt. run_ops rt_step (new_table i fam t0) ops = Some rt \<and> distinct (map nc_id (table_contacts rt))"
  using routing_distinct.safe_run [OF rt_inv_distinct_new [OF assms(1)] assms(2)]
  by (auto simp: rt_inv_distinct_def ids_def)

lemma sample_ops_fresh: "ops_ok rt_step rt_adm_fresh sample_start sample_ops"
  by (simp add: run_eval id_ok_def arr20_def)

theorem routing_ids_distinct_witness:
  "\<exists>rt. run_ops rt_step (new_table (sample_id 0) Ipv4 0) sample_ops = Some rt \<and>
     distinct (map nc_id (table_contacts rt))"
  using routing_ids_distinct [of "sample_id 0" Ipv4 0 sample_ops] sample_ops_fresh
  by (auto simp: sample_start_def)

text \<open>
  C6: \<open>reconsider_candidate\<close> does not look for the candidate in the table. A node that answers
  a second time while the incumbents of its bucket are being probed is inserted by that answer, and
  the end of the probe chain inserts it again: the table then holds one identifier twice. The run:
  eight contacts go silent, a ninth is told to wait for probes (\<open>ProbeRequired\<close>), two incumbents fail
  twice, the ninth answers again and replaces the first, and is then put forward as the candidate
  that was handed out.
\<close>

theorem reconsider_duplicates_identifier:
  "\<exists>before candidate incumbents after rt.
     run_ops rt_step sample_start (take 8 sample_ops) = Some before \<and>
     observe_response before (sample_id 9) sample_address (secs 960) =
       Some (before, ProbeRequired incumbents candidate) \<and>
     run_ops rt_step sample_start sample_ops = Some after \<and>
     contact_ok after candidate \<and>
     reconsider_candidate after candidate (secs 964) = Some rt \<and>
     \<not> distinct (map nc_id (table_contacts (fst rt)))"
  by (simp add: run_eval contact_ok_def id_ok_def arr20_def)

section \<open>Insertion\<close>

lemma mset_add_setD: "mset ys = add_mset c (mset xs) \<Longrightarrow> set ys = insert c (set xs)"
  by (metis set_mset_add_mset_insert set_mset_mset)

text \<open>
  C7: inserting a verified contact always returns. It evicts at most one contact, and only one that
  is \<open>Bad\<close>; the table gains exactly the new contact on \<open>Inserted\<close> and \<open>ReplacedBad\<close> and keeps its
  contacts otherwise; probes are asked for when the bucket of the new contact is full and has no bad
  contact, of exactly its questionable contacts, all of them, the longest silent first; and a contact is rejected only by a full bucket of good contacts that may not split.
\<close>

theorem insert_never_evicts_live:
  assumes "rt_inv rt" and "contact_ok rt c"
  shows "\<exists>rt' out. insert_verified rt c now = Some (rt', out) \<and> insert_effect rt c now rt' out \<and>
    (\<forall>x\<in>set (table_contacts rt). contact_status x now \<noteq> Bad \<longrightarrow> x \<in> set (table_contacts rt'))"
proof -
  obtain rt' out where step: "insert_verified rt c now = Some (rt', out)"
    and eff: "insert_effect rt c now rt' out"
    using insert_verified_inv [OF assms, of now] by blast
  have "x \<in> set (table_contacts rt')"
    if x: "x \<in> set (table_contacts rt)" "contact_status x now \<noteq> Bad" for x
  proof (cases out)
    case (ReplacedBad r)
    with eff have m: "mset (table_contacts rt') + {#r#} = mset (table_contacts rt) + {#c#}"
      and r: "contact_status r now = Bad" by (auto simp: insert_effect_def)
    have "x \<in># mset (table_contacts rt') + {#r#}" unfolding m using x by simp
    then show ?thesis using r x by auto
  qed (use eff x in \<open>auto simp: insert_effect_def dest: mset_eq_setD mset_add_setD\<close>)
  with step eff show ?thesis by blast
qed

lemma mset_exchange_setD: "mset ys + {#r#} = mset xs + {#c#} \<Longrightarrow> x \<in> set ys \<Longrightarrow> x = c \<or> x \<in> set xs"
  by (metis add_mset_add_single insert_iff set_mset_add_mset_insert set_mset_mset union_iff)

lemma sample_contact_ok: "contact_ok sample_start (verified_contact (sample_id 9) sample_address 5)"
  by (simp add: run_eval contact_ok_def id_ok_def arr20_def)

theorem insert_never_evicts_live_witness:
  "\<exists>rt' out. insert_verified sample_start (verified_contact (sample_id 9) sample_address 5) 5 = Some (rt', out)"
  using insert_never_evicts_live [OF sample_start_inv sample_contact_ok, of 5] by blast

lemma insert_stored:
  "rt_inv rt \<Longrightarrow> contact_ok rt c \<Longrightarrow> insert_verified rt c now = Some (rt', out) \<Longrightarrow>
   (case out of Inserted \<Rightarrow> True | ReplacedBad r \<Rightarrow> contact_status c now \<noteq> Bad | _ \<Rightarrow> False) \<Longrightarrow>
   rt_inv rt' \<and> c \<in> set (table_contacts rt')"
proof -
  assume a: "rt_inv rt" "contact_ok rt c" "insert_verified rt c now = Some (rt', out)"
    "case out of Inserted \<Rightarrow> True | ReplacedBad r \<Rightarrow> contact_status c now \<noteq> Bad | _ \<Rightarrow> False"
  then have inv: "rt_inv rt'" and eff: "insert_effect rt c now rt' out"
    using insert_verified_inv [OF a(1,2), of now] by auto
  have "c \<in># mset (table_contacts rt')"
  proof (cases out)
    case (ReplacedBad r)
    with eff have m: "mset (table_contacts rt') + {#r#} = mset (table_contacts rt) + {#c#}"
      and r: "contact_status r now = Bad" by (auto simp: insert_effect_def)
    have "c \<in># mset (table_contacts rt') + {#r#}" unfolding m by simp
    then show ?thesis using r a(4) ReplacedBad by auto
  qed (use eff a(4) in \<open>auto simp: insert_effect_def\<close>)
  with inv show ?thesis by simp
qed

lemma find_updated: "position p xs = Some j \<Longrightarrow> p y \<Longrightarrow> List.find p (xs[j := y]) = Some y"
proof (induction xs arbitrary: j)
  case (Cons x xs)
  then show ?case by (cases "p x") auto
qed simp

lemma find_only: "x \<in> set xs \<Longrightarrow> p x \<Longrightarrow> (\<And>y. y \<in> set xs \<Longrightarrow> p y \<Longrightarrow> y = x) \<Longrightarrow> List.find p xs = Some x"
  using find_None_iff2 [of p xs] find_Some_iff2 [of p xs] by (cases "List.find p xs") blast+

lemma contact_found:
  assumes inv: "rt_inv rt" and c: "c \<in> set (table_contacts rt)" and ok: "id_ok (nc_id c)"
    and only: "\<And>x. x \<in> set (table_contacts rt) \<Longrightarrow> nc_id x = nc_id c \<Longrightarrow> x = c"
  shows "contact rt (nc_id c) = Some (Some c)"
proof -
  obtain k where k: "bucket_index rt (nc_id c) = Some k" "k < length (rt_buckets rt)"
    using bucket_index_step [OF inv ok] by metis
  have "List.find (\<lambda>x. nc_id x = nc_id c) (bk_nodes (rt_buckets rt ! k)) = Some c"
    using contact_in_bucket [OF inv c k(1)] nodes_subset [OF k(2)] only by (intro find_only) auto
  then show ?thesis using k(1) by (simp add: contact_def)
qed

lemma bucket_index_put:
  "k < length (rt_buckets rt) \<Longrightarrow> bk_range b = bk_range (rt_buckets rt ! k) \<Longrightarrow> bucket_index (put_bucket rt k b) i = bucket_index rt i"
proof -
  assume k: "k < length (rt_buckets rt)" "bk_range b = bk_range (rt_buckets rt ! k)"
  have "k < length xs \<Longrightarrow> p b = p (xs ! k) \<Longrightarrow> position p (xs[k := b]) = position p xs" for p and xs :: "bucket list"
    by (induction xs arbitrary: k) (auto split: nat.split)
  then show ?thesis using k by (simp add: bucket_index_def put_bucket_def)
qed

text \<open>
  C8: a response that the table accepts (\<open>Inserted\<close>, \<open>Updated\<close>, \<open>ReplacedBad\<close>) makes the
  node known: looking the identifier up returns a contact with the address of the response, no
  failure, and the status \<open>Good\<close>. This holds in every table that the invariant admits, also in one that holds the
  identifier twice.
\<close>

theorem response_is_found:
  assumes "rt_inv rt" and "id_ok i"
    and "observe_response rt i a now = Some (rt', out)"
    and "out = Inserted \<or> out = Updated \<or> (\<exists>r. out = ReplacedBad r)"
  shows "\<exists>c. contact rt' i = Some (Some c) \<and> nc_address c = a \<and> nc_failures c = 0 \<and>
    nc_last_response c = now \<and> contact_status c now = Good"
proof -
  have inv': "rt_inv rt'" using observe_response_inv [OF assms(1,2), of a now] assms(3) by auto
  obtain k where k: "bucket_index rt i = Some k" "k < length (rt_buckets rt)"
    "holds i (rt_buckets rt ! k)"
    using bucket_index_step [OF assms(1,2)] by metis
  let ?b = "rt_buckets rt ! k"
  let ?f = "\<lambda>c. c\<lparr>nc_address := a, nc_last_response := now, nc_failures := 0\<rparr>"
  have other: "i \<noteq> rt_local_id rt" "family_accepts (rt_family rt) a"
    using assms(3,4) by (auto simp: observe_response_def split: if_splits)
  have "\<exists>c. contact rt' i = Some (Some c) \<and> nc_address c = a \<and> nc_failures c = 0 \<and> nc_last_response c = now"
  proof (cases "position (\<lambda>c. nc_id c = i) (bk_nodes ?b)")
    case None
    let ?c = "verified_contact i a now"
    have ok: "contact_ok rt ?c" using assms(2) other by (simp add: contact_ok_def verified_contact_def)
    have ins: "insert_verified rt ?c now = Some (rt', out)"
      using assms(3) other None k(1) by (auto simp: observe_response_def update_nodes_def Let_def)
    then have eff: "insert_effect rt ?c now rt' out" using insert_verified_inv [OF assms(1) ok, of now] by auto
    have id: "nc_id ?c = i" by (simp add: verified_contact_def)
    have mem: "?c \<in> set (table_contacts rt')"
      using insert_stored [OF assms(1) ok ins] assms(4) eff
      by (auto simp: insert_effect_def contact_status_def verified_contact_def MAX_CONSECUTIVE_FAILURES_def GOOD_FOR_def)
    have only: "x = ?c" if x: "x \<in> set (table_contacts rt')" "nc_id x = i" for x
    proof (rule ccontr)
      assume "x \<noteq> ?c"
      then have "x \<in> set (table_contacts rt)"
      proof (cases out)
        case Inserted
        then have "mset (table_contacts rt') = add_mset ?c (mset (table_contacts rt))" using eff by (simp add: insert_effect_def)
        from mset_add_setD [OF this] show ?thesis using x(1) \<open>x \<noteq> ?c\<close> by blast
      next
        case (ReplacedBad r)
        then have "mset (table_contacts rt') + {#r#} = mset (table_contacts rt) + {#?c#}" using eff by (simp add: insert_effect_def)
        from mset_exchange_setD [OF this x(1)] show ?thesis using \<open>x \<noteq> ?c\<close> by blast
      qed (use assms(4) eff in \<open>simp_all add: insert_effect_def\<close>)
      then have "x \<in> set (bk_nodes ?b)" using contact_in_bucket [OF assms(1)] k(1) x(2) by blast
      then show False using None x(2) by (auto simp: position_None)
    qed
    have "contact rt' i = Some (Some ?c)"
      using contact_found [OF inv' mem, unfolded id, OF assms(2) only] .
    then show ?thesis by (simp add: verified_contact_def)
  next
    case (Some j)
    let ?ns = "(bk_nodes ?b)[j := ?f (bk_nodes ?b ! j)]"
    have rt': "rt' = put_bucket rt k (?b\<lparr>bk_nodes := ?ns, bk_last_changed := now\<rparr>)"
      using assms(3) other Some k(1) by (auto simp: observe_response_def update_nodes_def Let_def)
    have "List.find (\<lambda>c. nc_id c = i) ?ns = Some (?f (bk_nodes ?b ! j))"
      by (rule find_updated [OF Some]) (use position_Some [OF Some] in simp)
    moreover have "bucket_index rt' i = Some k" unfolding rt' using bucket_index_put [OF k(2)] k(1) by simp
    ultimately show ?thesis using k(2) by (simp add: contact_def rt' put_bucket_def)
  qed
  then obtain c where "contact rt' i = Some (Some c)" "nc_address c = a" "nc_failures c = 0" "nc_last_response c = now" by blast
  then show ?thesis by (intro exI [of _ c]) (simp add: contact_status_def MAX_CONSECUTIVE_FAILURES_def)
qed

theorem response_is_found_witness:
  "\<exists>rt c. observe_response sample_start (sample_id 3) sample_address 7 = Some (rt, Inserted) \<and>
     contact rt (sample_id 3) = Some (Some c) \<and> nc_address c = sample_address"
proof -
  obtain rt where r: "observe_response sample_start (sample_id 3) sample_address 7 = Some (rt, Inserted)"
    by (simp add: run_eval)
  from response_is_found [OF sample_start_inv sample_id_ok r] r show ?thesis by blast
qed

section \<open>Closest contacts\<close>

definition distance_number :: "bytes \<Rightarrow> node_contact \<Rightarrow> nat" where
  "distance_number target c = be_nat (xor_distance (id_bytes (nc_id c)) target)"

lemma xor_distance_length [simp]: "length (xor_distance x y) = 20"
  by (simp add: xor_distance_def)

lemma distance_le:
  "xor_distance (id_bytes (nc_id c)) t \<le> xor_distance (id_bytes (nc_id d)) t \<longleftrightarrow> distance_number t c \<le> distance_number t d"
  by (simp add: distance_number_def be_nat_le_iff)

lemma sorted_map_le_cong:
  "(\<And>x y. f x \<le> f y \<longleftrightarrow> g x \<le> g y) \<Longrightarrow> sorted (map f xs) = sorted (map g xs)"
  by (induction xs) auto

definition good_contacts :: "routing_table \<Rightarrow> instant \<Rightarrow> node_contact list" where
  "good_contacts rt now = filter (\<lambda>c. contact_status c now = Good) (table_contacts rt)"

text \<open>
  C9: \<open>closest_good\<close> returns good contacts of the table, as many as asked for when there are enough,
  in the order of the XOR distance read as a number, and no good contact that it leaves out is closer
  than one it returns.
\<close>

theorem closest_good_correct:
  fixes rt target n now
  defines "r \<equiv> closest_good rt target n now"
  shows "length r = min n (length (good_contacts rt now)) \<and> set r \<subseteq> set (good_contacts rt now) \<and>
    sorted (map (distance_number target) r) \<and>
    (\<forall>x\<in>set r. \<forall>y\<in>set (good_contacts rt now) - set r. distance_number target x \<le> distance_number target y)"
proof -
  let ?f = "\<lambda>c. xor_distance (id_bytes (nc_id c)) target"
  have r: "r = closest_by ?f n (good_contacts rt now)"
    by (simp add: r_def closest_good_def closest_matching_def good_contacts_def)
  have "sorted (map (distance_number target) r) = sorted (map ?f r)"
    by (rule sorted_map_le_cong) (simp add: distance_le)
  moreover have "sorted (map ?f r)" unfolding r by (rule sorted_closest_by)
  moreover have "distance_number target x \<le> distance_number target y"
    if "x \<in> set r" "y \<in> set (good_contacts rt now)" "y \<notin> set r" for x y
    using closest_by_minimal [of x ?f n "good_contacts rt now" y] that by (simp add: r distance_le)
  ultimately show ?thesis using closest_by_subset [of ?f n "good_contacts rt now"]
    by (auto simp: r)
qed

theorem closest_good_correct_witness:
  "length (closest_good sample_start (replicate 20 0) 8 0) = min 8 (length (good_contacts sample_start 0))"
  using closest_good_correct [of sample_start "replicate 20 0" 8 0] by blast

section \<open>Refreshing\<close>

lemma min_by_key_None [simp]: "min_by_key f xs = None \<longleftrightarrow> xs = []"
  by (cases xs) (auto split: option.splits)

lemma min_by_key_Some:
  "min_by_key f xs = Some x \<Longrightarrow> x \<in> set xs \<and> (\<forall>y\<in>set xs. f x \<le> f y)"
  by (induction xs arbitrary: x) (fastforce split: option.splits if_splits)+

lemma rt_inv_nonempty: "rt_inv rt \<Longrightarrow> rt_buckets rt \<noteq> []"
  using bucket_index_total [of rt "rt_local_id rt"] by (force simp: rt_inv_def)

text \<open>
  The refresh deadline is exact. When it is reached, \<open>stale_refresh_target\<close> names a
  target, and never before; there is no deadline and no target while the table has no contact.
\<close>

theorem refresh_deadline_exact:
  assumes "rt_inv rt"
  shows "stale_refresh_target rt now after random \<noteq> None \<longleftrightarrow>
    (case next_refresh_deadline rt after of None \<Rightarrow> False | Some d \<Rightarrow> d \<le> now)"
proof (cases "table_is_empty rt")
  case True
  then show ?thesis by (simp add: stale_refresh_target_def next_refresh_deadline_def)
next
  case False
  let ?ms = "map (\<lambda>b. maintenance_base b + after) (rt_buckets rt)"
  obtain d ds where ds: "?ms = d # ds" using rt_inv_nonempty [OF assms] by (cases ?ms) auto
  have "stale_refresh_target rt now after random \<noteq> None \<longleftrightarrow> (\<exists>y\<in>set ?ms. y \<le> now)"
    using False by (auto simp: stale_refresh_target_def filter_empty_conv)
  also have "\<dots> \<longleftrightarrow> foldl min d ds \<le> now" unfolding foldl_min_le ds [symmetric] by simp
  finally show ?thesis using False ds by (simp add: next_refresh_deadline_def)
qed

theorem refresh_deadline_exact_witness:
  "stale_refresh_target sample_start 7 5 (replicate 20 0) = None"
  using refresh_deadline_exact [OF sample_start_inv, of 7 5 "replicate 20 0"]
  by (simp add: next_refresh_deadline_def table_is_empty_def sample_start_def new_table_def new_bucket_def)

text \<open>
  C10: a refresh target lies in the range of the bucket that has been quiet the longest, that bucket is
  stale, and marking the target as refreshed resets the timer of exactly that bucket.
\<close>

theorem stale_target_hits_bucket:
  assumes "rt_inv rt" and "length random = 20" and "stale_refresh_target rt now after random = Some t"
  shows "\<exists>k. k < length (rt_buckets rt) \<and> bucket_index rt t = Some k \<and>
    maintenance_base (rt_buckets rt ! k) + after \<le> now \<and>
    (\<forall>b\<in>set (rt_buckets rt). maintenance_base (rt_buckets rt ! k) \<le> maintenance_base b) \<and>
    mark_refreshed rt t now = Some (rt\<lparr>rt_buckets := (rt_buckets rt)
      [k := (rt_buckets rt ! k)\<lparr>bk_last_refresh := Some now\<rparr>]\<rparr>)"
proof -
  obtain b where m: "min_by_key maintenance_base
      (filter (\<lambda>b. now \<ge> maintenance_base b + after) (rt_buckets rt)) = Some b"
    and t: "t = random_target (bk_range b) random"
    using assms(3) by (auto simp: stale_refresh_target_def split: if_splits)
  have b: "b \<in> set (rt_buckets rt)" "maintenance_base b + after \<le> now"
    and least: "maintenance_base b' + after \<le> now \<Longrightarrow> b' \<in> set (rt_buckets rt) \<Longrightarrow> maintenance_base b \<le> maintenance_base b'" for b'
    using min_by_key_Some [OF m] by auto
  have least': "maintenance_base b \<le> maintenance_base b'" if "b' \<in> set (rt_buckets rt)" for b'
    using least [of b'] b(2) that by linarith
  have "prefix_ok (bk_range b)" using assms(1) b(1) by (simp add: rt_inv_def bucket_ok_def)
  then have h: "holds t b" and ok: "id_ok t"
    using random_target_contains [OF assms(2)] random_target_bits [OF assms(2)] by (simp_all add: t holds_def)
  obtain k where k: "bucket_index rt t = Some k" "k < length (rt_buckets rt)"
    using bucket_index_step [OF assms(1) ok] by metis
  have "rt_buckets rt ! k = b" by (rule bucket_index_unique [OF assms(1) ok b(1) h k(1)])
  with k b least' show ?thesis by (intro exI [of _ k]) (simp add: mark_refreshed_def put_bucket_def)
qed

definition sample_table :: routing_table where
  "sample_table = sample_start\<lparr>rt_buckets :=
     [(new_bucket prefix_root 0)\<lparr>bk_nodes := [verified_contact (sample_id 9) sample_address 5]\<rparr>]\<rparr>"

theorem stale_target_hits_bucket_witness:
  "\<exists>t k. stale_refresh_target sample_table 7 5 (replicate 20 1) = Some t \<and>
     bucket_index sample_table t = Some k"
proof -
  have inv: "rt_inv sample_table"
  proof -
    have "sample_table = put_bucket sample_start 0 ((rt_buckets sample_start ! 0)
        \<lparr>bk_nodes := [verified_contact (sample_id 9) sample_address 5]\<rparr>)"
      by (simp add: sample_table_def put_bucket_def sample_start_def new_table_def)
    moreover have "rt_inv \<dots>"
      using sample_contact_ok sample_start_inv
      by (intro rt_inv_put)
        (simp_all, simp_all add: sample_start_def new_table_def new_bucket_def bucket_ok_def BUCKET_SIZE_def contact_ok_def)
    ultimately show ?thesis by simp
  qed
  obtain t where t: "stale_refresh_target sample_table 7 5 (replicate 20 1) = Some t"
    by (simp add: stale_refresh_target_def table_is_empty_def sample_table_def sample_start_def
        new_table_def new_bucket_def maintenance_base_def)
  from stale_target_hits_bucket [OF inv _ t] t show ?thesis by auto
qed

end
