(* ===== verification/Krpc.thy ===== *)
theory Krpc imports Address InfoHash begin

text \<open>
  The KRPC vocabulary of \<open>src/dht/krpc\<close>: the compact binary formats of \<open>compact.rs\<close>
  (IPv4 and IPv6 nodes, peer addresses, info-hash samples) and the messages of \<open>message.rs\<close>.
  The bencode layer (\<open>bendy\<close>, \<open>serde\<close>) carries the byte strings and is not modelled here:
  \<open>encode_\<close> functions give the byte string handed to \<open>serialize_bytes\<close> and \<open>decode_\<close>
  functions read the byte string of a \<open>ByteBuf\<close>. Each record format is an interpretation of
  \<open>record_codec\<close>.
\<close>

section \<open>Compact formats\<close>

datatype socket_v4 = SocketV4 (v4_ip: u32) (v4_port: u16)
datatype socket_v6 = SocketV6 (v6_ip: u128) (v6_port: u16) (v6_flowinfo: u32) (v6_scope: u32)

record compact_node4 =
  c4_id :: node_id
  c4_address :: socket_v4

record compact_node6 =
  c6_id :: node_id
  c6_address :: socket_v6

datatype compact_peer_address = PeerV4 socket_v4 | PeerV6 socket_v6

datatype codec_error =
  LengthNotMultiple nat nat
| PeerAddressLength nat
| Ipv6NotPlain

definition encode_node4 :: "compact_node4 \<Rightarrow> bytes" where
  "encode_node4 n = id_bytes (c4_id n) @ word_be 4 (v4_ip (c4_address n)) @ word_be 2 (v4_port (c4_address n))"

definition decode_node4 :: "bytes \<Rightarrow> compact_node4" where
  "decode_node4 r = \<lparr>c4_id = NodeId (take 20 r),
     c4_address = SocketV4 (be_word (take 4 (drop 20 r))) (be_word (drop 24 r))\<rparr>"

definition encode_nodes4 :: "compact_node4 list \<Rightarrow> bytes" where
  "encode_nodes4 ns = concat (map encode_node4 ns)"

definition decode_records :: "nat \<Rightarrow> (bytes \<Rightarrow> 'a) \<Rightarrow> bytes \<Rightarrow> codec_error + 'a list" where
  "decode_records w dec bs =
     (if length bs mod w \<noteq> 0 then Inl (LengthNotMultiple w (length bs))
      else Inr (map dec (chunks w (length bs div w) bs)))"

definition decode_nodes4 :: "bytes \<Rightarrow> codec_error + compact_node4 list" where
  "decode_nodes4 = decode_records 26 decode_node4"

fun ensure_plain_ipv6 :: "socket_v6 \<Rightarrow> codec_error + unit" where
  "ensure_plain_ipv6 (SocketV6 _ _ flow scope) = (if flow \<noteq> 0 \<or> scope \<noteq> 0 then Inl Ipv6NotPlain else Inr ())"

definition encode_node6 :: "compact_node6 \<Rightarrow> bytes" where
  "encode_node6 n = id_bytes (c6_id n) @ word_be 16 (v6_ip (c6_address n)) @ word_be 2 (v6_port (c6_address n))"

definition decode_node6 :: "bytes \<Rightarrow> compact_node6" where
  "decode_node6 r = \<lparr>c6_id = NodeId (take 20 r),
     c6_address = SocketV6 (be_word (take 16 (drop 20 r))) (be_word (drop 36 r)) 0 0\<rparr>"

fun encode_nodes6 :: "compact_node6 list \<Rightarrow> codec_error + bytes" where
  "encode_nodes6 [] = Inr []"
| "encode_nodes6 (n # ns) = and_then (ensure_plain_ipv6 (c6_address n))
     (\<lambda>_. and_then (encode_nodes6 ns) (\<lambda>bs. Inr (encode_node6 n @ bs)))"

definition decode_nodes6 :: "bytes \<Rightarrow> codec_error + compact_node6 list" where
  "decode_nodes6 = decode_records 38 decode_node6"

fun encode_peer :: "compact_peer_address \<Rightarrow> codec_error + bytes" where
  "encode_peer (PeerV4 a) = Inr (word_be 4 (v4_ip a) @ word_be 2 (v4_port a))"
| "encode_peer (PeerV6 a) = and_then (ensure_plain_ipv6 a)
     (\<lambda>_. Inr (word_be 16 (v6_ip a) @ word_be 2 (v6_port a)))"

definition decode_peer :: "bytes \<Rightarrow> codec_error + compact_peer_address" where
  "decode_peer bs =
     (if length bs = 6 then Inr (PeerV4 (SocketV4 (be_word (take 4 bs)) (be_word (drop 4 bs))))
      else if length bs = 18 then Inr (PeerV6 (SocketV6 (be_word (take 16 bs)) (be_word (drop 16 bs)) 0 0))
      else Inl (PeerAddressLength (length bs)))"

definition encode_samples :: "swarm_key list \<Rightarrow> bytes" where
  "encode_samples ks = concat (map key_bytes ks)"

definition decode_samples :: "bytes \<Rightarrow> codec_error + swarm_key list" where
  "decode_samples = decode_records 20 SwarmKey"

section \<open>Messages\<close>

datatype message_type = Query | Response | Error

datatype krpc_error_code = Generic | Server | Protocol | MethodUnknown

fun as_i64 :: "krpc_error_code \<Rightarrow> int" where
  "as_i64 Generic = 201"
| "as_i64 Server = 202"
| "as_i64 Protocol = 203"
| "as_i64 MethodUnknown = 204"

datatype query_method =
  Ping | FindNode | GetPeers | AnnouncePeer | SampleInfohashes | Unknown string

fun method_as_str :: "query_method \<Rightarrow> string" where
  "method_as_str Ping = ''ping''"
| "method_as_str FindNode = ''find_node''"
| "method_as_str GetPeers = ''get_peers''"
| "method_as_str AnnouncePeer = ''announce_peer''"
| "method_as_str SampleInfohashes = ''sample_infohashes''"
| "method_as_str (Unknown value) = value"

definition method_from :: "string \<Rightarrow> query_method" where
  "method_from value =
     (if value = ''ping'' then Ping
      else if value = ''find_node'' then FindNode
      else if value = ''get_peers'' then GetPeers
      else if value = ''announce_peer'' then AnnouncePeer
      else if value = ''sample_infohashes'' then SampleInfohashes
      else Unknown value)"

datatype token = Token (token_bytes: bytes)

record query_args =
  qa_id :: node_id
  qa_target :: "node_id option"
  qa_info_hash :: "swarm_key option"
  qa_port :: "u16 option"
  qa_token :: "token option"
  qa_implied_port :: "u8 option"
  qa_want :: "string list"

record response_args =
  ra_id :: node_id
  ra_token :: "token option"
  ra_nodes :: "compact_node4 list option"
  ra_nodes6 :: "compact_node6 list option"
  ra_values :: "compact_peer_address list option"
  ra_samples :: "swarm_key list option"
  ra_interval :: "u32 option"
  ra_num :: "u64 option"

record krpc_message =
  km_t :: bytes
  km_y :: message_type
  km_q :: "query_method option"
  km_a :: "query_args option"
  km_r :: "response_args option"
  km_e :: "(int \<times> bytes) option"
  km_ro :: "u8 option"
  km_ip :: "bytes option"

text \<open>
  \<open>observed_ip\<close> reads a bencode value; \<open>as_bytes\<close> is the match on \<open>Value::Bytes\<close>.
\<close>

definition observed_ip :: "('v \<Rightarrow> bytes option) \<Rightarrow> 'v \<Rightarrow> bytes option" where
  "observed_ip as_bytes v = (case as_bytes v of
     Some bs \<Rightarrow> if length bs = 6 \<or> length bs = 18 then Some bs else None
   | None \<Rightarrow> None)"

section \<open>The record formats as codecs\<close>

definition node4_ok :: "compact_node4 \<Rightarrow> bool" where
  "node4_ok n = id_ok (c4_id n)"

fun plain6 :: "socket_v6 \<Rightarrow> bool" where
  "plain6 (SocketV6 _ _ flow scope) = (flow = 0 \<and> scope = 0)"

definition node6_ok :: "compact_node6 \<Rightarrow> bool" where
  "node6_ok n = (id_ok (c6_id n) \<and> plain6 (c6_address n))"

lemma be_word_word_be_16 [simp]: "be_word (word_be 2 (p :: u16)) = p"
  by (rule be_word_word_be) simp

lemma be_word_word_be_32 [simp]: "be_word (word_be 4 (p :: u32)) = p"
  by (rule be_word_word_be) simp

lemma be_word_word_be_128 [simp]: "be_word (word_be 16 (p :: u128)) = p"
  by (rule be_word_word_be) simp

lemma word_be_be_word_16 [simp]: "length bs = 2 \<Longrightarrow> word_be 2 (be_word bs :: u16) = bs"
  by (rule word_be_be_word) simp

lemma word_be_be_word_32 [simp]: "length bs = 4 \<Longrightarrow> word_be 4 (be_word bs :: u32) = bs"
  by (rule word_be_be_word) simp

lemma word_be_be_word_128 [simp]: "length bs = 16 \<Longrightarrow> word_be 16 (be_word bs :: u128) = bs"
  by (rule word_be_be_word) simp

lemma ensure_plain_iff [simp]: "ensure_plain_ipv6 a = Inr u \<longleftrightarrow> plain6 a"
  by (cases a) auto

lemma take_add: "take n (drop m bs) @ drop (m + n) bs = drop m bs"
  by (metis append_take_drop_id drop_drop add.commute)

interpretation node4: record_codec encode_node4 decode_node4 26 node4_ok
proof unfold_locales
  fix bs :: bytes assume l: "length bs = 26"
  then show "encode_node4 (decode_node4 bs) = bs"
    using take_add [of 4 20 bs] by (simp add: encode_node4_def decode_node4_def)
  show "node4_ok (decode_node4 bs)" using l by (simp add: node4_ok_def decode_node4_def)
next
  fix r assume ok: "node4_ok r"
  then show "length (encode_node4 r) = 26" by (simp add: encode_node4_def node4_ok_def id_ok_length)
  show "decode_node4 (encode_node4 r) = r"
    using ok by (simp add: encode_node4_def decode_node4_def node4_ok_def id_ok_length)
qed simp

interpretation node6: record_codec encode_node6 decode_node6 38 node6_ok
proof unfold_locales
  fix bs :: bytes assume l: "length bs = 38"
  then show "encode_node6 (decode_node6 bs) = bs"
    using take_add [of 16 20 bs] by (simp add: encode_node6_def decode_node6_def)
  show "node6_ok (decode_node6 bs)" using l by (simp add: node6_ok_def decode_node6_def)
next
  fix r assume ok: "node6_ok r"
  then show "length (encode_node6 r) = 38" by (simp add: encode_node6_def node6_ok_def id_ok_length)
  show "decode_node6 (encode_node6 r) = r"
    using ok by (cases r; cases "c6_address r")
      (simp add: encode_node6_def decode_node6_def node6_ok_def id_ok_length)
qed simp

interpretation sample: record_codec key_bytes SwarmKey 20 key_ok
  by unfold_locales (auto simp: key_ok_length)

lemma encode_nodes6_Inr:
  "encode_nodes6 ns = Inr bs \<longleftrightarrow> list_all (\<lambda>n. plain6 (c6_address n)) ns \<and> bs = concat (map encode_node6 ns)"
  by (induction ns arbitrary: bs) auto

section \<open>Round trips\<close>

text \<open>
  The compact IPv4 node format is a bijection: encoding then decoding returns the contacts,
  every decodable byte string is the encoding of what it decodes to, and a byte string is rejected
  exactly when its length is not a multiple of 26.
\<close>

theorem compact_nodes4_bijection:
  "(list_all node4_ok ns \<longrightarrow> decode_nodes4 (encode_nodes4 ns) = Inr ns) \<and>
   (decode_nodes4 bs = Inr ms \<longrightarrow> encode_nodes4 ms = bs \<and> list_all node4_ok ms) \<and>
   ((\<exists>e. decode_nodes4 bs = Inl e) \<longleftrightarrow> length bs mod 26 \<noteq> 0)"
  using node4.decode_all [of ns] node4.enc_all_length [of ns] node4.encode_all [of bs]
    node4.decoded_valid [of bs]
  by (auto simp: decode_nodes4_def decode_records_def encode_nodes4_def)

theorem compact_nodes4_bijection_witness:
  "decode_nodes4 (encode_nodes4 [\<lparr>c4_id = NodeId (replicate 20 7), c4_address = SocketV4 0xC0000201 6881\<rparr>])
     = Inr [\<lparr>c4_id = NodeId (replicate 20 7), c4_address = SocketV4 0xC0000201 6881\<rparr>]"
  using compact_nodes4_bijection [of "[\<lparr>c4_id = NodeId (replicate 20 7), c4_address = SocketV4 0xC0000201 6881\<rparr>]"]
  by (simp add: node4_ok_def)

text \<open>
  C11: the compact IPv6 node format refuses to encode exactly the lists that hold an address with a
  flow label or a scope identifier, and is a bijection on the others; a byte string is rejected
  exactly when its length is not a multiple of 38.
\<close>

theorem compact_nodes6_bijection:
  "(\<forall>n\<in>set ns. id_ok (c6_id n)) \<longrightarrow>
     (case encode_nodes6 ns of
        Inl e \<Rightarrow> e = Ipv6NotPlain \<and> (\<exists>n\<in>set ns. v6_flowinfo (c6_address n) \<noteq> 0 \<or> v6_scope (c6_address n) \<noteq> 0)
      | Inr bs \<Rightarrow> decode_nodes6 bs = Inr ns) \<and>
   (decode_nodes6 cs = Inr ms \<longrightarrow> encode_nodes6 ms = Inr cs) \<and>
   ((\<exists>e. decode_nodes6 cs = Inl e) \<longleftrightarrow> length cs mod 38 \<noteq> 0)"
proof -
  have plain: "plain6 a \<longleftrightarrow> v6_flowinfo a = 0 \<and> v6_scope a = 0" for a by (cases a) auto
  have err: "encode_nodes6 xs = Inl e \<Longrightarrow> e = Ipv6NotPlain" for xs e
  proof (induction xs)
    case (Cons x xs)
    then show ?case by (cases "c6_address x") (auto simp: and_then_Inl split: if_splits)
  qed simp
  have "case encode_nodes6 ns of
        Inl e \<Rightarrow> e = Ipv6NotPlain \<and> (\<exists>n\<in>set ns. v6_flowinfo (c6_address n) \<noteq> 0 \<or> v6_scope (c6_address n) \<noteq> 0)
      | Inr bs \<Rightarrow> decode_nodes6 bs = Inr ns" if ids: "\<forall>n\<in>set ns. id_ok (c6_id n)"
  proof (cases "encode_nodes6 ns")
    case (Inl e)
    then have "\<not> list_all (\<lambda>n. plain6 (c6_address n)) ns"
      using encode_nodes6_Inr [of ns "concat (map encode_node6 ns)"] by simp
    then show ?thesis using err [OF Inl] Inl by (auto simp: plain list_all_iff)
  next
    case (Inr bs)
    then have bs: "bs = concat (map encode_node6 ns)" and p: "list_all (\<lambda>n. plain6 (c6_address n)) ns"
      by (simp_all add: encode_nodes6_Inr)
    with ids have ok: "list_all node6_ok ns" by (simp add: node6_ok_def list_all_iff)
    show ?thesis using node6.decode_all [OF ok] node6.enc_all_length [OF ok] Inr bs
      by (simp add: decode_nodes6_def decode_records_def)
  qed
  moreover have "encode_nodes6 ms = Inr cs" if "decode_nodes6 cs = Inr ms"
  proof -
    have z: "length cs mod 38 = 0" and ms: "ms = map decode_node6 (chunks 38 (length cs div 38) cs)"
      using that by (auto simp: decode_nodes6_def decode_records_def split: if_splits)
    show ?thesis using node6.encode_all [OF z] node6.decoded_valid [OF z]
      by (auto simp: encode_nodes6_Inr ms node6_ok_def list_all_iff)
  qed
  moreover have "(\<exists>e. decode_nodes6 cs = Inl e) \<longleftrightarrow> length cs mod 38 \<noteq> 0"
    by (simp add: decode_nodes6_def decode_records_def)
  ultimately show ?thesis by blast
qed

theorem compact_nodes6_bijection_witness:
  "\<exists>bs. encode_nodes6 [\<lparr>c6_id = NodeId (replicate 20 9), c6_address = SocketV6 1 6881 0 0\<rparr>] = Inr bs \<and>
     decode_nodes6 bs = Inr [\<lparr>c6_id = NodeId (replicate 20 9), c6_address = SocketV6 1 6881 0 0\<rparr>]"
  using compact_nodes6_bijection [of "[\<lparr>c6_id = NodeId (replicate 20 9), c6_address = SocketV6 1 6881 0 0\<rparr>]" "[]"]
  by simp

text \<open>
  Peer addresses and info-hash samples survive a round trip, the length of a peer address alone
  tells the family, and a byte string of any other length is an error.
\<close>

theorem compact_peers_and_samples:
  "(\<forall>a bs. encode_peer a = Inr bs \<longrightarrow> decode_peer bs = Inr a) \<and>
   (\<forall>a bs. decode_peer bs = Inr a \<longrightarrow> encode_peer a = Inr bs) \<and>
   (\<forall>bs. (\<exists>e. decode_peer bs = Inl e) \<longleftrightarrow> length bs \<noteq> 6 \<and> length bs \<noteq> 18) \<and>
   (\<forall>ks. list_all key_ok ks \<longrightarrow> decode_samples (encode_samples ks) = Inr ks) \<and>
   (\<forall>bs ks. decode_samples bs = Inr ks \<longrightarrow> encode_samples ks = bs)"
proof (intro conjI allI impI)
  fix a bs
  assume e: "encode_peer a = Inr bs"
  show "decode_peer bs = Inr a"
  proof (cases a)
    case (PeerV4 x)
    then show ?thesis using e by (cases x) (auto simp: decode_peer_def)
  next
    case (PeerV6 x)
    then show ?thesis using e by (cases x) (auto simp: decode_peer_def split: if_splits)
  qed
next
  fix a bs
  assume "decode_peer bs = Inr a"
  then show "encode_peer a = Inr bs" by (auto simp: decode_peer_def split: if_splits)
next
  fix bs show "(\<exists>e. decode_peer bs = Inl e) \<longleftrightarrow> length bs \<noteq> 6 \<and> length bs \<noteq> 18"
    by (auto simp: decode_peer_def)
next
  fix ks assume "list_all key_ok ks"
  then show "decode_samples (encode_samples ks) = Inr ks"
    using sample.decode_all [of ks] sample.enc_all_length [of ks]
    by (simp add: decode_samples_def decode_records_def encode_samples_def)
next
  fix bs ks assume "decode_samples bs = Inr ks"
  then show "encode_samples ks = bs"
    using sample.encode_all [of bs]
    by (auto simp: decode_samples_def decode_records_def encode_samples_def split: if_splits)
qed

theorem compact_peers_and_samples_witness:
  "decode_samples (encode_samples [SwarmKey (replicate 20 1), SwarmKey (replicate 20 2)]) =
     Inr [SwarmKey (replicate 20 1), SwarmKey (replicate 20 2)]"
proof -
  have "list_all key_ok [SwarmKey (replicate 20 1), SwarmKey (replicate 20 2)]" by simp
  then show ?thesis using compact_peers_and_samples by blast
qed

theorem query_method_roundtrip:
  "method_as_str (method_from s) = s \<and>
   ((\<exists>v. method_from s = Unknown v) \<longleftrightarrow>
      s \<notin> {''ping'', ''find_node'', ''get_peers'', ''announce_peer'', ''sample_infohashes''}) \<and>
   (method_from (method_as_str m) = m \<longleftrightarrow>
      (\<forall>v. m = Unknown v \<longrightarrow>
         v \<notin> {''ping'', ''find_node'', ''get_peers'', ''announce_peer'', ''sample_infohashes''}))"
  by (cases m) (auto simp: method_from_def)

theorem query_method_roundtrip_witness:
  "method_from (method_as_str (Unknown ''vote'')) = Unknown ''vote''"
  using query_method_roundtrip [of "''ping''" "Unknown ''vote''"] by (simp add: method_from_def)

end
