(* ===== verification/Transaction.thy ===== *)
theory Transaction imports Krpc begin

text \<open>
  The pending queries of one UDP socket, \<open>src/dht/transaction/mod.rs\<close>: allocation of 4-byte
  identifiers from a wrapping counter, matching of a response by identifier and source address,
  cancellation and expiry. The component is an interpretation of \<open>panic_free_ops\<close>: the
  \<open>expect\<close> in \<open>complete\<close> is the value \<open>None\<close>.
\<close>

section \<open>Definitions\<close>

datatype transaction_id = TransactionId (tid_bytes: bytes)

definition from_counter :: "u32 \<Rightarrow> transaction_id" where
  "from_counter c = TransactionId (word_be 4 c)"

record pending_transaction =
  pt_id :: transaction_id
  pt_destination :: socket_addr
  pt_method :: query_method
  pt_started_at :: instant
  pt_deadline :: instant

record completed_transaction =
  ct_transaction :: pending_transaction
  ct_completed_at :: instant

datatype transaction_error =
  AtCapacity nat
| InvalidTransactionIdLength nat
| UnknownTransaction transaction_id
| SourceMismatch transaction_id socket_addr socket_addr
| Expired pending_transaction
| IdSpaceExhausted

definition tid_try_from :: "bytes \<Rightarrow> transaction_error + transaction_id" where
  "tid_try_from bs = (if length bs = 4 then Inr (TransactionId bs)
     else Inl (InvalidTransactionIdLength (length bs)))"

record transaction_manager =
  tm_timeout :: duration
  tm_max_pending :: nat
  tm_next_counter :: u32
  tm_pending :: "(transaction_id, pending_transaction) hmap"

definition tm_with_initial_counter :: "duration \<Rightarrow> nat \<Rightarrow> u32 \<Rightarrow> transaction_manager" where
  "tm_with_initial_counter timeout max_pending c =
     \<lparr>tm_timeout = timeout, tm_max_pending = max_pending, tm_next_counter = c, tm_pending = []\<rparr>"

definition tm_new :: "duration \<Rightarrow> nat \<Rightarrow> transaction_manager" where
  "tm_new timeout max_pending = tm_with_initial_counter timeout max_pending 0"

text \<open>The allocation loop; the first argument is the number of rounds left.\<close>

fun register_loop :: "nat \<Rightarrow> transaction_manager \<Rightarrow> socket_addr \<Rightarrow> query_method \<Rightarrow> instant
    \<Rightarrow> transaction_manager \<times> (transaction_error + transaction_id)" where
  "register_loop 0 tm dest m now = (tm, Inl IdSpaceExhausted)"
| "register_loop (Suc n) tm dest m now =
     (let i = from_counter (tm_next_counter tm);
          tm' = tm\<lparr>tm_next_counter := tm_next_counter tm + 1\<rparr>
      in if hm_has (tm_pending tm') i then register_loop n tm' dest m now
         else let t = \<lparr>pt_id = i, pt_destination = dest, pt_method = m, pt_started_at = now,
                       pt_deadline = now + tm_timeout tm'\<rparr>
              in (tm'\<lparr>tm_pending := hm_put i t (tm_pending tm')\<rparr>, Inr i))"

definition register :: "transaction_manager \<Rightarrow> socket_addr \<Rightarrow> query_method \<Rightarrow> instant
    \<Rightarrow> transaction_manager \<times> (transaction_error + transaction_id)" where
  "register tm dest m now =
     (if length (tm_pending tm) \<ge> tm_max_pending tm then (tm, Inl (AtCapacity (tm_max_pending tm)))
      else register_loop (Suc (tm_max_pending tm)) tm dest m now)"

definition complete :: "transaction_manager \<Rightarrow> bytes \<Rightarrow> socket_addr \<Rightarrow> instant
    \<Rightarrow> (transaction_manager \<times> (transaction_error + completed_transaction)) option" where
  "complete tm tid source now =
     (case tid_try_from tid of
        Inl e \<Rightarrow> Some (tm, Inl e)
      | Inr i \<Rightarrow>
         (case hm_get (tm_pending tm) i of
            None \<Rightarrow> Some (tm, Inl (UnknownTransaction i))
          | Some t \<Rightarrow>
             if pt_destination t \<noteq> source
             then Some (tm, Inl (SourceMismatch i (pt_destination t) source))
             else (case hm_get (tm_pending tm) i of
                 None \<Rightarrow> None
               | Some t \<Rightarrow>
                   let tm' = tm\<lparr>tm_pending := hm_remove i (tm_pending tm)\<rparr>
                   in if now \<ge> pt_deadline t then Some (tm', Inl (Expired t))
                      else Some (tm', Inr \<lparr>ct_transaction = t, ct_completed_at = now\<rparr>))))"

definition cancel :: "transaction_manager \<Rightarrow> transaction_id \<Rightarrow> transaction_manager \<times> pending_transaction option" where
  "cancel tm i = (tm\<lparr>tm_pending := hm_remove i (tm_pending tm)\<rparr>, hm_get (tm_pending tm) i)"

fun remove_ids :: "transaction_id list \<Rightarrow> (transaction_id, pending_transaction) hmap
    \<Rightarrow> (transaction_id, pending_transaction) hmap \<times> pending_transaction list" where
  "remove_ids [] m = (m, [])"
| "remove_ids (i # is) m =
     (let (m', ts) = remove_ids is (hm_remove i m)
      in (m', (case hm_get m i of None \<Rightarrow> ts | Some t \<Rightarrow> t # ts)))"

definition expire_transactions :: "transaction_manager \<Rightarrow> instant \<Rightarrow> transaction_manager \<times> pending_transaction list" where
  "expire_transactions tm now =
     (let expired_ids = map fst (filter (\<lambda>(_, t). now \<ge> pt_deadline t) (tm_pending tm));
          (m, ts) = remove_ids expired_ids (tm_pending tm)
      in (tm\<lparr>tm_pending := m\<rparr>, sort_key (\<lambda>t. (pt_deadline t, tid_bytes (pt_id t))) ts))"

definition tm_next_deadline :: "transaction_manager \<Rightarrow> instant option" where
  "tm_next_deadline tm = (case map pt_deadline (hm_values (tm_pending tm)) of
     [] \<Rightarrow> None | d # ds \<Rightarrow> Some (foldl min d ds))"

section \<open>Invariant\<close>

definition pending_ok :: "transaction_manager \<Rightarrow> bool" where
  "pending_ok tm \<longleftrightarrow> (\<forall>(i, t)\<in>set (tm_pending tm). pt_id t = i \<and> length (tid_bytes i) = 4
     \<and> pt_deadline t = pt_started_at t + tm_timeout tm)"

definition tm_inv :: "transaction_manager \<Rightarrow> bool" where
  "tm_inv tm \<longleftrightarrow> hm_ok (tm_pending tm) \<and> length (tm_pending tm) \<le> tm_max_pending tm \<and> pending_ok tm"

lemma tm_inv_new [simp]: "tm_inv (tm_with_initial_counter timeout m c)"
  by (simp add: tm_inv_def tm_with_initial_counter_def pending_ok_def)

lemma from_counter_inj: "from_counter c = from_counter d \<longleftrightarrow> c = d"
  by (auto simp: from_counter_def) (metis be_word_word_be_32)

lemma tm_inv_remove: "tm_inv tm \<Longrightarrow> tm_inv (tm\<lparr>tm_pending := hm_remove i (tm_pending tm)\<rparr>)"
  by (auto simp: tm_inv_def pending_ok_def hm_set_remove length_hm_remove split: if_splits)

text \<open>What a round of the loop leaves unchanged, and the entry that a successful one adds.\<close>

lemma register_loop_effect:
  "hm_ok (tm_pending tm) \<Longrightarrow> register_loop n tm dest m now = (tm', r) \<Longrightarrow>
   tm_timeout tm' = tm_timeout tm \<and> tm_max_pending tm' = tm_max_pending tm \<and>
   (case r of
      Inl e \<Rightarrow> e = IdSpaceExhausted \<and> tm_pending tm' = tm_pending tm
    | Inr i \<Rightarrow> hm_get (tm_pending tm) i = None \<and> length (tid_bytes i) = 4 \<and>
        tm_pending tm' = hm_put i \<lparr>pt_id = i, pt_destination = dest, pt_method = m, pt_started_at = now,
           pt_deadline = now + tm_timeout tm\<rparr> (tm_pending tm))"
proof (induction n arbitrary: tm)
  case 0
  then show ?case by auto
next
  case (Suc n)
  let ?i = "from_counter (tm_next_counter tm)"
  show ?case
  proof (cases "hm_has (tm_pending tm) ?i")
    case True
    with Suc.prems have "register_loop n (tm\<lparr>tm_next_counter := tm_next_counter tm + 1\<rparr>) dest m now = (tm', r)"
      by (simp add: Let_def)
    from Suc.IH [OF _ this] Suc.prems(1) show ?thesis by (simp cong: sum.case_cong)
  next
    case False
    with Suc.prems show ?thesis by (auto simp: Let_def hm_has_def from_counter_def)
  qed
qed

lemma tm_inv_register:
  assumes "tm_inv tm" and "register tm dest m now = (tm', r)"
  shows "tm_inv tm'"
proof (cases "length (tm_pending tm) \<ge> tm_max_pending tm")
  case True
  then show ?thesis using assms by (auto simp: register_def)
next
  case False
  then have l: "register_loop (Suc (tm_max_pending tm)) tm dest m now = (tm', r)"
    using assms(2) by (simp add: register_def)
  have ok: "hm_ok (tm_pending tm)" using assms(1) by (simp add: tm_inv_def)
  from register_loop_effect [OF ok l] show ?thesis
    using assms(1) False ok
    by (auto simp: tm_inv_def pending_ok_def length_hm_put hm_set_put split: sum.splits)
qed

section \<open>Expiry\<close>

lemma remove_ids_effect:
  "hm_ok m \<Longrightarrow> distinct is \<Longrightarrow> remove_ids is m = (m', ts) \<Longrightarrow>
   m' = filter (\<lambda>(i, t). i \<notin> set is) m \<and> mset ts = mset (map snd (filter (\<lambda>(i, t). i \<in> set is) m))"
proof (induction "is" arbitrary: m m' ts)
  case Nil
  then show ?case by (simp add: filter_empty_conv case_prod_beta')
next
  case (Cons i ks)
  obtain m1 ts1 where r: "remove_ids ks (hm_remove i m) = (m1, ts1)" by (cases "remove_ids ks (hm_remove i m)")
  have ih: "m1 = filter (\<lambda>(j, t). j \<notin> set ks) (hm_remove i m)"
    "mset ts1 = mset (map snd (filter (\<lambda>(j, t). j \<in> set ks) (hm_remove i m)))"
    using Cons.IH [OF _ _ r] Cons.prems by simp_all
  have m': "m' = m1" using Cons.prems(3) r by simp
  have rem: "filter (\<lambda>(j, t). j \<in> set ks) (hm_remove i m) = filter (\<lambda>(j, t). j \<in> set ks) m"
    using Cons.prems(2) by (auto simp: hm_remove_def intro!: filter_cong)
  have split: "mset (map snd (filter (\<lambda>(j, t). j \<in> set (i # ks)) m)) =
      mset (map snd (filter (\<lambda>(j, t). j = i) m)) + mset (map snd (filter (\<lambda>(j, t). j \<in> set ks) m))"
    using Cons.prems(2) by (induction m) auto
  have one: "map snd (filter (\<lambda>(j, t). j = i) m) = (case hm_get m i of None \<Rightarrow> [] | Some t \<Rightarrow> [t])"
    using Cons.prems(1)
  proof (induction m)
    case (Cons a m)
    have "fst a \<notin> fst ` set m" using Cons.prems by (simp add: hm_ok_def)
    then have "filter (\<lambda>(j, t). j = fst a) m = []"
      unfolding filter_empty_conv case_prod_beta' by (metis imageI)
    then show ?case using Cons by (auto simp: hm_get_def hm_ok_def split: option.splits)
  qed simp
  have "m' = filter (\<lambda>(j, t). j \<notin> set (i # ks)) m"
    unfolding m' ih(1) by (auto simp: hm_remove_def case_prod_beta' intro!: filter_cong)
  moreover have "mset ts = mset (map snd (filter (\<lambda>(j, t). j \<in> set (i # ks)) m))"
    unfolding split one using Cons.prems(3) r ih(2) rem by (auto split: option.splits)
  ultimately show ?case by simp
qed

lemma expire_effect:
  assumes "tm_inv tm" and "expire_transactions tm now = (tm', ts)"
  shows "tm' = tm\<lparr>tm_pending := filter (\<lambda>(i, t). now < pt_deadline t) (tm_pending tm)\<rparr>"
    and "mset ts = mset (filter (\<lambda>t. pt_deadline t \<le> now) (hm_values (tm_pending tm)))"
    and "sorted (map (\<lambda>t. (pt_deadline t, tid_bytes (pt_id t))) ts)"
proof -
  let ?m = "tm_pending tm"
  define ks where "ks = map fst (filter (\<lambda>(_, t). now \<ge> pt_deadline t) ?m)"
  obtain m1 ts1 where r: "remove_ids ks ?m = (m1, ts1)" by (cases "remove_ids ks ?m")
  have ok: "hm_ok ?m" using assms(1) by (simp add: tm_inv_def)
  have d: "distinct ks" using hm_ok_filter [OF ok] by (simp add: hm_ok_def ks_def)
  have mem: "i \<in> set ks \<longleftrightarrow> pt_deadline t \<le> now" if "(i, t) \<in> set ?m" for i t
  proof -
    have "t' = t" if "(i, t') \<in> set ?m" for t'
      using hm_get_Some [OF ok] that \<open>(i, t) \<in> set ?m\<close> by (metis option.inject)
    moreover have "i \<in> set ks \<longleftrightarrow> (\<exists>t'. (i, t') \<in> set ?m \<and> pt_deadline t' \<le> now)"
      unfolding ks_def by (auto simp: image_iff)
    ultimately show ?thesis using that by blast
  qed
  have keep: "filter (\<lambda>(i, t). i \<notin> set ks) ?m = filter (\<lambda>(i, t). now < pt_deadline t) ?m"
    using mem by (intro filter_cong refl) (simp add: case_prod_beta' not_le [symmetric])
  have gone: "filter (\<lambda>(i, t). i \<in> set ks) ?m = filter (\<lambda>(i, t). pt_deadline t \<le> now) ?m"
    using mem by (intro filter_cong refl) (simp add: case_prod_beta')
  from remove_ids_effect [OF ok d r] keep gone
  have m1: "m1 = filter (\<lambda>(i, t). now < pt_deadline t) ?m"
    and ts1: "mset ts1 = mset (map snd (filter (\<lambda>(i, t). pt_deadline t \<le> now) ?m))" by simp_all
  have res: "tm' = tm\<lparr>tm_pending := m1\<rparr>" "ts = sort_key (\<lambda>t. (pt_deadline t, tid_bytes (pt_id t))) ts1"
    using assms(2) r by (simp_all add: expire_transactions_def Let_def ks_def [symmetric])
  show "tm' = tm\<lparr>tm_pending := filter (\<lambda>(i, t). now < pt_deadline t) ?m\<rparr>" using res m1 by simp
  show "mset ts = mset (filter (\<lambda>t. pt_deadline t \<le> now) (hm_values ?m))"
    using res ts1 by (simp add: hm_values_def filter_map comp_def case_prod_beta')
  show "sorted (map (\<lambda>t. (pt_deadline t, tid_bytes (pt_id t))) ts)" using res by simp
qed

lemma tm_inv_expire:
  assumes "tm_inv tm" and "expire_transactions tm now = (tm', ts)"
  shows "tm_inv tm'"
  using assms(1) unfolding expire_effect(1) [OF assms]
  by (auto simp: tm_inv_def pending_ok_def intro: le_trans [OF length_filter_le])

section \<open>Every operation\<close>

datatype tm_op =
  TmRegister socket_addr query_method instant
| TmComplete bytes socket_addr instant
| TmCancel transaction_id
| TmExpire instant

fun tm_step :: "transaction_manager \<Rightarrow> tm_op \<Rightarrow> transaction_manager option" where
  "tm_step tm (TmRegister d m now) = Some (fst (register tm d m now))"
| "tm_step tm (TmComplete i s now) = map_option fst (complete tm i s now)"
| "tm_step tm (TmCancel i) = Some (fst (cancel tm i))"
| "tm_step tm (TmExpire now) = Some (fst (expire_transactions tm now))"

lemma complete_inv:
  "tm_inv tm \<Longrightarrow> \<exists>tm' r. complete tm i s now = Some (tm', r) \<and> tm_inv tm'"
  using tm_inv_remove [of tm]
  by (auto simp: complete_def Let_def split: sum.splits option.splits)

interpretation tm_ops: panic_free_ops tm_step tm_inv "\<lambda>_ _. True"
proof unfold_locales
  fix tm x
  assume inv: "tm_inv tm"
  show "\<exists>t. tm_step tm x = Some t \<and> tm_inv t"
  proof (cases x)
    case (TmRegister d m now)
    then show ?thesis using tm_inv_register [OF inv] by (metis prod.collapse tm_step.simps(1))
  next
    case (TmComplete i s now)
    then show ?thesis using complete_inv [OF inv, of i s now] by auto
  next
    case (TmCancel i)
    then show ?thesis using tm_inv_remove [OF inv] by (simp add: cancel_def)
  next
    case (TmExpire now)
    then show ?thesis using tm_inv_expire [OF inv] by (metis prod.collapse tm_step.simps(4))
  qed
qed

section \<open>Properties\<close>

lemma register_loop_exhausted:
  "register_loop n tm dest m now = (tm', Inl e) \<Longrightarrow> k < n \<Longrightarrow>
   hm_has (tm_pending tm) (from_counter (tm_next_counter tm + of_nat k))"
proof (induction n arbitrary: tm k)
  case (Suc n)
  then have has: "hm_has (tm_pending tm) (from_counter (tm_next_counter tm))"
    and r: "register_loop n (tm\<lparr>tm_next_counter := tm_next_counter tm + 1\<rparr>) dest m now = (tm', Inl e)"
    by (auto simp: Let_def split: if_splits)
  show ?case
  proof (cases k)
    case 0
    then show ?thesis using has by simp
  next
    case (Suc l)
    then have "l < n" using Suc.prems(2) by simp
    from Suc.IH [OF r this] show ?thesis by (simp add: Suc ac_simps)
  qed
qed simp

lemma counters_distinct: "n \<le> 2 ^ 32 \<Longrightarrow> card ((\<lambda>k. from_counter (c + of_nat k)) ` {..<n}) = n"
proof -
  assume n: "n \<le> 2 ^ 32"
  have "inj_on (\<lambda>k. from_counter (c + of_nat k)) {..<n}"
  proof (rule inj_onI)
    fix k l assume kl: "k \<in> {..<n}" "l \<in> {..<n}" "from_counter (c + of_nat k) = from_counter (c + of_nat l)"
    then have "(of_nat k :: u32) = of_nat l" by (simp add: from_counter_inj)
    moreover have "unat (of_nat j :: u32) = j" if "j < 2 ^ 32" for j
      using that by (simp add: unat_of_nat)
    moreover have "k < 2 ^ 32" "l < 2 ^ 32" using kl(1,2) n by auto
    ultimately show "k = l" by metis
  qed
  then show ?thesis by (simp add: card_image)
qed

lemma register_loop_finds:
  assumes "hm_ok (tm_pending tm)" and "length (tm_pending tm) < n" and "n \<le> 2 ^ 32"
  shows "\<exists>tm' i. register_loop n tm dest m now = (tm', Inr i)"
proof (rule ccontr)
  assume no: "\<not> ?thesis"
  obtain tm' r where r: "register_loop n tm dest m now = (tm', r)" by (cases "register_loop n tm dest m now")
  with no obtain e where e: "register_loop n tm dest m now = (tm', Inl e)" by (cases r) auto
  let ?ids = "(\<lambda>k. from_counter (tm_next_counter tm + of_nat k)) ` {..<n}"
  have "?ids \<subseteq> fst ` set (tm_pending tm)"
    using register_loop_exhausted [OF e] by (auto simp: hm_has_def hm_get_None)
  then have "card ?ids \<le> card (fst ` set (tm_pending tm))" by (intro card_mono) auto
  also have "\<dots> \<le> length (tm_pending tm)" using card_image_le card_length le_trans by blast
  finally show False using counters_distinct [OF assms(3)] assms(2) by simp
qed

text \<open>
  C12: below the configured limit a registration always succeeds, whatever identifiers earlier wraps
  of the counter left in use: it returns a fresh 4-byte identifier, stores exactly one new entry with
  its deadline, and never reports \<open>IdSpaceExhausted\<close>; at the limit it changes nothing.
\<close>

theorem register_allocates_fresh:
  assumes "tm_inv tm" and "tm_max_pending tm < 2 ^ 32" and "register tm dest m now = (tm', r)"
  shows "case r of
      Inl e \<Rightarrow> e = AtCapacity (tm_max_pending tm) \<and> length (tm_pending tm) = tm_max_pending tm \<and> tm' = tm
    | Inr i \<Rightarrow> length (tm_pending tm) < tm_max_pending tm \<and> hm_get (tm_pending tm) i = None \<and>
        length (tid_bytes i) = 4 \<and>
        hm_get (tm_pending tm') = (hm_get (tm_pending tm))(i \<mapsto> \<lparr>pt_id = i, pt_destination = dest,
          pt_method = m, pt_started_at = now, pt_deadline = now + tm_timeout tm\<rparr>)"
proof (cases "length (tm_pending tm) \<ge> tm_max_pending tm")
  case True
  then show ?thesis using assms by (auto simp: register_def tm_inv_def)
next
  case False
  have ok: "hm_ok (tm_pending tm)" using assms(1) by (simp add: tm_inv_def)
  have l: "register_loop (Suc (tm_max_pending tm)) tm dest m now = (tm', r)"
    using False assms(3) by (simp add: register_def)
  have "Suc (tm_max_pending tm) \<le> 2 ^ 32" "length (tm_pending tm) < Suc (tm_max_pending tm)"
    using assms(2) False by simp_all
  with register_loop_finds [OF ok, of _ dest m now] l obtain i where i: "r = Inr i" by (metis prod.inject)
  show ?thesis using register_loop_effect [OF ok l] False by (auto simp: i fun_eq_iff)
qed

theorem register_allocates_fresh_witness:
  "snd (register (tm_new (secs 2) 1) (SA4 1 2) Ping 0) = Inr (TransactionId [0, 0, 0, 0]) \<and>
   tm_inv (tm_new (secs 2) 1) \<and>
   hm_get (tm_pending (fst (register (tm_new (secs 2) 1) (SA4 1 2) Ping 0))) (TransactionId [0, 0, 0, 0])
     = Some \<lparr>pt_id = TransactionId [0, 0, 0, 0], pt_destination = SA4 1 2, pt_method = Ping,
             pt_started_at = 0, pt_deadline = secs 2\<rparr>"
proof -
  have inv: "tm_inv (tm_new (secs 2) 1)" by (simp add: tm_new_def)
  have "be_bytes n 0 = replicate n 0" for n by (induction n) (simp_all add: replicate_append_same)
  then have word_be_zero: "word_be 4 (0 :: u32) = [0, 0, 0, 0]"
    by (simp add: word_be_def) (simp add: numeral_eq_Suc)
  have r: "register (tm_new (secs 2) 1) (SA4 1 2) Ping 0 =
      (fst (register (tm_new (secs 2) 1) (SA4 1 2) Ping 0), Inr (TransactionId [0, 0, 0, 0]))"
    by (simp add: register_def tm_new_def tm_with_initial_counter_def hm_has_def from_counter_def
        word_be_zero Let_def)
  have "tm_max_pending (tm_new (secs 2) 1) < 2 ^ 32"
    by (simp add: tm_new_def tm_with_initial_counter_def)
  from register_allocates_fresh [OF inv this r] inv r show ?thesis
    by (simp add: tm_new_def tm_with_initial_counter_def) (metis snd_conv)
qed

definition sample_pending :: pending_transaction where
  "sample_pending = \<lparr>pt_id = TransactionId [0, 0, 0, 7], pt_destination = SA4 1 2, pt_method = Ping,
     pt_started_at = 0, pt_deadline = secs 2\<rparr>"

definition sample_tm :: transaction_manager where
  "sample_tm = (tm_new (secs 2) 1)\<lparr>tm_pending := [(TransactionId [0, 0, 0, 7], sample_pending)]\<rparr>"

lemma sample_tm_inv: "tm_inv sample_tm"
  by (simp add: sample_tm_def sample_pending_def tm_new_def tm_with_initial_counter_def tm_inv_def
      pending_ok_def hm_ok_def)

text \<open>
  C28: a response completes a query exactly when identifier and source address match and the deadline
  is not reached. A response from another address leaves the query pending, so the real one still
  completes it; a completed or expired query is gone, so every later response to it is unknown.
\<close>

theorem complete_matches_once:
  assumes "length tid = 4" and "hm_get (tm_pending tm) (TransactionId tid) = Some t"
  shows "(src \<noteq> pt_destination t \<longrightarrow>
      complete tm tid src now = Some (tm, Inl (SourceMismatch (TransactionId tid) (pt_destination t) src))) \<and>
    (\<exists>tm'. complete tm tid (pt_destination t) now =
        Some (tm', if now < pt_deadline t then Inr \<lparr>ct_transaction = t, ct_completed_at = now\<rparr> else Inl (Expired t)) \<and>
      hm_get (tm_pending tm') = (hm_get (tm_pending tm))(TransactionId tid := None) \<and>
      (\<forall>src' now'. complete tm' tid src' now' = Some (tm', Inl (UnknownTransaction (TransactionId tid)))))"
  using assms by (auto simp: complete_def tid_try_from_def Let_def fun_eq_iff)

theorem complete_matches_once_witness:
  "\<exists>tm'. complete sample_tm [0, 0, 0, 7] (SA4 1 2) (secs 1) = Some (tm', Inr
       \<lparr>ct_transaction = sample_pending, ct_completed_at = secs 1\<rparr>)"
proof -
  have g: "hm_get (tm_pending sample_tm) (TransactionId [0, 0, 0, 7]) = Some sample_pending"
    by (simp add: sample_tm_def hm_get_def)
  have l: "length ([0, 0, 0, 7] :: bytes) = 4" by simp
  from complete_matches_once [OF l g, of "SA4 1 2" "secs 1"]
  obtain tm' where "complete sample_tm [0, 0, 0, 7] (pt_destination sample_pending) (secs 1) =
      Some (tm', if secs 1 < pt_deadline sample_pending
        then Inr \<lparr>ct_transaction = sample_pending, ct_completed_at = secs 1\<rparr> else Inl (Expired sample_pending))" by blast
  then show ?thesis by (auto simp: sample_pending_def)
qed

text \<open>
  Expiry hands back every query whose deadline has passed, ordered by deadline and identifier,
  and keeps exactly the others; the wake-up time \<open>next_deadline\<close> is the first instant at which
  expiry hands anything back.
\<close>

theorem expire_is_exact:
  assumes "tm_inv tm" and "expire_transactions tm now = (tm', ts)"
  shows "mset ts + mset (hm_values (tm_pending tm')) = mset (hm_values (tm_pending tm)) \<and>
    (\<forall>t\<in>set ts. pt_deadline t \<le> now) \<and>
    (\<forall>t\<in>set (hm_values (tm_pending tm')). now < pt_deadline t) \<and>
    sorted (map (\<lambda>t. (pt_deadline t, tid_bytes (pt_id t))) ts) \<and>
    (ts \<noteq> [] \<longleftrightarrow> (case tm_next_deadline tm of None \<Rightarrow> False | Some d \<Rightarrow> d \<le> now))"
proof -
  note e = expire_effect [OF assms]
  let ?vs = "hm_values (tm_pending tm)"
  have vs': "hm_values (tm_pending tm') = filter (\<lambda>t. now < pt_deadline t) ?vs"
    unfolding e(1) by (simp add: hm_values_def filter_map comp_def case_prod_beta')
  have sets: "set ts = {t \<in> set ?vs. pt_deadline t \<le> now}"
    using mset_eq_setD [OF e(2)] by auto
  have "ts \<noteq> [] \<longleftrightarrow> (\<exists>t\<in>set ?vs. pt_deadline t \<le> now)" using sets by (metis (mono_tags, lifting) Collect_empty_eq set_empty)
  also have "\<dots> \<longleftrightarrow> (case tm_next_deadline tm of None \<Rightarrow> False | Some d \<Rightarrow> d \<le> now)"
  proof (cases "map pt_deadline ?vs")
    case Nil
    then show ?thesis by (simp add: tm_next_deadline_def)
  next
    case (Cons d ds)
    have "(\<exists>t\<in>set ?vs. pt_deadline t \<le> now) \<longleftrightarrow> (\<exists>y\<in>set (map pt_deadline ?vs). y \<le> now)" by auto
    also have "\<dots> \<longleftrightarrow> foldl min d ds \<le> now" unfolding Cons foldl_min_le ..
    finally show ?thesis using Cons by (simp add: tm_next_deadline_def)
  qed
  finally have "ts \<noteq> [] \<longleftrightarrow> (case tm_next_deadline tm of None \<Rightarrow> False | Some d \<Rightarrow> d \<le> now)" .
  moreover have "mset ts + mset (hm_values (tm_pending tm')) = mset ?vs"
    unfolding e(2) vs' by (simp add: not_le [symmetric])
  ultimately show ?thesis using sets vs' e(3) by auto
qed

theorem expire_is_exact_witness:
  "snd (expire_transactions sample_tm (secs 2)) \<noteq> []"
proof -
  have "tm_next_deadline sample_tm = Some (secs 2)"
    by (simp add: tm_next_deadline_def sample_tm_def hm_values_def sample_pending_def)
  moreover obtain tm' ts where e: "expire_transactions sample_tm (secs 2) = (tm', ts)"
    by (cases "expire_transactions sample_tm (secs 2)")
  ultimately show ?thesis using expire_is_exact [OF sample_tm_inv e] by simp
qed

end
