(* ===== verification/TokenKeys.thy ===== *)
theory TokenKeys imports Krpc begin

text \<open>
  Announce tokens, \<open>src/dht/token/mod.rs\<close>: the current and the previous secret, rotation
  every five minutes on a fixed grid, issuing and validating. HMAC-SHA256 (\<open>hmac\<close>,
  \<open>sha2\<close>) is the parameter \<open>mac\<close>, from a key and a message to the tag; \<open>verify_slice\<close>
  compares the tag with the token. The operating system's random source is the argument \<open>fresh\<close> of
  an operation: the key it would draw, or its failure.
\<close>

section \<open>Definitions\<close>

definition ROTATION :: duration where
  "ROTATION = secs 300"

datatype token_error = TokenError

record token_manager =
  tk_current :: bytes
  tk_previous :: "bytes option"
  tk_epoch :: instant

definition tk_with_source :: "instant \<Rightarrow> token_error + bytes \<Rightarrow> token_error + token_manager" where
  "tk_with_source now fresh = and_then fresh
     (\<lambda>key. Inr \<lparr>tk_current = key, tk_previous = None, tk_epoch = now\<rparr>)"

definition rotate_key :: "token_manager \<Rightarrow> instant \<Rightarrow> token_error + bytes \<Rightarrow> token_manager \<times> (token_error + unit)" where
  "rotate_key tk now fresh =
     (let elapsed = now - tk_epoch tk in
      if elapsed < ROTATION then (tk, Inr ())
      else case fresh of
        Inl e \<Rightarrow> (tk, Inl e)
      | Inr nxt \<Rightarrow>
          (\<lparr>tk_current = nxt,
            tk_previous = (if elapsed < ROTATION * 2 then Some (tk_current tk) else None),
            tk_epoch = now - elapsed mod ROTATION\<rparr>, Inr ()))"

definition mac_label :: bytes where
  "mac_label = map of_char ''bt-sniffer/announce-token/v1''"

fun mac_input :: "ip_addr \<Rightarrow> bytes" where
  "mac_input (IPV4 ip) = mac_label @ [4] @ octets4 ip"
| "mac_input (IPV6 ip) = mac_label @ [6] @ octets6 ip"

definition issue :: "(bytes \<Rightarrow> bytes \<Rightarrow> bytes) \<Rightarrow> token_manager \<Rightarrow> ip_addr \<Rightarrow> instant \<Rightarrow> token_error + bytes
    \<Rightarrow> token_manager \<times> (token_error + token)" where
  "issue mac tk ip now fresh =
     (case rotate_key tk now fresh of
        (tk', Inl e) \<Rightarrow> (tk', Inl e)
      | (tk', Inr _) \<Rightarrow> (tk', Inr (Token (mac (tk_current tk') (mac_input ip)))))"

definition validate :: "(bytes \<Rightarrow> bytes \<Rightarrow> bytes) \<Rightarrow> token_manager \<Rightarrow> ip_addr \<Rightarrow> token \<Rightarrow> instant
    \<Rightarrow> token_error + bytes \<Rightarrow> token_manager \<times> (token_error + bool)" where
  "validate mac tk ip tok now fresh =
     (case rotate_key tk now fresh of
        (tk', Inl e) \<Rightarrow> (tk', Inl e)
      | (tk', Inr _) \<Rightarrow>
          (let current = (mac (tk_current tk') (mac_input ip) = token_bytes tok);
               previous = (case tk_previous tk' of None \<Rightarrow> False
                 | Some key \<Rightarrow> mac key (mac_input ip) = token_bytes tok)
           in (tk', Inr (current \<or> previous))))"

section \<open>The life of a key\<close>

text \<open>The requests between two points in time, each of which may rotate the keys.\<close>

fun rotations :: "token_manager \<Rightarrow> (instant \<times> (token_error + bytes)) list \<Rightarrow> token_manager" where
  "rotations tk [] = tk"
| "rotations tk ((now, fresh) # rs) = rotations (fst (rotate_key tk now fresh)) rs"

definition drawn :: "(instant \<times> (token_error + bytes)) list \<Rightarrow> bytes set" where
  "drawn rs = {key. \<exists>now. (now, Inr key) \<in> set rs}"

text \<open>Where the key of the epoch \<open>e\<close> is \<open>m\<close> periods later.\<close>

definition key_after :: "bytes \<Rightarrow> instant \<Rightarrow> nat \<Rightarrow> bytes set \<Rightarrow> token_manager \<Rightarrow> bool" where
  "key_after key e m ds tk \<longleftrightarrow> tk_epoch tk = e + m * ROTATION \<and>
     (m = 0 \<longrightarrow> tk_current tk = key) \<and>
     (m = 1 \<longrightarrow> tk_previous tk = Some key) \<and>
     (1 \<le> m \<longrightarrow> tk_current tk \<in> ds) \<and>
     (2 \<le> m \<longrightarrow> (\<forall>k. tk_previous tk = Some k \<longrightarrow> k \<in> ds))"

lemma ROTATION_pos [simp]: "0 < ROTATION"
  by (simp add: ROTATION_def)

lemma rotate_aligned:
  assumes "now - tk_epoch tk \<ge> ROTATION"
  shows "now - (now - tk_epoch tk) mod ROTATION = tk_epoch tk + (now - tk_epoch tk) div ROTATION * ROTATION"
proof -
  let ?d = "now - tk_epoch tk"
  have "tk_epoch tk \<le> now" using assms ROTATION_pos by linarith
  moreover have "?d div ROTATION * ROTATION + ?d mod ROTATION = ?d" by simp
  ultimately show ?thesis by linarith
qed

lemma key_after_rotate:
  assumes "key_after key e m ds tk" and "\<And>k. fresh = Inr k \<Longrightarrow> k \<in> ds"
  shows "\<exists>m'. key_after key e m' ds (fst (rotate_key tk now fresh))"
proof (cases "now - tk_epoch tk < ROTATION")
  case True
  then show ?thesis using assms(1) by (auto simp: rotate_key_def Let_def)
next
  case False
  let ?d = "now - tk_epoch tk"
  show ?thesis
  proof (cases fresh)
    case (Inl x)
    then show ?thesis using assms(1) False by (auto simp: rotate_key_def Let_def)
  next
    case (Inr nxt)
    have ep: "now - ?d mod ROTATION = e + (m + ?d div ROTATION) * ROTATION"
      using rotate_aligned [where tk = tk and now = now] False assms(1) by (simp add: key_after_def algebra_simps)
    have pos: "1 \<le> ?d div ROTATION"
      using False div_greater_zero_iff [of ?d ROTATION] by (simp add: Suc_le_eq not_less)
    have two: "?d < ROTATION * 2 \<longleftrightarrow> ?d div ROTATION = 1"
    proof -
      have "?d div ROTATION < 2 \<longleftrightarrow> ?d < 2 * ROTATION" by (simp add: div_less_iff_less_mult)
      then show ?thesis using pos by (simp add: mult.commute) linarith
    qed
    have "key_after key e (m + ?d div ROTATION) ds (fst (rotate_key tk now fresh))"
      using assms False Inr pos ep two
      by (cases m) (auto simp: rotate_key_def key_after_def Let_def)
    then show ?thesis by blast
  qed
qed

lemma key_after_rotations:
  "key_after key e m ds tk \<Longrightarrow> drawn rs \<subseteq> ds \<Longrightarrow> \<exists>m'. key_after key e m' ds (rotations tk rs)"
proof (induction rs arbitrary: tk m)
  case Nil
  then show ?case by auto
next
  case (Cons r rs)
  obtain now fresh where r: "r = (now, fresh)" by (cases r)
  have "k \<in> ds" if "fresh = Inr k" for k using Cons.prems(2) that by (auto simp: drawn_def r)
  then obtain m' where "key_after key e m' ds (fst (rotate_key tk now fresh))"
    using key_after_rotate [OF Cons.prems(1)] by blast
  moreover have "drawn rs \<subseteq> ds" using Cons.prems(2) by (auto simp: drawn_def r)
  ultimately show ?case using Cons.IH by (simp add: r)
qed

lemma rotate_in_period:
  assumes "rotate_key tk now fresh = (tk', Inr u)" and "tk_epoch tk \<le> now"
  shows "tk_epoch tk' \<le> now \<and> now < tk_epoch tk' + ROTATION"
proof (cases "now - tk_epoch tk < ROTATION")
  case True
  then show ?thesis using assms by (auto simp: rotate_key_def Let_def)
next
  case False
  then have "tk_epoch tk' = now - (now - tk_epoch tk) mod ROTATION"
    using assms(1) by (auto simp: rotate_key_def Let_def split: sum.splits)
  moreover have "(now - tk_epoch tk) mod ROTATION < ROTATION" by simp
  ultimately show ?thesis by linarith
qed

lemma rotations_epoch_le:
  "tk_epoch tk \<le> t \<Longrightarrow> \<forall>(s, f)\<in>set rs. s \<le> t \<Longrightarrow> tk_epoch (rotations tk rs) \<le> t"
proof (induction rs arbitrary: tk)
  case (Cons r rs)
  obtain s f where r: "r = (s, f)" by (cases r)
  have "tk_epoch (fst (rotate_key tk s f)) \<le> t"
    using Cons.prems by (auto simp: rotate_key_def Let_def r split: sum.splits)
  then show ?case using Cons by (simp add: r)
qed simp

section \<open>Properties\<close>

text \<open>
  C29: a token issued at \<open>t\<close> is accepted for the same address at every later \<open>t'\<close> up to
  \<open>t + 300 s\<close>, whatever requests, rotations and failures of the random source come between (a
  late request does not extend a key's life, because the epoch stays on its grid); from
  \<open>t + 600 s\<close> on it is accepted only if a key drawn since then happens to give the same tag.
\<close>

theorem token_lifetime:
  assumes "tk_epoch tk \<le> t" and "issue mac tk ip t fresh = (tk1, Inr tok)"
    and "\<forall>(s, f)\<in>set rs. s \<le> t'" and "t \<le> t'"
    and "validate mac (rotations tk1 rs) ip tok t' fresh' = (tk2, Inr ok)"
  shows "(t' \<le> t + ROTATION \<longrightarrow> ok) \<and>
    (t + 2 * ROTATION \<le> t' \<and> ok \<longrightarrow>
       (\<exists>key\<in>drawn (rs @ [(t', fresh')]). mac key (mac_input ip) = token_bytes tok))"
proof -
  obtain u where r1: "rotate_key tk t fresh = (tk1, Inr u)"
    and tok: "token_bytes tok = mac (tk_current tk1) (mac_input ip)"
    using assms(2) by (auto simp: issue_def split: prod.splits sum.splits)
  let ?key = "tk_current tk1" and ?e = "tk_epoch tk1" and ?ds = "drawn (rs @ [(t', fresh')])"
  have e: "?e \<le> t" "t < ?e + ROTATION" using rotate_in_period [OF r1 assms(1)] by simp_all
  obtain u2 where r2: "rotate_key (rotations tk1 rs) t' fresh' = (tk2, Inr u2)"
    and ok: "ok \<longleftrightarrow> mac (tk_current tk2) (mac_input ip) = token_bytes tok \<or>
      (\<exists>k. tk_previous tk2 = Some k \<and> mac k (mac_input ip) = token_bytes tok)"
    using assms(5) by (auto simp: validate_def Let_def split: prod.splits sum.splits option.splits)
  have "key_after ?key ?e 0 ?ds tk1" by (simp add: key_after_def)
  moreover have "drawn rs \<subseteq> ?ds" by (auto simp: drawn_def)
  ultimately obtain m1 where "key_after ?key ?e m1 ?ds (rotations tk1 rs)"
    using key_after_rotations by blast
  moreover have "k \<in> ?ds" if "fresh' = Inr k" for k using that by (auto simp: drawn_def)
  ultimately obtain m where m: "key_after ?key ?e m ?ds tk2"
    using key_after_rotate [of ?key ?e m1 ?ds "rotations tk1 rs" fresh' t'] r2 by auto
  have "tk_epoch (rotations tk1 rs) \<le> t'"
    using rotations_epoch_le [of tk1 t' rs] e(1) assms(3,4) by simp
  from rotate_in_period [OF r2 this] m have p: "?e + m * ROTATION \<le> t'" "t' < ?e + m * ROTATION + ROTATION"
    by (simp_all add: key_after_def)
  show ?thesis
  proof (intro conjI impI)
    assume "t' \<le> t + ROTATION"
    then have "m * ROTATION < 2 * ROTATION" using p(1) e(2) by linarith
    then have "m = 0 \<or> m = 1" by auto
    then show ok using m ok tok by (auto simp: key_after_def)
  next
    assume a: "t + 2 * ROTATION \<le> t' \<and> ok"
    then have "1 * ROTATION < m * ROTATION" using p(2) e(1) by linarith
    then have "2 \<le> m" by (simp only: mult_less_cancel2) simp
    then have "tk_current tk2 \<in> ?ds" "\<And>k. tk_previous tk2 = Some k \<Longrightarrow> k \<in> ?ds"
      using m by (auto simp: key_after_def)
    then show "\<exists>key\<in>?ds. mac key (mac_input ip) = token_bytes tok" using a ok by auto
  qed
qed

theorem token_lifetime_witness:
  "snd (validate (@) (rotations \<lparr>tk_current = [1], tk_previous = None, tk_epoch = 0\<rparr> [(secs 350, Inr [2])])
     (IPV4 9) (Token ([1] @ mac_input (IPV4 9))) (secs 450) (Inr [3])) = Inr True"
proof -
  let ?tk = "\<lparr>tk_current = [1], tk_previous = None, tk_epoch = 0\<rparr>"
  have i: "issue (@) ?tk (IPV4 9) (secs 200) (Inl TokenError) = (?tk, Inr (Token ([1] @ mac_input (IPV4 9))))"
    by (simp add: issue_def rotate_key_def ROTATION_def)
  obtain tk2 ok where v: "validate (@) (rotations ?tk [(secs 350, Inr [2])])
     (IPV4 9) (Token ([1] @ mac_input (IPV4 9))) (secs 450) (Inr [3]) = (tk2, Inr ok)"
    by (simp add: validate_def rotate_key_def ROTATION_def Let_def)
  have "ok" using token_lifetime [OF _ i _ _ v] by (simp add: ROTATION_def)
  with v show ?thesis by simp
qed

end
