(* ===== verification/PeerStore.thy ===== *)
theory PeerStore imports Krpc begin

text \<open>
  The bounded peer cache \<open>src/dht/peer_store/mod.rs\<close>: announcements grouped by info-hash, two
  ordered indexes (every peer by deadline, every hash by its latest deadline), eviction when a
  capacity is reached, batched expiry and the sampling queries. A \<open>BTreeSet\<close> is a finite set with
  its least element as \<open>first\<close>; every \<open>expect\<close> and index of the source is the value
  \<open>None\<close>. The random choice of \<open>rand\<close> (\<open>IteratorRandom::sample\<close>) is the parameter
  \<open>pick\<close>.
\<close>

section \<open>Definitions\<close>

record peer_store_config =
  pc_ttl :: duration
  pc_max_hashes :: nat
  pc_max_peers :: nat
  pc_max_peers_per_hash :: nat
  pc_response_peers :: nat
  pc_address_policy :: address_policy

definition default_peer_store_config :: peer_store_config where
  "default_peer_store_config =
     \<lparr>pc_ttl = secs 1800, pc_max_hashes = 10000, pc_max_peers = 50000, pc_max_peers_per_hash = 100,
      pc_response_peers = 32, pc_address_policy = PublicOnly\<rparr>"

record peer_store =
  ps_config :: peer_store_config
  ps_family :: address_family
  ps_peers :: "(swarm_key, (socket_addr, instant) hmap) hmap"
  ps_expiry :: "(instant \<times> bytes \<times> socket_addr) set"
  ps_hashes :: "(instant \<times> bytes) set"

definition first :: "'a::linorder set \<Rightarrow> 'a option" where
  "first s = (if s = {} then None else Some (Min s))"

definition latest :: "(socket_addr, instant) hmap \<Rightarrow> instant option" where
  "latest g = (if g = [] then None else Some (Max (set (hm_values g))))"

definition config_ok :: "peer_store_config \<Rightarrow> instant \<Rightarrow> bool" where
  "config_ok c now =
     (\<not> (pc_ttl c = 0 \<or> instant_checked_add now (pc_ttl c) = None \<or> pc_max_hashes c = 0
        \<or> pc_max_peers_per_hash c = 0 \<or> pc_response_peers c = 0 \<or> pc_max_hashes c > pc_max_peers c
        \<or> pc_max_peers_per_hash c > pc_max_peers c \<or> pc_response_peers c > pc_max_peers_per_hash c))"

datatype peer_store_error = InvalidConfig | AddressRejected | DeadlineOverflow

definition ps_new :: "peer_store_config \<Rightarrow> address_family \<Rightarrow> instant \<Rightarrow> peer_store_error + peer_store" where
  "ps_new c fam now =
     (if \<not> config_ok c now then Inl InvalidConfig
      else Inr \<lparr>ps_config = c, ps_family = fam, ps_peers = [], ps_expiry = {}, ps_hashes = {}\<rparr>)"

definition ps_accepts :: "peer_store \<Rightarrow> socket_addr \<Rightarrow> bool" where
  "ps_accepts ps a = (family_accepts (ps_family ps) a \<and> policy_accepts (pc_address_policy (ps_config ps)) a)"

definition remove_peer :: "peer_store \<Rightarrow> swarm_key \<Rightarrow> socket_addr \<Rightarrow> peer_store option" where
  "remove_peer ps h a =
     (case hm_get (ps_peers ps) h of
        None \<Rightarrow> Some ps
      | Some g \<Rightarrow>
         (case latest g of
            None \<Rightarrow> None
          | Some l \<Rightarrow>
             (let hashes = ps_hashes ps - {(l, key_bytes h)};
                  (g', expiry) = (case hm_get g a of
                      None \<Rightarrow> (g, ps_expiry ps)
                    | Some e \<Rightarrow> (hm_remove a g, ps_expiry ps - {(e, key_bytes h, a)}))
              in case latest g' of
                   Some l' \<Rightarrow> Some (ps\<lparr>ps_peers := hm_put h g' (ps_peers ps), ps_expiry := expiry,
                                     ps_hashes := insert (l', key_bytes h) hashes\<rparr>)
                 | None \<Rightarrow> Some (ps\<lparr>ps_peers := hm_remove h (ps_peers ps), ps_expiry := expiry,
                                  ps_hashes := hashes\<rparr>))))"

fun remove_peers :: "peer_store \<Rightarrow> swarm_key \<Rightarrow> socket_addr list \<Rightarrow> peer_store option" where
  "remove_peers ps h [] = Some ps"
| "remove_peers ps h (a # as) = (case remove_peer ps h a of None \<Rightarrow> None | Some ps' \<Rightarrow> remove_peers ps' h as)"

fun ps_expire :: "peer_store \<Rightarrow> instant \<Rightarrow> nat \<Rightarrow> peer_store option" where
  "ps_expire ps now 0 = Some ps"
| "ps_expire ps now (Suc n) =
     (case first (ps_expiry ps) of
        None \<Rightarrow> Some ps
      | Some (deadline, h, a) \<Rightarrow>
          if deadline > now then Some ps
          else (case remove_peer ps (SwarmKey h) a of None \<Rightarrow> None | Some ps' \<Rightarrow> ps_expire ps' now n))"

definition evict_hash :: "peer_store \<Rightarrow> swarm_key \<Rightarrow> peer_store option" where
  "evict_hash ps h =
     (if \<not> hm_has (ps_peers ps) h \<and> length (ps_peers ps) \<ge> pc_max_hashes (ps_config ps)
      then (case first (ps_hashes ps) of
              None \<Rightarrow> None
            | Some (_, oldest) \<Rightarrow>
               (case hm_get (ps_peers ps) (SwarmKey oldest) of
                  None \<Rightarrow> None
                | Some g \<Rightarrow> remove_peers ps (SwarmKey oldest) (hm_keys g)))
      else Some ps)"

definition oldest_peer :: "(socket_addr, instant) hmap \<Rightarrow> (instant \<times> socket_addr) option" where
  "oldest_peer g = first (set (map (\<lambda>(a, t). (t, a)) g))"

definition evict_group :: "peer_store \<Rightarrow> swarm_key \<Rightarrow> peer_store option" where
  "evict_group ps h =
     (case hm_get (ps_peers ps) h of
        None \<Rightarrow> Some ps
      | Some g \<Rightarrow>
         if length g \<ge> pc_max_peers_per_hash (ps_config ps)
         then (case oldest_peer g of None \<Rightarrow> None | Some (_, a) \<Rightarrow> remove_peer ps h a)
         else Some ps)"

definition evict_peer :: "peer_store \<Rightarrow> peer_store option" where
  "evict_peer ps =
     (if card (ps_expiry ps) \<ge> pc_max_peers (ps_config ps)
      then (case first (ps_expiry ps) of None \<Rightarrow> None | Some (_, h, a) \<Rightarrow> remove_peer ps (SwarmKey h) a)
      else Some ps)"

definition store_peer :: "peer_store \<Rightarrow> swarm_key \<Rightarrow> socket_addr \<Rightarrow> instant \<Rightarrow> peer_store" where
  "store_peer ps h a deadline =
     (let g = (case hm_get (ps_peers ps) h of None \<Rightarrow> [] | Some g \<Rightarrow> g);
          hashes = (case latest g of None \<Rightarrow> ps_hashes ps | Some l \<Rightarrow> ps_hashes ps - {(l, key_bytes h)});
          g' = hm_put a deadline g
      in ps\<lparr>ps_peers := hm_put h g' (ps_peers ps),
            ps_hashes := insert (Max (set (hm_values g')), key_bytes h) hashes,
            ps_expiry := insert (deadline, key_bytes h, a) (ps_expiry ps)\<rparr>)"

definition remove_known :: "peer_store \<Rightarrow> swarm_key \<Rightarrow> socket_addr \<Rightarrow> peer_store option" where
  "remove_known ps h a =
     (if (case hm_get (ps_peers ps) h of None \<Rightarrow> False | Some g \<Rightarrow> hm_has g a)
      then remove_peer ps h a else Some ps)"

definition announce :: "peer_store \<Rightarrow> swarm_key \<Rightarrow> socket_addr \<Rightarrow> instant
    \<Rightarrow> (peer_store \<times> (peer_store_error + unit)) option" where
  "announce ps h a now =
     (if \<not> ps_accepts ps a then Some (ps, Inl AddressRejected)
      else case instant_checked_add now (pc_ttl (ps_config ps)) of
        None \<Rightarrow> Some (ps, Inl DeadlineOverflow)
      | Some deadline \<Rightarrow>
         (case ps_expire ps now 256 of None \<Rightarrow> None | Some ps1 \<Rightarrow>
          case remove_known ps1 h a of None \<Rightarrow> None | Some ps2 \<Rightarrow>
          case evict_hash ps2 h of None \<Rightarrow> None | Some ps3 \<Rightarrow>
          case evict_group ps3 h of None \<Rightarrow> None | Some ps4 \<Rightarrow>
          case evict_peer ps4 of None \<Rightarrow> None | Some ps5 \<Rightarrow>
          Some (store_peer ps5 h a deadline, Inr ())))"

definition active_infohashes :: "peer_store \<Rightarrow> instant \<Rightarrow> swarm_key list" where
  "active_infohashes ps now =
     map (\<lambda>(_, h). SwarmKey h) (filter (\<lambda>(deadline, _). deadline > now) (sorted_list_of_set (ps_hashes ps)))"

definition active_infohash_count :: "peer_store \<Rightarrow> instant \<Rightarrow> nat" where
  "active_infohash_count ps now = length (active_infohashes ps now)"

definition contains_active_infohash :: "peer_store \<Rightarrow> swarm_key \<Rightarrow> instant \<Rightarrow> bool" where
  "contains_active_infohash ps h now =
     (case hm_get (ps_peers ps) h of None \<Rightarrow> False
      | Some g \<Rightarrow> list_ex (\<lambda>deadline. deadline > now) (hm_values g))"

definition sample_infohashes ::
  "(swarm_key list \<Rightarrow> nat \<Rightarrow> swarm_key list) \<Rightarrow> peer_store \<Rightarrow> nat \<Rightarrow> instant \<Rightarrow> swarm_key list" where
  "sample_infohashes pick ps limit now =
     pick (active_infohashes ps now) (min limit (pc_max_hashes (ps_config ps)))"

definition sample_peers ::
  "(socket_addr list \<Rightarrow> nat \<Rightarrow> socket_addr list) \<Rightarrow> peer_store \<Rightarrow> swarm_key \<Rightarrow> nat \<Rightarrow> instant \<Rightarrow> socket_addr list" where
  "sample_peers pick ps h limit now =
     pick (case hm_get (ps_peers ps) h of None \<Rightarrow> []
             | Some g \<Rightarrow> map fst (filter (\<lambda>(_, deadline). deadline > now) g))
       (min limit (pc_response_peers (ps_config ps)))"

definition ps_next_deadline :: "peer_store \<Rightarrow> instant option" where
  "ps_next_deadline ps = map_option fst (first (ps_expiry ps))"

section \<open>Entries and the index invariant\<close>

definition entry :: "peer_store \<Rightarrow> swarm_key \<Rightarrow> socket_addr \<Rightarrow> instant option" where
  "entry ps h a = (case hm_get (ps_peers ps) h of None \<Rightarrow> None | Some g \<Rightarrow> hm_get g a)"

definition ps_index :: "peer_store \<Rightarrow> bool" where
  "ps_index ps \<longleftrightarrow> hm_ok (ps_peers ps) \<and>
     (\<forall>h g. hm_get (ps_peers ps) h = Some g \<longrightarrow> hm_ok g \<and> g \<noteq> []) \<and>
     ps_expiry ps = {(d, b, a). entry ps (SwarmKey b) a = Some d} \<and>
     ps_hashes ps = {(l, b). \<exists>g. hm_get (ps_peers ps) (SwarmKey b) = Some g \<and> latest g = Some l}"

definition ps_sizes :: "peer_store \<Rightarrow> bool" where
  "ps_sizes ps \<longleftrightarrow> length (ps_peers ps) \<le> pc_max_hashes (ps_config ps) \<and>
     card (ps_expiry ps) \<le> pc_max_peers (ps_config ps) \<and>
     (\<forall>h g. hm_get (ps_peers ps) h = Some g \<longrightarrow> length g \<le> pc_max_peers_per_hash (ps_config ps)) \<and>
     0 < pc_max_hashes (ps_config ps) \<and> 0 < pc_max_peers_per_hash (ps_config ps) \<and> 0 < pc_max_peers (ps_config ps)"

definition ps_inv :: "peer_store \<Rightarrow> bool" where
  "ps_inv ps \<longleftrightarrow> ps_index ps \<and> ps_sizes ps"

text \<open>The store \<open>ps'\<close> keeps some of the entries of \<open>ps\<close> and its configuration.\<close>

definition shrinks :: "peer_store \<Rightarrow> peer_store \<Rightarrow> bool" where
  "shrinks ps ps' \<longleftrightarrow> ps_index ps' \<and> ps_config ps' = ps_config ps \<and> ps_family ps' = ps_family ps \<and>
     (\<forall>h a d. entry ps' h a = Some d \<longrightarrow> entry ps h a = Some d)"

lemma shrinks_refl: "ps_index ps \<Longrightarrow> shrinks ps ps"
  by (simp add: shrinks_def)

lemma shrinks_trans: "shrinks ps1 ps2 \<Longrightarrow> shrinks ps2 ps3 \<Longrightarrow> shrinks ps1 ps3"
  by (simp add: shrinks_def)

lemma ps_index_groups:
  "ps_index ps \<Longrightarrow> hm_get (ps_peers ps) h = Some g \<Longrightarrow> hm_ok g \<and> g \<noteq> []"
  by (simp add: ps_index_def)

lemma finite_expiry: "ps_index ps \<Longrightarrow> finite (ps_expiry ps)"
proof -
  assume i: "ps_index ps"
  have "ps_expiry ps \<subseteq> (\<Union>(h, g)\<in>set (ps_peers ps). (\<lambda>(a, d). (d, key_bytes h, a)) ` set g)"
  proof
    fix x assume "x \<in> ps_expiry ps"
    then obtain d b a g where x: "x = (d, b, a)" "hm_get (ps_peers ps) (SwarmKey b) = Some g" "hm_get g a = Some d"
      using i by (auto simp: ps_index_def entry_def split: option.splits)
    then have "(SwarmKey b, g) \<in> set (ps_peers ps)" "(a, d) \<in> set g" by (simp_all add: hm_get_in)
    then show "x \<in> (\<Union>(h, g)\<in>set (ps_peers ps). (\<lambda>(a, d). (d, key_bytes h, a)) ` set g)"
      unfolding x(1) by force
  qed
  then show ?thesis by (rule finite_subset) auto
qed

lemma finite_hashes: "ps_index ps \<Longrightarrow> finite (ps_hashes ps)"
proof -
  assume i: "ps_index ps"
  have "ps_hashes ps \<subseteq> (\<lambda>(h, g). (the (latest g), key_bytes h)) ` set (ps_peers ps)"
  proof
    fix x assume "x \<in> ps_hashes ps"
    then obtain l b g where x: "x = (l, b)" "hm_get (ps_peers ps) (SwarmKey b) = Some g" "latest g = Some l"
      using i by (auto simp: ps_index_def)
    then show "x \<in> (\<lambda>(h, g). (the (latest g), key_bytes h)) ` set (ps_peers ps)"
      using hm_get_in [OF x(2)] by force
  qed
  then show ?thesis by (rule finite_subset) auto
qed

lemma entry_has_group:
  "ps_index ps \<Longrightarrow> hm_get (ps_peers ps) h \<noteq> None \<longleftrightarrow> (\<exists>a d. entry ps h a = Some d)"
proof
  assume i: "ps_index ps" and "hm_get (ps_peers ps) h \<noteq> None"
  then obtain g where g: "hm_get (ps_peers ps) h = Some g" "hm_ok g" "g \<noteq> []"
    using ps_index_groups by blast
  then obtain a d where "(a, d) \<in> set g" by (cases g) auto
  then show "\<exists>a d. entry ps h a = Some d" using g by (auto simp: entry_def hm_get_Some)
qed (auto simp: entry_def split: option.splits)

lemma shrinks_hashes: "ps_index ps \<Longrightarrow> shrinks ps ps' \<Longrightarrow> hm_get (ps_peers ps') h \<noteq> None \<Longrightarrow> hm_get (ps_peers ps) h \<noteq> None"
proof -
  assume i: "ps_index ps" and s: "shrinks ps ps'" and g: "hm_get (ps_peers ps') h \<noteq> None"
  from s have "ps_index ps'" by (simp add: shrinks_def)
  from entry_has_group [OF this] g obtain a d where "entry ps' h a = Some d" by blast
  then have "entry ps h a = Some d" using s by (simp add: shrinks_def)
  then show ?thesis using entry_has_group [OF i] by blast
qed

lemma shrinks_length: "ps_index ps \<Longrightarrow> shrinks ps ps' \<Longrightarrow> length (ps_peers ps') \<le> length (ps_peers ps)"
  using shrinks_hashes by (intro hm_length_mono) (auto simp: ps_index_def shrinks_def)

lemma shrinks_group:
  assumes "ps_index ps" and "shrinks ps ps'" and "hm_get (ps_peers ps') h = Some g'"
  shows "\<exists>g. hm_get (ps_peers ps) h = Some g \<and> length g' \<le> length g"
proof -
  obtain g where g: "hm_get (ps_peers ps) h = Some g" using shrinks_hashes [OF assms(1,2), of h] assms(3) by auto
  have "hm_get g a \<noteq> None" if "hm_get g' a \<noteq> None" for a
    using assms(2,3) g that by (auto simp: shrinks_def entry_def)
      (metis option.simps(5))
  moreover have "hm_ok g" "hm_ok g'"
    using ps_index_groups [OF assms(1) g] ps_index_groups [OF _ assms(3)] assms(2) by (auto simp: shrinks_def)
  ultimately have "length g' \<le> length g" by (intro hm_length_mono) auto
  then show ?thesis using g by blast
qed

lemma shrinks_expiry: "ps_index ps \<Longrightarrow> shrinks ps ps' \<Longrightarrow> ps_expiry ps' \<subseteq> ps_expiry ps"
  by (auto simp: ps_index_def shrinks_def)

lemma shrinks_sizes:
  assumes "ps_inv ps" and "shrinks ps ps'"
  shows "ps_inv ps'"
proof -
  have i: "ps_index ps" using assms(1) by (simp add: ps_inv_def)
  have "card (ps_expiry ps') \<le> card (ps_expiry ps)"
    using shrinks_expiry [OF i assms(2)] finite_expiry [OF i] by (rule card_mono [rotated])
  moreover have "length g' \<le> pc_max_peers_per_hash (ps_config ps)" if "hm_get (ps_peers ps') h = Some g'" for h g'
    using shrinks_group [OF i assms(2) that] assms(1) by (force simp: ps_inv_def ps_sizes_def)
  ultimately show ?thesis
    using assms shrinks_length [OF i assms(2)] by (auto simp: ps_inv_def ps_sizes_def shrinks_def)
qed

section \<open>Removal\<close>

lemma latest_Some [simp]: "latest g = Some l \<longleftrightarrow> g \<noteq> [] \<and> l = Max (set (hm_values g))"
  by (auto simp: latest_def)

lemma latest_None [simp]: "latest g = None \<longleftrightarrow> g = []"
  by (simp add: latest_def)

text \<open>A change of one group with the matching change of the indexes keeps the index invariant.\<close>

lemma ps_index_change:
  assumes idx: "ps_index ps" and ok: "hm_ok g'"
    and peers: "hm_ok (ps_peers ps')"
      "\<And>k. hm_get (ps_peers ps') k = (if k = h then (if g' = [] then None else Some g') else hm_get (ps_peers ps) k)"
    and expiry: "ps_expiry ps' = {(d, b, a) \<in> ps_expiry ps. b \<noteq> key_bytes h} \<union> {(d, b, a). b = key_bytes h \<and> hm_get g' a = Some d}"
    and hashes: "ps_hashes ps' = {(l, b) \<in> ps_hashes ps. b \<noteq> key_bytes h} \<union> {(l, b). b = key_bytes h \<and> latest g' = Some l}"
  shows "ps_index ps'"
    and "entry ps' k a = (if k = h then hm_get g' a else entry ps k a)"
proof -
  have key: "SwarmKey b = h \<longleftrightarrow> b = key_bytes h" for b by (cases h) auto
  show ent: "entry ps' k a = (if k = h then hm_get g' a else entry ps k a)" for k a
    by (auto simp: entry_def peers(2))
  have "ps_expiry ps' = {(d, b, a). entry ps' (SwarmKey b) a = Some d}"
    using idx unfolding expiry by (auto simp: ps_index_def ent key)
  moreover have "ps_hashes ps' = {(l, b). \<exists>g. hm_get (ps_peers ps') (SwarmKey b) = Some g \<and> latest g = Some l}"
    using idx unfolding hashes by (auto simp: ps_index_def peers(2) key)
  moreover have "hm_ok g \<and> g \<noteq> []" if "hm_get (ps_peers ps') k = Some g" for k g
    using that ok ps_index_groups [OF idx] by (auto simp: peers(2) split: if_splits)
  ultimately show "ps_index ps'" using peers(1) by (simp add: ps_index_def)
qed

lemma remove_peer_effect:
  assumes idx: "ps_index ps"
  shows "\<exists>ps'. remove_peer ps h a = Some ps' \<and> shrinks ps ps' \<and>
    (\<forall>k b. entry ps' k b = (if k = h \<and> b = a then None else entry ps k b))"
proof (cases "hm_get (ps_peers ps) h")
  case None
  then show ?thesis using shrinks_refl [OF idx] by (auto simp: remove_peer_def entry_def)
next
  case (Some g)
  have g: "hm_ok g" "g \<noteq> []" using ps_index_groups [OF idx Some] by simp_all
  have hp: "hm_ok (ps_peers ps)" using idx by (simp add: ps_index_def)
  let ?g = "hm_remove a g" and ?b = "key_bytes h"
  let ?hs = "{(l, b) \<in> ps_hashes ps. b \<noteq> ?b} \<union> {(l, b). b = ?b \<and> latest ?g = Some l}"
  let ?ex = "{(d, b, c) \<in> ps_expiry ps. b \<noteq> ?b} \<union> {(d, b, c). b = ?b \<and> hm_get ?g c = Some d}"
  let ?ps = "ps\<lparr>ps_peers := (if ?g = [] then hm_remove h (ps_peers ps) else hm_put h ?g (ps_peers ps)),
    ps_expiry := ?ex, ps_hashes := ?hs\<rparr>"
  have key: "SwarmKey b = h \<longleftrightarrow> b = ?b" for b by (cases h) auto
  have ex: "?ex = (case hm_get g a of None \<Rightarrow> ps_expiry ps | Some e \<Rightarrow> ps_expiry ps - {(e, ?b, a)})"
    using idx Some by (auto simp: ps_index_def entry_def key split: option.splits if_splits)
  have hs: "?hs = (if ?g = [] then {} else {(Max (set (hm_values ?g)), ?b)}) \<union> (ps_hashes ps - {(Max (set (hm_values g)), ?b)})"
    using idx Some g by (auto simp: ps_index_def key)
  have "remove_peer ps h a = Some ?ps"
  proof (cases "hm_get g a")
    case None
    then have gg: "?g = g" by (rule hm_remove_absent)
    show ?thesis unfolding ex hs using Some None g
      by (simp add: remove_peer_def Let_def gg latest_def)
  next
    case (Some e)
    show ?thesis unfolding ex hs using Some \<open>hm_get (ps_peers ps) h = Some g\<close> g
      by (auto simp: remove_peer_def Let_def latest_def)
  qed
  moreover have "ps_index ?ps" "entry ?ps k c = (if k = h then hm_get ?g c else entry ps k c)" for k c
    using hp g by (rule_tac ps_index_change [OF idx, of ?g _ h]; simp)+
  ultimately show ?thesis using Some by (auto simp: shrinks_def entry_def split: if_splits)
qed

lemma remove_peers_effect:
  "ps_index ps \<Longrightarrow> \<exists>ps'. remove_peers ps h as = Some ps' \<and> shrinks ps ps' \<and>
    (\<forall>k b. entry ps' k b = (if k = h \<and> b \<in> set as then None else entry ps k b))"
proof (induction as arbitrary: ps)
  case Nil
  then show ?case by (auto intro: shrinks_refl)
next
  case (Cons a as)
  obtain ps1 where 1: "remove_peer ps h a = Some ps1" "shrinks ps ps1"
    "\<forall>k b. entry ps1 k b = (if k = h \<and> b = a then None else entry ps k b)"
    using remove_peer_effect [OF Cons.prems] by blast
  have "ps_index ps1" using 1(2) by (simp add: shrinks_def)
  from Cons.IH [OF this] obtain ps2 where 2: "remove_peers ps1 h as = Some ps2" "shrinks ps1 ps2"
    "\<forall>k b. entry ps2 k b = (if k = h \<and> b \<in> set as then None else entry ps1 k b)" by blast
  then show ?case using 1 shrinks_trans [OF 1(2) 2(2)] by auto
qed

lemma first_Some: "finite s \<Longrightarrow> first s = Some x \<Longrightarrow> x \<in> s \<and> (\<forall>y\<in>s. x \<le> y)"
  by (auto simp: first_def split: if_splits intro: Min_in Min_le)

lemma first_None: "first s = None \<longleftrightarrow> s = {}"
  by (simp add: first_def)

lemma expire_effect_peers:
  "ps_index ps \<Longrightarrow> \<exists>ps'. ps_expire ps now n = Some ps' \<and> shrinks ps ps' \<and>
    (\<forall>h a d. entry ps h a = Some d \<and> now < d \<longrightarrow> entry ps' h a = Some d)"
proof (induction n arbitrary: ps)
  case 0
  then show ?case by (auto intro: shrinks_refl)
next
  case (Suc n)
  show ?case
  proof (cases "first (ps_expiry ps)")
    case None
    then show ?thesis using Suc.prems by (auto intro: shrinks_refl)
  next
    case (Some x)
    obtain d h a where x: "x = (d, h, a)" by (cases x)
    then have mem: "entry ps (SwarmKey h) a = Some d"
      using first_Some [OF finite_expiry [OF Suc.prems] Some] Suc.prems by (auto simp: ps_index_def)
    show ?thesis
    proof (cases "d > now")
      case True
      then show ?thesis using Some x Suc.prems by (auto intro: shrinks_refl)
    next
      case False
      obtain ps1 where 1: "remove_peer ps (SwarmKey h) a = Some ps1" "shrinks ps ps1"
        "\<forall>k b. entry ps1 k b = (if k = SwarmKey h \<and> b = a then None else entry ps k b)"
        using remove_peer_effect [OF Suc.prems] by blast
      have "ps_index ps1" using 1(2) by (simp add: shrinks_def)
      from Suc.IH [OF this] obtain ps2 where 2: "ps_expire ps1 now n = Some ps2" "shrinks ps1 ps2"
        "\<forall>h a d. entry ps1 h a = Some d \<and> now < d \<longrightarrow> entry ps2 h a = Some d" by blast
      have "entry ps2 k b = Some e" if "entry ps k b = Some e" "now < e" for k b e
        using 1(3) 2(3) that mem False by (metis option.inject)
      then show ?thesis using Some x False 1(1) 2(1) shrinks_trans [OF 1(2) 2(2)] by auto
    qed
  qed
qed

section \<open>Announcing\<close>

definition has_room :: "peer_store \<Rightarrow> swarm_key \<Rightarrow> bool" where
  "has_room ps h \<longleftrightarrow> hm_has (ps_peers ps) h \<or> length (ps_peers ps) < pc_max_hashes (ps_config ps)"

lemma shrinks_room:
  assumes "ps_inv ps" and "shrinks ps ps'" and "has_room ps h"
  shows "has_room ps' h"
proof (cases "hm_has (ps_peers ps') h")
  case False
  have i: "ps_index ps" and i': "ps_index ps'" using assms by (simp_all add: ps_inv_def shrinks_def)
  have cfg: "ps_config ps' = ps_config ps" using assms(2) by (simp add: shrinks_def)
  show ?thesis
  proof (cases "hm_has (ps_peers ps) h")
    case True
    have "length (ps_peers ps') < length (ps_peers ps)"
      using i i' shrinks_hashes [OF i assms(2)] True False
      by (intro hm_length_strict [of _ _ h]) (auto simp: ps_index_def hm_has_def)
    then show ?thesis using assms(1) cfg by (simp add: has_room_def ps_inv_def ps_sizes_def)
  next
    case False
    then show ?thesis using assms(3) shrinks_length [OF i assms(2)] cfg by (simp add: has_room_def)
  qed
qed (simp add: has_room_def)

lemma remove_known_effect:
  assumes "ps_index ps"
  shows "\<exists>ps'. remove_known ps h a = Some ps' \<and> shrinks ps ps' \<and>
    (\<forall>k b. entry ps' k b = (if k = h \<and> b = a then None else entry ps k b))"
proof (cases "case hm_get (ps_peers ps) h of None \<Rightarrow> False | Some g \<Rightarrow> hm_has g a")
  case True
  then show ?thesis using remove_peer_effect [OF assms, of h a] by (simp add: remove_known_def)
next
  case False
  then have "entry ps h a = None" by (auto simp: entry_def hm_has_def split: option.splits)
  with False show ?thesis using shrinks_refl [OF assms] by (auto simp: remove_known_def)
qed

lemma evict_hash_effect:
  assumes inv: "ps_inv ps"
  shows "\<exists>ps'. evict_hash ps h = Some ps' \<and> shrinks ps ps' \<and> has_room ps' h"
proof (cases "\<not> hm_has (ps_peers ps) h \<and> length (ps_peers ps) \<ge> pc_max_hashes (ps_config ps)")
  case False
  then show ?thesis using inv shrinks_refl by (auto simp: evict_hash_def has_room_def ps_inv_def)
next
  case True
  have idx: "ps_index ps" and sz: "0 < length (ps_peers ps)"
    using inv True by (auto simp: ps_inv_def ps_sizes_def)
  then obtain k0 g0 where "(k0, g0) \<in> set (ps_peers ps)" by (cases "ps_peers ps") auto
  then have k0: "hm_get (ps_peers ps) k0 = Some g0" using idx by (simp add: hm_get_Some ps_index_def)
  then have "(Max (set (hm_values g0)), key_bytes k0) \<in> ps_hashes ps"
    using idx ps_index_groups [OF idx k0] by (auto simp: ps_index_def)
  then obtain l old where f: "first (ps_hashes ps) = Some (l, old)" by (cases "first (ps_hashes ps)") (auto simp: first_None)
  then have "(l, old) \<in> ps_hashes ps" using first_Some [OF finite_hashes [OF idx]] by blast
  then obtain g where g: "hm_get (ps_peers ps) (SwarmKey old) = Some g" using idx by (auto simp: ps_index_def)
  obtain ps' where r: "remove_peers ps (SwarmKey old) (hm_keys g) = Some ps'" "shrinks ps ps'"
    "\<forall>k b. entry ps' k b = (if k = SwarmKey old \<and> b \<in> set (hm_keys g) then None else entry ps k b)"
    using remove_peers_effect [OF idx] by blast
  have i': "ps_index ps'" using r(2) by (simp add: shrinks_def)
  have "entry ps' (SwarmKey old) a = None" for a
    using r(3) g by (auto simp: entry_def hm_keys_def hm_get_None)
  then have gone: "hm_get (ps_peers ps') (SwarmKey old) = None"
    using entry_has_group [OF i', of "SwarmKey old"] by simp
  have "length (ps_peers ps') < length (ps_peers ps)"
    using idx i' shrinks_hashes [OF idx r(2)] g gone
    by (intro hm_length_strict [of _ _ "SwarmKey old"]) (auto simp: ps_index_def)
  then have "has_room ps' h" using inv r(2) by (simp add: has_room_def ps_inv_def ps_sizes_def shrinks_def)
  then show ?thesis using True f g r by (auto simp: evict_hash_def)
qed

lemma evict_group_effect:
  assumes inv: "ps_inv ps"
  shows "\<exists>ps'. evict_group ps h = Some ps' \<and> shrinks ps ps' \<and>
    (\<forall>g. hm_get (ps_peers ps') h = Some g \<longrightarrow> length g < pc_max_peers_per_hash (ps_config ps))"
proof (cases "\<exists>g. hm_get (ps_peers ps) h = Some g \<and> length g \<ge> pc_max_peers_per_hash (ps_config ps)")
  case False
  then show ?thesis using inv shrinks_refl by (auto simp: evict_group_def ps_inv_def split: option.splits)
next
  case True
  then obtain g where g: "hm_get (ps_peers ps) h = Some g" "length g \<ge> pc_max_peers_per_hash (ps_config ps)"
    by blast
  have idx: "ps_index ps" using inv by (simp add: ps_inv_def)
  have gok: "hm_ok g" "g \<noteq> []" using ps_index_groups [OF idx g(1)] by simp_all
  then obtain t a where f: "oldest_peer g = Some (t, a)"
    by (cases "oldest_peer g") (auto simp: oldest_peer_def first_None)
  then have "(t, a) \<in> set (map (\<lambda>(a, t). (t, a)) g)"
    using first_Some [of "set (map (\<lambda>(a, t). (t, a)) g)"] by (simp add: oldest_peer_def)
  then have mem: "hm_get g a = Some t" using gok(1) by (auto simp: hm_get_Some)
  obtain ps' where r: "remove_peer ps h a = Some ps'" "shrinks ps ps'"
    "\<forall>k b. entry ps' k b = (if k = h \<and> b = a then None else entry ps k b)"
    using remove_peer_effect [OF idx] by blast
  have "length g' < pc_max_peers_per_hash (ps_config ps)" if g': "hm_get (ps_peers ps') h = Some g'" for g'
  proof -
    have "entry ps' h b = hm_get g' b" "entry ps h b = hm_get g b" for b
      using g(1) g' by (simp_all add: entry_def)
    then have eg: "hm_get g' b = (if b = a then None else hm_get g b)" for b
      using r(3) by metis
    have "hm_ok g'" using ps_index_groups [OF _ g'] r(2) by (auto simp: shrinks_def)
    then have "length g' < length g"
      using gok(1) eg mem by (intro hm_length_strict [of g g' a]) (auto split: if_splits)
    moreover have "length g \<le> pc_max_peers_per_hash (ps_config ps)"
      using inv g(1) by (auto simp: ps_inv_def ps_sizes_def)
    ultimately show ?thesis by simp
  qed
  then show ?thesis using g f r by (auto simp: evict_group_def)
qed

lemma evict_peer_effect:
  assumes inv: "ps_inv ps"
  shows "\<exists>ps'. evict_peer ps = Some ps' \<and> shrinks ps ps' \<and> card (ps_expiry ps') < pc_max_peers (ps_config ps)"
proof (cases "card (ps_expiry ps) \<ge> pc_max_peers (ps_config ps)")
  case False
  then show ?thesis using inv shrinks_refl by (auto simp: evict_peer_def ps_inv_def)
next
  case True
  have idx: "ps_index ps" using inv by (simp add: ps_inv_def)
  have "0 < card (ps_expiry ps)" using inv True by (simp add: ps_inv_def ps_sizes_def)
  then have "ps_expiry ps \<noteq> {}" by auto
  then obtain t b a where f: "first (ps_expiry ps) = Some (t, b, a)"
    by (cases "first (ps_expiry ps)") (auto simp: first_None)
  then have mem: "(t, b, a) \<in> ps_expiry ps" using first_Some [OF finite_expiry [OF idx]] by blast
  obtain ps' where r: "remove_peer ps (SwarmKey b) a = Some ps'" "shrinks ps ps'"
    "\<forall>k c. entry ps' k c = (if k = SwarmKey b \<and> c = a then None else entry ps k c)"
    using remove_peer_effect [OF idx] by blast
  have "(t, b, a) \<notin> ps_expiry ps'" using r(2,3) by (simp add: shrinks_def ps_index_def)
  then have "ps_expiry ps' \<subset> ps_expiry ps" using shrinks_expiry [OF idx r(2)] mem by blast
  then have "card (ps_expiry ps') < card (ps_expiry ps)" by (intro psubset_card_mono finite_expiry [OF idx])
  then show ?thesis using True f r inv by (auto simp: evict_peer_def ps_inv_def ps_sizes_def)
qed

lemma store_peer_effect:
  assumes inv: "ps_inv ps" and fresh: "entry ps h a = None" and room: "has_room ps h"
    and group: "\<forall>g. hm_get (ps_peers ps) h = Some g \<longrightarrow> length g < pc_max_peers_per_hash (ps_config ps)"
    and total: "card (ps_expiry ps) < pc_max_peers (ps_config ps)"
  shows "ps_inv (store_peer ps h a d)"
    and "entry (store_peer ps h a d) k b = (if k = h \<and> b = a then Some d else entry ps k b)"
proof -
  have idx: "ps_index ps" using inv by (simp add: ps_inv_def)
  let ?old = "case hm_get (ps_peers ps) h of None \<Rightarrow> [] | Some g \<Rightarrow> g"
  let ?g = "hm_put a d ?old" and ?ps = "store_peer ps h a d" and ?b = "key_bytes h"
  have key: "SwarmKey c = h \<longleftrightarrow> c = ?b" for c by (cases h) auto
  have g0: "hm_ok ?old" using ps_index_groups [OF idx] by (simp split: option.splits)
  have e0: "entry ps h c = hm_get ?old c" for c by (simp add: entry_def split: option.splits)
  have hp: "hm_ok (ps_peers ps)" using idx by (simp add: ps_index_def)
  have peers: "ps_peers ?ps = hm_put h ?g (ps_peers ps)" by (simp add: store_peer_def Let_def)
  have ex: "ps_expiry ?ps = {(e, c, x) \<in> ps_expiry ps. c \<noteq> ?b} \<union> {(e, c, x). c = ?b \<and> hm_get ?g x = Some e}"
    using idx fresh by (auto simp: store_peer_def Let_def ps_index_def key e0 split: if_splits)
  have hs0: "(case latest ?old of None \<Rightarrow> ps_hashes ps | Some l \<Rightarrow> ps_hashes ps - {(l, ?b)}) =
      {(l, c) \<in> ps_hashes ps. c \<noteq> ?b}"
    using idx by (auto simp: ps_index_def key latest_def split: option.splits)
  have hs: "ps_hashes ?ps = {(l, c) \<in> ps_hashes ps. c \<noteq> ?b} \<union> {(l, c). c = ?b \<and> latest ?g = Some l}"
    unfolding store_peer_def Let_def using hs0 by auto
  note change = ps_index_change [OF idx hm_ok_put [OF g0], where ps' = ?ps and h = h]
  have i': "ps_index ?ps" using hp by (intro change(1)) (simp_all add: peers ex hs)
  have ent: "entry ?ps k b = (if k = h then hm_get ?g b else entry ps k b)" for k b
    using hp by (intro change(2)) (simp_all add: peers ex hs)
  then show "entry ?ps k b = (if k = h \<and> b = a then Some d else entry ps k b)" by (simp add: e0)
  have cfg: "ps_config ?ps = ps_config ps" by (simp add: store_peer_def Let_def)
  have "length (ps_peers ?ps) \<le> pc_max_hashes (ps_config ps)"
    using room inv hp by (auto simp: peers length_hm_put has_room_def hm_has_def ps_inv_def ps_sizes_def)
  moreover have "card (ps_expiry ?ps) \<le> pc_max_peers (ps_config ps)"
    using total finite_expiry [OF idx] by (simp add: store_peer_def Let_def card_insert_if)
  moreover have "length g \<le> pc_max_peers_per_hash (ps_config ps)" if "hm_get (ps_peers ?ps) k = Some g" for k g
    using that group inv g0
    by (auto simp: peers length_hm_put ps_inv_def ps_sizes_def split: if_splits option.splits)
  ultimately show "ps_inv ?ps" using i' inv cfg by (simp add: ps_inv_def ps_sizes_def)
qed

end
