(* ===== verification/PeerStoreProps.thy ===== *)
theory PeerStoreProps imports PeerStore begin

text \<open>
  The properties of the peer cache: every run is free of panics and keeps the capacities and the
  indexes, what an announcement changes, how the indexes answer the sampling queries, and what
  expiry removes.
\<close>

lemma announce_effect:
  assumes inv: "ps_inv ps"
  shows "\<exists>ps' r. announce ps h a now = Some (ps', r) \<and> ps_inv ps' \<and> ps_config ps' = ps_config ps \<and>
    ps_family ps' = ps_family ps \<and>
    (case r of Inl e \<Rightarrow> ps' = ps \<and> (\<not> ps_accepts ps a \<or> instant_checked_add now (pc_ttl (ps_config ps)) = None)
     | Inr _ \<Rightarrow> ps_accepts ps a \<and> entry ps' h a = Some (now + pc_ttl (ps_config ps)) \<and>
         (\<forall>k b d. (k, b) \<noteq> (h, a) \<longrightarrow> entry ps' k b = Some d \<longrightarrow> entry ps k b = Some d))"
proof (cases "\<not> ps_accepts ps a \<or> instant_checked_add now (pc_ttl (ps_config ps)) = None")
  case True
  then show ?thesis using inv by (cases "ps_accepts ps a") (auto simp: announce_def)
next
  case False
  then obtain d where d: "ps_accepts ps a" "instant_checked_add now (pc_ttl (ps_config ps)) = Some d"
    "d = now + pc_ttl (ps_config ps)"
    by (auto simp: instant_checked_add_def split: if_splits)
  have idx: "ps_index ps" using inv by (simp add: ps_inv_def)
  obtain ps1 where 1: "ps_expire ps now 256 = Some ps1" "shrinks ps ps1"
    using expire_effect_peers [OF idx] by blast
  have v1: "ps_inv ps1" using shrinks_sizes [OF inv 1(2)] .
  then obtain ps2 where 2: "remove_known ps1 h a = Some ps2" "shrinks ps1 ps2" "entry ps2 h a = None"
    using remove_known_effect [of ps1 h a] by (auto simp: ps_inv_def)
  have v2: "ps_inv ps2" using shrinks_sizes [OF v1 2(2)] .
  obtain ps3 where 3: "evict_hash ps2 h = Some ps3" "shrinks ps2 ps3" "has_room ps3 h"
    using evict_hash_effect [OF v2] by blast
  have v3: "ps_inv ps3" using shrinks_sizes [OF v2 3(2)] .
  obtain ps4 where 4: "evict_group ps3 h = Some ps4" "shrinks ps3 ps4"
    "\<forall>g. hm_get (ps_peers ps4) h = Some g \<longrightarrow> length g < pc_max_peers_per_hash (ps_config ps3)"
    using evict_group_effect [OF v3] by blast
  have v4: "ps_inv ps4" using shrinks_sizes [OF v3 4(2)] .
  obtain ps5 where 5: "evict_peer ps4 = Some ps5" "shrinks ps4 ps5"
    "card (ps_expiry ps5) < pc_max_peers (ps_config ps4)"
    using evict_peer_effect [OF v4] by blast
  have v5: "ps_inv ps5" using shrinks_sizes [OF v4 5(2)] .
  have cfg: "ps_config ps1 = ps_config ps" "ps_config ps2 = ps_config ps" "ps_config ps3 = ps_config ps"
    "ps_config ps4 = ps_config ps" "ps_config ps5 = ps_config ps" "ps_family ps5 = ps_family ps"
    using 1(2) 2(2) 3(2) 4(2) 5(2) by (auto simp: shrinks_def)
  have s25: "shrinks ps2 ps5" using shrinks_trans [OF shrinks_trans [OF 3(2) 4(2)] 5(2)] .
  have s: "shrinks ps ps5" using shrinks_trans [OF shrinks_trans [OF 1(2) 2(2)] s25] .
  have fresh: "entry ps5 h a = None" using s25 2(3) by (cases "entry ps5 h a") (auto simp: shrinks_def)
  have room: "has_room ps5 h"
    using shrinks_room [OF v4 5(2) shrinks_room [OF v3 4(2) 3(3)]] .
  have group: "\<forall>g. hm_get (ps_peers ps5) h = Some g \<longrightarrow> length g < pc_max_peers_per_hash (ps_config ps5)"
  proof (intro allI impI)
    fix g assume "hm_get (ps_peers ps5) h = Some g"
    from shrinks_group [OF _ 5(2) this] v4 obtain g4 where
      "hm_get (ps_peers ps4) h = Some g4" "length g \<le> length g4" by (auto simp: ps_inv_def)
    then show "length g < pc_max_peers_per_hash (ps_config ps5)" using 4(3) cfg by fastforce
  qed
  have total: "card (ps_expiry ps5) < pc_max_peers (ps_config ps5)" using 5(3) cfg by simp
  note st = store_peer_effect [OF v5 fresh room group total, of d]
  have "announce ps h a now = Some (store_peer ps5 h a d, Inr ())"
    using d 1(1) 2(1) 3(1) 4(1) 5(1) by (simp add: announce_def)
  then show ?thesis using st s d cfg
    by (auto simp: shrinks_def store_peer_def Let_def)
qed

datatype ps_op = PsAnnounce swarm_key socket_addr instant | PsExpire instant nat

fun ps_step :: "peer_store \<Rightarrow> ps_op \<Rightarrow> peer_store option" where
  "ps_step ps (PsAnnounce h a now) = map_option fst (announce ps h a now)"
| "ps_step ps (PsExpire now n) = ps_expire ps now n"

definition ps_inv_cfg :: "peer_store_config \<Rightarrow> peer_store \<Rightarrow> bool" where
  "ps_inv_cfg c ps \<longleftrightarrow> ps_inv ps \<and> ps_config ps = c"

interpretation ps_ops: panic_free_ops ps_step "ps_inv_cfg c" "\<lambda>_ _. True" for c
proof unfold_locales
  fix ps x
  assume inv: "ps_inv_cfg c ps"
  show "\<exists>t. ps_step ps x = Some t \<and> ps_inv_cfg c t"
  proof (cases x)
    case (PsAnnounce h a now)
    then show ?thesis using announce_effect [of ps h a now] inv by (auto simp: ps_inv_cfg_def)
  next
    case (PsExpire now n)
    then show ?thesis using expire_effect_peers [of ps now n] shrinks_sizes [of ps] inv
      by (auto simp: ps_inv_cfg_def ps_inv_def shrinks_def)
  qed
qed

lemma ps_new_inv: "ps_new c fam now = Inr ps \<Longrightarrow> ps_inv_cfg c ps"
  by (auto simp: ps_new_def ps_inv_cfg_def ps_inv_def ps_index_def ps_sizes_def config_ok_def entry_def split: if_splits)

lemma entries_card:
  assumes "ps_index ps"
  shows "card {(h, a). entry ps h a \<noteq> None} \<le> card (ps_expiry ps)"
proof -
  have "{(h, a). entry ps h a \<noteq> None} \<subseteq> (\<lambda>(d, b, a). (SwarmKey b, a)) ` ps_expiry ps"
  proof
    fix x assume "x \<in> {(h, a). entry ps h a \<noteq> None}"
    then obtain h a d where x: "x = (h, a)" "entry ps h a = Some d" by auto
    have "(d, key_bytes h, a) \<in> ps_expiry ps" using assms x(2) by (cases h) (simp add: ps_index_def)
    then show "x \<in> (\<lambda>(d, b, a). (SwarmKey b, a)) ` ps_expiry ps"
      unfolding x(1) by (rule rev_image_eqI) simp
  qed
  then have "card {(h, a). entry ps h a \<noteq> None} \<le> card ((\<lambda>(d, b, a). (SwarmKey b, a)) ` ps_expiry ps)"
    using finite_expiry [OF assms] by (intro card_mono) auto
  also have "\<dots> \<le> card (ps_expiry ps)" using finite_expiry [OF assms] by (rule card_image_le)
  finally show ?thesis .
qed

text \<open>
  C30: from a store that \<open>new\<close> accepted, no sequence of announcements and expiries panics (none of the
  \<open>expect\<close>s on groups and indexes can fire), and the capacities hold at its end: at most \<open>max_hashes\<close>
  hashes, \<open>max_peers\<close> peers in all, \<open>max_peers_per_hash\<close> in each group; no group is empty, and
  the deadline index holds exactly the stored peers with their deadlines.
\<close>

theorem peer_store_runs_safe:
  assumes "ps_new c fam t0 = Inr ps0"
  shows "\<exists>ps. run_ops ps_step ps0 ops = Some ps \<and>
    length (ps_peers ps) \<le> pc_max_hashes c \<and>
    card {(h, a). entry ps h a \<noteq> None} \<le> pc_max_peers c \<and>
    (\<forall>h g. hm_get (ps_peers ps) h = Some g \<longrightarrow> g \<noteq> [] \<and> length g \<le> pc_max_peers_per_hash c) \<and>
    (\<forall>d b a. (d, b, a) \<in> ps_expiry ps \<longleftrightarrow> entry ps (SwarmKey b) a = Some d)"
proof -
  have "ops_ok ps_step (\<lambda>_ _. True) s ops" for s
    by (induction ops arbitrary: s) (auto split: option.splits)
  then obtain ps where r: "run_ops ps_step ps0 ops = Some ps" and v: "ps_inv ps" "ps_config ps = c"
    using ps_ops.safe_run [OF ps_new_inv [OF assms]] by (auto simp: ps_inv_cfg_def)
  have idx: "ps_index ps" using v by (simp add: ps_inv_def)
  have "card {(h, a). entry ps h a \<noteq> None} \<le> pc_max_peers c"
    using entries_card [OF idx] v by (simp add: ps_inv_def ps_sizes_def)
  moreover have "\<forall>d b a. (d, b, a) \<in> ps_expiry ps \<longleftrightarrow> entry ps (SwarmKey b) a = Some d"
    using idx by (simp add: ps_index_def)
  ultimately show ?thesis using r v ps_index_groups [OF idx] by (auto simp: ps_inv_def ps_sizes_def)
qed

definition sample_config :: peer_store_config where
  "sample_config = \<lparr>pc_ttl = 10, pc_max_hashes = 1, pc_max_peers = 1, pc_max_peers_per_hash = 1,
     pc_response_peers = 1, pc_address_policy = PublicOnly\<rparr>"

definition sample_store :: peer_store where
  "sample_store = \<lparr>ps_config = sample_config, ps_family = Ipv4, ps_peers = [], ps_expiry = {}, ps_hashes = {}\<rparr>"

lemma sample_store_new: "ps_new sample_config Ipv4 0 = Inr sample_store"
  by (simp add: ps_new_def config_ok_def sample_config_def sample_store_def instant_checked_add_def)

theorem peer_store_runs_safe_witness:
  "\<exists>ps. run_ops ps_step sample_store [PsAnnounce (SwarmKey [1]) (SA4 0x08080808 80) 0,
     PsAnnounce (SwarmKey [2]) (SA4 0x08080404 80) 3, PsExpire 20 5] = Some ps \<and> length (ps_peers ps) \<le> 1"
  using peer_store_runs_safe [OF sample_store_new, of "[PsAnnounce (SwarmKey [1]) (SA4 0x08080808 80) 0,
     PsAnnounce (SwarmKey [2]) (SA4 0x08080404 80) 3, PsExpire 20 5]"]
  by (auto simp: sample_config_def simp del: run_ops.simps)

text \<open>
  An announcement of an acceptable address is stored with the full time to live and may push out
  other peers, but changes no other deadline and adds no other entry; an address that policy or family
  rejects, or a deadline beyond the clock, leaves the store as it was.
\<close>

theorem announce_stores_exactly:
  assumes "ps_inv ps"
  shows "\<exists>ps' r. announce ps h a now = Some (ps', r) \<and>
    (r = Inr () \<longleftrightarrow> family_accepts (ps_family ps) a \<and> policy_accepts (pc_address_policy (ps_config ps)) a \<and>
       now + pc_ttl (ps_config ps) < secs (2 ^ 63)) \<and>
    (r = Inr () \<longrightarrow> entry ps' h a = Some (now + pc_ttl (ps_config ps)) \<and>
       (\<forall>k b d. (k, b) \<noteq> (h, a) \<longrightarrow> entry ps' k b = Some d \<longrightarrow> entry ps k b = Some d)) \<and>
    (r \<noteq> Inr () \<longrightarrow> ps' = ps)"
proof -
  obtain ps' r where e: "announce ps h a now = Some (ps', r)"
    "case r of Inl e \<Rightarrow> ps' = ps \<and> (\<not> ps_accepts ps a \<or> instant_checked_add now (pc_ttl (ps_config ps)) = None)
     | Inr _ \<Rightarrow> ps_accepts ps a \<and> entry ps' h a = Some (now + pc_ttl (ps_config ps)) \<and>
         (\<forall>k b d. (k, b) \<noteq> (h, a) \<longrightarrow> entry ps' k b = Some d \<longrightarrow> entry ps k b = Some d)"
    using announce_effect [OF assms, of h a now] by blast
  show ?thesis
  proof (cases r)
    case (Inl x)
    then show ?thesis using e by (auto simp: ps_accepts_def instant_checked_add_def split: if_splits)
  next
    case (Inr u)
    then have "now + pc_ttl (ps_config ps) < secs (2 ^ 63)"
      using e(1) by (auto simp: announce_def instant_checked_add_def split: if_splits)
    with Inr e show ?thesis by (simp add: ps_accepts_def)
  qed
qed

theorem announce_stores_exactly_witness:
  "\<exists>ps. announce sample_store (SwarmKey [1]) (SA4 0x08080808 80) 0 = Some (ps, Inr ()) \<and>
     entry ps (SwarmKey [1]) (SA4 0x08080808 80) = Some 10"
proof -
  have inv: "ps_inv sample_store" using ps_new_inv [OF sample_store_new] by (simp add: ps_inv_cfg_def)
  have "policy_accepts PublicOnly (SA4 0x08080808 80)"
    by (simp add: policy_accepts_def public_v4_blocks reserved_blocks_def in_block_def v4_def del: policy_accepts_ip.simps)
  then show ?thesis
    using announce_stores_exactly [OF inv, of "SwarmKey [1]" "SA4 0x08080808 80" 0]
    by (auto simp: sample_store_def sample_config_def)
qed

section \<open>Sampling\<close>

lemma active_mem:
  assumes "ps_index ps"
  shows "h \<in> set (active_infohashes ps now) \<longleftrightarrow> (\<exists>l. (l, key_bytes h) \<in> ps_hashes ps \<and> now < l)"
proof -
  have key: "h = SwarmKey b \<longleftrightarrow> b = key_bytes h" for b by (cases h) auto
  show ?thesis using finite_hashes [OF assms] by (auto simp: active_infohashes_def image_iff key)
qed

lemma active_distinct:
  assumes "ps_index ps"
  shows "distinct (active_infohashes ps now)"
proof -
  have "inj_on (\<lambda>(l, b). SwarmKey b) (ps_hashes ps)"
    using assms by (auto simp: ps_index_def inj_on_def)
  then have "inj_on (\<lambda>(l, b). SwarmKey b) (set (filter (\<lambda>(d, _). d > now) (sorted_list_of_set (ps_hashes ps))))"
    using finite_hashes [OF assms] by (auto elim: inj_on_subset)
  then show ?thesis by (simp add: active_infohashes_def distinct_map)
qed

text \<open>
  The hash index answers as the data does: a hash is listed as active, once, exactly when one of
  its peers has not expired, whether or not the expired peers were cleaned up.
\<close>

theorem active_index_matches_data:
  assumes "ps_inv ps"
  shows "(contains_active_infohash ps h now \<longleftrightarrow> (\<exists>a d. entry ps h a = Some d \<and> now < d)) \<and>
    (h \<in> set (active_infohashes ps now) \<longleftrightarrow> contains_active_infohash ps h now) \<and>
    active_infohash_count ps now = card {k. contains_active_infohash ps k now}"
proof -
  have idx: "ps_index ps" using assms by (simp add: ps_inv_def)
  have data: "contains_active_infohash ps k now \<longleftrightarrow> (\<exists>a d. entry ps k a = Some d \<and> now < d)" for k
  proof (cases "hm_get (ps_peers ps) k")
    case (Some g)
    have "list_ex (\<lambda>d. d > now) (hm_values g) \<longleftrightarrow> (\<exists>a d. (a, d) \<in> set g \<and> now < d)"
      unfolding hm_values_def by (induction g) (auto, blast)
    then show ?thesis using Some ps_index_groups [OF idx Some]
      by (simp add: contains_active_infohash_def entry_def hm_get_Some)
  qed (simp add: contains_active_infohash_def entry_def)
  have index: "k \<in> set (active_infohashes ps now) \<longleftrightarrow> contains_active_infohash ps k now" for k
  proof (cases "hm_get (ps_peers ps) k")
    case None
    then show ?thesis using idx
      by (cases k) (auto simp: active_mem ps_index_def contains_active_infohash_def)
  next
    case (Some g)
    have ne: "set (hm_values g) \<noteq> {}" using ps_index_groups [OF idx Some] by (simp add: hm_values_def)
    have "k \<in> set (active_infohashes ps now) \<longleftrightarrow> now < Max (set (hm_values g))"
      using idx Some ps_index_groups [OF idx Some] by (cases k) (auto simp: active_mem ps_index_def)
    also have "\<dots> \<longleftrightarrow> (\<exists>d\<in>set (hm_values g). now < d)" using ne by (simp add: Max_gr_iff)
    finally show ?thesis using Some by (simp add: contains_active_infohash_def list_ex_iff)
  qed
  have "active_infohash_count ps now = card (set (active_infohashes ps now))"
    using active_distinct [OF idx] by (simp add: active_infohash_count_def distinct_card)
  also have "set (active_infohashes ps now) = {k. contains_active_infohash ps k now}" using index by auto
  finally show ?thesis using data index by blast
qed

definition sample_full :: peer_store where
  "sample_full = store_peer sample_store (SwarmKey [1]) (SA4 0x08080808 80) 10"

lemma sample_store_inv: "ps_inv sample_store"
  using ps_new_inv [OF sample_store_new] by (simp add: ps_inv_cfg_def)

lemma sample_full_inv: "ps_inv sample_full"
  unfolding sample_full_def
  by (rule store_peer_effect(1) [OF sample_store_inv])
    (simp_all add: entry_def sample_store_def has_room_def sample_config_def)

lemma sample_full_entry: "entry sample_full (SwarmKey [1]) (SA4 0x08080808 80) = Some 10"
  unfolding sample_full_def
  by (subst store_peer_effect(2) [OF sample_store_inv])
    (simp_all add: entry_def sample_store_def has_room_def sample_config_def)

theorem active_index_matches_data_witness:
  "contains_active_infohash sample_full (SwarmKey [1]) 9"
proof -
  have "(9::nat) < 10" by simp
  then show ?thesis
    using active_index_matches_data [OF sample_full_inv, of "SwarmKey [1]" 9] sample_full_entry by blast
qed

text \<open>What the random choice of \<open>rand\<close> promises: different elements of the list, as many as asked for.\<close>

definition picks :: "('a list \<Rightarrow> nat \<Rightarrow> 'a list) \<Rightarrow> bool" where
  "picks pick \<longleftrightarrow> (\<forall>xs n. set (pick xs n) \<subseteq> set xs \<and> length (pick xs n) = min n (length xs) \<and>
     (distinct xs \<longrightarrow> distinct (pick xs n)))"

lemma picks_take: "picks (\<lambda>xs n. take n xs)"
  by (auto simp: picks_def min.commute dest: in_set_takeD)

text \<open>
  A sample of a hash holds only peers that have not expired, no peer twice, and at most the
  configured number; it is empty only if the hash has no live peer or nothing was asked for.
\<close>

theorem sample_only_live_peers:
  assumes "ps_inv ps" and "picks pick"
  shows "(\<forall>a\<in>set (sample_peers pick ps h limit now). \<exists>d. entry ps h a = Some d \<and> now < d) \<and>
    distinct (sample_peers pick ps h limit now) \<and>
    length (sample_peers pick ps h limit now) =
      min (min limit (pc_response_peers (ps_config ps))) (card {a. \<exists>d. entry ps h a = Some d \<and> now < d})"
proof -
  have idx: "ps_index ps" using assms(1) by (simp add: ps_inv_def)
  let ?xs = "case hm_get (ps_peers ps) h of None \<Rightarrow> [] | Some g \<Rightarrow> map fst (filter (\<lambda>(_, d). d > now) g)"
  have set: "set ?xs = {a. \<exists>d. entry ps h a = Some d \<and> now < d}"
  proof (cases "hm_get (ps_peers ps) h")
    case (Some g)
    then show ?thesis using ps_index_groups [OF idx Some] by (auto simp: entry_def hm_get_Some image_iff) 
  qed (simp add: entry_def)
  have d: "distinct ?xs"
    using ps_index_groups [OF idx, of h] hm_ok_filter by (auto simp: hm_ok_def split: option.splits)
  have "length ?xs = card {a. \<exists>d. entry ps h a = Some d \<and> now < d}"
    using distinct_card [OF d] by (simp only: set)
  moreover have "set (pick ?xs n) \<subseteq> set ?xs" "length (pick ?xs n) = min n (length ?xs)" "distinct (pick ?xs n)" for n
    using assms(2) d by (simp_all only: picks_def)
  ultimately show ?thesis using set unfolding sample_peers_def by auto
qed

theorem sample_only_live_peers_witness:
  "set (sample_peers (\<lambda>xs n. take n xs) sample_full (SwarmKey [1]) 5 9)
     \<subseteq> {a. \<exists>d. entry sample_full (SwarmKey [1]) a = Some d \<and> 9 < d} \<and>
   distinct (sample_peers (\<lambda>xs n. take n xs) sample_full (SwarmKey [1]) 5 9)"
  using sample_only_live_peers [OF sample_full_inv picks_take, of "SwarmKey [1]" 5 9] by blast

section \<open>Expiry\<close>

lemma expire_all_expired:
  "ps_index ps \<Longrightarrow> ps_expire ps now n = Some ps' \<Longrightarrow> card {x \<in> ps_expiry ps. fst x \<le> now} \<le> n \<Longrightarrow>
   \<forall>x\<in>ps_expiry ps'. now < fst x"
proof (induction n arbitrary: ps)
  case 0
  have "finite {x \<in> ps_expiry ps. fst x \<le> now}" using finite_expiry [OF 0(1)] by simp
  then have "{x \<in> ps_expiry ps. fst x \<le> now} = {}" using 0(3) by simp
  then have "\<forall>x\<in>ps_expiry ps. \<not> fst x \<le> now" by blast
  then show ?case using 0(2) by (simp add: not_le)
next
  case (Suc n)
  note fin = finite_expiry [OF Suc.prems(1)]
  show ?case
  proof (cases "first (ps_expiry ps)")
    case None
    then have "ps_expiry ps = {}" by (simp add: first_None)
    then show ?thesis using Suc.prems(2) None by simp
  next
    case (Some x)
    obtain d b a where x: "x = (d, b, a)" by (cases x)
    have least: "x \<in> ps_expiry ps" "\<And>y. y \<in> ps_expiry ps \<Longrightarrow> x \<le> y" using first_Some [OF fin Some] by auto
    show ?thesis
    proof (cases "d > now")
      case True
      have "now < fst y" if "y \<in> ps_expiry ps" for y
        using least(2) [OF that] True by (cases y) (auto simp: x)
      then show ?thesis using Suc.prems(2) Some x True by simp
    next
      case False
      obtain ps1 where 1: "remove_peer ps (SwarmKey b) a = Some ps1" "shrinks ps ps1"
        "\<forall>k c. entry ps1 k c = (if k = SwarmKey b \<and> c = a then None else entry ps k c)"
        using remove_peer_effect [OF Suc.prems(1)] by blast
      have i1: "ps_index ps1" using 1(2) by (simp add: shrinks_def)
      have "x \<notin> ps_expiry ps1" using i1 1(3) by (simp add: ps_index_def x)
      then have "{y \<in> ps_expiry ps1. fst y \<le> now} \<subset> {y \<in> ps_expiry ps. fst y \<le> now}"
        using shrinks_expiry [OF Suc.prems(1) 1(2)] least(1) False by (auto simp: x)
      then have "card {y \<in> ps_expiry ps1. fst y \<le> now} < card {y \<in> ps_expiry ps. fst y \<le> now}"
        using fin by (intro psubset_card_mono) auto
      moreover have "ps_expire ps1 now n = Some ps'" using Suc.prems(2) Some x False 1(1) by simp
      ultimately show ?thesis using Suc.IH [OF i1] Suc.prems(3) by simp
    qed
  qed
qed

text \<open>
  Expiry with a budget that covers the expired peers removes exactly these, and with any budget it
  removes no live peer; the wake-up time \<open>next_deadline\<close> is the earliest deadline stored.
\<close>

theorem expire_exact:
  assumes "ps_inv ps"
  shows "\<exists>ps'. ps_expire ps now n = Some ps' \<and>
    (\<forall>h a d. entry ps h a = Some d \<and> now < d \<longrightarrow> entry ps' h a = Some d) \<and>
    (\<forall>h a d. entry ps' h a = Some d \<longrightarrow> entry ps h a = Some d) \<and>
    (card {x \<in> ps_expiry ps. fst x \<le> now} \<le> n \<longrightarrow> (\<forall>h a d. entry ps' h a = Some d \<longrightarrow> now < d)) \<and>
    (\<forall>t. ps_next_deadline ps' = Some t \<longrightarrow>
       (\<exists>h a. entry ps' h a = Some t) \<and> (\<forall>h a d. entry ps' h a = Some d \<longrightarrow> t \<le> d))"
proof -
  have idx: "ps_index ps" using assms by (simp add: ps_inv_def)
  obtain ps' where r: "ps_expire ps now n = Some ps'" and s: "shrinks ps ps'"
    and keep: "\<forall>h a d. entry ps h a = Some d \<and> now < d \<longrightarrow> entry ps' h a = Some d"
    using expire_effect_peers [OF idx] by blast
  have i': "ps_index ps'" using s by (simp add: shrinks_def)
  have mem: "entry ps' h a = Some d \<longleftrightarrow> (d, key_bytes h, a) \<in> ps_expiry ps'" for h a d
    using i' by (cases h) (simp add: ps_index_def)
  have gone: "now < d" if "card {x \<in> ps_expiry ps. fst x \<le> now} \<le> n" "entry ps' h a = Some d" for h a d
    using expire_all_expired [OF idx r that(1)] that(2) by (auto simp: mem)
  have next_dl: "(\<exists>h a. entry ps' h a = Some t) \<and> (\<forall>h a d. entry ps' h a = Some d \<longrightarrow> t \<le> d)"
    if nd: "ps_next_deadline ps' = Some t" for t
  proof -
    obtain b a where f: "first (ps_expiry ps') = Some (t, b, a)"
      using nd by (auto simp: ps_next_deadline_def)
    have le: "(t, b, a) \<in> ps_expiry ps'" "\<And>y. y \<in> ps_expiry ps' \<Longrightarrow> (t, b, a) \<le> y"
      using first_Some [OF finite_expiry [OF i'] f] by auto
    have "t \<le> d" if "entry ps' h c = Some d" for h c d
      using le(2) [of "(d, key_bytes h, c)"] that by (auto simp: mem)
    moreover have "entry ps' (SwarmKey b) a = Some t" using le(1) by (simp add: mem)
    ultimately show ?thesis by blast
  qed
  have kept: "\<forall>h a d. entry ps' h a = Some d \<longrightarrow> entry ps h a = Some d" using s by (simp add: shrinks_def)
  show ?thesis
    by (intro exI [of _ ps'] conjI r keep kept impI allI gone)
      (assumption | use next_dl in blast)+
qed

theorem expire_exact_witness:
  "\<exists>ps'. ps_expire sample_full 3 5 = Some ps' \<and> entry ps' (SwarmKey [1]) (SA4 0x08080808 80) = Some 10"
proof -
  obtain ps' where "ps_expire sample_full 3 5 = Some ps'"
    "\<forall>h a d. entry sample_full h a = Some d \<and> 3 < d \<longrightarrow> entry ps' h a = Some d"
    using expire_exact [OF sample_full_inv, of 3 5] by blast
  then show ?thesis using sample_full_entry by simp
qed

end
