(* ===== verification/Security.thy ===== *)
theory Security imports Krpc begin

text \<open>
  BEP 42 node identifiers and the consensus on the external address, \<open>src/dht/security.rs\<close>:
  CRC-32C, the prefix an address imposes on an identifier, generation and validation, the compact form
  of the observed address, and the bounded vote of source prefixes.
\<close>

section \<open>CRC-32C and the identifier prefix\<close>

definition crc_poly :: u32 where
  "crc_poly = 0x82f63b78"

definition crc_bit :: "u32 \<Rightarrow> u32" where
  "crc_bit crc = drop_bit 1 crc XOR (crc_poly AND (0 - (crc AND 1)))"

definition crc_byte :: "u8 \<Rightarrow> u32 \<Rightarrow> u32" where
  "crc_byte b crc = (crc_bit ^^ 8) (crc XOR ucast b)"

definition crc32c :: "bytes \<Rightarrow> u32" where
  "crc32c bs = NOT (fold crc_byte bs (NOT 0))"

fun id_prefix :: "ip_addr \<Rightarrow> u8 \<Rightarrow> u32" where
  "id_prefix (IPV4 ip) r = crc32c (word_be 4 ((ip AND 0x030f3fff) OR push_bit 29 (ucast (r AND 7))))"
| "id_prefix (IPV6 ip) r =
     (let high = (be_word (take 8 (octets6 ip)) :: u64)
      in crc32c (word_be 8 ((high AND 0x0103070f1f3f7fff) OR push_bit 61 (ucast (r AND 7)))))"

definition generate :: "ip_addr \<Rightarrow> bytes \<Rightarrow> node_id" where
  "generate ip random =
     (let crc = word_be 4 (id_prefix ip (random ! 19));
          r0 = random[0 := crc ! 0];
          r1 = r0[1 := crc ! 1]
      in NodeId (r1[2 := (crc ! 2 AND 0xf8) OR (r1 ! 2 AND 7)]))"

definition valid :: "node_id \<Rightarrow> ip_addr \<Rightarrow> bool" where
  "valid i ip =
     (let crc = word_be 4 (id_prefix ip (id_bytes i ! 19)) in
      id_bytes i ! 0 = crc ! 0 \<and> id_bytes i ! 1 = crc ! 1 \<and> id_bytes i ! 2 AND 0xf8 = crc ! 2 AND 0xf8)"

definition public :: "ip_addr \<Rightarrow> bool" where
  "public ip = policy_accepts PublicOnly (sa_new ip 1)"

fun exempt :: "ip_addr \<Rightarrow> bool" where
  "exempt (IPV4 ip) = (v4_is_private ip \<or> v4_is_loopback ip \<or> v4_is_link_local ip)"
| "exempt (IPV6 ip) = (v6_is_loopback ip \<or> v6_is_unique_local ip \<or> v6_is_link_local ip)"

definition id_class :: "node_id \<Rightarrow> ip_addr \<Rightarrow> string" where
  "id_class i ip = (if exempt ip then ''local_exempt'' else if valid i ip then ''compliant'' else ''compatible'')"

definition trusted :: "node_id \<Rightarrow> ip_addr \<Rightarrow> bool" where
  "trusted i ip = (id_class i ip \<noteq> ''compatible'')"

definition compact :: "socket_addr \<Rightarrow> bytes" where
  "compact a = ip_octets (sa_ip a) @ word_be 2 (sa_port a)"

definition observed :: "bytes \<Rightarrow> ip_addr option" where
  "observed bs =
     (if (length bs \<noteq> 6 \<and> length bs \<noteq> 18) \<or> drop (length bs - 2) bs = [0, 0] then None
      else if length bs = 6 then Some (IPV4 (be_word (take 4 bs)))
      else Some (IPV6 (be_word (take 16 bs))))"

section \<open>External address consensus\<close>

record vote =
  vt_prefix :: bytes
  vt_ip :: ip_addr
  vt_at :: instant

record consensus =
  ac_votes :: "vote list"
  ac_external :: "ip_addr option"
  ac_confirmed :: bool
  ac_fixed :: bool
  ac_switch_after :: "instant option"

definition consensus_new :: "ip_addr option \<Rightarrow> ip_addr option \<Rightarrow> consensus" where
  "consensus_new fixed cached =
     \<lparr>ac_votes = [], ac_external = (case fixed of None \<Rightarrow> cached | Some _ \<Rightarrow> fixed),
      ac_confirmed = (fixed \<noteq> None), ac_fixed = (fixed \<noteq> None), ac_switch_after = None\<rparr>"

fun source_prefix :: "ip_addr \<Rightarrow> bytes" where
  "source_prefix (IPV4 ip) = take 3 (octets4 ip)"
| "source_prefix (IPV6 ip) = take 6 (octets6 ip)"

definition cast_vote :: "vote list \<Rightarrow> bytes \<Rightarrow> ip_addr \<Rightarrow> instant \<Rightarrow> vote list" where
  "cast_vote vs p ip now =
     (case position (\<lambda>v. vt_prefix v = p) vs of
        Some k \<Rightarrow> vs[k := (vs ! k)\<lparr>vt_ip := ip, vt_at := now\<rparr>]
      | None \<Rightarrow> if length vs < 64 then vs @ [\<lparr>vt_prefix = p, vt_ip = ip, vt_at = now\<rparr>] else vs)"

definition consensus_observe :: "consensus \<Rightarrow> ip_addr \<Rightarrow> ip_addr \<Rightarrow> instant \<Rightarrow> consensus \<times> ip_addr option" where
  "consensus_observe c source ip now =
     (if ac_fixed c \<or> is_ipv4 source \<noteq> is_ipv4 ip \<or> \<not> public source \<or> \<not> public ip then (c, None)
      else
        let live = filter (\<lambda>v. now - vt_at v < secs 600) (ac_votes c);
            votes = cast_vote live (source_prefix source) ip now;
            c' = c\<lparr>ac_votes := votes\<rparr>;
            count = length (filter (\<lambda>v. vt_ip v = ip) votes)
        in if count < 3 \<or> count * 3 < length votes * 2 then (c', None)
           else if ac_external c' = Some ip then (c'\<lparr>ac_confirmed := True\<rparr>, None)
           else if (case ac_switch_after c' of None \<Rightarrow> False | Some at \<Rightarrow> now < at) then (c', None)
           else (c', Some ip))"

definition restore_cooldown :: "consensus \<Rightarrow> duration \<Rightarrow> instant \<Rightarrow> consensus" where
  "restore_cooldown c remaining now = c\<lparr>ac_switch_after := instant_checked_add now remaining\<rparr>"

definition committed :: "consensus \<Rightarrow> ip_addr \<Rightarrow> instant \<Rightarrow> consensus" where
  "committed c ip now = c\<lparr>ac_external := Some ip, ac_confirmed := True, ac_switch_after := Some (now + secs 1800)\<rparr>"

section \<open>Lemmas\<close>

lemma keep_high_bits: "(((a :: u8) AND 0xf8) OR (b AND 7)) AND 0xf8 = a AND 0xf8"
proof -
  have "(7 :: u8) AND 0xf8 = 0" by simp
  then have "(b AND 7) AND 0xf8 = 0" by (simp add: and.assoc)
  then show ?thesis unfolding word_ao_dist by (simp add: and.assoc)
qed

lemma keep_low_bits: "(((a :: u8) AND 0xf8) OR (b AND 7)) AND 7 = b AND 7"
proof -
  have "(0xf8 :: u8) AND 7 = 0" by simp
  then have "(a AND 0xf8) AND 7 = 0" by (simp add: and.assoc)
  then show ?thesis unfolding word_ao_dist by (simp add: and.assoc)
qed

definition consensus_inv :: "consensus \<Rightarrow> bool" where
  "consensus_inv c \<longleftrightarrow> distinct (map vt_prefix (ac_votes c)) \<and> length (ac_votes c) \<le> 64"

lemma cast_vote_inv:
  assumes "distinct (map vt_prefix vs)" and "length vs \<le> 64"
  shows "distinct (map vt_prefix (cast_vote vs p ip now)) \<and> length (cast_vote vs p ip now) \<le> 64"
proof (cases "position (\<lambda>v. vt_prefix v = p) vs")
  case None
  then have "p \<notin> vt_prefix ` set vs" by (auto simp: position_None)
  then show ?thesis using assms None by (simp add: cast_vote_def)
next
  case (Some k)
  have k: "k < length vs" using position_Some [OF Some] by simp
  have "map vt_prefix (vs[k := (vs ! k)\<lparr>vt_ip := ip, vt_at := now\<rparr>]) = map vt_prefix vs"
    using k by (simp add: map_update list_update_same_conv)
  then show ?thesis using assms Some by (simp add: cast_vote_def)
qed

lemma cast_vote_recent:
  "\<forall>v\<in>set vs. now - vt_at v < secs 600 \<Longrightarrow> \<forall>v\<in>set (cast_vote vs p ip now). now - vt_at v < secs 600"
  by (auto simp: cast_vote_def split: option.splits dest!: set_update_subset_insert [THEN subsetD])

lemma consensus_inv_observe: "consensus_inv c \<Longrightarrow> consensus_inv (fst (consensus_observe c s ip now))"
proof -
  assume inv: "consensus_inv c"
  let ?live = "filter (\<lambda>v. now - vt_at v < secs 600) (ac_votes c)"
  have "distinct (map vt_prefix ?live)" using inv by (simp add: consensus_inv_def distinct_map_filter)
  moreover have "length ?live \<le> 64"
    by (rule le_trans [OF length_filter_le]) (use inv in \<open>simp add: consensus_inv_def\<close>)
  ultimately have "distinct (map vt_prefix (cast_vote ?live (source_prefix s) ip now)) \<and>
      length (cast_vote ?live (source_prefix s) ip now) \<le> 64" by (rule cast_vote_inv)
  with inv show ?thesis by (simp add: consensus_observe_def consensus_inv_def Let_def)
qed

section \<open>Properties\<close>

text \<open>
  C31: an identifier generated for an address is a 20-byte identifier that is valid for it, hence
  trusted; only the 21 bits that BEP 42 fixes are taken from the checksum, all the random others
  (the low three bits of byte 2 and the bytes from 3 on) are kept.
\<close>

theorem generated_id_valid:
  assumes "length random = 20"
  shows "id_ok (generate ip random) \<and> valid (generate ip random) ip \<and> trusted (generate ip random) ip \<and>
    (\<forall>k<20. 3 \<le> k \<longrightarrow> id_bytes (generate ip random) ! k = random ! k) \<and>
    id_bytes (generate ip random) ! 2 AND 7 = random ! 2 AND 7"
proof -
  have "valid (generate ip random) ip"
    using assms by (simp add: valid_def generate_def Let_def keep_high_bits)
  then show ?thesis
    using assms keep_low_bits [of "word_be 4 (id_prefix ip (random ! 19)) ! 2" "random ! 2"]
    by (simp add: trusted_def id_class_def generate_def Let_def)
qed

theorem generated_id_valid_witness:
  "valid (generate (IPV4 0x7C1F4B15) (replicate 20 7)) (IPV4 0x7C1F4B15)"
  using generated_id_valid [of "replicate 20 7" "IPV4 0x7C1F4B15"] by simp

text \<open>
  The address a node reports back in compact form is the address it saw: reading what
  \<open>compact\<close> wrote returns the IP unless the port is zero, and nothing else is accepted.
\<close>

theorem observed_compact:
  "observed (compact a) = (if sa_port a = 0 then None else Some (sa_ip a)) \<and>
   (observed bs = Some ip \<longrightarrow> (\<exists>p. p \<noteq> 0 \<and> bs = compact (sa_new ip p)))"
proof (intro conjI impI)
  have port: "word_be 2 p = [0, 0] \<longleftrightarrow> p = (0 :: u16)" for p
  proof
    assume w: "word_be 2 p = [0, 0]"
    have "p = be_word [0, 0]" unfolding w [symmetric] by simp
    then show "p = 0" by (simp add: be_word_def be_nat_def)
  qed (simp add: word_be_def numeral_2_eq_2)
  show "observed (compact a) = (if sa_port a = 0 then None else Some (sa_ip a))"
    by (cases a) (auto simp: observed_def compact_def port octets4_def octets6_def)
  assume o: "observed bs = Some ip"
  then have l: "length bs = 6 \<or> length bs = 18" and nz: "drop (length bs - 2) bs \<noteq> [0, 0]"
    by (auto simp: observed_def split: if_splits)
  define p where "p = (be_word (drop (length bs - 2) bs) :: u16)"
  have wp: "word_be 2 p = drop (length bs - 2) bs" using l by (auto simp: p_def)
  then have "p \<noteq> 0" using nz port by metis
  moreover have "bs = compact (sa_new ip p)"
  proof (cases "length bs = 6")
    case True
    then have "ip = IPV4 (be_word (take 4 bs))" using o by (auto simp: observed_def split: if_splits)
    then show ?thesis using wp True by (simp add: compact_def octets4_def)
  next
    case False
    then have "ip = IPV6 (be_word (take 16 bs))" using o l by (auto simp: observed_def split: if_splits)
    then show ?thesis using wp False l by (simp add: compact_def octets6_def)
  qed
  ultimately show "\<exists>p. p \<noteq> 0 \<and> bs = compact (sa_new ip p)" by blast
qed

theorem observed_compact_witness:
  "\<exists>p. p \<noteq> 0 \<and> [8, 8, 8, 8, 0x1a, 0xe1] = compact (sa_new (IPV4 0x08080808) p)"
proof -
  have "observed [8, 8, 8, 8, 0x1a, 0xe1] = Some (IPV4 0x08080808)"
    by (simp add: observed_def be_word_def be_nat_def)
  then show ?thesis using observed_compact by blast
qed

datatype consensus_op = CObserve ip_addr ip_addr instant | CCommit ip_addr instant | CRestore duration instant

fun consensus_step :: "consensus \<Rightarrow> consensus_op \<Rightarrow> consensus" where
  "consensus_step c (CObserve s ip now) = fst (consensus_observe c s ip now)"
| "consensus_step c (CCommit ip now) = committed c ip now"
| "consensus_step c (CRestore d now) = restore_cooldown c d now"

lemma consensus_run_inv: "consensus_inv c \<Longrightarrow> consensus_inv (foldl consensus_step c ops)"
proof (induction ops arbitrary: c)
  case (Cons x xs)
  then have "consensus_inv (consensus_step c x)"
    using consensus_inv_observe [of c]
    by (cases x) (auto simp: consensus_inv_def committed_def restore_cooldown_def)
  with Cons show ?case by simp
qed simp

text \<open>
  C32: in whatever state a session brought the votes, a new external address is proposed only on the
  word of at least three different source networks (/24 or /48), at least two thirds of all that voted
  within the last ten minutes, for a public address that differs from the present one, after the
  cool-down, and never under a fixed configuration; there are never more than 64 votes and no
  network has two.
\<close>

theorem consensus_needs_quorum:
  assumes "foldl consensus_step (consensus_new fixed cached) ops = c"
    and "consensus_observe c source ip now = (c', Some new)"
  shows "new = ip \<and> \<not> ac_fixed c \<and> public ip \<and> ac_external c \<noteq> Some ip \<and>
    (\<forall>at. ac_switch_after c = Some at \<longrightarrow> at \<le> now) \<and>
    distinct (map vt_prefix (ac_votes c')) \<and> length (ac_votes c') \<le> 64 \<and>
    (\<forall>v\<in>set (ac_votes c'). now - vt_at v < secs 600) \<and>
    3 \<le> card {p. \<exists>v\<in>set (ac_votes c'). vt_prefix v = p \<and> vt_ip v = ip} \<and>
    2 * length (ac_votes c') \<le> 3 * card {p. \<exists>v\<in>set (ac_votes c'). vt_prefix v = p \<and> vt_ip v = ip}"
proof -
  let ?live = "filter (\<lambda>v. now - vt_at v < secs 600) (ac_votes c)"
  let ?votes = "cast_vote ?live (source_prefix source) ip now"
  have inv: "consensus_inv c" using consensus_run_inv [of "consensus_new fixed cached" ops] assms(1)
    by (simp add: consensus_inv_def consensus_new_def)
  have c': "ac_votes c' = ?votes" and new: "new = ip" and fixed: "\<not> ac_fixed c" and pub: "public ip"
    and q: "3 \<le> length (filter (\<lambda>v. vt_ip v = ip) ?votes)"
      "2 * length ?votes \<le> 3 * length (filter (\<lambda>v. vt_ip v = ip) ?votes)"
    and ext: "ac_external c \<noteq> Some ip" and cool: "\<forall>at. ac_switch_after c = Some at \<longrightarrow> at \<le> now"
    using assms(2) by (auto simp: consensus_observe_def Let_def split: if_splits option.splits)
  have inv': "distinct (map vt_prefix ?votes)" "length ?votes \<le> 64"
    using consensus_inv_observe [OF inv, of source ip now] assms(2) c' by (simp_all add: consensus_inv_def)
  have "{p. \<exists>v\<in>set ?votes. vt_prefix v = p \<and> vt_ip v = ip} = set (map vt_prefix (filter (\<lambda>v. vt_ip v = ip) ?votes))"
    by auto
  then have card: "card {p. \<exists>v\<in>set ?votes. vt_prefix v = p \<and> vt_ip v = ip} = length (filter (\<lambda>v. vt_ip v = ip) ?votes)"
    using distinct_card [OF distinct_map_filter [OF inv'(1)], of "\<lambda>v. vt_ip v = ip"] by simp
  have "\<forall>v\<in>set ?votes. now - vt_at v < secs 600" by (rule cast_vote_recent) simp
  then show ?thesis unfolding c' card using new fixed pub q ext cool inv' by blast
qed

lemma sample_sources_public:
  "public (IPV4 0x08080808)" "public (IPV4 0x01010101)" "public (IPV4 0x02020202)" "public (IPV4 0x03030303)"
  by (simp_all add: public_def policy_accepts_def public_v4_blocks reserved_blocks_def in_block_def v4_def
      del: policy_accepts_ip.simps)

theorem consensus_needs_quorum_witness:
  "\<exists>c c'. foldl consensus_step (consensus_new None None)
       [CObserve (IPV4 0x01010101) (IPV4 0x08080808) 0, CObserve (IPV4 0x02020202) (IPV4 0x08080808) 1] = c \<and>
     consensus_observe c (IPV4 0x03030303) (IPV4 0x08080808) 2 = (c', Some (IPV4 0x08080808)) \<and>
     3 \<le> card {p. \<exists>v\<in>set (ac_votes c'). vt_prefix v = p \<and> vt_ip v = IPV4 0x08080808}"
proof -
  let ?ops = "[CObserve (IPV4 0x01010101) (IPV4 0x08080808) 0, CObserve (IPV4 0x02020202) (IPV4 0x08080808) 1]"
  let ?c = "foldl consensus_step (consensus_new None None) ?ops"
  obtain c' where "consensus_observe ?c (IPV4 0x03030303) (IPV4 0x08080808) 2 = (c', Some (IPV4 0x08080808))"
    using sample_sources_public
    by (simp add: consensus_observe_def consensus_new_def cast_vote_def octets4_unfold Let_def)
  from consensus_needs_quorum [OF refl this] this show ?thesis by blast
qed

end
