(* ===== verification/Histogram.thy ===== *)
theory Histogram imports Prelude begin

text \<open>
  Duration histograms with fixed buckets, \<open>src/histogram.rs\<close>: recording, merging, quantiles and
  the distributions with count and sum. Counters are 64-bit and saturate; the \<open>unreachable!\<close> at the
  end of \<open>quantile\<close> and the failed assertion of \<open>merge\<close> are the value \<open>None\<close>.
\<close>

section \<open>Definitions\<close>

definition U64_MAX :: nat where
  "U64_MAX = 2 ^ 64 - 1"

definition NETWORK_BOUNDS :: "nat list" where
  "NETWORK_BOUNDS = [1, 5, 10, 50, 100, 500, 1000, 2000, 5000, 10000, 30000, 60000, 180000]"

definition DIAGNOSTIC_BOUNDS :: "nat list" where
  "DIAGNOSTIC_BOUNDS = [1, 5, 10, 50, 100, 500, 1000, 2000, 5000, 10000, 30000, 60000, 180000, 300000,
     600000, 1800000, 3600000, 7200000, 21600000, 43200000, 64800000, 86400000]"

datatype buckets = Network | Diagnostic

fun bounds :: "buckets \<Rightarrow> nat list" where
  "bounds Network = NETWORK_BOUNDS"
| "bounds Diagnostic = DIAGNOSTIC_BOUNDS"

record quantile =
  qt_upper_bound_ms :: "nat option"
  qt_exceeds_ms :: "nat option"

record histogram =
  hg_buckets :: "nat list"
  hg_kind :: buckets

definition hg_new :: "buckets \<Rightarrow> histogram" where
  "hg_new kind = \<lparr>hg_buckets = replicate 23 0, hg_kind = kind\<rparr>"

definition hg_merge :: "histogram \<Rightarrow> histogram \<Rightarrow> histogram option" where
  "hg_merge h other =
     (if hg_kind h \<noteq> hg_kind other then None
      else Some (h\<lparr>hg_buckets := map2 saturating_add64 (hg_buckets h) (hg_buckets other)\<rparr>))"

definition bucket_of :: "buckets \<Rightarrow> nat \<Rightarrow> nat" where
  "bucket_of kind ms = (case position (\<lambda>b. ms \<le> b) (bounds kind) of None \<Rightarrow> length (bounds kind) | Some i \<Rightarrow> i)"

definition as_millis :: "duration \<Rightarrow> nat" where
  "as_millis d = d div 1000000"

definition hg_record :: "histogram \<Rightarrow> duration \<Rightarrow> histogram" where
  "hg_record h d = (let i = bucket_of (hg_kind h) (as_millis d) in
     h\<lparr>hg_buckets := (hg_buckets h)[i := saturating_add64 (hg_buckets h ! i) 1]\<rparr>)"

definition hg_count :: "histogram \<Rightarrow> nat" where
  "hg_count h = foldl saturating_add64 0 (hg_buckets h)"

definition hg_overflow :: "histogram \<Rightarrow> nat" where
  "hg_overflow h = hg_buckets h ! length (bounds (hg_kind h))"

fun rank_bucket :: "nat \<Rightarrow> nat \<Rightarrow> nat \<Rightarrow> nat list \<Rightarrow> nat option" where
  "rank_bucket seen rank i [] = None"
| "rank_bucket seen rank i (c # cs) =
     (if seen + c \<ge> rank then Some i else rank_bucket (seen + c) rank (Suc i) cs)"

definition bucket_quantile :: "buckets \<Rightarrow> nat \<Rightarrow> quantile" where
  "bucket_quantile kind i = (let bs = bounds kind in
     \<lparr>qt_upper_bound_ms = (if i < length bs then Some (bs ! i) else None),
      qt_exceeds_ms = (if i \<ge> length bs then Some (last bs) else None)\<rparr>)"

definition hg_quantile :: "histogram \<Rightarrow> nat \<Rightarrow> quantile option" where
  "hg_quantile h percent =
     (let count = hg_count h in
      if count = 0 then Some \<lparr>qt_upper_bound_ms = None, qt_exceeds_ms = None\<rparr>
      else map_option (bucket_quantile (hg_kind h))
             (rank_bucket 0 (div_ceil (count * percent) 100) 0 (hg_buckets h)))"

record distribution =
  ds_histogram :: histogram
  ds_count :: nat
  ds_sum_ms :: nat

definition ds_new :: "buckets \<Rightarrow> distribution" where
  "ds_new kind = \<lparr>ds_histogram = hg_new kind, ds_count = 0, ds_sum_ms = 0\<rparr>"

definition ds_record :: "distribution \<Rightarrow> duration \<Rightarrow> distribution" where
  "ds_record s d = (let ms = min (as_millis d) U64_MAX in
     s\<lparr>ds_histogram := hg_record (ds_histogram s) (millis ms), ds_count := ds_count s + 1,
       ds_sum_ms := saturating_add64 (ds_sum_ms s) ms\<rparr>)"

definition ds_merge :: "distribution \<Rightarrow> distribution \<Rightarrow> distribution option" where
  "ds_merge s other = (case hg_merge (ds_histogram s) (ds_histogram other) of None \<Rightarrow> None
     | Some h \<Rightarrow> Some \<lparr>ds_histogram = h, ds_count = saturating_add64 (ds_count s) (ds_count other),
                      ds_sum_ms = saturating_add64 (ds_sum_ms s) (ds_sum_ms other)\<rparr>)"

definition ds_quantile :: "distribution \<Rightarrow> nat \<Rightarrow> nat option option" where
  "ds_quantile s percent = map_option qt_upper_bound_ms (hg_quantile (ds_histogram s) percent)"

definition ds_exceeds :: "distribution \<Rightarrow> nat \<Rightarrow> nat option option" where
  "ds_exceeds s percent = map_option qt_exceeds_ms (hg_quantile (ds_histogram s) percent)"

definition ds_overflow :: "distribution \<Rightarrow> nat" where
  "ds_overflow s = hg_overflow (ds_histogram s)"

section \<open>Buckets\<close>

lemma bounds_sorted: "sorted (bounds kind)"
  by (cases kind) (simp_all add: NETWORK_BOUNDS_def DIAGNOSTIC_BOUNDS_def)

lemma bounds_length: "length (bounds kind) < 23"
  by (cases kind) (simp_all add: NETWORK_BOUNDS_def DIAGNOSTIC_BOUNDS_def)

lemma bucket_of_le: "bucket_of kind ms \<le> length (bounds kind)"
  using position_Some [of "\<lambda>b. ms \<le> b" "bounds kind"]
  by (auto simp: bucket_of_def split: option.splits)

lemma bucket_of_23: "bucket_of kind ms < 23"
  using bucket_of_le [of kind ms] bounds_length [of kind] by linarith

lemma bucket_of_le_iff: "i < length (bounds kind) \<Longrightarrow> bucket_of kind ms \<le> i \<longleftrightarrow> ms \<le> bounds kind ! i"
proof (cases "position (\<lambda>b. ms \<le> b) (bounds kind)")
  case None
  assume i: "i < length (bounds kind)"
  have "\<forall>b\<in>set (bounds kind). \<not> ms \<le> b" using None unfolding position_None .
  then have "\<not> ms \<le> bounds kind ! i" using i by simp
  with None i show ?thesis by (simp add: bucket_of_def)
next
  case (Some k)
  assume i: "i < length (bounds kind)"
  have k: "k < length (bounds kind)" "ms \<le> bounds kind ! k" "\<forall>j<k. \<not> ms \<le> bounds kind ! j"
    using position_Some [OF Some] by auto
  show ?thesis
  proof
    assume "bucket_of kind ms \<le> i"
    then have "bounds kind ! k \<le> bounds kind ! i"
      using Some i by (intro sorted_nth_mono [OF bounds_sorted]) (simp_all add: bucket_of_def)
    then show "ms \<le> bounds kind ! i" using k(2) by simp
  next
    assume "ms \<le> bounds kind ! i"
    then have "\<not> i < k" using k(3) by blast
    then show "bucket_of kind ms \<le> i" using Some by (simp add: bucket_of_def)
  qed
qed

lemma bucket_of_mono: "a \<le> b \<Longrightarrow> bucket_of kind a \<le> bucket_of kind b"
proof (rule ccontr)
  assume ab: "a \<le> b" and n: "\<not> bucket_of kind a \<le> bucket_of kind b"
  then have "bucket_of kind b < length (bounds kind)" using bucket_of_le [of kind a] by linarith
  with bucket_of_le_iff [OF this, of b] bucket_of_le_iff [OF this, of a] ab n show False by simp
qed

text \<open>A histogram after a list of samples holds, in each bucket, the saturated number of samples.\<close>

definition sample_counts :: "buckets \<Rightarrow> duration list \<Rightarrow> nat list" where
  "sample_counts kind xs = map (\<lambda>i. min (length (filter (\<lambda>d. bucket_of kind (as_millis d) = i) xs)) U64_MAX) [0..<23]"

lemma record_all:
  "foldl hg_record (hg_new kind) xs = \<lparr>hg_buckets = sample_counts kind xs, hg_kind = kind\<rparr>"
proof (induction xs rule: rev_induct)
  case Nil
  then show ?case by (simp add: hg_new_def sample_counts_def map_replicate_trivial)
next
  case (snoc x xs)
  have "(sample_counts kind xs)[i := saturating_add64 (sample_counts kind xs ! i) 1] = sample_counts kind (xs @ [x])"
    if "i = bucket_of kind (as_millis x)" for i
  proof (rule nth_equalityI)
    show "length ((sample_counts kind xs)[i := saturating_add64 (sample_counts kind xs ! i) 1]) =
        length (sample_counts kind (xs @ [x]))" by (simp add: sample_counts_def)
    fix j
    assume "j < length ((sample_counts kind xs)[i := saturating_add64 (sample_counts kind xs ! i) 1])"
    then have j: "j < 23" by (simp add: sample_counts_def)
    have i: "i < 23" using bucket_of_23 that by simp
    show "(sample_counts kind xs)[i := saturating_add64 (sample_counts kind xs ! i) 1] ! j =
        sample_counts kind (xs @ [x]) ! j"
      using i j that by (cases "j = i") (auto simp: sample_counts_def saturating_add64_def U64_MAX_def)
  qed
  with snoc show ?case by (simp add: hg_record_def Let_def)
qed

lemma foldl_saturating: "s \<le> U64_MAX \<Longrightarrow> foldl saturating_add64 s xs = min (s + sum_list xs) U64_MAX"
proof (induction xs arbitrary: s)
  case (Cons x xs)
  have "saturating_add64 s x \<le> U64_MAX" by (simp add: saturating_add64_def U64_MAX_def)
  with Cons.IH [OF this] show ?case by (simp add: saturating_add64_def U64_MAX_def)
qed simp

lemma hg_count_sum: "hg_count h = min (sum_list (hg_buckets h)) U64_MAX"
  using foldl_saturating [of 0 "hg_buckets h"] by (simp add: hg_count_def)

text \<open>Cumulated counts.\<close>

lemma sum_filter_upt:
  "sum_list (map (\<lambda>i. length (filter (\<lambda>d. f d = i) xs)) [0..<n]) = length (filter (\<lambda>d. f d < n) xs)"
proof (induction n)
  case (Suc n)
  have "length (filter (\<lambda>d. f d < Suc n) xs) = length (filter (\<lambda>d. f d < n) xs) + length (filter (\<lambda>d. f d = n) xs)"
    by (induction xs) auto
  with Suc show ?case by simp
qed simp

lemma take_sample_counts:
  assumes "length xs \<le> U64_MAX" and "n \<le> 23"
  shows "sum_list (take n (sample_counts kind xs)) = length (filter (\<lambda>d. bucket_of kind (as_millis d) < n) xs)"
proof -
  have le: "length (filter p xs) \<le> U64_MAX" for p using length_filter_le [of p xs] assms(1) by linarith
  have "take n (sample_counts kind xs) = map (\<lambda>i. length (filter (\<lambda>d. bucket_of kind (as_millis d) = i) xs)) [0..<n]"
    using assms(2) le by (simp add: sample_counts_def take_map take_upt min_absorb1)
  then show ?thesis by (simp add: sum_filter_upt)
qed

lemma rank_bucket_Some:
  "k < length cs \<Longrightarrow> rank \<le> seen + sum_list (take (Suc k) cs) \<Longrightarrow>
   (\<And>j. j < k \<Longrightarrow> seen + sum_list (take (Suc j) cs) < rank) \<Longrightarrow> rank_bucket seen rank i cs = Some (i + k)"
proof (induction cs arbitrary: seen i k)
  case (Cons c cs)
  show ?case
  proof (cases k)
    case 0
    then show ?thesis using Cons.prems by simp
  next
    case (Suc l)
    have "seen + c < rank" using Cons.prems(3) [of 0] Suc by simp
    moreover have "rank_bucket (seen + c) rank (Suc i) cs = Some (Suc i + l)"
    proof (rule Cons.IH)
      show "l < length cs" "rank \<le> seen + c + sum_list (take (Suc l) cs)" using Cons.prems(1,2) Suc by simp_all
      fix j assume "j < l"
      then show "seen + c + sum_list (take (Suc j) cs) < rank" using Cons.prems(3) [of "Suc j"] Suc by simp
    qed
    ultimately show ?thesis using Suc by simp
  qed
qed simp

lemma sorted_nth_le_iff:
  "sorted xs \<Longrightarrow> k < length xs \<Longrightarrow> xs ! k \<le> b \<longleftrightarrow> k < length (filter (\<lambda>x. x \<le> b) xs)"
proof (induction xs arbitrary: k)
  case (Cons x xs)
  show ?case
  proof (cases "x \<le> b")
    case True
    with Cons show ?thesis by (cases k) auto
  next
    case False
    then have "filter (\<lambda>y. y \<le> b) xs = []" using Cons.prems(1) by (auto simp: filter_empty_conv)
    moreover have "\<not> (x # xs) ! k \<le> b"
    proof (cases k)
      case (Suc j)
      then have "x \<le> xs ! j" using Cons.prems by simp
      then show ?thesis using False Suc by simp
    qed (use False in simp)
    ultimately show ?thesis using False by simp
  qed
qed simp

lemma find_bucket:
  "List.find (\<lambda>b. x \<le> b) (bounds kind) =
     (if bucket_of kind x < length (bounds kind) then Some (bounds kind ! bucket_of kind x) else None)"
proof (cases "position (\<lambda>b. x \<le> b) (bounds kind)")
  case None
  have "\<forall>b\<in>set (bounds kind). \<not> x \<le> b" using None unfolding position_None .
  then have "List.find (\<lambda>b. x \<le> b) (bounds kind) = None" by (simp add: find_None_iff2)
  then show ?thesis using None by (simp add: bucket_of_def)
next
  case (Some k)
  then have "List.find (\<lambda>b. x \<le> b) (bounds kind) = Some (bounds kind ! k)"
    using position_Some [OF Some] by (auto simp: find_Some_iff)
  then show ?thesis using Some position_Some [OF Some] by (simp add: bucket_of_def)
qed

section \<open>Properties\<close>

text \<open>
  C33: the quantile of a recorded list of durations never hits the \<open>unreachable!\<close> and is exact up to the
  buckets: it is the first bound that is not below the sample of nearest rank (the sample at position
  \<open>ceil (n * percent / 100)\<close> of the sorted milliseconds), and reports an overflow exactly when that
  sample exceeds every bound.
\<close>

theorem quantile_nearest_rank:
  fixes kind xs p
  defines "x \<equiv> sort (map as_millis xs) ! (div_ceil (length xs * p) 100 - 1)"
  assumes "xs \<noteq> []" and "length xs \<le> U64_MAX" and "1 \<le> p" and "p \<le> 100"
  shows "hg_quantile (foldl hg_record (hg_new kind) xs) p = Some
    \<lparr>qt_upper_bound_ms = List.find (\<lambda>b. x \<le> b) (bounds kind),
     qt_exceeds_ms = (if \<forall>b\<in>set (bounds kind). b < x then Some (last (bounds kind)) else None)\<rparr>"
proof -
  let ?cs = "sample_counts kind xs" and ?n = "length xs"
  let ?rank = "div_ceil (?n * p) 100" and ?s = "sort (map as_millis xs)"
  let ?k = "bucket_of kind x"
  have np: "0 < ?n * p" using assms(2,4) by simp
  have r1: "0 < ?rank" using div_ceil_mult_ge [of 100 "?n * p"] np by (cases "?rank = 0") auto
  have "?n * p \<le> ?n * 100" using assms(5) by simp
  then have r2: "?rank \<le> ?n" using div_ceil_iff [of 100 ?n "?n * p"] by (simp add: not_less [symmetric])
  have cum: "sum_list (take n ?cs) = length (filter (\<lambda>m. bucket_of kind m < n) ?s)" if "n \<le> 23" for n
  proof -
    have "length (filter (\<lambda>m. bucket_of kind m < n) ?s) = size (filter_mset (\<lambda>m. bucket_of kind m < n) (mset ?s))"
      by (metis mset_filter size_mset)
    also have "\<dots> = length (filter (\<lambda>m. bucket_of kind m < n) (map as_millis xs))"
      by (metis mset_filter mset_sort size_mset)
    finally show ?thesis using take_sample_counts [OF assms(3) that]
      by (simp add: filter_map comp_def)
  qed
  have below: "?rank \<le> sum_list (take (Suc j) ?cs) \<longleftrightarrow> ?k \<le> j" if j: "j < 23" for j
  proof -
    have split: "length (filter (\<lambda>m. bucket_of kind m < Suc j) ?s) = length (filter (\<lambda>y. y \<le> j) (map (bucket_of kind) ?s))"
      by (simp add: filter_map comp_def less_Suc_eq_le)
    have "sorted (map (bucket_of kind) ?s)"
      using bucket_of_mono sorted_sort [of "map as_millis xs"] by (intro sorted_map_mono) (auto simp: mono_on_def)
    then have "map (bucket_of kind) ?s ! (?rank - 1) \<le> j \<longleftrightarrow>
        ?rank - 1 < length (filter (\<lambda>y. y \<le> j) (map (bucket_of kind) ?s))"
      using r1 r2 by (intro sorted_nth_le_iff) simp_all
    moreover have "map (bucket_of kind) ?s ! (?rank - 1) = ?k" using r1 r2 by (simp add: x_def)
    ultimately show ?thesis using cum [of "Suc j"] j r1 split by simp linarith
  qed
  have count: "hg_count \<lparr>hg_buckets = ?cs, hg_kind = kind\<rparr> = ?n"
  proof -
    have "length ?cs = 23" by (simp add: sample_counts_def)
    then have "sum_list ?cs = length (filter (\<lambda>d. bucket_of kind (as_millis d) < 23) xs)"
      using take_sample_counts [OF assms(3), of 23 kind] by simp
    then show ?thesis using assms(3) by (simp add: hg_count_sum bucket_of_23)
  qed
  have "rank_bucket 0 ?rank 0 ?cs = Some (0 + ?k)"
  proof (rule rank_bucket_Some)
    show "?k < length ?cs" by (simp add: sample_counts_def bucket_of_23)
    show "?rank \<le> 0 + sum_list (take (Suc ?k) ?cs)" using below [of ?k] bucket_of_23 by simp
    fix j assume "j < ?k"
    then show "0 + sum_list (take (Suc j) ?cs) < ?rank" using below [of j] bucket_of_23 [of kind x] by simp
  qed
  then have "hg_quantile (foldl hg_record (hg_new kind) xs) p = Some (bucket_quantile kind ?k)"
    using assms(2) by (simp add: record_all hg_quantile_def count Let_def)
  moreover have "(\<forall>b\<in>set (bounds kind). b < x) \<longleftrightarrow> length (bounds kind) \<le> ?k"
    using find_bucket [of x kind] find_None_iff2 [of "\<lambda>b. x \<le> b" "bounds kind"]
    by (auto simp: not_le split: if_splits)
  ultimately show ?thesis by (auto simp: bucket_quantile_def find_bucket Let_def)
qed

theorem quantile_nearest_rank_witness:
  "hg_quantile (foldl hg_record (hg_new Network) [millis 3, millis 70, millis 200000]) 50 =
     Some \<lparr>qt_upper_bound_ms = Some 100, qt_exceeds_ms = None\<rparr>"
  using quantile_nearest_rank [of "[millis 3, millis 70, millis 200000]" 50 Network]
  by (simp add: U64_MAX_def NETWORK_BOUNDS_def as_millis_def div_ceil_def)

text \<open>
  Merging is recording: the merge of two histograms with the same buckets is the histogram of all
  their samples, in any order and with saturation included; histograms of different buckets are refused.
\<close>

theorem merge_is_union:
  "hg_merge (foldl hg_record (hg_new k1) xs) (foldl hg_record (hg_new k2) ys) =
     (if k1 = k2 then Some (foldl hg_record (hg_new k1) (xs @ ys)) else None) \<and>
   (mset zs = mset xs \<longrightarrow> foldl hg_record (hg_new k1) zs = foldl hg_record (hg_new k1) xs)"
proof -
  have "map2 saturating_add64 (sample_counts k xs) (sample_counts k ys) = sample_counts k (xs @ ys)" for k
    by (rule nth_equalityI) (auto simp: sample_counts_def saturating_add64_def U64_MAX_def)
  moreover have "sample_counts k zs = sample_counts k xs" if m: "mset zs = mset xs" for k
  proof -
    have "length (filter q zs) = length (filter q xs)" for q using m by (metis mset_filter size_mset)
    then show ?thesis by (simp add: sample_counts_def)
  qed
  ultimately show ?thesis unfolding record_all hg_merge_def by simp
qed

theorem merge_is_union_witness:
  "foldl hg_record (hg_new Network) [millis 2, millis 1] = foldl hg_record (hg_new Network) [millis 1, millis 2]"
proof -
  have "mset [millis 2, millis 1] = mset [millis 1, millis 2]" by simp
  then show ?thesis using merge_is_union by blast
qed

end
