(* ===== verification/Traffic.thy ===== *)
theory Traffic imports Histogram Address begin

text \<open>
  The DHT traffic budget, \<open>src/dht/traffic\<close>: the configuration and its split into classes
  (\<open>api.rs\<close>), limiters that can be probed before they are charged (\<open>limiter.rs\<close>), and the state
  behind the lock (\<open>state.rs\<close>): combined quotas, the per-address table with its clean-up, the
  verification permits and the tickets of queued intents. The GCRA decision of the \<open>governor\<close> crate is
  the parameter \<open>gcra\<close>, from the rate, the count, the elapsed time and the stored time to the
  decision. Every operation runs under one lock and takes the clock reading as an argument. Counters
  are \<open>nat\<close> (the code's \<open>u64\<close> increments by one).
\<close>

section \<open>Configuration, classes, statistics\<close>

record traffic_config =
  tc_queries :: nat
  tc_inbound :: nat
  tc_upload :: nat

definition default_traffic_config :: traffic_config where
  "default_traffic_config = \<lparr>tc_queries = 20, tc_inbound = 200, tc_upload = 262144\<rparr>"

datatype traffic_error = InvalidRates

definition validate_config :: "traffic_config \<Rightarrow> traffic_error + traffic_config" where
  "validate_config c = (if tc_queries c < 10 \<or> tc_inbound c = 0 \<or> tc_upload c < 32768 then Inl InvalidRates else Inr c)"

definition config_classes :: "traffic_config \<Rightarrow> nat list" where
  "config_classes c = (let queries = tc_queries c; fetch = queries div 2; sample = queries div 10 in
     [fetch, queries - fetch - 2 * sample, sample, sample])"

datatype traffic_class = Collector | Control | Sampling | Verification

fun class_index :: "traffic_class \<Rightarrow> nat" where
  "class_index Collector = 0"
| "class_index Control = 1"
| "class_index Sampling = 2"
| "class_index Verification = 3"

record decision =
  dc_wait :: duration
  dc_reasons :: u8

record verification_stats =
  vs_admitted :: nat
  vs_duplicate :: nat
  vs_cooldown :: nat
  vs_capacity :: nat
  vs_ip_table :: nat
  vs_succeeded :: nat
  vs_failed :: nat

record stats =
  st_validated_v4 :: nat
  st_validated_v6 :: nat
  st_packets :: "nat list"
  st_bytes :: "nat list"
  st_inbound_packets :: nat
  st_inbound_bytes :: nat
  st_reply_packets :: nat
  st_reply_bytes :: nat
  st_limited_drops :: nat
  st_queue_timeouts :: nat
  st_queued :: "nat list"
  st_queue_finished :: "nat list list"
  st_queue_wait :: "histogram list"
  st_blocked :: "nat list list"
  st_inflight_cancelled :: "nat list"
  st_verification :: verification_stats

definition stats_default :: stats where
  "stats_default =
     \<lparr>st_validated_v4 = 0, st_validated_v6 = 0, st_packets = replicate 4 0, st_bytes = replicate 4 0,
      st_inbound_packets = 0, st_inbound_bytes = 0, st_reply_packets = 0, st_reply_bytes = 0,
      st_limited_drops = 0, st_queue_timeouts = 0, st_queued = replicate 4 0,
      st_queue_finished = replicate 4 (replicate 4 0), st_queue_wait = replicate 4 (hg_new Network),
      st_blocked = replicate 4 (replicate 4 0), st_inflight_cancelled = replicate 4 0,
      st_verification = \<lparr>vs_admitted = 0, vs_duplicate = 0, vs_cooldown = 0, vs_capacity = 0,
        vs_ip_table = 0, vs_succeeded = 0, vs_failed = 0\<rparr>\<rparr>"

definition bump :: "nat \<Rightarrow> nat \<Rightarrow> nat list \<Rightarrow> nat list" where
  "bump k n xs = xs[k := xs ! k + n]"

definition bump2 :: "nat \<Rightarrow> nat \<Rightarrow> nat list list \<Rightarrow> nat list list" where
  "bump2 k l xss = xss[k := bump l 1 (xss ! k)]"

section \<open>Limiters\<close>

datatype gcra_decision = Insufficient | NotUntil duration | Granted nat

type_synonym gcra = "nat \<Rightarrow> nat \<Rightarrow> duration \<Rightarrow> nat option \<Rightarrow> gcra_decision"

record limiter =
  lm_rate :: nat
  lm_start :: instant
  lm_state :: "nat option"
  lm_commit :: bool

text \<open>\<open>Limiter::new\<close> panics for the rate 0 (division by zero).\<close>

definition limiter_new :: "nat \<Rightarrow> instant \<Rightarrow> limiter option" where
  "limiter_new rate now = (if rate = 0 then None
     else Some \<lparr>lm_rate = rate, lm_start = now, lm_state = None, lm_commit = False\<rparr>)"

definition limiter_check :: "gcra \<Rightarrow> limiter \<Rightarrow> nat \<Rightarrow> bool \<Rightarrow> instant \<Rightarrow> limiter \<times> duration" where
  "limiter_check gcra lm n commit now =
     (let lm' = lm\<lparr>lm_commit := commit\<rparr> in
      case gcra (lm_rate lm) (max n 1) (now - lm_start lm) (lm_state lm) of
        Insufficient \<Rightarrow> (lm', secs 5)
      | NotUntil wait \<Rightarrow> (lm', wait)
      | Granted next_time \<Rightarrow> (if lm_commit lm' then lm'\<lparr>lm_state := Some next_time\<rparr> else lm', 0))"

section \<open>The budget\<close>

record ip_state =
  is_inbound :: limiter
  is_queries :: limiter
  is_touched :: instant
  is_verification_until :: "instant option"

record budget =
  bu_queries :: "limiter list"
  bu_inbound :: limiter
  bu_responses :: limiter
  bu_query_bytes :: limiter
  bu_reply_bytes :: limiter
  bu_ips :: "(ip_addr, ip_state) hmap"
  bu_cleanup :: instant
  bu_total :: stats
  bu_interval :: stats
  bu_queued_current :: "nat list"
  bu_verification_queued :: nat
  bu_verification_limit :: nat

fun all_some :: "'a option list \<Rightarrow> 'a list option" where
  "all_some [] = Some []"
| "all_some (None # _) = None"
| "all_some (Some x # xs) = (case all_some xs of None \<Rightarrow> None | Some ys \<Rightarrow> Some (x # ys))"

definition budget_new :: "traffic_config \<Rightarrow> instant \<Rightarrow> (traffic_error + budget) option" where
  "budget_new config now =
     (case validate_config config of
        Inl e \<Rightarrow> Some (Inl e)
      | Inr c \<Rightarrow>
         (case all_some (map (\<lambda>r. limiter_new r now) (config_classes c
                 @ [tc_inbound c, 128, tc_upload c div 8, tc_upload c - tc_upload c div 8])) of
            Some [q0, q1, q2, q3, inb, resp, qb, rb] \<Rightarrow>
              Some (Inr \<lparr>bu_queries = [q0, q1, q2, q3], bu_inbound = inb, bu_responses = resp,
                bu_query_bytes = qb, bu_reply_bytes = rb, bu_ips = [], bu_cleanup = now,
                bu_total = stats_default, bu_interval = stats_default, bu_queued_current = replicate 4 0,
                bu_verification_queued = 0,
                bu_verification_limit = (config_classes c ! class_index Verification) * 5\<rparr>)
          | _ \<Rightarrow> None))"

definition update_stats :: "(stats \<Rightarrow> stats) \<Rightarrow> budget \<Rightarrow> budget" where
  "update_stats f b = b\<lparr>bu_total := f (bu_total b), bu_interval := f (bu_interval b)\<rparr>"

definition update_verification :: "(verification_stats \<Rightarrow> verification_stats) \<Rightarrow> budget \<Rightarrow> budget" where
  "update_verification f = update_stats (\<lambda>s. s\<lparr>st_verification := f (st_verification s)\<rparr>)"

definition clean :: "budget \<Rightarrow> instant \<Rightarrow> budget" where
  "clean b now =
     (if now \<ge> bu_cleanup b then
        b\<lparr>bu_ips := hm_retain (\<lambda>_ s. now - is_touched s < secs 60
              \<or> (case is_verification_until s of None \<Rightarrow> False | Some until \<Rightarrow> until > now)) (bu_ips b),
          bu_cleanup := now + secs 1\<rparr>
      else b)"

definition fresh_ip :: "instant \<Rightarrow> ip_state option" where
  "fresh_ip now = (case all_some [limiter_new 5 now, limiter_new 2 now] of
     Some [inb, q] \<Rightarrow> Some \<lparr>is_inbound = inb, is_queries = q, is_touched = now, is_verification_until = None\<rparr>
   | _ \<Rightarrow> None)"

definition track :: "budget \<Rightarrow> ip_addr \<Rightarrow> instant \<Rightarrow> (budget \<times> bool) option" where
  "track b0 ip now =
     (let b = clean b0 now in
      if length (bu_ips b) \<ge> 10000 \<and> \<not> hm_has (bu_ips b) ip then Some (b, False)
      else (case (case hm_get (bu_ips b) ip of Some s \<Rightarrow> Some s | None \<Rightarrow> fresh_ip now) of
              None \<Rightarrow> None
            | Some s \<Rightarrow> Some (b\<lparr>bu_ips := hm_put ip (s\<lparr>is_touched := now\<rparr>) (bu_ips b)\<rparr>, True)))"

definition query_observed :: "gcra \<Rightarrow> budget \<Rightarrow> traffic_class \<Rightarrow> ip_addr \<Rightarrow> nat \<Rightarrow> instant
    \<Rightarrow> (budget \<times> decision) option" where
  "query_observed gcra b0 class ip bytes now =
     (case track b0 ip now of
        None \<Rightarrow> None
      | Some (b, False) \<Rightarrow> Some (b, \<lparr>dc_wait = secs 1, dc_reasons = 8\<rparr>)
      | Some (b, True) \<Rightarrow>
         (case hm_get (bu_ips b) ip of
            None \<Rightarrow> None
          | Some s \<Rightarrow>
             (let n = bytes mod 2 ^ 32; k = class_index class;
                  (l1, w1) = limiter_check gcra (bu_queries b ! k) 1 False now;
                  (l2, w2) = limiter_check gcra (is_queries s) 1 False now;
                  (l3, w3) = limiter_check gcra (bu_query_bytes b) n False now;
                  wait = foldl max 0 [w1, w2, w3];
                  reasons = foldl (\<lambda>mask (i, w). if w = 0 then mask else mask OR push_bit i 1) 0 [(0, w1), (1, w2), (2, w3)];
                  (m1, m2, m3) = (if wait = 0
                    then (fst (limiter_check gcra l1 1 True now), fst (limiter_check gcra l2 1 True now),
                          fst (limiter_check gcra l3 n True now))
                    else (l1, l2, l3))
              in Some (b\<lparr>bu_queries := (bu_queries b)[k := m1],
                         bu_ips := hm_put ip (s\<lparr>is_queries := m2\<rparr>) (bu_ips b),
                         bu_query_bytes := m3\<rparr>, \<lparr>dc_wait = wait, dc_reasons = reasons\<rparr>))))"

definition verification_duplicate :: "budget \<Rightarrow> budget" where
  "verification_duplicate = update_verification (\<lambda>v. v\<lparr>vs_duplicate := vs_duplicate v + 1\<rparr>)"

definition verification_result :: "budget \<Rightarrow> bool \<Rightarrow> budget" where
  "verification_result b success = update_verification (\<lambda>v. if success
     then v\<lparr>vs_succeeded := vs_succeeded v + 1\<rparr> else v\<lparr>vs_failed := vs_failed v + 1\<rparr>) b"

definition admit_verification :: "budget \<Rightarrow> ip_addr \<Rightarrow> instant \<Rightarrow> (budget \<times> bool) option" where
  "admit_verification b0 ip now =
     (case track b0 ip now of
        None \<Rightarrow> None
      | Some (b, False) \<Rightarrow> Some (update_verification (\<lambda>v. v\<lparr>vs_ip_table := vs_ip_table v + 1\<rparr>) b, False)
      | Some (b, True) \<Rightarrow>
         (case hm_get (bu_ips b) ip of
            None \<Rightarrow> None
          | Some s \<Rightarrow>
             if (case is_verification_until s of None \<Rightarrow> False | Some until \<Rightarrow> until > now)
             then Some (update_verification (\<lambda>v. v\<lparr>vs_cooldown := vs_cooldown v + 1\<rparr>) b, False)
             else if bu_verification_queued b \<ge> bu_verification_limit b
             then Some (update_verification (\<lambda>v. v\<lparr>vs_capacity := vs_capacity v + 1\<rparr>) b, False)
             else Some (update_verification (\<lambda>v. v\<lparr>vs_admitted := vs_admitted v + 1\<rparr>)
               (b\<lparr>bu_ips := hm_put ip (s\<lparr>is_verification_until := Some (now + secs 60)\<rparr>) (bu_ips b),
                  bu_verification_queued := bu_verification_queued b + 1\<rparr>), True)))"

text \<open>Dropping a permit returns the place; the subtraction panics below zero.\<close>

definition drop_permit :: "budget \<Rightarrow> budget option" where
  "drop_permit b = (if bu_verification_queued b = 0 then None
     else Some (b\<lparr>bu_verification_queued := bu_verification_queued b - 1\<rparr>))"

definition ordinary :: "gcra \<Rightarrow> budget \<Rightarrow> ip_addr \<Rightarrow> instant \<Rightarrow> (budget \<times> bool) option" where
  "ordinary gcra b0 ip now =
     (case track b0 ip now of
        None \<Rightarrow> None
      | Some (b, False) \<Rightarrow> Some (b, False)
      | Some (b, True) \<Rightarrow>
         (case hm_get (bu_ips b) ip of
            None \<Rightarrow> None
          | Some s \<Rightarrow>
             (let (l1, w1) = limiter_check gcra (bu_inbound b) 1 False now
              in if w1 \<noteq> 0 then Some (b\<lparr>bu_inbound := l1\<rparr>, False)
                 else let (l2, w2) = limiter_check gcra (is_inbound s) 1 False now
                      in if w2 \<noteq> 0
                         then Some (b\<lparr>bu_inbound := l1, bu_ips := hm_put ip (s\<lparr>is_inbound := l2\<rparr>) (bu_ips b)\<rparr>, False)
                         else Some (b\<lparr>bu_inbound := fst (limiter_check gcra l1 1 True now),
                                bu_ips := hm_put ip (s\<lparr>is_inbound := fst (limiter_check gcra l2 1 True now)\<rparr>) (bu_ips b)\<rparr>,
                              True))))"

definition inbound :: "gcra \<Rightarrow> budget \<Rightarrow> ip_addr \<Rightarrow> nat \<Rightarrow> bool \<Rightarrow> instant \<Rightarrow> (budget \<times> bool) option" where
  "inbound gcra b ip bytes pending_source now =
     (case (if pending_source
            then (let (l, w) = limiter_check gcra (bu_responses b) 1 True now
                  in Some (b\<lparr>bu_responses := l\<rparr>, w = 0))
            else ordinary gcra b ip now) of
        None \<Rightarrow> None
      | Some (b', allowed) \<Rightarrow>
          Some (update_stats (\<lambda>s. s\<lparr>st_inbound_packets := st_inbound_packets s + 1,
              st_inbound_bytes := st_inbound_bytes s + bytes,
              st_limited_drops := st_limited_drops s + (if allowed then 0 else 1)\<rparr>) b', allowed))"

definition count_drop :: "budget \<Rightarrow> budget" where
  "count_drop = update_stats (\<lambda>s. s\<lparr>st_limited_drops := st_limited_drops s + 1\<rparr>)"

definition disguised_query :: "gcra \<Rightarrow> budget \<Rightarrow> ip_addr \<Rightarrow> instant \<Rightarrow> (budget \<times> bool) option" where
  "disguised_query gcra b ip now =
     map_option (\<lambda>(b', allowed). (if allowed then b' else count_drop b', allowed)) (ordinary gcra b ip now)"

definition reply :: "gcra \<Rightarrow> budget \<Rightarrow> nat \<Rightarrow> instant \<Rightarrow> budget \<times> bool" where
  "reply gcra b bytes now =
     (let (l, w) = limiter_check gcra (bu_reply_bytes b) (bytes mod 2 ^ 32) True now;
          b' = b\<lparr>bu_reply_bytes := l\<rparr>
      in (if w = 0 then b' else count_drop b', w = 0))"

definition reply_sent :: "budget \<Rightarrow> nat \<Rightarrow> budget" where
  "reply_sent b bytes = update_stats (\<lambda>s. s\<lparr>st_reply_packets := st_reply_packets s + 1,
     st_reply_bytes := st_reply_bytes s + bytes\<rparr>) b"

definition validated :: "budget \<Rightarrow> ip_addr \<Rightarrow> budget" where
  "validated b ip = update_stats (\<lambda>s. if is_ipv4 ip then s\<lparr>st_validated_v4 := st_validated_v4 s + 1\<rparr>
     else s\<lparr>st_validated_v6 := st_validated_v6 s + 1\<rparr>) b"

definition sent :: "budget \<Rightarrow> traffic_class \<Rightarrow> nat \<Rightarrow> budget" where
  "sent b class bytes = update_stats (\<lambda>s. s\<lparr>st_packets := bump (class_index class) 1 (st_packets s),
     st_bytes := bump (class_index class) bytes (st_bytes s)\<rparr>) b"

definition inflight_cancelled :: "budget \<Rightarrow> traffic_class \<Rightarrow> budget" where
  "inflight_cancelled b class = update_stats (\<lambda>s. s\<lparr>st_inflight_cancelled :=
     bump (class_index class) 1 (st_inflight_cancelled s)\<rparr>) b"

section \<open>Tickets of queued intents\<close>

record queue_record =
  qr_class :: traffic_class
  qr_start :: instant
  qr_outcome :: nat
  qr_seen :: u8

definition queue_ticket :: "budget \<Rightarrow> traffic_class \<Rightarrow> instant \<Rightarrow> budget \<times> queue_record" where
  "queue_ticket b class now =
     (update_stats (\<lambda>s. s\<lparr>st_queued := bump (class_index class) 1 (st_queued s)\<rparr>)
        (b\<lparr>bu_queued_current := bump (class_index class) 1 (bu_queued_current b)\<rparr>),
      \<lparr>qr_class = class, qr_start = now, qr_outcome = 1, qr_seen = 0\<rparr>)"

definition ticket_finish :: "queue_record \<Rightarrow> nat \<Rightarrow> queue_record" where
  "ticket_finish q outcome = q\<lparr>qr_outcome := outcome\<rparr>"

definition ticket_blocked :: "budget \<Rightarrow> queue_record \<Rightarrow> u8 \<Rightarrow> budget \<times> queue_record" where
  "ticket_blocked b q reasons =
     (let fresh = reasons AND NOT (qr_seen q)
      in (update_stats (\<lambda>s. fold (\<lambda>index s. if fresh AND push_bit index 1 \<noteq> 0
              then s\<lparr>st_blocked := bump2 (class_index (qr_class q)) index (st_blocked s)\<rparr> else s) [0..<4] s) b,
          q\<lparr>qr_seen := qr_seen q OR reasons\<rparr>))"

definition ticket_drop :: "budget \<Rightarrow> queue_record \<Rightarrow> instant \<Rightarrow> budget option" where
  "ticket_drop b q now =
     (let k = class_index (qr_class q) in
      if bu_queued_current b ! k = 0 \<or> qr_outcome q \<ge> 4 then None
      else Some (update_stats (\<lambda>s. s\<lparr>st_queue_finished := bump2 k (qr_outcome q) (st_queue_finished s),
               st_queue_wait := (st_queue_wait s)[k := hg_record (st_queue_wait s ! k) (now - qr_start q)],
               st_queue_timeouts := st_queue_timeouts s + (if qr_outcome q = 2 then 1 else 0)\<rparr>)
             (b\<lparr>bu_queued_current := (bu_queued_current b)[k := bu_queued_current b ! k - 1]\<rparr>)))"

section \<open>Configuration\<close>

text \<open>
  An accepted configuration gives every class at least one packet per second, the classes add up
  to the configured total, the two byte budgets add up to the upload limit, and building the budget
  does not panic (no limiter gets the rate zero).
\<close>

theorem config_partition:
  "(\<exists>e. validate_config c = Inl e) \<or>
   (sum_list (config_classes c) = tc_queries c \<and> (\<forall>r\<in>set (config_classes c). 1 \<le> r) \<and>
    length (config_classes c) = 4 \<and>
    (\<exists>b. budget_new c now = Some (Inr b) \<and> map lm_rate (bu_queries b) = config_classes c \<and>
       lm_rate (bu_query_bytes b) + lm_rate (bu_reply_bytes b) = tc_upload c \<and>
       0 < lm_rate (bu_query_bytes b) \<and> 0 < bu_verification_limit b))"
proof (cases "validate_config c")
  case (Inr c')
  then have c: "10 \<le> tc_queries c" "tc_inbound c \<noteq> 0" "32768 \<le> tc_upload c" "c' = c"
    by (auto simp: validate_config_def split: if_splits)
  have d: "1 \<le> tc_queries c div 10" "1 \<le> tc_queries c div 2" "1 \<le> tc_upload c div 8"
    "tc_queries c div 2 + 2 * (tc_queries c div 10) < tc_queries c" "tc_upload c div 8 < tc_upload c"
    using c by linarith+
  moreover have "Suc 0 \<le> tc_queries c - (tc_queries c div 2 + 2 * (tc_queries c div 10))"
    "\<not> tc_upload c \<le> tc_upload c div 8" using d by linarith+
  ultimately show ?thesis using Inr c
    by (simp add: config_classes_def budget_new_def limiter_new_def Let_def)
qed simp

theorem config_partition_witness:
  "sum_list (config_classes default_traffic_config) = 20"
proof -
  have "validate_config default_traffic_config = Inr default_traffic_config"
    by (simp add: validate_config_def default_traffic_config_def)
  then show ?thesis using config_partition [of default_traffic_config 0]
    by (simp add: default_traffic_config_def)
qed

section \<open>The table of addresses\<close>

definition budget_inv :: "budget \<Rightarrow> bool" where
  "budget_inv b \<longleftrightarrow> hm_ok (bu_ips b) \<and> length (bu_ips b) \<le> 10000 \<and>
     bu_verification_queued b \<le> bu_verification_limit b \<and> length (bu_queries b) = 4"

definition cooling :: "budget \<Rightarrow> ip_addr \<Rightarrow> instant \<Rightarrow> bool" where
  "cooling b ip until \<longleftrightarrow> (\<exists>s. hm_get (bu_ips b) ip = Some s \<and> is_verification_until s = Some until)"

text \<open>What every operation keeps, from \<open>b\<close> to \<open>b'\<close> at the time \<open>now\<close>.\<close>

definition keeps :: "instant \<Rightarrow> budget \<Rightarrow> budget \<Rightarrow> bool" where
  "keeps now b b' \<longleftrightarrow> budget_inv b' \<and> bu_verification_limit b' = bu_verification_limit b \<and>
     (\<forall>ip until. now < until \<longrightarrow> cooling b ip until \<longrightarrow> cooling b' ip until)"

lemma keeps_trans: "keeps now b c \<Longrightarrow> keeps now c d \<Longrightarrow> keeps now b d"
  by (simp add: keeps_def)

lemma fresh_ip_Some: "\<exists>s. fresh_ip now = Some s \<and> is_verification_until s = None"
  by (simp add: fresh_ip_def limiter_new_def)

lemma clean_keeps:
  assumes "budget_inv b"
  shows "keeps now b (clean b now)"
proof -
  let ?p = "\<lambda>_ s. now - is_touched s < secs 60 \<or> (case is_verification_until s of None \<Rightarrow> False | Some until \<Rightarrow> until > now)"
  have ok: "hm_ok (bu_ips b)" using assms by (simp add: budget_inv_def)
  have "cooling (clean b now) ip until" if "cooling b ip until" "now < until" for ip until
    using that by (auto simp: cooling_def clean_def hm_get_retain [OF ok])
  moreover have "length (hm_retain ?p (bu_ips b)) \<le> length (bu_ips b)" by (simp add: hm_retain_def)
  then have "budget_inv (clean b now)"
    using assms unfolding budget_inv_def clean_def by auto
  ultimately show ?thesis by (simp add: keeps_def clean_def)
qed

lemma clean_fields [simp]:
  "bu_queries (clean b now) = bu_queries b" "bu_inbound (clean b now) = bu_inbound b"
  "bu_responses (clean b now) = bu_responses b" "bu_query_bytes (clean b now) = bu_query_bytes b"
  "bu_reply_bytes (clean b now) = bu_reply_bytes b"
  "bu_verification_queued (clean b now) = bu_verification_queued b"
  by (simp_all add: clean_def)

lemma keeps_put:
  assumes "budget_inv b" and "hm_get (bu_ips b) ip = Some s" and "is_verification_until s' = is_verification_until s"
    and "bu_ips b' = hm_put ip s' (bu_ips b)" and "bu_verification_queued b' = bu_verification_queued b"
    and "bu_verification_limit b' = bu_verification_limit b" and "length (bu_queries b') = length (bu_queries b)"
  shows "keeps now b b'"
  using assms by (auto simp: keeps_def budget_inv_def cooling_def length_hm_put)

lemma track_effect:
  assumes "budget_inv b"
  shows "\<exists>b' ok. track b ip now = Some (b', ok) \<and> keeps now b b' \<and>
    (ok \<longrightarrow> (\<exists>s. hm_get (bu_ips b') ip = Some s)) \<and>
    bu_verification_queued b' = bu_verification_queued b \<and> bu_queries b' = bu_queries b \<and>
    bu_query_bytes b' = bu_query_bytes b"
proof -
  let ?c = "clean b now"
  have k: "keeps now b ?c" using clean_keeps [OF assms] .
  then have inv: "budget_inv ?c" by (simp add: keeps_def)
  show ?thesis
  proof (cases "length (bu_ips ?c) \<ge> 10000 \<and> \<not> hm_has (bu_ips ?c) ip")
    case True
    then show ?thesis using k by (intro exI [of _ ?c] exI [of _ False]) (simp add: track_def Let_def)
  next
    case False
    obtain s where s: "(case hm_get (bu_ips ?c) ip of Some s \<Rightarrow> Some s | None \<Rightarrow> fresh_ip now) = Some s"
      using fresh_ip_Some [of now] by (cases "hm_get (bu_ips ?c) ip") auto
    let ?b = "?c\<lparr>bu_ips := hm_put ip (s\<lparr>is_touched := now\<rparr>) (bu_ips ?c)\<rparr>"
    have "keeps now ?c ?b"
      using inv False s fresh_ip_Some [of now]
      by (auto simp: keeps_def budget_inv_def cooling_def length_hm_put hm_has_def split: option.splits)
    moreover have "track b ip now = Some (?b, True)" using False s by (simp add: track_def Let_def)
    ultimately show ?thesis using keeps_trans [OF k] by auto
  qed
qed

section \<open>Every operation\<close>

datatype budget_op =
  BQuery traffic_class ip_addr nat instant
| BAdmit ip_addr instant
| BInbound ip_addr nat bool instant
| BDisguised ip_addr instant
| BReply nat instant
| BClean instant
| BDropPermit instant

fun op_time :: "budget_op \<Rightarrow> instant" where
  "op_time (BQuery _ _ _ t) = t"
| "op_time (BAdmit _ t) = t"
| "op_time (BInbound _ _ _ t) = t"
| "op_time (BDisguised _ t) = t"
| "op_time (BReply _ t) = t"
| "op_time (BClean t) = t"
| "op_time (BDropPermit t) = t"

fun budget_step :: "gcra \<Rightarrow> budget \<Rightarrow> budget_op \<Rightarrow> budget option" where
  "budget_step gcra b (BQuery class ip bytes now) = map_option fst (query_observed gcra b class ip bytes now)"
| "budget_step gcra b (BAdmit ip now) = map_option fst (admit_verification b ip now)"
| "budget_step gcra b (BInbound ip bytes pending now) = map_option fst (inbound gcra b ip bytes pending now)"
| "budget_step gcra b (BDisguised ip now) = map_option fst (disguised_query gcra b ip now)"
| "budget_step gcra b (BReply bytes now) = Some (fst (reply gcra b bytes now))"
| "budget_step gcra b (BClean now) = Some (clean b now)"
| "budget_step gcra b (BDropPermit now) = drop_permit b"

text \<open>A permit is dropped at most once: the place it returns was taken.\<close>

fun budget_adm :: "budget \<Rightarrow> budget_op \<Rightarrow> bool" where
  "budget_adm b (BDropPermit _) = (0 < bu_verification_queued b)"
| "budget_adm b _ = True"

lemma update_fields [simp]:
  "bu_ips (update_stats f b) = bu_ips b" "bu_queries (update_stats f b) = bu_queries b"
  "bu_query_bytes (update_stats f b) = bu_query_bytes b"
  "bu_verification_queued (update_stats f b) = bu_verification_queued b"
  "bu_verification_limit (update_stats f b) = bu_verification_limit b"
  by (simp_all add: update_stats_def)

lemma keeps_update [simp]: "keeps now b (update_stats f b') = keeps now b b'"
  by (simp add: keeps_def budget_inv_def cooling_def)

lemma keeps_cong:
  "bu_ips b' = bu_ips b \<Longrightarrow> bu_queries b' = bu_queries b \<Longrightarrow> bu_verification_queued b' = bu_verification_queued b \<Longrightarrow>
   bu_verification_limit b' = bu_verification_limit b \<Longrightarrow> budget_inv b \<Longrightarrow> keeps now b b'"
  by (simp add: keeps_def budget_inv_def cooling_def)

text \<open>What a limiter grants, and what probing and charging leave as its stored time.\<close>

definition grant :: "gcra \<Rightarrow> limiter \<Rightarrow> nat \<Rightarrow> instant \<Rightarrow> nat option" where
  "grant gcra lm n now = (case gcra (lm_rate lm) (max n 1) (now - lm_start lm) (lm_state lm) of
     Granted x \<Rightarrow> Some x | _ \<Rightarrow> None)"

lemma probe_state [simp]: "lm_state (fst (limiter_check gcra lm n False now)) = lm_state lm"
  by (simp add: limiter_check_def Let_def split: gcra_decision.splits)

lemma probe_wait:
  "(\<And>r n t s w. gcra r n t s = NotUntil w \<Longrightarrow> 0 < w) \<Longrightarrow>
   snd (limiter_check gcra lm n False now) = 0 \<longleftrightarrow> grant gcra lm n now \<noteq> None"
  by (auto simp: limiter_check_def grant_def Let_def split: gcra_decision.splits)

lemma charge_state:
  "grant gcra lm n now = Some x \<Longrightarrow>
   lm_state (fst (limiter_check gcra (fst (limiter_check gcra lm n False now)) n True now)) = Some x"
  by (auto simp: limiter_check_def grant_def Let_def split: gcra_decision.splits)

lemma query_result:
  fixes gcra cl bytes
  assumes "track b ip now = Some (c, True)" and "hm_get (bu_ips c) ip = Some s"
  defines "p1 \<equiv> limiter_check gcra (bu_queries c ! class_index cl) 1 False now"
    and "p2 \<equiv> limiter_check gcra (is_queries s) 1 False now"
    and "p3 \<equiv> limiter_check gcra (bu_query_bytes c) (bytes mod 2 ^ 32) False now"
  shows "\<exists>m1 m2 m3 d. query_observed gcra b cl ip bytes now =
      Some (c\<lparr>bu_queries := (bu_queries c)[class_index cl := m1],
        bu_ips := hm_put ip (s\<lparr>is_queries := m2\<rparr>) (bu_ips c), bu_query_bytes := m3\<rparr>, d) \<and>
      dc_wait d = max (max (snd p1) (snd p2)) (snd p3) \<and>
      (m1, m2, m3) = (if dc_wait d = 0
        then (fst (limiter_check gcra (fst p1) 1 True now), fst (limiter_check gcra (fst p2) 1 True now),
              fst (limiter_check gcra (fst p3) (bytes mod 2 ^ 32) True now))
        else (fst p1, fst p2, fst p3))"
  using assms(1,2) unfolding query_observed_def p1_def p2_def p3_def
  by (simp add: Let_def case_prod_beta)

lemma query_keeps:
  assumes "budget_inv b"
  shows "\<exists>b' d. query_observed gcra b cl ip bytes now = Some (b', d) \<and> keeps now b b'"
proof -
  obtain c ok where c: "track b ip now = Some (c, ok)" "keeps now b c" "ok \<longrightarrow> (\<exists>s. hm_get (bu_ips c) ip = Some s)"
    using track_effect [OF assms] by blast
  show ?thesis
  proof (cases ok)
    case True
    then obtain s where s: "hm_get (bu_ips c) ip = Some s" using c(3) by blast
    have "budget_inv c" using c(2) by (simp add: keeps_def)
    then have "keeps now c (c\<lparr>bu_queries := (bu_queries c)[class_index cl := m1],
        bu_ips := hm_put ip (s\<lparr>is_queries := m2\<rparr>) (bu_ips c), bu_query_bytes := m3\<rparr>)" for m1 m2 m3
      using s by (intro keeps_put) simp_all
    then show ?thesis using query_result [of b ip now c s gcra cl bytes] c(1) True s keeps_trans [OF c(2)]
      by metis
  next
    case False
    then show ?thesis using c by (simp add: query_observed_def)
  qed
qed

lemma admit_keeps:
  assumes "budget_inv b"
  shows "\<exists>b' r. admit_verification b ip now = Some (b', r) \<and> keeps now b b' \<and> (r \<longrightarrow> cooling b' ip (now + secs 60))"
proof -
  obtain c ok where c: "track b ip now = Some (c, ok)" "keeps now b c" "ok \<longrightarrow> (\<exists>s. hm_get (bu_ips c) ip = Some s)"
    using track_effect [OF assms] by blast
  show ?thesis
  proof (cases ok)
    case True
    then obtain s where s: "hm_get (bu_ips c) ip = Some s" using c(3) by blast
    have inv: "budget_inv c" using c(2) by (simp add: keeps_def)
    let ?cool = "case is_verification_until s of None \<Rightarrow> False | Some until \<Rightarrow> until > now"
    let ?new = "c\<lparr>bu_ips := hm_put ip (s\<lparr>is_verification_until := Some (now + secs 60)\<rparr>) (bu_ips c),
                  bu_verification_queued := bu_verification_queued c + 1\<rparr>"
    show ?thesis
    proof (cases "?cool \<or> bu_verification_queued c \<ge> bu_verification_limit c")
      case True
      then show ?thesis using c(1,2) \<open>ok\<close> s
        by (auto simp: admit_verification_def update_verification_def split: option.splits if_splits)
    next
      case False
      have "keeps now c ?new"
        using inv s False
        by (auto simp: keeps_def budget_inv_def cooling_def length_hm_put split: option.splits if_splits)
      moreover have "cooling ?new ip (now + secs 60)" by (simp add: cooling_def)
      moreover have "admit_verification b ip now =
          Some (update_verification (\<lambda>v. v\<lparr>vs_admitted := vs_admitted v + 1\<rparr>) ?new, True)"
        using c(1) \<open>ok\<close> s False by (simp add: admit_verification_def)
      ultimately show ?thesis using keeps_trans [OF c(2)]
        by (auto simp: update_verification_def cooling_def)
    qed
  next
    case False
    then show ?thesis using c by (simp add: admit_verification_def update_verification_def ex_bool_eq)
  qed
qed

lemma ordinary_keeps:
  assumes "budget_inv b"
  shows "\<exists>b' r. ordinary gcra b ip now = Some (b', r) \<and> keeps now b b'"
proof -
  obtain c ok where c: "track b ip now = Some (c, ok)" "keeps now b c" "ok \<longrightarrow> (\<exists>s. hm_get (bu_ips c) ip = Some s)"
    using track_effect [OF assms] by blast
  show ?thesis
  proof (cases ok)
    case True
    then obtain s where s: "hm_get (bu_ips c) ip = Some s" using c(3) by blast
    have inv: "budget_inv c" using c(2) by (simp add: keeps_def)
    have put: "keeps now c (c\<lparr>bu_inbound := l, bu_ips := hm_put ip (s\<lparr>is_inbound := l'\<rparr>) (bu_ips c)\<rparr>)" for l l'
      using inv s by (intro keeps_put) simp_all
    have "keeps now c (c\<lparr>bu_inbound := l\<rparr>)" for l using inv by (intro keeps_cong) simp_all
    then have "keeps now c b'" if "ordinary gcra b ip now = Some (b', r)" for b' r
      using that c(1) True s put
      by (auto simp: ordinary_def Let_def split: prod.splits if_splits)
    moreover have "\<exists>b' r. ordinary gcra b ip now = Some (b', r)"
      using c(1) True s by (auto simp: ordinary_def Let_def case_prod_beta)
    ultimately show ?thesis using keeps_trans [OF c(2)] by blast
  next
    case False
    then show ?thesis using c by (simp add: ordinary_def ex_bool_eq)
  qed
qed

lemma step_keeps:
  assumes inv: "budget_inv b" and adm: "budget_adm b x"
  shows "\<exists>b'. budget_step gcra b x = Some b' \<and> keeps (op_time x) b b'"
proof (cases x)
  case (BQuery cl ip bytes now)
  then show ?thesis using query_keeps [OF inv, of gcra cl ip bytes now] by auto
next
  case (BAdmit ip now)
  then show ?thesis using admit_keeps [OF inv, of ip now] by auto
next
  case (BInbound ip bytes pending now)
  have resp: "keeps now b (b\<lparr>bu_responses := l\<rparr>)" for l using inv by (intro keeps_cong) simp_all
  obtain c r where "(if pending then (let (l, w) = limiter_check gcra (bu_responses b) 1 True now
        in Some (b\<lparr>bu_responses := l\<rparr>, w = 0)) else ordinary gcra b ip now) = Some (c, r)" "keeps now b c"
    using resp ordinary_keeps [OF inv, of gcra ip now]
    by (cases pending; cases "limiter_check gcra (bu_responses b) 1 True now") auto
  then show ?thesis using BInbound by (simp add: inbound_def)
next
  case (BDisguised ip now)
  then show ?thesis using ordinary_keeps [OF inv, of gcra ip now]
    by (fastforce simp: disguised_query_def count_drop_def split: if_splits)
next
  case (BReply bytes now)
  then show ?thesis using inv
    by (auto simp: reply_def count_drop_def Let_def intro: keeps_cong split: prod.splits)
next
  case (BClean now)
  then show ?thesis using clean_keeps [OF inv] by simp
next
  case (BDropPermit now)
  then show ?thesis using inv adm by (auto simp: drop_permit_def keeps_def budget_inv_def cooling_def)
qed

interpretation budget_ops: panic_free_ops "budget_step gcra" budget_inv budget_adm for gcra
  by unfold_locales (metis step_keeps keeps_def)

section \<open>Properties of the quotas\<close>

text \<open>
  The combined check charges all quotas or none. A query of a tracked address is let through (wait
  0) exactly when the class, the address and the byte limiter each grant it, and then all three are
  charged; otherwise none of the three stored times moves. The hypothesis on \<open>gcra\<close> is that a refusal
  names a positive wait.
\<close>

theorem query_all_or_nothing:
  assumes "budget_inv b" and "\<And>r n t s w. gcra r n t s = NotUntil w \<Longrightarrow> 0 < w"
    and "track b ip now = Some (c, True)" and "hm_get (bu_ips c) ip = Some s"
  shows "\<exists>b' d s'. query_observed gcra b cl ip bytes now = Some (b', d) \<and> hm_get (bu_ips b') ip = Some s' \<and>
    (dc_wait d = 0 \<longleftrightarrow> grant gcra (bu_queries c ! class_index cl) 1 now \<noteq> None \<and>
       grant gcra (is_queries s) 1 now \<noteq> None \<and> grant gcra (bu_query_bytes c) (bytes mod 2 ^ 32) now \<noteq> None) \<and>
    (dc_wait d = 0 \<longrightarrow>
       lm_state (bu_queries b' ! class_index cl) = grant gcra (bu_queries c ! class_index cl) 1 now \<and>
       lm_state (is_queries s') = grant gcra (is_queries s) 1 now \<and>
       lm_state (bu_query_bytes b') = grant gcra (bu_query_bytes c) (bytes mod 2 ^ 32) now) \<and>
    (dc_wait d \<noteq> 0 \<longrightarrow>
       map lm_state (bu_queries b') = map lm_state (bu_queries c) \<and>
       lm_state (is_queries s') = lm_state (is_queries s) \<and> lm_state (bu_query_bytes b') = lm_state (bu_query_bytes c))"
proof -
  let ?k = "class_index cl" and ?n = "bytes mod 2 ^ 32"
  let ?p1 = "limiter_check gcra (bu_queries c ! ?k) 1 False now"
  let ?p2 = "limiter_check gcra (is_queries s) 1 False now"
  let ?p3 = "limiter_check gcra (bu_query_bytes c) ?n False now"
  obtain m1 m2 m3 d where q: "query_observed gcra b cl ip bytes now =
      Some (c\<lparr>bu_queries := (bu_queries c)[?k := m1],
        bu_ips := hm_put ip (s\<lparr>is_queries := m2\<rparr>) (bu_ips c), bu_query_bytes := m3\<rparr>, d)"
    and w: "dc_wait d = max (max (snd ?p1) (snd ?p2)) (snd ?p3)"
    and m: "(m1, m2, m3) = (if dc_wait d = 0
        then (fst (limiter_check gcra (fst ?p1) 1 True now), fst (limiter_check gcra (fst ?p2) 1 True now),
              fst (limiter_check gcra (fst ?p3) ?n True now))
        else (fst ?p1, fst ?p2, fst ?p3))"
    using query_result [OF assms(3,4), of gcra cl bytes] by blast
  have "budget_inv c" using track_effect [OF assms(1), of ip now] assms(3) by (auto simp: keeps_def)
  then have k: "?k < length (bu_queries c)" by (cases cl) (simp_all add: budget_inv_def)
  have granted: "dc_wait d = 0 \<longleftrightarrow> grant gcra (bu_queries c ! ?k) 1 now \<noteq> None \<and>
       grant gcra (is_queries s) 1 now \<noteq> None \<and> grant gcra (bu_query_bytes c) ?n now \<noteq> None"
  proof -
    have "snd (limiter_check gcra lm n False now) = 0 \<longleftrightarrow> grant gcra lm n now \<noteq> None" for lm n
      by (rule probe_wait) (rule assms(2))
    then show ?thesis by (simp add: w)
  qed
  show ?thesis
  proof (cases "dc_wait d = 0")
    case True
    then have "lm_state m1 = grant gcra (bu_queries c ! ?k) 1 now" "lm_state m2 = grant gcra (is_queries s) 1 now"
      "lm_state m3 = grant gcra (bu_query_bytes c) ?n now"
      using m granted by (auto simp: charge_state)
    then show ?thesis using q granted True k by simp
  next
    case False
    then have "lm_state m1 = lm_state (bu_queries c ! ?k)" "lm_state m2 = lm_state (is_queries s)"
      "lm_state m3 = lm_state (bu_query_bytes c)" using m by simp_all
    moreover from this(1) have "map lm_state ((bu_queries c)[?k := m1]) = map lm_state (bu_queries c)"
      using k by (simp add: map_update list_update_same_conv)
    ultimately show ?thesis using q granted False by simp
  qed
qed

text \<open>A budget with one limiter configuration, and a decision procedure that grants everything.\<close>

definition sample_limiter :: limiter where
  "sample_limiter = \<lparr>lm_rate = 5, lm_start = 0, lm_state = None, lm_commit = False\<rparr>"

definition sample_budget :: budget where
  "sample_budget = \<lparr>bu_queries = replicate 4 sample_limiter, bu_inbound = sample_limiter,
     bu_responses = sample_limiter, bu_query_bytes = sample_limiter, bu_reply_bytes = sample_limiter,
     bu_ips = [], bu_cleanup = 0, bu_total = stats_default, bu_interval = stats_default,
     bu_queued_current = replicate 4 0, bu_verification_queued = 0, bu_verification_limit = 10\<rparr>"

lemma sample_budget_inv: "budget_inv sample_budget"
  by (simp add: budget_inv_def sample_budget_def)

theorem query_all_or_nothing_witness:
  "\<exists>b' d. query_observed (\<lambda>r n t s. if t < 3 then NotUntil (3 - t) else Granted 9) sample_budget Control (IPV4 1) 50 7
     = Some (b', d) \<and> (dc_wait d = 0 \<longrightarrow> lm_state (bu_query_bytes b') = Some 9)"
proof -
  let ?g = "\<lambda>(r::nat) (n::nat) (t::nat) (s::nat option). if t < 3 then NotUntil (3 - t) else Granted 9"
  obtain c s where t: "track sample_budget (IPV4 1) 7 = Some (c, True)" "hm_get (bu_ips c) (IPV4 1) = Some s"
    "lm_start (bu_query_bytes c) = 0"
    by (simp add: track_def clean_def sample_budget_def sample_limiter_def Let_def hm_retain_def fresh_ip_def limiter_new_def)
  have g: "grant ?g (bu_query_bytes c) (50 mod 2 ^ 32) 7 = Some 9" using t(3) by (simp add: grant_def)
  have "\<And>r n t s w. ?g r n t s = NotUntil w \<Longrightarrow> 0 < w" by (auto split: if_splits)
  from query_all_or_nothing [OF sample_budget_inv this t(1,2), where cl = Control and bytes = 50] g
  show ?thesis by fastforce
qed

lemma run_cooling:
  "budget_inv b \<Longrightarrow> cooling b ip until \<Longrightarrow> \<forall>x\<in>set ops. op_time x < until \<Longrightarrow>
   ops_ok (budget_step gcra) budget_adm b ops \<Longrightarrow>
   \<exists>b'. run_ops (budget_step gcra) b ops = Some b' \<and> budget_inv b' \<and> cooling b' ip until"
proof (induction ops arbitrary: b)
  case (Cons x xs)
  obtain c where c: "budget_step gcra b x = Some c" "keeps (op_time x) b c"
    using step_keeps [OF Cons.prems(1), of x gcra] Cons.prems(4) by auto
  have "cooling c ip until" "budget_inv c" using c(2) Cons.prems(2,3) by (auto simp: keeps_def)
  with Cons.IH [of c] Cons.prems(3,4) c(1) show ?case by simp
qed auto

text \<open>
  One verification per address and minute. After an admission at \<open>t\<close>, whatever traffic of other
  and the same addresses, clean-ups and returned permits come before \<open>t + 60 s\<close>, no further
  verification of that address is admitted before then; the number of waiting verifications never
  exceeds its limit and the table never exceeds 10000 addresses.
\<close>

theorem verification_cooldown:
  assumes "budget_inv b" and "admit_verification b ip t = Some (b1, True)"
    and "ops_ok (budget_step gcra) budget_adm b1 ops" and "\<forall>x\<in>set ops. op_time x < t + secs 60"
    and "t' < t + secs 60"
  shows "\<exists>b2 b3. run_ops (budget_step gcra) b1 ops = Some b2 \<and> admit_verification b2 ip t' = Some (b3, False) \<and>
    bu_verification_queued b2 \<le> bu_verification_limit b2 \<and> length (bu_ips b2) \<le> 10000"
proof -
  have "budget_inv b1" "cooling b1 ip (t + secs 60)"
    using admit_keeps [OF assms(1), of ip t] assms(2) by (auto simp: keeps_def)
  from run_cooling [OF this assms(4,3)] obtain b2 where b2: "run_ops (budget_step gcra) b1 ops = Some b2"
    "budget_inv b2" "cooling b2 ip (t + secs 60)" by blast
  obtain c ok where c: "track b2 ip t' = Some (c, ok)" "keeps t' b2 c"
    "ok \<longrightarrow> (\<exists>s. hm_get (bu_ips c) ip = Some s)"
    using track_effect [OF b2(2)] by blast
  have "cooling c ip (t + secs 60)" using c(2) b2(3) assms(5) by (simp add: keeps_def)
  then obtain s where "hm_get (bu_ips c) ip = Some s" "is_verification_until s = Some (t + secs 60)"
    by (auto simp: cooling_def)
  then have "\<exists>b3. admit_verification b2 ip t' = Some (b3, False)"
    using c(1) assms(5) by (cases ok) (simp_all add: admit_verification_def)
  then show ?thesis using b2 by (auto simp: budget_inv_def)
qed

theorem verification_cooldown_witness:
  "\<exists>b1 b2 b3. admit_verification sample_budget (IPV4 1) 5 = Some (b1, True) \<and>
     run_ops (budget_step (\<lambda>r n t s. Granted 9)) b1 [BDropPermit 6, BClean (secs 30)] = Some b2 \<and>
     admit_verification b2 (IPV4 1) (secs 59) = Some (b3, False)"
proof -
  obtain b1 where b1: "admit_verification sample_budget (IPV4 1) 5 = Some (b1, True)" "bu_verification_queued b1 = 1"
    by (simp add: admit_verification_def track_def clean_def sample_budget_def sample_limiter_def Let_def
        hm_retain_def fresh_ip_def limiter_new_def hm_has_def update_verification_def)
  have "ops_ok (budget_step (\<lambda>r n t s. Granted 9)) budget_adm b1 [BDropPermit 6, BClean (secs 30)]"
    using b1(2) by (simp add: drop_permit_def)
  from verification_cooldown [OF sample_budget_inv b1(1) this, of "secs 59"] b1(1) show ?thesis by fastforce
qed

section \<open>Accounting of queued intents\<close>

text \<open>The tickets alive, each in the hands of one queued intent.\<close>

datatype ticket_op = TNew traffic_class instant | TFinish nat nat | TBlocked nat u8 | TDrop nat instant

fun ticket_step :: "budget \<times> queue_record list \<Rightarrow> ticket_op \<Rightarrow> (budget \<times> queue_record list) option" where
  "ticket_step (b, qs) (TNew cl now) = (case queue_ticket b cl now of (b', q) \<Rightarrow> Some (b', qs @ [q]))"
| "ticket_step (b, qs) (TFinish i outcome) = Some (b, qs[i := ticket_finish (qs ! i) outcome])"
| "ticket_step (b, qs) (TBlocked i reasons) =
     (case ticket_blocked b (qs ! i) reasons of (b', q) \<Rightarrow> Some (b', qs[i := q]))"
| "ticket_step (b, qs) (TDrop i now) =
     map_option (\<lambda>b'. (b', take i qs @ drop (Suc i) qs)) (ticket_drop b (qs ! i) now)"

text \<open>Only a live ticket is used, with one of the four outcomes.\<close>

fun ticket_adm :: "budget \<times> queue_record list \<Rightarrow> ticket_op \<Rightarrow> bool" where
  "ticket_adm (b, qs) (TNew cl now) = True"
| "ticket_adm (b, qs) (TFinish i outcome) = (i < length qs \<and> outcome < 4)"
| "ticket_adm (b, qs) (TBlocked i reasons) = (i < length qs)"
| "ticket_adm (b, qs) (TDrop i now) = (i < length qs)"

definition alive :: "queue_record list \<Rightarrow> nat \<Rightarrow> nat" where
  "alive qs k = length (filter (\<lambda>q. class_index (qr_class q) = k) qs)"

definition balanced :: "stats \<Rightarrow> nat list \<Rightarrow> bool" where
  "balanced s current \<longleftrightarrow> length (st_queued s) = 4 \<and> length (st_queue_finished s) = 4 \<and>
     (\<forall>k<4. length (st_queue_finished s ! k) = 4 \<and>
        st_queued s ! k = sum_list (st_queue_finished s ! k) + current ! k)"

fun ticket_inv :: "budget \<times> queue_record list \<Rightarrow> bool" where
  "ticket_inv (b, qs) \<longleftrightarrow> length (bu_queued_current b) = 4 \<and> balanced (bu_total b) (bu_queued_current b) \<and>
     (\<forall>k<4. bu_queued_current b ! k = alive qs k) \<and> (\<forall>q\<in>set qs. qr_outcome q < 4)"

lemma class_index_less [simp]: "class_index cl < 4"
  by (cases cl) auto

lemma bump_nth: "k < length xs \<Longrightarrow> bump k n xs ! j = (if j = k then xs ! k + n else xs ! j)"
  by (auto simp: bump_def nth_list_update)

lemma bump_sum: "k < length xs \<Longrightarrow> sum_list (bump k n xs) = sum_list xs + n"
  by (simp add: bump_def sum_list_update)

lemma length_bump [simp]: "length (bump k n xs) = length xs" "length (bump2 k l xss) = length xss"
  by (simp_all add: bump_def bump2_def)

lemma alive_update:
  "i < length qs \<Longrightarrow> qr_class q = qr_class (qs ! i) \<Longrightarrow> alive (qs[i := q]) k = alive qs k"
proof -
  assume i: "i < length qs" and c: "qr_class q = qr_class (qs ! i)"
  have "map qr_class (qs[i := q]) = map qr_class qs" using i c by (simp add: map_update list_update_same_conv)
  then have "length (filter (\<lambda>c. class_index c = k) (map qr_class (qs[i := q]))) =
      length (filter (\<lambda>c. class_index c = k) (map qr_class qs))" by simp
  then show ?thesis by (simp add: alive_def filter_map comp_def)
qed

lemma alive_remove:
  "i < length qs \<Longrightarrow> alive qs k = alive (take i qs @ drop (Suc i) qs) k + (if class_index (qr_class (qs ! i)) = k then 1 else 0)"
  by (subst (1) id_take_nth_drop [of i qs]) (auto simp: alive_def)

lemma fold_blocked_fields:
  "st_queued (fold (\<lambda>index s. if p index then s\<lparr>st_blocked := bump2 k index (st_blocked s)\<rparr> else s) is s) = st_queued s"
  "st_queue_finished (fold (\<lambda>index s. if p index then s\<lparr>st_blocked := bump2 k index (st_blocked s)\<rparr> else s) is s) = st_queue_finished s"
  by (induction "is" arbitrary: s) auto

interpretation tickets: panic_free_ops ticket_step ticket_inv ticket_adm
proof unfold_locales
  fix st x
  assume inv: "ticket_inv st" and adm: "ticket_adm st x"
  obtain b qs where st: "st = (b, qs)" by (cases st)
  note inv = inv [unfolded st ticket_inv.simps]
  show "\<exists>t. ticket_step st x = Some t \<and> ticket_inv t"
  proof (cases x)
    case (TNew cl now)
    then show ?thesis using inv
      by (auto simp: st queue_ticket_def update_stats_def balanced_def bump_nth alive_def)
  next
    case (TFinish i outcome)
    then show ?thesis using inv adm
      by (auto simp: st ticket_finish_def alive_update dest!: set_update_subset_insert [THEN subsetD])
  next
    case (TBlocked i reasons)
    then show ?thesis using inv adm
      by (auto simp: st ticket_blocked_def update_stats_def alive_update balanced_def fold_blocked_fields Let_def
          dest!: set_update_subset_insert [THEN subsetD])
  next
    case (TDrop i now)
    let ?q = "qs ! i" and ?qs = "take i qs @ drop (Suc i) qs"
    let ?k = "class_index (qr_class ?q)"
    have i: "i < length qs" using adm TDrop by (simp add: st)
    have rem: "alive qs k = alive ?qs k + (if ?k = k then 1 else 0)" for k by (rule alive_remove [OF i])
    have pos: "bu_queued_current b ! ?k \<noteq> 0" and out: "qr_outcome ?q < 4" using inv rem i by auto
    then obtain b' where b': "ticket_drop b ?q now = Some b'" by (simp add: ticket_drop_def Let_def)
    have cur: "bu_queued_current b' = (bu_queued_current b)[?k := bu_queued_current b ! ?k - 1]"
      and q: "st_queued (bu_total b') = st_queued (bu_total b)"
      and f: "st_queue_finished (bu_total b') = bump2 ?k (qr_outcome ?q) (st_queue_finished (bu_total b))"
      using b' by (auto simp: ticket_drop_def update_stats_def Let_def split: if_splits)
    have "balanced (bu_total b') (bu_queued_current b')"
      using inv pos out unfolding balanced_def cur q f
      by (auto simp: bump2_def nth_list_update bump_sum)
    moreover have "bu_queued_current b' ! k = alive ?qs k" if "k < 4" for k
      using inv rem [of k] that unfolding cur by (auto simp: nth_list_update)
    moreover have "\<forall>q\<in>set ?qs. qr_outcome q < 4" using inv by (auto dest: in_set_takeD in_set_dropD)
    ultimately show ?thesis using b' cur inv TDrop by (simp add: st)
  qed
qed

text \<open>
  The queue statistics balance. From a fresh budget, after any history of queued intents, their
  blocked probes, outcomes and drops, each class has as many intents queued in total as it has finished
  (over the four outcomes) plus those still waiting, the gauge of waiting intents equals the tickets
  alive, and returning a ticket never underflows it.
\<close>

theorem queue_accounting:
  assumes "budget_new config t0 = Some (Inr b0)" and "ops_ok ticket_step ticket_adm (b0, []) ops"
  shows "\<exists>b qs. run_ops ticket_step (b0, []) ops = Some (b, qs) \<and>
    (\<forall>k<4. bu_queued_current b ! k = alive qs k \<and>
       st_queued (bu_total b) ! k = sum_list (st_queue_finished (bu_total b) ! k) + alive qs k)"
proof -
  have "bu_total b0 = stats_default \<and> bu_queued_current b0 = replicate 4 0"
    using assms(1) by (auto simp: budget_new_def split: sum.splits option.splits list.splits)
  then have "ticket_inv (b0, [])" by (auto simp: balanced_def stats_default_def alive_def sum_list_replicate)
  from tickets.safe_run [OF this assms(2)] show ?thesis by (auto simp: balanced_def)
qed

theorem queue_accounting_witness:
  "\<exists>b0 b qs. budget_new default_traffic_config 0 = Some (Inr b0) \<and>
     run_ops ticket_step (b0, []) [TNew Control 1, TNew Sampling 2, TFinish 0 2, TDrop 0 9] = Some (b, qs) \<and>
     bu_queued_current b ! 2 = alive qs 2"
proof -
  obtain b0 where b0: "budget_new default_traffic_config 0 = Some (Inr b0)"
    "bu_queued_current b0 = replicate 4 0"
    by (simp add: budget_new_def validate_config_def default_traffic_config_def config_classes_def limiter_new_def)
  have "ops_ok ticket_step ticket_adm (b0, []) [TNew Control 1, TNew Sampling 2, TFinish 0 2, TDrop 0 9]"
    using b0(2) by (simp add: queue_ticket_def ticket_drop_def split: option.splits)
  from queue_accounting [OF b0(1) this] b0(1) show ?thesis by fastforce
qed

end
