(* ===== verification/Ordering.thy ===== *)
theory Ordering imports Bytes begin

text \<open>
  The key-order normalisation of KRPC datagrams (\<open>src/dht/udp/ordering.rs\<close>) and of extension
  handshakes (\<open>src/collection/peer/wire/extension_ordering.rs\<close>): one reader of bencode containers,
  with the atoms left to \<open>bendy\<close>. The first object that a decoder finds is the parameter
  \<open>next_object\<close>; a panic of \<open>split_at\<close> and running out of fuel are the value \<open>None\<close>, and the
  fuel \<open>2 * length input + 1\<close> is enough because every second call consumes input (\<open>read_total\<close>). A
  \<open>BTreeMap\<close> is a list sorted by key.
\<close>

section \<open>Reading\<close>

datatype object = OBytes bytes | OInteger bytes | OContainer

text \<open>\<open>Decoder::next_object\<close>: \<open>None\<close> is an error, \<open>Some None\<close> the end of the input.\<close>

type_synonym object_reader = "bytes \<Rightarrow> object option option"

datatype ordering_error = DepthExceeded | KeyNotBytes | DuplicateKey | NotAtomStart | NotAtom | DecodeError
  | TrailingBytes | HeaderLimit

definition B_D :: u8 where "B_D = 100"
definition B_E :: u8 where "B_E = 101"
definition B_I :: u8 where "B_I = 105"
definition B_L :: u8 where "B_L = 108"
definition B_0 :: u8 where "B_0 = 48"
definition B_9 :: u8 where "B_9 = 57"
definition B_COLON :: u8 where "B_COLON = 58"

datatype bvalue = Atom bytes | BList "bvalue list" | BDict "(bytes \<times> bytes \<times> bvalue) list"

fun ilog10 :: "nat \<Rightarrow> nat" where
  "ilog10 n = (if n < 10 then 0 else Suc (ilog10 (n div 10)))"

declare ilog10.simps [simp del]

definition digits :: "nat \<Rightarrow> nat" where
  "digits n = (if n = 0 then 0 else ilog10 n) + 1"

definition atom_start :: "bytes \<Rightarrow> bool" where
  "atom_start inp = (case inp of [] \<Rightarrow> False | b # _ \<Rightarrow> b = B_I \<or> (B_0 \<le> b \<and> b \<le> B_9))"

definition read_atom :: "object_reader \<Rightarrow> bytes \<Rightarrow> (ordering_error + (bytes \<times> bytes option \<times> bytes)) option" where
  "read_atom nx inp =
     (if \<not> atom_start inp then Some (Inl NotAtomStart)
      else case nx inp of
        None \<Rightarrow> Some (Inl DecodeError)
      | Some (Some (OBytes bs)) \<Rightarrow>
          (let n = digits (length bs) + 1 + length bs in
           if length inp < n then None else Some (Inr (take n inp, Some bs, drop n inp)))
      | Some (Some (OInteger num)) \<Rightarrow>
          (let n = length num + 2 in
           if length inp < n then None else Some (Inr (take n inp, None, drop n inp)))
      | _ \<Rightarrow> Some (Inl NotAtom))"

fun entry_insert :: "bytes \<Rightarrow> bytes \<Rightarrow> bvalue \<Rightarrow> (bytes \<times> bytes \<times> bvalue) list \<Rightarrow> (bytes \<times> bytes \<times> bvalue) list" where
  "entry_insert k ek v [] = [(k, ek, v)]"
| "entry_insert k ek v ((k', ek', v') # es) =
     (if k < k' then (k, ek, v) # (k', ek', v') # es
      else if k = k' then (k, ek, v) # es
      else (k', ek', v') # entry_insert k ek v es)"

function (sequential) read_value :: "object_reader \<Rightarrow> nat \<Rightarrow> nat \<Rightarrow> bytes \<Rightarrow> nat \<Rightarrow> (ordering_error + (bvalue \<times> bytes)) option"
  and read_pairs :: "object_reader \<Rightarrow> nat \<Rightarrow> nat \<Rightarrow> bytes \<Rightarrow> nat \<Rightarrow> (bytes \<times> bytes \<times> bvalue) list
    \<Rightarrow> (ordering_error + (bvalue \<times> bytes)) option"
  and read_items :: "object_reader \<Rightarrow> nat \<Rightarrow> nat \<Rightarrow> bytes \<Rightarrow> nat \<Rightarrow> bvalue list
    \<Rightarrow> (ordering_error + (bvalue \<times> bytes)) option" where
  "read_value nx limit 0 inp depth = None"
| "read_value nx limit (Suc n) inp depth =
     (if inp \<noteq> [] \<and> (hd inp = B_D \<or> hd inp = B_L) then
        (if depth \<ge> limit then Some (Inl DepthExceeded)
         else if hd inp = B_D then read_pairs nx limit n (tl inp) depth []
         else read_items nx limit n (tl inp) depth [])
      else (case read_atom nx inp of
          None \<Rightarrow> None
        | Some (Inl e) \<Rightarrow> Some (Inl e)
        | Some (Inr (enc, _, rest)) \<Rightarrow> Some (Inr (Atom enc, rest))))"
| "read_pairs nx limit 0 inp depth es = None"
| "read_pairs nx limit (Suc n) inp depth es =
     (if inp \<noteq> [] \<and> hd inp = B_E then Some (Inr (BDict es, tl inp))
      else (case read_atom nx inp of
          None \<Rightarrow> None
        | Some (Inl e) \<Rightarrow> Some (Inl e)
        | Some (Inr (enc, None, rest)) \<Rightarrow> Some (Inl KeyNotBytes)
        | Some (Inr (enc, Some key, rest)) \<Rightarrow>
            if key \<in> fst ` set es then Some (Inl DuplicateKey)
            else (case read_value nx limit n rest (depth + 1) of
                None \<Rightarrow> None
              | Some (Inl e) \<Rightarrow> Some (Inl e)
              | Some (Inr (v, rest')) \<Rightarrow> read_pairs nx limit n rest' depth (entry_insert key enc v es))))"
| "read_items nx limit 0 inp depth vs = None"
| "read_items nx limit (Suc n) inp depth vs =
     (if inp \<noteq> [] \<and> hd inp = B_E then Some (Inr (BList vs, tl inp))
      else (case read_value nx limit n inp (depth + 1) of
          None \<Rightarrow> None
        | Some (Inl e) \<Rightarrow> Some (Inl e)
        | Some (Inr (v, rest)) \<Rightarrow> read_items nx limit n rest depth (vs @ [v])))"
  by pat_completeness auto
termination
  by (relation "measure (case_sum (\<lambda>(_, _, n, _, _). n)
      (case_sum (\<lambda>(_, _, n, _, _, _). n) (\<lambda>(_, _, n, _, _, _). n)))") simp_all

fun write_value :: "bvalue \<Rightarrow> bytes"
  and write_list :: "bvalue list \<Rightarrow> bytes"
  and write_entries :: "(bytes \<times> bytes \<times> bvalue) list \<Rightarrow> bytes" where
  "write_value (Atom enc) = enc"
| "write_value (BList vs) = [B_L] @ write_list vs @ [B_E]"
| "write_value (BDict es) = [B_D] @ write_entries es @ [B_E]"
| "write_list [] = []"
| "write_list (v # vs) = write_value v @ write_list vs"
| "write_entries [] = []"
| "write_entries ((_, ek, v) # es) = ek @ write_value v @ write_entries es"

definition MAX_DEPTH :: nat where
  "MAX_DEPTH = 64"

definition normalize :: "object_reader \<Rightarrow> bytes \<Rightarrow> (ordering_error + bytes) option" where
  "normalize nx inp =
     (case read_value nx MAX_DEPTH (2 * length inp + 1) inp 0 of
        None \<Rightarrow> None
      | Some (Inl e) \<Rightarrow> Some (Inl e)
      | Some (Inr (v, rest)) \<Rightarrow> if rest \<noteq> [] then Some (Inl TrailingBytes) else Some (Inr (write_value v)))"

definition normalize_extension :: "object_reader \<Rightarrow> bytes \<Rightarrow> nat \<Rightarrow> nat \<Rightarrow> (ordering_error + bytes) option" where
  "normalize_extension nx inp header_limit depth =
     (if length inp > min header_limit 4096 \<or> \<not> (inp \<noteq> [] \<and> hd inp = B_D) then Some (Inl HeaderLimit)
      else (case read_value nx (min depth 64) (2 * length inp + 1) inp 0 of
        None \<Rightarrow> None
      | Some (Inl e) \<Rightarrow> Some (Inl e)
      | Some (Inr (v, rest)) \<Rightarrow> if rest \<noteq> [] then Some (Inl TrailingBytes) else Some (Inr (write_value v))))"

section \<open>What a read value is\<close>

fun bvalue_depth :: "bvalue \<Rightarrow> nat"
  and depth_list :: "bvalue list \<Rightarrow> nat"
  and depth_entries :: "(bytes \<times> bytes \<times> bvalue) list \<Rightarrow> nat" where
  "bvalue_depth (Atom _) = 0"
| "bvalue_depth (BList vs) = Suc (depth_list vs)"
| "bvalue_depth (BDict es) = Suc (depth_entries es)"
| "depth_list [] = 0"
| "depth_list (v # vs) = max (bvalue_depth v) (depth_list vs)"
| "depth_entries [] = 0"
| "depth_entries ((_, _, v) # es) = max (bvalue_depth v) (depth_entries es)"

fun keys_sorted :: "bvalue \<Rightarrow> bool"
  and sorted_list :: "bvalue list \<Rightarrow> bool"
  and sorted_entries :: "(bytes \<times> bytes \<times> bvalue) list \<Rightarrow> bool" where
  "keys_sorted (Atom _) = True"
| "keys_sorted (BList vs) = sorted_list vs"
| "keys_sorted (BDict es) = (sorted_wrt (<) (map fst es) \<and> sorted_entries es)"
| "sorted_list [] = True"
| "sorted_list (v # vs) = (keys_sorted v \<and> sorted_list vs)"
| "sorted_entries [] = True"
| "sorted_entries ((_, _, v) # es) = (keys_sorted v \<and> sorted_entries es)"

lemma list_append [simp]:
  "write_list (vs @ ws) = write_list vs @ write_list ws"
  "sorted_list (vs @ ws) = (sorted_list vs \<and> sorted_list ws)"
  "depth_list (vs @ ws) = max (depth_list vs) (depth_list ws)"
  by (induction vs) auto

lemma entry_insert_keys: "fst ` set (entry_insert k ek v es) = insert k (fst ` set es)"
  by (induction k ek v es rule: entry_insert.induct) (simp_all add: insert_commute)

lemma entry_insert_sorted:
  "sorted_wrt (<) (map fst es) \<Longrightarrow> sorted_wrt (<) (map fst (entry_insert k ek v es))"
proof (induction es)
  case (Cons e es)
  obtain k' ek' v' where e: "e = (k', ek', v')" by (cases e)
  have "fst ` set (entry_insert k ek v es) = insert k (fst ` set es)" by (rule entry_insert_keys)
  with Cons show ?case by (force simp: e)
qed simp

lemma entry_insert_entries:
  "sorted_entries es \<Longrightarrow> keys_sorted v \<Longrightarrow> sorted_entries (entry_insert k ek v es)"
  "depth_entries (entry_insert k ek v es) \<le> max (bvalue_depth v) (depth_entries es)"
  by (induction es) auto

lemma entry_insert_mset:
  "k \<notin> fst ` set es \<Longrightarrow> mset (entry_insert k ek v es) = add_mset (k, ek, v) (mset es)"
  by (induction k ek v es rule: entry_insert.induct) auto

lemma read_atom_split:
  "read_atom nx inp = Some (Inr (enc, key, rest)) \<Longrightarrow> inp = enc @ rest \<and> enc \<noteq> []"
  by (auto simp: read_atom_def Let_def split: if_splits option.splits object.splits)

section \<open>Totality\<close>

text \<open>The decimal digits of a length, as bencode writes them.\<close>

fun decimal :: "nat \<Rightarrow> bytes" where
  "decimal n = (if n < 10 then [B_0 + of_nat n] else decimal (n div 10) @ [B_0 + of_nat (n mod 10)])"

declare decimal.simps [simp del]

lemma length_decimal: "length (decimal n) = digits n"
proof -
  have "length (decimal n) = ilog10 n + 1"
    by (induction n rule: decimal.induct) (subst decimal.simps, subst ilog10.simps, simp)
  moreover have "ilog10 0 = 0" by (simp add: ilog10.simps)
  ultimately show ?thesis by (simp add: digits_def)
qed

text \<open>
  What the source relies on in \<open>Decoder::next_object\<close>: an atom that it returns stands, in its only
  admitted encoding, at the beginning of the input.
\<close>

definition reader_ok :: "object_reader \<Rightarrow> bool" where
  "reader_ok nx \<longleftrightarrow>
     (\<forall>inp bs. nx inp = Some (Some (OBytes bs)) \<longrightarrow> (\<exists>rest. inp = decimal (length bs) @ [B_COLON] @ bs @ rest)) \<and>
     (\<forall>inp num. nx inp = Some (Some (OInteger num)) \<longrightarrow> (\<exists>rest. inp = [B_I] @ num @ [B_E] @ rest))"

lemma read_atom_total: "reader_ok nx \<Longrightarrow> read_atom nx inp \<noteq> None"
proof -
  assume ok: "reader_ok nx"
  have "digits (length bs) + 1 + length bs \<le> length inp" if "nx inp = Some (Some (OBytes bs))" for bs
    using ok that unfolding reader_ok_def by (fastforce simp: length_decimal)
  moreover have "length num + 2 \<le> length inp" if "nx inp = Some (Some (OInteger num))" for num
    using ok that unfolding reader_ok_def by fastforce
  moreover have "(\<exists>bs. nx inp = Some (Some (OBytes bs)) \<and> length inp < digits (length bs) + 1 + length bs) \<or>
      (\<exists>num. nx inp = Some (Some (OInteger num)) \<and> length inp < length num + 2)" if "read_atom nx inp = None"
    using that by (auto simp: read_atom_def Let_def split: option.splits object.splits if_splits)
  ultimately show ?thesis by (meson not_less)
qed

lemma read_consumes:
  "read_value nx limit n inp depth = Some (Inr (v, rest)) \<Longrightarrow> length rest < length inp"
  "read_pairs nx limit n inp depth es = Some (Inr (v, rest)) \<Longrightarrow> length rest < length inp"
  "read_items nx limit n inp depth vs = Some (Inr (v, rest)) \<Longrightarrow> length rest < length inp"
proof (induction nx limit n inp depth and nx limit n inp depth es and nx limit n inp depth vs
    arbitrary: v rest and v rest and v rest rule: read_value_read_pairs_read_items.induct)
  case (2 nx limit n inp depth)
  show ?case
  proof (cases "inp \<noteq> [] \<and> (hd inp = B_D \<or> hd inp = B_L)")
    case True
    then show ?thesis using "2.prems" "2.IH"(1) [OF True _ _, of v rest] "2.IH"(2) [OF True _ _, of v rest]
      by (cases inp) (auto split: if_splits)
  next
    case False
    then obtain enc key where "read_atom nx inp = Some (Inr (enc, key, rest))"
      using "2.prems" by (auto split: option.splits sum.splits)
    then show ?thesis using read_atom_split by fastforce
  qed
next
  case (4 nx limit n inp depth es)
  show ?case
  proof (cases "inp \<noteq> [] \<and> hd inp = B_E")
    case True
    then show ?thesis using "4.prems" by (cases inp) auto
  next
    case False
    then obtain enc key r1 w r2 where a: "read_atom nx inp = Some (Inr (enc, Some key, r1))"
      and k: "key \<notin> fst ` set es" and w: "read_value nx limit n r1 (depth + 1) = Some (Inr (w, r2))"
      and p: "read_pairs nx limit n r2 depth (entry_insert key enc w es) = Some (Inr (v, rest))"
      using "4.prems" by (auto split: option.splits sum.splits if_splits)
    note IH = "4.IH" [OF False a refl refl refl refl k]
    from IH(1) [OF w] IH(2) [OF w refl refl p] read_atom_split [OF a] show ?thesis by auto
  qed
next
  case (6 nx limit n inp depth vs)
  show ?case
  proof (cases "inp \<noteq> [] \<and> hd inp = B_E")
    case True
    then show ?thesis using "6.prems" by (cases inp) auto
  next
    case False
    then obtain w r1 where w: "read_value nx limit n inp (depth + 1) = Some (Inr (w, r1))"
      and p: "read_items nx limit n r1 depth (vs @ [w]) = Some (Inr (v, rest))"
      using "6.prems" by (auto split: option.splits sum.splits)
    from "6.IH"(1) [OF False w] "6.IH"(2) [OF False w refl refl p] show ?thesis by simp
  qed
qed simp_all

lemma read_total:
  "reader_ok nx \<Longrightarrow> 2 * length inp < n \<Longrightarrow> read_value nx limit n inp depth \<noteq> None"
  "reader_ok nx \<Longrightarrow> 2 * length inp < n \<Longrightarrow> read_pairs nx limit n inp depth es \<noteq> None"
  "reader_ok nx \<Longrightarrow> 2 * length inp + 1 < n \<Longrightarrow> read_items nx limit n inp depth vs \<noteq> None"
proof (induction nx limit n inp depth and nx limit n inp depth es and nx limit n inp depth vs
    rule: read_value_read_pairs_read_items.induct)
  case (2 nx limit n inp depth)
  show ?case
  proof (cases "inp \<noteq> [] \<and> (hd inp = B_D \<or> hd inp = B_L)")
    case True
    then have "2 * length (tl inp) < n" "2 * length (tl inp) + 1 < n" using "2.prems"(2) by (cases inp; simp)+
    then show ?thesis using "2.prems"(1) "2.IH"(1) [OF True] "2.IH"(2) [OF True] True by simp
  next
    case False
    then show ?thesis using read_atom_total [OF "2.prems"(1), of inp]
      by (auto split: option.splits sum.splits)
  qed
next
  case (4 nx limit n inp depth es)
  show ?case
  proof (cases "inp \<noteq> [] \<and> hd inp = B_E")
    case False
    obtain x where x: "read_atom nx inp = Some x" using read_atom_total [OF "4.prems"(1), of inp] by auto
    show ?thesis
    proof (cases "\<exists>enc key r1. x = Inr (enc, Some key, r1) \<and> key \<notin> fst ` set es")
      case True
      then obtain enc key r1 where a: "read_atom nx inp = Some (Inr (enc, Some key, r1))"
        and k: "key \<notin> fst ` set es" using x by blast
      note IH = "4.IH" [OF False a refl refl refl refl k]
      have l1: "2 * length r1 < n" using read_atom_split [OF a] "4.prems"(2) by (cases enc) auto
      obtain y where y: "read_value nx limit n r1 (depth + 1) = Some y" using IH(1) "4.prems"(1) l1 by blast
      show ?thesis
      proof (cases y)
        case (Inl e)
        then show ?thesis using False a k y by simp
      next
        case (Inr p)
        obtain w r2 where p: "p = (w, r2)" by (cases p)
        have w: "read_value nx limit n r1 (depth + 1) = Some (Inr (w, r2))" using y Inr p by simp
        have "2 * length r2 < n" using read_consumes(1) [OF w] l1 by simp
        from IH(2) [OF w refl refl "4.prems"(1) this] show ?thesis using False a k w by simp
      qed
    next
      case False
      then show ?thesis using x \<open>\<not> (inp \<noteq> [] \<and> hd inp = B_E)\<close>
        by (auto split: sum.splits option.splits)
    qed
  qed simp
next
  case (6 nx limit n inp depth vs)
  show ?case
  proof (cases "inp \<noteq> [] \<and> hd inp = B_E")
    case False
    have l: "2 * length inp < n" using "6.prems"(2) by simp
    obtain y where y: "read_value nx limit n inp (depth + 1) = Some y"
      using "6.IH"(1) [OF False "6.prems"(1) l] by blast
    show ?thesis
    proof (cases y)
      case (Inl e)
      then show ?thesis using False y by simp
    next
      case (Inr p)
      obtain w r1 where p: "p = (w, r1)" by (cases p)
      have w: "read_value nx limit n inp (depth + 1) = Some (Inr (w, r1))" using y Inr p by simp
      have "2 * length r1 + 1 < n" using read_consumes(1) [OF w] "6.prems"(2) by simp
      from "6.IH"(2) [OF False w refl refl "6.prems"(1) this] show ?thesis using False w by simp
    qed
  qed simp
qed simp_all

lemma normalize_total:
  assumes "reader_ok nx"
  shows "\<exists>r. normalize nx inp = Some r" and "\<exists>r. normalize_extension nx inp header_limit depth = Some r"
proof -
  have "\<exists>y. read_value nx l (2 * length inp + 1) inp 0 = Some y" for l
    using read_total(1) [OF assms, of inp "2 * length inp + 1"] by auto
  then obtain y z where "read_value nx 64 (2 * length inp + 1) inp 0 = Some y"
    "read_value nx (min depth 64) (2 * length inp + 1) inp 0 = Some z" by metis
  note read = this
  show "\<exists>r. normalize nx inp = Some r" unfolding normalize_def MAX_DEPTH_def read by (simp split: sum.split prod.split)
  show "\<exists>r. normalize_extension nx inp header_limit depth = Some r"
    unfolding normalize_extension_def read by (simp split: sum.split prod.split)
qed

end
