(* ===== verification/OrderingProps.thy ===== *)
theory OrderingProps imports Ordering begin

text \<open>
  What the normalisation accepts and returns: exactly the encodings of values without duplicate keys that are not nested too
  deep, and the encoding of the same value with sorted keys.
\<close>

section \<open>Encodings\<close>

definition string_token :: "bytes \<Rightarrow> bytes" where
  "string_token bs = decimal (length bs) @ [B_COLON] @ bs"

definition integer_token :: "bytes \<Rightarrow> bytes" where
  "integer_token num = [B_I] @ num @ [B_E]"

definition plain_number :: "bytes \<Rightarrow> bool" where
  "plain_number num \<longleftrightarrow> num \<noteq> [] \<and> (\<forall>b\<in>set num. b = 45 \<or> (B_0 \<le> b \<and> b \<le> B_9))"

text \<open>
  \<open>writes V v x\<close>: the bytes \<open>x\<close> are a bencode encoding of \<open>v\<close> in which the entries of each
  dictionary stand in any order. \<open>V\<close> are the numbers that the decoder admits; an atom is the encoding of a string or of
  one of these numbers, and the key of an entry is the string that its encoded key carries.
\<close>

inductive writes :: "bytes set \<Rightarrow> bvalue \<Rightarrow> bytes \<Rightarrow> bool"
  and writes_list :: "bytes set \<Rightarrow> bvalue list \<Rightarrow> bytes \<Rightarrow> bool"
  and writes_pairs :: "bytes set \<Rightarrow> (bytes \<times> bytes \<times> bvalue) list \<Rightarrow> bytes \<Rightarrow> bool" for V where
  w_string: "writes V (Atom (string_token bs)) (string_token bs)"
| w_number: "num \<in> V \<Longrightarrow> writes V (Atom (integer_token num)) (integer_token num)"
| w_list: "writes_list V vs xs \<Longrightarrow> writes V (BList vs) (B_L # xs @ [B_E])"
| w_dict: "writes_pairs V es' xs \<Longrightarrow> mset es' = mset es \<Longrightarrow> writes V (BDict es) (B_D # xs @ [B_E])"
| wl_nil: "writes_list V [] []"
| wl_cons: "writes V v x \<Longrightarrow> writes_list V vs xs \<Longrightarrow> writes_list V (v # vs) (x @ xs)"
| wp_nil: "writes_pairs V [] []"
| wp_cons: "writes V v x \<Longrightarrow> writes_pairs V es xs \<Longrightarrow> writes_pairs V ((k, string_token k, v) # es) (string_token k @ x @ xs)"

inductive_cases writes_listE: "writes_list V vs xs"
inductive_cases writes_pairsE: "writes_pairs V es xs"

lemma writes_list_snoc: "writes_list V vs xs \<Longrightarrow> writes V v x \<Longrightarrow> writes_list V (vs @ [v]) (xs @ x)"
proof (induction vs arbitrary: xs)
  case Nil
  from Nil.prems(1) have "xs = []" by (cases rule: writes_listE) auto
  then show ?case using wl_cons [OF Nil.prems(2) wl_nil] by simp
next
  case (Cons w vs)
  from Cons.prems(1) obtain y ys where "xs = y @ ys" "writes V w y" "writes_list V vs ys"
    by (cases rule: writes_listE) auto
  then show ?case using wl_cons Cons by fastforce
qed

lemma writes_pairs_snoc:
  "writes_pairs V es xs \<Longrightarrow> writes V v x \<Longrightarrow> writes_pairs V (es @ [(k, string_token k, v)]) (xs @ string_token k @ x)"
proof (induction es arbitrary: xs)
  case Nil
  from Nil.prems(1) have "xs = []" by (cases rule: writes_pairsE) auto
  then show ?case using wp_cons [OF Nil.prems(2) wp_nil, of k] by simp
next
  case (Cons e es)
  from Cons.prems(1) obtain k' w y ys where "e = (k', string_token k', w)" "xs = string_token k' @ y @ ys" "writes V w y" "writes_pairs V es ys"
    by (cases rule: writes_pairsE) auto
  then show ?case using wp_cons Cons by fastforce
qed

section \<open>Atoms\<close>

text \<open>
  What the source relies on in \<open>Decoder::next_object\<close>, in full: it returns a string exactly when the input begins with
  the only encoding of that string, and an integer exactly when it begins with one of the admitted numbers, which
  are made of digits and a sign.
\<close>

definition atom_reader :: "bytes set \<Rightarrow> object_reader \<Rightarrow> bool" where
  "atom_reader V nx \<longleftrightarrow> (\<forall>num\<in>V. plain_number num) \<and>
     (\<forall>inp bs. nx inp = Some (Some (OBytes bs)) \<longleftrightarrow> (\<exists>rest. inp = string_token bs @ rest)) \<and>
     (\<forall>inp num. nx inp = Some (Some (OInteger num)) \<longleftrightarrow> num \<in> V \<and> (\<exists>rest. inp = integer_token num @ rest))"

lemma atom_reader_ok: "atom_reader V nx \<Longrightarrow> reader_ok nx"
  by (auto simp: atom_reader_def reader_ok_def string_token_def integer_token_def)

lemma token_length: "length (string_token bs) = digits (length bs) + 1 + length bs" "length (integer_token num) = length num + 2"
  by (simp_all add: string_token_def integer_token_def length_decimal)

lemma digit_bytes: "n < 10 \<Longrightarrow> B_0 \<le> B_0 + of_nat n \<and> B_0 + of_nat n \<le> B_9"
proof -
  assume "n < 10"
  then have "n \<in> {0, 1, 2, 3, 4, 5, 6, 7, 8, 9}" by auto
  then show ?thesis by (elim insertE emptyE) (simp_all add: B_0_def B_9_def)
qed

lemma decimal_digits: "decimal n \<noteq> [] \<and> (\<forall>b\<in>set (decimal n). B_0 \<le> b \<and> b \<le> B_9)"
proof (induction n rule: decimal.induct)
  case (1 n)
  then show ?case by (subst (1 2) decimal.simps) (auto simp: digit_bytes)
qed

lemma token_start:
  "\<exists>b r. string_token bs = b # r \<and> B_0 \<le> b \<and> b \<le> B_9" "\<exists>r. integer_token num = B_I # r"
  using decimal_digits [of "length bs"] by (cases "decimal (length bs)"; simp add: string_token_def integer_token_def)+

lemma byte_classes:
  "B_0 \<le> b \<Longrightarrow> b \<le> B_9 \<Longrightarrow> b \<noteq> B_D \<and> b \<noteq> B_L \<and> b \<noteq> B_E \<and> b \<noteq> B_COLON \<and> b \<noteq> B_I"
  "B_I \<noteq> B_D" "B_I \<noteq> B_L" "B_I \<noteq> B_E" "B_L \<noteq> B_E" "B_D \<noteq> B_E" "B_D \<noteq> B_L"
  by (auto simp: B_0_def B_9_def B_D_def B_L_def B_E_def B_I_def B_COLON_def)

lemma atom_read:
  assumes "atom_reader V nx" and "read_atom nx inp = Some (Inr (enc, key, rest))"
  shows "inp = enc @ rest \<and> (case key of Some k \<Rightarrow> enc = string_token k | None \<Rightarrow> \<exists>num\<in>V. enc = integer_token num)"
proof -
  obtain ob where ob: "nx inp = Some (Some ob)" "ob \<noteq> OContainer"
    using assms(2) by (auto simp: read_atom_def split: if_splits option.splits object.splits)
  show ?thesis
  proof (cases ob)
    case (OBytes bs)
    then obtain r where "inp = string_token bs @ r" using assms(1) ob(1) by (auto simp: atom_reader_def)
    then show ?thesis using assms(2) ob(1) OBytes token_length(1) [of bs]
      by (auto simp: read_atom_def Let_def split: if_splits)
  next
    case (OInteger num)
    then obtain r where "inp = integer_token num @ r" "num \<in> V" using assms(1) ob(1) by (auto simp: atom_reader_def)
    then show ?thesis using assms(2) ob(1) OInteger token_length(2) [of num]
      by (auto simp: read_atom_def Let_def split: if_splits)
  qed (use ob in simp)
qed

lemma atom_read_back:
  assumes "atom_reader V nx"
  shows "read_atom nx (string_token bs @ rest) = Some (Inr (string_token bs, Some bs, rest))"
    and "num \<in> V \<Longrightarrow> read_atom nx (integer_token num @ rest) = Some (Inr (integer_token num, None, rest))"
proof -
  have "nx (string_token bs @ rest) = Some (Some (OBytes bs))" using assms by (auto simp: atom_reader_def)
  moreover have "atom_start (string_token bs @ rest)" using token_start(1) [of bs] by (auto simp: atom_start_def)
  ultimately show "read_atom nx (string_token bs @ rest) = Some (Inr (string_token bs, Some bs, rest))"
    by (simp add: read_atom_def Let_def token_length(1) [symmetric] del: One_nat_def add_Suc_right)
  assume "num \<in> V"
  then have "nx (integer_token num @ rest) = Some (Some (OInteger num))" using assms by (auto simp: atom_reader_def)
  moreover have "atom_start (integer_token num @ rest)" using token_start(2) [of num] by (auto simp: atom_start_def)
  ultimately show "read_atom nx (integer_token num @ rest) = Some (Inr (integer_token num, None, rest))"
    by (simp add: read_atom_def Let_def token_length(2) [symmetric] del: add_2_eq_Suc')
qed

section \<open>A successful read\<close>

text \<open>
  A successful read consumes a prefix of the input that is an encoding of the value; the keys of the
  value are sorted at every level, and it is nested no deeper than the limit allows.
\<close>

lemma read_effect:
  "read_value nx limit n inp depth = Some (Inr (v, rest)) \<Longrightarrow> depth \<le> limit \<Longrightarrow> atom_reader V nx \<Longrightarrow>
   \<exists>used. inp = used @ rest \<and> writes V v used \<and> keys_sorted v \<and> depth + bvalue_depth v \<le> limit"
  "read_pairs nx limit n inp depth es = Some (Inr (v, rest)) \<Longrightarrow> depth < limit \<Longrightarrow>
   sorted_wrt (<) (map fst es) \<Longrightarrow> sorted_entries es \<Longrightarrow> Suc (depth + depth_entries es) \<le> limit \<Longrightarrow>
   writes_pairs V es0 pre \<Longrightarrow> mset es0 = mset es \<Longrightarrow> atom_reader V nx \<Longrightarrow>
   \<exists>used. inp = used @ rest \<and> writes V v (B_D # pre @ used) \<and> keys_sorted v \<and> depth + bvalue_depth v \<le> limit"
  "read_items nx limit n inp depth vs = Some (Inr (v, rest)) \<Longrightarrow> depth < limit \<Longrightarrow>
   sorted_list vs \<Longrightarrow> Suc (depth + depth_list vs) \<le> limit \<Longrightarrow> writes_list V vs pre \<Longrightarrow> atom_reader V nx \<Longrightarrow>
   \<exists>used. inp = used @ rest \<and> writes V v (B_L # pre @ used) \<and> keys_sorted v \<and> depth + bvalue_depth v \<le> limit"
proof (induction nx limit n inp depth and nx limit n inp depth es and nx limit n inp depth vs
    arbitrary: v rest and v rest es0 pre and v rest pre rule: read_value_read_pairs_read_items.induct)
  case (2 nx limit n inp depth)
  show ?case
  proof (cases "inp \<noteq> [] \<and> (hd inp = B_D \<or> hd inp = B_L)")
    case True
    then obtain b inp' where i: "inp = b # inp'" by (cases inp) auto
    have d: "depth < limit" using "2.prems" True by (auto split: if_splits)
    show ?thesis
    proof (cases "b = B_D")
      case True
      then have "read_pairs nx limit n inp' depth [] = Some (Inr (v, rest))" using "2.prems"(1) i d by simp
      with "2.IH"(1) [of v rest "[]" "[]"] i d True wp_nil "2.prems"(3) obtain used where "inp' = used @ rest"
        "writes V v (B_D # used)" "keys_sorted v" "depth + bvalue_depth v \<le> limit" by auto
      then show ?thesis using i True by (intro exI [of _ "b # used"]) simp
    next
      case False
      then have "read_items nx limit n inp' depth [] = Some (Inr (v, rest))" "b = B_L" using "2.prems"(1) i d True by simp_all
      with "2.IH"(2) [of v rest "[]"] i d False wl_nil "2.prems"(3) obtain used where "inp' = used @ rest" "b = B_L"
        "writes V v (B_L # used)" "keys_sorted v" "depth + bvalue_depth v \<le> limit" by auto
      then show ?thesis using i by (intro exI [of _ "b # used"]) simp
    qed
  next
    case False
    then obtain enc key where "read_atom nx inp = Some (Inr (enc, key, rest))" "v = Atom enc"
      using "2.prems"(1) by (auto split: option.splits sum.splits)
    moreover from atom_read [OF "2.prems"(3) this(1)] have "inp = enc @ rest" "writes V (Atom enc) enc"
      using w_string w_number by (auto split: option.splits)
    ultimately show ?thesis using "2.prems"(2) by auto
  qed
next
  case (4 nx limit n inp depth es)
  show ?case
  proof (cases "inp \<noteq> [] \<and> hd inp = B_E")
    case True
    then have "inp = [B_E] @ rest" "v = BDict es" using "4.prems"(1) by (cases inp; simp)+
    moreover have "writes V (BDict es) (B_D # pre @ [B_E])" using w_dict "4.prems"(6,7) by blast
    ultimately show ?thesis using "4.prems" by auto
  next
    case False
    then obtain enc key r1 w r2 where a: "read_atom nx inp = Some (Inr (enc, Some key, r1))"
      and k: "key \<notin> fst ` set es" and w: "read_value nx limit n r1 (depth + 1) = Some (Inr (w, r2))"
      and p: "read_pairs nx limit n r2 depth (entry_insert key enc w es) = Some (Inr (v, rest))"
      using "4.prems"(1) by (auto split: option.splits sum.splits if_splits)
    note IH = "4.IH" [OF False a refl refl refl refl k]
    obtain u1 where u1: "r1 = u1 @ r2" "writes V w u1" "keys_sorted w"
      "depth + 1 + bvalue_depth w \<le> limit" using IH(1) [OF w _ "4.prems"(8)] "4.prems"(2) by auto
    have enc: "enc = string_token key" using atom_read [OF "4.prems"(8) a] by simp
    have dep: "Suc (depth + depth_entries (entry_insert key enc w es)) \<le> limit"
      using entry_insert_entries(2) [of key enc w es] u1(4) "4.prems"(5) by linarith
    have wp: "writes_pairs V (es0 @ [(key, enc, w)]) (pre @ enc @ u1)"
      unfolding enc by (rule writes_pairs_snoc [OF "4.prems"(6) u1(2)])
    have ms: "mset (es0 @ [(key, enc, w)]) = mset (entry_insert key enc w es)"
      using "4.prems"(7) entry_insert_mset [OF k] by simp
    obtain u2 where u2: "r2 = u2 @ rest" "writes V v (B_D # (pre @ enc @ u1) @ u2)"
      "keys_sorted v" "depth + bvalue_depth v \<le> limit"
      using IH(2) [OF w refl refl p "4.prems"(2) entry_insert_sorted [OF "4.prems"(3)]
          entry_insert_entries(1) [OF "4.prems"(4) u1(3)] dep wp ms "4.prems"(8)] by blast
    have "inp = (enc @ u1 @ u2) @ rest" using read_atom_split [OF a] u1(1) u2(1) by simp
    then show ?thesis using u2 by (intro exI [of _ "enc @ u1 @ u2"]) simp
  qed
next
  case (6 nx limit n inp depth vs)
  show ?case
  proof (cases "inp \<noteq> [] \<and> hd inp = B_E")
    case True
    then have "inp = [B_E] @ rest" "v = BList vs" using "6.prems"(1) by (cases inp; simp)+
    moreover have "writes V (BList vs) (B_L # pre @ [B_E])" using w_list "6.prems"(5) by blast
    ultimately show ?thesis using "6.prems" by auto
  next
    case False
    then obtain w r1 where w: "read_value nx limit n inp (depth + 1) = Some (Inr (w, r1))"
      and p: "read_items nx limit n r1 depth (vs @ [w]) = Some (Inr (v, rest))"
      using "6.prems"(1) by (auto split: option.splits sum.splits)
    obtain u1 where u1: "inp = u1 @ r1" "writes V w u1" "keys_sorted w"
      "depth + 1 + bvalue_depth w \<le> limit" using "6.IH"(1) [OF False w _ "6.prems"(6)] "6.prems"(2) by auto
    have dep: "Suc (depth + depth_list (vs @ [w])) \<le> limit" using u1(4) "6.prems"(4) by simp
    have "sorted_list (vs @ [w])" using u1(3) "6.prems"(3) by simp
    from "6.IH"(2) [OF False w refl refl p "6.prems"(2) this dep writes_list_snoc [OF "6.prems"(5) u1(2)] "6.prems"(6)]
    obtain u2 where u2: "r1 = u2 @ rest" "writes V v (B_L # (pre @ u1) @ u2)"
      "keys_sorted v" "depth + bvalue_depth v \<le> limit" by blast
    then show ?thesis using u1(1) by (intro exI [of _ "u1 @ u2"]) simp
  qed
qed auto

section \<open>Every encoding is read\<close>

lemma entries_iff: "sorted_entries es \<longleftrightarrow> (\<forall>(k, ek, v)\<in>set es. keys_sorted v)"
  "depth_entries es \<le> m \<longleftrightarrow> (\<forall>(k, ek, v)\<in>set es. bvalue_depth v \<le> m)"
  by (induction es) auto

text \<open>A list of entries with strictly increasing keys is determined by its entries.\<close>

lemma sorted_entries_unique:
  assumes "sorted_wrt (<) (map fst xs)" and "sorted_wrt (<) (map fst ys)" and "mset xs = mset ys"
  shows "xs = (ys :: (bytes \<times> 'a) list)"
proof (rule map_sorted_distinct_set_unique [where f = fst])
  show "set xs = set ys" using assms(3) by (rule mset_eq_setD)
  moreover have "distinct (map fst ys)" using assms(2) by (simp add: strict_sorted_iff)
  ultimately show "inj_on fst (set xs \<union> set ys)" by (simp add: distinct_map)
qed (use assms in \<open>simp_all add: strict_sorted_iff\<close>)

definition insert_all :: "(bytes \<times> bytes \<times> bvalue) list \<Rightarrow> (bytes \<times> bytes \<times> bvalue) list \<Rightarrow> (bytes \<times> bytes \<times> bvalue) list" where
  "insert_all new es = foldl (\<lambda>es (k, ek, v). entry_insert k ek v es) es new"

lemma insert_all_simps [simp]: "insert_all [] es = es" "insert_all ((k, ek, v) # new) es = insert_all new (entry_insert k ek v es)"
  by (simp_all add: insert_all_def)

lemma insert_all_ok:
  "distinct (map fst new) \<Longrightarrow> fst ` set new \<inter> fst ` set es = {} \<Longrightarrow> sorted_wrt (<) (map fst es) \<Longrightarrow>
   sorted_wrt (<) (map fst (insert_all new es)) \<and> mset (insert_all new es) = mset new + mset es"
proof (induction new arbitrary: es)
  case (Cons e new)
  obtain k ek v where e: "e = (k, ek, v)" by (cases e)
  have "fst ` set new \<inter> fst ` set (entry_insert k ek v es) = {}" "k \<notin> fst ` set es"
    using Cons.prems e by (auto simp: entry_insert_keys)
  then show ?case using Cons.IH [of "entry_insert k ek v es"] Cons.prems e entry_insert_sorted entry_insert_mset by simp
qed simp

lemma writes_start: "writes V v x \<Longrightarrow> x \<noteq> [] \<and> hd x \<noteq> B_E"
proof (erule writes.cases)
  fix bs assume "x = string_token bs"
  then show ?thesis using token_start(1) [of bs] byte_classes(1) by auto
next
  fix num assume "x = integer_token num"
  then show ?thesis using token_start(2) [of num] byte_classes by auto
qed (use byte_classes in auto)

text \<open>A reader that does not run out of fuel reads an encoding to its value.\<close>

lemma read_back:
  "writes V v x \<Longrightarrow> atom_reader V nx \<Longrightarrow> keys_sorted v \<Longrightarrow> depth + bvalue_depth v \<le> limit \<Longrightarrow>
   read_value nx limit n (x @ rest) depth = Some r \<Longrightarrow> r = Inr (v, rest)"
  "writes_list V vs xs \<Longrightarrow> atom_reader V nx \<Longrightarrow> sorted_list vs \<Longrightarrow> Suc (depth + depth_list vs) \<le> limit \<Longrightarrow>
   read_items nx limit n (xs @ B_E # rest) depth acc = Some r \<Longrightarrow> r = Inr (BList (acc @ vs), rest)"
  "writes_pairs V es ys \<Longrightarrow> atom_reader V nx \<Longrightarrow> sorted_entries es \<Longrightarrow> Suc (depth + depth_entries es) \<le> limit \<Longrightarrow>
   distinct (map fst es) \<Longrightarrow> fst ` set es \<inter> fst ` set old = {} \<Longrightarrow>
   read_pairs nx limit n (ys @ B_E # rest) depth old = Some r \<Longrightarrow> r = Inr (BDict (insert_all es old), rest)"
proof (induction arbitrary: n depth rest r and n depth rest r acc and n depth rest r old
    rule: writes_writes_list_writes_pairs.inducts)
  case (w_string bs)
  obtain b t where t: "string_token bs = b # t" "B_0 \<le> b" "b \<le> B_9" using token_start(1) by blast
  then show ?case using w_string atom_read_back(1) [OF w_string(1), of bs rest] byte_classes(1) [OF t(2,3)] by (cases n) auto
next
  case (w_number num)
  then show ?case using atom_read_back(2) [OF w_number(2,1), of rest] token_start(2) [of num] byte_classes(2-4)
    by (cases n) auto
next
  case (w_list vs xs)
  obtain m where n: "n = Suc m" using w_list(6) by (cases n) auto
  then have "read_items nx limit m (xs @ B_E # rest) depth [] = Some r"
    using w_list(5,6) byte_classes by (simp split: if_splits)
  from w_list(2) [OF w_list(3) _ _ this] w_list(4,5) show ?case by simp
next
  case (w_dict es' xs es)
  have set: "set es' = set es" using w_dict(3) by (rule mset_eq_setD)
  have es: "sorted_wrt (<) (map fst es)" "sorted_entries es" using w_dict(5) by simp_all
  have "mset (map fst es') = mset (map fst es)" using w_dict(3) by simp
  from mset_eq_imp_distinct_iff [OF this] have dist: "distinct (map fst es')" using es(1) unfolding strict_sorted_iff by blast
  have deep: "depth_entries es' \<le> depth_entries es" using entries_iff(2) [of es "depth_entries es"] entries_iff(2) [of es'] set by simp
  have all: "insert_all es' [] = es"
    using insert_all_ok [of es' "[]"] dist es(1) w_dict(3) by (intro sorted_entries_unique) auto
  obtain m where n: "n = Suc m" using w_dict(7) by (cases n) auto
  then have "read_pairs nx limit m (xs @ B_E # rest) depth [] = Some r"
    using w_dict(6,7) byte_classes by (simp split: if_splits)
  from w_dict(2) [OF w_dict(4) _ _ dist _ this] show ?case
    using all w_dict(6) es(2) set deep by (simp add: entries_iff(1))
next
  case wl_nil
  then show ?case by (cases n) auto
next
  case (wl_cons v x vs xs)
  obtain m where n: "n = Suc m" using wl_cons by (cases n) auto
  have start: "x \<noteq> []" "hd x \<noteq> B_E" using writes_start [OF wl_cons(1)] by auto
  obtain q where q: "read_value nx limit m (x @ xs @ B_E # rest) (depth + 1) = Some q"
    using wl_cons(8) n start by (auto split: option.splits)
  from wl_cons(2) [OF wl_cons(5) _ _ q] have "q = Inr (v, xs @ B_E # rest)" using wl_cons(6,7) by simp
  then have "read_items nx limit m (xs @ B_E # rest) depth (acc @ [v]) = Some r" using wl_cons(8) n start q by simp
  from wl_cons(4) [OF wl_cons(5) _ _ this] wl_cons(6,7) show ?case by simp
next
  case wp_nil
  then show ?case by (cases n) auto
next
  case (wp_cons v x es xs k)
  obtain m where n: "n = Suc m" using wp_cons by (cases n) auto
  obtain b t where t: "string_token k = b # t" "B_0 \<le> b" "b \<le> B_9" using token_start(1) by blast
  have start: "b \<noteq> B_E" using byte_classes(1) [OF t(2,3)] by simp
  note atom = atom_read_back(1) [OF wp_cons(5), of k "x @ xs @ B_E # rest"]
  have fresh: "k \<notin> fst ` set old" using wp_cons(9) by auto
  have step: "read_pairs nx limit n (string_token k @ x @ xs @ B_E # rest) depth old =
      (case read_value nx limit m (x @ xs @ B_E # rest) (depth + 1) of
        None \<Rightarrow> None | Some (Inl e) \<Rightarrow> Some (Inl e)
      | Some (Inr (v, rest')) \<Rightarrow> read_pairs nx limit m rest' depth (entry_insert k (b # t) v old))"
    using n atom fresh start t(1) by simp
  obtain q where q: "read_value nx limit m (x @ xs @ B_E # rest) (depth + 1) = Some q"
    using wp_cons(10) step by (auto split: option.splits)
  from wp_cons(2) [OF wp_cons(5) _ _ q] have "q = Inr (v, xs @ B_E # rest)" using wp_cons(6,7) by simp
  then have "read_pairs nx limit m (xs @ B_E # rest) depth (entry_insert k (string_token k) v old) = Some r"
    using wp_cons(10) step q by (simp add: t(1))
  from wp_cons(4) [OF wp_cons(5) _ _ _ _ this] show ?case
    using wp_cons(6-9) by (simp add: entry_insert_keys)
qed

section \<open>Properties\<close>

text \<open>The bytes of a value are those of the encoding that was read, in another order.\<close>

lemma write_entries_cong: "mset es' = mset es \<Longrightarrow> mset (write_entries es') = mset (write_entries es)"
proof -
  assume m: "mset es' = mset es"
  have "mset (write_entries xs) = sum_mset (image_mset (\<lambda>(_, ek, v). mset (ek @ write_value v)) (mset xs))" for xs
    by (induction xs) auto
  then show ?thesis using m by simp
qed

lemma writes_mset:
  "writes V v x \<Longrightarrow> mset (write_value v) = mset x"
  "writes_list V vs xs \<Longrightarrow> mset (write_list vs) = mset xs"
  "writes_pairs V es ys \<Longrightarrow> mset (write_entries es) = mset ys"
  by (induction rule: writes_writes_list_writes_pairs.inducts) (auto simp: ac_simps dest: write_entries_cong)

text \<open>Reading a whole input, with the fuel that the normalisation gives.\<close>

lemma read_whole:
  assumes "atom_reader V nx"
  obtains y where "read_value nx l (2 * length inp + 1) inp 0 = Some y"
    and "\<And>v. y = Inr (v, []) \<longleftrightarrow> writes V v inp \<and> keys_sorted v \<and> bvalue_depth v \<le> l"
proof -
  obtain y where y: "read_value nx l (2 * length inp + 1) inp 0 = Some y"
    using read_total(1) [OF atom_reader_ok [OF assms], of inp "2 * length inp + 1"] by auto
  have "writes V v inp \<and> keys_sorted v \<and> bvalue_depth v \<le> l" if "y = Inr (v, [])" for v
    using read_effect(1) [of nx l "2 * length inp + 1" inp 0 v "[]"] y that assms by simp
  moreover have "y = Inr (v, [])" if "writes V v inp" "keys_sorted v" "bvalue_depth v \<le> l" for v
    using read_back(1) [OF that(1) assms that(2), of 0 l "2 * length inp + 1" "[]" y] that(3) y by simp
  ultimately show ?thesis using that y by blast
qed

text \<open>
  C35: normalisation accepts exactly the datagrams that are the encoding, with the entries of each dictionary
  in any order, of a value whose dictionaries have no duplicate key and which is nested at most 64 deep, and it
  returns the encoding of that value with the keys in strictly increasing order, which has the same bytes
  in another order. It always returns (no slice is out of range, the recursion ends). The extension-handshake variant
  moreover bounds the input by the header limit and by 4096 bytes, the depth by its own limit, and accepts only a dictionary. The
  decoder of atoms (\<open>bendy\<close>) reads exactly the canonical strings and some set of integers.
\<close>

theorem normalize_only_reorders:
  assumes "atom_reader V nx"
  shows "\<exists>r r'. normalize nx inp = Some r \<and> normalize_extension nx inp header_limit depth = Some r' \<and>
    (\<forall>out. (r = Inr out) = (\<exists>v. writes V v inp \<and> keys_sorted v \<and> bvalue_depth v \<le> 64 \<and>
      out = write_value v \<and> mset out = mset inp)) \<and>
    (\<forall>out. (r' = Inr out) = (\<exists>v. writes V v inp \<and> keys_sorted v \<and> bvalue_depth v \<le> min depth 64 \<and>
      length inp \<le> min header_limit 4096 \<and> hd inp = B_D \<and> out = write_value v \<and> mset out = mset inp))"
proof -
  obtain y where y: "read_value nx 64 (2 * length inp + 1) inp 0 = Some y"
    and whole: "\<And>v. y = Inr (v, []) \<longleftrightarrow> writes V v inp \<and> keys_sorted v \<and> bvalue_depth v \<le> 64"
    by (rule read_whole [OF assms, where l = 64 and inp = inp]) (rule that)
  obtain z where z: "read_value nx (min depth 64) (2 * length inp + 1) inp 0 = Some z"
    and whole': "\<And>v. z = Inr (v, []) \<longleftrightarrow> writes V v inp \<and> keys_sorted v \<and> bvalue_depth v \<le> min depth 64"
    by (rule read_whole [OF assms, where l = "min depth 64" and inp = inp]) (rule that)
  have result: "((case x of Inl e \<Rightarrow> Inl e | Inr (v, rest) \<Rightarrow> if rest \<noteq> [] then Inl TrailingBytes else Inr (write_value v)) = Inr out)
      = (\<exists>v. x = Inr (v, []) \<and> out = write_value v)" for x :: "ordering_error + bvalue \<times> bytes" and out
    by (cases x) (auto split: if_splits)
  let ?r = "case y of Inl e \<Rightarrow> Inl e | Inr (v, rest) \<Rightarrow> if rest \<noteq> [] then Inl TrailingBytes else Inr (write_value v)"
  let ?z = "case z of Inl e \<Rightarrow> Inl e | Inr (v, rest) \<Rightarrow> if rest \<noteq> [] then Inl TrailingBytes else Inr (write_value v)"
  let ?r' = "if length inp > min header_limit 4096 \<or> \<not> (inp \<noteq> [] \<and> hd inp = B_D) then Inl HeaderLimit else ?z"
  have "normalize nx inp = Some ?r" unfolding normalize_def MAX_DEPTH_def y by (simp split: sum.split)
  moreover have "normalize_extension nx inp header_limit depth = Some ?r'"
    unfolding normalize_extension_def z by (simp split: sum.split)
  moreover have "(?r = Inr out) = (\<exists>v. writes V v inp \<and> keys_sorted v \<and> bvalue_depth v \<le> 64 \<and>
      out = write_value v \<and> mset out = mset inp)" for out
    unfolding result whole using writes_mset(1) by blast
  moreover have "(?r' = Inr out) = (\<exists>v. writes V v inp \<and> keys_sorted v \<and> bvalue_depth v \<le> min depth 64 \<and>
      length inp \<le> min header_limit 4096 \<and> hd inp = B_D \<and> out = write_value v \<and> mset out = mset inp)" for out
  proof (cases "length inp > min header_limit 4096 \<or> \<not> (inp \<noteq> [] \<and> hd inp = B_D)")
    case True
    then show ?thesis using writes_start by auto
  next
    case False
    then have "length inp \<le> min header_limit 4096" "hd inp = B_D" by auto
    moreover have "(?z = Inr out) = (\<exists>v. writes V v inp \<and> keys_sorted v \<and> bvalue_depth v \<le> min depth 64 \<and>
        out = write_value v \<and> mset out = mset inp)"
      unfolding result whole' using writes_mset(1) by blast
    ultimately show ?thesis using False by (simp only: if_False) blast
  qed
  ultimately show ?thesis by blast
qed

section \<open>A reader\<close>

text \<open>A decoder of every canonical string and of the integers of one digit.\<close>

definition digits_value :: "bytes \<Rightarrow> nat" where
  "digits_value ds = foldl (\<lambda>n b. 10 * n + unat (b - B_0)) 0 ds"

definition digit_number :: "bytes \<Rightarrow> bool" where
  "digit_number num \<longleftrightarrow> length num = 1 \<and> plain_number num"

definition small_numbers :: "bytes set" where
  "small_numbers = Collect digit_number"

definition small_reader :: object_reader where
  "small_reader inp =
     (if inp = [] then Some None
      else if hd inp = B_D \<or> hd inp = B_L \<or> hd inp = B_E then Some (Some OContainer)
      else if hd inp = B_I then
        (let num = take 1 (drop 1 inp) in
         if digit_number num \<and> take 1 (drop 2 inp) = [B_E] then Some (Some (OInteger num)) else None)
      else (let ds = takeWhile (\<lambda>b. b \<noteq> B_COLON) inp; s = drop (length ds) inp; n = digits_value ds in
         if s \<noteq> [] \<and> decimal n = ds \<and> n < length s then Some (Some (OBytes (take n (drop 1 s)))) else None))"

lemma digits_value: "digits_value (decimal n) = n"
proof (induction n rule: decimal.induct)
  case (1 n)
  then show ?case by (subst decimal.simps) (auto simp: digits_value_def unat_of_nat)
qed

lemma small_reader_ok: "atom_reader small_numbers small_reader"
proof -
  have "(small_reader inp = Some (Some (OBytes bs))) = (\<exists>rest. inp = string_token bs @ rest)" (is "?read = ?enc") for inp bs
  proof
    let ?ds = "takeWhile (\<lambda>b. b \<noteq> B_COLON) inp"
    let ?s = "drop (length ?ds) inp"
    assume ?read
    then have s: "?s \<noteq> []" "decimal (digits_value ?ds) = ?ds" "digits_value ?ds < length ?s"
      and bs: "bs = take (digits_value ?ds) (drop 1 ?s)"
      by (auto simp: small_reader_def Let_def split: if_splits)
    have "hd ?s = B_COLON"
      using s(1) hd_dropWhile [of "\<lambda>b. b \<noteq> B_COLON" inp] by (simp only: dropWhile_eq_drop) blast
    then have "?s = B_COLON # drop 1 ?s" using s(1) by (cases ?s) auto
    moreover have "length bs = digits_value ?ds" using bs s(3) by simp
    moreover have "drop 1 ?s = bs @ drop (digits_value ?ds) (drop 1 ?s)" unfolding bs by (rule append_take_drop_id [symmetric])
    ultimately have "inp = string_token bs @ drop (digits_value ?ds) (drop 1 ?s)"
      using s(2) unfolding string_token_def by (metis append.assoc append_Cons append_Nil append_take_drop_id takeWhile_eq_take)
    then show ?enc by blast
  next
    assume ?enc
    then obtain rest where inp: "inp = decimal (length bs) @ B_COLON # bs @ rest" by (auto simp: string_token_def)
    have "\<forall>b\<in>set (decimal (length bs)). b \<noteq> B_COLON" using decimal_digits byte_classes(1) by blast
    then have ds: "takeWhile (\<lambda>b. b \<noteq> B_COLON) inp = decimal (length bs)" by (simp add: inp takeWhile_append2)
    have "hd inp = hd (decimal (length bs))" "inp \<noteq> []" using decimal_digits [of "length bs"] by (auto simp: inp)
    moreover have "hd (decimal (length bs)) \<in> set (decimal (length bs))" using decimal_digits by simp
    ultimately have "hd inp \<noteq> B_D \<and> hd inp \<noteq> B_L \<and> hd inp \<noteq> B_E \<and> hd inp \<noteq> B_I"
      using decimal_digits byte_classes(1) by metis
    then show ?read using \<open>inp \<noteq> []\<close> by (simp add: small_reader_def Let_def ds digits_value) (simp add: inp)
  qed
  moreover have "(small_reader inp = Some (Some (OInteger num))) = (num \<in> small_numbers \<and> (\<exists>rest. inp = integer_token num @ rest))" for inp num
  proof
    assume r: "small_reader inp = Some (Some (OInteger num))"
    then obtain t where inp: "inp = B_I # t" and num: "num = take 1 t" "num \<in> small_numbers" and e: "take 1 (drop 1 t) = [B_E]"
      by (cases inp) (auto simp: small_reader_def small_numbers_def Let_def split: if_splits)
    have "t = take 1 t @ take 1 (drop 1 t) @ drop 1 (drop 1 t)" by (metis append_take_drop_id)
    then show "num \<in> small_numbers \<and> (\<exists>rest. inp = integer_token num @ rest)"
      using inp num e unfolding integer_token_def by (metis append_Cons append_Nil append.assoc)
  next
    assume "num \<in> small_numbers \<and> (\<exists>rest. inp = integer_token num @ rest)"
    then obtain b rest where "num = [b]" "num \<in> small_numbers" "inp = [B_I, b, B_E] @ rest"
      by (auto simp: small_numbers_def digit_number_def integer_token_def length_Suc_conv)
    then show "small_reader inp = Some (Some (OInteger num))" using byte_classes by (simp add: small_reader_def small_numbers_def Let_def)
  qed
  ultimately show ?thesis by (simp add: atom_reader_def small_numbers_def digit_number_def)
qed

theorem normalize_only_reorders_witness:
  "\<exists>v. normalize small_reader (B_D # [49, B_COLON, 98, B_I, 49, B_E] @ [49, B_COLON, 97, B_I, 50, B_E] @ [B_E]) = Some (Inr (write_value v)) \<and>
     keys_sorted v \<and> write_value v = B_D # [49, B_COLON, 97, B_I, 50, B_E] @ [49, B_COLON, 98, B_I, 49, B_E] @ [B_E]"
proof -
  let ?inp = "B_D # [49, B_COLON, 98, B_I, 49, B_E] @ [49, B_COLON, 97, B_I, 50, B_E] @ [B_E] :: bytes"
  let ?out = "B_D # [49, B_COLON, 97, B_I, 50, B_E] @ [49, B_COLON, 98, B_I, 49, B_E] @ [B_E] :: bytes"
  have n: "normalize small_reader ?inp = Some (Inr ?out)" by code_simp
  from normalize_only_reorders [OF small_reader_ok, of ?inp] obtain r where r: "normalize small_reader ?inp = Some r"
    and iff: "\<And>out. (r = Inr out) = (\<exists>v. writes small_numbers v ?inp \<and> keys_sorted v \<and> bvalue_depth v \<le> 64 \<and>
      out = write_value v \<and> mset out = mset ?inp)" by blast
  have "r = Inr ?out" using trans [OF r [symmetric] n] by (rule option.inject [THEN iffD1])
  then obtain v where v: "keys_sorted v" "?out = write_value v" unfolding iff by blast
  show ?thesis by (rule exI [of _ v]) (intro conjI v(1) v(2) [symmetric] n [unfolded v(2)])
qed

end
