(* ===== verification/Utf8.thy ===== *)
theory Utf8
  imports Prelude
begin

text \<open>
  Text as the program shows it. The first part writes out what the standard library does with bytes
  that should be UTF-8 (\<open>str::from_utf8\<close>, \<open>String::from_utf8_lossy\<close>: every maximal
  invalid part becomes U+FFFD); a Rust string is the list of its scalar values. The second part is
  \<open>display\<close> and \<open>display_path\<close> of \<open>src/collection/metainfo.rs\<close>, the only way
  untrusted names reach the catalog.
\<close>

section \<open>UTF-8\<close>

type_synonym rstring = "nat list"

definition cont :: "u8 \<Rightarrow> bool" where
  "cont b \<longleftrightarrow> 0x80 \<le> b \<and> b \<le> 0xBF"

definition second3 :: "u8 \<Rightarrow> u8 \<Rightarrow> bool" where
  "second3 b c \<longleftrightarrow> b = 0xE0 \<and> 0xA0 \<le> c \<and> c \<le> 0xBF \<or> 0xE1 \<le> b \<and> b \<le> 0xEC \<and> cont c \<or>
     b = 0xED \<and> 0x80 \<le> c \<and> c \<le> 0x9F \<or> 0xEE \<le> b \<and> b \<le> 0xEF \<and> cont c"

definition second4 :: "u8 \<Rightarrow> u8 \<Rightarrow> bool" where
  "second4 b c \<longleftrightarrow> b = 0xF0 \<and> 0x90 \<le> c \<and> c \<le> 0xBF \<or> 0xF1 \<le> b \<and> b \<le> 0xF3 \<and> cont c \<or>
     b = 0xF4 \<and> 0x80 \<le> c \<and> c \<le> 0x8F"

text \<open>One scalar value, or \<open>None\<close> for a maximal invalid part, and what is left.\<close>

definition utf8_step :: "u8 \<Rightarrow> bytes \<Rightarrow> nat option \<times> bytes" where
  "utf8_step b r =
     (if b < 0x80 then (Some (unat b), r)
      else if 0xC2 \<le> b \<and> b \<le> 0xDF then
        (case r of c # r1 \<Rightarrow> if cont c then (Some (unat b mod 32 * 64 + unat c mod 64), r1) else (None, r)
         | [] \<Rightarrow> (None, r))
      else if 0xE0 \<le> b \<and> b \<le> 0xEF then
        (case r of c # r1 \<Rightarrow> if second3 b c then
            (case r1 of d # r2 \<Rightarrow> if cont d
                then (Some (unat b mod 16 * 4096 + unat c mod 64 * 64 + unat d mod 64), r2) else (None, r1)
             | [] \<Rightarrow> (None, r1)) else (None, r)
         | [] \<Rightarrow> (None, r))
      else if 0xF0 \<le> b \<and> b \<le> 0xF4 then
        (case r of c # r1 \<Rightarrow> if second4 b c then
            (case r1 of d # r2 \<Rightarrow> if cont d then
                (case r2 of e # r3 \<Rightarrow> if cont e
                    then (Some (unat b mod 8 * 262144 + unat c mod 64 * 4096 + unat d mod 64 * 64 + unat e mod 64), r3)
                    else (None, r2)
                 | [] \<Rightarrow> (None, r2)) else (None, r1)
             | [] \<Rightarrow> (None, r1)) else (None, r)
         | [] \<Rightarrow> (None, r))
      else (None, r))"

lemma utf8_step_length [termination_simp]: "(x, r') = utf8_step b r \<Longrightarrow> length r' < Suc (length r)"
  by (auto simp: utf8_step_def split: if_splits list.splits)

fun utf8_chars :: "bytes \<Rightarrow> nat option list" where
  "utf8_chars [] = []"
| "utf8_chars (b # r) = (let (c, r') = utf8_step b r in c # utf8_chars r')"

definition utf8_valid :: "bytes \<Rightarrow> bool" where
  "utf8_valid bs \<longleftrightarrow> None \<notin> set (utf8_chars bs)"

definition utf8_lossy :: "bytes \<Rightarrow> rstring" where
  "utf8_lossy bs = map (\<lambda>c. case c of None \<Rightarrow> 0xFFFD | Some v \<Rightarrow> v) (utf8_chars bs)"

definition scalar :: "nat \<Rightarrow> bool" where
  "scalar c \<longleftrightarrow> c < 0xD800 \<or> 0xE000 \<le> c \<and> c < 0x110000"

definition utf8_encode :: "nat \<Rightarrow> bytes" where
  "utf8_encode c =
     (if c < 0x80 then [of_nat c]
      else if c < 0x800 then [of_nat (0xC0 + c div 64), of_nat (0x80 + c mod 64)]
      else if c < 0x10000 then [of_nat (0xE0 + c div 4096), of_nat (0x80 + c div 64 mod 64), of_nat (0x80 + c mod 64)]
      else [of_nat (0xF0 + c div 262144), of_nat (0x80 + c div 4096 mod 64),
            of_nat (0x80 + c div 64 mod 64), of_nat (0x80 + c mod 64)])"

lemma le_of_nat8: "m < 256 \<Longrightarrow> n < 256 \<Longrightarrow> ((of_nat m :: u8) \<le> of_nat n) = (m \<le> n)"
  by (simp add: word_le_nat_alt unat_of_nat)

lemma num8_le: "m < 256 \<Longrightarrow> ((of_nat m :: u8) \<le> numeral k) = (m \<le> unat (numeral k :: u8))"
  "m < 256 \<Longrightarrow> ((numeral k :: u8) \<le> of_nat m) = (unat (numeral k :: u8) \<le> m)"
  "m < 256 \<Longrightarrow> ((of_nat m :: u8) < numeral k) = (m < unat (numeral k :: u8))"
  "m < 256 \<Longrightarrow> ((of_nat m :: u8) = numeral k) = (m = unat (numeral k :: u8))"
  by (simp_all add: word_le_nat_alt word_less_nat_alt unat_of_nat word_unat_eq_iff)

lemma cont_of_nat: "m < 64 \<Longrightarrow> cont (of_nat (128 + m))"
  using num8_le [of "128 + m"] by (simp add: cont_def del: of_nat_add)

lemma three_parts: "(c :: nat) = c div 4096 * 4096 + c div 64 mod 64 * 64 + c mod 64"
proof -
  have "c div 64 = c div 64 div 64 * 64 + c div 64 mod 64" by simp
  moreover have "c = c div 64 * 64 + c mod 64" by simp
  moreover have "c div 64 div 64 = c div 4096" by (simp add: div_mult2_eq [symmetric])
  ultimately show ?thesis by linarith
qed

lemma four_parts: "(c :: nat) = c div 262144 * 262144 + c div 4096 mod 64 * 4096 + c div 64 mod 64 * 64 + c mod 64"
proof -
  have "c div 4096 = c div 4096 div 64 * 64 + c div 4096 mod 64" by simp
  moreover have "c div 4096 div 64 = c div 262144" by (simp add: div_mult2_eq [symmetric])
  ultimately show ?thesis using three_parts [of c] by linarith
qed

lemma utf8_step_encode:
  assumes "scalar c"
  shows "case utf8_encode c @ r of b # bs \<Rightarrow> utf8_step b bs = (Some c, r) | [] \<Rightarrow> False"
proof -
  consider "c < 0x80" | "0x80 \<le> c" "c < 0x800" | "0x800 \<le> c" "c < 0x10000" | "0x10000 \<le> c" "c < 0x110000"
    using assms by (force simp: scalar_def)
  then show ?thesis
  proof cases
    case 1
    then show ?thesis by (simp add: utf8_encode_def utf8_step_def num8_le unat_of_nat)
  next
    case 2
    let ?a = "0xC0 + c div 64"
    have a: "194 \<le> ?a" "?a \<le> 223" using 2 by auto
    have v: "?a mod 32 * 64 + (128 + c mod 64) mod 64 = c" using 2 by (simp add: mod_add_left_eq [symmetric])
    show ?thesis using 2 a v cont_of_nat [of "c mod 64"]
      by (simp add: utf8_encode_def utf8_step_def num8_le unat_of_nat del: of_nat_add)
  next
    case 3
    define q m l where "q = c div 4096" and "m = c div 64 mod 64" and "l = c mod 64"
    have c: "c = q * 4096 + m * 64 + l" and m: "m < 64" and l: "l < 64"
      using three_parts [of c] by (simp_all add: q_def m_def l_def)
    have q: "q < 16" using 3 by (simp add: q_def)
    have "second3 (of_nat (0xE0 + q)) (of_nat (0x80 + m))"
      using assms 3 c m l q cont_of_nat [OF m]
      by (simp add: second3_def scalar_def num8_le cont_def del: of_nat_add) arith
    moreover have "utf8_encode c = [of_nat (0xE0 + q), of_nat (0x80 + m), of_nat (0x80 + l)]"
      using 3 by (simp add: utf8_encode_def q_def m_def l_def)
    moreover have "(0xE0 + q) mod 16 * 4096 + (0x80 + m) mod 64 * 64 + (0x80 + l) mod 64 = c"
      using q m l by (simp add: c mod_add_left_eq [symmetric])
    ultimately show ?thesis using q m l cont_of_nat [OF l]
      by (simp add: utf8_step_def num8_le unat_of_nat del: of_nat_add)
  next
    case 4
    define q m l where "q = c div 262144" and "m = c div 4096 mod 64" and "l = c div 64 mod 64"
    define k where "k = c mod 64"
    have c: "c = q * 262144 + m * 4096 + l * 64 + k" and m: "m < 64" and l: "l < 64" and k: "k < 64"
      using four_parts [of c] by (simp_all add: q_def m_def l_def k_def)
    have q: "q < 5" using 4 by (simp add: q_def)
    have "second4 (of_nat (0xF0 + q)) (of_nat (0x80 + m))"
      using assms 4 c m l k q cont_of_nat [OF m]
      by (simp add: second4_def scalar_def num8_le cont_def del: of_nat_add) arith
    moreover have "utf8_encode c = [of_nat (0xF0 + q), of_nat (0x80 + m), of_nat (0x80 + l), of_nat (0x80 + k)]"
      using 4 by (simp add: utf8_encode_def q_def m_def l_def k_def)
    moreover have "(0xF0 + q) mod 8 * 262144 + (0x80 + m) mod 64 * 4096 + (0x80 + l) mod 64 * 64 + (0x80 + k) mod 64 = c"
      using q m l k by (simp add: c mod_add_left_eq [symmetric])
    ultimately show ?thesis using q m l k cont_of_nat [OF l] cont_of_nat [OF k]
      by (simp add: utf8_step_def num8_le unat_of_nat del: of_nat_add)
  qed
qed

text \<open>Decoding inverts encoding, so the text of valid UTF-8 is never altered.\<close>

lemma utf8_chars_encode:
  "\<forall>c\<in>set cs. scalar c \<Longrightarrow> utf8_chars (concat (map utf8_encode cs)) = map Some cs"
proof (induction cs)
  case (Cons c cs)
  have "utf8_encode c \<noteq> []" by (simp add: utf8_encode_def)
  then obtain b bs where b: "utf8_encode c = b # bs" by (cases "utf8_encode c") auto
  have "utf8_step b (bs @ concat (map utf8_encode cs)) = (Some c, concat (map utf8_encode cs))"
    using utf8_step_encode [of c "concat (map utf8_encode cs)"] Cons.prems b by simp
  then show ?case using Cons b by simp
qed simp

section \<open>Displayed names\<close>

definition is_control :: "nat \<Rightarrow> bool" where
  "is_control c \<longleftrightarrow> c < 0x20 \<or> 0x7F \<le> c \<and> c \<le> 0x9F"

fun hex_digits :: "nat \<Rightarrow> rstring" where
  "hex_digits n = (if n < 16 then [if n < 10 then 48 + n else 87 + n]
     else hex_digits (n div 16) @ [if n mod 16 < 10 then 48 + n mod 16 else 87 + n mod 16])"

declare hex_digits.simps [simp del]

definition escape_char :: "nat \<Rightarrow> rstring" where
  "escape_char c = [92, 117, 123] @ hex_digits c @ [125]"

definition display :: "bytes \<Rightarrow> rstring \<times> bool" where
  "display bs = (concat (map (\<lambda>c. if is_control c then escape_char c else [c]) (utf8_lossy bs)), \<not> utf8_valid bs)"

fun join :: "nat list \<Rightarrow> rstring list \<Rightarrow> rstring" where
  "join sep [] = []"
| "join sep [x] = x"
| "join sep (x # xs) = x @ sep @ join sep xs"

definition display_path :: "bytes list \<Rightarrow> rstring \<times> bool" where
  "display_path parts = (join [47] (map (fst \<circ> display) parts), list_ex (snd \<circ> display) parts)"

text \<open>Two lower-case hexadecimal digits for every byte (\<open>hex\<close> of \<open>src/observation/context.rs\<close>).\<close>

definition hex :: "bytes \<Rightarrow> rstring" where
  "hex bs = concat (map (\<lambda>b. hex_digits (unat b div 16) @ hex_digits (unat b mod 16)) bs)"

lemma hex_digits_printable: "\<forall>c\<in>set (hex_digits n). 48 \<le> c \<and> c \<le> 102"
proof (induction n rule: hex_digits.induct)
  case (1 n)
  then show ?case by (subst hex_digits.simps) auto
qed

lemma length_hex [simp]: "length (hex bs) = 2 * length bs"
proof (induction bs)
  case (Cons b bs)
  have "unat b < 256" using unsigned_less [of b] by simp
  then have "length (hex_digits (unat b div 16)) = 1" by (subst hex_digits.simps) auto
  moreover have "length (hex_digits (unat b mod 16)) = 1" by (subst hex_digits.simps) simp
  ultimately show ?case using Cons by (simp add: hex_def)
qed (simp add: hex_def)

lemma display_printable: "c \<in> set (fst (display bs)) \<Longrightarrow> \<not> is_control c"
  using hex_digits_printable
  by (fastforce simp: display_def escape_char_def is_control_def split: if_splits)

lemma join_printable:
  "\<forall>x\<in>set xs. \<forall>c\<in>set x. \<not> is_control c \<Longrightarrow> \<forall>c\<in>set sep. \<not> is_control c \<Longrightarrow>
   c \<in> set (join sep xs) \<Longrightarrow> \<not> is_control c"
  by (induction sep xs rule: join.induct) auto

lemma display_path_printable: "c \<in> set (fst (display_path ps)) \<Longrightarrow> \<not> is_control c"
  unfolding display_path_def fst_conv
  by (rule join_printable [of "map (fst \<circ> display) ps" "[47]"])
    (auto dest: display_printable simp: is_control_def)

lemma display_valid:
  assumes "\<forall>c\<in>set cs. scalar c \<and> \<not> is_control c"
  shows "display (concat (map utf8_encode cs)) = (cs, False)"
proof -
  have u: "utf8_chars (concat (map utf8_encode cs)) = map Some cs"
    by (rule utf8_chars_encode) (use assms in blast)
  have "concat (map (\<lambda>c. if is_control c then escape_char c else [c]) cs) = cs"
    using assms by (induction cs) auto
  then show ?thesis by (simp add: display_def utf8_lossy_def utf8_valid_def u comp_def)
qed

text \<open>
  A displayed path never contains a control character, whatever bytes an untrusted torrent names
  its files with; the flag is raised exactly when some part is not valid UTF-8; and a part that is valid
  UTF-8 without control characters is shown unchanged.
\<close>

theorem displayed_paths_are_safe:
  assumes "\<forall>c\<in>set cs. scalar c \<and> \<not> is_control c"
  shows "(\<forall>c\<in>set (fst (display_path parts)). \<not> is_control c) \<and>
    (snd (display_path parts) \<longleftrightarrow> (\<exists>p\<in>set parts. \<not> utf8_valid p)) \<and>
    display_path [concat (map utf8_encode cs)] = (cs, False)"
proof (intro conjI)
  show "\<forall>c\<in>set (fst (display_path parts)). \<not> is_control c" using display_path_printable by blast
  show "snd (display_path parts) \<longleftrightarrow> (\<exists>p\<in>set parts. \<not> utf8_valid p)"
    by (simp add: display_path_def list_ex_iff display_def)
  show "display_path [concat (map utf8_encode cs)] = (cs, False)"
    by (simp add: display_path_def display_valid [OF assms])
qed

theorem displayed_paths_are_safe_witness:
  "display_path [concat (map utf8_encode [0x7C89, 0x41])] = ([0x7C89, 0x41], False)"
  using displayed_paths_are_safe [of "[0x7C89, 0x41]"] by (simp add: scalar_def is_control_def)

end
