(* ===== verification/Metainfo.thy ===== *)
theory Metainfo
  imports Utf8 InfoHash "HOL-Library.Sublist"
begin

text \<open>
  The semantic check of torrent info dictionaries, \<open>src/collection/metainfo.rs\<close>. The tokenizer
  of the bendy crate and the two digests are parameters: what \<open>next_object\<close> and \<open>next_pair\<close>
  return, call after call, is a \<open>raw\<close> object, whose containers end normally or with a decoder error
  (the flag). Errors are the code's static strings; the only index expression that could panic,
  \<open>files[index]\<close> of the hybrid check, makes the functions above it return an option.
\<close>

section \<open>Values\<close>

datatype raw = RBytes bytes | RInteger bytes | RList "raw list" bool | RDict "(bytes \<times> raw) list" bool

datatype mvalue = MBytes bytes | MInteger int | MList "mvalue list" | MDict "(bytes \<times> mvalue) list"

type_synonym dict = "(bytes \<times> mvalue) list"

text \<open>The first object (\<open>None\<close>: decoder error, \<open>Some None\<close>: nothing) and whether more follows.\<close>

type_synonym decoder = "bytes \<Rightarrow> raw option option \<times> bool option"

definition ascii :: "string \<Rightarrow> bytes" where
  "ascii s = map (\<lambda>c. of_nat (of_char c)) s"

definition MAX_BYTES :: nat where
  "MAX_BYTES = 4 * 1024 * 1024"

definition PARSE_BUDGET :: nat where
  "PARSE_BUDGET = 64 * 1024 * 1024"

definition charge :: "nat \<Rightarrow> nat \<Rightarrow> string + nat" where
  "charge budget amount = (if amount \<le> budget then Inr (budget - amount) else Inl ''semantic_capacity'')"

text \<open>\<open>str::parse\<close> for \<open>i64\<close>.\<close>

definition parse_i64 :: "bytes \<Rightarrow> int option" where
  "parse_i64 t =
     (let neg = (t \<noteq> [] \<and> hd t = 45);
          ds = (if t \<noteq> [] \<and> (hd t = 45 \<or> hd t = 43) then tl t else t);
          n = foldl (\<lambda>a c. a * 10 + int (unat c - 48)) 0 ds;
          v = (if neg then - n else n)
      in if ds = [] \<or> list_ex (\<lambda>c. c < 48 \<or> 57 < c) ds \<or> v < - (2 ^ 63) \<or> v \<ge> 2 ^ 63 then None else Some v)"

text \<open>\<open>BTreeMap::insert\<close> for a key that is not there yet: the entries stay in key order.\<close>

fun bt_put :: "'k::linorder \<Rightarrow> 'v \<Rightarrow> ('k \<times> 'v) list \<Rightarrow> ('k \<times> 'v) list" where
  "bt_put k v [] = [(k, v)]"
| "bt_put k v ((l, w) # d) = (if k < l then (k, v) # (l, w) # d else (l, w) # bt_put k v d)"

fun value_of :: "raw \<Rightarrow> nat \<Rightarrow> string + mvalue \<times> nat"
  and values_of :: "raw list \<Rightarrow> bool \<Rightarrow> nat \<Rightarrow> string + mvalue list \<times> nat"
  and pairs_of :: "(bytes \<times> raw) list \<Rightarrow> bool \<Rightarrow> dict \<Rightarrow> nat \<Rightarrow> string + dict \<times> nat" where
  "value_of (RBytes b) bud = and_then (charge bud 96) (\<lambda>bud. Inr (MBytes b, bud))"
| "value_of (RInteger t) bud = and_then (charge bud 96) (\<lambda>bud.
     and_then (ok_or (parse_i64 t) ''integer_range'') (\<lambda>n. Inr (MInteger n, bud)))"
| "value_of (RList items broken) bud = and_then (charge bud 96) (\<lambda>bud.
     and_then (values_of items broken bud) (\<lambda>(vs, bud). Inr (MList vs, bud)))"
| "value_of (RDict items broken) bud = and_then (charge bud 96) (\<lambda>bud.
     and_then (pairs_of items broken [] bud) (\<lambda>(d, bud). Inr (MDict d, bud)))"
| "values_of [] broken bud = (if broken then Inl ''invalid_bencode'' else Inr ([], bud))"
| "values_of (x # xs) broken bud = and_then (value_of x bud) (\<lambda>(v, bud).
     and_then (values_of xs broken bud) (\<lambda>(vs, bud). Inr (v # vs, bud)))"
| "pairs_of [] broken d bud = (if broken then Inl ''invalid_bencode'' else Inr (d, bud))"
| "pairs_of ((k, x) # xs) broken d bud = and_then (value_of x bud) (\<lambda>(v, bud).
     if map_of d k \<noteq> None then Inl ''duplicate_key'' else pairs_of xs broken (bt_put k v d) bud)"

fun dictionary :: "mvalue \<Rightarrow> string + dict" where
  "dictionary (MDict d) = Inr d"
| "dictionary _ = Inl ''dictionary_type''"

fun bytes_of :: "mvalue \<Rightarrow> string + bytes" where
  "bytes_of (MBytes b) = Inr b"
| "bytes_of _ = Inl ''bytes_type''"

fun integer :: "mvalue \<Rightarrow> string + int" where
  "integer (MInteger n) = Inr n"
| "integer _ = Inl ''integer_type''"

definition required :: "dict \<Rightarrow> string \<Rightarrow> string + mvalue" where
  "required d key = ok_or (map_of d (ascii key)) ''missing_field''"

definition length_of :: "dict \<Rightarrow> string \<Rightarrow> string + nat" where
  "length_of d key = and_then (required d key) (\<lambda>v. and_then (integer v) (\<lambda>n.
     if n < 0 then Inl ''negative_length'' else Inr (nat n)))"

fun transpose :: "('e + 'a) option \<Rightarrow> 'e + 'a option" where
  "transpose None = Inr None"
| "transpose (Some (Inl e)) = Inl e"
| "transpose (Some (Inr x)) = Inr (Some x)"

definition optional_bytes :: "dict \<Rightarrow> string \<Rightarrow> string + bytes option" where
  "optional_bytes d key = transpose (map_option bytes_of (map_of d (ascii key)))"

definition segment :: "bytes \<Rightarrow> string + unit" where
  "segment b = (if b = [] \<or> b = ascii ''.'' \<or> b = ascii ''..'' \<or> 47 \<in> set b \<or> 92 \<in> set b \<or> 0 \<in> set b
     then Inl ''invalid_path'' else Inr ())"

fun path :: "mvalue \<Rightarrow> string + bytes list" where
  "path (MList items) = (if items = [] then Inl ''empty_path''
     else try_map (\<lambda>item. and_then (bytes_of item) (\<lambda>b. and_then (segment b) (\<lambda>_. Inr b))) items)"
| "path _ = Inl ''path_type''"

section \<open>Files\<close>

record torrent_file =
  tf_path :: "rstring option"
  tf_length :: nat
  tf_encoding_lossy :: bool
  tf_kind :: string
  tf_hidden :: bool
  tf_executable :: bool
  tf_symlink_path :: "rstring option"
  tf_sha1 :: "rstring option"
  tf_raw_path :: "bytes list"
  tf_raw_target :: "bytes list option"

abbreviation has_attr :: "bytes \<Rightarrow> u8 \<Rightarrow> bool" where
  "has_attr attr c \<equiv> c \<in> set attr"

definition file_kind :: "bytes \<Rightarrow> string" where
  "file_kind attr = (if has_attr attr 112 then ''padding'' else if has_attr attr 108 then ''symlink'' else ''file'')"

definition path_cost :: "bytes list \<Rightarrow> nat" where
  "path_cost p = sum_list (map length p) * 8"

definition info_file :: "dict \<Rightarrow> bytes list \<Rightarrow> bytes list option \<Rightarrow> nat \<Rightarrow> string + torrent_file \<times> nat" where
  "info_file d raw_path shown bud =
     and_then (optional_bytes d ''attr'') (\<lambda>oattr. let attr = (case oattr of None \<Rightarrow> [] | Some a \<Rightarrow> a); kind = file_kind attr in
     if has_attr attr 112 \<and> has_attr attr 108 then Inl ''file_attributes'' else
     and_then (if kind = ''symlink'' \<and> map_of d (ascii ''length'') = None then Inr 0 else length_of d ''length'') (\<lambda>len.
     if kind = ''symlink'' \<and> len \<noteq> 0 then Inl ''symlink_length'' else
     and_then (if kind = ''symlink'' then and_then (required d ''symlink path'') (\<lambda>v. and_then (path v) (\<lambda>p. Inr (Some p)))
               else Inr None) (\<lambda>raw_target.
     and_then (optional_bytes d ''sha1'') (\<lambda>osha.
     and_then (transpose (map_option (\<lambda>b. if length b = 20 then Inr (hex b) else Inl ''file_sha1_length'') osha)) (\<lambda>sha.
     and_then (charge bud (256 + length raw_path * 32 + path_cost raw_path
                 + (case raw_target of None \<Rightarrow> 0 | Some p \<Rightarrow> path_cost p))) (\<lambda>bud.
     and_then (charge bud (case shown of None \<Rightarrow> 0 | Some p \<Rightarrow> sum_list (map (\<lambda>s. length s + 1) p) * 2)) (\<lambda>bud.
     let (shown_path, lossy) = (case shown of None \<Rightarrow> (None, False)
           | Some p \<Rightarrow> (Some (fst (display_path p)), snd (display_path p)))
     in Inr (\<lparr>tf_path = shown_path, tf_length = len, tf_encoding_lossy = lossy, tf_kind = kind,
          tf_hidden = has_attr attr 104, tf_executable = has_attr attr 120,
          tf_symlink_path = map_option (\<lambda>p. fst (display_path p)) raw_target, tf_sha1 = sha,
          tf_raw_path = raw_path, tf_raw_target = raw_target\<rparr>, bud))))))))"

definition valid_text :: "bytes option \<Rightarrow> bytes option" where
  "valid_text o1 = (case o1 of None \<Rightarrow> None | Some b \<Rightarrow> if utf8_valid b then Some b else None)"

definition or_else :: "'a option \<Rightarrow> 'a option \<Rightarrow> 'a option" where
  "or_else a b = (case a of None \<Rightarrow> b | Some x \<Rightarrow> Some x)"

definition v1_entry :: "bytes \<Rightarrow> mvalue \<Rightarrow> nat \<Rightarrow> string + torrent_file \<times> nat" where
  "v1_entry display_name item bud =
     and_then (dictionary item) (\<lambda>f.
     and_then (optional_bytes f ''attr'') (\<lambda>a. let padding = (case a of None \<Rightarrow> False | Some a \<Rightarrow> has_attr a 112) in
     and_then (transpose (map_option path (or_else (map_of f (ascii ''path'')) (map_of f (ascii ''path.utf-8''))))) (\<lambda>raw.
     if raw = None \<and> \<not> padding then Inl ''missing_path'' else
     and_then (transpose (map_option path (map_of f (ascii ''path.utf-8'')))) (\<lambda>u.
     let preferred = (case u of None \<Rightarrow> raw | Some p \<Rightarrow> if list_all utf8_valid p then Some p else raw);
         shown = map_option (\<lambda>p. display_name # p) preferred
     in info_file f (case raw of None \<Rightarrow> [] | Some p \<Rightarrow> p) shown bud))))"

fun v1_entries :: "bytes \<Rightarrow> mvalue list \<Rightarrow> nat \<Rightarrow> string + torrent_file list \<times> nat" where
  "v1_entries display_name [] bud = Inr ([], bud)"
| "v1_entries display_name (item # items) bud = and_then (v1_entry display_name item bud) (\<lambda>(f, bud).
     and_then (v1_entries display_name items bud) (\<lambda>(fs, bud). Inr (f # fs, bud)))"

definition v1_files :: "dict \<Rightarrow> nat \<Rightarrow> string + torrent_file list \<times> nat" where
  "v1_files d bud =
     and_then (required d ''name'') (\<lambda>v. and_then (bytes_of v) (\<lambda>raw_name. and_then (segment raw_name) (\<lambda>_.
     and_then (optional_bytes d ''name.utf-8'') (\<lambda>u.
     let display_name = (case valid_text u of None \<Rightarrow> raw_name | Some b \<Rightarrow> b) in
     case map_of d (ascii ''files'') of
       Some (MList items) \<Rightarrow>
         if map_of d (ascii ''length'') = None \<and> items \<noteq> [] then v1_entries display_name items bud else Inl ''file_layout''
     | None \<Rightarrow> and_then (info_file d [raw_name] (Some [display_name]) bud) (\<lambda>(f, bud). Inr ([f], bud))
     | Some _ \<Rightarrow> Inl ''file_layout''))))"

definition add_length :: "nat \<Rightarrow> nat \<Rightarrow> string + nat" where
  "add_length a b = ok_or (checked_add64 a b) ''length_overflow''"

definition check_v1 :: "dict \<Rightarrow> torrent_file list \<Rightarrow> nat \<Rightarrow> string + nat" where
  "check_v1 d files piece_length =
     and_then (required d ''pieces'') (\<lambda>v. and_then (bytes_of v) (\<lambda>pieces.
     and_then (try_fold (\<lambda>sum f. add_length sum (tf_length f)) 0 files) (\<lambda>total.
     if length pieces mod 20 \<noteq> 0 \<or> length pieces div 20 \<noteq> div_ceil total piece_length then Inl ''piece_count''
     else Inr (length pieces div 20))))"

fun tree :: "mvalue \<Rightarrow> bytes list \<Rightarrow> torrent_file list \<Rightarrow> nat \<Rightarrow> string + torrent_file list \<times> nat"
  and tree_children :: "dict \<Rightarrow> bytes list \<Rightarrow> torrent_file list \<Rightarrow> nat \<Rightarrow> string + torrent_file list \<times> nat" where
  "tree (MDict d) p out bud =
     (case map_of d [] of
        Some leaf \<Rightarrow>
          if p = [] \<or> length d \<noteq> 1 then Inl ''file_tree_conflict'' else
          and_then (dictionary leaf) (\<lambda>properties.
          and_then (info_file properties p (Some p) bud) (\<lambda>(f, bud).
          if tf_kind f = ''padding'' then Inl ''v2_padding_file'' else
          and_then (optional_bytes properties ''pieces root'') (\<lambda>root.
          if tf_length f > 0 \<and> root = None \<or> (case root of None \<Rightarrow> False | Some r \<Rightarrow> length r \<noteq> 32)
          then Inl ''pieces_root'' else Inr (out @ [f], bud))))
      | None \<Rightarrow> tree_children d p out bud)"
| "tree _ p out bud = Inl ''dictionary_type''"
| "tree_children [] p out bud = Inr (out, bud)"
| "tree_children ((name, child) # d) p out bud =
     and_then (segment name) (\<lambda>_. and_then (tree child (p @ [name]) out bud) (\<lambda>(out, bud). tree_children d p out bud))"

section \<open>Layout\<close>

text \<open>The next piece boundary at or after an offset.\<close>

definition align_up :: "nat \<Rightarrow> nat \<Rightarrow> string + nat" where
  "align_up piece_length n = add_length n ((piece_length - n mod piece_length) mod piece_length)"

text \<open>
  One round of the hybrid comparison; its state is the v1 offset, the end of the v2 layout and the index
  of the next v2 file.
\<close>

definition hybrid_step :: "nat \<Rightarrow> torrent_file list \<Rightarrow> nat \<times> nat \<times> nat \<Rightarrow> torrent_file
    \<Rightarrow> (string + nat \<times> nat \<times> nat) option" where
  "hybrid_step piece_length files st f =
     (let (offset, v2_end, index) = st;
          finish = (\<lambda>v2_end index. and_then (add_length offset (tf_length f)) (\<lambda>offset. Inr (offset, v2_end, index)))
      in if tf_kind f = ''padding'' then Some (finish v2_end index)
         else if index \<ge> length files then None
         else let v2 = files ! index in Some (
           and_then (if tf_length f > 0
             then and_then (align_up piece_length v2_end) (\<lambda>aligned.
                  if offset \<noteq> aligned then Inl ''hybrid_layout'' else add_length aligned (tf_length f))
             else Inr v2_end) (\<lambda>v2_end.
           if tf_raw_path f \<noteq> tf_raw_path v2 \<or> tf_length f \<noteq> tf_length v2 \<or> tf_kind f \<noteq> tf_kind v2
              \<or> tf_raw_target f \<noteq> tf_raw_target v2 \<or> (tf_length f > 0 \<and> offset mod piece_length \<noteq> 0)
           then Inl ''hybrid_layout'' else finish v2_end (index + 1))))"

fun hybrid_loop :: "nat \<Rightarrow> torrent_file list \<Rightarrow> nat \<times> nat \<times> nat \<Rightarrow> torrent_file list
    \<Rightarrow> (string + nat \<times> nat \<times> nat) option" where
  "hybrid_loop piece_length files st [] = Some (Inr st)"
| "hybrid_loop piece_length files st (f # fs) = (case hybrid_step piece_length files st f of
     None \<Rightarrow> None
   | Some (Inl e) \<Rightarrow> Some (Inl e)
   | Some (Inr st) \<Rightarrow> hybrid_loop piece_length files st fs)"

abbreviation regular :: "torrent_file list \<Rightarrow> torrent_file list" where
  "regular files \<equiv> filter (\<lambda>f. tf_kind f \<noteq> ''padding'') files"

definition hybrid_check :: "dict \<Rightarrow> nat \<Rightarrow> torrent_file list \<Rightarrow> torrent_file list \<Rightarrow> (string + unit) option" where
  "hybrid_check d piece_length files legacy =
     (case check_v1 d legacy piece_length of
        Inl e \<Rightarrow> Some (Inl e)
      | Inr _ \<Rightarrow>
         if length (regular legacy) \<noteq> length files then Some (Inl ''hybrid_layout'')
         else (case hybrid_loop piece_length files (0, 0, 0) legacy of
             None \<Rightarrow> None
           | Some (Inl e) \<Rightarrow> Some (Inl e)
           | Some (Inr (offset, v2_end, _)) \<Rightarrow> Some (and_then (align_up piece_length v2_end) (\<lambda>end_boundary.
               if offset > end_boundary then Inl ''hybrid_layout'' else Inr ()))))"

text \<open>The files of the dictionary, with the v1 list in place of the tree for a hybrid torrent.\<close>

definition layout :: "dict \<Rightarrow> bool \<Rightarrow> bool \<Rightarrow> nat \<Rightarrow> nat \<Rightarrow> (string + torrent_file list) option" where
  "layout d v2 has_v1 piece_length bud =
     (case (if v2 then and_then (required d ''file tree'') (\<lambda>v. and_then (tree v [] [] bud) (\<lambda>(files, bud).
                if files = [] then Inl ''empty_file_tree'' else Inr (files, bud)))
            else v1_files d bud) of
        Inl e \<Rightarrow> Some (Inl e)
      | Inr (files, bud) \<Rightarrow>
         if v2 \<and> has_v1 then
           (case v1_files d bud of
              Inl e \<Rightarrow> Some (Inl e)
            | Inr (legacy, bud) \<Rightarrow> map_option (\<lambda>r. and_then r (\<lambda>_. Inr legacy)) (hybrid_check d piece_length files legacy))
         else Some (Inr files))"

record sizes =
  sz_total :: nat
  sz_padding :: nat
  sz_space :: nat
  sz_pieces :: nat

definition add_file :: "bool \<Rightarrow> nat \<Rightarrow> sizes \<Rightarrow> torrent_file \<Rightarrow> string + sizes" where
  "add_file pure_v2 piece_length s f =
     and_then (if tf_kind f = ''padding''
       then and_then (add_length (sz_padding s) (tf_length f)) (\<lambda>n. Inr (s\<lparr>sz_padding := n\<rparr>))
       else and_then (add_length (sz_total s) (tf_length f)) (\<lambda>n. Inr (s\<lparr>sz_total := n\<rparr>))) (\<lambda>s.
     and_then (if pure_v2 \<and> tf_length f > 0
       then and_then (align_up piece_length (sz_space s)) (\<lambda>n.
            and_then (add_length (sz_pieces s) (div_ceil (tf_length f) piece_length)) (\<lambda>c.
            Inr (s\<lparr>sz_space := n, sz_pieces := c\<rparr>)))
       else Inr s) (\<lambda>s.
     and_then (add_length (sz_space s) (tf_length f)) (\<lambda>n. Inr (s\<lparr>sz_space := n\<rparr>))))"

definition no_sizes :: sizes where
  "no_sizes = \<lparr>sz_total = 0, sz_padding = 0, sz_space = 0, sz_pieces = 0\<rparr>"

text \<open>\<open>windows(2)\<close>: does a path of the sorted list start with the one before it?\<close>

fun adjacent_conflict :: "bytes list list \<Rightarrow> bool" where
  "adjacent_conflict (p # q # ps) = (prefix p q \<or> adjacent_conflict (q # ps))"
| "adjacent_conflict _ = False"

text \<open>\<open>binary_search\<close> of a sorted slice: found, or the position that keeps it sorted.\<close>

definition binary_search :: "'a::linorder list \<Rightarrow> 'a \<Rightarrow> nat + unit" where
  "binary_search xs t = (if t \<in> set xs then Inr () else Inl (length (filter (\<lambda>x. x < t) xs)))"

definition target_ok :: "bytes list list \<Rightarrow> bytes list \<Rightarrow> bool" where
  "target_ok paths target = (case binary_search paths target of
     Inr _ \<Rightarrow> True
   | Inl index \<Rightarrow> index < length paths \<and> prefix target (paths ! index))"

definition check_paths :: "torrent_file list \<Rightarrow> string + unit" where
  "check_paths files =
     (let paths = sort (map tf_raw_path (regular files)) in
      if adjacent_conflict paths then Inl ''path_conflict''
      else if list_ex (\<lambda>f. case tf_raw_target f of None \<Rightarrow> False | Some t \<Rightarrow> \<not> target_ok paths t) files
      then Inl ''dangling_symlink'' else Inr ())"

section \<open>Analysis\<close>

record parsed_info =
  pi_format :: string
  pi_name :: rstring
  pi_total_length :: nat
  pi_piece_space_length :: nat
  pi_padding_length :: nat
  pi_file_count :: nat
  pi_piece_length :: nat
  pi_piece_count :: nat
  pi_private :: "bool option"
  pi_files :: "torrent_file list"
  pi_encoding_lossy :: bool

record analysis =
  an_format :: string
  an_status :: string
  an_reason :: "string option"
  an_parsed :: "parsed_info option"

fun is_power_of_two :: "nat \<Rightarrow> bool" where
  "is_power_of_two n = (if n = 0 then False else n = 1 \<or> n mod 2 = 0 \<and> is_power_of_two (n div 2))"

declare is_power_of_two.simps [simp del]

definition private_flag :: "dict \<Rightarrow> string + bool option" where
  "private_flag d = transpose (map_option (\<lambda>v. and_then (integer v) (\<lambda>n.
     if n = 0 then Inr False else if n = 1 then Inr True else Inl ''private_flag'')) (map_of d (ascii ''private'')))"

definition root_name :: "dict \<Rightarrow> string + rstring \<times> bool" where
  "root_name d =
     and_then (optional_bytes d ''name.utf-8'') (\<lambda>u. and_then (optional_bytes d ''name'') (\<lambda>n.
     Inr (display (case or_else (valid_text u) n of None \<Rightarrow> [] | Some b \<Rightarrow> b))))"

definition root_piece_length :: "dict \<Rightarrow> bool \<Rightarrow> string + nat" where
  "root_piece_length d v2 = and_then (length_of d ''piece length'') (\<lambda>n.
     if n = 0 \<or> v2 \<and> (n < 16384 \<or> \<not> is_power_of_two n) then Inl ''piece_length'' else Inr n)"

text \<open>The checks of a dictionary whose version is known.\<close>

definition format_name :: "bool \<Rightarrow> bool \<Rightarrow> string" where
  "format_name v2 has_v1 = (if v2 then if has_v1 then ''hybrid'' else ''v2'' else ''v1'')"

definition finish_info :: "dict \<Rightarrow> bool \<Rightarrow> bool \<Rightarrow> rstring \<Rightarrow> bool \<Rightarrow> nat \<Rightarrow> bool option \<Rightarrow> torrent_file list
    \<Rightarrow> string + parsed_info" where
  "finish_info d v2 has_v1 name name_lossy piece_length private files =
     and_then (try_fold (add_file (v2 \<and> \<not> has_v1) piece_length) no_sizes files) (\<lambda>s.
     and_then (if v2 \<and> \<not> has_v1 then Inr (sz_pieces s) else check_v1 d files piece_length) (\<lambda>pieces.
     and_then (check_paths files) (\<lambda>_.
     Inr \<lparr>pi_format = format_name v2 has_v1, pi_name = name, pi_total_length = sz_total s,
       pi_piece_space_length = sz_space s, pi_padding_length = sz_padding s,
       pi_file_count = length (regular files), pi_piece_length = piece_length, pi_piece_count = pieces,
       pi_private = private, pi_files = files,
       pi_encoding_lossy = name_lossy \<or> list_ex tf_encoding_lossy files\<rparr>)))"

definition analyze_dict :: "dict \<Rightarrow> bool \<Rightarrow> bool \<Rightarrow> nat \<Rightarrow> (string + parsed_info) option" where
  "analyze_dict d v2 has_v1 bud =
     (case and_then (root_name d) (\<lambda>(name, lossy). and_then (root_piece_length d v2) (\<lambda>pl.
           and_then (private_flag d) (\<lambda>private. Inr (name, lossy, pl, private)))) of
        Inl e \<Rightarrow> Some (Inl e)
      | Inr (name, lossy, pl, private) \<Rightarrow>
          map_option (\<lambda>r. and_then r (finish_info d v2 has_v1 name lossy pl private)) (layout d v2 has_v1 pl bud))"

definition read_root :: "decoder \<Rightarrow> bytes \<Rightarrow> string + mvalue \<times> nat" where
  "read_root decode info =
     (if info = [] \<or> length info > MAX_BYTES then Inl ''metadata_size'' else
      and_then (ok_or (fst (decode info)) ''invalid_bencode'') (\<lambda>o1.
      and_then (ok_or o1 ''missing_dictionary'') (\<lambda>object.
      and_then (value_of object PARSE_BUDGET) (\<lambda>(root, bud).
      and_then (ok_or (snd (decode info)) ''invalid_bencode'') (\<lambda>more.
      if more then Inl ''trailing_data'' else Inr (root, bud))))))"

definition read_version :: "decoder \<Rightarrow> bytes \<Rightarrow> string + dict \<times> bool \<times> nat" where
  "read_version decode info =
     and_then (read_root decode info) (\<lambda>(root, bud). and_then (dictionary root) (\<lambda>d.
     and_then (transpose (map_option integer (map_of d (ascii ''meta version'')))) (\<lambda>version.
     case version of
       Some v \<Rightarrow> if v \<noteq> 2 then Inl ''unsupported_meta_version'' else Inr (d, True, bud)
     | None \<Rightarrow> Inr (d, False, bud))))"

definition refused :: "string \<Rightarrow> string \<Rightarrow> analysis" where
  "refused format reason = \<lparr>an_format = format,
     an_status = (if reason = ''unsupported_meta_version'' then ''unsupported'' else ''invalid''),
     an_reason = Some reason, an_parsed = None\<rparr>"

definition analyze :: "decoder \<Rightarrow> bytes \<Rightarrow> analysis option" where
  "analyze decode info =
     (case read_version decode info of
        Inl e \<Rightarrow> Some (refused ''unknown'' e)
      | Inr (d, v2, bud) \<Rightarrow>
         (let has_v1 = (map_of d (ascii ''pieces'') \<noteq> None); format = format_name v2 has_v1 in
          map_option (\<lambda>r. case r of Inl e \<Rightarrow> refused format e
            | Inr p \<Rightarrow> \<lparr>an_format = format, an_status = ''valid'', an_reason = None, an_parsed = Some p\<rparr>)
          (analyze_dict d v2 has_v1 bud)))"

section \<open>Identities\<close>

text \<open>\<open>is_v2\<close> reads keys until the version key, an error or the end; nothing after it matters.\<close>

definition is_v2 :: "decoder \<Rightarrow> bytes \<Rightarrow> bool" where
  "is_v2 decode info = (case fst (decode info) of
     Some (Some (RDict items _)) \<Rightarrow>
       (case map_of items (ascii ''meta version'') of Some (RInteger t) \<Rightarrow> t = ascii ''2'' | _ \<Rightarrow> False)
   | _ \<Rightarrow> False)"

definition match_identity :: "(bytes \<Rightarrow> bytes) \<Rightarrow> (bytes \<Rightarrow> bytes) \<Rightarrow> decoder \<Rightarrow> bytes \<Rightarrow> swarm_key \<Rightarrow> torrent_identity option" where
  "match_identity sha1 sha256 decode info key =
     (if sha1 info = key_bytes key then Some (TV1 (InfoHashV1 (sha1 info)))
      else if is_v2 decode info then
        (if take 20 (sha256 info) = key_bytes key then Some (TV2 (InfoHashV2 (sha256 info))) else None)
      else None)"

definition identities :: "(bytes \<Rightarrow> bytes) \<Rightarrow> (bytes \<Rightarrow> bytes) \<Rightarrow> bytes \<Rightarrow> torrent_identity \<Rightarrow> analysis \<Rightarrow> torrent_identity list" where
  "identities sha1 sha256 info source a =
     (if an_status a = ''valid'' \<and> an_format a = ''hybrid''
      then [TV1 (InfoHashV1 (sha1 info)), TV2 (InfoHashV2 (sha256 info))] else [source])"

end
