(* ===== verification/MetainfoProps.thy ===== *)
theory MetainfoProps
  imports Metainfo
begin

text \<open>
  What an analysis that ends in \<open>valid\<close> guarantees about names, sizes, layout and the work spent.
\<close>

section \<open>Files\<close>

definition segment_ok :: "bytes \<Rightarrow> bool" where
  "segment_ok b \<longleftrightarrow> b \<noteq> [] \<and> b \<noteq> ascii ''.'' \<and> b \<noteq> ascii ''..'' \<and> 47 \<notin> set b \<and> 92 \<notin> set b \<and> 0 \<notin> set b"

lemma segment_Inr [simp]: "segment b = Inr u \<longleftrightarrow> segment_ok b"
  by (auto simp: segment_def segment_ok_def)

definition path_ok :: "bytes list \<Rightarrow> bool" where
  "path_ok p \<longleftrightarrow> p \<noteq> [] \<and> (\<forall>b\<in>set p. segment_ok b)"

lemma path_Inr: "path v = Inr p \<Longrightarrow> path_ok p"
proof (cases v)
  case (MList items)
  assume "path v = Inr p"
  then have "items \<noteq> []" and l: "list_all2 (\<lambda>x y. and_then (bytes_of x) (\<lambda>b. and_then (segment b) (\<lambda>_. Inr b)) = Inr y) items p"
    using MList by (auto simp: try_map_Inr split: if_splits)
  then have "p \<noteq> []" by auto
  moreover have "\<forall>b\<in>set p. segment_ok b"
    using l by (auto simp: list_all2_conv_all_nth in_set_conv_nth)
  ultimately show "path_ok p" by (simp add: path_ok_def)
qed simp_all

lemma charge_Inr [simp]: "charge b n = Inr c \<longleftrightarrow> c + n = b"
  by (auto simp: charge_def)

lemma transpose_Inr: "transpose r = Inr v \<longleftrightarrow> (r = None \<and> v = None) \<or> (\<exists>x. r = Some (Inr x) \<and> v = Some x)"
  by (cases "(r, v)" rule: prod.exhaust; cases r rule: transpose.cases) auto

definition file_ok :: "torrent_file \<Rightarrow> bool" where
  "file_ok f \<longleftrightarrow> (\<forall>t. tf_raw_target f = Some t \<longrightarrow> path_ok t) \<and> (tf_raw_target f = None \<longleftrightarrow> tf_kind f \<noteq> ''symlink'') \<and>
     tf_kind f \<in> {''file'', ''padding'', ''symlink''} \<and> (tf_kind f = ''symlink'' \<longrightarrow> tf_length f = 0)"

definition file_cost :: "torrent_file \<Rightarrow> nat" where
  "file_cost f = 256 + length (tf_raw_path f) * 32 + path_cost (tf_raw_path f)"

lemma file_kind_cases: "file_kind a = ''file'' \<or> file_kind a = ''padding'' \<or> file_kind a = ''symlink''"
  by (simp add: file_kind_def)

definition attr_kind :: "dict \<Rightarrow> string \<Rightarrow> bool" where
  "attr_kind d k \<longleftrightarrow> (\<forall>a. optional_bytes d ''attr'' = Inr a \<longrightarrow> k = file_kind (case a of None \<Rightarrow> [] | Some a \<Rightarrow> a))"

lemma info_file_effect:
  "ensures (info_file d rp sh bud) (\<lambda>(f, bud'). tf_raw_path f = rp \<and> file_ok f \<and> attr_kind d (tf_kind f) \<and>
     bud' + file_cost f \<le> bud)"
  unfolding info_file_def Let_def case_prod_beta
  by ((rule ensures_intros | rule ensures_all)+,
      (use file_kind_cases in \<open>force simp: file_ok_def attr_kind_def file_cost_def dest: path_Inr\<close>)?)+

definition entry_ok :: "torrent_file \<Rightarrow> bool" where
  "entry_ok f \<longleftrightarrow> file_ok f \<and> (\<forall>b\<in>set (tf_raw_path f). segment_ok b) \<and> (tf_kind f \<noteq> ''padding'' \<longrightarrow> tf_raw_path f \<noteq> [])"

definition files_cost :: "torrent_file list \<Rightarrow> nat" where
  "files_cost fs = sum_list (map file_cost fs)"

lemma files_cost_simps [simp]:
  "files_cost [] = 0" "files_cost (f # fs) = file_cost f + files_cost fs" "files_cost (fs @ gs) = files_cost fs + files_cost gs"
  by (simp_all add: files_cost_def)

definition entry_post :: "nat \<Rightarrow> torrent_file \<times> nat \<Rightarrow> bool" where
  "entry_post bud r \<longleftrightarrow> entry_ok (fst r) \<and> snd r + file_cost (fst r) \<le> bud"

definition files_post :: "nat \<Rightarrow> torrent_file list \<times> nat \<Rightarrow> bool" where
  "files_post bud r \<longleftrightarrow> (\<forall>f\<in>set (fst r). entry_ok f) \<and> snd r + files_cost (fst r) \<le> bud"

lemma info_file_entry:
  assumes "\<forall>b\<in>set rp. segment_ok b"
    and "rp = [] \<Longrightarrow> \<exists>a. optional_bytes d ''attr'' = Inr (Some a) \<and> has_attr a 112"
  shows "ensures (info_file d rp sh bud) (entry_post bud)"
  by (rule ensures_mono [OF info_file_effect])
    (use assms in \<open>auto simp: entry_post_def entry_ok_def attr_kind_def file_kind_def\<close>)

lemma v1_entry_post: "ensures (v1_entry name item bud) (entry_post bud)"
  unfolding v1_entry_def Let_def
  by (rule ensures_intros ensures_all info_file_entry)+
    (auto simp: transpose_Inr path_ok_def split: option.splits dest!: path_Inr)

lemma v1_entries_post: "ensures (v1_entries name items bud) (files_post bud)"
proof (induction items arbitrary: bud)
  case (Cons item items)
  have "ensures (v1_entries name items b) (\<lambda>x. ensures (case x of (fs, b') \<Rightarrow> Inr (f # fs, b')) (files_post bud))"
    if "entry_post bud (f, b)" for f b
    by (rule ensures_mono [OF Cons.IH]) (use that in \<open>auto simp: files_post_def entry_post_def\<close>)
  then show ?case
    by (auto intro!: ensures_bind ensures_mono [OF v1_entry_post])
qed (simp add: files_post_def)

lemma v1_files_post: "ensures (v1_files d bud) (files_post bud)"
proof -
  have one: "ensures (and_then (info_file d [n] sh bud) (\<lambda>(f, bud). Inr ([f], bud))) (files_post bud)" if "segment_ok n" for n sh
    by (rule ensures_bind, rule ensures_mono [OF info_file_entry]) (use that in \<open>auto simp: entry_post_def files_post_def\<close>)
  have body: "ensures (case fs of
       Some (MList items) \<Rightarrow> if c \<and> items \<noteq> [] then v1_entries dn items bud else Inl e
     | None \<Rightarrow> and_then (info_file d [n] sh bud) (\<lambda>(f, bud). Inr ([f], bud))
     | Some _ \<Rightarrow> Inl e) (files_post bud)" if "segment_ok n" for fs c n dn sh and e :: string
    by (cases fs; cases "the fs") (use v1_entries_post one [OF that] in auto)
  show ?thesis
    unfolding v1_files_def Let_def
    by (rule ensures_bind, rule ensures_all)+ (rule body, simp)
qed

section \<open>The file tree\<close>

text \<open>Nodes of a tree that were accepted are neither padding nor without a path.\<close>

definition tree_post :: "torrent_file list \<Rightarrow> nat \<Rightarrow> torrent_file list \<times> nat \<Rightarrow> bool" where
  "tree_post out bud r \<longleftrightarrow> (\<exists>fs. fst r = out @ fs \<and> (\<forall>f\<in>set fs. entry_ok f \<and> tf_kind f \<noteq> ''padding'') \<and>
     snd r + files_cost fs \<le> bud)"

lemma tree_leaf_post:
  assumes "\<forall>b\<in>set p. segment_ok b" and "p \<noteq> []"
  shows "ensures (and_then (info_file props p (Some p) bud) (\<lambda>(f, bud).
       if tf_kind f = ''padding'' then Inl e1 else
       and_then r (\<lambda>root. if c f root then Inl e2 else Inr (out @ [f], bud)))) (tree_post out bud)"
proof (rule ensures_bind, rule ensures_mono [OF info_file_entry])
  fix x
  assume "entry_post bud x"
  then have ok: "tf_kind (fst x) \<noteq> ''padding'' \<Longrightarrow> tree_post out bud (out @ [fst x], snd x)"
    by (auto simp: entry_post_def tree_post_def)
  show "ensures (case x of (f, bud) \<Rightarrow> if tf_kind f = ''padding'' then Inl e1 else
       and_then r (\<lambda>root. if c f root then Inl e2 else Inr (out @ [f], bud))) (tree_post out bud)"
    unfolding case_prod_beta
    by (rule ensures_if, rule ensures_Inl, rule ensures_bind, rule ensures_all, rule ensures_if,
        rule ensures_Inl, rule ensures_Inr, rule ok)
qed (use assms in auto)

lemma tree_effect:
  "\<forall>b\<in>set p. segment_ok b \<Longrightarrow> ensures (tree v p out bud) (tree_post out bud)"
  "\<forall>b\<in>set p. segment_ok b \<Longrightarrow> ensures (tree_children d p out bud) (tree_post out bud)"
proof (induction v p out bud and d p out bud rule: tree_tree_children.induct)
  case (1 d p out bud)
  show ?case
  proof (cases "map_of d []")
    case None
    then show ?thesis using 1 by simp
  next
    case (Some leaf)
    show ?thesis unfolding tree.simps Some option.case
      by (rule ensures_if, rule ensures_Inl, rule ensures_bind, rule ensures_all, rule tree_leaf_post)
        (use 1(2) in auto)
  qed
next
  case (4 name child d p out bud)
  show ?case unfolding tree_children.simps
  proof (rule ensures_bind, rule ensures_all, rule ensures_bind, rule ensures_mono)
    fix u assume s: "segment name = Inr u"
    then have p: "\<forall>b\<in>set (p @ [name]). segment_ok b" using 4(3) by auto
    show "ensures (tree child (p @ [name]) out bud) (tree_post out bud)" by (rule 4(1) [OF p])
    fix x assume x: "tree child (p @ [name]) out bud = Inr x" and post: "tree_post out bud x"
    obtain out1 bud1 where xe: "x = (out1, bud1)" by (cases x)
    have "ensures (tree_children d p out1 bud1) (tree_post out1 bud1)"
      by (rule 4(2)) (use x xe 4(3) in auto)
    then have "ensures (tree_children d p out1 bud1) (tree_post out bud)"
      by (rule ensures_mono) (use post xe in \<open>auto simp: tree_post_def\<close>)
    then show "ensures (case x of (out, bud) \<Rightarrow> tree_children d p out bud) (tree_post out bud)" by (simp add: xe)
  qed
qed (simp_all add: tree_post_def)

section \<open>Reading is charged\<close>

fun nodes :: "mvalue \<Rightarrow> nat" where
  "nodes (MBytes b) = 1"
| "nodes (MInteger n) = 1"
| "nodes (MList vs) = 1 + sum_list (map nodes vs)"
| "nodes (MDict d) = 1 + sum_list (map (\<lambda>(k, v). nodes v) d)"

abbreviation dict_nodes :: "dict \<Rightarrow> nat" where
  "dict_nodes d \<equiv> sum_list (map (\<lambda>(k, v). nodes v) d)"

lemma dict_nodes_put: "dict_nodes (bt_put k v d) = nodes v + dict_nodes d"
  by (induction k v d rule: bt_put.induct) auto

lemma value_charged:
  "value_of r bud = Inr (v, b) \<Longrightarrow> b + 96 * nodes v = bud"
  "values_of rs br bud = Inr (vs, b) \<Longrightarrow> b + 96 * sum_list (map nodes vs) = bud"
  "pairs_of ps br d bud = Inr (d', b) \<Longrightarrow> b + 96 * dict_nodes d' = bud + 96 * dict_nodes d"
proof (induction r bud and rs br bud and ps br d bud arbitrary: v b and vs b and d' b
    rule: value_of_values_of_pairs_of.induct)
  case (3 items br bud)
  from 3(2) obtain c vs where "c + 96 = bud" "values_of items br c = Inr (vs, b)" "v = MList vs" by auto
  then show ?case using 3(1) [of c vs b] by simp
next
  case (4 items br bud)
  from 4(2) obtain c d where "c + 96 = bud" "pairs_of items br [] c = Inr (d, b)" "v = MDict d" by auto
  then show ?case using 4(1) [of c d b] by simp
next
  case (6 x xs br bud)
  from 6(3) obtain w c ws where w: "value_of x bud = Inr (w, c)" and ws: "values_of xs br c = Inr (ws, b)"
    and v: "vs = w # ws" by auto
  show ?case using 6(1) [OF w] 6(2) [OF ws] v by simp
next
  case (8 k x xs br d bud)
  from 8(3) obtain w c where w: "value_of x bud = Inr (w, c)" and k: "map_of d k = None"
    and ws: "pairs_of xs br (bt_put k w d) c = Inr (d', b)" by (auto split: if_splits)
  have "b + 96 * dict_nodes d' = c + 96 * dict_nodes (bt_put k w d)" by (rule 8(2)) (use w k ws in auto)
  then show ?case using 8(1) [OF w] by (simp add: dict_nodes_put)
qed (auto split: if_splits)

section \<open>The hybrid comparison\<close>

definition same_file :: "torrent_file \<Rightarrow> torrent_file \<Rightarrow> bool" where
  "same_file f g \<longleftrightarrow> tf_raw_path f = tf_raw_path g \<and> tf_length f = tf_length g \<and> tf_kind f = tf_kind g \<and>
     tf_raw_target f = tf_raw_target g"

abbreviation total_length :: "torrent_file list \<Rightarrow> nat" where
  "total_length fs \<equiv> sum_list (map tf_length fs)"

text \<open>Every regular file that is not empty begins at a piece boundary.\<close>

definition aligned :: "nat \<Rightarrow> nat \<Rightarrow> torrent_file list \<Rightarrow> bool" where
  "aligned piece_length offset fs \<longleftrightarrow> (\<forall>ys f zs. fs = ys @ f # zs \<longrightarrow> tf_kind f \<noteq> ''padding'' \<longrightarrow> 0 < tf_length f \<longrightarrow>
     (offset + total_length ys) mod piece_length = 0)"

lemma aligned_Nil [simp]: "aligned pl off []"
  by (simp add: aligned_def)

lemma aligned_Cons:
  "aligned pl off (f # fs) \<longleftrightarrow> (tf_kind f \<noteq> ''padding'' \<longrightarrow> 0 < tf_length f \<longrightarrow> off mod pl = 0) \<and>
     aligned pl (off + tf_length f) fs"
  (is "?l = ?r")
proof
  assume a: ?l
  have "(off + tf_length f + total_length ys) mod pl = 0"
    if "fs = ys @ g # zs" "tf_kind g \<noteq> ''padding''" "0 < tf_length g" for ys g zs
    using a [unfolded aligned_def, rule_format, of "f # ys" g zs] that by (simp add: add.assoc)
  moreover have "tf_kind f \<noteq> ''padding'' \<longrightarrow> 0 < tf_length f \<longrightarrow> off mod pl = 0"
    using a [unfolded aligned_def, rule_format, of "[]" f fs] by simp
  ultimately show ?r unfolding aligned_def by blast
next
  assume r: ?r
  show ?l unfolding aligned_def
  proof (intro allI impI)
    fix ys g zs
    assume "f # fs = ys @ g # zs" "tf_kind g \<noteq> ''padding''" "0 < tf_length g"
    then show "(off + total_length ys) mod pl = 0"
      using r by (cases ys) (auto simp: aligned_def add.assoc)
  qed
qed

lemma hybrid_step_total: "index < length files \<or> tf_kind f = ''padding'' \<Longrightarrow> hybrid_step pl files (off, e, index) f \<noteq> None"
  by (auto simp: hybrid_step_def Let_def)

lemma hybrid_step_effect:
  assumes "hybrid_step pl files (off, e, index) f = Some (Inr (off', e', index'))"
  shows "off' = off + tf_length f \<and> (if tf_kind f = ''padding'' then index' = index
     else index' = index + 1 \<and> index < length files \<and> same_file f (files ! index) \<and> (0 < tf_length f \<longrightarrow> off mod pl = 0))"
  using assms by (auto simp: hybrid_step_def Let_def same_file_def add_length_def split: if_splits)

lemma hybrid_loop_total:
  "index + length (regular fs) \<le> length files \<Longrightarrow> hybrid_loop pl files (off, e, index) fs \<noteq> None"
proof (induction fs arbitrary: off e index)
  case (Cons f fs)
  have "hybrid_step pl files (off, e, index) f \<noteq> None"
    by (rule hybrid_step_total) (use Cons.prems in auto)
  then obtain r where r: "hybrid_step pl files (off, e, index) f = Some r" by blast
  show ?case
  proof (cases r)
    case (Inr st)
    obtain off' e' index' where st: "st = (off', e', index')" by (cases st)
    from hybrid_step_effect [of pl files off e index f off' e' index'] r Inr st
    have "index' + length (regular fs) \<le> length files" using Cons.prems by (auto split: if_splits)
    from Cons.IH [OF this] show ?thesis using r Inr st by simp
  qed (use r in simp)
qed simp

lemma hybrid_loop_effect:
  "hybrid_loop pl files (off, e, index) fs = Some (Inr (off', e', index')) \<Longrightarrow>
   off' = off + total_length fs \<and> index' = index + length (regular fs) \<and> index' \<le> max index (length files) \<and>
   list_all2 same_file (regular fs) (take (length (regular fs)) (drop index files)) \<and> aligned pl off fs"
proof (induction fs arbitrary: off e index)
  case (Cons f fs)
  obtain o1 e1 i1 where st: "hybrid_step pl files (off, e, index) f = Some (Inr (o1, e1, i1))"
    and rest: "hybrid_loop pl files (o1, e1, i1) fs = Some (Inr (off', e', index'))"
    using Cons.prems by (auto split: option.splits sum.splits)
  note s = hybrid_step_effect [OF st]
  note ih = Cons.IH [OF rest]
  show ?case
  proof (cases "tf_kind f = ''padding''")
    case True
    then show ?thesis using s ih by (simp add: aligned_Cons)
  next
    case False
    then have i: "index < length files" and i1: "i1 = Suc index" using s by auto
    have "drop index files = files ! index # drop (Suc index) files" using i by (simp add: Cons_nth_drop_Suc)
    then show ?thesis using False s ih i i1 by (simp add: aligned_Cons)
  qed
qed (simp add: max_def)

section \<open>Paths\<close>

lemma prefix_between: "prefix p r \<Longrightarrow> p \<le> q \<Longrightarrow> q \<le> r \<Longrightarrow> prefix p (q :: 'a::linorder list)"
proof (induction p arbitrary: q r)
  case (Cons a p)
  from Cons.prems(1) obtain r' where r: "r = a # r'" and pr: "prefix p r'" by (cases r) auto
  from Cons.prems(2) obtain b q' where q: "q = b # q'" by (cases q) auto
  have "b = a" using Cons.prems(2,3) by (auto simp: q r)
  moreover from this have "prefix p q'" using Cons.IH [OF pr, of q'] Cons.prems(2,3) by (auto simp: q r)
  ultimately show ?case by (simp add: q)
qed simp

lemma prefix_le: "prefix p q \<Longrightarrow> p \<le> (q :: 'a::linorder list)"
proof (induction p arbitrary: q)
  case (Cons a p)
  then show ?case by (cases q) auto
qed simp

lemma no_adjacent_conflict:
  "sorted ps \<Longrightarrow> \<not> adjacent_conflict ps \<Longrightarrow> sorted_wrt (\<lambda>p q. \<not> prefix p q) ps"
proof (induction ps rule: adjacent_conflict.induct)
  case (1 p q ps)
  have "\<not> prefix p r" if "r \<in> set (q # ps)" for r
  proof
    assume "prefix p r"
    moreover have "p \<le> q" "q \<le> r" using 1(2) that by auto
    ultimately have "prefix p q" by (rule prefix_between)
    then show False using 1(3) by simp
  qed
  then show ?case using 1 by simp
qed simp_all

definition prefix_free :: "bytes list list \<Rightarrow> bool" where
  "prefix_free ps \<longleftrightarrow> distinct ps \<and> (\<forall>p\<in>set ps. \<forall>q\<in>set ps. prefix p q \<longrightarrow> p = q)"

lemma prefix_free_sort: "prefix_free (sort ps) \<longleftrightarrow> prefix_free ps"
  by (simp add: prefix_free_def)

lemma prefix_free_sorted_wrt:
  "sorted ps \<Longrightarrow> sorted_wrt (\<lambda>p q. \<not> prefix p q) ps \<Longrightarrow> prefix_free ps"
proof (induction ps)
  case (Cons p ps)
  then have pf: "prefix_free ps" and np: "\<forall>q\<in>set ps. \<not> prefix p q" by auto
  have "p \<notin> set ps" using np by auto
  moreover have "\<not> prefix q p" if "q \<in> set ps" for q
  proof
    assume "prefix q p"
    then have "q \<le> p" by (rule prefix_le)
    moreover have "p \<le> q" using Cons.prems(1) that by simp
    ultimately show False using np that by auto
  qed
  ultimately show ?case using pf np by (auto simp: prefix_free_def)
qed (simp add: prefix_free_def)

lemma sorted_filter_nth:
  "sorted xs \<Longrightarrow> p \<in> set xs \<Longrightarrow> \<not> p < t \<Longrightarrow> length (filter (\<lambda>x. x < t) xs) < length xs \<and>
   t \<le> xs ! length (filter (\<lambda>x. x < t) xs) \<and> xs ! length (filter (\<lambda>x. x < t) xs) \<le> (p :: 'a::linorder)"
proof (induction xs)
  case (Cons x xs)
  show ?case
  proof (cases "x < t")
    case True
    then show ?thesis using Cons by auto
  next
    case False
    then have "\<forall>y\<in>set xs. \<not> y < t" using Cons.prems(1) by auto
    then have "filter (\<lambda>x. x < t) (x # xs) = []" using False by (auto simp: filter_empty_conv)
    then show ?thesis using False Cons.prems by auto
  qed
qed simp

lemma target_ok_iff:
  assumes "sorted ps"
  shows "target_ok ps t \<longleftrightarrow> (\<exists>p\<in>set ps. prefix t p)"
proof
  assume "target_ok ps t"
  then show "\<exists>p\<in>set ps. prefix t p"
    by (auto simp: target_ok_def binary_search_def split: if_splits)
next
  assume "\<exists>p\<in>set ps. prefix t p"
  then obtain p where p: "p \<in> set ps" "prefix t p" by blast
  show "target_ok ps t"
  proof (cases "t \<in> set ps")
    case False
    have le: "t \<le> p" using p(2) by (rule prefix_le)
    note n = sorted_filter_nth [OF assms p(1), of t]
    have "prefix t (ps ! length (filter (\<lambda>x. x < t) ps))"
      by (rule prefix_between [OF p(2)]) (use n le in auto)
    then show ?thesis using False n le by (simp add: target_ok_def binary_search_def)
  qed (simp add: target_ok_def binary_search_def)
qed

lemma check_paths_effect:
  assumes "check_paths files = Inr ()"
  shows "prefix_free (map tf_raw_path (regular files)) \<and>
    (\<forall>f\<in>set files. \<forall>t. tf_raw_target f = Some t \<longrightarrow> (\<exists>g\<in>set (regular files). prefix t (tf_raw_path g)))"
proof -
  let ?ps = "sort (map tf_raw_path (regular files))"
  have s: "sorted ?ps" by simp
  have "\<not> adjacent_conflict ?ps" using assms by (auto simp: check_paths_def Let_def split: if_splits)
  then have "prefix_free ?ps" using no_adjacent_conflict [OF s] prefix_free_sorted_wrt [OF s] by blast
  then have "prefix_free (map tf_raw_path (regular files))" by (simp only: prefix_free_sort)
  moreover have "target_ok ?ps t" if "f \<in> set files" "tf_raw_target f = Some t" for f t
    using assms that by (fastforce simp: check_paths_def Let_def list_ex_iff split: if_splits)
  ultimately show ?thesis using target_ok_iff [OF s] by fastforce
qed

section \<open>Sizes\<close>

lemma align_up_effect:
  assumes "align_up pl n = Inr m" and "0 < pl"
  shows "pl dvd m \<and> n \<le> m \<and> m < n + pl"
proof -
  have m: "m = n + (pl - n mod pl) mod pl" using assms(1) by (simp add: align_up_def add_length_def)
  show ?thesis
  proof (cases "n mod pl = 0")
    case False
    have l: "n mod pl < pl" using assms(2) by simp
    have "m = n + (pl - n mod pl)" using m False assms(2) by (simp add: mod_less)
    moreover have "n + (pl - n mod pl) = n div pl * pl + pl"
      using l div_mult_mod_eq [of n pl] by linarith
    ultimately have m2: "m = n div pl * pl + pl" by simp
    have "n \<le> m \<and> m < n + pl" using m2 l False div_mult_mod_eq [of n pl] by linarith
    moreover have "pl dvd m" by (simp add: m2)
    ultimately show ?thesis by blast
  qed (use m assms(2) in auto)
qed

lemma multiples_close:
  assumes "pl dvd a" and "pl dvd b" and "n \<le> a" and "a < n + pl" and "n \<le> b" and "b < n + (pl :: nat)"
  shows "a = b"
proof -
  obtain i j where ij: "a = pl * i" "b = pl * j" using assms(1,2) by (auto simp: dvd_def)
  have "pl * i < pl * Suc j" "pl * j < pl * Suc i" using assms(3-) ij by auto
  then have "i < Suc j" "j < Suc i" by (metis mult_less_cancel1)+
  then show ?thesis using ij by simp
qed

definition sizes_inv :: "bool \<Rightarrow> nat \<Rightarrow> torrent_file list \<Rightarrow> sizes \<Rightarrow> bool" where
  "sizes_inv pure pl fs s \<longleftrightarrow>
     sz_total s = total_length (regular fs) \<and>
     sz_padding s = total_length (filter (\<lambda>f. tf_kind f = ''padding'') fs) \<and>
     (if pure then sz_pieces s = sum_list (map (\<lambda>f. div_ceil (tf_length f) pl) fs) \<and>
        total_length fs \<le> sz_space s \<and> sz_space s \<le> sz_pieces s * pl \<and> sz_pieces s * pl < sz_space s + pl
      else sz_space s = total_length fs) \<and> sz_space s < 2 ^ 64"

lemma add_file_inv:
  assumes "sizes_inv pure pl fs s" and "add_file pure pl s f = Inr s'" and "0 < pl"
  shows "sizes_inv pure pl (fs @ [f]) s'"
proof (cases "pure \<and> 0 < tf_length f")
  case False
  then show ?thesis using assms
    by (auto simp: sizes_inv_def add_file_def add_length_def div_ceil_def split: if_splits)
next
  case True
  let ?c = "div_ceil (tf_length f) pl"
  from True assms(2) obtain n where n: "align_up pl (sz_space s) = Inr n"
    and s': "sz_space s' = n + tf_length f" "sz_pieces s' = sz_pieces s + ?c" "n + tf_length f < 2 ^ 64"
    "sz_total s' = (if tf_kind f = ''padding'' then sz_total s else sz_total s + tf_length f)"
    "sz_padding s' = (if tf_kind f = ''padding'' then sz_padding s + tf_length f else sz_padding s)"
    by (auto simp: add_file_def add_length_def split: if_splits)
  have inv: "sz_space s \<le> sz_pieces s * pl" "sz_pieces s * pl < sz_space s + pl"
    using assms(1) True by (auto simp: sizes_inv_def)
  have "n = sz_pieces s * pl"
    by (rule multiples_close [of pl _ _ "sz_space s"]) (use align_up_effect [OF n assms(3)] inv in auto)
  moreover have "tf_length f \<le> ?c * pl" by (rule div_ceil_mult_ge [OF assms(3)])
  moreover have "?c * pl < tf_length f + pl"
    using div_ceil_mult_less [OF assms(3), of "tf_length f"] True by (cases ?c) auto
  ultimately show ?thesis using assms(1) True s' by (auto simp: sizes_inv_def add_mult_distrib)
qed

lemma try_fold_sizes:
  assumes "try_fold (add_file pure pl) no_sizes files = Inr s" and "0 < pl"
  shows "sizes_inv pure pl files s"
proof (rule try_fold_invariant [OF assms(1), where P = "sizes_inv pure pl"])
  show "sizes_inv pure pl [] no_sizes" using assms(2) by (simp add: sizes_inv_def no_sizes_def)
qed (use add_file_inv assms(2) in blast)

lemma check_v1_effect:
  assumes "check_v1 d files pl = Inr n"
  shows "n = div_ceil (total_length files) pl"
proof -
  obtain total where t: "try_fold (\<lambda>sum f. add_length sum (tf_length f)) 0 files = Inr total"
    and n: "n = div_ceil total pl"
    using assms by (auto simp: check_v1_def split: if_splits)
  have "total = total_length files"
    by (rule try_fold_invariant [OF t, where P = "\<lambda>fs s. s = total_length fs"]) (auto simp: add_length_def)
  then show ?thesis using n by simp
qed

section \<open>The whole analysis\<close>

lemma layout_total: "layout d v2 has_v1 pl bud \<noteq> None"
proof -
  have h: "\<exists>z. hybrid_check d pl files legacy = Some z" for files legacy
  proof (cases "length (regular legacy) = length files")
    case True
    then have "hybrid_loop pl files (0, 0, 0) legacy \<noteq> None" using hybrid_loop_total by simp
    then show ?thesis using True by (auto simp: hybrid_check_def split: sum.splits option.splits)
  qed (simp add: hybrid_check_def split: sum.splits)
  show ?thesis by (auto simp: layout_def h split: sum.splits)
qed

lemma analyze_valid:
  assumes "analyze decode info = Some a" and "an_parsed a = Some p"
  obtains d v2 has_v1 bud name lossy pl priv files where
    "read_version decode info = Inr (d, v2, bud)" "root_piece_length d v2 = Inr pl"
    "layout d v2 has_v1 pl bud = Some (Inr files)" "finish_info d v2 has_v1 name lossy pl priv files = Inr p"
    "has_v1 = (map_of d (ascii ''pieces'') \<noteq> None)"
proof -
  from assms obtain d v2 bud where r: "read_version decode info = Inr (d, v2, bud)"
    by (cases "read_version decode info") (auto simp: analyze_def refused_def)
  let ?h = "map_of d (ascii ''pieces'') \<noteq> None"
  obtain y where y: "analyze_dict d v2 ?h bud = Some y"
    using assms r by (cases "analyze_dict d v2 ?h bud") (simp_all add: analyze_def Let_def)
  have "analyze_dict d v2 ?h bud = Some (Inr p)"
    using assms r y by (cases y) (auto simp: analyze_def Let_def refused_def)
  then obtain name lossy pl priv files where "root_piece_length d v2 = Inr pl"
    and "layout d v2 ?h pl bud = Some (Inr files)" and "finish_info d v2 ?h name lossy pl priv files = Inr p"
    by (auto simp: analyze_dict_def split: sum.splits) 
  with r show ?thesis using that by blast
qed

lemma read_version_charged:
  assumes "read_version decode info = Inr (d, v2, bud)"
  shows "bud + 96 * Suc (dict_nodes d) = PARSE_BUDGET"
proof -
  obtain object where "value_of object PARSE_BUDGET = Inr (MDict d, bud)"
    using assms by (auto simp: read_version_def read_root_def elim!: dictionary.elims split: if_splits option.splits)
  from value_charged(1) [OF this] show ?thesis by simp
qed

lemma tree_files_post: "ensures (tree v [] [] bud) (\<lambda>r. files_post bud r \<and> (\<forall>f\<in>set (fst r). tf_kind f \<noteq> ''padding''))"
  by (rule ensures_mono [OF tree_effect(1)]) (auto simp: tree_post_def files_post_def)

lemma layout_effect:
  assumes "layout d v2 has_v1 pl bud = Some (Inr files)"
  shows "(\<forall>f\<in>set files. entry_ok f) \<and> files_cost files \<le> bud \<and>
    (v2 \<and> \<not> has_v1 \<longrightarrow> (\<forall>f\<in>set files. tf_kind f \<noteq> ''padding'')) \<and>
    (v2 \<and> has_v1 \<longrightarrow> (\<exists>v v2_files b. map_of d (ascii ''file tree'') = Some v \<and> tree v [] [] bud = Inr (v2_files, b) \<and>
       list_all2 same_file (regular files) v2_files \<and> aligned pl 0 files))"
proof (cases v2)
  case False
  then have "\<exists>b. v1_files d bud = Inr (files, b)" using assms by (auto simp: layout_def split: sum.splits)
  then show ?thesis using ensuresD [OF v1_files_post] False by (fastforce simp: files_post_def)
next
  case True
  from assms True obtain v v2_files b where v: "map_of d (ascii ''file tree'') = Some v"
    and t: "tree v [] [] bud = Inr (v2_files, b)"
    and rest: "(if has_v1 then (case v1_files d b of Inl e \<Rightarrow> Some (Inl e)
       | Inr (legacy, bud) \<Rightarrow> map_option (\<lambda>r. and_then r (\<lambda>_. Inr legacy)) (hybrid_check d pl v2_files legacy))
       else Some (Inr v2_files)) = Some (Inr files)"
    by (auto simp: layout_def required_def and_then_Inl split: sum.splits if_splits)
  note tp = ensuresD [OF tree_files_post t]
  show ?thesis
  proof (cases has_v1)
    case False
    then show ?thesis using rest tp True by (auto simp: files_post_def)
  next
    case h: True
    from rest h obtain b2 where v1: "v1_files d b = Inr (files, b2)"
      and hc: "hybrid_check d pl v2_files files = Some (Inr ())"
      by (auto split: sum.splits)
    from hc obtain off e i where len: "length (regular files) = length v2_files"
      and hl: "hybrid_loop pl v2_files (0, 0, 0) files = Some (Inr (off, e, i))"
      by (auto simp: hybrid_check_def split: sum.splits if_splits option.splits)
    have "list_all2 same_file (regular files) v2_files \<and> aligned pl 0 files"
      using hybrid_loop_effect [OF hl] len by simp
    moreover have "files_post b (files, b2)" using ensuresD [OF v1_files_post v1] .
    ultimately show ?thesis using tp v t True h by (auto simp: files_post_def)
  qed
qed

lemma finish_effect:
  assumes "finish_info d v2 has_v1 name lossy pl priv files = Inr p"
  shows "pi_files p = files \<and> check_paths files = Inr () \<and> pi_piece_length p = pl \<and>
    pi_format p = format_name v2 has_v1 \<and> pi_file_count p = length (regular files) \<and>
    (\<exists>s. try_fold (add_file (v2 \<and> \<not> has_v1) pl) no_sizes files = Inr s \<and> pi_total_length p = sz_total s \<and>
      pi_padding_length p = sz_padding s \<and> pi_piece_space_length p = sz_space s \<and>
      (if v2 \<and> \<not> has_v1 then pi_piece_count p = sz_pieces s else check_v1 d files pl = Inr (pi_piece_count p)))"
  using assms by (auto simp: finish_info_def split: if_splits)

lemma format_names: "format_name v2 has_v1 = ''hybrid'' \<longleftrightarrow> v2 \<and> has_v1" "format_name v2 has_v1 = ''v2'' \<longleftrightarrow> v2 \<and> \<not> has_v1"
  by (auto simp: format_name_def)

section \<open>Properties\<close>

text \<open>
  C36: the analysis of any bytes, under any answers of the decoder, returns (no index of the hybrid
  comparison is out of range); it is \<open>valid\<close> exactly when it carries a parsed catalog entry and no
  reason, and otherwise says whether the version is unsupported or the dictionary invalid.
\<close>

theorem analyze_total:
  "\<exists>a. analyze decode info = Some a \<and> (an_status a = ''valid'' \<longleftrightarrow> an_parsed a \<noteq> None) \<and>
     (an_reason a = None \<longleftrightarrow> an_parsed a \<noteq> None) \<and> an_status a \<in> {''valid'', ''unsupported'', ''invalid''} \<and>
     (an_status a = ''unsupported'' \<longleftrightarrow> an_reason a = Some ''unsupported_meta_version'')"
proof (cases "read_version decode info")
  case (Inl e)
  then show ?thesis by (simp add: analyze_def refused_def)
next
  case (Inr r)
  obtain d v2 bud where r: "r = (d, v2, bud)" by (cases r)
  have "analyze_dict d v2 h bud \<noteq> None" for h
    using layout_total by (auto simp: analyze_dict_def split: sum.split)
  then obtain y where "analyze_dict d v2 (map_of d (ascii ''pieces'') \<noteq> None) bud = Some y" by blast
  then show ?thesis using Inr r by (cases y) (auto simp: analyze_def Let_def refused_def)
qed

text \<open>A hybrid torrent of one file of one byte.\<close>

definition sample_raw :: raw where
  "sample_raw = RDict
     [(ascii ''file tree'', RDict [(ascii ''a'', RDict [([], RDict
         [(ascii ''length'', RInteger (ascii ''1'')), (ascii ''pieces root'', RBytes (replicate 32 7))] False)] False)] False),
      (ascii ''length'', RInteger (ascii ''1'')), (ascii ''meta version'', RInteger (ascii ''2'')),
      (ascii ''name'', RBytes (ascii ''a'')), (ascii ''piece length'', RInteger (ascii ''16384'')),
      (ascii ''pieces'', RBytes (replicate 20 9))] False"

definition sample_decoder :: decoder where
  "sample_decoder info = (Some (Some sample_raw), Some False)"

definition sample_dict :: dict where
  "sample_dict =
     [(ascii ''file tree'', MDict [(ascii ''a'', MDict [([], MDict
         [(ascii ''length'', MInteger 1), (ascii ''pieces root'', MBytes (replicate 32 7))])])]),
      (ascii ''length'', MInteger 1), (ascii ''meta version'', MInteger 2),
      (ascii ''name'', MBytes (ascii ''a'')), (ascii ''piece length'', MInteger 16384),
      (ascii ''pieces'', MBytes (replicate 20 9))]"

lemma sample_value: "value_of sample_raw PARSE_BUDGET = Inr (MDict sample_dict, PARSE_BUDGET - 1056)"
  by (simp add: sample_raw_def sample_dict_def PARSE_BUDGET_def charge_def ascii_def parse_i64_def Let_def)

lemma sample_version: "read_version sample_decoder [0] = Inr (sample_dict, True, PARSE_BUDGET - 1056)"
  using sample_value
  by (simp add: read_version_def read_root_def sample_decoder_def MAX_BYTES_def)
    (simp add: sample_dict_def ascii_def)

definition sample_file :: torrent_file where
  "sample_file = \<lparr>tf_path = Some [97], tf_length = 1, tf_encoding_lossy = False, tf_kind = ''file'', tf_hidden = False,
     tf_executable = False, tf_symlink_path = None, tf_sha1 = None, tf_raw_path = [[97]], tf_raw_target = None\<rparr>"

lemma sample_display: "display [97] = ([97], False)"
  using display_valid [of "[97]"] by (simp add: scalar_def is_control_def utf8_encode_def)

lemma sample_info_file:
  "map_of d (ascii ''attr'') = None \<Longrightarrow> map_of d (ascii ''length'') = Some (MInteger 1) \<Longrightarrow>
   map_of d (ascii ''sha1'') = None \<Longrightarrow> 300 \<le> bud \<Longrightarrow>
   info_file d [[97]] (Some [[97]]) bud = Inr (sample_file, bud - 300)"
  by (simp add: info_file_def optional_bytes_def length_of_def required_def file_kind_def charge_def path_cost_def
      display_path_def sample_display sample_file_def)

lemma sample_tree:
  "300 \<le> bud \<Longrightarrow> tree (MDict [([97], MDict [([], MDict
         [(ascii ''length'', MInteger 1), (ascii ''pieces root'', MBytes (replicate 32 7))])])]) [] [] bud =
   Inr ([sample_file], bud - 300)"
proof -
  let ?props = "[(ascii ''length'', MInteger 1), (ascii ''pieces root'', MBytes (replicate 32 7))] :: dict"
  assume b: "300 \<le> bud"
  have i: "info_file ?props [[97]] (Some [[97]]) bud = Inr (sample_file, bud - 300)"
    by (rule sample_info_file) (use b in \<open>simp_all add: ascii_def\<close>)
  have r: "optional_bytes ?props ''pieces root'' = Inr (Some (replicate 32 7))"
    by (simp add: optional_bytes_def ascii_def)
  have s: "segment [97] = Inr ()" by (simp add: segment_def ascii_def)
  have k: "tf_kind sample_file = ''file''" "tf_length sample_file = 1" by (simp_all add: sample_file_def)
  show ?thesis by (simp add: i r s k del: segment_Inr)
qed

lemma sample_v1: "300 \<le> bud \<Longrightarrow> v1_files sample_dict bud = Inr ([sample_file], bud - 300)"
proof -
  assume b: "300 \<le> bud"
  have "info_file sample_dict [[97]] (Some [[97]]) bud = Inr (sample_file, bud - 300)"
    by (rule sample_info_file) (use b in \<open>simp_all add: ascii_def sample_dict_def\<close>)
  then show ?thesis
    by (simp add: v1_files_def required_def optional_bytes_def valid_text_def sample_dict_def ascii_def segment_def)
qed

lemma sample_layout: "600 \<le> bud \<Longrightarrow> layout sample_dict True True 16384 bud = Some (Inr [sample_file])"
proof -
  assume b: "600 \<le> bud"
  have t: "required sample_dict ''file tree'' = Inr (MDict [([97], MDict [([], MDict
         [(ascii ''length'', MInteger 1), (ascii ''pieces root'', MBytes (replicate 32 7))])])])"
    by (simp add: required_def sample_dict_def ascii_def)
  have "check_v1 sample_dict [sample_file] 16384 = Inr 1"
    by (simp add: check_v1_def required_def sample_dict_def ascii_def add_length_def checked_add64_def sample_file_def
        div_ceil_def)
  then have h: "hybrid_check sample_dict 16384 [sample_file] [sample_file] = Some (Inr ())"
    by (simp add: hybrid_check_def hybrid_step_def align_up_def add_length_def checked_add64_def sample_file_def)
  show ?thesis using b by (simp add: layout_def t sample_tree sample_v1 h del: tree.simps)
qed

lemma sample_checked: "\<exists>p. finish_info sample_dict True True n l 16384 priv [sample_file] = Inr p"
proof -
  have "check_v1 sample_dict [sample_file] 16384 = Inr 1"
    by (simp add: check_v1_def required_def sample_dict_def ascii_def add_length_def checked_add64_def sample_file_def
        div_ceil_def)
  then show ?thesis
    by (simp add: finish_info_def add_file_def no_sizes_def add_length_def checked_add64_def sample_file_def
        check_paths_def)
qed

lemma sample_analyzed:
  "\<exists>a p. analyze sample_decoder [0] = Some a \<and> an_parsed a = Some p \<and> pi_format p = ''hybrid''"
proof -
  have n: "\<exists>x. root_name sample_dict = Inr x"
    by (simp add: root_name_def optional_bytes_def sample_dict_def ascii_def)
  have pl: "root_piece_length sample_dict True = Inr 16384"
    by (simp add: root_piece_length_def length_of_def required_def sample_dict_def ascii_def is_power_of_two.simps)
  have pr: "private_flag sample_dict = Inr None"
    by (simp add: private_flag_def sample_dict_def ascii_def)
  have l: "layout sample_dict True True 16384 (PARSE_BUDGET - 1056) = Some (Inr [sample_file])"
    by (rule sample_layout) (simp add: PARSE_BUDGET_def)
  have h: "map_of sample_dict (ascii ''pieces'') \<noteq> None" by (simp add: sample_dict_def ascii_def)
  obtain name lossy where nm: "root_name sample_dict = Inr (name, lossy)" using n by auto
  obtain p where p: "finish_info sample_dict True True name lossy 16384 None [sample_file] = Inr p"
    using sample_checked by blast
  have "analyze_dict sample_dict True True (PARSE_BUDGET - 1056) = Some (Inr p)"
    by (simp add: analyze_dict_def nm pl pr l p)
  moreover have "pi_format p = ''hybrid''" using finish_effect [OF p] by (simp add: format_name_def)
  ultimately show ?thesis using h by (simp add: analyze_def sample_version)
qed

text \<open>
  C37: no path of an accepted torrent can escape or collide. Every component of every path and of every
  link target is non-empty, is not \<open>.\<close> or \<open>..\<close> and has no separator and no NUL; no
  file's path equals or extends another's (padding apart), although the code only compares neighbours of
  the sorted list; and every symbolic link points to a file of the torrent or to a directory that
  contains one.
\<close>

theorem accepted_paths_are_safe:
  assumes "analyze decode info = Some a" and "an_parsed a = Some p"
  shows "(\<forall>f\<in>set (pi_files p). \<forall>b\<in>set (tf_raw_path f) \<union> set (case tf_raw_target f of None \<Rightarrow> [] | Some t \<Rightarrow> t). segment_ok b) \<and>
    (\<forall>f\<in>set (regular (pi_files p)). tf_raw_path f \<noteq> []) \<and>
    prefix_free (map tf_raw_path (regular (pi_files p))) \<and>
    (\<forall>f\<in>set (pi_files p). \<forall>t. tf_raw_target f = Some t \<longrightarrow>
       (\<exists>g\<in>set (regular (pi_files p)). prefix t (tf_raw_path g)))"
proof -
  obtain d v2 has_v1 bud name lossy pl priv files where l: "layout d v2 has_v1 pl bud = Some (Inr files)"
    and f: "finish_info d v2 has_v1 name lossy pl priv files = Inr p"
    by (rule analyze_valid [OF assms])
  have e: "\<forall>f\<in>set files. entry_ok f" using layout_effect [OF l] by blast
  have fs: "pi_files p = files" and c: "check_paths files = Inr ()" using finish_effect [OF f] by blast+
  have "segment_ok b" if "f \<in> set files" "b \<in> set (tf_raw_path f) \<union> set (case tf_raw_target f of None \<Rightarrow> [] | Some t \<Rightarrow> t)" for f b
    using e that by (auto simp: entry_ok_def file_ok_def path_ok_def split: option.splits)
  moreover have "\<forall>f\<in>set (regular files). tf_raw_path f \<noteq> []" using e by (auto simp: entry_ok_def)
  ultimately show ?thesis using check_paths_effect [OF c] unfolding fs by blast
qed

theorem accepted_paths_are_safe_witness:
  "\<exists>a p. analyze sample_decoder [0] = Some a \<and> an_parsed a = Some p \<and>
     prefix_free (map tf_raw_path (regular (pi_files p)))"
  using sample_analyzed accepted_paths_are_safe by blast

text \<open>
  The sizes in the catalog are those of the files. Payload and padding are the sums over the regular
  and the padding files; for v1 and hybrid torrents the piece space is their sum and the number of pieces
  is its quotient rounded up (and the number of hashes present); a pure v2 torrent has no padding files,
  as many pieces as its files need separately, and its aligned piece space fits in exactly these pieces.
  Nothing exceeds 64 bits.
\<close>

theorem catalog_sizes_exact:
  assumes "analyze decode info = Some a" and "an_parsed a = Some p"
  shows "pi_total_length p = total_length (regular (pi_files p)) \<and>
    pi_padding_length p = total_length (filter (\<lambda>f. tf_kind f = ''padding'') (pi_files p)) \<and>
    pi_file_count p = length (regular (pi_files p)) \<and> 0 < pi_piece_length p \<and>
    pi_piece_space_length p < 2 ^ 64 \<and>
    (if pi_format p = ''v2'' then
       pi_padding_length p = 0 \<and>
       pi_piece_count p = sum_list (map (\<lambda>f. div_ceil (tf_length f) (pi_piece_length p)) (pi_files p)) \<and>
       pi_total_length p \<le> pi_piece_space_length p \<and>
       pi_piece_count p = div_ceil (pi_piece_space_length p) (pi_piece_length p)
     else pi_piece_space_length p = pi_total_length p + pi_padding_length p \<and>
       pi_piece_count p = div_ceil (pi_piece_space_length p) (pi_piece_length p))"
proof -
  obtain d v2 has_v1 bud name lossy pl priv files where l: "layout d v2 has_v1 pl bud = Some (Inr files)"
    and f: "finish_info d v2 has_v1 name lossy pl priv files = Inr p" and r: "root_piece_length d v2 = Inr pl"
    by (rule analyze_valid [OF assms])
  have pl: "0 < pl" using r by (auto simp: root_piece_length_def split: if_splits)
  note fe = finish_effect [OF f]
  then obtain s where t: "try_fold (add_file (v2 \<and> \<not> has_v1) pl) no_sizes files = Inr s"
    and s: "pi_total_length p = sz_total s" "pi_padding_length p = sz_padding s" "pi_piece_space_length p = sz_space s"
    and c: "if v2 \<and> \<not> has_v1 then pi_piece_count p = sz_pieces s else check_v1 d files pl = Inr (pi_piece_count p)" by blast
  have fs: "pi_files p = files" "pi_piece_length p = pl" "pi_file_count p = length (regular files)"
    and fmt: "pi_format p = ''v2'' \<longleftrightarrow> v2 \<and> \<not> has_v1" using fe by (auto simp: format_names)
  note inv = try_fold_sizes [OF t pl]
  have split: "total_length files = total_length (regular files) + total_length (filter (\<lambda>f. tf_kind f = ''padding'') files)"
    by (induction files) auto
  show ?thesis
  proof (cases "v2 \<and> \<not> has_v1")
    case True
    then have "filter (\<lambda>f. tf_kind f = ''padding'') files = []"
      using layout_effect [OF l] by (auto simp: filter_empty_conv)
    moreover have "sz_pieces s = div_ceil (sz_space s) pl"
      by (rule div_ceil_unique) (use inv True pl in \<open>auto simp: sizes_inv_def\<close>)
    ultimately show ?thesis using inv True pl fs fmt s c split by (simp add: sizes_inv_def)
  next
    case False
    then have "pi_piece_count p = div_ceil (total_length files) pl" using c check_v1_effect by auto
    then show ?thesis using inv False pl fs fmt s split by (auto simp: sizes_inv_def)
  qed
qed

theorem catalog_sizes_exact_witness:
  "\<exists>a p. analyze sample_decoder [0] = Some a \<and> an_parsed a = Some p \<and>
     pi_piece_space_length p = pi_total_length p + pi_padding_length p"
proof -
  obtain a p where a: "analyze sample_decoder [0] = Some a" "an_parsed a = Some p" "pi_format p = ''hybrid''"
    using sample_analyzed by blast
  from catalog_sizes_exact [OF a(1,2)] a show ?thesis by auto
qed

text \<open>
  C38: a hybrid torrent is accepted only if its two layouts describe the same files. The regular files of
  the v1 list and the leaves of the v2 tree agree, one by one and in order, in path, length, kind and link
  target, and every non-empty regular file starts at a piece boundary of the v1 layout.
\<close>

theorem hybrid_layouts_agree:
  assumes "analyze decode info = Some a" and "an_parsed a = Some p" and "pi_format p = ''hybrid''"
  shows "\<exists>d bud v v2_files b. read_version decode info = Inr (d, True, bud) \<and>
    map_of d (ascii ''file tree'') = Some v \<and> tree v [] [] bud = Inr (v2_files, b) \<and>
    list_all2 same_file (regular (pi_files p)) v2_files \<and> aligned (pi_piece_length p) 0 (pi_files p)"
proof -
  obtain d v2 has_v1 bud name lossy pl priv files where r: "read_version decode info = Inr (d, v2, bud)"
    and l: "layout d v2 has_v1 pl bud = Some (Inr files)"
    and f: "finish_info d v2 has_v1 name lossy pl priv files = Inr p"
    by (rule analyze_valid [OF assms(1,2)])
  have fs: "pi_files p = files" "pi_piece_length p = pl" and h: "v2" "has_v1"
    using finish_effect [OF f] assms(3) format_names by auto
  show ?thesis using layout_effect [OF l] r h fs by auto
qed

theorem hybrid_layouts_agree_witness:
  "\<exists>a p. analyze sample_decoder [0] = Some a \<and> an_parsed a = Some p \<and> aligned (pi_piece_length p) 0 (pi_files p)"
  using sample_analyzed hybrid_layouts_agree by blast

text \<open>
  The work of an analysis is bounded by its budget: every value of the dictionary costs 96 bytes and
  every file 256 bytes, 32 for each path component and 8 for each byte of its path; an accepted torrent
  paid for all of them out of 64 MiB, so it has at most 262,144 files.
\<close>

theorem analysis_within_budget:
  assumes "analyze decode info = Some a" and "an_parsed a = Some p"
  shows "\<exists>d v2 bud. read_version decode info = Inr (d, v2, bud) \<and>
    96 * Suc (dict_nodes d) + files_cost (pi_files p) \<le> 64 * 1024 * 1024 \<and> length (pi_files p) \<le> 262144"
proof -
  obtain d v2 has_v1 bud name lossy pl priv files where r: "read_version decode info = Inr (d, v2, bud)"
    and l: "layout d v2 has_v1 pl bud = Some (Inr files)"
    and f: "finish_info d v2 has_v1 name lossy pl priv files = Inr p"
    by (rule analyze_valid [OF assms])
  have fs: "pi_files p = files" using finish_effect [OF f] by blast
  have c: "files_cost files \<le> bud" using layout_effect [OF l] by blast
  have "256 * length files \<le> files_cost files" by (induction files) (auto simp: file_cost_def)
  then show ?thesis using c r fs read_version_charged [OF r] by (auto simp: PARSE_BUDGET_def)
qed

theorem analysis_within_budget_witness:
  "\<exists>a p. analyze sample_decoder [0] = Some a \<and> an_parsed a = Some p \<and> length (pi_files p) \<le> 262144"
  using sample_analyzed analysis_within_budget by blast

text \<open>
  An identity is claimed only with its digest. A match for a key is the v1 identity of the SHA-1 of
  the raw dictionary or, for a version 2 dictionary only, the v2 identity of its SHA-256; its lookup key is
  the key asked for; and a key that matches neither digest is never accepted.
\<close>

theorem match_identity_sound:
  assumes "length (sha1 info) = 20" and "length (sha256 info) = 32"
  shows "(\<forall>i. match_identity sha1 sha256 decode info key = Some i \<longrightarrow>
      identity_swarm_key i = key \<and> identity_ok i \<and>
      (i = TV1 (InfoHashV1 (sha1 info)) \<or> i = TV2 (InfoHashV2 (sha256 info)) \<and> is_v2 decode info)) \<and>
    (match_identity sha1 sha256 decode info key = None \<longleftrightarrow>
      sha1 info \<noteq> key_bytes key \<and> (is_v2 decode info \<longrightarrow> take 20 (sha256 info) \<noteq> key_bytes key))"
  using assms by (cases key) (auto simp: match_identity_def identity_swarm_key_def split: if_splits)

theorem match_identity_sound_witness:
  "match_identity (\<lambda>_. replicate 20 1) (\<lambda>_. replicate 32 2) sample_decoder [0] (SwarmKey (replicate 20 2))
     = Some (TV2 (InfoHashV2 (replicate 32 2)))"
proof -
  have v: "is_v2 sample_decoder [0]" by (simp add: is_v2_def sample_decoder_def sample_raw_def ascii_def)
  have l: "length (replicate 20 1 :: bytes) = 20" "length (replicate 32 2 :: bytes) = 32" by simp_all
  have d: "(replicate 20 1 :: bytes) \<noteq> replicate 20 2" by (simp add: numeral_eq_Suc)
  have "match_identity (\<lambda>_. replicate 20 1) (\<lambda>_. replicate 32 2) sample_decoder [0] (SwarmKey (replicate 20 2)) \<noteq> None"
    using match_identity_sound [of "\<lambda>_. replicate 20 1" "[0]" "\<lambda>_. replicate 32 2" sample_decoder
        "SwarmKey (replicate 20 2)"] l v by simp
  then show ?thesis using d by (simp add: match_identity_def v split: if_splits)
qed

end
