(* ===== verification/Clock.thy ===== *)
theory Clock imports Prelude begin

text \<open>
  The clock of one run, \<open>src/clock.rs\<close>: it advances the UTC time by the monotonic clock and turns
  monotonic instants into the UTC milliseconds of the database. A \<open>SystemTime\<close> is a number of nanoseconds
  since the Unix epoch, negative before it; its seconds and an \<open>i64\<close> number of milliseconds are
  bounded by \<open>2 ^ 63\<close>.
\<close>

datatype clock_error = BeforeEpoch | MillisOverflow | MonotonicBackwards | WallOverflow

definition system_time_add :: "int \<Rightarrow> duration \<Rightarrow> int option" where
  "system_time_add t d = (if (t + int d) div 1000000000 < 2 ^ 63 then Some (t + int d) else None)"

definition unix_millis :: "int \<Rightarrow> clock_error + int" where
  "unix_millis t =
     (if t < 0 then Inl BeforeEpoch
      else let ms = t div 1000000 in if ms < 2 ^ 63 then Inr ms else Inl MillisOverflow)"

record clock =
  ck_monotonic :: instant
  ck_wall :: int

definition clock_new :: "instant \<Rightarrow> int \<Rightarrow> clock" where
  "clock_new monotonic wall = \<lparr>ck_monotonic = monotonic, ck_wall = wall\<rparr>"

definition wall_at :: "clock \<Rightarrow> instant \<Rightarrow> clock_error + int" where
  "wall_at c now =
     (if now < ck_monotonic c then Inl MonotonicBackwards
      else ok_or (system_time_add (ck_wall c) (now - ck_monotonic c)) WallOverflow)"

definition millis_at :: "clock \<Rightarrow> instant \<Rightarrow> clock_error + int" where
  "millis_at c now = and_then (wall_at c now) (\<lambda>wall.
     and_then (ok_or (system_time_add wall 999999) WallOverflow) unix_millis)"

lemma wall_at_Inr: "wall_at c now = Inr w \<Longrightarrow> ck_monotonic c \<le> now \<and> w = ck_wall c + int (now - ck_monotonic c)"
  by (auto simp: wall_at_def system_time_add_def split: if_splits)

lemma millis_at_Inr:
  "millis_at c now = Inr ms \<Longrightarrow> ck_monotonic c \<le> now \<and>
     ms = (ck_wall c + int (now - ck_monotonic c) + 999999) div 1000000 \<and> 0 \<le> ms \<and> ms < 2 ^ 63"
  by (auto simp: millis_at_def unix_millis_def system_time_add_def Let_def dest!: wall_at_Inr split: if_splits)

lemma ceil_millis:
  fixes w :: int
  assumes "ms = (w + 999999) div 1000000"
  shows "w \<le> ms * 1000000 \<and> ms * 1000000 < w + 1000000"
proof -
  have "1000000 * ms + (w + 999999) mod 1000000 = w + 999999"
    unfolding assms by (rule mult_div_mod_eq)
  moreover have "0 \<le> (w + 999999) mod 1000000" "(w + 999999) mod 1000000 < 1000000" by simp_all
  ultimately show ?thesis by linarith
qed

text \<open>
  Milliseconds are rounded up and never run backwards: the stored instant is not before the true one and
  less than a millisecond after it, a later instant never gets a smaller number, and the conversion fails
  exactly for instants before the start of the clock, before the epoch or beyond the range of the types.
\<close>

theorem clock_rounds_up:
  assumes "millis_at c now = Inr ms" and "millis_at c later = Inr ms'" and "now \<le> later"
  shows "ck_wall c + int (now - ck_monotonic c) \<le> ms * 1000000 \<and>
    ms * 1000000 < ck_wall c + int (now - ck_monotonic c) + 1000000 \<and> ms \<le> ms' \<and> 0 \<le> ms \<and>
    ms' - ms \<le> int (later - now) div 1000000 + 1"
proof -
  note a = millis_at_Inr [OF assms(1)] and b = millis_at_Inr [OF assms(2)]
  define w where "w = ck_wall c + int (now - ck_monotonic c)"
  define d where "d = int (later - now)"
  have d: "0 \<le> d" by (simp add: d_def)
  have "ck_wall c + int (later - ck_monotonic c) = w + d" using assms(3) a b by (simp add: w_def d_def of_nat_diff)
  then have m': "ms' = (w + d + 999999) div 1000000" using b by simp
  have m: "ms = (w + 999999) div 1000000" using a by (simp add: w_def)
  have "ms \<le> ms'" using d unfolding m m' by (intro zdiv_mono1) auto
  moreover have "ms' - ms \<le> d div 1000000 + 1"
  proof -
    have "1000000 * (d div 1000000) + d mod 1000000 = d" by (rule mult_div_mod_eq)
    moreover have "d mod 1000000 < 1000000" by simp
    ultimately have "(ms' - ms) * 1000000 < (d div 1000000 + 2) * 1000000"
      using ceil_millis [OF m] ceil_millis [OF m'] by (simp only: left_diff_distrib distrib_right) linarith
    then show ?thesis by simp
  qed
  moreover have "0 \<le> ms" using a by blast
  ultimately show ?thesis using ceil_millis [OF m] unfolding w_def d_def by blast
qed

theorem clock_rounds_up_witness:
  "millis_at (clock_new 5 1700000000000000000) 1005 = Inr 1700000000001 \<and>
   (1700000000000000000 :: int) + 1000 \<le> 1700000000001 * 1000000"
  using clock_rounds_up [of "clock_new 5 1700000000000000000" 1005 1700000000001 2000005 1700000000002]
  by (simp add: millis_at_def wall_at_def clock_new_def system_time_add_def unix_millis_def)

end
