(* ===== verification/DispatcherApi.thy ===== *)
theory DispatcherApi imports Transaction Security Clock begin

text \<open>
  The types that the parts of the dispatcher share: remote nodes and query errors of
  \<open>src/dht/dispatcher/api.rs\<close>, the errors of the UDP transport (\<open>src/dht/udp/mod.rs\<close>), the storage errors
  (\<open>src/storage/mod.rs\<close>) and the local identity (\<open>src/dht/persistence/identity.rs\<close>). Texts of
  errors are English strings.
\<close>

record remote_node =
  rn_address :: socket_addr
  rn_expected_id :: "node_id option"

record discovered_node =
  dn_id :: node_id
  dn_address :: socket_addr

record find_node_response =
  fr_responder :: node_id
  fr_nodes :: "discovered_node list"

datatype udp_error =
  InvalidMaxMessageSize nat
| UdpIo string
| Encode string
| Decode socket_addr string
| MessageTooLarge "socket_addr option" nat nat

datatype query_error =
  DispatcherClosed
| LocalWait
| IdentityChanged
| ShuttingDown
| QueryAtCapacity nat
| TransactionFailed transaction_error
| TransportFailed udp_error
| Timeout
| Remote int bytes
| InvalidResponse string
| UnexpectedNodeId node_id node_id

fun is_remote :: "query_error \<Rightarrow> bool" where
  "is_remote (Remote _ _) = True"
| "is_remote _ = False"

datatype storage_error =
  StorageClosed
| Locked
| Invalid string
| StorageIo string
| Database string
| Conflict
| StorageCooldown
| StorageCapacity
| Entropy

fun clock_storage_error :: "clock_error \<Rightarrow> storage_error" where
  "clock_storage_error BeforeEpoch = Invalid ''before the epoch''"
| "clock_storage_error MillisOverflow = Invalid ''time overflow''"
| "clock_storage_error MonotonicBackwards = Invalid ''monotonic time went back''"
| "clock_storage_error WallOverflow = Invalid ''UTC overflow''"

record local_identity =
  li_key :: int
  li_node_id :: node_id
  li_family :: address_family

end
