(* ===== verification/Udp.thy ===== *)
theory Udp imports DispatcherApi OrderingProps begin

text \<open>
  The UDP transport, \<open>src/dht/udp/mod.rs\<close>. The bencode encoder and decoder and the socket are parameters:
  an encoder or decoder yields bytes or a message or an error text, and a socket the number of bytes sent or an
  error. \<open>recv_datagram\<close> reads into a buffer one byte longer than the limit.
\<close>

definition DEFAULT_MAX_MESSAGE_SIZE :: nat where
  "DEFAULT_MAX_MESSAGE_SIZE = 4 * 1024"

definition MAX_UDP_PAYLOAD_SIZE :: nat where
  "MAX_UDP_PAYLOAD_SIZE = 65507"

record udp_transport =
  ut_max_message_size :: nat

record received_message =
  rm_source :: socket_addr
  rm_message :: krpc_message
  rm_encoded_len :: nat

record datagram =
  dg_source :: socket_addr
  dg_bytes :: bytes
  dg_limit :: nat

definition from_socket :: "nat \<Rightarrow> udp_error + udp_transport" where
  "from_socket max_message_size =
     (if max_message_size = 0 \<or> max_message_size > MAX_UDP_PAYLOAD_SIZE
      then Inl (InvalidMaxMessageSize max_message_size) else Inr \<lparr>ut_max_message_size = max_message_size\<rparr>)"

definition try_send_to :: "(krpc_message \<Rightarrow> string + bytes) \<Rightarrow> (socket_addr \<Rightarrow> bytes \<Rightarrow> string + nat) \<Rightarrow> udp_transport
    \<Rightarrow> socket_addr \<Rightarrow> krpc_message \<Rightarrow> udp_error + nat" where
  "try_send_to encode socket t destination message =
     (case encode message of
        Inl e \<Rightarrow> Inl (Encode e)
      | Inr bs \<Rightarrow>
         if length bs > ut_max_message_size t then Inl (MessageTooLarge None (length bs) (ut_max_message_size t))
         else (case socket destination bs of
            Inl e \<Rightarrow> Inl (UdpIo e)
          | Inr sent \<Rightarrow> if sent \<noteq> length bs then Inl (UdpIo ''incomplete'') else Inr sent))"

definition recv_datagram :: "udp_transport \<Rightarrow> bytes \<Rightarrow> socket_addr \<Rightarrow> datagram" where
  "recv_datagram t payload source = \<lparr>dg_source = source,
     dg_bytes = take (ut_max_message_size t + 1) payload, dg_limit = ut_max_message_size t\<rparr>"

definition datagram_decode :: "object_reader \<Rightarrow> (ordering_error \<Rightarrow> string) \<Rightarrow> (bytes \<Rightarrow> string + krpc_message)
    \<Rightarrow> datagram \<Rightarrow> (udp_error + received_message) option" where
  "datagram_decode nx describe decode d =
     (let source = dg_source d; size = length (dg_bytes d) in
      if size > dg_limit d then Some (Inl (MessageTooLarge (Some source) size (dg_limit d)))
      else (case normalize nx (dg_bytes d) of
          None \<Rightarrow> None
        | Some (Inl e) \<Rightarrow> Some (Inl (Decode source (describe e)))
        | Some (Inr normalized) \<Rightarrow> (case decode normalized of
              Inl e \<Rightarrow> Some (Inl (Decode source e))
            | Inr m \<Rightarrow> Some (Inr \<lparr>rm_source = source, rm_message = m, rm_encoded_len = size\<rparr>))))"

lemma normalize_reads:
  assumes "atom_reader V nx"
  obtains r where "normalize nx inp = Some r" and "\<And>out. r = Inr out \<Longrightarrow> \<exists>v. writes V v inp \<and> out = write_value v"
proof -
  obtain y where y: "read_value nx 64 (2 * length inp + 1) inp 0 = Some y"
    and good: "\<And>v. y = Inr (v, []) \<Longrightarrow> writes V v inp"
    by (rule read_whole [OF assms, where l = 64 and inp = inp]) blast
  have n: "normalize nx inp = (case y of Inl e \<Rightarrow> Some (Inl e)
      | Inr (v, rest) \<Rightarrow> if rest \<noteq> [] then Some (Inl TrailingBytes) else Some (Inr (write_value v)))"
    by (simp only: normalize_def MAX_DEPTH_def y option.case)
  have "\<exists>r. normalize nx inp = Some r \<and> (\<forall>out. r = Inr out \<longrightarrow> (\<exists>v. writes V v inp \<and> out = write_value v))"
    using good by (auto simp: n split: sum.split prod.split if_split)
  then show ?thesis using that by blast
qed

text \<open>
  A datagram longer than the limit is always rejected, although the buffer holds one byte more than
  the limit only; whatever is accepted is the decoding of a reordering of the whole payload, within the limit;
  decoding never panics; and what is sent is the whole encoding, within the limit of a transport
  that \<open>from_socket\<close> accepted, hence at most 65507 bytes.
\<close>

theorem datagrams_within_limit:
  assumes "from_socket limit = Inr t" and "atom_reader V nx"
  shows "(\<exists>r. datagram_decode nx describe decode (recv_datagram t payload source) = Some r \<and>
      (length payload > limit \<longrightarrow> r = Inl (MessageTooLarge (Some source) (limit + 1) limit)) \<and>
      (\<forall>m. r = Inr m \<longrightarrow> length payload \<le> limit \<and> rm_source m = source \<and> rm_encoded_len m = length payload \<and>
        (\<exists>v. writes V v payload \<and> decode (write_value v) = Inr (rm_message m)))) \<and>
    (\<forall>n. try_send_to encode socket t dest msg = Inr n \<longrightarrow>
      n \<le> limit \<and> n \<le> 65507 \<and> (\<exists>bs. encode msg = Inr bs \<and> length bs = n))"
proof
  have t: "ut_max_message_size t = limit" and lim: "0 < limit" "limit \<le> 65507"
    using assms(1) by (auto simp: from_socket_def MAX_UDP_PAYLOAD_SIZE_def split: if_splits)
  show "\<forall>n. try_send_to encode socket t dest msg = Inr n \<longrightarrow>
      n \<le> limit \<and> n \<le> 65507 \<and> (\<exists>bs. encode msg = Inr bs \<and> length bs = n)"
    using t lim by (auto simp: try_send_to_def split: sum.splits if_splits)
  show "\<exists>r. datagram_decode nx describe decode (recv_datagram t payload source) = Some r \<and>
      (length payload > limit \<longrightarrow> r = Inl (MessageTooLarge (Some source) (limit + 1) limit)) \<and>
      (\<forall>m. r = Inr m \<longrightarrow> length payload \<le> limit \<and> rm_source m = source \<and> rm_encoded_len m = length payload \<and>
        (\<exists>v. writes V v payload \<and> decode (write_value v) = Inr (rm_message m)))"
  proof (cases "length payload > limit")
    case True
    then show ?thesis by (simp add: datagram_decode_def recv_datagram_def t)
  next
    case False
    then have d: "dg_bytes (recv_datagram t payload source) = payload" "dg_limit (recv_datagram t payload source) = limit"
      "dg_source (recv_datagram t payload source) = source" by (simp_all add: recv_datagram_def t)
    obtain r where r: "normalize nx payload = Some r"
      and good: "\<And>out. r = Inr out \<Longrightarrow> \<exists>v. writes V v payload \<and> out = write_value v"
      using normalize_reads [OF assms(2)] by metis
    show ?thesis using False good
      by (cases r) (auto simp: datagram_decode_def d r split: sum.splits)
  qed
qed

theorem datagrams_within_limit_witness:
  "datagram_decode small_reader (\<lambda>_. ''bad'') (\<lambda>_. Inl ''none'') (recv_datagram \<lparr>ut_max_message_size = 3\<rparr> [100, 101, 0, 0, 0] (SA4 1 1))
     = Some (Inl (MessageTooLarge (Some (SA4 1 1)) 4 3))"
proof -
  have "from_socket 3 = Inr \<lparr>ut_max_message_size = 3\<rparr>" by (simp add: from_socket_def MAX_UDP_PAYLOAD_SIZE_def)
  from datagrams_within_limit [OF this small_reader_ok, of "\<lambda>_. ''bad''" "\<lambda>_. Inl ''none''" "[100, 101, 0, 0, 0]" "SA4 1 1"]
  show ?thesis by simp
qed

end
