(* ===== verification/Sampler.thy ===== *)
theory Sampler imports DispatcherApi RoutingOps begin

text \<open>
  The active sampler of info hashes, \<open>src/dht/dispatcher/sampler/\<close>: configuration and results
  (\<open>api.rs\<close>), state, start and stop (\<open>state.rs\<close>), choice of the next request (\<open>schedule.rs\<close>), outcomes
  (\<open>outcome.rs\<close>), response check (\<open>protocol.rs\<close>) and persistent reservations (\<open>durable/mod.rs\<close>).

  The output channel is the environment's: \<open>closed\<close> tells whether the receiver is gone, \<open>slot\<close> whether
  \<open>try_reserve_owned\<close> gets a slot, a permit is a flag that moves from the session to the request, and a batch
  that is sent is returned. A database future is the command it carries (\<open>reservation\<close>,
  \<open>settlement\<close>) until its result arrives as an \<open>event\<close>. Random targets, the later reading
  \<open>fresh\<close> of the clock in \<open>mark_storage_fault\<close> and the system time are arguments.
\<close>

section \<open>Configuration and results\<close>

record sampler_config =
  sc_parallelism :: nat
  sc_send_spacing :: duration
  sc_max_queries :: nat
  sc_shortlist_size :: nat
  sc_candidate_capacity :: nat
  sc_output_capacity :: nat
  sc_minimum_interval :: duration
  sc_retry_initial :: duration
  sc_retry_max :: duration
  sc_cooldown_capacity :: nat
  sc_address_policy :: address_policy

definition default_sampler_config :: sampler_config where
  "default_sampler_config = \<lparr>sc_parallelism = 3, sc_send_spacing = secs 1, sc_max_queries = 64,
     sc_shortlist_size = 8, sc_candidate_capacity = 1024, sc_output_capacity = 64,
     sc_minimum_interval = secs 60, sc_retry_initial = secs 60, sc_retry_max = secs 900,
     sc_cooldown_capacity = 10000, sc_address_policy = PublicOnly\<rparr>"

datatype sampler_error = StorageFault | AlreadyRunning | InvalidSamplerConfig | SamplerClosed

definition validate_sampler :: "nat \<Rightarrow> sampler_config \<Rightarrow> nat \<Rightarrow> instant \<Rightarrow> sampler_error + unit" where
  "validate_sampler max_permits c max_pending now =
     (if sc_parallelism c = 0 \<or> sc_parallelism c \<ge> max_pending \<or> sc_send_spacing c = 0
        \<or> sc_minimum_interval c = 0 \<or> sc_retry_initial c = 0 \<or> sc_retry_max c < sc_retry_initial c
        \<or> sc_shortlist_size c = 0 \<or> sc_max_queries c < sc_shortlist_size c
        \<or> sc_candidate_capacity c < sc_shortlist_size c \<or> sc_candidate_capacity c < sc_parallelism c
        \<or> sc_output_capacity c = 0 \<or> sc_output_capacity c > max_permits \<or> sc_cooldown_capacity c = 0
        \<or> list_ex (\<lambda>d. instant_checked_add now d = None) [sc_send_spacing c, sc_minimum_interval c, sc_retry_max c]
      then Inl InvalidSamplerConfig else Inr ())"

record sample_batch =
  sb_observed_at :: int
  sb_responder :: discovered_node
  sb_target :: node_id
  sb_received_at :: instant
  sb_interval :: duration
  sb_num :: u64
  sb_samples :: "swarm_key list"

datatype pause_reason = PauseStopped | PauseReady | PauseNoSeeds | PauseCooldown | PauseTransactions | PauseOutput
  | PauseTracking | PauseStorage

record sampler_status =
  ss_storage_error :: "storage_error option"
  ss_running :: bool
  ss_in_flight :: nat
  ss_candidates :: nat
  ss_successful :: nat
  ss_failed :: nat
  ss_unsupported :: nat
  ss_pause :: pause_reason

definition default_sampler_status :: sampler_status where
  "default_sampler_status = \<lparr>ss_storage_error = None, ss_running = False, ss_in_flight = 0, ss_candidates = 0,
     ss_successful = 0, ss_failed = 0, ss_unsupported = 0, ss_pause = PauseStopped\<rparr>"

record sample_response =
  sr_nodes :: "discovered_node list"
  sr_interval :: duration
  sr_num :: u64
  sr_samples :: "swarm_key list"

text \<open>The filter with a set of seen values keeps the first occurrence of each sample.\<close>

fun keep_first :: "'a list \<Rightarrow> 'a set \<Rightarrow> 'a list" where
  "keep_first [] seen = []"
| "keep_first (x # xs) seen = (if x \<in> seen then keep_first xs seen else x # keep_first xs (insert x seen))"

definition decode_sample :: "response_args \<Rightarrow> discovered_node list \<Rightarrow> nat \<Rightarrow> query_error + sample_response option" where
  "decode_sample r nodes encoded_len =
     (if encoded_len > 1024 then Inl (InvalidResponse ''response longer than 1024 bytes'')
      else case ra_samples r of
        None \<Rightarrow> Inr None
      | Some samples \<Rightarrow>
         and_then (ok_or (case ra_interval r of None \<Rightarrow> None | Some n \<Rightarrow> if n \<le> 21600 then Some n else None)
             (InvalidResponse ''no valid interval'')) (\<lambda>interval.
         and_then (ok_or (ra_num r) (InvalidResponse ''no num'')) (\<lambda>n.
         let distinct_samples = keep_first samples {} in
         if unat n < length distinct_samples then Inl (InvalidResponse ''num below the number of samples'')
         else Inr (Some \<lparr>sr_nodes = nodes, sr_interval = secs (unat interval), sr_num = n,
           sr_samples = distinct_samples\<rparr>))))"

section \<open>State\<close>

definition UNSUPPORTED_FOR :: duration where
  "UNSUPPORTED_FOR = secs 21600"

datatype request_kind = Sample | FindNodeFallback

record cooldown_lease =
  cl_duration_ms :: int
  cl_identity :: int
  cl_id :: node_id
  cl_ip :: ip_addr
  cl_token :: bytes

record request =
  rq_generation :: u64
  rq_lease :: "cooldown_lease option"
  rq_node :: discovered_node
  rq_target :: node_id
  rq_kind :: request_kind
  rq_permit :: bool

record sampling_candidate =
  ca_node :: discovered_node
  ca_visited :: bool
  ca_kind :: request_kind

record cooldown =
  cd_until :: instant
  cd_failures :: nat

record sampling_session =
  se_config :: sampler_config
  se_ready_permit :: bool
  se_candidates :: "(node_id, sampling_candidate) hmap"
  se_in_flight :: "(node_id, ip_addr) hmap"
  se_target :: node_id
  se_queries :: nat
  se_next_send :: instant

record candidate_selection =
  cs_candidate :: "sampling_candidate option"
  cs_earliest :: "instant option"
  cs_tracking_full :: bool

record reservation =
  rv_request :: request
  rv_identity :: local_identity
  rv_at :: int
  rv_duration_ms :: int
  rv_capacity :: nat

datatype settlement =
  Settle cooldown_lease "storage_error + int" int nat
| Abandon cooldown_lease

record durable =
  du_clock :: clock
  du_identity :: local_identity
  du_reserving :: "reservation option"
  du_ready :: "request option"
  du_settling :: "settlement list"

record sampler =
  sa_generation :: u64
  sa_durable :: "durable option"
  sa_session :: "sampling_session option"
  sa_ids :: "(node_id, cooldown) hmap"
  sa_ips :: "(ip_addr, instant) hmap"
  sa_status :: sampler_status
  sa_deadline :: "instant option"

definition default_sampler :: sampler where
  "default_sampler = \<lparr>sa_generation = 0, sa_durable = None, sa_session = None, sa_ids = [], sa_ips = [],
     sa_status = default_sampler_status, sa_deadline = None\<rparr>"

abbreviation node_ip :: "discovered_node \<Rightarrow> ip_addr" where
  "node_ip n \<equiv> sa_ip (dn_address n)"

abbreviation storage_fault :: "sampler \<Rightarrow> storage_error option" where
  "storage_fault s \<equiv> ss_storage_error (sa_status s)"

definition pause_with :: "pause_reason \<Rightarrow> sampler \<Rightarrow> sampler" where
  "pause_with p s = s\<lparr>sa_status := (sa_status s)\<lparr>ss_pause := p\<rparr>\<rparr>"

definition sampler_start :: "nat \<Rightarrow> sampler \<Rightarrow> sampler_config \<Rightarrow> nat \<Rightarrow> instant \<Rightarrow> node_id
    \<Rightarrow> sampler \<times> (sampler_error + unit)" where
  "sampler_start max_permits s cfg max_pending now random =
     (if storage_fault s \<noteq> None then (s, Inl StorageFault)
      else if sa_durable s \<noteq> None \<and> sc_cooldown_capacity cfg > 10000 then (s, Inl InvalidSamplerConfig)
      else if sa_session s \<noteq> None then (s, Inl AlreadyRunning)
      else case validate_sampler max_permits cfg max_pending now of
        Inl e \<Rightarrow> (s, Inl e)
      | Inr _ \<Rightarrow>
         (let s = s\<lparr>sa_ids := hm_retain (\<lambda>_ v. cd_until v > now) (sa_ids s),
                sa_ips := hm_retain (\<lambda>_ until. until > now) (sa_ips s)\<rparr> in
          if length (sa_ids s) > sc_cooldown_capacity cfg \<or> length (sa_ips s) > sc_cooldown_capacity cfg
          then (s, Inl InvalidSamplerConfig)
          else (s\<lparr>sa_generation := sa_generation s + 1,
                 sa_session := Some \<lparr>se_config = cfg, se_ready_permit = False, se_candidates = [], se_in_flight = [],
                   se_target = random, se_queries = 0, se_next_send = now\<rparr>,
                 sa_status := default_sampler_status\<lparr>ss_running := True\<rparr>,
                 sa_deadline := Some now\<rparr>, Inr ())))"

definition accept_permit :: "sampler \<Rightarrow> sampler" where
  "accept_permit s = (case sa_session s of None \<Rightarrow> s
     | Some se \<Rightarrow> s\<lparr>sa_session := Some (se\<lparr>se_ready_permit := True\<rparr>)\<rparr>)"

definition cool_id :: "(node_id, cooldown) hmap \<Rightarrow> node_id \<Rightarrow> instant \<Rightarrow> nat \<Rightarrow> (node_id, cooldown) hmap" where
  "cool_id m i until failures = hm_put i (case hm_get m i of
     None \<Rightarrow> \<lparr>cd_until = until, cd_failures = failures\<rparr>
   | Some v \<Rightarrow> v\<lparr>cd_until := max (cd_until v) until, cd_failures := failures\<rparr>) m"

definition cool_ip :: "(ip_addr, instant) hmap \<Rightarrow> ip_addr \<Rightarrow> instant \<Rightarrow> (ip_addr, instant) hmap" where
  "cool_ip m ip until = hm_put ip (case hm_get m ip of None \<Rightarrow> until | Some v \<Rightarrow> max v until) m"

definition sampler_cooldown :: "sampler \<Rightarrow> discovered_node \<Rightarrow> instant \<Rightarrow> nat \<Rightarrow> sampler" where
  "sampler_cooldown s node until failures =
     s\<lparr>sa_ids := cool_id (sa_ids s) (dn_id node) until failures, sa_ips := cool_ip (sa_ips s) (node_ip node) until\<rparr>"

definition request_finished :: "sampler \<Rightarrow> request \<Rightarrow> sampler" where
  "request_finished s r = (case sa_session s of None \<Rightarrow> s
     | Some se \<Rightarrow> let fl = hm_remove (dn_id (rq_node r)) (se_in_flight se) in
         s\<lparr>sa_session := Some (se\<lparr>se_in_flight := fl\<rparr>), sa_status := (sa_status s)\<lparr>ss_in_flight := length fl\<rparr>\<rparr>)"

definition push_settlement :: "settlement \<Rightarrow> sampler \<Rightarrow> sampler" where
  "push_settlement x s = (case sa_durable s of None \<Rightarrow> s
     | Some d \<Rightarrow> s\<lparr>sa_durable := Some (d\<lparr>du_settling := du_settling d @ [x]\<rparr>)\<rparr>)"

definition abandon_unsent :: "sampler \<Rightarrow> request \<Rightarrow> instant \<Rightarrow> sampler" where
  "abandon_unsent s0 r now =
     (let s = request_finished s0 r;
          s = (if rq_kind r = Sample
               then (let s = s\<lparr>sa_ids := hm_remove (dn_id (rq_node r)) (sa_ids s),
                              sa_ips := hm_remove (node_ip (rq_node r)) (sa_ips s)\<rparr>
                     in case rq_lease r of None \<Rightarrow> s | Some lease \<Rightarrow> push_settlement (Abandon lease) s)
               else s)
      in case sa_session s of None \<Rightarrow> s
         | Some se \<Rightarrow> (let at = max (se_next_send se) (now + secs 1)
                       in s\<lparr>sa_session := Some (se\<lparr>se_next_send := at\<rparr>), sa_deadline := Some at\<rparr>))"

definition take_ready :: "sampler \<Rightarrow> sampler \<times> request option" where
  "take_ready s = (case sa_durable s of None \<Rightarrow> (s, None)
     | Some d \<Rightarrow> (s\<lparr>sa_durable := Some (d\<lparr>du_ready := None\<rparr>)\<rparr>, du_ready d))"

definition abandon_ready :: "sampler \<Rightarrow> instant \<Rightarrow> sampler" where
  "abandon_ready s now = (case take_ready s of (s, None) \<Rightarrow> s | (s, Some r) \<Rightarrow> abandon_unsent s r now)"

text \<open>The requests in flight when a session ends keep the longest interval that a remote node may ask for.\<close>

definition hold_id :: "(node_id, cooldown) hmap \<Rightarrow> node_id \<Rightarrow> instant \<Rightarrow> (node_id, cooldown) hmap" where
  "hold_id m i until = (case hm_get m i of None \<Rightarrow> m
     | Some v \<Rightarrow> hm_put i (v\<lparr>cd_until := max (cd_until v) until\<rparr>) m)"

definition hold_ip :: "(ip_addr, instant) hmap \<Rightarrow> ip_addr \<Rightarrow> instant \<Rightarrow> (ip_addr, instant) hmap" where
  "hold_ip m ip until = (case hm_get m ip of None \<Rightarrow> m | Some v \<Rightarrow> hm_put ip (max v until) m)"

definition sampler_stop :: "sampler \<Rightarrow> instant \<Rightarrow> sampler" where
  "sampler_stop s now =
     (let s = abandon_ready s now;
          s = (case sa_session s of None \<Rightarrow> s
             | Some se \<Rightarrow> s\<lparr>sa_session := None,
                 sa_ids := fold (\<lambda>(i, _) m. hold_id m i (now + UNSUPPORTED_FOR)) (se_in_flight se) (sa_ids s),
                 sa_ips := fold (\<lambda>(_, ip) m. hold_ip m ip (now + UNSUPPORTED_FOR)) (se_in_flight se) (sa_ips s)\<rparr>)
      in s\<lparr>sa_status := (sa_status s)\<lparr>ss_running := False, ss_in_flight := 0, ss_candidates := 0,
             ss_pause := PauseStopped\<rparr>, sa_deadline := None\<rparr>)"

section \<open>Reservations and settlements\<close>

definition mark_storage_fault :: "sampler \<Rightarrow> storage_error \<Rightarrow> instant \<Rightarrow> sampler" where
  "mark_storage_fault s e fresh =
     (let s = sampler_stop s fresh
      in s\<lparr>sa_status := (sa_status s)\<lparr>ss_storage_error := Some e, ss_pause := PauseStorage\<rparr>\<rparr>)"

definition millis_ceil :: "duration \<Rightarrow> int" where
  "millis_ceil d = int (div_ceil d 1000000)"

definition reserve_request :: "sampler \<Rightarrow> request \<Rightarrow> instant \<Rightarrow> instant \<Rightarrow> sampler \<times> request option" where
  "reserve_request s r now fresh =
     (case sa_durable s of None \<Rightarrow> (s, Some r)
      | Some d \<Rightarrow>
         if rq_lease r \<noteq> None \<or> rq_kind r = FindNodeFallback then (s, Some r)
         else case sa_session s of None \<Rightarrow> (s, None)
         | Some se \<Rightarrow>
           (let dur = millis_ceil (max (sc_minimum_interval (se_config se)) UNSUPPORTED_FOR) in
            case millis_at (du_clock d) now of
              Inl e \<Rightarrow> (mark_storage_fault s (clock_storage_error e) fresh, None)
            | Inr at \<Rightarrow>
               if dur \<ge> 2 ^ 63 then (mark_storage_fault s (Invalid ''cooldown too long'') fresh, None)
               else (pause_with PauseStorage (s\<lparr>sa_deadline := None, sa_durable := Some (d\<lparr>du_reserving := Some
                       \<lparr>rv_request = r, rv_identity = du_identity d, rv_at = at, rv_duration_ms = dur,
                        rv_capacity = sc_cooldown_capacity (se_config se)\<rparr>\<rparr>)\<rparr>), None)))"

definition take_reserved :: "sampler \<Rightarrow> nat \<Rightarrow> instant \<Rightarrow> sampler \<times> request option" where
  "take_reserved s capacity now =
     (case (sa_durable s, sa_session s) of
        (Some d, Some se) \<Rightarrow>
          if du_ready d = None \<or> du_settling d \<noteq> [] \<or> capacity = 0 then (s, None)
          else if now < se_next_send se then (s\<lparr>sa_deadline := Some (se_next_send se)\<rparr>, None)
          else (s\<lparr>sa_session := Some (se\<lparr>se_next_send := now + sc_send_spacing (se_config se)\<rparr>),
                 sa_durable := Some (d\<lparr>du_ready := None\<rparr>)\<rparr>, du_ready d)
      | _ \<Rightarrow> (s, None))"

definition settle_request :: "sampler \<Rightarrow> request \<Rightarrow> instant \<Rightarrow> instant \<Rightarrow> sampler" where
  "settle_request s r now fresh =
     (case (rq_lease r, hm_get (sa_ids s) (dn_id (rq_node r)), sa_durable s) of
        (Some lease, Some cd, Some d) \<Rightarrow>
          (case millis_at (du_clock d) now of
             Inl e \<Rightarrow> mark_storage_fault s (clock_storage_error e) fresh
           | Inr at \<Rightarrow> (let dur = max (millis_ceil (cd_until cd - now)) 1 in
               if dur \<ge> 2 ^ 63 then mark_storage_fault s (Invalid ''settlement too long'') fresh
               else push_settlement (Settle lease (Inr at) dur (cd_failures cd)) s))
      | _ \<Rightarrow> s)"

definition cancel_request :: "sampler \<Rightarrow> request \<Rightarrow> instant \<Rightarrow> instant \<Rightarrow> sampler" where
  "cancel_request s r now fresh =
     (case rq_lease r of None \<Rightarrow> s
      | Some lease \<Rightarrow>
         (let ms = max (cl_duration_ms lease) 21600000 in
          case instant_checked_add now (millis (nat ms)) of
            None \<Rightarrow> mark_storage_fault s (Invalid ''cancellation too long'') fresh
          | Some until \<Rightarrow>
             (let s = sampler_cooldown s (rq_node r) until 0 in
              case sa_durable s of None \<Rightarrow> s
              | Some d \<Rightarrow> push_settlement (Settle lease (case millis_at (du_clock d) now of
                    Inl e \<Rightarrow> Inl (clock_storage_error e) | Inr at \<Rightarrow> Inr at) ms 0) s)))"

definition uncertain_send :: "sampler \<Rightarrow> request \<Rightarrow> instant \<Rightarrow> instant \<Rightarrow> sampler" where
  "uncertain_send s r now fresh = cancel_request (request_finished s r) r now fresh"

text \<open>Results of the database: of the reservation in progress, or of one of the settlements.\<close>

datatype storage_result = Reserved "storage_error + cooldown_lease" | Settled nat "storage_error + unit"

definition storage_event :: "sampler \<Rightarrow> storage_result \<Rightarrow> instant \<Rightarrow> sampler" where
  "storage_event s ev fresh =
     (case sa_durable s of None \<Rightarrow> s
      | Some d \<Rightarrow> (case ev of
          Reserved result \<Rightarrow> (case du_reserving d of None \<Rightarrow> s
            | Some rv \<Rightarrow>
               (let s = s\<lparr>sa_durable := Some (d\<lparr>du_reserving := None\<rparr>)\<rparr> in
                case result of
                  Inl e \<Rightarrow> mark_storage_fault s e fresh
                | Inr lease \<Rightarrow>
                   (let r = (rv_request rv)\<lparr>rq_lease := Some lease\<rparr> in
                    if sa_session s \<noteq> None \<and> rq_generation r = sa_generation s
                    then s\<lparr>sa_durable := Some (d\<lparr>du_reserving := None, du_ready := Some r\<rparr>)\<rparr>
                    else abandon_unsent s r fresh)))
        | Settled n result \<Rightarrow> if n \<ge> length (du_settling d) then s
            else (let s = s\<lparr>sa_durable := Some (d\<lparr>du_settling := take n (du_settling d) @ drop (Suc n) (du_settling d)\<rparr>)\<rparr> in
              case result of Inl e \<Rightarrow> mark_storage_fault s e fresh | Inr _ \<Rightarrow> s)))"

definition drained :: "sampler \<Rightarrow> bool" where
  "drained s = (case sa_durable s of None \<Rightarrow> True | Some d \<Rightarrow> du_reserving d = None \<and> du_settling d = [])"

text \<open>The loop that waits for the database; \<open>None\<close>: it still waits after the given results.\<close>

fun flush_storage :: "sampler \<Rightarrow> (storage_result \<times> instant) list \<Rightarrow> (sampler \<times> (storage_error + unit)) option" where
  "flush_storage s evs = (if drained s then Some (s, case storage_fault s of None \<Rightarrow> Inr () | Some e \<Rightarrow> Inl e)
     else case evs of [] \<Rightarrow> None | (ev, fresh) # evs \<Rightarrow> flush_storage (storage_event s ev fresh) evs)"

declare flush_storage.simps [simp del]

definition prepare_identity_change :: "sampler \<Rightarrow> (storage_result \<times> instant) list \<Rightarrow> instant \<Rightarrow> node_id
    \<Rightarrow> (sampler \<times> (storage_error + unit)) option" where
  "prepare_identity_change s evs now random =
     (case flush_storage (abandon_ready (s\<lparr>sa_generation := sa_generation s + 1\<rparr>) now) evs of
        None \<Rightarrow> None
      | Some (s, Inl e) \<Rightarrow> Some (s, Inl e)
      | Some (s, Inr _) \<Rightarrow> Some (s\<lparr>sa_session := map_option (\<lambda>se. se\<lparr>se_in_flight := [], se_candidates := [],
             se_ready_permit := False, se_target := random, se_queries := 0, se_next_send := now\<rparr>) (sa_session s),
           sa_deadline := map_option (\<lambda>_. now) (sa_session s)\<rparr>, Inr ()))"

definition identity_changed :: "sampler \<Rightarrow> local_identity \<Rightarrow> sampler" where
  "identity_changed s identity =
     s\<lparr>sa_durable := map_option (\<lambda>d. d\<lparr>du_identity := identity\<rparr>) (sa_durable s)\<rparr>"

datatype restored_cooldown = RestoredId node_id int nat | RestoredIp ip_addr int

text \<open>A restored value that is out of range ends the loop; the entries before it stay.\<close>

fun restore_cooldowns :: "instant \<Rightarrow> sampler \<Rightarrow> restored_cooldown list \<Rightarrow> sampler \<times> (storage_error + unit)" where
  "restore_cooldowns now s [] = (s, Inr ())"
| "restore_cooldowns now s (v # vs) =
     (let remaining = (case v of RestoredId _ ms _ \<Rightarrow> ms | RestoredIp _ ms \<Rightarrow> ms) in
      if remaining < 0 then (s, Inl (Invalid ''cooldown time''))
      else case instant_checked_add now (millis (nat remaining)) of
        None \<Rightarrow> (s, Inl (Invalid ''cooldown overflow''))
      | Some until \<Rightarrow> restore_cooldowns now (case v of
            RestoredId i _ failures \<Rightarrow> s\<lparr>sa_ids := hm_put i \<lparr>cd_until = until, cd_failures = failures\<rparr> (sa_ids s)\<rparr>
          | RestoredIp ip _ \<Rightarrow> s\<lparr>sa_ips := hm_put ip until (sa_ips s)\<rparr>) vs)"

definition attach_sampler_storage :: "sampler \<Rightarrow> clock \<Rightarrow> local_identity \<Rightarrow> restored_cooldown list \<Rightarrow> instant
    \<Rightarrow> sampler \<times> (storage_error + unit)" where
  "attach_sampler_storage s clock identity restored now =
     (if sa_session s \<noteq> None \<or> sa_durable s \<noteq> None then (s, Inl (Invalid ''storage in use''))
      else case restore_cooldowns now s restored of
        (s, Inl e) \<Rightarrow> (s, Inl e)
      | (s, Inr _) \<Rightarrow> (s\<lparr>sa_durable := Some \<lparr>du_clock = clock, du_identity = identity, du_reserving = None,
            du_ready = None, du_settling = []\<rparr>\<rparr>, Inr ()))"

section \<open>Candidates\<close>

text \<open>\<open>contact\<close> panics when no bucket holds an identifier; such a node makes the operation \<open>None\<close>.\<close>

definition add_node :: "routing_table \<Rightarrow> instant \<Rightarrow> sampling_session \<Rightarrow> discovered_node \<Rightarrow> sampling_session option" where
  "add_node rt now se node =
     (if dn_id node = rt_local_id rt then Some se
      else case contact rt (dn_id node) of
        None \<Rightarrow> None
      | Some known \<Rightarrow>
          if (case known of None \<Rightarrow> False | Some c \<Rightarrow> contact_status c now = Bad) then Some se
          else (let verified = (known \<noteq> None);
                    node = (case known of None \<Rightarrow> node | Some c \<Rightarrow> \<lparr>dn_id = nc_id c, dn_address = nc_address c\<rparr>)
                in if \<not> family_accepts (rt_family rt) (dn_address node)
                     \<or> \<not> policy_accepts (sc_address_policy (se_config se)) (dn_address node) then Some se
                   else Some (se\<lparr>se_candidates := hm_put (dn_id node)
                     (case hm_get (se_candidates se) (dn_id node) of
                        None \<Rightarrow> \<lparr>ca_node = node, ca_visited = False, ca_kind = Sample\<rparr>
                      | Some old \<Rightarrow> if verified \<and> \<not> hm_has (se_in_flight se) (dn_id node)
                          then old\<lparr>ca_node := node\<rparr> else old) (se_candidates se)\<rparr>)))"

fun add_each :: "routing_table \<Rightarrow> instant \<Rightarrow> sampling_session \<Rightarrow> discovered_node list \<Rightarrow> sampling_session option" where
  "add_each rt now se [] = Some se"
| "add_each rt now se (n # ns) = (case add_node rt now se n of None \<Rightarrow> None | Some se \<Rightarrow> add_each rt now se ns)"

text \<open>
  The furthest candidate that is not in flight (\<open>max_by_key\<close>: the last of the sorted list). The number of
  rounds is the number of candidates too many: every round removes one or ends the loop.
\<close>

definition worst_candidate :: "sampling_session \<Rightarrow> node_id option" where
  "worst_candidate se =
     (let idle = filter (\<lambda>c. \<not> hm_has (se_in_flight se) (dn_id (ca_node c))) (hm_values (se_candidates se))
      in if idle = [] then None
         else Some (dn_id (ca_node (last (sort_key
           (\<lambda>c. xor_distance (id_bytes (dn_id (ca_node c))) (id_bytes (se_target se))) idle)))))"

fun evict_excess :: "nat \<Rightarrow> sampling_session \<Rightarrow> sampling_session" where
  "evict_excess 0 se = se"
| "evict_excess (Suc n) se = (case worst_candidate se of None \<Rightarrow> se
     | Some i \<Rightarrow> evict_excess n (se\<lparr>se_candidates := hm_remove i (se_candidates se)\<rparr>))"

definition add_nodes :: "sampler \<Rightarrow> discovered_node list \<Rightarrow> routing_table \<Rightarrow> instant \<Rightarrow> sampler option" where
  "add_nodes s nodes rt now =
     (case sa_session s of None \<Rightarrow> Some s
      | Some se \<Rightarrow> (case add_each rt now se nodes of None \<Rightarrow> None
          | Some se \<Rightarrow> Some (s\<lparr>sa_session := Some
              (evict_excess (length (se_candidates se) - sc_candidate_capacity (se_config se)) se)\<rparr>)))"

section \<open>The next request\<close>

definition skipped :: "sampling_session \<Rightarrow> sampling_candidate \<Rightarrow> bool" where
  "skipped se c \<longleftrightarrow> (ca_visited c \<and> ca_kind c = Sample) \<or> hm_has (se_in_flight se) (dn_id (ca_node c))
     \<or> node_ip (ca_node c) \<in> set (hm_values (se_in_flight se))"

definition due_at :: "(node_id, cooldown) hmap \<Rightarrow> (ip_addr, instant) hmap \<Rightarrow> instant \<Rightarrow> sampling_candidate \<Rightarrow> instant" where
  "due_at idm ipm now c =
     (if ca_kind c = FindNodeFallback then now
      else max (case hm_get idm (dn_id (ca_node c)) of None \<Rightarrow> now | Some v \<Rightarrow> cd_until v)
               (case hm_get ipm (node_ip (ca_node c)) of None \<Rightarrow> now | Some until \<Rightarrow> until))"

definition untracked :: "sampling_session \<Rightarrow> (node_id, cooldown) hmap \<Rightarrow> (ip_addr, instant) hmap \<Rightarrow> sampling_candidate \<Rightarrow> bool" where
  "untracked se idm ipm c \<longleftrightarrow>
     (\<not> hm_has idm (dn_id (ca_node c)) \<and> length idm \<ge> sc_cooldown_capacity (se_config se))
     \<or> (\<not> hm_has ipm (node_ip (ca_node c)) \<and> length ipm \<ge> sc_cooldown_capacity (se_config se))"

fun min_option :: "nat list \<Rightarrow> nat option" where
  "min_option [] = None"
| "min_option (x # xs) = Some (foldl min x xs)"

definition select_candidate :: "sampling_session \<Rightarrow> (node_id, cooldown) hmap \<Rightarrow> (ip_addr, instant) hmap \<Rightarrow> instant
    \<Rightarrow> candidate_selection" where
  "select_candidate se idm ipm now =
     (let open = filter (\<lambda>c. \<not> skipped se c) (hm_values (se_candidates se));
          ready = filter (\<lambda>c. due_at idm ipm now c \<le> now) open;
          eligible = closest_by (\<lambda>c. xor_distance (id_bytes (dn_id (ca_node c))) (id_bytes (se_target se)))
            (sc_shortlist_size (se_config se)) (filter (\<lambda>c. \<not> untracked se idm ipm c) ready)
      in \<lparr>cs_candidate = (case eligible of [] \<Rightarrow> None | c # _ \<Rightarrow> Some c),
          cs_earliest = min_option (filter (\<lambda>at. at > now) (map (due_at idm ipm now) open)),
          cs_tracking_full = list_ex (untracked se idm ipm) ready\<rparr>)"

definition reset_round :: "sampling_session \<Rightarrow> instant \<Rightarrow> node_id \<Rightarrow> sampling_session" where
  "reset_round se now random = se\<lparr>se_target := random, se_queries := 0,
     se_candidates := map (\<lambda>(i, c). (i, c\<lparr>ca_visited := False, ca_kind := Sample\<rparr>)) (se_candidates se),
     se_next_send := now + sc_send_spacing (se_config se)\<rparr>"

definition register_request :: "sampler \<Rightarrow> sampling_session \<Rightarrow> sampling_candidate \<Rightarrow> instant \<Rightarrow> (sampler \<times> request) option" where
  "register_request s se c now =
     (let i = dn_id (ca_node c); ip = node_ip (ca_node c) in
      case hm_get (se_candidates se) i of
        None \<Rightarrow> None
      | Some tracked \<Rightarrow>
         (let se' = se\<lparr>se_candidates := hm_put i (tracked\<lparr>ca_visited := True, ca_kind := Sample\<rparr>) (se_candidates se),
                se_in_flight := hm_put i ip (se_in_flight se), se_queries := se_queries se + 1,
                se_next_send := now + sc_send_spacing (se_config se), se_ready_permit := False\<rparr>
          in Some (s\<lparr>sa_session := Some se',
                sa_ids := (if hm_has (sa_ids s) i then sa_ids s else hm_put i \<lparr>cd_until = now, cd_failures = 0\<rparr> (sa_ids s)),
                sa_ips := (if hm_has (sa_ips s) ip then sa_ips s else hm_put ip now (sa_ips s)),
                sa_deadline := Some (se_next_send se'),
                sa_status := (sa_status s)\<lparr>ss_pause := PauseReady, ss_in_flight := length (se_in_flight se')\<rparr>\<rparr>,
              \<lparr>rq_generation = sa_generation s, rq_lease = None, rq_node = ca_node c, rq_target = se_target se,
               rq_kind = ca_kind c, rq_permit = se_ready_permit se\<rparr>)))"

definition next_round :: "sampler \<Rightarrow> sampling_session \<Rightarrow> instant \<Rightarrow> node_id \<Rightarrow> sampler" where
  "next_round s se now random = (let se = reset_round se now random in
     pause_with PauseCooldown (s\<lparr>sa_session := Some se, sa_deadline := Some (se_next_send se)\<rparr>))"

text \<open>The bookkeeping of cooldowns is pruned only when it is full.\<close>

definition prune :: "sampler \<Rightarrow> sampling_session \<Rightarrow> instant \<Rightarrow> sampler" where
  "prune s se now = s\<lparr>
     sa_ids := (if length (sa_ids s) \<ge> sc_cooldown_capacity (se_config se)
       then hm_retain (\<lambda>i v. cd_until v > now \<or> hm_has (se_in_flight se) i) (sa_ids s) else sa_ids s),
     sa_ips := (if length (sa_ips s) \<ge> sc_cooldown_capacity (se_config se)
       then hm_retain (\<lambda>ip until. until > now \<or> ip \<in> set (hm_values (se_in_flight se))) (sa_ips s) else sa_ips s)\<rparr>"

definition choose_next :: "sampler \<Rightarrow> sampling_session \<Rightarrow> instant \<Rightarrow> node_id \<Rightarrow> (sampler \<times> request option) option" where
  "choose_next s0 se now random =
     (let s = prune s0 se now; sel = select_candidate se (sa_ids s) (sa_ips s) now in
      case cs_candidate sel of
        Some c \<Rightarrow> (case register_request s se c now of None \<Rightarrow> None | Some (s, r) \<Rightarrow> Some (s, Some r))
      | None \<Rightarrow>
         if se_in_flight se = [] \<and> list_ex ca_visited (hm_values (se_candidates se))
         then Some (next_round s se now random, None)
         else let earliest = (if cs_tracking_full sel
                then min_option ((case cs_earliest sel of None \<Rightarrow> [] | Some at \<Rightarrow> [at])
                  @ filter (\<lambda>at. at > now) (map cd_until (hm_values (sa_ids s)) @ hm_values (sa_ips s)))
                else cs_earliest sel)
              in Some ((pause_with (if cs_tracking_full sel then PauseTracking else PauseCooldown) s)
                   \<lparr>sa_deadline := earliest\<rparr>, None))"

definition gate :: "sampler \<Rightarrow> sampling_session \<Rightarrow> nat \<Rightarrow> instant \<Rightarrow> bool \<Rightarrow> bool \<Rightarrow> node_id
    \<Rightarrow> (sampler \<times> request option) option" where
  "gate s se capacity now closed slot random =
     (if se_candidates se = [] then Some (pause_with PauseNoSeeds s, None)
      else if capacity = 0 \<or> length (se_in_flight se) \<ge> sc_parallelism (se_config se)
      then Some (pause_with PauseTransactions s, None)
      else if closed then Some (s, None)
      else if \<not> se_ready_permit se \<and> \<not> slot then Some (pause_with PauseOutput s, None)
      else let se = se\<lparr>se_ready_permit := True\<rparr>; s = s\<lparr>sa_session := Some se\<rparr> in
        if now < se_next_send se then Some ((pause_with PauseCooldown s)\<lparr>sa_deadline := Some (se_next_send se)\<rparr>, None)
        else if se_queries se \<ge> sc_max_queries (se_config se)
          \<or> list_all (\<lambda>c. ca_visited c \<and> ca_kind c = Sample) (hm_values (se_candidates se))
        then (if se_in_flight se \<noteq> [] then Some (pause_with PauseTransactions s, None)
              else Some (next_round s se now random, None))
        else choose_next s se now random)"

definition storage_busy :: "sampler \<Rightarrow> bool" where
  "storage_busy s = (case sa_durable s of None \<Rightarrow> False
     | Some d \<Rightarrow> du_reserving d \<noteq> None \<or> du_settling d \<noteq> [] \<or> du_ready d \<noteq> None)"

definition retain_usable :: "routing_table \<Rightarrow> instant \<Rightarrow> sampling_session \<Rightarrow> sampling_session option" where
  "retain_usable rt now se =
     (if list_ex (\<lambda>(i, _). \<not> hm_has (se_in_flight se) i \<and> contact rt i = None) (se_candidates se) then None
      else Some (se\<lparr>se_candidates := hm_retain (\<lambda>i _. hm_has (se_in_flight se) i
        \<or> (case contact rt i of Some (Some c) \<Rightarrow> contact_status c now \<noteq> Bad | _ \<Rightarrow> True)) (se_candidates se)\<rparr>))"

definition sampler_next :: "sampler \<Rightarrow> routing_table \<Rightarrow> nat \<Rightarrow> instant \<Rightarrow> bool \<Rightarrow> bool \<Rightarrow> node_id
    \<Rightarrow> (sampler \<times> request option) option" where
  "sampler_next s0 rt capacity now closed slot random =
     (let s = s0\<lparr>sa_deadline := None\<rparr> in
      if storage_fault s \<noteq> None \<or> storage_busy s then Some (pause_with PauseStorage s, None)
      else case sa_session s of None \<Rightarrow> Some (s, None)
      | Some se0 \<Rightarrow>
         (case add_nodes s (map (\<lambda>c. \<lparr>dn_id = nc_id c, dn_address = nc_address c\<rparr>)
               (closest_usable rt (se_target se0) (sc_shortlist_size (se_config se0)) now)) rt now of
            None \<Rightarrow> None
          | Some s \<Rightarrow> (case sa_session s of None \<Rightarrow> Some (s, None)
              | Some se \<Rightarrow> (case retain_usable rt now se of None \<Rightarrow> None
                  | Some se \<Rightarrow> gate (s\<lparr>sa_session := Some se, sa_status := (sa_status s)
                        \<lparr>ss_in_flight := length (se_in_flight se), ss_candidates := length (se_candidates se)\<rparr>\<rparr>)
                      se capacity now closed slot random))))"

section \<open>Outcomes\<close>

definition sampler_success :: "sampler \<Rightarrow> request \<Rightarrow> sample_response \<Rightarrow> routing_table \<Rightarrow> instant \<Rightarrow> instant \<Rightarrow> int
    \<Rightarrow> (sampler \<times> sample_batch option) option" where
  "sampler_success s0 r response rt now fresh system_now =
     (let s = request_finished s0 r in
      case sa_session s of None \<Rightarrow> Some (s, None)
      | Some se \<Rightarrow>
         (case (case sa_durable s of None \<Rightarrow> Inr system_now | Some d \<Rightarrow> wall_at (du_clock d) now) of
            Inl e \<Rightarrow> Some (mark_storage_fault s (clock_storage_error e) fresh, None)
          | Inr observed_at \<Rightarrow>
             (let until = now + max (sr_interval response) (sc_minimum_interval (se_config se));
                  s = settle_request (sampler_cooldown s (rq_node r) until 0) r now fresh
              in case add_nodes s (sr_nodes response) rt now of None \<Rightarrow> None
                 | Some s \<Rightarrow> Some (s\<lparr>sa_status := (sa_status s)\<lparr>ss_successful := ss_successful (sa_status s) + 1\<rparr>\<rparr>,
                     if rq_permit r then Some \<lparr>sb_observed_at = observed_at, sb_responder = rq_node r,
                       sb_target = rq_target r, sb_received_at = now, sb_interval = sr_interval response,
                       sb_num = sr_num response, sb_samples = sr_samples response\<rparr> else None))))"

definition sampler_nodes :: "sampler \<Rightarrow> request \<Rightarrow> discovered_node list \<Rightarrow> routing_table \<Rightarrow> instant \<Rightarrow> instant
    \<Rightarrow> sampler option" where
  "sampler_nodes s0 r nodes rt now fresh =
     (let s = request_finished s0 r;
          s = (if rq_kind r = Sample
               then sampler_cooldown (s\<lparr>sa_status := (sa_status s)\<lparr>ss_unsupported := ss_unsupported (sa_status s) + 1\<rparr>\<rparr>)
                      (rq_node r) (now + UNSUPPORTED_FOR) 0
               else s)
      in add_nodes (settle_request s r now fresh) nodes rt now)"

definition U32_MAX :: nat where
  "U32_MAX = 2 ^ 32 - 1"

definition retry_delay :: "sampler_config \<Rightarrow> nat \<Rightarrow> duration" where
  "retry_delay cfg failures = min (sc_retry_initial cfg * min (2 ^ (failures - 1)) U32_MAX) (sc_retry_max cfg)"

definition sampler_failure :: "sampler \<Rightarrow> request \<Rightarrow> query_error \<Rightarrow> instant \<Rightarrow> instant \<Rightarrow> sampler" where
  "sampler_failure s0 r e now fresh =
     (let s = request_finished s0 r in
      case sa_session s of None \<Rightarrow> s
      | Some se \<Rightarrow>
         (let s = (if rq_kind r = Sample \<and> (case e of Remote code _ \<Rightarrow> code = 204 | _ \<Rightarrow> False)
             then sampler_cooldown (s\<lparr>sa_session := Some (case hm_get (se_candidates se) (dn_id (rq_node r)) of
                      None \<Rightarrow> se
                    | Some c \<Rightarrow> se\<lparr>se_candidates := hm_put (dn_id (rq_node r)) (c\<lparr>ca_kind := FindNodeFallback\<rparr>) (se_candidates se)\<rparr>),
                    sa_status := (sa_status s)\<lparr>ss_unsupported := ss_unsupported (sa_status s) + 1\<rparr>\<rparr>)
                  (rq_node r) (now + UNSUPPORTED_FOR) 0
             else (let failures = (case hm_get (sa_ids s) (dn_id (rq_node r)) of None \<Rightarrow> 1
                       | Some v \<Rightarrow> min (cd_failures v + 1) U32_MAX)
                   in sampler_cooldown (s\<lparr>sa_status := (sa_status s)\<lparr>ss_failed := ss_failed (sa_status s) + 1\<rparr>\<rparr>)
                        (rq_node r) (now + retry_delay (se_config se) failures) failures))
          in settle_request s r now fresh))"

section \<open>The event loop's side\<close>

text \<open>
  \<open>advance_sampler\<close> and \<open>stop_sampler\<close> of \<open>driver.rs\<close>; a request that is handed out goes to
  \<open>start_query\<close>, and the lists are the sampling requests the dispatcher has queued and sent.
\<close>

definition stop_sampler :: "sampler \<Rightarrow> request list \<Rightarrow> request list \<Rightarrow> instant \<Rightarrow> instant \<Rightarrow> sampler" where
  "stop_sampler s queued pending now fresh =
     fold (\<lambda>r s. cancel_request s r now fresh) pending
       (sampler_stop (fold (\<lambda>r s. abandon_unsent s r now) queued s) now)"

definition advance_sampler :: "sampler \<Rightarrow> routing_table \<Rightarrow> nat \<Rightarrow> instant \<Rightarrow> instant \<Rightarrow> bool \<Rightarrow> node_id
    \<Rightarrow> (sampler \<times> request option) option" where
  "advance_sampler s rt capacity now fresh slot random =
     (case take_reserved s capacity now of
        (s, Some r) \<Rightarrow> Some (reserve_request s r now fresh)
      | (s, None) \<Rightarrow>
         if (case sa_durable s of None \<Rightarrow> False | Some d \<Rightarrow> du_ready d \<noteq> None) then Some (s, None)
         else (case sampler_next s rt capacity now False slot random of
             None \<Rightarrow> None
           | Some (s, None) \<Rightarrow> Some (s, None)
           | Some (s, Some r) \<Rightarrow> Some (reserve_request s r now fresh)))"

text \<open>\<open>rotate_identity\<close> of \<open>recovery.rs\<close>, as far as the sampler is concerned; \<open>bound\<close> is the database's answer.\<close>

definition rotate_sampler :: "sampler \<Rightarrow> request list \<Rightarrow> request list \<Rightarrow> (storage_result \<times> instant) list \<Rightarrow> instant \<Rightarrow> instant
    \<Rightarrow> node_id \<Rightarrow> storage_error + local_identity \<Rightarrow> sampler option" where
  "rotate_sampler s queued pending evs now fresh random bound =
     (case prepare_identity_change (fold (\<lambda>r s. cancel_request s r now fresh) pending
             (fold (\<lambda>r s. abandon_unsent s r now) queued s)) evs now random of
        None \<Rightarrow> None
      | Some (s, Inl e) \<Rightarrow> Some (mark_storage_fault s e fresh)
      | Some (s, Inr _) \<Rightarrow> Some (case bound of Inl e \<Rightarrow> mark_storage_fault s e fresh | Inr i \<Rightarrow> identity_changed s i))"

end
