(* ===== verification/Maintenance.thy ===== *)
theory Maintenance
  imports RoutingOps Security
begin

text \<open>
  Routing maintenance, \<open>src/dht/dispatcher/maintenance.rs\<close>: the iterative \<open>find_node\<close>
  lookup and the schedule of startup lookups and bucket refreshes. An index into the candidate map that
  could panic, and a counter that could go below zero, make an operation return an option. The
  iteration order of the hash map does not matter: the distances to one target are all different.
\<close>

section \<open>Configuration\<close>

record maintenance_config =
  mc_enabled :: bool
  mc_refresh_after :: duration
  mc_lookup_parallelism :: nat
  mc_shortlist_size :: nat
  mc_max_queries :: nat
  mc_retry_initial :: duration
  mc_retry_max :: duration
  mc_inter_lookup_delay :: duration
  mc_reserved_user_transactions :: nat

definition default_maintenance_config :: maintenance_config where
  "default_maintenance_config = \<lparr>mc_enabled = True, mc_refresh_after = DEFAULT_BUCKET_REFRESH_AFTER,
     mc_lookup_parallelism = 3, mc_shortlist_size = 8, mc_max_queries = 64, mc_retry_initial = secs 60,
     mc_retry_max = secs (15 * 60), mc_inter_lookup_delay = secs 1, mc_reserved_user_transactions = 1\<rparr>"

section \<open>One lookup\<close>

datatype lookup_kind = Startup | Refresh

record lookup_candidate =
  lc_node :: node_contact
  lc_state :: candidate_state
  lc_verified :: bool

record iterative_lookup =
  il_kind :: lookup_kind
  il_target :: node_id
  il_candidates :: "(node_id, lookup_candidate) hmap"
  il_attempted :: "socket_addr set"
  il_in_flight :: nat
  il_queries_started :: nat
  il_successful :: nat

fun seed_candidates :: "node_contact list \<Rightarrow> (node_id, lookup_candidate) hmap \<Rightarrow> (node_id, lookup_candidate) hmap" where
  "seed_candidates [] m = m"
| "seed_candidates (n # ns) m =
     seed_candidates ns (hm_put (nc_id n) \<lparr>lc_node = n, lc_state = Unqueried, lc_verified = True\<rparr> m)"

definition lookup_new :: "lookup_kind \<Rightarrow> node_id \<Rightarrow> node_contact list \<Rightarrow> iterative_lookup" where
  "lookup_new kind target seeds = \<lparr>il_kind = kind, il_target = target, il_candidates = seed_candidates seeds [],
     il_attempted = {}, il_in_flight = 0, il_queries_started = 0, il_successful = 0\<rparr>"

definition shortlist :: "maintenance_config \<Rightarrow> iterative_lookup \<Rightarrow> node_id list" where
  "shortlist cfg l =
     closest_valid (map (\<lambda>(i, c). (i, lc_state c)) (il_candidates l)) (il_target l) (mc_shortlist_size cfg)"

definition set_state :: "iterative_lookup \<Rightarrow> node_id \<Rightarrow> lookup_candidate \<Rightarrow> candidate_state \<Rightarrow> iterative_lookup" where
  "set_state l i c s = l\<lparr>il_candidates := hm_put i (c\<lparr>lc_state := s\<rparr>) (il_candidates l)\<rparr>"

fun take_ids :: "iterative_lookup \<Rightarrow> node_id list \<Rightarrow> iterative_lookup \<times> node_contact list" where
  "take_ids l [] = (l, [])"
| "take_ids l (i # is) = (case hm_get (il_candidates l) i of
     None \<Rightarrow> take_ids l is
   | Some c \<Rightarrow>
       let a = nc_address (lc_node c) in
       if a \<in> il_attempted l then take_ids (set_state l i c Failed) is
       else let l1 = (set_state l i c InFlight)\<lparr>il_attempted := insert a (il_attempted l),
                  il_in_flight := il_in_flight l + 1, il_queries_started := il_queries_started l + 1\<rparr>;
                (l2, ns) = take_ids l1 is
            in (l2, lc_node c # ns))"

definition take_next :: "iterative_lookup \<Rightarrow> maintenance_config \<Rightarrow> nat \<Rightarrow> (iterative_lookup \<times> node_contact list) option" where
  "take_next l cfg capacity =
     (let n = min (min capacity (mc_lookup_parallelism cfg - il_in_flight l)) (mc_max_queries cfg - il_queries_started l) in
      if n = 0 then Some (l, [])
      else let ids = shortlist cfg l in
        if list_ex (\<lambda>i. hm_get (il_candidates l) i = None) ids then None
        else Some (take_ids l (take n
          (filter (\<lambda>i. map_option lc_state (hm_get (il_candidates l) i) = Some Unqueried) ids))))"

definition finish_candidate :: "iterative_lookup \<Rightarrow> node_id \<Rightarrow> bool \<Rightarrow> iterative_lookup" where
  "finish_candidate l i success = (case hm_get (il_candidates l) i of
     None \<Rightarrow> l
   | Some c \<Rightarrow> if lc_state c = InFlight then
       (set_state l i c (if success then Succeeded else Failed))
         \<lparr>il_in_flight := il_in_flight l - 1, il_successful := il_successful l + (if success then 1 else 0)\<rparr>
     else l)"

fun merge_discovered :: "node_id \<Rightarrow> (node_contact \<times> bool) list \<Rightarrow> (node_id, lookup_candidate) hmap
    \<Rightarrow> (node_id, lookup_candidate) hmap" where
  "merge_discovered local_id [] m = m"
| "merge_discovered local_id ((n, verified) # ds) m = merge_discovered local_id ds
     (if nc_id n = local_id then m
      else case hm_get m (nc_id n) of
        Some e \<Rightarrow> if verified \<and> \<not> lc_verified e \<and> lc_state e = Unqueried
          then hm_put (nc_id n) (e\<lparr>lc_node := n, lc_verified := True\<rparr>) m else m
      | None \<Rightarrow> hm_put (nc_id n) \<lparr>lc_node = n, lc_state = Unqueried, lc_verified = verified\<rparr> m)"

definition keep_key :: "node_id \<Rightarrow> node_id \<times> lookup_candidate \<Rightarrow> bool \<times> bytes" where
  "keep_key target e = (lc_state (snd e) = Unqueried, xor_distance (id_bytes (fst e)) (id_bytes target))"

definition truncate_candidates :: "node_id \<Rightarrow> (node_id, lookup_candidate) hmap \<Rightarrow> (node_id, lookup_candidate) hmap" where
  "truncate_candidates target m =
     (if length m > 256
      then let keep = map fst (closest_by (keep_key target) 256 m) in hm_retain (\<lambda>i _. i \<in> set keep) m
      else m)"

definition complete_success :: "iterative_lookup \<Rightarrow> node_id \<Rightarrow> (node_contact \<times> bool) list \<Rightarrow> node_id \<Rightarrow> iterative_lookup" where
  "complete_success l i discovered local_id =
     (let is_trusted = (case hm_get (il_candidates l) i of
            None \<Rightarrow> False | Some c \<Rightarrow> trusted i (sa_ip (nc_address (lc_node c))));
          l = finish_candidate l i is_trusted
      in l\<lparr>il_candidates := truncate_candidates (il_target l) (merge_discovered local_id discovered (il_candidates l))\<rparr>)"

definition complete_failure :: "iterative_lookup \<Rightarrow> node_id \<Rightarrow> iterative_lookup" where
  "complete_failure l i = finish_candidate l i False"

definition defer_candidate :: "iterative_lookup \<Rightarrow> node_id \<Rightarrow> iterative_lookup option" where
  "defer_candidate l i = (case hm_get (il_candidates l) i of
     None \<Rightarrow> Some l
   | Some c \<Rightarrow>
       if lc_state c \<noteq> InFlight then Some l
       else if il_in_flight l = 0 \<or> il_queries_started l = 0 then None
       else Some ((set_state l i c Unqueried)\<lparr>il_in_flight := il_in_flight l - 1,
              il_queries_started := il_queries_started l - 1,
              il_attempted := il_attempted l - {nc_address (lc_node c)}\<rparr>))"

definition is_complete :: "iterative_lookup \<Rightarrow> maintenance_config \<Rightarrow> bool option" where
  "is_complete l cfg =
     (if il_in_flight l \<noteq> 0 then Some False
      else if il_queries_started l \<ge> mc_max_queries cfg then Some True
      else let ids = shortlist cfg l in
        if list_ex (\<lambda>i. hm_get (il_candidates l) i = None) ids then None
        else Some (list_all (\<lambda>i. map_option lc_state (hm_get (il_candidates l) i) = Some Succeeded) ids))"

definition lookup_succeeded :: "iterative_lookup \<Rightarrow> bool" where
  "lookup_succeeded l \<longleftrightarrow> il_successful l > 0"

section \<open>The schedule\<close>

record maintenance_state =
  ms_config :: maintenance_config
  ms_lookup :: "iterative_lookup option"
  ms_startup_complete :: bool
  ms_not_before :: instant
  ms_retry_delay :: duration

definition maintenance_new :: "maintenance_config \<Rightarrow> instant \<Rightarrow> maintenance_state" where
  "maintenance_new cfg now = \<lparr>ms_config = cfg, ms_lookup = None, ms_startup_complete = False,
     ms_not_before = now, ms_retry_delay = mc_retry_initial cfg\<rparr>"

definition maintenance_deadline :: "maintenance_state \<Rightarrow> routing_table \<Rightarrow> instant option" where
  "maintenance_deadline ms rt =
     (if \<not> mc_enabled (ms_config ms) \<or> ms_lookup ms \<noteq> None \<or> table_is_empty rt then None
      else if \<not> ms_startup_complete ms then Some (ms_not_before ms)
      else map_option (\<lambda>d. max d (ms_not_before ms)) (next_refresh_deadline rt (mc_refresh_after (ms_config ms))))"

definition schedule_retry :: "maintenance_state \<Rightarrow> instant \<Rightarrow> maintenance_state" where
  "schedule_retry ms now = ms\<lparr>ms_not_before := now + ms_retry_delay ms,
     ms_retry_delay := min (ms_retry_delay ms * 2) (mc_retry_max (ms_config ms))\<rparr>"

definition begin_if_due :: "maintenance_state \<Rightarrow> routing_table \<Rightarrow> instant \<Rightarrow> bytes \<Rightarrow> maintenance_state" where
  "begin_if_due ms rt now random =
     (if ms_lookup ms \<noteq> None \<or> (case maintenance_deadline ms rt of None \<Rightarrow> True | Some d \<Rightarrow> now < d) then ms
      else case (if \<not> ms_startup_complete ms then Some (Startup, rt_local_id rt)
            else map_option (\<lambda>t. (Refresh, t)) (stale_refresh_target rt now (mc_refresh_after (ms_config ms)) random)) of
          None \<Rightarrow> ms
        | Some (kind, target) \<Rightarrow>
            let seeds = closest_usable rt target 256 now in
            if seeds = [] then schedule_retry ms now else ms\<lparr>ms_lookup := Some (lookup_new kind target seeds)\<rparr>)"

definition finish_if_complete :: "maintenance_state \<Rightarrow> routing_table \<Rightarrow> instant \<Rightarrow> (maintenance_state \<times> routing_table) option" where
  "finish_if_complete ms rt now = (case ms_lookup ms of
     None \<Rightarrow> Some (ms, rt)
   | Some l \<Rightarrow> (case is_complete l (ms_config ms) of
       None \<Rightarrow> None
     | Some False \<Rightarrow> Some (ms, rt)
     | Some True \<Rightarrow>
         let ms1 = ms\<lparr>ms_lookup := None\<rparr> in
         if lookup_succeeded l then
           (let ms2 = ms1\<lparr>ms_startup_complete := ms_startup_complete ms \<or> il_kind l = Startup,
                  ms_retry_delay := mc_retry_initial (ms_config ms),
                  ms_not_before := now + mc_inter_lookup_delay (ms_config ms)\<rparr> in
            if il_kind l = Startup then Some (ms2, rt)
            else map_option (\<lambda>rt. (ms2, rt)) (mark_refreshed rt (il_target l) now))
         else Some (schedule_retry ms1 now, rt)))"

definition maintenance_clear :: "maintenance_state \<Rightarrow> maintenance_state" where
  "maintenance_clear ms = ms\<lparr>ms_lookup := None\<rparr>"

section \<open>Invariant of a lookup\<close>

abbreviation candidate_address :: "lookup_candidate \<Rightarrow> socket_addr" where
  "candidate_address c \<equiv> nc_address (lc_node c)"

definition active :: "lookup_candidate \<Rightarrow> bool" where
  "active c \<longleftrightarrow> lc_state c = InFlight \<or> lc_state c = Succeeded"

lemma active_simps [simp]:
  "active (c\<lparr>lc_state := s\<rparr>) \<longleftrightarrow> s = InFlight \<or> s = Succeeded"
  "active \<lparr>lc_node = n, lc_state = s, lc_verified = v\<rparr> \<longleftrightarrow> s = InFlight \<or> s = Succeeded"
  "active (c\<lparr>lc_node := n, lc_verified := v\<rparr>) \<longleftrightarrow> active c"
  by (simp_all add: active_def)

text \<open>
  Keys are the identifiers of their contacts; a candidate that is being queried or has answered keeps its
  address in the attempted set, and no two of them share an address.
\<close>

definition cands_inv :: "socket_addr set \<Rightarrow> (node_id, lookup_candidate) hmap \<Rightarrow> bool" where
  "cands_inv A m \<longleftrightarrow> hm_ok m \<and>
     (\<forall>i c. hm_get m i = Some c \<longrightarrow> nc_id (lc_node c) = i \<and> (active c \<longrightarrow> candidate_address c \<in> A)) \<and>
     (\<forall>i j c d. hm_get m i = Some c \<longrightarrow> hm_get m j = Some d \<longrightarrow> active c \<longrightarrow> active d \<longrightarrow>
        candidate_address c = candidate_address d \<longrightarrow> i = j)"

definition lookup_inv :: "maintenance_config \<Rightarrow> iterative_lookup \<Rightarrow> bool" where
  "lookup_inv cfg l \<longleftrightarrow> cands_inv (il_attempted l) (il_candidates l) \<and> length (il_candidates l) \<le> 256 \<and>
     il_in_flight l = hm_count (\<lambda>c. lc_state c = InFlight) (il_candidates l) \<and>
     il_in_flight l + il_successful l \<le> il_queries_started l \<and> il_queries_started l \<le> mc_max_queries cfg \<and>
     il_in_flight l \<le> mc_lookup_parallelism cfg"

lemma cands_inv_put:
  assumes "cands_inv A m" and "nc_id (lc_node c) = i" and "A \<subseteq> B"
    and "active c \<Longrightarrow> candidate_address c \<in> B \<and>
      (\<forall>j d. hm_get m j = Some d \<longrightarrow> active d \<longrightarrow> candidate_address d = candidate_address c \<longrightarrow> j = i)"
  shows "cands_inv B (hm_put i c m)"
  using assms unfolding cands_inv_def by (auto split: if_splits; metis subsetD)

lemma cands_inv_shrink:
  assumes "cands_inv A m" and "hm_ok m'" and "\<And>i c. hm_get m' i = Some c \<Longrightarrow> hm_get m i = Some c"
  shows "cands_inv A m'"
  using assms unfolding cands_inv_def by blast

lemma cands_inv_id: "cands_inv A m \<Longrightarrow> hm_get m i = Some c \<Longrightarrow> nc_id (lc_node c) = i"
  by (simp add: cands_inv_def)

text \<open>A state change of a known candidate, as every operation makes it.\<close>

lemma set_state_count:
  assumes "hm_get (il_candidates l) i = Some c"
  shows "hm_count p (il_candidates (set_state l i c s)) + of_bool (p c) =
    hm_count p (il_candidates l) + of_bool (p (c\<lparr>lc_state := s\<rparr>))"
  using hm_count_put [of p i "c\<lparr>lc_state := s\<rparr>" "il_candidates l"] assms by (simp add: set_state_def)

lemma length_set_state:
  "hm_get (il_candidates l) i = Some c \<Longrightarrow> length (il_candidates (set_state l i c s)) = length (il_candidates l)"
  by (simp add: set_state_def length_hm_put)

lemma shortlist_member:
  assumes "i \<in> set (shortlist cfg l)"
  shows "\<exists>c. (i, c) \<in> set (il_candidates l) \<and> lc_state c \<noteq> Failed"
proof -
  obtain st where "(i, st) \<in> set (closest_by (\<lambda>(i, _). xor_distance (id_bytes i) (id_bytes (il_target l)))
      (mc_shortlist_size cfg) (filter (\<lambda>(_, s). s \<noteq> Failed) (map (\<lambda>(i, c). (i, lc_state c)) (il_candidates l))))"
    using assms by (auto simp: shortlist_def closest_valid_def)
  from subsetD [OF closest_by_subset this] show ?thesis by auto
qed

lemma shortlist_known: "i \<in> set (shortlist cfg l) \<Longrightarrow> hm_get (il_candidates l) i \<noteq> None"
  using shortlist_member [of i cfg l] by (metis fst_conv hm_get_None image_eqI)

lemma distinct_shortlist: "hm_ok (il_candidates l) \<Longrightarrow> distinct (shortlist cfg l)"
proof -
  assume ok: "hm_ok (il_candidates l)"
  let ?xs = "filter (\<lambda>(_, s). s \<noteq> Failed) (map (\<lambda>(i, c). (i, lc_state c)) (il_candidates l))"
  have "map fst (map (\<lambda>(i, c). (i, lc_state c)) (il_candidates l)) = map fst (il_candidates l)" by auto
  then have "distinct (map fst ?xs)" using ok by (metis distinct_map_filter hm_ok_def)
  then show ?thesis
    unfolding shortlist_def closest_valid_def closest_by_def
    by (metis (no_types, lifting) distinct_map distinct_sort distinct_take set_sort inj_on_subset set_take_subset)
qed

lemma set_state_sel [simp]:
  "il_attempted (set_state l i c s) = il_attempted l" "il_in_flight (set_state l i c s) = il_in_flight l"
  "il_queries_started (set_state l i c s) = il_queries_started l" "il_successful (set_state l i c s) = il_successful l"
  "il_target (set_state l i c s) = il_target l" "il_kind (set_state l i c s) = il_kind l"
  by (simp_all add: set_state_def)

lemma cands_inv_set_state:
  assumes "cands_inv A (il_candidates l)" and "hm_get (il_candidates l) i = Some c" and "s = InFlight \<or> s = Succeeded \<Longrightarrow> active c"
  shows "cands_inv A (il_candidates (set_state l i c s))"
  unfolding set_state_def
  by (simp, rule cands_inv_put [OF assms(1)])
    (use assms in \<open>auto simp: cands_inv_def\<close>)

lemma take_ids_inv:
  "lookup_inv cfg l \<Longrightarrow> length js \<le> mc_lookup_parallelism cfg - il_in_flight l \<Longrightarrow>
   length js \<le> mc_max_queries cfg - il_queries_started l \<Longrightarrow>
   distinct js \<Longrightarrow> \<forall>i\<in>set js. map_option lc_state (hm_get (il_candidates l) i) = Some Unqueried \<Longrightarrow>
   lookup_inv cfg (fst (take_ids l js))"
proof (induction js arbitrary: l)
  case (Cons i js)
  from Cons.prems(5) obtain c where c: "hm_get (il_candidates l) i = Some c" and u: "lc_state c = Unqueried" by auto
  have ci: "cands_inv (il_attempted l) (il_candidates l)" using Cons.prems(1) by (simp add: lookup_inv_def)
  note cid = cands_inv_id [OF ci c]
  have others: "\<forall>j\<in>set js. map_option lc_state (hm_get (il_candidates (set_state l i c s)) j) = Some Unqueried" for s
    using Cons.prems(4,5) by (auto simp: set_state_def)
  show ?case
  proof (cases "candidate_address c \<in> il_attempted l")
    case True
    have "lookup_inv cfg (set_state l i c Failed)"
      using Cons.prems(1) cands_inv_set_state [OF ci c, of Failed] length_set_state [OF c, of Failed]
        set_state_count [OF c, of "\<lambda>c. lc_state c = InFlight" Failed] u
      by (simp add: lookup_inv_def)
    from Cons.IH [OF this] Cons.prems others [of Failed] c True show ?thesis by (simp add: Let_def)
  next
    case False
    let ?l1 = "(set_state l i c InFlight)\<lparr>il_attempted := insert (candidate_address c) (il_attempted l),
                  il_in_flight := il_in_flight l + 1, il_queries_started := il_queries_started l + 1\<rparr>"
    have "cands_inv (insert (candidate_address c) (il_attempted l)) (hm_put i (c\<lparr>lc_state := InFlight\<rparr>) (il_candidates l))"
    proof (rule cands_inv_put [OF ci])
      show "candidate_address (c\<lparr>lc_state := InFlight\<rparr>) \<in> insert (candidate_address c) (il_attempted l) \<and>
        (\<forall>j d. hm_get (il_candidates l) j = Some d \<longrightarrow> active d \<longrightarrow>
           candidate_address d = candidate_address (c\<lparr>lc_state := InFlight\<rparr>) \<longrightarrow> j = i)"
        using False ci unfolding cands_inv_def by (metis insertI1 iterative_lookup.surjective lookup_candidate.select_convs(1)
            lookup_candidate.surjective lookup_candidate.update_convs(2))
    qed (use cid in auto)
    moreover have "il_in_flight l + 1 \<le> mc_lookup_parallelism cfg" "il_queries_started l + 1 \<le> mc_max_queries cfg"
      using Cons.prems(2,3) by simp_all
    ultimately have "lookup_inv cfg ?l1"
      using Cons.prems(1) length_set_state [OF c, of InFlight]
        set_state_count [OF c, of "\<lambda>c. lc_state c = InFlight" InFlight] u
      by (simp add: lookup_inv_def) (simp add: set_state_def)
    moreover have "\<forall>j\<in>set js. map_option lc_state (hm_get (il_candidates ?l1) j) = Some Unqueried"
      using others [of InFlight] by simp
    ultimately have "lookup_inv cfg (fst (take_ids ?l1 js))"
      using Cons.prems(2-4) by (intro Cons.IH) auto
    then show ?thesis using c False by (simp add: Let_def split_beta)
  qed
qed simp

lemma take_next_inv:
  assumes "lookup_inv cfg l"
  shows "\<exists>l' ns. take_next l cfg capacity = Some (l', ns) \<and> lookup_inv cfg l'"
proof -
  let ?n = "min (min capacity (mc_lookup_parallelism cfg - il_in_flight l)) (mc_max_queries cfg - il_queries_started l)"
  let ?f = "filter (\<lambda>i. map_option lc_state (hm_get (il_candidates l) i) = Some Unqueried) (shortlist cfg l)"
  have ok: "hm_ok (il_candidates l)" using assms by (simp add: lookup_inv_def cands_inv_def)
  have known: "\<not> list_ex (\<lambda>i. hm_get (il_candidates l) i = None) (shortlist cfg l)"
    using shortlist_known by (auto simp: list_ex_iff)
  have "lookup_inv cfg (fst (take_ids l (take ?n ?f)))"
  proof (rule take_ids_inv [OF assms])
    show "distinct (take ?n ?f)" using distinct_shortlist [OF ok, of cfg] by simp
    show "\<forall>i\<in>set (take ?n ?f). map_option lc_state (hm_get (il_candidates l) i) = Some Unqueried"
      using set_take_subset [of ?n ?f] by auto
  qed auto
  moreover have "take_next l cfg capacity = Some (if ?n = 0 then (l, []) else take_ids l (take ?n ?f))"
    using known by (simp add: take_next_def Let_def)
  ultimately show ?thesis using assms by (cases "?n = 0") (auto simp: prod_eq_iff)
qed

lemma finish_candidate_inv:
  assumes "lookup_inv cfg l"
  shows "lookup_inv cfg (finish_candidate l i success)"
proof (cases "hm_get (il_candidates l) i")
  case (Some c)
  have ci: "cands_inv (il_attempted l) (il_candidates l)" using assms by (simp add: lookup_inv_def)
  show ?thesis
  proof (cases "lc_state c = InFlight")
    case True
    define s where "s = (if success then Succeeded else Failed)"
    have s: "s \<noteq> InFlight" by (simp add: s_def)
    have "0 < hm_count (\<lambda>c. lc_state c = InFlight) (il_candidates l)"
      using hm_count_pos [OF Some, of "\<lambda>c. lc_state c = InFlight"] True by simp
    then obtain n where n: "il_in_flight l = Suc n"
      using assms by (metis gr0_implies_Suc lookup_inv_def)
    have "cands_inv (il_attempted l) (il_candidates (set_state l i c s))"
      by (rule cands_inv_set_state [OF ci Some]) (simp add: active_def True)
    moreover have "hm_count (\<lambda>c. lc_state c = InFlight) (il_candidates (set_state l i c s)) = n"
      using set_state_count [OF Some, of "\<lambda>c. lc_state c = InFlight" s] True s n assms by (simp add: lookup_inv_def)
    moreover have "length (il_candidates (set_state l i c s)) \<le> 256"
      using assms length_set_state [OF Some, of s] by (simp add: lookup_inv_def)
    moreover have "Suc n + il_successful l \<le> il_queries_started l" "il_queries_started l \<le> mc_max_queries cfg"
        "Suc n \<le> mc_lookup_parallelism cfg"
      using assms n by (simp_all add: lookup_inv_def)
    moreover have "finish_candidate l i success = (set_state l i c s)
       \<lparr>il_in_flight := n, il_successful := il_successful l + (if success then 1 else 0)\<rparr>"
      using Some True n by (simp add: finish_candidate_def s_def)
    ultimately show ?thesis by (simp add: lookup_inv_def)
  qed (use assms Some in \<open>simp add: finish_candidate_def\<close>)
qed (use assms in \<open>simp add: finish_candidate_def\<close>)

lemma defer_inv:
  assumes "lookup_inv cfg l"
  shows "\<exists>l'. defer_candidate l i = Some l' \<and> lookup_inv cfg l'"
proof (cases "hm_get (il_candidates l) i")
  case (Some c)
  have ci: "cands_inv (il_attempted l) (il_candidates l)" using assms by (simp add: lookup_inv_def)
  show ?thesis
  proof (cases "lc_state c = InFlight")
    case True
    let ?l = "set_state l i c Unqueried"
    have pos: "0 < hm_count (\<lambda>c. lc_state c = InFlight) (il_candidates l)" using hm_count_pos [OF Some, of "\<lambda>c. lc_state c = InFlight"] True by simp
    have act: "active c" using True by (simp add: active_def)
    have "cands_inv (il_attempted l - {candidate_address c}) (il_candidates ?l)"
      unfolding cands_inv_def
    proof (intro conjI allI impI)
      show "hm_ok (il_candidates ?l)" using ci by (simp add: set_state_def cands_inv_def)
      fix j d
      assume j: "hm_get (il_candidates ?l) j = Some d"
      show "nc_id (lc_node d) = j"
        using j cands_inv_id [OF ci] Some by (cases "j = i") (auto simp: set_state_def)
      assume "active d"
      then have "j \<noteq> i" "hm_get (il_candidates l) j = Some d" using j by (auto simp: set_state_def split: if_splits)
      then show "candidate_address d \<in> il_attempted l - {candidate_address c}"
        using ci Some act \<open>active d\<close> unfolding cands_inv_def by blast
    next
      fix j k d e
      assume "hm_get (il_candidates ?l) j = Some d" "hm_get (il_candidates ?l) k = Some e" "active d" "active e"
        "candidate_address d = candidate_address e"
      then have "hm_get (il_candidates l) j = Some d" "hm_get (il_candidates l) k = Some e"
        by (auto simp: set_state_def split: if_splits)
      then show "j = k" using ci \<open>active d\<close> \<open>active e\<close> \<open>candidate_address d = candidate_address e\<close>
        unfolding cands_inv_def by blast
    qed
    then show ?thesis
      using assms Some True pos length_set_state [OF Some, of Unqueried]
        set_state_count [OF Some, of "\<lambda>c. lc_state c = InFlight" Unqueried]
      by (auto simp: lookup_inv_def defer_candidate_def)
  qed (use assms Some in \<open>simp add: defer_candidate_def\<close>)
qed (use assms in \<open>simp add: defer_candidate_def\<close>)

lemma merge_inv:
  "cands_inv A m \<Longrightarrow> cands_inv A (merge_discovered local_id ds m)"
proof (induction local_id ds m rule: merge_discovered.induct)
  case (2 local_id n verified ds m)
  have step: "cands_inv A (hm_put (nc_id n) c m)"
    if "nc_id (lc_node c) = nc_id n" "\<not> active c" for c
    by (rule cands_inv_put [OF 2(2)]) (use that in auto)
  have na: "\<not> active (e\<lparr>lc_node := n, lc_verified := True\<rparr>)" if "lc_state e = Unqueried" for e
    using that by (simp add: active_def)
  show ?case
    using 2 step na by (auto split: option.split simp: active_def)
qed simp

lemma merge_count:
  assumes "\<And>n v. \<not> p \<lparr>lc_node = n, lc_state = Unqueried, lc_verified = v\<rparr>"
    and "\<And>c n. lc_state c = Unqueried \<Longrightarrow> p (c\<lparr>lc_node := n, lc_verified := True\<rparr>) = p c"
  shows "hm_count p (merge_discovered local_id ds m) = hm_count p m"
proof (induction local_id ds m rule: merge_discovered.induct)
  case (2 local_id n verified ds m)
  have "hm_count p (case hm_get m (nc_id n) of
        Some e \<Rightarrow> if verified \<and> \<not> lc_verified e \<and> lc_state e = Unqueried
          then hm_put (nc_id n) (e\<lparr>lc_node := n, lc_verified := True\<rparr>) m else m
      | None \<Rightarrow> hm_put (nc_id n) \<lparr>lc_node = n, lc_state = Unqueried, lc_verified = verified\<rparr> m) = hm_count p m"
    using hm_count_put [of p "nc_id n" "\<lparr>lc_node = n, lc_state = Unqueried, lc_verified = verified\<rparr>" m]
      hm_count_put [of p "nc_id n" "(the (hm_get m (nc_id n)))\<lparr>lc_node := n, lc_verified := True\<rparr>" m] assms
    by (auto split: option.split)
  with 2 show ?case by simp
qed simp

text \<open>Truncation keeps every attempted candidate as long as there are at most 256 of them.\<close>

lemma truncate_keeps:
  assumes "hm_ok m" and "hm_count (\<lambda>c. lc_state c \<noteq> Unqueried) m \<le> 256"
    and "hm_get m i = Some c" and "lc_state c \<noteq> Unqueried"
  shows "hm_get (truncate_candidates target m) i = Some c"
proof (cases "length m > 256")
  case True
  let ?k = "keep_key target"
  let ?t = "closest_by ?k 256 m"
  have im: "(i, c) \<in> set m" using hm_get_in [OF assms(3)] .
  have "(i, c) \<in> set ?t"
  proof (rule ccontr)
    assume out: "(i, c) \<notin> set ?t"
    have "lc_state (snd x) \<noteq> Unqueried" if "x \<in> set ?t" for x
      using closest_by_minimal [OF that im out] assms(4) by (auto simp: keep_key_def less_eq_prod_def less_le)
    then have sub: "insert (i, c) (set ?t) \<subseteq> set (filter (\<lambda>(_, v). lc_state v \<noteq> Unqueried) m)"
      using closest_by_subset [of ?k 256 m] im assms(4) by auto
    have dm: "distinct m" using assms(1) by (simp add: hm_ok_def distinct_map)
    have "card (insert (i, c) (set ?t)) = 257"
      using out distinct_card [OF distinct_closest_by [OF dm, of ?k 256]] True by simp
    moreover have "card (set (filter (\<lambda>(_, v). lc_state v \<noteq> Unqueried) m)) \<le> 256"
      using assms(2) card_length [of "filter (\<lambda>(_, v). lc_state v \<noteq> Unqueried) m"] by (simp add: hm_count_def)
    ultimately show False using card_mono [OF _ sub] by simp
  qed
  then have "i \<in> set (map fst ?t)" by force
  then show ?thesis using True assms(3) hm_get_retain [OF assms(1)] by (simp add: truncate_candidates_def Let_def)
qed (use assms in \<open>simp add: truncate_candidates_def\<close>)

lemma truncate_shrinks:
  assumes "hm_ok m"
  shows "hm_ok (truncate_candidates target m) \<and> length (truncate_candidates target m) \<le> 256 \<and>
    (hm_get (truncate_candidates target m) i = Some c \<longrightarrow> hm_get m i = Some c)"
proof (cases "length m > 256")
  case True
  let ?keep = "map fst (closest_by (keep_key target) 256 m)"
  let ?r = "hm_retain (\<lambda>i _. i \<in> set ?keep) m"
  have ok: "hm_ok ?r" using assms by simp
  have "fst ` set ?r \<subseteq> set ?keep" by (auto simp: hm_set_retain)
  then have "card (fst ` set ?r) \<le> card (set ?keep)" by (intro card_mono) auto
  also have "\<dots> \<le> length ?keep" by (rule card_length)
  finally have "length ?r \<le> 256" using hm_card [OF ok] by simp
  then show ?thesis using ok True hm_get_retain [OF assms]
    by (auto simp: truncate_candidates_def Let_def split: option.splits if_splits)
qed (use assms in \<open>simp add: truncate_candidates_def\<close>)

lemma truncate_count:
  assumes "hm_ok m" and "hm_count (\<lambda>c. lc_state c \<noteq> Unqueried) m \<le> 256" and "\<And>c. p c \<Longrightarrow> lc_state c \<noteq> Unqueried"
  shows "hm_count p (truncate_candidates target m) = hm_count p m"
proof (cases "length m > 256")
  case True
  let ?keep = "map fst (closest_by (keep_key target) 256 m)"
  have "hm_count p (hm_retain (\<lambda>i _. i \<in> set ?keep) m) = hm_count p m"
  proof (rule hm_count_retain)
    fix i c assume "(i, c) \<in> set m" "p c"
    then have "hm_get m i = Some c" "lc_state c \<noteq> Unqueried" using assms(1,3) by (auto simp: hm_get_Some)
    from truncate_keeps [OF assms(1,2) this, of target] True show "i \<in> set ?keep"
      using hm_get_retain [OF assms(1), of "\<lambda>i _. i \<in> set ?keep" i]
      by (auto simp: truncate_candidates_def Let_def split: option.splits if_splits)
  qed
  then show ?thesis using True by (simp add: truncate_candidates_def Let_def)
qed (simp add: truncate_candidates_def)

lemma complete_success_inv:
  assumes "lookup_inv cfg l"
  shows "lookup_inv cfg (complete_success l i discovered local_id)"
proof -
  define ok where "ok = (case hm_get (il_candidates l) i of None \<Rightarrow> False | Some c \<Rightarrow> trusted i (sa_ip (nc_address (lc_node c))))"
  let ?l = "finish_candidate l i ok"
  let ?m = "merge_discovered local_id discovered (il_candidates ?l)"
  have inv: "lookup_inv cfg ?l" by (rule finish_candidate_inv [OF assms])
  have ci: "cands_inv (il_attempted ?l) ?m" by (rule merge_inv) (use inv in \<open>simp add: lookup_inv_def\<close>)
  have hok: "hm_ok ?m" using ci by (simp add: cands_inv_def)
  have "hm_count (\<lambda>c. lc_state c \<noteq> Unqueried) ?m = hm_count (\<lambda>c. lc_state c \<noteq> Unqueried) (il_candidates ?l)"
    by (rule merge_count) auto
  also have "\<dots> \<le> 256" using hm_count_length [of "\<lambda>c. lc_state c \<noteq> Unqueried" "il_candidates ?l"] inv by (simp add: lookup_inv_def)
  finally have few: "hm_count (\<lambda>c. lc_state c \<noteq> Unqueried) ?m \<le> 256" .
  have "hm_count (\<lambda>c. lc_state c = InFlight) (truncate_candidates (il_target ?l) ?m) = hm_count (\<lambda>c. lc_state c = InFlight) ?m"
    by (rule truncate_count [OF hok few]) simp
  also have "\<dots> = hm_count (\<lambda>c. lc_state c = InFlight) (il_candidates ?l)" by (rule merge_count) auto
  finally have fl: "hm_count (\<lambda>c. lc_state c = InFlight) (truncate_candidates (il_target ?l) ?m) = il_in_flight ?l"
    using inv by (simp add: lookup_inv_def)
  have "cands_inv (il_attempted ?l) (truncate_candidates (il_target ?l) ?m)"
    by (rule cands_inv_shrink [OF ci]) (use truncate_shrinks [OF hok] in auto)
  then show ?thesis using inv fl truncate_shrinks [OF hok]
    by (simp add: complete_success_def Let_def ok_def lookup_inv_def)
qed

lemma seed_inv:
  "cands_inv {} m \<Longrightarrow> \<forall>c\<in>snd ` set m. lc_state c = Unqueried \<Longrightarrow> cands_inv {} (seed_candidates ns m) \<and>
   length (seed_candidates ns m) \<le> length m + length ns \<and>
   hm_count (\<lambda>c. lc_state c = InFlight) (seed_candidates ns m) = hm_count (\<lambda>c. lc_state c = InFlight) m"
proof (induction ns m rule: seed_candidates.induct)
  case (2 n ns m)
  let ?c = "\<lparr>lc_node = n, lc_state = Unqueried, lc_verified = True\<rparr>"
  have ok: "hm_ok m" using 2(2) by (simp add: cands_inv_def)
  have "cands_inv {} (hm_put (nc_id n) ?c m)" by (rule cands_inv_put [OF 2(2)]) auto
  moreover have "\<forall>c\<in>snd ` set (hm_put (nc_id n) ?c m). lc_state c = Unqueried"
    using 2(3) by (auto simp: hm_set_put [OF ok])
  moreover have "hm_count (\<lambda>c. lc_state c = InFlight) (hm_put (nc_id n) ?c m) = hm_count (\<lambda>c. lc_state c = InFlight) m"
    using hm_count_put [of "\<lambda>c. lc_state c = InFlight" "nc_id n" ?c m] 2(3)
    by (auto split: option.splits dest!: hm_get_in)
  ultimately show ?case using 2(1) length_hm_put [of "nc_id n" ?c m] by (auto split: if_splits)
qed simp

lemma lookup_new_inv: "length seeds \<le> 256 \<Longrightarrow> lookup_inv cfg (lookup_new kind target seeds)"
  using seed_inv [of "[]" seeds] by (simp add: lookup_inv_def lookup_new_def cands_inv_def)

section \<open>Every operation\<close>

datatype lookup_op = LTake nat | LSuccess node_id "(node_contact \<times> bool) list" node_id | LFailure node_id | LDefer node_id

fun lookup_step :: "maintenance_config \<Rightarrow> iterative_lookup \<Rightarrow> lookup_op \<Rightarrow> iterative_lookup option" where
  "lookup_step cfg l (LTake n) = map_option fst (take_next l cfg n)"
| "lookup_step cfg l (LSuccess i ds local_id) = Some (complete_success l i ds local_id)"
| "lookup_step cfg l (LFailure i) = Some (complete_failure l i)"
| "lookup_step cfg l (LDefer i) = defer_candidate l i"

interpretation lookup_ops: panic_free_ops "lookup_step cfg" "lookup_inv cfg" "\<lambda>_ _. True" for cfg
proof
  fix l x
  assume inv: "lookup_inv cfg l"
  show "\<exists>l'. lookup_step cfg l x = Some l' \<and> lookup_inv cfg l'"
  proof (cases x)
    case (LTake n)
    then show ?thesis using take_next_inv [OF inv, of n] by auto
  next
    case (LDefer i)
    then show ?thesis using defer_inv [OF inv, of i] by auto
  qed (simp_all add: complete_success_inv [OF inv] complete_failure_def finish_candidate_inv [OF inv])
qed

lemma ops_ok_True: "ops_ok step (\<lambda>_ _. True) s xs"
  by (induction xs arbitrary: s) (auto split: option.split)

section \<open>Properties\<close>

text \<open>
  C39: a lookup never panics and stays within its limits. Whatever sequence of rounds, answers, failures
  and deferrals it goes through, no index misses, no counter underflows, at most the configured number of
  queries is started and in flight, the in-flight counter is the number of candidates being queried (no
  answer is lost by the cut to 256 candidates), and no two queries of a lookup that are open or answered
  went to the same address.
\<close>

theorem lookup_runs_safe:
  assumes "length seeds \<le> 256"
  shows "\<exists>l. run_ops (lookup_step cfg) (lookup_new kind target seeds) ops = Some l \<and>
    il_queries_started l \<le> mc_max_queries cfg \<and> il_in_flight l \<le> mc_lookup_parallelism cfg \<and>
    il_in_flight l = hm_count (\<lambda>c. lc_state c = InFlight) (il_candidates l) \<and> length (il_candidates l) \<le> 256 \<and>
    (\<forall>i j c d. hm_get (il_candidates l) i = Some c \<longrightarrow> hm_get (il_candidates l) j = Some d \<longrightarrow> active c \<longrightarrow> active d \<longrightarrow>
       candidate_address c = candidate_address d \<longrightarrow> i = j)"
proof -
  obtain l where "run_ops (lookup_step cfg) (lookup_new kind target seeds) ops = Some l" and "lookup_inv cfg l"
    using lookup_ops.safe_run [OF lookup_new_inv [OF assms] ops_ok_True] by blast
  then show ?thesis unfolding lookup_inv_def cands_inv_def by blast
qed

theorem lookup_runs_safe_witness:
  "\<exists>l. run_ops (lookup_step default_maintenance_config)
       (lookup_new Startup (NodeId [0]) [contact_for_lookup (NodeId [9]) (SA4 0x08080808 6881) 0])
       [LTake 1, LDefer (NodeId [9]), LTake 1] = Some l \<and> il_in_flight l \<le> 3"
  using lookup_runs_safe [of "[contact_for_lookup (NodeId [9]) (SA4 0x08080808 6881) 0]" default_maintenance_config
      Startup "NodeId [0]" "[LTake 1, LDefer (NodeId [9]), LTake 1]"]
  by (auto simp: default_maintenance_config_def)

lemma take_ids_progress:
  assumes "hm_get (il_candidates l) i = Some c" and "lc_state c = Unqueried"
  shows "snd (take_ids l (i # js)) \<noteq> [] \<or> candidate_address c \<in> il_attempted l"
  using assms by (auto simp: Let_def split_beta)

lemma take_ids_unqueried:
  "hm_count (\<lambda>c. lc_state c = Unqueried) (il_candidates (fst (take_ids l js))) \<le>
   hm_count (\<lambda>c. lc_state c = Unqueried) (il_candidates l)"
proof (induction js arbitrary: l)
  case (Cons i js)
  show ?case
  proof (cases "hm_get (il_candidates l) i")
    case (Some c)
    have le: "hm_count (\<lambda>c. lc_state c = Unqueried) (il_candidates (fst (take_ids l1 js))) \<le>
        hm_count (\<lambda>c. lc_state c = Unqueried) (il_candidates l)"
      if "il_candidates l1 = il_candidates (set_state l i c s)" "s \<noteq> Unqueried" for l1 s
    proof -
      note Cons.IH [of l1]
      also have "hm_count (\<lambda>c. lc_state c = Unqueried) (il_candidates l1) \<le>
          hm_count (\<lambda>c. lc_state c = Unqueried) (il_candidates l)"
        unfolding that(1) using set_state_count [OF Some, of "\<lambda>c. lc_state c = Unqueried" s] that(2) by simp
      finally show ?thesis .
    qed
    show ?thesis using Some le by (simp add: Let_def split_beta)
  qed (use Cons in simp)
qed simp

text \<open>
  C40: a lookup makes progress. If it is not complete and nothing is in flight, a round with room for a
  query either starts one or rules out a candidate whose address was tried before; so with a bounded
  number of candidates a lookup cannot hang without a query open.
\<close>

theorem lookup_progress:
  assumes "lookup_inv cfg l" and "is_complete l cfg = Some False" and "il_in_flight l = 0"
    and "0 < capacity" and "0 < mc_lookup_parallelism cfg"
  shows "\<exists>l' ns. take_next l cfg capacity = Some (l', ns) \<and>
    (ns \<noteq> [] \<or> hm_count (\<lambda>c. lc_state c = Unqueried) (il_candidates l') < hm_count (\<lambda>c. lc_state c = Unqueried) (il_candidates l))"
proof -
  let ?n = "min (min capacity (mc_lookup_parallelism cfg - il_in_flight l)) (mc_max_queries cfg - il_queries_started l)"
  let ?f = "filter (\<lambda>i. map_option lc_state (hm_get (il_candidates l) i) = Some Unqueried) (shortlist cfg l)"
  have ok: "hm_ok (il_candidates l)" using assms(1) by (simp add: lookup_inv_def cands_inv_def)
  have lt: "il_queries_started l < mc_max_queries cfg"
    and some: "\<exists>i\<in>set (shortlist cfg l). map_option lc_state (hm_get (il_candidates l) i) \<noteq> Some Succeeded"
    using assms(2,3) by (auto simp: is_complete_def Let_def list_all_iff split: if_splits)
  then have n: "0 < ?n" using assms(3-5) by simp
  from some obtain i where i: "i \<in> set (shortlist cfg l)" and ns: "map_option lc_state (hm_get (il_candidates l) i) \<noteq> Some Succeeded"
    by blast
  obtain c where "(i, c) \<in> set (il_candidates l)" and nf: "lc_state c \<noteq> Failed" using shortlist_member [OF i] by blast
  then have c: "hm_get (il_candidates l) i = Some c" using ok by (simp add: hm_get_Some)
  have "hm_count (\<lambda>c. lc_state c = InFlight) (il_candidates l) = 0" using assms(1,3) by (simp add: lookup_inv_def)
  then have "lc_state c \<noteq> InFlight" using hm_count_pos [OF c, of "\<lambda>c. lc_state c = InFlight"] by auto
  then have "lc_state c = Unqueried" using nf ns c by (cases "lc_state c") auto
  then have "i \<in> set ?f" using i c by simp
  then have "?f \<noteq> []" by (metis list.distinct(1) list.set_cases)
  then obtain j js where f: "?f = j # js" by (meson list.exhaust)
  then have j: "j \<in> set ?f" by simp
  then obtain d where d: "hm_get (il_candidates l) j = Some d" and u: "lc_state d = Unqueried" by auto
  obtain m where m: "?n = Suc m" using n gr0_implies_Suc by blast
  have t: "take_next l cfg capacity = Some (take_ids l (j # take m js))"
    using shortlist_known m f by (auto simp: take_next_def Let_def list_ex_iff)
  show ?thesis
  proof (cases "candidate_address d \<in> il_attempted l")
    case True
    have "hm_count (\<lambda>c. lc_state c = Unqueried) (il_candidates (set_state l j d Failed)) <
        hm_count (\<lambda>c. lc_state c = Unqueried) (il_candidates l)"
      using set_state_count [OF d, of "\<lambda>c. lc_state c = Unqueried" Failed] u by simp
    moreover have "fst (take_ids l (j # take m js)) = fst (take_ids (set_state l j d Failed) (take m js))"
      using d True by (simp add: Let_def)
    ultimately have "hm_count (\<lambda>c. lc_state c = Unqueried) (il_candidates (fst (take_ids l (j # take m js)))) <
        hm_count (\<lambda>c. lc_state c = Unqueried) (il_candidates l)"
      using take_ids_unqueried [of "set_state l j d Failed" "take m js"] by simp
    then show ?thesis using t by (metis prod.collapse)
  next
    case False
    then have "snd (take_ids l (j # take m js)) \<noteq> []" using take_ids_progress [OF d u] by blast
    then show ?thesis using t by (metis prod.collapse)
  qed
qed

theorem lookup_progress_witness:
  "\<exists>l' ns. take_next (lookup_new Startup (NodeId [0]) [contact_for_lookup (NodeId [9]) (SA4 0x08080808 6881) 0])
     default_maintenance_config 1 = Some (l', ns) \<and>
     (ns \<noteq> [] \<or> hm_count (\<lambda>c. lc_state c = Unqueried) (il_candidates l') < 1)"
proof -
  let ?l = "lookup_new Startup (NodeId [0]) [contact_for_lookup (NodeId [9]) (SA4 0x08080808 6881) 0]"
  have i: "lookup_inv default_maintenance_config ?l" by (rule lookup_new_inv) simp
  have c: "il_candidates ?l = [(NodeId [9], \<lparr>lc_node = contact_for_lookup (NodeId [9]) (SA4 0x08080808 6881) 0,
      lc_state = Unqueried, lc_verified = True\<rparr>)]"
    by (simp add: lookup_new_def hm_put_def contact_for_lookup_def verified_contact_def)
  have "is_complete ?l default_maintenance_config = Some False"
    by (simp add: is_complete_def shortlist_def closest_valid_def closest_by_def c hm_get_def
        default_maintenance_config_def lookup_new_def hm_put_def contact_for_lookup_def verified_contact_def)
  from lookup_progress [OF i this, of 1] show ?thesis
    by (simp add: c hm_count_def) (simp add: lookup_new_def default_maintenance_config_def)
qed

text \<open>
  Failed lookups back off exponentially and boundedly: after \<open>n\<close> failures in a row the delay is
  the initial one times \<open>2 ^ n\<close>, never more than the maximum, and the next lookup is due exactly the
  previous delay after the last failure.
\<close>

theorem retry_backoff:
  assumes "mc_retry_initial cfg \<le> mc_retry_max cfg"
  shows "ms_retry_delay (foldl schedule_retry (maintenance_new cfg t0) ts) =
      min (mc_retry_initial cfg * 2 ^ length ts) (mc_retry_max cfg) \<and>
    (ts \<noteq> [] \<longrightarrow> ms_not_before (foldl schedule_retry (maintenance_new cfg t0) ts) =
      last ts + min (mc_retry_initial cfg * 2 ^ (length ts - 1)) (mc_retry_max cfg))"
proof -
  have "ms_config (foldl schedule_retry (maintenance_new cfg t0) ts) = cfg \<and>
      ms_retry_delay (foldl schedule_retry (maintenance_new cfg t0) ts) =
        min (mc_retry_initial cfg * 2 ^ length ts) (mc_retry_max cfg)" for ts
  proof (induction ts rule: rev_induct)
    case Nil
    then show ?case using assms by (simp add: maintenance_new_def)
  next
    case (snoc t ts)
    then show ?case by (auto simp: schedule_retry_def min_def)
  qed
  note inv = this
  show ?thesis
    by (cases ts rule: rev_cases) (use inv [of ts] inv [of "butlast ts"] in \<open>auto simp: schedule_retry_def\<close>)
qed

theorem retry_backoff_witness:
  "ms_retry_delay (foldl schedule_retry (maintenance_new default_maintenance_config 0) [1, 2, 3, 4, 5]) = secs 900"
  using retry_backoff [of default_maintenance_config 0 "[1, 2, 3, 4, 5]"] by (simp add: default_maintenance_config_def)

end
