(* ===== verification/Dispatcher.thy ===== *)
theory Dispatcher
  imports Udp Sampler Maintenance PeerStore TokenKeys Traffic
begin

text \<open>
  The state of the DHT dispatcher and the way of an outgoing query: \<open>src/dht/dispatcher/runtime/state.rs\<close>,
  \<open>runtime/outbound.rs\<close>, \<open>traffic.rs\<close> and the types of \<open>fetch.rs\<close> and \<open>recovery.rs\<close>.

  A caller that waits on a oneshot channel is a number; what it is sent, or that its sender was dropped without an
  answer, is appended to \<open>dp_replies\<close>. The counters of \<open>RpcProgress\<close> are the logs \<open>dp_sent\<close> and
  \<open>dp_limited\<close>. A place of the shared budget is the flag of a verification. The surroundings of a step
  are the record \<open>env\<close>: the bencode encoder, the socket, the GCRA decision, the callers that went away, random
  values, and one later reading \<open>en_fresh\<close> of the clock for all reads inside the step. Panics are \<open>None\<close>.
  Spans and events of \<open>observation\<close>, and the variants under \<open>cfg(test)\<close>, are left out.
\<close>

section \<open>Contacts on disk\<close>

record saved_contact =
  sv_id :: node_id
  sv_address :: socket_addr
  sv_responded_at :: int

text \<open>\<open>collect\<close> into a \<open>Result\<close>: the first error ends the iteration.\<close>

fun collect_results :: "('a \<Rightarrow> 'e + 'b) \<Rightarrow> 'a list \<Rightarrow> 'e + 'b list" where
  "collect_results f [] = Inr []"
| "collect_results f (x # xs) = and_then (f x) (\<lambda>y. and_then (collect_results f xs) (\<lambda>ys. Inr (y # ys)))"

definition system_time_sub :: "int \<Rightarrow> duration \<Rightarrow> int option" where
  "system_time_sub t d = (if - (2 ^ 63) \<le> (t - int d) div 1000000000 then Some (t - int d) else None)"

definition saved_of :: "instant \<Rightarrow> int \<Rightarrow> node_contact \<Rightarrow> storage_error + saved_contact" where
  "saved_of now wall n =
     (if now < nc_last_response n then Inl (Invalid ''response in the future'')
      else case system_time_sub wall (now - nc_last_response n) of
        None \<Rightarrow> Inl (Invalid ''routing time overflow'')
      | Some at \<Rightarrow> (case unix_millis at of
            Inl e \<Rightarrow> Inl (clock_storage_error e)
          | Inr ms \<Rightarrow> Inr \<lparr>sv_id = nc_id n, sv_address = nc_address n, sv_responded_at = ms\<rparr>))"

definition routing_snapshot :: "routing_table \<Rightarrow> instant \<Rightarrow> int \<Rightarrow> storage_error + saved_contact list" where
  "routing_snapshot rt now wall =
     collect_results (saved_of now wall) (filter (\<lambda>n. contact_status n now \<noteq> Bad) (table_contacts rt))"

record recovery =
  rc_queued :: "saved_contact list"
  rc_active :: "(node_id, saved_contact) hmap"
  rc_next :: "instant option"

definition recovery_counts :: "recovery \<Rightarrow> nat \<times> nat" where
  "recovery_counts rc = (length (rc_queued rc), length (rc_active rc))"

definition recovery_deadline :: "recovery \<Rightarrow> bool \<Rightarrow> instant option" where
  "recovery_deadline rc capacity =
     (if capacity \<and> length (rc_active rc) < 3 \<and> rc_queued rc \<noteq> [] then rc_next rc else None)"

definition recovery_finished :: "recovery \<Rightarrow> node_id \<Rightarrow> recovery" where
  "recovery_finished rc i = rc\<lparr>rc_active := hm_remove i (rc_active rc)\<rparr>"

section \<open>Queries and their purposes\<close>

datatype outbound = OutPing | OutFindNode node_id | OutSample node_id | OutGetPeers swarm_key

fun outbound_fields :: "outbound \<Rightarrow> query_method \<times> node_id option \<times> swarm_key option" where
  "outbound_fields OutPing = (Ping, None, None)"
| "outbound_fields (OutFindNode i) = (FindNode, Some i, None)"
| "outbound_fields (OutSample i) = (SampleInfohashes, Some i, None)"
| "outbound_fields (OutGetPeers h) = (GetPeers, None, Some h)"

definition outbound_message :: "outbound \<Rightarrow> node_id \<Rightarrow> bytes \<Rightarrow> krpc_message" where
  "outbound_message q i t =
     (case outbound_fields q of (m, target, info_hash) \<Rightarrow>
        \<lparr>km_t = t, km_y = Query, km_q = Some m,
         km_a = Some \<lparr>qa_id = i, qa_target = target, qa_info_hash = info_hash, qa_port = None, qa_token = None,
           qa_implied_port = None, qa_want = []\<rparr>,
         km_r = None, km_e = None, km_ro = None, km_ip = None\<rparr>)"

datatype pending_purpose =
  PFetch nat
| PRecovery node_id
| PSampling request
| PUserPing nat
| PVerification "node_id \<times> socket_addr" bool
| PBucketProbe node_contact "node_contact list" node_contact nat
| PMaintenanceLookup node_id

fun purpose_class :: "pending_purpose \<Rightarrow> traffic_class" where
  "purpose_class (PFetch _) = Collector"
| "purpose_class (PSampling _) = Sampling"
| "purpose_class (PVerification _ _) = Verification"
| "purpose_class _ = Control"

fun purpose_cancelled :: "(nat \<Rightarrow> bool) \<Rightarrow> pending_purpose \<Rightarrow> bool" where
  "purpose_cancelled gone (PFetch c) = gone c"
| "purpose_cancelled gone (PUserPing c) = gone c"
| "purpose_cancelled gone _ = False"

record pending_dispatch =
  pd_remote :: remote_node
  pd_purpose :: pending_purpose

record queued_intent =
  qi_wait_reasons :: u8
  qi_remote :: remote_node
  qi_query :: outbound
  qi_purpose :: pending_purpose
  qi_deadline :: instant
  qi_record :: queue_record

record get_peers_response =
  gp_nodes :: "discovered_node list"
  gp_peers :: "socket_addr list"

record dht_status =
  ds_node_id :: node_id
  ds_family :: address_family
  ds_good :: nat
  ds_questionable :: nat
  ds_recovery_queued :: nat
  ds_recovery_active :: nat
  ds_pending :: nat
  ds_sampler :: sampler_status
  ds_collector_paused :: bool

datatype caller_reply =
  RPeers "query_error + get_peers_response"
| RPing "query_error + node_id"
| RSeeds "discovered_node list"
| RDone
| RSnapshot "storage_error + saved_contact list"
| RStarted "sampler_error + unit"
| RStatus dht_status
| RReclaimed

section \<open>The ingress of announcements and the sample cache\<close>

record announce_event =
  ae_hash :: swarm_key
  ae_peer :: socket_addr
  ae_observed_at :: int

record fetch_ingress =
  fi_observed :: nat
  fi_dropped :: nat
  fi_events :: "announce_event list"

text \<open>\<open>paused\<close> is the shared flag; \<open>room\<close> tells whether \<open>try_send\<close> succeeds.\<close>

definition ingress_announce :: "fetch_ingress \<Rightarrow> bool \<Rightarrow> bool \<Rightarrow> announce_event \<Rightarrow> fetch_ingress" where
  "ingress_announce fi paused room ev =
     (let fi = fi\<lparr>fi_observed := fi_observed fi + 1\<rparr> in
      if paused \<or> \<not> room then fi\<lparr>fi_dropped := fi_dropped fi + 1\<rparr>
      else fi\<lparr>fi_events := fi_events fi @ [ev]\<rparr>)"

record sample_cache =
  sh_generated_at :: "instant option"
  sh_hashes :: "swarm_key list"

section \<open>The dispatcher\<close>

record env =
  en_encode :: "krpc_message \<Rightarrow> string + bytes"
  en_socket :: "socket_addr \<Rightarrow> bytes \<Rightarrow> string + nat"
  en_reader :: object_reader
  en_describe :: "ordering_error \<Rightarrow> string"
  en_parse :: "bytes \<Rightarrow> string + krpc_message"
  en_gcra :: gcra
  en_gone :: "nat \<Rightarrow> bool"
  en_fresh :: instant
  en_system_now :: int
  en_mac :: "bytes \<Rightarrow> bytes \<Rightarrow> bytes"
  en_key :: "token_error + bytes"
  en_text :: "string \<Rightarrow> bytes"
  en_random :: node_id
  en_pick_peers :: "socket_addr list \<Rightarrow> nat \<Rightarrow> socket_addr list"
  en_pick_hashes :: "swarm_key list \<Rightarrow> nat \<Rightarrow> swarm_key list"
  en_shuffle :: "swarm_key list \<Rightarrow> swarm_key list"
  en_output_closed :: bool
  en_slot :: bool
  en_max_permits :: nat
  en_ingress_paused :: bool
  en_ingress_room :: bool

record dispatcher =
  dp_identity_paused :: bool
  dp_security :: consensus
  dp_identity_store :: "local_identity option"
  dp_pending_external_ip :: "ip_addr option"
  dp_budget :: budget
  dp_queued :: "queued_intent list"
  dp_queue_deadline :: "instant option"
  dp_fetch_ingress :: "fetch_ingress option"
  dp_sampling_paused :: bool
  dp_policy :: address_policy
  dp_clock :: clock
  dp_recovery :: recovery
  dp_transport :: udp_transport
  dp_routing :: routing_table
  dp_transactions :: transaction_manager
  dp_pending :: "(transaction_id, pending_dispatch) hmap"
  dp_verifications :: "(node_id \<times> socket_addr) set"
  dp_bucket_probes :: "(node_id \<times> socket_addr) set"
  dp_maintenance :: maintenance_state
  dp_tokens :: token_manager
  dp_peers :: peer_store
  dp_samples :: sample_cache
  dp_sampler :: sampler
  dp_replies :: "(nat \<times> caller_reply) list"
  dp_sent :: "nat list"
  dp_limited :: "nat list"

text \<open>
  Creation. The transport's local address, the routing table, the transaction manager, the budget and the first
  token key are arguments.
\<close>

record dispatcher_config =
  dc_external_ip :: "ip_addr option"
  dc_command_capacity :: nat
  dc_maintenance :: maintenance_config
  dc_peer_store :: peer_store_config

datatype create_error =
  EmptyCommandQueue
| InvalidPeerStoreConfig peer_store_error
| TokenEntropy
| InvalidMaintenanceConfig
| AddressFamilyMismatch socket_addr address_family
| LocalAddress string

definition maintenance_config_ok :: "maintenance_config \<Rightarrow> bool" where
  "maintenance_config_ok m \<longleftrightarrow> \<not> (mc_enabled m \<and>
     (mc_refresh_after m = 0 \<or> mc_lookup_parallelism m = 0 \<or> mc_shortlist_size m = 0
      \<or> mc_max_queries m < mc_shortlist_size m \<or> mc_retry_initial m = 0 \<or> mc_retry_max m < mc_retry_initial m))"

definition with_budget :: "udp_transport \<Rightarrow> string + socket_addr \<Rightarrow> routing_table \<Rightarrow> transaction_manager \<Rightarrow> dispatcher_config
    \<Rightarrow> budget \<Rightarrow> clock \<Rightarrow> token_error + bytes \<Rightarrow> instant \<Rightarrow> create_error + dispatcher" where
  "with_budget transport local rt tm cfg b ck key now =
     (if dc_command_capacity cfg = 0 then Inl EmptyCommandQueue
      else if \<not> maintenance_config_ok (dc_maintenance cfg) then Inl InvalidMaintenanceConfig
      else case local of
        Inl e \<Rightarrow> Inl (LocalAddress e)
      | Inr a \<Rightarrow>
         if \<not> family_accepts (rt_family rt) a then Inl (AddressFamilyMismatch a (rt_family rt))
         else case ps_new (dc_peer_store cfg) (rt_family rt) now of
           Inl e \<Rightarrow> Inl (InvalidPeerStoreConfig e)
         | Inr ps \<Rightarrow> (case tk_with_source now key of
             Inl _ \<Rightarrow> Inl TokenEntropy
           | Inr tk \<Rightarrow> Inr \<lparr>dp_identity_paused = False, dp_security = consensus_new (dc_external_ip cfg) None,
               dp_identity_store = None, dp_pending_external_ip = None, dp_budget = b, dp_queued = [],
               dp_queue_deadline = None, dp_fetch_ingress = None, dp_sampling_paused = False,
               dp_policy = pc_address_policy (dc_peer_store cfg), dp_clock = ck,
               dp_recovery = \<lparr>rc_queued = [], rc_active = [], rc_next = None\<rparr>, dp_transport = transport,
               dp_routing = rt, dp_transactions = tm, dp_pending = [], dp_verifications = {}, dp_bucket_probes = {},
               dp_maintenance = maintenance_new (dc_maintenance cfg) now, dp_tokens = tk, dp_peers = ps,
               dp_samples = \<lparr>sh_generated_at = None, sh_hashes = []\<rparr>, dp_sampler = default_sampler,
               dp_replies = [], dp_sent = [], dp_limited = []\<rparr>))"

definition answer :: "dispatcher \<Rightarrow> nat \<Rightarrow> caller_reply \<Rightarrow> dispatcher" where
  "answer d c r = d\<lparr>dp_replies := dp_replies d @ [(c, r)]\<rparr>"

definition occupied :: "dispatcher \<Rightarrow> nat" where
  "occupied d = length (tm_pending (dp_transactions d)) + length (dp_queued d)"

definition reserve_for :: "dispatcher \<Rightarrow> nat" where
  "reserve_for d = max (mc_reserved_user_transactions (ms_config (dp_maintenance d))) 1"

fun transaction_query_error :: "transaction_error \<Rightarrow> query_error" where
  "transaction_query_error (AtCapacity limit) = QueryAtCapacity limit"
| "transaction_query_error e = TransactionFailed e"

section \<open>Intents that end before they are sent\<close>

text \<open>A place in the verification queue is given back when its owner is dropped.\<close>

definition return_permit :: "bool \<Rightarrow> budget \<Rightarrow> budget option" where
  "return_permit permit b = (if permit then drop_permit b else Some b)"

definition write_zero :: "query_error \<Rightarrow> bool" where
  "write_zero e \<longleftrightarrow> e = TransportFailed (UdpIo ''incomplete'')"

definition probe_key :: "node_contact \<Rightarrow> node_id \<times> socket_addr" where
  "probe_key c = (nc_id c, nc_address c)"

fun finish_start_error :: "env \<Rightarrow> dispatcher \<Rightarrow> pending_purpose \<Rightarrow> query_error \<Rightarrow> instant \<Rightarrow> dispatcher option" where
  "finish_start_error en d (PFetch c) e now = Some (answer d c (RPeers (Inl e)))"
| "finish_start_error en d (PRecovery i) e now = Some (d\<lparr>dp_recovery := recovery_finished (dp_recovery d) i\<rparr>)"
| "finish_start_error en d (PSampling r) e now =
     Some (d\<lparr>dp_sampler := (if write_zero e then uncertain_send (dp_sampler d) r now (en_fresh en)
       else abandon_unsent (dp_sampler d) r now)\<rparr>)"
| "finish_start_error en d (PUserPing c) e now = Some (answer d c (RPing (Inl e)))"
| "finish_start_error en d (PVerification key permit) e now =
     map_option (\<lambda>b. d\<lparr>dp_verifications := dp_verifications d - {key}, dp_budget := b\<rparr>)
       (return_permit permit (dp_budget d))"
| "finish_start_error en d (PBucketProbe incumbent _ _ _) e now =
     Some (d\<lparr>dp_bucket_probes := dp_bucket_probes d - {probe_key incumbent}\<rparr>)"
| "finish_start_error en d (PMaintenanceLookup i) e now =
     (case ms_lookup (dp_maintenance d) of
        None \<Rightarrow> Some d
      | Some l \<Rightarrow> map_option (\<lambda>l. d\<lparr>dp_maintenance := (dp_maintenance d)\<lparr>ms_lookup := Some l\<rparr>\<rparr>) (defer_candidate l i))"

section \<open>Sending\<close>

definition note_sent :: "dispatcher \<Rightarrow> pending_purpose \<Rightarrow> dispatcher" where
  "note_sent d p = (case p of PFetch c \<Rightarrow> d\<lparr>dp_sent := dp_sent d @ [c]\<rparr> | _ \<Rightarrow> d)"

definition note_limited :: "dispatcher \<Rightarrow> pending_purpose \<Rightarrow> dispatcher" where
  "note_limited d p = (case p of PFetch c \<Rightarrow> d\<lparr>dp_limited := dp_limited d @ [c]\<rparr> | _ \<Rightarrow> d)"

definition send_rpc :: "env \<Rightarrow> dispatcher \<Rightarrow> remote_node \<Rightarrow> outbound \<Rightarrow> pending_purpose \<Rightarrow> instant \<Rightarrow> dispatcher option" where
  "send_rpc en d0 remote query purpose now =
     (case register (dp_transactions d0) (rn_address remote) (fst (outbound_fields query)) now of
        (tm, Inl e) \<Rightarrow> finish_start_error en (d0\<lparr>dp_transactions := tm\<rparr>) purpose (transaction_query_error e) now
      | (tm, Inr i) \<Rightarrow>
         (let message = outbound_message query (rt_local_id (dp_routing d0)) (tid_bytes i);
              d = d0\<lparr>dp_transactions := tm,
                dp_pending := hm_put i \<lparr>pd_remote = remote, pd_purpose = purpose\<rparr> (dp_pending d0)\<rparr>
          in case try_send_to (en_encode en) (en_socket en) (dp_transport d) (rn_address remote) message of
               Inl e \<Rightarrow>
                 (let d = d\<lparr>dp_transactions := fst (cancel (dp_transactions d) i)\<rparr> in
                  case hm_get (dp_pending d) i of
                    None \<Rightarrow> Some d
                  | Some p \<Rightarrow> finish_start_error en (d\<lparr>dp_pending := hm_remove i (dp_pending d)\<rparr>) (pd_purpose p)
                      (TransportFailed e) now)
             | Inr _ \<Rightarrow>
                 (case en_encode en message of
                    Inl _ \<Rightarrow> None
                  | Inr bs \<Rightarrow> Some (note_sent (d\<lparr>dp_budget := sent (dp_budget d) (purpose_class purpose) (length bs)\<rparr>)
                      purpose))))"

section \<open>The queue\<close>

definition drop_ticket :: "env \<Rightarrow> dispatcher \<Rightarrow> queue_record \<Rightarrow> dispatcher option" where
  "drop_ticket en d q = map_option (\<lambda>b. d\<lparr>dp_budget := b\<rparr>) (ticket_drop (dp_budget d) q (en_fresh en))"

text \<open>
  Dropping the purpose of a cancelled query drops the sender of its caller. The caller, who is gone already, receives
  nothing in the source; the entry \<open>RReclaimed\<close> of the list of replies only keeps account of the sender.
\<close>

definition reclaim :: "dispatcher \<Rightarrow> pending_purpose \<Rightarrow> dispatcher" where
  "reclaim d p = (case p of PFetch c \<Rightarrow> answer d c RReclaimed | PUserPing c \<Rightarrow> answer d c RReclaimed | _ \<Rightarrow> d)"

definition without_permit :: "pending_purpose \<Rightarrow> pending_purpose" where
  "without_permit p = (case p of PVerification key _ \<Rightarrow> PVerification key False | _ \<Rightarrow> p)"

definition has_permit :: "pending_purpose \<Rightarrow> bool" where
  "has_permit p = (case p of PVerification _ permit \<Rightarrow> permit | _ \<Rightarrow> False)"

text \<open>
  The loop over the queue: \<open>kept\<close> are the intents before the index, which wait on. Its body removes the
  intent at the index, ends or sends it, or moves on.
\<close>

fun outbound_loop :: "env \<Rightarrow> instant \<Rightarrow> dispatcher \<Rightarrow> queued_intent list \<Rightarrow> queued_intent list \<Rightarrow> dispatcher option" where
  "outbound_loop en now d kept [] = Some d"
| "outbound_loop en now d kept (q # rest) =
     (if purpose_cancelled (en_gone en) (qi_purpose q) then
        (case drop_ticket en (reclaim (d\<lparr>dp_queued := kept @ rest\<rparr>) (qi_purpose q)) (qi_record q) of
           None \<Rightarrow> None | Some d \<Rightarrow> outbound_loop en now d kept rest)
      else if now \<ge> qi_deadline q then
        (case finish_start_error en (d\<lparr>dp_queued := kept @ rest\<rparr>) (qi_purpose q) LocalWait now of
           None \<Rightarrow> None
         | Some d \<Rightarrow> (case drop_ticket en d (ticket_finish (qi_record q) 2) of
             None \<Rightarrow> None | Some d \<Rightarrow> outbound_loop en now d kept rest))
      else case en_encode en (outbound_message (qi_query q) (rt_local_id (dp_routing d)) (replicate 4 0)) of
        Inl e \<Rightarrow>
          (case finish_start_error en (d\<lparr>dp_queued := kept @ rest\<rparr>) (qi_purpose q) (TransportFailed (Encode e)) now of
             None \<Rightarrow> None
           | Some d \<Rightarrow> (case drop_ticket en d (ticket_finish (qi_record q) 3) of
               None \<Rightarrow> None | Some d \<Rightarrow> outbound_loop en now d kept rest))
      | Inr bs \<Rightarrow>
          (case query_observed (en_gcra en) (dp_budget d) (purpose_class (qi_purpose q))
                  (sa_ip (rn_address (qi_remote q))) (length bs) (en_fresh en) of
             None \<Rightarrow> None
           | Some (b, dec) \<Rightarrow>
               (case ticket_blocked b (qi_record q) (dc_reasons dec) of (b, ticket) \<Rightarrow>
                  if dc_wait dec = 0 then
                    (case return_permit (has_permit (qi_purpose q)) b of
                       None \<Rightarrow> None
                     | Some b \<Rightarrow>
                        (case drop_ticket en (d\<lparr>dp_budget := b, dp_queued := kept @ rest\<rparr>) (ticket_finish ticket 0) of
                           None \<Rightarrow> None
                         | Some d \<Rightarrow> (case send_rpc en d (qi_remote q) (qi_query q) (without_permit (qi_purpose q)) now of
                             None \<Rightarrow> None | Some d \<Rightarrow> outbound_loop en now d kept rest)))
                  else
                    (let q' = q\<lparr>qi_wait_reasons := dc_reasons dec, qi_record := ticket\<rparr>;
                         nxt = min (now + dc_wait dec) (qi_deadline q);
                         d = note_limited (d\<lparr>dp_budget := b, dp_queued := kept @ q' # rest\<rparr>) (qi_purpose q)
                     in outbound_loop en now (d\<lparr>dp_queue_deadline := Some (case dp_queue_deadline d of
                          None \<Rightarrow> nxt | Some old \<Rightarrow> min old nxt)\<rparr>) (kept @ [q']) rest))))"

definition advance_outbound :: "env \<Rightarrow> dispatcher \<Rightarrow> instant \<Rightarrow> dispatcher option" where
  "advance_outbound en d now = outbound_loop en now (d\<lparr>dp_queue_deadline := None\<rparr>) [] (dp_queued d)"

definition enqueue :: "env \<Rightarrow> dispatcher \<Rightarrow> remote_node \<Rightarrow> outbound \<Rightarrow> pending_purpose \<Rightarrow> instant \<Rightarrow> dispatcher" where
  "enqueue en d remote query purpose now =
     (case queue_ticket (dp_budget d) (purpose_class purpose) (en_fresh en) of (b, ticket) \<Rightarrow>
        d\<lparr>dp_budget := b, dp_queued := dp_queued d @ [\<lparr>qi_wait_reasons = 0, qi_remote = remote, qi_query = query,
          qi_purpose = purpose, qi_deadline = now + secs 5, qi_record = ticket\<rparr>]\<rparr>)"

definition start_rpc :: "env \<Rightarrow> dispatcher \<Rightarrow> remote_node \<Rightarrow> outbound \<Rightarrow> pending_purpose \<Rightarrow> instant \<Rightarrow> dispatcher option" where
  "start_rpc en d remote query purpose now =
     (if dp_identity_paused d then finish_start_error en d purpose IdentityChanged now
      else let reserve = (case purpose of PUserPing _ \<Rightarrow> 0 | _ \<Rightarrow> reserve_for d);
               limit = tm_max_pending (dp_transactions d) - reserve
           in if occupied d \<ge> limit then finish_start_error en d purpose (QueryAtCapacity limit) now
              else case purpose of
                PVerification key permit \<Rightarrow>
                  (case admit_verification (dp_budget d) (sa_ip (rn_address remote)) (en_fresh en) of
                     None \<Rightarrow> None
                   | Some (b, admitted) \<Rightarrow>
                       if admitted
                       then advance_outbound en (enqueue en (d\<lparr>dp_budget := b\<rparr>) remote query (PVerification key True) now) now
                       else finish_start_error en (d\<lparr>dp_budget := b\<rparr>) (PVerification key False) LocalWait now)
              | _ \<Rightarrow> advance_outbound en (enqueue en d remote query purpose now) now)"

definition start_query :: "env \<Rightarrow> dispatcher \<Rightarrow> remote_node \<Rightarrow> query_method \<Rightarrow> node_id option \<Rightarrow> pending_purpose \<Rightarrow> instant
    \<Rightarrow> dispatcher option" where
  "start_query en d remote method target purpose now =
     (case (method, target) of
        (Ping, None) \<Rightarrow> start_rpc en d remote OutPing purpose now
      | (FindNode, Some t) \<Rightarrow> start_rpc en d remote (OutFindNode t) purpose now
      | (SampleInfohashes, Some t) \<Rightarrow> start_rpc en d remote (OutSample t) purpose now
      | _ \<Rightarrow> finish_start_error en d purpose (InvalidResponse ''outbound arguments'') now)"

section \<open>Cancellation\<close>

text \<open>Only the sampling intents that still wait are withdrawn; they were certainly not sent.\<close>

fun discard_loop :: "env \<Rightarrow> instant \<Rightarrow> dispatcher \<Rightarrow> queued_intent list \<Rightarrow> queued_intent list \<Rightarrow> dispatcher option" where
  "discard_loop en now d kept [] = Some d"
| "discard_loop en now d kept (q # rest) =
     (case qi_purpose q of
        PSampling r \<Rightarrow>
          (case drop_ticket en (d\<lparr>dp_queued := kept @ rest, dp_sampler := abandon_unsent (dp_sampler d) r now\<rparr>) (qi_record q) of
             None \<Rightarrow> None | Some d \<Rightarrow> discard_loop en now d kept rest)
      | _ \<Rightarrow> discard_loop en now d (kept @ [q]) rest)"

definition discard_queued_sampling :: "env \<Rightarrow> dispatcher \<Rightarrow> instant \<Rightarrow> dispatcher option" where
  "discard_queued_sampling en d now = discard_loop en now d [] (dp_queued d)"

text \<open>A pending query is taken out of both maps.\<close>

definition drop_pending :: "dispatcher \<Rightarrow> transaction_id \<Rightarrow> dispatcher" where
  "drop_pending d i = d\<lparr>dp_transactions := fst (cancel (dp_transactions d) i), dp_pending := hm_remove i (dp_pending d)\<rparr>"

fun cancel_sampling :: "env \<Rightarrow> instant \<Rightarrow> dispatcher \<Rightarrow> (transaction_id \<times> pending_dispatch) list \<Rightarrow> dispatcher" where
  "cancel_sampling en now d [] = d"
| "cancel_sampling en now d ((i, p) # ps) =
     (case pd_purpose p of
        PSampling r \<Rightarrow> cancel_sampling en now
          ((drop_pending d i)\<lparr>dp_sampler := cancel_request (dp_sampler d) r now (en_fresh en)\<rparr>) ps
      | _ \<Rightarrow> cancel_sampling en now d ps)"

definition stop_sampling :: "env \<Rightarrow> dispatcher \<Rightarrow> instant \<Rightarrow> dispatcher option" where
  "stop_sampling en d now =
     map_option (\<lambda>d. let d = d\<lparr>dp_sampler := sampler_stop (dp_sampler d) now\<rparr> in cancel_sampling en now d (dp_pending d))
       (discard_queued_sampling en d now)"

fun clear_queued :: "env \<Rightarrow> query_error \<Rightarrow> dispatcher \<Rightarrow> queued_intent list \<Rightarrow> dispatcher option" where
  "clear_queued en e d [] = Some d"
| "clear_queued en e d (q # rest) =
     (case finish_start_error en (d\<lparr>dp_queued := rest\<rparr>) (qi_purpose q) e (en_fresh en) of
        None \<Rightarrow> None
      | Some d \<Rightarrow> (case drop_ticket en d (qi_record q) of None \<Rightarrow> None | Some d \<Rightarrow> clear_queued en e d rest))"

definition clear_one :: "env \<Rightarrow> query_error \<Rightarrow> dispatcher \<Rightarrow> transaction_id \<times> pending_dispatch \<Rightarrow> dispatcher" where
  "clear_one en e d x =
     (case x of (i, p) \<Rightarrow>
        let d = d\<lparr>dp_budget := inflight_cancelled (dp_budget d) (purpose_class (pd_purpose p)),
                 dp_transactions := fst (cancel (dp_transactions d) i)\<rparr>
        in case pd_purpose p of
             PFetch c \<Rightarrow> answer d c (RPeers (Inl e))
           | PUserPing c \<Rightarrow> answer d c (RPing (Inl e))
           | PSampling r \<Rightarrow> d\<lparr>dp_sampler := cancel_request (dp_sampler d) r (en_fresh en) (en_fresh en)\<rparr>
           | _ \<Rightarrow> d)"

definition clear_queries :: "env \<Rightarrow> dispatcher \<Rightarrow> bool \<Rightarrow> dispatcher option" where
  "clear_queries en d rotating =
     (let e = (if rotating then IdentityChanged else ShuttingDown) in
      map_option (\<lambda>d. let d = foldl (clear_one en e) (d\<lparr>dp_pending := []\<rparr>) (dp_pending d)
          in d\<lparr>dp_queue_deadline := None, dp_verifications := {}, dp_bucket_probes := {},
               dp_maintenance := maintenance_clear (dp_maintenance d)\<rparr>)
        (clear_queued en e d (dp_queued d)))"

definition close_pending :: "env \<Rightarrow> dispatcher \<Rightarrow> dispatcher option" where
  "close_pending en d = (case stop_sampling en d (en_fresh en) of None \<Rightarrow> None | Some d \<Rightarrow> clear_queries en d False)"

definition cancel_for_identity :: "env \<Rightarrow> dispatcher \<Rightarrow> dispatcher option" where
  "cancel_for_identity en d = clear_queries en d True"

text \<open>The queries of callers that went away are withdrawn from the queue and from both maps.\<close>

fun cancel_queued :: "env \<Rightarrow> dispatcher \<Rightarrow> queued_intent list \<Rightarrow> queued_intent list \<Rightarrow> dispatcher option" where
  "cancel_queued en d kept [] = Some d"
| "cancel_queued en d kept (q # rest) =
     (if purpose_cancelled (en_gone en) (qi_purpose q)
      then (case drop_ticket en (reclaim (d\<lparr>dp_queued := kept @ rest\<rparr>) (qi_purpose q)) (qi_record q) of
              None \<Rightarrow> None | Some d \<Rightarrow> cancel_queued en d kept rest)
      else cancel_queued en d (kept @ [q]) rest)"

definition cancel_sent :: "dispatcher \<Rightarrow> transaction_id \<Rightarrow> dispatcher" where
  "cancel_sent d i =
     (let d = d\<lparr>dp_transactions := fst (cancel (dp_transactions d) i)\<rparr> in
      case hm_get (dp_pending d) i of
        None \<Rightarrow> d
      | Some p \<Rightarrow> reclaim (d\<lparr>dp_pending := hm_remove i (dp_pending d),
          dp_budget := inflight_cancelled (dp_budget d) (purpose_class (pd_purpose p))\<rparr>) (pd_purpose p))"

definition cancel_fetch_queries :: "env \<Rightarrow> dispatcher \<Rightarrow> dispatcher option" where
  "cancel_fetch_queries en d =
     map_option (\<lambda>d. foldl cancel_sent d
         (map fst (filter (\<lambda>(_, p). purpose_cancelled (en_gone en) (pd_purpose p)) (dp_pending d))))
       (cancel_queued en d [] (dp_queued d))"

end
