(* ===== verification/DispatcherResponse.thy ===== *)
theory DispatcherResponse imports Dispatcher begin

text \<open>
  Responses and their consequences: \<open>src/dht/dispatcher/response/\<close> (matching, method checks, settlement of the
  purpose, probes of full buckets), \<open>decode_peers\<close> of \<open>fetch.rs\<close> and \<open>observe_external\<close> of \<open>recovery.rs\<close>.
  A bucket index that could be missing, \<open>remove(0)\<close> of an empty list and the \<open>unreachable\<close> arms are
  \<open>None\<close>.
\<close>

section \<open>Method-specific checks\<close>

datatype validated_response =
  VBasic
| VPeers get_peers_response
| VNodes find_node_response
| VSamples sample_response

fun discovered4 :: "compact_node4 \<Rightarrow> discovered_node" where
  "discovered4 n = \<lparr>dn_id = c4_id n, dn_address = SA4 (v4_ip (c4_address n)) (v4_port (c4_address n))\<rparr>"

fun socket6 :: "socket_v6 \<Rightarrow> socket_addr" where
  "socket6 (SocketV6 ip p flow scope) = SA6 ip p flow scope"

fun discovered6 :: "compact_node6 \<Rightarrow> discovered_node" where
  "discovered6 n = \<lparr>dn_id = c6_id n, dn_address = socket6 (c6_address n)\<rparr>"

fun peer_socket :: "compact_peer_address \<Rightarrow> socket_addr" where
  "peer_socket (PeerV4 a) = SA4 (v4_ip a) (v4_port a)"
| "peer_socket (PeerV6 a) = socket6 a"

definition decode_find_node_response :: "dispatcher \<Rightarrow> response_args \<Rightarrow> query_error + find_node_response" where
  "decode_find_node_response d r =
     and_then (case rt_family (dp_routing d) of
        Ipv4 \<Rightarrow> (case ra_nodes r of None \<Rightarrow> Inl (InvalidResponse ''no nodes'') | Some ns \<Rightarrow> Inr (map discovered4 ns))
      | Ipv6 \<Rightarrow> (case ra_nodes6 r of None \<Rightarrow> Inl (InvalidResponse ''no nodes6'') | Some ns \<Rightarrow> Inr (map discovered6 ns)))
       (\<lambda>nodes. Inr \<lparr>fr_responder = ra_id r, fr_nodes = nodes\<rparr>)"

definition decode_peers :: "dispatcher \<Rightarrow> response_args \<Rightarrow> query_error + get_peers_response" where
  "decode_peers d r =
     (if (case ra_token r of None \<Rightarrow> True | Some t \<Rightarrow> token_bytes t = [] \<or> length (token_bytes t) > 256)
      then Inl (InvalidResponse ''no valid token'')
      else if ra_values r = None \<and> ra_nodes r = None \<and> ra_nodes6 r = None
      then Inl (InvalidResponse ''no peers and no nodes'')
      else let nodes = (case ra_nodes r of None \<Rightarrow> [] | Some ns \<Rightarrow> map discovered4 ns)
                 @ (case ra_nodes6 r of None \<Rightarrow> [] | Some ns \<Rightarrow> map discovered6 ns);
               nodes = keep_first (filter (\<lambda>n. family_accepts (rt_family (dp_routing d)) (dn_address n)
                 \<and> policy_accepts (dp_policy d) (dn_address n) \<and> dn_id n \<noteq> rt_local_id (dp_routing d)) nodes) {};
               peers = keep_first (filter (policy_accepts (dp_policy d))
                 (map peer_socket (case ra_values r of None \<Rightarrow> [] | Some ps \<Rightarrow> ps))) {}
           in Inr \<lparr>gp_nodes = take 256 nodes, gp_peers = take 32 peers\<rparr>)"

definition decode_for :: "dispatcher \<Rightarrow> pending_purpose \<Rightarrow> response_args \<Rightarrow> nat \<Rightarrow> query_error + validated_response" where
  "decode_for d purpose r encoded_len =
     (case purpose of
        PFetch _ \<Rightarrow> and_then (decode_peers d r) (\<lambda>x. Inr (VPeers x))
      | PMaintenanceLookup _ \<Rightarrow> and_then (decode_find_node_response d r) (\<lambda>x. Inr (VNodes x))
      | PSampling rq \<Rightarrow> and_then (decode_find_node_response d r) (\<lambda>nodes.
          if rq_kind rq = FindNodeFallback then Inr (VNodes nodes)
          else and_then (decode_sample r (fr_nodes nodes) encoded_len) (\<lambda>sample.
            Inr (case sample of Some s \<Rightarrow> VSamples s | None \<Rightarrow> VNodes nodes)))
      | _ \<Rightarrow> Inr VBasic)"

section \<open>Routing\<close>

definition expected_failure :: "dispatcher \<Rightarrow> remote_node \<Rightarrow> instant \<Rightarrow> dispatcher option" where
  "expected_failure d remote now =
     (case rn_expected_id remote of
        None \<Rightarrow> Some d
      | Some i \<Rightarrow> map_option (\<lambda>(rt, _). d\<lparr>dp_routing := rt\<rparr>) (record_failure (dp_routing d) i now))"

definition node_target :: "node_contact \<Rightarrow> remote_node" where
  "node_target c = \<lparr>rn_address = nc_address c, rn_expected_id = Some (nc_id c)\<rparr>"

definition start_bucket_probe :: "env \<Rightarrow> dispatcher \<Rightarrow> node_contact \<Rightarrow> node_contact list \<Rightarrow> node_contact \<Rightarrow> nat \<Rightarrow> instant
    \<Rightarrow> dispatcher option" where
  "start_bucket_probe en d incumbent remaining candidate attempt now =
     (if probe_key incumbent \<in> dp_bucket_probes d then Some d
      else start_query en (d\<lparr>dp_bucket_probes := insert (probe_key incumbent) (dp_bucket_probes d)\<rparr>)
        (node_target incumbent) Ping None (PBucketProbe incumbent remaining candidate attempt) now)"

definition handle_insert_outcome :: "env \<Rightarrow> dispatcher \<Rightarrow> insert_outcome \<Rightarrow> instant \<Rightarrow> dispatcher option" where
  "handle_insert_outcome en d outcome now =
     (case outcome of
        ProbeRequired incumbents candidate \<Rightarrow>
          (case incumbents of [] \<Rightarrow> None | c # cs \<Rightarrow> start_bucket_probe en d c cs candidate 1 now)
      | _ \<Rightarrow> Some d)"

definition reconsider :: "env \<Rightarrow> dispatcher \<Rightarrow> node_contact \<Rightarrow> instant \<Rightarrow> dispatcher option" where
  "reconsider en d candidate now =
     (case reconsider_candidate (dp_routing d) candidate now of
        None \<Rightarrow> None | Some (rt, outcome) \<Rightarrow> handle_insert_outcome en (d\<lparr>dp_routing := rt\<rparr>) outcome now)"

section \<open>Settlement\<close>

definition update_lookup :: "dispatcher \<Rightarrow> (iterative_lookup \<Rightarrow> iterative_lookup) \<Rightarrow> dispatcher" where
  "update_lookup d f = d\<lparr>dp_maintenance := (dp_maintenance d)\<lparr>ms_lookup := map_option f (ms_lookup (dp_maintenance d))\<rparr>\<rparr>"

text \<open>A discovered node is a candidate as the contact of the table, or when the policy accepts its address.\<close>

fun lookup_candidates :: "dispatcher \<Rightarrow> discovered_node list \<Rightarrow> instant \<Rightarrow> (node_contact \<times> bool) list option" where
  "lookup_candidates d [] now = Some []"
| "lookup_candidates d (n # ns) now =
     (case contact (dp_routing d) (dn_id n) of
        None \<Rightarrow> None
      | Some known \<Rightarrow> map_option (\<lambda>cs. (case known of
            Some c \<Rightarrow> (c, True) # cs
          | None \<Rightarrow> if policy_accepts (dp_policy d) (dn_address n)
              then (contact_for_lookup (dn_id n) (dn_address n) now, False) # cs else cs))
          (lookup_candidates d ns now))"

definition finish_success :: "env \<Rightarrow> dispatcher \<Rightarrow> pending_dispatch \<Rightarrow> node_id \<Rightarrow> validated_response \<Rightarrow> instant
    \<Rightarrow> dispatcher option" where
  "finish_success en d pending responder decoded now =
     (case pd_purpose pending of
        PFetch c \<Rightarrow> Some (answer d c (case decoded of VPeers r \<Rightarrow> RPeers (Inr r) | _ \<Rightarrow> RReclaimed))
      | PRecovery i \<Rightarrow> Some (d\<lparr>dp_recovery := recovery_finished (dp_recovery d) i\<rparr>)
      | PSampling r \<Rightarrow> (case decoded of
            VSamples resp \<Rightarrow> map_option (\<lambda>(s, _). d\<lparr>dp_sampler := s\<rparr>)
              (sampler_success (dp_sampler d) r resp (dp_routing d) now (en_fresh en) (en_system_now en))
          | VNodes resp \<Rightarrow> map_option (\<lambda>s. d\<lparr>dp_sampler := s\<rparr>)
              (sampler_nodes (dp_sampler d) r (fr_nodes resp) (dp_routing d) now (en_fresh en))
          | _ \<Rightarrow> None)
      | PUserPing c \<Rightarrow> Some (answer d c (RPing (Inr responder)))
      | PVerification key _ \<Rightarrow> Some (d\<lparr>dp_budget := verification_result (dp_budget d) True,
          dp_verifications := dp_verifications d - {key}\<rparr>)
      | PBucketProbe incumbent remaining candidate _ \<Rightarrow>
          (let d = d\<lparr>dp_bucket_probes := dp_bucket_probes d - {probe_key incumbent}\<rparr> in
           case remaining of [] \<Rightarrow> reconsider en d candidate now
           | c # cs \<Rightarrow> start_bucket_probe en d c cs candidate 1 now)
      | PMaintenanceLookup i \<Rightarrow> (case decoded of
            VNodes resp \<Rightarrow> map_option (\<lambda>cs. update_lookup d (\<lambda>l. complete_success l i cs (rt_local_id (dp_routing d))))
              (lookup_candidates d (fr_nodes resp) now)
          | _ \<Rightarrow> None))"

definition blame :: "dispatcher \<Rightarrow> pending_dispatch \<Rightarrow> query_error \<Rightarrow> instant \<Rightarrow> dispatcher option" where
  "blame d pending e now = (if is_remote e then Some d else expected_failure d (pd_remote pending) now)"

definition finish_network_failure :: "env \<Rightarrow> dispatcher \<Rightarrow> pending_dispatch \<Rightarrow> query_error \<Rightarrow> instant
    \<Rightarrow> dispatcher option" where
  "finish_network_failure en d pending e now =
     (case pd_purpose pending of
        PFetch c \<Rightarrow> map_option (\<lambda>d. answer d c (RPeers (Inl e))) (blame d pending e now)
      | PRecovery i \<Rightarrow> Some (d\<lparr>dp_recovery := recovery_finished (dp_recovery d) i\<rparr>)
      | PSampling r \<Rightarrow> map_option (\<lambda>d. d\<lparr>dp_sampler := sampler_failure (dp_sampler d) r e now (en_fresh en)\<rparr>)
          (blame d pending e now)
      | PUserPing c \<Rightarrow> map_option (\<lambda>d. answer d c (RPing (Inl e))) (blame d pending e now)
      | PVerification key _ \<Rightarrow> Some (d\<lparr>dp_budget := verification_result (dp_budget d) False,
          dp_verifications := dp_verifications d - {key}\<rparr>)
      | PBucketProbe incumbent remaining candidate attempt \<Rightarrow>
          (case record_failure (dp_routing d) (nc_id incumbent) now of
             None \<Rightarrow> None
           | Some (rt, status) \<Rightarrow>
              (let d = d\<lparr>dp_routing := rt\<rparr> in
               if status = Some Bad
               then reconsider en (d\<lparr>dp_bucket_probes := dp_bucket_probes d - {probe_key incumbent}\<rparr>) candidate now
               else if attempt < 2
               then start_query en d (node_target incumbent) Ping None
                      (PBucketProbe incumbent remaining candidate (attempt + 1)) now
               else Some (d\<lparr>dp_bucket_probes := dp_bucket_probes d - {probe_key incumbent}\<rparr>)))
      | PMaintenanceLookup i \<Rightarrow> map_option (\<lambda>d. update_lookup d (\<lambda>l. complete_failure l i)) (blame d pending e now))"

fun expire_each :: "env \<Rightarrow> dispatcher \<Rightarrow> pending_transaction list \<Rightarrow> instant \<Rightarrow> dispatcher option" where
  "expire_each en d [] now = Some d"
| "expire_each en d (t # ts) now =
     (case hm_get (dp_pending d) (pt_id t) of
        None \<Rightarrow> expire_each en d ts now
      | Some p \<Rightarrow> (case finish_network_failure en (d\<lparr>dp_pending := hm_remove (pt_id t) (dp_pending d)\<rparr>) p Timeout now of
            None \<Rightarrow> None | Some d \<Rightarrow> expire_each en d ts now))"

definition expire_pending :: "env \<Rightarrow> dispatcher \<Rightarrow> instant \<Rightarrow> dispatcher option" where
  "expire_pending en d now = (case expire_transactions (dp_transactions d) now of (tm, ts) \<Rightarrow>
     expire_each en (d\<lparr>dp_transactions := tm\<rparr>) ts now)"

section \<open>Messages\<close>

definition observe_external :: "dispatcher \<Rightarrow> socket_addr \<Rightarrow> bytes option \<Rightarrow> instant \<Rightarrow> dispatcher" where
  "observe_external d source bs now =
     (case (case bs of None \<Rightarrow> None | Some b \<Rightarrow> observed b) of
        None \<Rightarrow> d
      | Some ip \<Rightarrow>
          if family_accepts (rt_family (dp_routing d)) (sa_new ip 1)
          then (case consensus_observe (dp_security d) (sa_ip source) ip now of (c, out) \<Rightarrow>
                  d\<lparr>dp_security := c, dp_pending_external_ip := (case out of Some x \<Rightarrow> Some x
                     | None \<Rightarrow> dp_pending_external_ip d)\<rparr>)
          else d)"

text \<open>
  The match of a message with its pending query. An expired one is a timeout; any other mismatch changes nothing.
\<close>

datatype matched = Unmatched dispatcher | TimedOut dispatcher pending_dispatch | Matched dispatcher pending_dispatch

definition match_pending :: "dispatcher \<Rightarrow> received_message \<Rightarrow> instant \<Rightarrow> matched option" where
  "match_pending d m now =
     (case complete (dp_transactions d) (km_t (rm_message m)) (rm_source m) now of
        None \<Rightarrow> None
      | Some (tm, result) \<Rightarrow>
         (let d = d\<lparr>dp_transactions := tm\<rparr> in
          case result of
            Inl (Expired t) \<Rightarrow> Some (case hm_get (dp_pending d) (pt_id t) of
                None \<Rightarrow> Unmatched d
              | Some p \<Rightarrow> TimedOut (d\<lparr>dp_pending := hm_remove (pt_id t) (dp_pending d)\<rparr>) p)
          | Inl _ \<Rightarrow> Some (Unmatched d)
          | Inr c \<Rightarrow> Some (case hm_get (dp_pending d) (pt_id (ct_transaction c)) of
                None \<Rightarrow> Unmatched d
              | Some p \<Rightarrow> Matched (d\<lparr>dp_pending := hm_remove (pt_id (ct_transaction c)) (dp_pending d)\<rparr>) p)))"

definition check_response :: "dispatcher \<Rightarrow> received_message \<Rightarrow> pending_dispatch \<Rightarrow> query_error + response_args \<times> validated_response" where
  "check_response d m pending =
     (let k = rm_message m in
      if km_q k \<noteq> None \<or> km_a k \<noteq> None \<or> km_e k \<noteq> None \<or> km_ro k \<noteq> None
      then Inl (InvalidResponse ''conflicting fields of a response'')
      else case km_r k of
        None \<Rightarrow> Inl (InvalidResponse ''no r field'')
      | Some r \<Rightarrow>
         (case rn_expected_id (pd_remote pending) of
            Some expected \<Rightarrow> if ra_id r \<noteq> expected then Inl (UnexpectedNodeId expected (ra_id r))
              else and_then (decode_for d (pd_purpose pending) r (rm_encoded_len m)) (\<lambda>x. Inr (r, x))
          | None \<Rightarrow> and_then (decode_for d (pd_purpose pending) r (rm_encoded_len m)) (\<lambda>x. Inr (r, x))))"

definition handle_response :: "env \<Rightarrow> dispatcher \<Rightarrow> received_message \<Rightarrow> instant \<Rightarrow> dispatcher option" where
  "handle_response en d0 m now =
     (case match_pending d0 m now of
        None \<Rightarrow> None
      | Some (Unmatched d) \<Rightarrow> Some d
      | Some (TimedOut d p) \<Rightarrow> finish_network_failure en d p Timeout now
      | Some (Matched d pending) \<Rightarrow>
         (case check_response d m pending of
            Inl e \<Rightarrow> finish_network_failure en d pending e now
          | Inr (r, decoded) \<Rightarrow>
             (let d = observe_external d (rm_source m) (km_ip (rm_message m)) now;
                  d = d\<lparr>dp_budget := validated (dp_budget d) (sa_ip (rm_source m))\<rparr>
              in case observe_response (dp_routing d) (ra_id r) (rm_source m) now of
                   None \<Rightarrow> None
                 | Some (rt, outcome) \<Rightarrow>
                     (case finish_success en (d\<lparr>dp_routing := rt\<rparr>) pending (ra_id r) decoded now of
                        None \<Rightarrow> None | Some d \<Rightarrow> handle_insert_outcome en d outcome now))))"

definition check_error :: "krpc_message \<Rightarrow> query_error" where
  "check_error k =
     (if km_q k \<noteq> None \<or> km_a k \<noteq> None \<or> km_r k \<noteq> None \<or> km_ro k \<noteq> None
      then InvalidResponse ''conflicting fields of an error''
      else case km_e k of Some (code, text) \<Rightarrow> Remote code text | None \<Rightarrow> InvalidResponse ''no e field'')"

definition handle_error :: "env \<Rightarrow> dispatcher \<Rightarrow> received_message \<Rightarrow> instant \<Rightarrow> dispatcher option" where
  "handle_error en d0 m now =
     (case match_pending d0 m now of
        None \<Rightarrow> None
      | Some (Unmatched d) \<Rightarrow> Some d
      | Some (TimedOut d p) \<Rightarrow> finish_network_failure en d p Timeout now
      | Some (Matched d pending) \<Rightarrow>
         (let e = check_error (rm_message m);
              d = (if is_remote e then observe_external d (rm_source m) (km_ip (rm_message m)) now else d)
          in finish_network_failure en d pending e now))"

end
