(* ===== verification/DispatcherQuery.thy ===== *)
theory DispatcherQuery imports DispatcherResponse begin

text \<open>
  Queries of other nodes: \<open>src/dht/dispatcher/query.rs\<close>, \<open>peer_queries/mod.rs\<close> and \<open>sampling/mod.rs\<close>.
  \<open>en_text\<close> gives the bytes of an error text, which is written here as a short English name.
\<close>

section \<open>Responses that fit into a datagram\<close>

definition empty_response :: "node_id \<Rightarrow> response_args" where
  "empty_response i = \<lparr>ra_id = i, ra_token = None, ra_nodes = None, ra_nodes6 = None, ra_values = None,
     ra_samples = None, ra_interval = None, ra_num = None\<rparr>"

text \<open>One record less: of the peers, then of the samples, then of the nodes; the last record goes first.\<close>

definition shrink_response :: "response_args \<Rightarrow> response_args option" where
  "shrink_response r =
     (case ra_values r of
        Some vs \<Rightarrow> Some (r\<lparr>ra_values := (if butlast vs = [] then None else Some (butlast vs))\<rparr>)
      | None \<Rightarrow>
         if (case ra_samples r of None \<Rightarrow> False | Some xs \<Rightarrow> xs \<noteq> [])
         then Some (r\<lparr>ra_samples := map_option butlast (ra_samples r)\<rparr>)
         else if (case ra_nodes r of None \<Rightarrow> False | Some xs \<Rightarrow> xs \<noteq> [])
         then Some (r\<lparr>ra_nodes := map_option butlast (ra_nodes r)\<rparr>)
         else if (case ra_nodes6 r of None \<Rightarrow> False | Some xs \<Rightarrow> xs \<noteq> [])
         then Some (r\<lparr>ra_nodes6 := map_option butlast (ra_nodes6 r)\<rparr>)
         else None)"

definition option_weight :: "'a list option \<Rightarrow> nat" where
  "option_weight x = (case x of None \<Rightarrow> 0 | Some xs \<Rightarrow> Suc (length xs))"

definition response_weight :: "response_args \<Rightarrow> nat" where
  "response_weight r = option_weight (ra_values r) + option_weight (ra_samples r) + option_weight (ra_nodes r)
     + option_weight (ra_nodes6 r)"

lemma butlast_less [simp]: "butlast xs \<noteq> [] \<Longrightarrow> length xs - Suc 0 < length xs"
  by (cases xs) auto

lemma shrink_less: "shrink_response r = Some r' \<Longrightarrow> response_weight r' < response_weight r"
  by (auto simp: shrink_response_def response_weight_def option_weight_def split: option.splits if_splits)

function fit_response :: "(krpc_message \<Rightarrow> string + bytes) \<Rightarrow> nat \<Rightarrow> krpc_message \<Rightarrow> krpc_message option" where
  "fit_response encode limit m =
     (case encode m of
        Inl _ \<Rightarrow> None
      | Inr bs \<Rightarrow>
          if length bs \<le> limit then Some m
          else case km_r m of
            None \<Rightarrow> None
          | Some r \<Rightarrow> (case shrink_response r of
                None \<Rightarrow> None
              | Some r' \<Rightarrow> fit_response encode limit (m\<lparr>km_r := Some r'\<rparr>)))"
  by pat_completeness auto
termination
  by (relation "measure (\<lambda>(_, _, m). case km_r m of None \<Rightarrow> 0 | Some r \<Rightarrow> response_weight r)")
    (auto dest: shrink_less)

declare fit_response.simps [simp del]

section \<open>Replies\<close>

definition send_reply :: "env \<Rightarrow> dispatcher \<Rightarrow> socket_addr \<Rightarrow> krpc_message \<Rightarrow> dispatcher \<times> bool" where
  "send_reply en d dest message =
     (case en_encode en message of
        Inl _ \<Rightarrow> (d, False)
      | Inr bs \<Rightarrow>
         (case reply (en_gcra en) (dp_budget d) (length bs) (en_fresh en) of
            (b, False) \<Rightarrow> (d\<lparr>dp_budget := b\<rparr>, False)
          | (b, True) \<Rightarrow>
             (case try_send_to (en_encode en) (en_socket en) (dp_transport d) dest message of
                Inr n \<Rightarrow> (d\<lparr>dp_budget := reply_sent b n\<rparr>, True)
              | Inl _ \<Rightarrow> (d\<lparr>dp_budget := count_drop b\<rparr>, False))))"

definition reply_limit :: "dispatcher \<Rightarrow> nat" where
  "reply_limit d = min (ut_max_message_size (dp_transport d)) 1024"

definition response_message :: "socket_addr \<Rightarrow> bytes \<Rightarrow> response_args \<Rightarrow> krpc_message" where
  "response_message dest t r = \<lparr>km_t = t, km_y = Response, km_q = None, km_a = None, km_r = Some r, km_e = None,
     km_ro = None, km_ip = Some (compact dest)\<rparr>"

definition send_response :: "env \<Rightarrow> dispatcher \<Rightarrow> socket_addr \<Rightarrow> bytes \<Rightarrow> response_args \<Rightarrow> dispatcher \<times> bool" where
  "send_response en d dest t r =
     (case fit_response (en_encode en) (reply_limit d) (response_message dest t r) of
        None \<Rightarrow> (d, False)
      | Some message \<Rightarrow> send_reply en d dest message)"

definition send_basic_response :: "env \<Rightarrow> dispatcher \<Rightarrow> socket_addr \<Rightarrow> bytes \<Rightarrow> dispatcher \<times> bool" where
  "send_basic_response en d dest t = send_response en d dest t (empty_response (rt_local_id (dp_routing d)))"

definition send_error :: "env \<Rightarrow> dispatcher \<Rightarrow> socket_addr \<Rightarrow> bytes \<Rightarrow> krpc_error_code \<Rightarrow> string \<Rightarrow> dispatcher" where
  "send_error en d dest t code explanation =
     (let message = \<lparr>km_t = t, km_y = Error, km_q = None, km_a = None, km_r = None,
        km_e = Some (as_i64 code, en_text en explanation), km_ro = None, km_ip = Some (compact dest)\<rparr>
      in case en_encode en message of
           Inl _ \<Rightarrow> d
         | Inr bs \<Rightarrow> if length bs \<le> reply_limit d then fst (send_reply en d dest message) else d)"

definition node_response :: "dispatcher \<Rightarrow> bytes \<Rightarrow> string list \<Rightarrow> instant \<Rightarrow> response_args" where
  "node_response d target want now =
     (let n4 = list_ex (\<lambda>s. s = ''n4'') want;
          n6 = list_ex (\<lambda>s. s = ''n6'') want;
          v4 = (if \<not> n4 \<and> \<not> n6 then rt_family (dp_routing d) = Ipv4 else n4);
          v6 = (if \<not> n4 \<and> \<not> n6 then \<not> v4 else n6);
          contacts = closest_good (dp_routing d) target BUCKET_SIZE now;
          r = empty_response (rt_local_id (dp_routing d));
          r = (if v4 then r\<lparr>ra_nodes := Some (List.map_filter (\<lambda>c. case nc_address c of
                 SA4 ip p \<Rightarrow> Some \<lparr>c4_id = nc_id c, c4_address = SocketV4 ip p\<rparr> | _ \<Rightarrow> None) contacts)\<rparr> else r)
      in if v6 then r\<lparr>ra_nodes6 := Some (List.map_filter (\<lambda>c. case nc_address c of
                 SA6 ip p flow scope \<Rightarrow> Some \<lparr>c6_id = nc_id c, c6_address = SocketV6 ip p flow scope\<rparr> | _ \<Rightarrow> None) contacts)\<rparr>
         else r)"

section \<open>Verification of the sender\<close>

definition schedule_verification :: "env \<Rightarrow> dispatcher \<Rightarrow> node_id \<Rightarrow> socket_addr \<Rightarrow> instant \<Rightarrow> dispatcher option" where
  "schedule_verification en d i address now =
     (if (i, address) \<in> dp_verifications d then Some (d\<lparr>dp_budget := verification_duplicate (dp_budget d)\<rparr>)
      else start_query en (d\<lparr>dp_verifications := insert (i, address) (dp_verifications d)\<rparr>)
        \<lparr>rn_address = address, rn_expected_id = Some i\<rparr> Ping None (PVerification (i, address) False) now)"

definition observe_sender :: "env \<Rightarrow> dispatcher \<Rightarrow> node_id \<Rightarrow> socket_addr \<Rightarrow> bool \<Rightarrow> instant \<Rightarrow> dispatcher option" where
  "observe_sender en d i address read_only now =
     (case observe_query (dp_routing d) i address read_only now of
        None \<Rightarrow> None
      | Some (rt, VerificationRequired i a) \<Rightarrow> schedule_verification en (d\<lparr>dp_routing := rt\<rparr>) i a now
      | Some (rt, _) \<Rightarrow> Some (d\<lparr>dp_routing := rt\<rparr>))"

section \<open>\<open>get_peers\<close>, \<open>announce_peer\<close> and \<open>sample_infohashes\<close>\<close>

definition to_compact :: "socket_addr \<Rightarrow> compact_peer_address" where
  "to_compact a = (case a of SA4 ip p \<Rightarrow> PeerV4 (SocketV4 ip p) | SA6 ip p flow scope \<Rightarrow> PeerV6 (SocketV6 ip p flow scope))"

definition handle_get_peers :: "env \<Rightarrow> dispatcher \<Rightarrow> socket_addr \<Rightarrow> bytes \<Rightarrow> query_args \<Rightarrow> instant \<Rightarrow> dispatcher \<times> bool" where
  "handle_get_peers en d source t a now =
     (case qa_info_hash a of
        None \<Rightarrow> (send_error en d source t Protocol ''no info_hash'', False)
      | Some h \<Rightarrow>
         if qa_target a \<noteq> None \<or> qa_port a \<noteq> None \<or> qa_token a \<noteq> None \<or> qa_implied_port a \<noteq> None
         then (send_error en d source t Protocol ''get_peers arguments'', False)
         else case issue (en_mac en) (dp_tokens d) (sa_ip source) now (en_key en) of
           (tk, Inl _) \<Rightarrow> (send_error en (d\<lparr>dp_tokens := tk\<rparr>) source t Server ''no token'', False)
         | (tk, Inr token) \<Rightarrow>
            (let d = d\<lparr>dp_tokens := tk\<rparr>;
                 r = (node_response d (key_bytes h) (qa_want a) now)\<lparr>ra_token := Some token\<rparr>;
                 peers = sample_peers (en_pick_peers en) (dp_peers d) h (pc_response_peers (ps_config (dp_peers d))) now;
                 r = (if peers = [] then r else r\<lparr>ra_values := Some (map to_compact peers)\<rparr>)
             in send_response en d source t r))"

definition announced_port :: "socket_addr \<Rightarrow> query_args \<Rightarrow> u16 option" where
  "announced_port source a =
     (case (if qa_implied_port a = Some 1 then Some (sa_port source) else qa_port a) of
        None \<Rightarrow> None | Some p \<Rightarrow> if p \<noteq> 0 then Some p else None)"

definition note_announce :: "env \<Rightarrow> dispatcher \<Rightarrow> swarm_key \<Rightarrow> socket_addr \<Rightarrow> instant \<Rightarrow> dispatcher" where
  "note_announce en d h peer now =
     (case dp_fetch_ingress d of
        None \<Rightarrow> d
      | Some fi \<Rightarrow> d\<lparr>dp_fetch_ingress := Some (ingress_announce fi (en_ingress_paused en) (en_ingress_room en)
          \<lparr>ae_hash = h, ae_peer = peer, ae_observed_at = (case wall_at (dp_clock d) now of
             Inl _ \<Rightarrow> en_system_now en | Inr w \<Rightarrow> w)\<rparr>)\<rparr>)"

definition handle_announce_peer :: "env \<Rightarrow> dispatcher \<Rightarrow> socket_addr \<Rightarrow> bytes \<Rightarrow> query_args \<Rightarrow> instant
    \<Rightarrow> (dispatcher \<times> bool) option" where
  "handle_announce_peer en d source t a now =
     (case (qa_info_hash a, qa_token a) of
        (Some h, Some token) \<Rightarrow>
          if qa_target a \<noteq> None \<or> qa_want a \<noteq> [] \<or> \<not> (qa_implied_port a = None \<or> qa_implied_port a = Some 0 \<or> qa_implied_port a = Some 1)
          then Some (send_error en d source t Protocol ''announce_peer arguments'', False)
          else (case announced_port source a of
             None \<Rightarrow> Some (send_error en d source t Protocol ''no valid port'', False)
           | Some port \<Rightarrow>
              (let address = sa_new (sa_ip source) port in
               if \<not> ps_accepts (dp_peers d) address
               then Some (send_error en d source t Protocol ''peer address rejected'', False)
               else case validate (en_mac en) (dp_tokens d) (sa_ip source) token now (en_key en) of
                 (tk, Inl _) \<Rightarrow> Some (send_error en (d\<lparr>dp_tokens := tk\<rparr>) source t Server ''token not checked'', False)
               | (tk, Inr False) \<Rightarrow> Some (send_error en (d\<lparr>dp_tokens := tk\<rparr>) source t Protocol ''invalid token'', False)
               | (tk, Inr True) \<Rightarrow>
                  (case announce (dp_peers d) h address now of
                     None \<Rightarrow> None
                   | Some (ps, Inl _) \<Rightarrow> Some (send_error en (d\<lparr>dp_tokens := tk, dp_peers := ps\<rparr>) source t Server ''peer not stored'', False)
                   | Some (ps, Inr _) \<Rightarrow> Some (send_basic_response en
                       (note_announce en (d\<lparr>dp_tokens := tk, dp_peers := ps\<rparr>) h address now) source t))))
      | _ \<Rightarrow> Some (send_error en d source t Protocol ''no info_hash or token'', False))"

definition SAMPLE_INTERVAL :: duration where
  "SAMPLE_INTERVAL = secs 300"

definition MAX_SAMPLES :: nat where
  "MAX_SAMPLES = 32"

definition cache_sample :: "env \<Rightarrow> sample_cache \<Rightarrow> peer_store \<Rightarrow> instant \<Rightarrow> sample_cache" where
  "cache_sample en c ps now =
     (if (case sh_generated_at c of None \<Rightarrow> True | Some at \<Rightarrow> now - at \<ge> SAMPLE_INTERVAL)
      then \<lparr>sh_generated_at = Some now,
            sh_hashes = en_shuffle en (sample_infohashes (en_pick_hashes en) ps MAX_SAMPLES now)\<rparr>
      else c\<lparr>sh_hashes := filter (\<lambda>h. contains_active_infohash ps h now) (sh_hashes c)\<rparr>)"

definition handle_sample_infohashes :: "env \<Rightarrow> dispatcher \<Rightarrow> socket_addr \<Rightarrow> bytes \<Rightarrow> query_args \<Rightarrow> instant \<Rightarrow> dispatcher \<times> bool" where
  "handle_sample_infohashes en d source t a now =
     (case qa_target a of
        None \<Rightarrow> (send_error en d source t Protocol ''no target'', False)
      | Some target \<Rightarrow>
         if qa_info_hash a \<noteq> None \<or> qa_port a \<noteq> None \<or> qa_token a \<noteq> None \<or> qa_implied_port a \<noteq> None
         then (send_error en d source t Protocol ''sample_infohashes arguments'', False)
         else (let r = node_response d (id_bytes target) (qa_want a) now;
                   c = cache_sample en (dp_samples d) (dp_peers d) now;
                   d = d\<lparr>dp_samples := c\<rparr>;
                   r = r\<lparr>ra_samples := Some (sh_hashes c), ra_interval := Some 300,
                         ra_num := Some (of_nat (active_infohash_count (dp_peers d) now))\<rparr>
               in send_response en d source t r))"

section \<open>The query handler\<close>

definition serve :: "env \<Rightarrow> node_id \<Rightarrow> socket_addr \<Rightarrow> bool \<Rightarrow> instant \<Rightarrow> dispatcher \<times> bool \<Rightarrow> dispatcher option" where
  "serve en i source read_only now x =
     (case x of (d, ok) \<Rightarrow> if ok then observe_sender en d i source read_only now else Some d)"

definition handle_query :: "env \<Rightarrow> dispatcher \<Rightarrow> received_message \<Rightarrow> instant \<Rightarrow> dispatcher option" where
  "handle_query en d m now =
     (let source = rm_source m; k = rm_message m; t = km_t k in
      if km_r k \<noteq> None \<or> km_e k \<noteq> None \<or> \<not> (km_ro k = None \<or> km_ro k = Some 1)
      then Some (send_error en d source t Protocol ''query fields'')
      else case (km_q k, km_a k) of
        (Some method, Some a) \<Rightarrow>
          (let foreign = (qa_info_hash a \<noteq> None \<or> qa_port a \<noteq> None \<or> qa_token a \<noteq> None \<or> qa_implied_port a \<noteq> None);
               finish = serve en (qa_id a) source (km_ro k = Some 1) now
           in case method of
             Ping \<Rightarrow> if qa_target a \<noteq> None \<or> foreign then Some (send_error en d source t Protocol ''ping arguments'')
               else finish (send_basic_response en d source t)
           | FindNode \<Rightarrow> (case qa_target a of
                None \<Rightarrow> Some (send_error en d source t Protocol ''no target'')
              | Some target \<Rightarrow>
                  if foreign then Some (send_error en d source t Protocol ''find_node arguments'')
                  else finish (send_response en d source t (node_response d (id_bytes target) (qa_want a) now)))
           | GetPeers \<Rightarrow> finish (handle_get_peers en d source t a now)
           | AnnouncePeer \<Rightarrow> (case handle_announce_peer en d source t a now of None \<Rightarrow> None | Some x \<Rightarrow> finish x)
           | SampleInfohashes \<Rightarrow> finish (handle_sample_infohashes en d source t a now)
           | Unknown _ \<Rightarrow> Some (send_error en d source t MethodUnknown ''unknown method''))
      | _ \<Rightarrow> Some (send_error en d source t Protocol ''no q or a field''))"

end
