(* ===== verification/DispatcherRun.thy ===== *)
theory DispatcherRun imports DispatcherQuery begin

text \<open>
  The event loop: \<open>src/dht/dispatcher/runtime/driver.rs\<close>, the commands of \<open>runtime/commands.rs\<close>, the recovery of
  contacts and the change of identity of \<open>recovery.rs\<close>, and the parts of \<open>maintenance.rs\<close> and
  \<open>sampler/driver.rs\<close> that start queries. An event is what \<open>tokio::select\<close> delivers; each of the six stages
  of an iteration has its own surroundings, whose \<open>en_fresh\<close> is the clock read by the stage. The JSON of
  \<open>Command::Inspect\<close> is left out.
\<close>

section \<open>Recovery\<close>

definition recovery_capacity :: "dispatcher \<Rightarrow> bool" where
  "recovery_capacity d \<longleftrightarrow> occupied d < tm_max_pending (dp_transactions d) - reserve_for d"

fun keep_first_id :: "saved_contact list \<Rightarrow> node_id set \<Rightarrow> saved_contact list" where
  "keep_first_id [] seen = []"
| "keep_first_id (c # cs) seen = (if sv_id c \<in> seen then keep_first_id cs seen
     else c # keep_first_id cs (insert (sv_id c) seen))"

definition attach_storage :: "dispatcher \<Rightarrow> clock \<Rightarrow> local_identity \<Rightarrow> saved_contact list \<Rightarrow> restored_cooldown list
    \<Rightarrow> address_policy \<Rightarrow> instant \<Rightarrow> dispatcher \<times> (storage_error + unit)" where
  "attach_storage d ck identity contacts cooldowns policy now =
     (if li_node_id identity \<noteq> rt_local_id (dp_routing d) \<or> li_family identity \<noteq> rt_family (dp_routing d)
         \<or> length contacts > 2048
      then (d, Inl (Invalid ''identity mismatch''))
      else let d = d\<lparr>dp_identity_store := Some identity\<rparr> in
        case attach_sampler_storage (dp_sampler d) ck identity cooldowns now of
          (s, Inl e) \<Rightarrow> (d\<lparr>dp_sampler := s\<rparr>, Inl e)
        | (s, Inr _) \<Rightarrow> (d\<lparr>dp_sampler := s, dp_recovery := (dp_recovery d)
            \<lparr>rc_queued := keep_first_id (filter (\<lambda>c. sv_id c \<noteq> li_node_id identity
                 \<and> family_accepts (li_family identity) (sv_address c) \<and> policy_accepts policy (sv_address c)) contacts) {},
             rc_next := Some now\<rparr>\<rparr>, Inr ()))"

definition advance_recovery :: "env \<Rightarrow> dispatcher \<Rightarrow> instant \<Rightarrow> dispatcher option" where
  "advance_recovery en d now =
     (if (case recovery_deadline (dp_recovery d) (recovery_capacity d) of None \<Rightarrow> True | Some at \<Rightarrow> at > now) then Some d
      else case rc_queued (dp_recovery d) of
        [] \<Rightarrow> Some d
      | c # cs \<Rightarrow>
          start_query en (d\<lparr>dp_recovery := \<lparr>rc_queued = cs, rc_active = hm_put (sv_id c) c (rc_active (dp_recovery d)),
              rc_next = Some (now + secs 1)\<rparr>\<rparr>)
            \<lparr>rn_address = sv_address c, rn_expected_id = Some (sv_id c)\<rparr> Ping None (PRecovery (sv_id c)) now)"

definition saved_contacts :: "dispatcher \<Rightarrow> instant \<Rightarrow> storage_error + saved_contact list" where
  "saved_contacts d now =
     (let old = fold (\<lambda>c m. hm_put (sv_id c) c m) (rc_queued (dp_recovery d) @ hm_values (rc_active (dp_recovery d))) [] in
      case wall_at (dp_clock d) now of
        Inl e \<Rightarrow> Inl (clock_storage_error e)
      | Inr wall \<Rightarrow> and_then (routing_snapshot (dp_routing d) now wall) (\<lambda>cs.
          Inr (take 2048 (sort_key (\<lambda>c. (- sv_responded_at c, id_bytes (sv_id c)))
            (hm_values (fold (\<lambda>c m. hm_put (sv_id c) c m) cs old))))))"

text \<open>
  The change of identity. \<open>evs\<close> are the results of the database that the sampler waits for, and \<open>bound\<close> is
  what \<open>identity::bind\<close> returns. \<open>None\<close> also stands for a wait that \<open>evs\<close> does not end.
\<close>

definition sampler_fault :: "env \<Rightarrow> dispatcher \<Rightarrow> storage_error \<Rightarrow> dispatcher" where
  "sampler_fault en d e = d\<lparr>dp_sampler := mark_storage_fault (dp_sampler d) e (en_fresh en)\<rparr>"

definition rotate_identity :: "env \<Rightarrow> dispatcher \<Rightarrow> (storage_result \<times> instant) list \<Rightarrow> storage_error + local_identity \<Rightarrow> instant
    \<Rightarrow> dispatcher option" where
  "rotate_identity en d0 evs bound now =
     (case dp_pending_external_ip d0 of
        None \<Rightarrow> Some d0
      | Some ip \<Rightarrow>
         (let d = d0\<lparr>dp_pending_external_ip := None\<rparr> in
          case dp_identity_store d of
            None \<Rightarrow> Some d
          | Some _ \<Rightarrow>
             (case saved_contacts d (en_fresh en) of
                Inl e \<Rightarrow> Some (sampler_fault en d e)
              | Inr contacts \<Rightarrow>
                 (case cancel_for_identity en (d\<lparr>dp_identity_paused := True\<rparr>) of
                    None \<Rightarrow> None
                  | Some d \<Rightarrow>
                     (case prepare_identity_change (dp_sampler d) evs now (en_random en) of
                        None \<Rightarrow> None
                      | Some (s, Inl e) \<Rightarrow> Some (sampler_fault en (d\<lparr>dp_sampler := s\<rparr>) e)
                      | Some (s, Inr _) \<Rightarrow>
                         (case bound of
                            Inl e \<Rightarrow> Some (sampler_fault en (d\<lparr>dp_sampler := s\<rparr>) e)
                          | Inr identity \<Rightarrow> Some (d\<lparr>dp_identity_store := Some identity,
                              dp_sampler := identity_changed s identity,
                              dp_routing := new_table (li_node_id identity) (li_family identity) now,
                              dp_recovery := \<lparr>rc_queued = contacts, rc_active = [], rc_next = Some now\<rparr>,
                              dp_maintenance := maintenance_new (ms_config (dp_maintenance d)) now,
                              dp_security := committed (dp_security d) ip now,
                              dp_identity_paused := False\<rparr>)))))))"

section \<open>Maintenance\<close>

fun query_each :: "env \<Rightarrow> dispatcher \<Rightarrow> node_id \<Rightarrow> node_contact list \<Rightarrow> instant \<Rightarrow> dispatcher option" where
  "query_each en d target [] now = Some d"
| "query_each en d target (n # ns) now =
     (if \<not> policy_accepts (dp_policy d) (nc_address n) then
        (if ms_lookup (dp_maintenance d) = None then None
         else query_each en (update_lookup d (\<lambda>l. complete_failure l (nc_id n))) target ns now)
      else case start_query en d (node_target n) FindNode (Some target) (PMaintenanceLookup (nc_id n)) now of
        None \<Rightarrow> None | Some d \<Rightarrow> query_each en d target ns now)"

definition finish_lookup :: "dispatcher \<Rightarrow> instant \<Rightarrow> dispatcher option" where
  "finish_lookup d now =
     map_option (\<lambda>(ms, rt). d\<lparr>dp_maintenance := ms, dp_routing := rt\<rparr>)
       (finish_if_complete (dp_maintenance d) (dp_routing d) now)"

definition advance_maintenance :: "env \<Rightarrow> dispatcher \<Rightarrow> instant \<Rightarrow> dispatcher option" where
  "advance_maintenance en d now =
     (case finish_lookup (d\<lparr>dp_maintenance := begin_if_due (dp_maintenance d) (dp_routing d) now (id_bytes (en_random en))\<rparr>) now of
        None \<Rightarrow> None
      | Some d \<Rightarrow>
         (case ms_lookup (dp_maintenance d) of
            None \<Rightarrow> Some d
          | Some l \<Rightarrow>
             (let capacity = tm_max_pending (dp_transactions d) - reserve_for d - occupied d in
              case take_next l (ms_config (dp_maintenance d)) capacity of
                None \<Rightarrow> None
              | Some (l', nodes) \<Rightarrow>
                 (case query_each en (d\<lparr>dp_maintenance := (dp_maintenance d)\<lparr>ms_lookup := Some l'\<rparr>\<rparr>) (il_target l) nodes now of
                    None \<Rightarrow> None | Some d \<Rightarrow> finish_lookup d now))))"

section \<open>Sampling\<close>

definition advance_sampling :: "env \<Rightarrow> dispatcher \<Rightarrow> instant \<Rightarrow> dispatcher option" where
  "advance_sampling en d now =
     (if dp_sampling_paused d then Some d
      else if sa_session (dp_sampler d) \<noteq> None \<and> en_output_closed en then stop_sampling en d now
      else let capacity = tm_max_pending (dp_transactions d) - reserve_for d - occupied d in
        case advance_sampler (dp_sampler d) (dp_routing d) capacity now (en_fresh en) (en_slot en) (en_random en) of
          None \<Rightarrow> None
        | Some (s, None) \<Rightarrow> Some (d\<lparr>dp_sampler := s\<rparr>)
        | Some (s, Some r) \<Rightarrow>
            start_query en (d\<lparr>dp_sampler := s\<rparr>)
              \<lparr>rn_address = dn_address (rq_node r), rn_expected_id = Some (dn_id (rq_node r))\<rparr>
              (if rq_kind r = FindNodeFallback then FindNode else SampleInfohashes) (Some (rq_target r)) (PSampling r) now)"

section \<open>Commands\<close>

datatype command =
  CGetPeers remote_node swarm_key
| CFetchSeeds swarm_key
| CFetchIngress "fetch_ingress option"
| CSamplingPause bool
| CRoutingSnapshot
| CStoragePause storage_error
| CStartSampling sampler_config
| CStopSampling
| CBootstrapPing remote_node
| CStatus

definition dispatcher_status :: "dispatcher \<Rightarrow> instant \<Rightarrow> dht_status" where
  "dispatcher_status d now =
     (let nodes = closest_usable (dp_routing d) (rt_local_id (dp_routing d)) (2 ^ 64 - 1) now;
          good_count = length (filter (\<lambda>c. contact_status c now = Good) nodes);
          (queued, active) = recovery_counts (dp_recovery d)
      in \<lparr>ds_node_id = rt_local_id (dp_routing d), ds_family = rt_family (dp_routing d), ds_good = good_count,
          ds_questionable = length nodes - good_count, ds_recovery_queued = queued, ds_recovery_active = active,
          ds_pending = occupied d, ds_sampler = sa_status (dp_sampler d), ds_collector_paused = dp_sampling_paused d\<rparr>)"

definition handle_command :: "env \<Rightarrow> dispatcher \<Rightarrow> nat \<Rightarrow> command \<Rightarrow> instant \<Rightarrow> dispatcher option" where
  "handle_command en d c cmd now =
     (case cmd of
        CGetPeers remote h \<Rightarrow>
          if en_gone en c then Some (answer d c RReclaimed)
          else if \<not> policy_accepts (dp_policy d) (rn_address remote) \<or> \<not> family_accepts (rt_family (dp_routing d)) (rn_address remote)
          then Some (answer d c (RPeers (Inl (InvalidResponse ''get_peers target''))))
          else if occupied d \<ge> tm_max_pending (dp_transactions d) - 1
          then Some (answer (note_limited d (PFetch c)) c (RPeers (Inl (QueryAtCapacity (tm_max_pending (dp_transactions d) - 1)))))
          else start_rpc en d remote (OutGetPeers h) (PFetch c) now
      | CFetchSeeds h \<Rightarrow> Some (answer d c (RSeeds (map (\<lambda>n. \<lparr>dn_id = nc_id n, dn_address = nc_address n\<rparr>)
          (filter (\<lambda>n. policy_accepts (dp_policy d) (nc_address n)) (closest_usable (dp_routing d) (NodeId (key_bytes h)) 256 now)))))
      | CFetchIngress fi \<Rightarrow> Some (answer (d\<lparr>dp_fetch_ingress := fi\<rparr>) c RDone)
      | CSamplingPause paused \<Rightarrow>
          map_option (\<lambda>d. answer d c RDone)
            (let d = d\<lparr>dp_sampling_paused := paused\<rparr> in if paused then discard_queued_sampling en d now else Some d)
      | CRoutingSnapshot \<Rightarrow> Some (answer d c (RSnapshot (saved_contacts d (en_fresh en))))
      | CStoragePause e \<Rightarrow> map_option (\<lambda>d. answer (sampler_fault en d e) c RDone) (stop_sampling en d now)
      | CStartSampling cfg \<Rightarrow>
          (let available = tm_max_pending (dp_transactions d) - reserve_for d;
               (s, result) = sampler_start (en_max_permits en) (dp_sampler d) cfg (available + 1) now (en_random en)
           in Some (answer (d\<lparr>dp_sampler := s\<rparr>) c (RStarted result)))
      | CStopSampling \<Rightarrow> map_option (\<lambda>d. answer d c RDone) (stop_sampling en d now)
      | CBootstrapPing remote \<Rightarrow>
          if \<not> recovery_capacity d
          then Some (answer d c (RPing (Inl (QueryAtCapacity (tm_max_pending (dp_transactions d) - 1)))))
          else start_query en d remote Ping None (PUserPing c) now
      | CStatus \<Rightarrow> Some (answer d c (RStatus (dispatcher_status d now))))"

section \<open>The loop\<close>

definition handle_received :: "env \<Rightarrow> dispatcher \<Rightarrow> received_message \<Rightarrow> instant \<Rightarrow> dispatcher option" where
  "handle_received en d m now =
     (case km_y (rm_message m) of
        Query \<Rightarrow> handle_query en d m now
      | Response \<Rightarrow> handle_response en d m now
      | Error \<Rightarrow> handle_error en d m now)"

definition handle_datagram :: "env \<Rightarrow> dispatcher \<Rightarrow> datagram \<Rightarrow> instant \<Rightarrow> dispatcher option" where
  "handle_datagram en d dg now =
     (let pending_source = list_ex (\<lambda>p. rn_address (pd_remote p) = dg_source dg) (hm_values (dp_pending d)) in
      case inbound (en_gcra en) (dp_budget d) (sa_ip (dg_source dg)) (length (dg_bytes dg)) pending_source (en_fresh en) of
        None \<Rightarrow> None
      | Some (b, False) \<Rightarrow> Some (d\<lparr>dp_budget := b\<rparr>)
      | Some (b, True) \<Rightarrow>
         (case datagram_decode (en_reader en) (en_describe en) (en_parse en) dg of
            None \<Rightarrow> None
          | Some (Inl _) \<Rightarrow> Some (d\<lparr>dp_budget := b\<rparr>)
          | Some (Inr m) \<Rightarrow>
             if \<not> pending_source \<or> km_y (rm_message m) \<noteq> Query then handle_received en (d\<lparr>dp_budget := b\<rparr>) m now
             else (case disguised_query (en_gcra en) b (sa_ip (rm_source m)) (en_fresh en) of
               None \<Rightarrow> None
             | Some (b, False) \<Rightarrow> Some (d\<lparr>dp_budget := b\<rparr>)
             | Some (b, True) \<Rightarrow> handle_received en (d\<lparr>dp_budget := b\<rparr>) m now)))"

datatype event =
  ECancelled
| EDeadline
| EStorage storage_result
| EPermit bool
| EDatagram datagram
| ETransportError udp_error
| ECommand nat command
| EShutdown nat
| ECommandsClosed
| EExpire
| EPeersExpire

datatype flow = Running dispatcher | Stopped dispatcher "udp_error option"

definition running :: "dispatcher option \<Rightarrow> flow option" where
  "running x = map_option Running x"

definition handle_event :: "env \<Rightarrow> dispatcher \<Rightarrow> event \<Rightarrow> flow option" where
  "handle_event en d ev =
     (case ev of
        ECancelled \<Rightarrow> running (cancel_fetch_queries en d)
      | EDeadline \<Rightarrow> running (Some d)
      | EStorage result \<Rightarrow> running (Some (d\<lparr>dp_sampler := storage_event (dp_sampler d) result (en_fresh en)\<rparr>))
      | EPermit got \<Rightarrow> running (if got then Some (d\<lparr>dp_sampler := accept_permit (dp_sampler d)\<rparr>)
          else stop_sampling en d (en_fresh en))
      | EDatagram dg \<Rightarrow> running (handle_datagram en d dg (en_fresh en))
      | ETransportError e \<Rightarrow>
          (case e of
             Decode _ _ \<Rightarrow> running (Some d)
           | MessageTooLarge (Some _) _ _ \<Rightarrow> running (Some d)
           | _ \<Rightarrow> map_option (\<lambda>d. Stopped d (Some e)) (close_pending en d))
      | ECommand c cmd \<Rightarrow> running (handle_command en d c cmd (en_fresh en))
      | EShutdown c \<Rightarrow> map_option (\<lambda>d. Stopped (answer d c RDone) None) (close_pending en d)
      | ECommandsClosed \<Rightarrow> map_option (\<lambda>d. Stopped d None) (close_pending en d)
      | EExpire \<Rightarrow> running (expire_pending en d (en_fresh en))
      | EPeersExpire \<Rightarrow> running (map_option (\<lambda>ps. d\<lparr>dp_peers := ps\<rparr>) (ps_expire (dp_peers d) (en_fresh en) 256)))"

fun stages :: "(dispatcher \<Rightarrow> dispatcher option) list \<Rightarrow> dispatcher \<Rightarrow> dispatcher option" where
  "stages [] d = Some d"
| "stages (f # fs) d = (case f d of None \<Rightarrow> None | Some d \<Rightarrow> stages fs d)"

definition loop_iteration :: "(nat \<Rightarrow> env) \<Rightarrow> dispatcher \<Rightarrow> event \<Rightarrow> (storage_result \<times> instant) list
    \<Rightarrow> storage_error + local_identity \<Rightarrow> flow option" where
  "loop_iteration en d ev evs bound =
     (case handle_event (en 0) d ev of
        None \<Rightarrow> None
      | Some (Stopped d e) \<Rightarrow> Some (Stopped d e)
      | Some (Running d) \<Rightarrow>
         (case rotate_identity (en 1) d evs bound (en_fresh (en 1)) of
            None \<Rightarrow> None
          | Some d \<Rightarrow>
              if dp_identity_paused d then Some (Running d)
              else running (stages [\<lambda>d. advance_outbound (en 2) d (en_fresh (en 2)),
                \<lambda>d. advance_maintenance (en 3) d (en_fresh (en 3)), \<lambda>d. advance_recovery (en 4) d (en_fresh (en 4)),
                \<lambda>d. advance_sampling (en 5) d (en_fresh (en 5))] d)))"

end
