(* ===== verification/DispatcherBudget.thy ===== *)
theory DispatcherBudget imports DispatcherRun begin

text \<open>
  What the dispatcher holds of the shared traffic budget: the tickets of its queue and the places of its
  verifications. The budget belongs to all nodes of a session, so its gauges are at least what this one holds.
\<close>

definition budget_held :: "budget \<Rightarrow> queue_record list \<Rightarrow> nat \<Rightarrow> bool" where
  "budget_held b qs n \<longleftrightarrow> budget_inv b \<and> length (bu_queued_current b) = 4 \<and>
     (\<forall>k<4. alive qs k \<le> bu_queued_current b ! k) \<and> (\<forall>q\<in>set qs. qr_outcome q < 4) \<and> n \<le> bu_verification_queued b"

definition same_gauges :: "budget \<Rightarrow> budget \<Rightarrow> bool" where
  "same_gauges b b' \<longleftrightarrow> budget_inv b' \<and> bu_queued_current b' = bu_queued_current b \<and>
     bu_verification_queued b' = bu_verification_queued b"

lemma held_inv: "budget_held b qs n \<Longrightarrow> budget_inv b"
  by (simp add: budget_held_def)

lemma held_same: "budget_held b qs n \<Longrightarrow> same_gauges b b' \<Longrightarrow> budget_held b' qs n"
  by (simp add: budget_held_def same_gauges_def)

lemma held_less: "budget_held b qs n \<Longrightarrow> m \<le> n \<Longrightarrow> budget_held b qs m"
  by (simp add: budget_held_def)

lemma held_mset: "budget_held b qs n \<Longrightarrow> mset qs' = mset qs \<Longrightarrow> budget_held b qs' n"
proof -
  assume h: "budget_held b qs n" and m: "mset qs' = mset qs"
  then have "alive qs' k = alive qs k" for k by (metis alive_def mset_filter size_mset)
  then show ?thesis using h m unfolding budget_held_def by (metis set_mset_mset)
qed

lemma same_trans: "same_gauges a b \<Longrightarrow> same_gauges b c \<Longrightarrow> same_gauges a c"
  by (simp add: same_gauges_def)

lemma same_update [simp]: "budget_inv b \<Longrightarrow> same_gauges b (update_stats f b)"
  by (simp add: same_gauges_def budget_inv_def) (simp add: update_stats_def)

lemma same_counters [simp]:
  assumes "budget_inv b"
  shows "same_gauges b (verification_duplicate b)" "same_gauges b (verification_result b ok)" "same_gauges b (validated b ip)"
    "same_gauges b (sent b cl n)" "same_gauges b (inflight_cancelled b cl)" "same_gauges b (count_drop b)"
    "same_gauges b (reply_sent b n)"
  using assms by (simp_all add: verification_duplicate_def verification_result_def update_verification_def validated_def
      sent_def inflight_cancelled_def count_drop_def reply_sent_def)

lemma track_gauges:
  assumes "budget_inv b"
  shows "\<exists>c ok. track b ip now = Some (c, ok) \<and> same_gauges b c \<and> (ok \<longrightarrow> (\<exists>s. hm_get (bu_ips c) ip = Some s))"
proof -
  obtain c ok where c: "track b ip now = Some (c, ok)" "keeps now b c" "ok \<longrightarrow> (\<exists>s. hm_get (bu_ips c) ip = Some s)"
    "bu_verification_queued c = bu_verification_queued b" using track_effect [OF assms] by blast
  have "bu_queued_current c = bu_queued_current b"
    using c(1) by (auto simp: track_def clean_def Let_def split: if_splits option.splits)
  then show ?thesis using c by (auto simp: same_gauges_def keeps_def)
qed

lemma query_gauges:
  assumes "budget_inv b"
  shows "\<exists>b' d. query_observed gcra b cl ip bytes now = Some (b', d) \<and> same_gauges b b'"
proof -
  obtain c ok where c: "track b ip now = Some (c, ok)" "same_gauges b c" "ok \<longrightarrow> (\<exists>s. hm_get (bu_ips c) ip = Some s)"
    using track_gauges [OF assms] by blast
  obtain b' d where q: "query_observed gcra b cl ip bytes now = Some (b', d)" "keeps now b b'"
    using query_keeps [OF assms] by blast
  have "same_gauges c b'"
  proof (cases ok)
    case True
    then obtain s where "hm_get (bu_ips c) ip = Some s" using c(3) by blast
    from query_result [OF _ this, of b now gcra cl bytes] q c(1) True show ?thesis
      by (auto simp: same_gauges_def keeps_def)
  next
    case False
    then show ?thesis using q c by (auto simp: query_observed_def same_gauges_def)
  qed
  then show ?thesis using q same_trans [OF c(2)] by blast
qed

lemma ordinary_gauges:
  assumes "budget_inv b"
  shows "\<exists>b' ok. ordinary gcra b ip now = Some (b', ok) \<and> same_gauges b b'"
proof -
  obtain c ok where c: "track b ip now = Some (c, ok)" "same_gauges b c" "ok \<longrightarrow> (\<exists>s. hm_get (bu_ips c) ip = Some s)"
    using track_gauges [OF assms] by blast
  obtain b' r where o: "ordinary gcra b ip now = Some (b', r)" "keeps now b b'"
    using ordinary_keeps [OF assms] by blast
  have "bu_queued_current b' = bu_queued_current c" "bu_verification_queued b' = bu_verification_queued c"
    using o(1) c(1) by (auto simp: ordinary_def Let_def split: bool.splits option.splits prod.splits if_splits)
  then show ?thesis using o c(2) by (auto simp: same_gauges_def keeps_def)
qed

lemma inbound_gauges:
  assumes "budget_inv b"
  shows "\<exists>b' ok. inbound gcra b ip n pending now = Some (b', ok) \<and> same_gauges b b'"
proof (cases pending)
  case True
  obtain l w where "limiter_check gcra (bu_responses b) 1 True now = (l, w)" by fastforce
  then show ?thesis using assms True
    by (simp add: inbound_def same_gauges_def budget_inv_def ex_bool_eq) (simp add: update_stats_def)
next
  case False
  obtain b' ok where "ordinary gcra b ip now = Some (b', ok)" "same_gauges b b'" using ordinary_gauges [OF assms] by blast
  then show ?thesis using False same_trans [OF _ same_update] by (auto simp: inbound_def same_gauges_def)
qed

lemma disguised_gauges:
  assumes "budget_inv b"
  shows "\<exists>b' ok. disguised_query gcra b ip now = Some (b', ok) \<and> same_gauges b b'"
proof -
  obtain b' ok where o: "ordinary gcra b ip now = Some (b', ok)" "same_gauges b b'" using ordinary_gauges [OF assms] by blast
  then have "budget_inv b'" by (simp add: same_gauges_def)
  then have "same_gauges b (count_drop b')" using same_trans [OF o(2) same_counters(6)] by blast
  then show ?thesis using o by (cases ok) (auto simp: disguised_query_def)
qed

lemma reply_gauges:
  assumes "budget_inv b" and "reply gcra b n now = (b', ok)"
  shows "same_gauges b b'"
proof -
  obtain l w where l: "limiter_check gcra (bu_reply_bytes b) (n mod 2 ^ 32) True now = (l, w)" by fastforce
  have s: "same_gauges b (b\<lparr>bu_reply_bytes := l\<rparr>)" using assms(1) by (simp add: same_gauges_def budget_inv_def)
  then have "budget_inv (b\<lparr>bu_reply_bytes := l\<rparr>)" by (simp add: same_gauges_def)
  then have "same_gauges b (count_drop (b\<lparr>bu_reply_bytes := l\<rparr>))" using same_trans [OF s same_counters(6)] by blast
  then show ?thesis using assms(2) s l by (auto simp: reply_def Let_def split: if_splits)
qed

lemma admit_held:
  assumes "budget_held b qs n"
  shows "\<exists>b' ok. admit_verification b ip now = Some (b', ok) \<and> budget_held b' qs (if ok then Suc n else n)"
proof -
  have inv: "budget_inv b" using assms by (rule held_inv)
  obtain c t where c: "track b ip now = Some (c, t)" "same_gauges b c" "t \<longrightarrow> (\<exists>s. hm_get (bu_ips c) ip = Some s)"
    using track_gauges [OF inv] by blast
  obtain b' ok where a: "admit_verification b ip now = Some (b', ok)" "keeps now b b'" using admit_keeps [OF inv] by blast
  have "bu_queued_current b' = bu_queued_current c \<and>
      bu_verification_queued b' = bu_verification_queued c + (if ok then 1 else 0)"
  proof (cases t)
    case True
    then obtain s where "hm_get (bu_ips c) ip = Some s" using c(3) by blast
    then show ?thesis using a(1) c(1) True
      by (auto simp: admit_verification_def update_verification_def update_stats_def split: if_splits)
  next
    case False
    then show ?thesis using a(1) c(1)
      by (auto simp: admit_verification_def update_verification_def update_stats_def)
  qed
  then show ?thesis using a c(2) assms by (auto simp: budget_held_def same_gauges_def keeps_def)
qed

lemma drop_permit_held: "budget_held b qs (Suc n) \<Longrightarrow> \<exists>b'. drop_permit b = Some b' \<and> budget_held b' qs n"
  by (auto simp: drop_permit_def budget_held_def budget_inv_def)

lemma return_permit_held:
  "budget_held b qs (n + of_bool permit) \<Longrightarrow> \<exists>b'. return_permit permit b = Some b' \<and> budget_held b' qs n"
  using drop_permit_held [of b qs n] by (cases permit) (auto simp: return_permit_def)

lemma alive_Cons: "alive (q # qs) k = (if class_index (qr_class q) = k then Suc (alive qs k) else alive qs k)"
  by (simp add: alive_def)

lemma alive_append [simp]: "alive (xs @ ys) k = alive xs k + alive ys k"
  by (simp add: alive_def)

lemma ticket_new_held:
  assumes "budget_held b qs n" and "queue_ticket b cl now = (b', q)"
  shows "budget_held b' (q # qs) n"
proof -
  have b': "bu_queued_current b' = bump (class_index cl) 1 (bu_queued_current b)" "budget_inv b' = budget_inv b"
    "bu_verification_queued b' = bu_verification_queued b" "qr_class q = cl" "qr_outcome q = 1"
    using assms(2) by (auto simp: queue_ticket_def update_stats_def budget_inv_def)
  show ?thesis using assms(1) unfolding budget_held_def b'
    by (auto simp: b' alive_Cons bump_nth)
qed

lemma ticket_blocked_held:
  assumes "budget_held b (q # qs) n" and "ticket_blocked b q reasons = (b', q')"
  shows "budget_held b' (q' # qs) n" "qr_outcome q' = qr_outcome q"
proof -
  have "same_gauges b b'" "qr_class q' = qr_class q" "qr_outcome q' = qr_outcome q"
    using assms held_inv [OF assms(1)] same_update [of b] by (auto simp: ticket_blocked_def Let_def)
  then show "budget_held b' (q' # qs) n" "qr_outcome q' = qr_outcome q" using held_same [OF assms(1)]
    by (auto simp: budget_held_def alive_Cons)
qed

lemma ticket_finish_held: "budget_held b (q # qs) n \<Longrightarrow> k < 4 \<Longrightarrow> budget_held b (ticket_finish q k # qs) n"
  by (auto simp: budget_held_def alive_Cons ticket_finish_def)

lemma ticket_drop_held:
  assumes "budget_held b (q # qs) n"
  shows "\<exists>b'. ticket_drop b q now = Some b' \<and> budget_held b' qs n"
proof -
  let ?k = "class_index (qr_class q)"
  have h: "alive (q # qs) ?k \<le> bu_queued_current b ! ?k" "qr_outcome q < 4" "length (bu_queued_current b) = 4"
    using assms by (simp_all add: budget_held_def)
  then have pos: "bu_queued_current b ! ?k \<noteq> 0" by (simp add: alive_Cons)
  then obtain b' where b': "ticket_drop b q now = Some b'" using h(2) by (simp add: ticket_drop_def Let_def)
  have f: "bu_queued_current b' = (bu_queued_current b)[?k := bu_queued_current b ! ?k - 1]" "budget_inv b' = budget_inv b"
    "bu_verification_queued b' = bu_verification_queued b"
    using b' by (auto simp: ticket_drop_def update_stats_def Let_def budget_inv_def split: if_splits)
  have "alive qs k \<le> bu_queued_current b' ! k" if "k < 4" for k
  proof -
    have "alive (q # qs) k \<le> bu_queued_current b ! k" using assms that by (simp add: budget_held_def)
    then show ?thesis using h(3) that unfolding f by (auto simp: alive_Cons nth_list_update split: if_splits)
  qed
  then show ?thesis using b' assms f by (auto simp: budget_held_def)
qed

end
