(* ===== verification/SamplerInv.thy ===== *)
theory SamplerInv imports Sampler begin

text \<open>
  The invariant of the sampler together with the requests that the dispatcher holds for it, and its
  preservation by each operation of theory Sampler. \<open>s_inv s L\<close>: the in-flight map of the session is exactly
  the set of outstanding requests, namely the list \<open>L\<close> held by the dispatcher and the request that waits for its
  reservation; its nodes and addresses are pairwise distinct and tracked by the cooldown maps; every bound of
  the configuration holds. The only request that may outlive its session is one whose reservation is still in
  progress, and then nothing is in flight.
\<close>

section \<open>The invariant\<close>

abbreviation rq_id :: "request \<Rightarrow> node_id" where
  "rq_id r \<equiv> dn_id (rq_node r)"

abbreviation rq_ip :: "request \<Rightarrow> ip_addr" where
  "rq_ip r \<equiv> node_ip (rq_node r)"

definition rq_key :: "request \<Rightarrow> node_id \<times> ip_addr" where
  "rq_key r = (rq_id r, rq_ip r)"

definition ready_of :: "sampler \<Rightarrow> request option" where
  "ready_of s = (case sa_durable s of None \<Rightarrow> None | Some d \<Rightarrow> du_ready d)"

definition reserving_of :: "sampler \<Rightarrow> request option" where
  "reserving_of s = (case sa_durable s of None \<Rightarrow> None | Some d \<Rightarrow> map_option rv_request (du_reserving d))"

definition waiting :: "sampler \<Rightarrow> request list" where
  "waiting s = (case reserving_of s of None \<Rightarrow> []
       | Some r \<Rightarrow> if rq_generation r = sa_generation s then [r] else [])
     @ (case ready_of s of None \<Rightarrow> [] | Some r \<Rightarrow> [r])"

definition stale :: "sampler \<Rightarrow> bool" where
  "stale s \<longleftrightarrow> (\<exists>r. reserving_of s = Some r \<and> rq_generation r \<noteq> sa_generation s)"

definition cands_ok :: "sampling_session \<Rightarrow> bool" where
  "cands_ok se \<longleftrightarrow> hm_ok (se_candidates se) \<and> (\<forall>(i, c)\<in>set (se_candidates se). dn_id (ca_node c) = i \<and> id_ok i)
     \<and> hm_ok (se_in_flight se) \<and> fst ` set (se_in_flight se) \<subseteq> fst ` set (se_candidates se)"

definition se_ok :: "sampling_session \<Rightarrow> bool" where
  "se_ok se \<longleftrightarrow> cands_ok se \<and> distinct (map snd (se_in_flight se))
     \<and> length (se_in_flight se) \<le> sc_parallelism (se_config se)
     \<and> length (se_candidates se) \<le> sc_candidate_capacity (se_config se)
     \<and> sc_parallelism (se_config se) \<le> sc_candidate_capacity (se_config se)
     \<and> se_queries se \<le> sc_max_queries (se_config se)"

definition tracked :: "(node_id, cooldown) hmap \<Rightarrow> (ip_addr, instant) hmap \<Rightarrow> sampling_session \<Rightarrow> bool" where
  "tracked idm ipm se \<longleftrightarrow> fst ` set (se_in_flight se) \<subseteq> fst ` set idm \<and> snd ` set (se_in_flight se) \<subseteq> fst ` set ipm
     \<and> length idm \<le> sc_cooldown_capacity (se_config se) \<and> length ipm \<le> sc_cooldown_capacity (se_config se)"

definition linked :: "sampler \<Rightarrow> sampling_session \<Rightarrow> request list \<Rightarrow> bool" where
  "linked s se L \<longleftrightarrow> mset (map rq_key (L @ waiting s)) = mset (se_in_flight se)
     \<and> (\<forall>r\<in>set (L @ waiting s). rq_permit r \<and> rq_generation r = sa_generation s)
     \<and> (stale s \<longrightarrow> se_in_flight se = [])"

definition s_inv :: "sampler \<Rightarrow> request list \<Rightarrow> bool" where
  "s_inv s L \<longleftrightarrow> hm_ok (sa_ids s) \<and> hm_ok (sa_ips s) \<and>
     (case sa_session s of
        None \<Rightarrow> storage_fault s = None \<longrightarrow> L = [] \<and> ready_of s = None
      | Some se \<Rightarrow> storage_fault s = None \<and> se_ok se \<and> tracked (sa_ids s) (sa_ips s) se \<and> linked s se L)"

text \<open>With a database, a sample query is held only with a confirmed reservation.\<close>

definition leased :: "sampler \<Rightarrow> request list \<Rightarrow> bool" where
  "leased s L \<longleftrightarrow> (sa_durable s \<noteq> None \<longrightarrow>
     (\<forall>r\<in>set L \<union> set_option (ready_of s). rq_kind r = Sample \<longrightarrow> rq_lease r \<noteq> None))"

lemma leased_subset: "leased s L \<Longrightarrow> set L' \<subseteq> set L \<Longrightarrow> leased s L'"
  by (auto simp: leased_def)

lemma hm_keys_put: "fst ` set (hm_put k v m) = insert k (fst ` set m)"
proof -
  have "set (map fst (hm_put k v m)) = insert k (set (map fst m))"
    by (simp only: hm_put_keys) (auto simp: hm_get_None)
  then show ?thesis by simp
qed

lemma hm_keys_remove: "fst ` set (hm_remove k m) = fst ` set m - {k}"
  by (auto simp: hm_set_remove)

lemma length_put_known: "k \<in> fst ` set m \<Longrightarrow> length (hm_put k v m) = length m"
  by (simp add: length_hm_put hm_get_None)

lemma hm_has_iff: "hm_has m k \<longleftrightarrow> k \<in> fst ` set m"
  by (simp add: hm_has_def hm_get_None)

section \<open>Updates that do not touch the session\<close>

lemma waiting_cong:
  "sa_durable s' = sa_durable s \<Longrightarrow> sa_generation s' = sa_generation s \<Longrightarrow>
     waiting s' = waiting s \<and> stale s' = stale s \<and> ready_of s' = ready_of s"
  by (simp add: waiting_def stale_def ready_of_def reserving_of_def cong: option.case_cong)

lemma inv_cong:
  assumes "s_inv s L" and "sa_durable s' = sa_durable s" and "sa_generation s' = sa_generation s"
    and "sa_session s' = sa_session s" and "sa_ids s' = sa_ids s" and "sa_ips s' = sa_ips s"
    and "storage_fault s' = storage_fault s"
  shows "s_inv s' L"
  using assms waiting_cong [OF assms(2,3)] by (simp add: s_inv_def linked_def split: option.splits)

lemma inv_pause [simp]: "s_inv (pause_with p s) L = s_inv s L"
  by (rule iffI; erule inv_cong) (simp_all add: pause_with_def)

lemma inv_deadline [simp]: "s_inv (s\<lparr>sa_deadline := x\<rparr>) L = s_inv s L"
  by (rule iffI; erule inv_cong) simp_all

lemma inv_status: "ss_storage_error st = storage_fault s \<Longrightarrow> s_inv (s\<lparr>sa_status := st\<rparr>) L = s_inv s L"
  by (rule iffI; erule inv_cong) simp_all

lemma pause_fields [simp]:
  "sa_durable (pause_with p s) = sa_durable s" "sa_session (pause_with p s) = sa_session s"
  "sa_ids (pause_with p s) = sa_ids s" "sa_ips (pause_with p s) = sa_ips s"
  "sa_generation (pause_with p s) = sa_generation s" "storage_fault (pause_with p s) = storage_fault s"
  by (simp_all add: pause_with_def)

text \<open>Requests that leave a stopped sampler do not matter.\<close>

lemma inv_stopped: "sa_session s = None \<Longrightarrow> storage_fault s \<noteq> None \<Longrightarrow> s_inv s L \<longleftrightarrow> hm_ok (sa_ids s) \<and> hm_ok (sa_ips s)"
  by (auto simp: s_inv_def)

lemma inv_none: "sa_session s = None \<Longrightarrow> s_inv s L \<Longrightarrow> set L' \<subseteq> set L \<Longrightarrow> s_inv s L'"
  by (auto simp: s_inv_def)

lemma push_fields [simp]:
  "sa_session (push_settlement x s) = sa_session s" "sa_ids (push_settlement x s) = sa_ids s"
  "sa_ips (push_settlement x s) = sa_ips s" "sa_generation (push_settlement x s) = sa_generation s"
  "sa_status (push_settlement x s) = sa_status s" "ready_of (push_settlement x s) = ready_of s"
  "reserving_of (push_settlement x s) = reserving_of s" "waiting (push_settlement x s) = waiting s"
  "stale (push_settlement x s) = stale s" "sa_durable (push_settlement x s) = None \<longleftrightarrow> sa_durable s = None"
  by (simp_all add: push_settlement_def waiting_def stale_def ready_of_def reserving_of_def split: option.split)

lemma inv_push [simp]: "s_inv (push_settlement x s) L = s_inv s L"
  by (simp add: s_inv_def linked_def split: option.split)

lemma leased_push [simp]: "leased (push_settlement x s) L = leased s L"
  by (simp add: leased_def)

section \<open>Cooldowns\<close>

lemma cool_keys:
  "fst ` set (cool_id m i t f) = insert i (fst ` set m)" "fst ` set (cool_ip n ip t) = insert ip (fst ` set n)"
  "hm_ok m \<Longrightarrow> hm_ok (cool_id m i t f)" "hm_ok n \<Longrightarrow> hm_ok (cool_ip n ip t)"
  "i \<in> fst ` set m \<Longrightarrow> length (cool_id m i t f) = length m" "ip \<in> fst ` set n \<Longrightarrow> length (cool_ip n ip t) = length n"
  by (simp_all only: cool_id_def cool_ip_def hm_keys_put hm_ok_put length_put_known)

definition known :: "sampler \<Rightarrow> request \<Rightarrow> bool" where
  "known s r \<longleftrightarrow> sa_session s = None \<or> (rq_id r \<in> fst ` set (sa_ids s) \<and> rq_ip r \<in> fst ` set (sa_ips s))"

lemma cooldown_fields [simp]:
  "sa_session (sampler_cooldown s n t f) = sa_session s" "sa_durable (sampler_cooldown s n t f) = sa_durable s"
  "sa_generation (sampler_cooldown s n t f) = sa_generation s" "sa_status (sampler_cooldown s n t f) = sa_status s"
  by (simp_all add: sampler_cooldown_def)

lemma inv_cooldown:
  assumes "s_inv s L" and "known s r"
  shows "s_inv (sampler_cooldown s (rq_node r) t f) L"
proof -
  have w: "waiting (sampler_cooldown s (rq_node r) t f) = waiting s" "stale (sampler_cooldown s (rq_node r) t f) = stale s"
    "ready_of (sampler_cooldown s (rq_node r) t f) = ready_of s"
    using waiting_cong [of "sampler_cooldown s (rq_node r) t f" s] by simp_all
  show ?thesis
  proof (cases "sa_session s")
    case None
    then show ?thesis using assms(1) w by (simp add: s_inv_def) (simp add: sampler_cooldown_def cool_keys)
  next
    case (Some se)
    then have k: "rq_id r \<in> fst ` set (sa_ids s)" "rq_ip r \<in> fst ` set (sa_ips s)" using assms(2) by (simp_all add: known_def)
    have "tracked (sa_ids s) (sa_ips s) se" using assms(1) Some by (simp add: s_inv_def)
    then have "tracked (cool_id (sa_ids s) (rq_id r) t f) (cool_ip (sa_ips s) (rq_ip r) t) se"
      using k by (auto simp: tracked_def cool_keys)
    then show ?thesis using assms(1) Some w
      by (simp add: s_inv_def linked_def) (simp add: sampler_cooldown_def cool_keys)
  qed
qed

section \<open>Finishing a request\<close>

lemma finished_fields [simp]:
  "sa_durable (request_finished s r) = sa_durable s" "sa_generation (request_finished s r) = sa_generation s"
  "sa_ids (request_finished s r) = sa_ids s" "sa_ips (request_finished s r) = sa_ips s"
  "storage_fault (request_finished s r) = storage_fault s"
  "sa_session (request_finished s r) = map_option (\<lambda>se. se\<lparr>se_in_flight := hm_remove (rq_id r) (se_in_flight se)\<rparr>) (sa_session s)"
  by (simp_all add: request_finished_def Let_def split: option.split)

lemma mset_remove_key:
  assumes "hm_ok m" and "(k, v) \<in> set m"
  shows "mset (hm_remove k m) = mset m - {#(k, v)#}"
  using assms
proof (induction m)
  case (Cons e m)
  show ?case
  proof (cases "e = (k, v)")
    case True
    then have "hm_get m k = None" using Cons.prems(1) by (auto simp: hm_ok_def hm_get_None)
    then show ?thesis using True by (simp add: hm_remove_def hm_remove_absent [unfolded hm_remove_def])
  next
    case False
    then have "(k, v) \<in> set m" and "hm_ok m" using Cons.prems by (auto simp: hm_ok_def)
    moreover have "fst e \<noteq> k" using Cons.prems(1) imageI [OF \<open>(k, v) \<in> set m\<close>, of fst] by (auto simp: hm_ok_def)
    ultimately show ?thesis using Cons.IH False by (auto simp: hm_remove_def)
  qed
qed simp

lemma se_ok_remove: "se_ok se \<Longrightarrow> se_ok (se\<lparr>se_in_flight := hm_remove i (se_in_flight se)\<rparr>)"
  unfolding se_ok_def cands_ok_def
  by (auto simp: hm_remove_def distinct_map intro: inj_on_subset le_trans [OF length_filter_le])

lemma tracked_remove: "tracked a b se \<Longrightarrow> tracked a b (se\<lparr>se_in_flight := hm_remove i (se_in_flight se)\<rparr>)"
  by (auto simp: tracked_def hm_remove_def)

lemma tracked_in:
  assumes "tracked a b se" and "(i, ip) \<in> set (se_in_flight se)"
  shows "i \<in> fst ` set a \<and> ip \<in> fst ` set b"
  using assms imageI [OF assms(2), of fst] imageI [OF assms(2), of snd] by (auto simp only: tracked_def fst_conv snd_conv)

lemma linked_key: "linked s se L \<Longrightarrow> r \<in> set (L @ waiting s) \<Longrightarrow> rq_key r \<in> set (se_in_flight se)"
  by (metis linked_def image_eqI set_map set_mset_mset)

lemma linked_finish:
  assumes "linked s se (r # L)" and "se_ok se" and "waiting s' = waiting s" "stale s' = stale s" "sa_generation s' = sa_generation s"
  shows "linked s' (se\<lparr>se_in_flight := hm_remove (rq_id r) (se_in_flight se)\<rparr>) L"
proof -
  have "(rq_id r, rq_ip r) \<in> set (se_in_flight se)" using linked_key [OF assms(1)] by (simp add: rq_key_def)
  moreover have "hm_ok (se_in_flight se)" using assms(2) by (simp add: se_ok_def cands_ok_def)
  ultimately have m: "mset (hm_remove (rq_id r) (se_in_flight se)) = mset (se_in_flight se) - {#(rq_id r, rq_ip r)#}"
    by (rule mset_remove_key [rotated])
  have "mset (se_in_flight se) = mset (map rq_key (r # L @ waiting s))" using assms(1) by (simp add: linked_def)
  then have "mset (hm_remove (rq_id r) (se_in_flight se)) = mset (map rq_key (L @ waiting s))"
    using m by (simp add: rq_key_def)
  then show ?thesis using assms by (auto simp: linked_def hm_remove_def)
qed

lemma inv_finished:
  assumes "s_inv s (r # L)"
  shows "s_inv (request_finished s r) L \<and> known (request_finished s r) r"
proof (cases "sa_session s")
  case None
  have "ready_of (request_finished s r) = ready_of s" by (simp add: ready_of_def)
  then show ?thesis using assms None by (auto simp: s_inv_def known_def)
next
  case (Some se)
  let ?s = "request_finished s r"
  have i: "se_ok se" "tracked (sa_ids s) (sa_ips s) se" "linked s se (r # L)" using assms Some by (simp_all add: s_inv_def)
  have w: "waiting ?s = waiting s" "stale ?s = stale s" using waiting_cong [of ?s s] by simp_all
  have "rq_key r \<in> set (se_in_flight se)" using linked_key [OF i(3)] by simp
  then have "known ?s r" using tracked_in [OF i(2)] by (simp add: known_def rq_key_def)
  then show ?thesis
    using assms Some se_ok_remove [OF i(1)] tracked_remove [OF i(2)] linked_finish [OF i(3,1) w(1,2)]
    by (simp add: s_inv_def)
qed

text \<open>What was not sent is forgotten: its cooldown entries go with it.\<close>

lemma tracked_forget:
  assumes "tracked a b se" and "i \<notin> fst ` set (se_in_flight se)" and "ip \<notin> snd ` set (se_in_flight se)"
  shows "tracked (hm_remove i a) (hm_remove ip b) se"
proof -
  have "length (hm_remove i a) \<le> length a" "length (hm_remove ip b) \<le> length b" by (simp_all add: hm_remove_def)
  then show ?thesis using assms by (auto simp: tracked_def hm_keys_remove)
qed

lemma inv_forget:
  assumes "s_inv s L" and "\<And>se. sa_session s = Some se \<Longrightarrow> i \<notin> fst ` set (se_in_flight se) \<and> ip \<notin> snd ` set (se_in_flight se)"
  shows "s_inv (s\<lparr>sa_ids := hm_remove i (sa_ids s), sa_ips := hm_remove ip (sa_ips s)\<rparr>) L"
proof -
  let ?s = "s\<lparr>sa_ids := hm_remove i (sa_ids s), sa_ips := hm_remove ip (sa_ips s)\<rparr>"
  have w: "waiting ?s = waiting s" "stale ?s = stale s" "ready_of ?s = ready_of s" using waiting_cong [of ?s s] by simp_all
  show ?thesis
  proof (cases "sa_session s")
    case None
    then show ?thesis using assms(1) w by (simp add: s_inv_def)
  next
    case (Some se)
    then show ?thesis using assms(1) w tracked_forget [of "sa_ids s" "sa_ips s" se i ip] assms(2) [OF Some]
      by (simp add: s_inv_def linked_def)
  qed
qed

lemma next_send_inv:
  assumes "s_inv s L" and "sa_session s = Some se"
  shows "s_inv (s\<lparr>sa_session := Some (se\<lparr>se_next_send := t\<rparr>)\<rparr>) L"
proof -
  let ?s = "s\<lparr>sa_session := Some (se\<lparr>se_next_send := t\<rparr>)\<rparr>"
  have w: "waiting ?s = waiting s" "stale ?s = stale s" "ready_of ?s = ready_of s" using waiting_cong [of ?s s] by simp_all
  then show ?thesis using assms by (simp add: s_inv_def se_ok_def cands_ok_def tracked_def linked_def)
qed

lemma linked_fresh:
  assumes "linked s se (r # L)" and "se_ok se"
  shows "rq_id r \<notin> fst ` set (hm_remove (rq_id r) (se_in_flight se)) \<and>
    rq_ip r \<notin> snd ` set (hm_remove (rq_id r) (se_in_flight se))"
proof -
  have m: "(rq_id r, rq_ip r) \<in> set (se_in_flight se)" using linked_key [OF assms(1)] by (simp add: rq_key_def)
  have d: "inj_on snd (set (se_in_flight se))" using assms(2) by (simp add: se_ok_def distinct_map)
  have "rq_ip r \<notin> snd ` set (hm_remove (rq_id r) (se_in_flight se))"
  proof
    assume "rq_ip r \<in> snd ` set (hm_remove (rq_id r) (se_in_flight se))"
    then obtain j where j: "(j, rq_ip r) \<in> set (se_in_flight se)" "j \<noteq> rq_id r" by (auto simp: hm_set_remove)
    show False using inj_onD [OF d _ j(1) m] j(2) by simp
  qed
  then show ?thesis by (simp add: hm_keys_remove)
qed

lemma inv_abandon:
  assumes "s_inv s (r # L)"
  shows "s_inv (abandon_unsent s r now) L"
proof -
  define s1 where "s1 = request_finished s r"
  define s2 where "s2 = (if rq_kind r = Sample
               then (let s = s1\<lparr>sa_ids := hm_remove (rq_id r) (sa_ids s1), sa_ips := hm_remove (rq_ip r) (sa_ips s1)\<rparr>
                     in case rq_lease r of None \<Rightarrow> s | Some lease \<Rightarrow> push_settlement (Abandon lease) s)
               else s1)"
  have "rq_id r \<notin> fst ` set (se_in_flight se) \<and> rq_ip r \<notin> snd ` set (se_in_flight se)"
    if se: "sa_session s1 = Some se" for se
  proof -
    obtain z where z: "sa_session s = Some z" "se_in_flight se = hm_remove (rq_id r) (se_in_flight z)"
      using se by (auto simp: s1_def)
    then have "linked s z (r # L)" "se_ok z" using assms by (simp_all add: s_inv_def)
    from linked_fresh [OF this] show ?thesis unfolding z(2) .
  qed
  then have "s_inv s2 L" using inv_finished [OF assms] inv_forget [of s1 L "rq_id r" "rq_ip r"]
    by (auto simp: s2_def s1_def [symmetric] Let_def split: option.split)
  moreover have "abandon_unsent s r now = (case sa_session s2 of None \<Rightarrow> s2
         | Some se \<Rightarrow> (let at = max (se_next_send se) (now + secs 1)
                       in s2\<lparr>sa_session := Some (se\<lparr>se_next_send := at\<rparr>), sa_deadline := Some at\<rparr>))"
    unfolding abandon_unsent_def s1_def s2_def Let_def by (rule refl)
  ultimately show ?thesis using next_send_inv by (auto simp: Let_def split: option.split)
qed

lemma abandon_fields [simp]:
  "ready_of (abandon_unsent s r now) = ready_of s" "reserving_of (abandon_unsent s r now) = reserving_of s"
  "sa_generation (abandon_unsent s r now) = sa_generation s"
  "storage_fault (abandon_unsent s r now) = storage_fault s"
  "sa_durable (abandon_unsent s r now) = None \<longleftrightarrow> sa_durable s = None"
  "sa_session (abandon_unsent s r now) = None \<longleftrightarrow> sa_session s = None"
  by (auto simp: abandon_unsent_def Let_def ready_of_def reserving_of_def push_settlement_def split: option.splits)

lemma leased_cong:
  "ready_of s' = ready_of s \<Longrightarrow> (sa_durable s' = None) = (sa_durable s = None) \<Longrightarrow> leased s' L = leased s L"
  by (simp add: leased_def)

section \<open>Stopping and faults\<close>

lemma take_ready_fields:
  assumes "take_ready s = (s', ro)"
  shows "ro = ready_of s \<and> ready_of s' = None \<and> reserving_of s' = reserving_of s \<and> sa_session s' = sa_session s
    \<and> sa_generation s' = sa_generation s \<and> sa_ids s' = sa_ids s \<and> sa_ips s' = sa_ips s \<and> sa_status s' = sa_status s
    \<and> (sa_durable s' = None) = (sa_durable s = None)"
  using assms by (auto simp: take_ready_def ready_of_def reserving_of_def split: option.splits)

lemma abandon_ready_inv:
  assumes "s_inv s L"
  shows "s_inv (abandon_ready s now) L"
proof -
  obtain s' ro where t: "take_ready s = (s', ro)" by fastforce
  note f = take_ready_fields [OF t]
  have stale: "stale s' = stale s" using f by (simp add: stale_def)
  show ?thesis
  proof (cases ro)
    case None
    then have "waiting s' = waiting s" using f by (simp add: waiting_def cong: option.case_cong)
    then show ?thesis using assms f stale None t
      by (simp add: abandon_ready_def s_inv_def linked_def split: option.splits)
  next
    case (Some r)
    then have "mset (waiting s) = add_mset r (mset (waiting s'))" using f by (simp add: waiting_def cong: option.case_cong)
    then have w: "set (waiting s) = insert r (set (waiting s'))" "image_mset rq_key (mset (waiting s)) = add_mset (rq_key r) (image_mset rq_key (mset (waiting s')))"
      by (metis set_mset_add_mset_insert set_mset_mset, simp)
    have "s_inv s' (r # L)"
    proof (cases "sa_session s")
      case None
      then show ?thesis using assms f Some by (auto simp: s_inv_def)
    next
      case se: (Some se)
      then show ?thesis using assms f stale w by (auto simp: s_inv_def linked_def)
    qed
    then show ?thesis using inv_abandon t Some by (simp add: abandon_ready_def)
  qed
qed

lemma abandon_ready_fields [simp]:
  "ready_of (abandon_ready s now) = None" "reserving_of (abandon_ready s now) = reserving_of s"
  "sa_generation (abandon_ready s now) = sa_generation s" "storage_fault (abandon_ready s now) = storage_fault s"
  "sa_durable (abandon_ready s now) = None \<longleftrightarrow> sa_durable s = None"
  "sa_session (abandon_ready s now) = None \<longleftrightarrow> sa_session s = None"
  using take_ready_fields [of s "fst (take_ready s)" "snd (take_ready s)"]
  by (auto simp: abandon_ready_def split: prod.split option.split)

lemma hold_keys:
  "fst ` set (hold_id m i t) = fst ` set m" "fst ` set (hold_ip n ip t) = fst ` set n"
  "hm_ok m \<Longrightarrow> hm_ok (hold_id m i t)" "hm_ok n \<Longrightarrow> hm_ok (hold_ip n ip t)"
  by (auto simp: hold_id_def hold_ip_def hm_keys_put dest: hm_get_in split: option.split intro: rev_image_eqI)

lemma hold_fold:
  "hm_ok m \<Longrightarrow> hm_ok (fold (\<lambda>(i, _) m. hold_id m i t) fl m)"
  "hm_ok n \<Longrightarrow> hm_ok (fold (\<lambda>(_, ip) n. hold_ip n ip t) fl n)"
  by (induction fl arbitrary: m n) (auto simp: hold_keys)

lemma stop_fields [simp]:
  "sa_session (sampler_stop s now) = None" "storage_fault (sampler_stop s now) = storage_fault s"
  "ready_of (sampler_stop s now) = None" "reserving_of (sampler_stop s now) = reserving_of s"
  "sa_generation (sampler_stop s now) = sa_generation s"
  "sa_durable (sampler_stop s now) = None \<longleftrightarrow> sa_durable s = None"
  using abandon_ready_fields [of s now]
  by (auto simp: sampler_stop_def Let_def ready_of_def reserving_of_def simp del: abandon_ready_fields split: option.splits)

lemma stop_maps: "s_inv s L \<Longrightarrow> hm_ok (sa_ids (sampler_stop s now)) \<and> hm_ok (sa_ips (sampler_stop s now))"
  using abandon_ready_inv [of s L now]
  by (auto simp: sampler_stop_def Let_def s_inv_def hold_fold split: option.split)

lemma inv_stop: "s_inv s L \<Longrightarrow> s_inv (sampler_stop s now) []"
  using stop_maps by (simp add: s_inv_def)

lemma fault_fields [simp]:
  "sa_session (mark_storage_fault s e now) = None" "storage_fault (mark_storage_fault s e now) = Some e"
  "ready_of (mark_storage_fault s e now) = None" "reserving_of (mark_storage_fault s e now) = reserving_of s"
  "sa_durable (mark_storage_fault s e now) = None \<longleftrightarrow> sa_durable s = None"
  "sa_generation (mark_storage_fault s e now) = sa_generation s"
  using stop_fields [of s now]
  by (auto simp: mark_storage_fault_def Let_def ready_of_def reserving_of_def simp del: stop_fields)

lemma inv_fault: "s_inv s L \<Longrightarrow> s_inv (mark_storage_fault s e now) L'"
  using stop_maps [of s L now] by (simp add: inv_stopped) (simp add: mark_storage_fault_def Let_def)

lemma leased_fault: "leased s L \<Longrightarrow> leased (mark_storage_fault s e now) L"
  by (auto simp: leased_def)

section \<open>Settlements\<close>

lemma settle_cases:
  obtains "settle_request s r now fresh = s"
    | e where "settle_request s r now fresh = mark_storage_fault s e fresh"
    | x where "settle_request s r now fresh = push_settlement x s"
proof -
  have "settle_request s r now fresh = s \<or> (\<exists>e. settle_request s r now fresh = mark_storage_fault s e fresh)
      \<or> (\<exists>x. settle_request s r now fresh = push_settlement x s)"
    by (simp add: settle_request_def Let_def split: option.split sum.split) blast
  then show ?thesis using that by blast
qed

lemma inv_settle: "s_inv s L \<Longrightarrow> s_inv (settle_request s r now fresh) L"
  by (rule settle_cases [of s r now fresh]) (auto intro: inv_fault)

lemma leased_settle: "leased s L \<Longrightarrow> leased (settle_request s r now fresh) L"
  by (rule settle_cases [of s r now fresh]) (auto intro: leased_fault)

lemma leased_same:
  "leased s L \<Longrightarrow> sa_durable s' = sa_durable s \<Longrightarrow> leased s' L"
  by (simp add: leased_def ready_of_def)

lemma inv_cancel: "s_inv s L \<Longrightarrow> known s r \<Longrightarrow> s_inv (cancel_request s r now fresh) L"
  using inv_cooldown [of s L r] by (auto simp: cancel_request_def Let_def intro: inv_fault split: option.split)

lemma leased_cancel: "leased s L \<Longrightarrow> leased (cancel_request s r now fresh) L"
  by (auto simp: cancel_request_def Let_def intro: leased_fault leased_same split: option.split)

lemma inv_uncertain: "s_inv s (r # L) \<Longrightarrow> s_inv (uncertain_send s r now fresh) L"
  using inv_finished [of s r L] by (simp add: uncertain_send_def inv_cancel)

section \<open>Candidates\<close>

lemma contact_total: "rt_inv rt \<Longrightarrow> id_ok i \<Longrightarrow> \<exists>x. contact rt i = Some x \<and> (\<forall>c. x = Some c \<longrightarrow> nc_id c = i)"
proof -
  assume "rt_inv rt" and "id_ok i"
  then obtain k where "bucket_index rt i = Some k" by (rule bucket_index_total)
  then show ?thesis by (auto simp: contact_def dest!: find_Some_iff2)
qed

text \<open>\<open>resembles se' se\<close>: only the candidates and the cursor of the round differ.\<close>

definition resembles :: "sampling_session \<Rightarrow> sampling_session \<Rightarrow> bool" where
  "resembles se' se \<longleftrightarrow> se_config se' = se_config se \<and> se_in_flight se' = se_in_flight se"

lemma resembles_refl [simp]: "resembles se se"
  by (simp add: resembles_def)

lemma resembles_trans: "resembles a b \<Longrightarrow> resembles b c \<Longrightarrow> resembles a c"
  by (simp add: resembles_def)

lemma inv_session:
  assumes "s_inv s L" and "sa_session s = Some se" and "resembles se' se" and "se_ok se'"
  shows "s_inv (s\<lparr>sa_session := Some se'\<rparr>) L"
proof -
  let ?s = "s\<lparr>sa_session := Some se'\<rparr>"
  have w: "waiting ?s = waiting s" "stale ?s = stale s" "ready_of ?s = ready_of s" using waiting_cong [of ?s s] by simp_all
  then show ?thesis using assms by (simp add: s_inv_def tracked_def linked_def resembles_def)
qed

lemma cands_ok_put:
  assumes "cands_ok se" and "id_ok i" and "dn_id (ca_node c) = i"
  shows "cands_ok (se\<lparr>se_candidates := hm_put i c (se_candidates se)\<rparr>)"
proof -
  have ok: "hm_ok (se_candidates se)" using assms(1) by (simp add: cands_ok_def)
  have "dn_id (ca_node d) = j \<and> id_ok j" if "(j, d) \<in> set (hm_put i c (se_candidates se))" for j d
    using that assms unfolding hm_set_put [OF ok] by (auto simp: cands_ok_def)
  moreover have "fst ` set (se_in_flight se) \<subseteq> fst ` set (hm_put i c (se_candidates se))"
    using assms(1) unfolding hm_keys_put cands_ok_def by blast
  ultimately show ?thesis using assms(1) by (auto simp: cands_ok_def)
qed

lemma cands_get: "cands_ok se \<Longrightarrow> hm_get (se_candidates se) i = Some c \<Longrightarrow> dn_id (ca_node c) = i \<and> id_ok i"
  by (auto simp: cands_ok_def dest!: hm_get_in)

lemma add_node_ok:
  assumes "rt_inv rt" and "id_ok (dn_id n)" and "cands_ok se"
  shows "\<exists>se'. add_node rt now se n = Some se' \<and> cands_ok se' \<and> se' = se\<lparr>se_candidates := se_candidates se'\<rparr>"
proof -
  obtain x where x: "contact rt (dn_id n) = Some x" "\<And>c. x = Some c \<Longrightarrow> nc_id c = dn_id n"
    using contact_total [OF assms(1,2)] by blast
  define n' where "n' = (case x of None \<Rightarrow> n | Some c \<Rightarrow> \<lparr>dn_id = nc_id c, dn_address = nc_address c\<rparr>)"
  have i: "dn_id n' = dn_id n" using x(2) by (cases x) (simp_all add: n'_def)
  define c where "c = (case hm_get (se_candidates se) (dn_id n') of
      None \<Rightarrow> \<lparr>ca_node = n', ca_visited = False, ca_kind = Sample\<rparr>
    | Some old \<Rightarrow> if x \<noteq> None \<and> \<not> hm_has (se_in_flight se) (dn_id n') then old\<lparr>ca_node := n'\<rparr> else old)"
  have "dn_id (ca_node c) = dn_id n'"
    using cands_get [OF assms(3), of "dn_id n'"] by (auto simp: c_def split: option.split)
  then have put: "cands_ok (se\<lparr>se_candidates := hm_put (dn_id n') c (se_candidates se)\<rparr>)"
    using cands_ok_put [OF assms(3)] assms(2) i by simp
  have "add_node rt now se n = Some se \<or>
      add_node rt now se n = Some (se\<lparr>se_candidates := hm_put (dn_id n') c (se_candidates se)\<rparr>)"
    unfolding add_node_def x(1) option.case Let_def n'_def [symmetric] c_def [symmetric] by simp
  then show ?thesis using put assms(3) by auto
qed

lemma add_each_ok:
  assumes "rt_inv rt" and "\<And>n. n \<in> set ns \<Longrightarrow> id_ok (dn_id n)" and "cands_ok se"
  shows "\<exists>se'. add_each rt now se ns = Some se' \<and> cands_ok se' \<and> se' = se\<lparr>se_candidates := se_candidates se'\<rparr>"
  using assms(2,3)
proof (induction ns arbitrary: se)
  case Nil
  then show ?case by simp
next
  case (Cons n ns)
  obtain se1 where s1: "add_node rt now se n = Some se1" "cands_ok se1" "se1 = se\<lparr>se_candidates := se_candidates se1\<rparr>"
    using add_node_ok [OF assms(1), of n se now] Cons.prems by auto
  obtain se2 where "add_each rt now se1 ns = Some se2" "cands_ok se2" "se2 = se1\<lparr>se_candidates := se_candidates se2\<rparr>"
    using Cons.IH [of se1] Cons.prems(1) s1(2) by auto
  moreover from this(3) s1(3) have "se2 = se\<lparr>se_candidates := se_candidates se2\<rparr>" by (metis sampling_session.update_convs(3) sampling_session.surjective sampling_session.ext_inject)
  ultimately show ?case using s1 by simp
qed

lemma worst_some:
  assumes "worst_candidate se = Some i" and "cands_ok se"
  shows "i \<in> fst ` set (se_candidates se) \<and> i \<notin> fst ` set (se_in_flight se)"
proof -
  define idle where "idle = filter (\<lambda>c. \<not> hm_has (se_in_flight se) (dn_id (ca_node c))) (hm_values (se_candidates se))"
  define key where "key = (\<lambda>c :: sampling_candidate. xor_distance (id_bytes (dn_id (ca_node c))) (id_bytes (se_target se)))"
  have i: "idle \<noteq> []" "i = dn_id (ca_node (last (sort_key key idle)))"
    using assms(1) by (auto simp: worst_candidate_def idle_def key_def Let_def split: if_splits)
  have "last (sort_key key idle) \<in> set idle" using i(1) last_in_set [of "sort_key key idle"]
    by (metis set_sort set_empty)
  then obtain j c where c: "(j, c) \<in> set (se_candidates se)" "c = last (sort_key key idle)" "\<not> hm_has (se_in_flight se) (dn_id (ca_node c))"
    by (auto simp: idle_def hm_values_def)
  then have "j = i" using assms(2) i(2) by (auto simp: cands_ok_def)
  then show ?thesis using c i(2) imageI [OF c(1), of fst] by (simp add: hm_has_iff)
qed

lemma worst_none:
  assumes "worst_candidate se = None" and "cands_ok se"
  shows "length (se_candidates se) \<le> length (se_in_flight se)"
proof -
  have "hm_has (se_in_flight se) i" if "(i, c) \<in> set (se_candidates se)" for i c
  proof -
    have "dn_id (ca_node c) = i" using assms(2) that by (auto simp: cands_ok_def)
    moreover have "c \<in> set (hm_values (se_candidates se))" using that by (force simp: hm_values_def)
    ultimately show ?thesis using assms(1)
      by (auto simp: worst_candidate_def filter_empty_conv Let_def split: if_splits)
  qed
  then have "\<And>k. hm_get (se_candidates se) k \<noteq> None \<Longrightarrow> hm_get (se_in_flight se) k \<noteq> None"
    by (auto simp: hm_has_def dest!: hm_get_in)
  then show ?thesis using assms(2) by (intro hm_length_mono) (simp_all add: cands_ok_def)
qed

lemma evict_ok:
  assumes "cands_ok se" and "length (se_candidates se) - sc_candidate_capacity (se_config se) = n"
    and "length (se_in_flight se) \<le> sc_candidate_capacity (se_config se)"
  shows "cands_ok (evict_excess n se) \<and> length (se_candidates (evict_excess n se)) \<le> sc_candidate_capacity (se_config se)
    \<and> evict_excess n se = se\<lparr>se_candidates := se_candidates (evict_excess n se)\<rparr>"
  using assms
proof (induction n arbitrary: se)
  case 0
  then show ?case by simp
next
  case (Suc n)
  show ?case
  proof (cases "worst_candidate se")
    case None
    then have "length (se_candidates se) \<le> sc_candidate_capacity (se_config se)"
      using worst_none [OF None Suc.prems(1)] Suc.prems(3) by simp
    then show ?thesis using None Suc.prems by simp
  next
    case (Some i)
    let ?se = "se\<lparr>se_candidates := hm_remove i (se_candidates se)\<rparr>"
    note w = worst_some [OF Some Suc.prems(1)]
    have ok: "hm_ok (se_candidates se)" using Suc.prems(1) by (simp add: cands_ok_def)
    have "fst ` set (se_in_flight se) \<subseteq> fst ` set (hm_remove i (se_candidates se))"
      using Suc.prems(1) w unfolding hm_keys_remove cands_ok_def by blast
    then have "cands_ok ?se" using Suc.prems(1) by (auto simp: cands_ok_def hm_remove_def)
    moreover have "Suc (length (hm_remove i (se_candidates se))) = length (se_candidates se)"
      using w by (intro hm.size_remove_known [OF ok]) (simp add: hm_get_None)
    ultimately show ?thesis using Suc.IH [of ?se] Suc.prems(2,3) Some by simp
  qed
qed

lemma add_nodes_ok:
  assumes "s_inv s L" and "rt_inv rt" and "\<And>n. n \<in> set ns \<Longrightarrow> id_ok (dn_id n)"
  shows "\<exists>s'. add_nodes s ns rt now = Some s' \<and> s_inv s' L \<and> s' = s\<lparr>sa_session := sa_session s'\<rparr>
    \<and> (sa_session s' = None) = (sa_session s = None)"
proof (cases "sa_session s")
  case None
  then show ?thesis using assms by (simp add: add_nodes_def)
next
  case (Some se)
  have ok: "se_ok se" using assms(1) Some by (simp add: s_inv_def)
  then obtain se1 where s1: "add_each rt now se ns = Some se1" "cands_ok se1" "se1 = se\<lparr>se_candidates := se_candidates se1\<rparr>"
    using add_each_ok [OF assms(2,3), of ns se now] by (auto simp: se_ok_def)
  have f: "se_in_flight se1 = se_in_flight se" "se_config se1 = se_config se" "se_queries se1 = se_queries se"
    by (subst s1(3), simp)+
  define se2 where "se2 = evict_excess (length (se_candidates se1) - sc_candidate_capacity (se_config se1)) se1"
  have e: "cands_ok se2" "length (se_candidates se2) \<le> sc_candidate_capacity (se_config se1)" "se2 = se1\<lparr>se_candidates := se_candidates se2\<rparr>"
    using evict_ok [OF s1(2) refl] ok f unfolding se2_def se_ok_def by auto
  have g: "se_in_flight se2 = se_in_flight se" "se_config se2 = se_config se" "se_queries se2 = se_queries se"
    by (subst e(3), simp add: f)+
  have "se_ok se2" using ok e(1,2) g f unfolding se_ok_def by simp
  then have "s_inv (s\<lparr>sa_session := Some se2\<rparr>) L" using inv_session [OF assms(1) Some] g by (simp add: resembles_def)
  then show ?thesis using s1(1) Some by (simp add: add_nodes_def se2_def)
qed

end
