(* ===== verification/SamplerNext.thy ===== *)
theory SamplerNext imports SamplerInv begin

text \<open>
  The choice of the next request keeps the invariant of theory SamplerInv, and what holds of a chosen request.
\<close>

section \<open>Selection\<close>

lemma prune_fields [simp]:
  "sa_session (prune s se now) = sa_session s" "sa_durable (prune s se now) = sa_durable s"
  "sa_generation (prune s se now) = sa_generation s" "sa_status (prune s se now) = sa_status s"
  by (simp_all add: prune_def)

lemma prune_get:
  "hm_ok (sa_ids s) \<Longrightarrow> hm_get (sa_ids (prune s se now)) i = Some v \<Longrightarrow> hm_get (sa_ids s) i = Some v"
  "hm_ok (sa_ips s) \<Longrightarrow> hm_get (sa_ips (prune s se now)) ip = Some t \<Longrightarrow> hm_get (sa_ips s) ip = Some t"
  by (auto simp: prune_def hm_get_retain split: if_splits option.splits)

text \<open>Pruning forgets expired entries only, and none of a node in flight.\<close>

lemma prune_lost:
  "hm_ok (sa_ids s) \<Longrightarrow> hm_get (sa_ids (prune s se now)) i = None \<Longrightarrow> hm_get (sa_ids s) i = Some v \<Longrightarrow> cd_until v \<le> now"
  "hm_ok (sa_ips s) \<Longrightarrow> hm_get (sa_ips (prune s se now)) ip = None \<Longrightarrow> hm_get (sa_ips s) ip = Some t \<Longrightarrow> t \<le> now"
  by (auto simp: prune_def hm_get_retain split: if_splits)

lemma inv_prune:
  assumes "s_inv s L" and "sa_session s = Some se"
  shows "s_inv (prune s se now) L"
proof -
  let ?s = "prune s se now"
  have w: "waiting ?s = waiting s" "stale ?s = stale s" "ready_of ?s = ready_of s" using waiting_cong [of ?s s] by simp_all
  have t: "tracked (sa_ids s) (sa_ips s) se" and ok: "hm_ok (sa_ids s)" "hm_ok (sa_ips s)"
    using assms by (simp_all add: s_inv_def)
  have "length (sa_ids ?s) \<le> length (sa_ids s)" "length (sa_ips ?s) \<le> length (sa_ips s)"
    by (simp_all add: prune_def hm_retain_def)
  moreover have "i \<in> fst ` set (sa_ids ?s)" if "(i, ip) \<in> set (se_in_flight se)" for i ip
  proof -
    have "hm_has (se_in_flight se) i" using that by (force simp: hm_has_iff)
    then show ?thesis using tracked_in [OF t that] by (force simp: prune_def hm_set_retain)
  qed
  moreover have "ip \<in> fst ` set (sa_ips ?s)" if "(i, ip) \<in> set (se_in_flight se)" for i ip
  proof -
    have "ip \<in> set (hm_values (se_in_flight se))" using that by (force simp: hm_values_def)
    then show ?thesis using tracked_in [OF t that] by (force simp: prune_def hm_set_retain)
  qed
  ultimately have "tracked (sa_ids ?s) (sa_ips ?s) se" using t by (auto simp: tracked_def)
  moreover have "hm_ok (sa_ids ?s)" "hm_ok (sa_ips ?s)" using ok by (simp_all add: prune_def)
  ultimately show ?thesis using assms w by (simp add: s_inv_def linked_def)
qed

text \<open>What a selected candidate satisfies.\<close>

lemma selected:
  assumes "cs_candidate (select_candidate se idm ipm now) = Some c"
  shows "c \<in> set (hm_values (se_candidates se)) \<and> \<not> skipped se c \<and> due_at idm ipm now c \<le> now \<and> \<not> untracked se idm ipm c"
proof -
  define open_cs where "open_cs = filter (\<lambda>c. \<not> skipped se c) (hm_values (se_candidates se))"
  define good where "good = filter (\<lambda>c. \<not> untracked se idm ipm c) (filter (\<lambda>c. due_at idm ipm now c \<le> now) open_cs)"
  define l where "l = closest_by (\<lambda>c. xor_distance (id_bytes (dn_id (ca_node c))) (id_bytes (se_target se)))
      (sc_shortlist_size (se_config se)) good"
  have "(case l of [] \<Rightarrow> None | c # _ \<Rightarrow> Some c) = Some c"
    using assms by (simp add: select_candidate_def Let_def l_def good_def open_cs_def)
  then have "c \<in> set l" by (cases l) auto
  then have "c \<in> set good" unfolding l_def by (rule subsetD [OF closest_by_subset])
  then show ?thesis by (simp add: good_def open_cs_def)
qed

section \<open>Registration\<close>

lemma reserving_cong: "sa_durable s' = sa_durable s \<Longrightarrow> reserving_of s' = reserving_of s"
  by (simp add: reserving_of_def)

text \<open>
  \<open>idle s\<close>: no request waits inside the sampler, the state in which a new one may be registered.
\<close>

definition idle :: "sampler \<Rightarrow> bool" where
  "idle s \<longleftrightarrow> reserving_of s = None \<and> ready_of s = None"

lemma idle_waiting: "idle s \<Longrightarrow> waiting s = [] \<and> \<not> stale s"
  by (simp add: idle_def waiting_def stale_def)

lemma register_ok:
  assumes "s_inv s L" and "sa_session s = Some se" and "idle s" and "c \<in> set (hm_values (se_candidates se))"
    and "\<not> skipped se c" and "\<not> untracked se (sa_ids s) (sa_ips s) c"
    and "length (se_in_flight se) < sc_parallelism (se_config se)" and "se_queries se < sc_max_queries (se_config se)"
    and "se_ready_permit se"
  shows "\<exists>s' r. register_request s se c now = Some (s', r) \<and> s_inv s' (r # L) \<and> sa_durable s' = sa_durable s \<and>
    rq_lease r = None \<and> rq_node r = ca_node c \<and> rq_kind r = ca_kind c \<and> sa_session s' \<noteq> None"
proof -
  let ?i = "dn_id (ca_node c)" and ?ip = "node_ip (ca_node c)"
  have ok: "se_ok se" "cands_ok se" "tracked (sa_ids s) (sa_ips s) se" "linked s se L" "hm_ok (sa_ids s)" "hm_ok (sa_ips s)"
    "storage_fault s = None" using assms(1,2) by (simp_all add: s_inv_def se_ok_def)
  have okm: "hm_ok (se_candidates se)" "hm_ok (se_in_flight se)" using ok(2) by (simp_all add: cands_ok_def)
  obtain j where j: "(j, c) \<in> set (se_candidates se)" using assms(4) by (auto simp: hm_values_def)
  then have ji: "j = ?i" and id: "id_ok ?i" using ok(2) by (auto simp: cands_ok_def)
  have get: "hm_get (se_candidates se) ?i = Some c" using hm_get_Some [OF okm(1)] j ji by blast
  have free: "hm_get (se_in_flight se) ?i = None" "?ip \<notin> snd ` set (se_in_flight se)"
    using assms(5) by (auto simp: skipped_def hm_has_def hm_values_def)
  define fl where "fl = hm_put ?i ?ip (se_in_flight se)"
  define se' where "se' = se\<lparr>se_candidates := hm_put ?i (c\<lparr>ca_visited := True, ca_kind := Sample\<rparr>) (se_candidates se),
      se_in_flight := fl, se_queries := se_queries se + 1, se_next_send := now + sc_send_spacing (se_config se),
      se_ready_permit := False\<rparr>"
  define idm where "idm = (if hm_has (sa_ids s) ?i then sa_ids s else hm_put ?i \<lparr>cd_until = now, cd_failures = 0\<rparr> (sa_ids s))"
  define ipm where "ipm = (if hm_has (sa_ips s) ?ip then sa_ips s else hm_put ?ip now (sa_ips s))"
  define r where "r = \<lparr>rq_generation = sa_generation s, rq_lease = None, rq_node = ca_node c, rq_target = se_target se,
      rq_kind = ca_kind c, rq_permit = se_ready_permit se\<rparr>"
  define s' where "s' = s\<lparr>sa_session := Some se', sa_ids := idm, sa_ips := ipm,
      sa_deadline := Some (se_next_send se'),
      sa_status := (sa_status s)\<lparr>ss_pause := PauseReady, ss_in_flight := length fl\<rparr>\<rparr>"
  have reg: "register_request s se c now = Some (s', r)"
    unfolding register_request_def Let_def get option.case s'_def se'_def fl_def idm_def ipm_def r_def by simp
  have fl: "fl = se_in_flight se @ [(?i, ?ip)]"
    unfolding fl_def by (rule hm_put_fresh [OF free(1)])
  have keys: "set idm \<noteq> {} \<and> fst ` set idm = insert ?i (fst ` set (sa_ids s)) \<and> fst ` set ipm = insert ?ip (fst ` set (sa_ips s))"
    by (auto simp: idm_def ipm_def hm_keys_put hm_has_iff)
  have "length idm \<le> sc_cooldown_capacity (se_config se)" "length ipm \<le> sc_cooldown_capacity (se_config se)"
    using assms(6) ok(3) by (auto simp: idm_def ipm_def untracked_def tracked_def length_hm_put hm_has_def)
  then have tr: "tracked idm ipm se'" using keys ok(3) by (auto simp: tracked_def se'_def fl)
  have co: "cands_ok se'"
  proof -
    have "cands_ok (se\<lparr>se_candidates := hm_put ?i (c\<lparr>ca_visited := True, ca_kind := Sample\<rparr>) (se_candidates se)\<rparr>)"
      using cands_ok_put [OF ok(2) id, of "c\<lparr>ca_visited := True, ca_kind := Sample\<rparr>"] by simp
    moreover have "hm_ok fl" using okm(2) by (simp add: fl_def)
    moreover have "fst ` set fl \<subseteq> fst ` set (se_candidates se')"
      using ok(2) by (auto simp: fl se'_def hm_keys_put cands_ok_def)
    ultimately show ?thesis by (auto simp: cands_ok_def se'_def)
  qed
  have "length (hm_put ?i x (se_candidates se)) = length (se_candidates se)" for x by (simp add: length_hm_put get)
  then have sok: "se_ok se'" using co ok(1) assms(7,8) free(2) by (simp add: se_ok_def se'_def fl)
  have w: "waiting s' = []" "\<not> stale s'" "waiting s = []"
    using idle_waiting [OF assms(3)] waiting_cong [of s' s] by (simp_all add: s'_def)
  have li: "linked s' se' (r # L)"
    using ok(4) assms(9) w by (auto simp: linked_def se'_def fl s'_def r_def rq_key_def)
  have "hm_ok idm" "hm_ok ipm" using ok(5,6) by (simp_all add: idm_def ipm_def)
  then have "s_inv s' (r # L)" using sok tr li ok(7) by (simp add: s_inv_def s'_def)
  then show ?thesis using reg by (simp add: s'_def r_def)
qed

section \<open>The decision\<close>

text \<open>What the handler of the next request leaves behind, with the request it hands out.\<close>

definition after_next :: "sampler \<Rightarrow> request list \<Rightarrow> sampler \<times> request option \<Rightarrow> bool" where
  "after_next s L x \<longleftrightarrow> sa_durable (fst x) = sa_durable s \<and> (case snd x of None \<Rightarrow> s_inv (fst x) L
     | Some r \<Rightarrow> s_inv (fst x) (r # L) \<and> rq_lease r = None \<and> idle (fst x) \<and> sa_session (fst x) \<noteq> None)"

lemma se_ok_reset: "se_ok se \<Longrightarrow> se_in_flight se = [] \<Longrightarrow> se_ok (reset_round se now random) \<and> resembles (reset_round se now random) se"
  by (force simp: se_ok_def cands_ok_def reset_round_def resembles_def hm_ok_def case_prod_unfold comp_def)

lemma inv_next_round:
  assumes "s_inv s L" and "sa_session s = Some se" and "se_in_flight se = []"
  shows "s_inv (next_round s se now random) L"
proof -
  have "se_ok se" using assms by (simp add: s_inv_def)
  from inv_session [OF assms(1,2)] se_ok_reset [OF this assms(3)]
  have "s_inv (s\<lparr>sa_session := Some (reset_round se now random)\<rparr>) L" by blast
  then show ?thesis by (simp add: next_round_def Let_def)
qed

lemma next_round_durable [simp]: "sa_durable (next_round s se now random) = sa_durable s"
  by (simp add: next_round_def Let_def)

lemma choose_ok:
  assumes "s_inv s L" and "sa_session s = Some se" and "idle s"
    and "length (se_in_flight se) < sc_parallelism (se_config se)" and "se_queries se < sc_max_queries (se_config se)"
    and "se_ready_permit se"
  shows "\<exists>x. choose_next s se now random = Some x \<and> after_next s L x"
proof -
  let ?p = "prune s se now"
  define sel where "sel = select_candidate se (sa_ids ?p) (sa_ips ?p) now"
  have i: "s_inv ?p L" "sa_session ?p = Some se" "idle ?p"
    using inv_prune [OF assms(1,2)] assms(2,3) by (simp_all add: idle_def ready_of_def reserving_of_def)
  show ?thesis
  proof (cases "cs_candidate sel")
    case (Some c)
    note sc = selected [OF Some [unfolded sel_def]]
    obtain s' r where "register_request ?p se c now = Some (s', r)" "s_inv s' (r # L)" "sa_durable s' = sa_durable ?p"
      "rq_lease r = None" "sa_session s' \<noteq> None"
      using register_ok [OF i(1,2,3), of c now] sc assms(4,5,6) by blast
    then show ?thesis using Some i(3) ready_of_def reserving_of_def
      by (simp add: choose_next_def Let_def sel_def after_next_def idle_def)
  next
    case None
    show ?thesis
      using i(1) inv_next_round [OF i(1,2)] None
      by (simp add: choose_next_def Let_def sel_def [symmetric] after_next_def)
  qed
qed

lemma inv_permit: "s_inv s L \<Longrightarrow> sa_session s = Some se \<Longrightarrow> s_inv (s\<lparr>sa_session := Some (se\<lparr>se_ready_permit := b\<rparr>)\<rparr>) L"
  by (rule inv_session) (auto simp: resembles_def s_inv_def se_ok_def cands_ok_def)

lemma ex_if: "(\<exists>x. (if b then u else v) = Some x \<and> P x) = (if b then \<exists>x. u = Some x \<and> P x else \<exists>x. v = Some x \<and> P x)"
  by simp

lemma gate_ok:
  assumes "s_inv s L" and "sa_session s = Some se" and "idle s"
  shows "\<exists>x. gate s se capacity now closed slot random = Some x \<and> after_next s L x"
proof -
  let ?se = "se\<lparr>se_ready_permit := True\<rparr>" and ?s = "s\<lparr>sa_session := Some (se\<lparr>se_ready_permit := True\<rparr>)\<rparr>"
  have i: "s_inv ?s L" "sa_session ?s = Some ?se" "idle ?s"
    using inv_permit [OF assms(1,2)] assms(3) by (simp_all add: idle_def ready_of_def reserving_of_def)
  have pick: "\<exists>x. choose_next ?s ?se now random = Some x \<and> after_next s L x"
    if "length (se_in_flight se) < sc_parallelism (se_config se)" "se_queries se < sc_max_queries (se_config se)"
    using choose_ok [OF i] that by (simp add: after_next_def)
  have reset: "after_next s L (next_round ?s ?se now random, None)" if "se_in_flight se = []"
    using inv_next_round [OF i(1,2)] that by (simp add: after_next_def)
  have keep: "after_next s L (pause_with p s, None)" "after_next s L (s, None)" "after_next s L (pause_with p ?s, None)"
    "after_next s L ((pause_with p ?s)\<lparr>sa_deadline := d\<rparr>, None)" for p d
    using assms(1) i(1) by (simp_all add: after_next_def)
  show ?thesis unfolding gate_def Let_def using keep reset pick
    by (simp only: ex_if) (simp add: not_le)
qed

lemma retain_ok:
  assumes "rt_inv rt" and "se_ok se"
  shows "\<exists>se'. retain_usable rt now se = Some se' \<and> se_ok se' \<and> resembles se' se"
proof -
  have "contact rt i \<noteq> None" if "(i, c) \<in> set (se_candidates se)" for i c
    using that assms contact_total [OF assms(1), of i] by (auto simp: se_ok_def cands_ok_def)
  then have e: "\<not> list_ex (\<lambda>(i, _). \<not> hm_has (se_in_flight se) i \<and> contact rt i = None) (se_candidates se)"
    by (fastforce simp: list_ex_iff)
  define keep where "keep = (\<lambda>i (_ :: sampling_candidate). hm_has (se_in_flight se) i
        \<or> (case contact rt i of Some (Some c) \<Rightarrow> contact_status c now \<noteq> Bad | _ \<Rightarrow> True))"
  define se' where "se' = se\<lparr>se_candidates := hm_retain keep (se_candidates se)\<rparr>"
  have r: "retain_usable rt now se = Some se'" unfolding retain_usable_def se'_def keep_def using e by simp
  have "i \<in> fst ` set (hm_retain keep (se_candidates se))" if "i \<in> fst ` set (se_in_flight se)" for i
  proof -
    have "i \<in> fst ` set (se_candidates se)" using that assms(2) by (auto simp: se_ok_def cands_ok_def)
    moreover have "keep i c" for c using that by (simp add: keep_def hm_has_iff)
    ultimately show ?thesis by (force simp: hm_set_retain)
  qed
  moreover have "length (hm_retain keep (se_candidates se)) \<le> length (se_candidates se)" by (simp add: hm_retain_def)
  ultimately have "se_ok se'" using assms(2)
    by (auto simp: se_ok_def cands_ok_def se'_def hm_set_retain)
  then show ?thesis using r by (simp add: resembles_def se'_def)
qed

lemma usable_ids:
  assumes "rt_inv rt" and "c \<in> set (closest_usable rt t n now)"
  shows "id_ok (nc_id c)"
proof -
  have "set (closest_usable rt t n now) \<subseteq> set (closest_matching rt (id_bytes t) (length (table_contacts rt))
      (\<lambda>c. contact_status c now \<noteq> Bad))" unfolding closest_usable_def by (rule closest_by_subset)
  also have "\<dots> \<subseteq> set (filter (\<lambda>c. contact_status c now \<noteq> Bad) (table_contacts rt))"
    unfolding closest_matching_def by (rule closest_by_subset)
  finally have "c \<in> set (table_contacts rt)" using assms(2) by auto
  then show ?thesis using assms(1) by (auto simp: table_contacts_def rt_inv_def bucket_ok_def contact_ok_def)
qed

lemma not_busy_idle: "\<not> storage_busy s \<Longrightarrow> idle s"
  by (simp add: storage_busy_def idle_def reserving_of_def ready_of_def split: option.splits)

lemma next_ok:
  assumes "s_inv s L" and "rt_inv rt"
  shows "\<exists>x. sampler_next s rt capacity now closed slot random = Some x \<and> after_next s L x"
proof -
  let ?s = "s\<lparr>sa_deadline := None\<rparr>"
  have i: "s_inv ?s L" using assms(1) by simp
  show ?thesis
  proof (cases "storage_fault s \<noteq> None \<or> storage_busy s")
    case True
    then have "storage_fault ?s \<noteq> None \<or> storage_busy ?s" by (simp add: storage_busy_def)
    then show ?thesis using i by (simp add: sampler_next_def after_next_def)
  next
    case False
    then have nb: "\<not> (storage_fault ?s \<noteq> None \<or> storage_busy ?s)" by (simp add: storage_busy_def)
    then have idle: "idle ?s" by (simp add: not_busy_idle)
    show ?thesis
    proof (cases "sa_session s")
      case None
      then show ?thesis using nb i by (simp add: sampler_next_def after_next_def)
    next
      case (Some se0)
      define seeds where "seeds = map (\<lambda>c. \<lparr>dn_id = nc_id c, dn_address = nc_address c\<rparr>)
               (closest_usable rt (se_target se0) (sc_shortlist_size (se_config se0)) now)"
      have "id_ok (dn_id n)" if "n \<in> set seeds" for n using that usable_ids [OF assms(2)] by (auto simp: seeds_def)
      then obtain s1 where s1: "add_nodes ?s seeds rt now = Some s1" "s_inv s1 L" "s1 = ?s\<lparr>sa_session := sa_session s1\<rparr>"
        "sa_session s1 \<noteq> None" using add_nodes_ok [OF i assms(2), of seeds now] Some by auto
      then obtain se1 where se1: "sa_session s1 = Some se1" by blast
      then have "se_ok se1" using s1(2) by (simp add: s_inv_def)
      then obtain se2 where se2: "retain_usable rt now se1 = Some se2" "se_ok se2" "resembles se2 se1"
        using retain_ok [OF assms(2)] by blast
      let ?st = "(sa_status s1)\<lparr>ss_in_flight := length (se_in_flight se2), ss_candidates := length (se_candidates se2)\<rparr>"
      let ?s2 = "s1\<lparr>sa_session := Some se2, sa_status := ?st\<rparr>"
      have "s_inv (s1\<lparr>sa_session := Some se2\<rparr>) L" by (rule inv_session [OF s1(2) se1 se2(3,2)])
      then have i2: "s_inv ?s2 L" by (rule inv_cong) simp_all
      have d: "sa_durable ?s2 = sa_durable s" by (subst s1(3)) simp
      have i3: "idle ?s2" using idle d by (simp add: idle_def ready_of_def reserving_of_def)
      have i4: "sa_session ?s2 = Some se2" by simp
      obtain x where x: "gate ?s2 se2 capacity now closed slot random = Some x" "after_next ?s2 L x"
        using gate_ok [OF i2 i4 i3] by blast
      have "sampler_next s rt capacity now closed slot random = gate ?s2 se2 capacity now closed slot random"
        using nb Some s1(1) se1 se2(1) by (simp add: sampler_next_def Let_def seeds_def)
      then show ?thesis using x d by (simp add: after_next_def)
    qed
  qed
qed

end
