(* ===== verification/SamplerProps.thy ===== *)
theory SamplerProps imports SamplerNext begin

text \<open>
  Runs of the sampler: every operation of the dispatcher on it, the events of the database and the changes of
  the identity keep the invariant of theory SamplerInv and never panic; what a chosen request satisfies; how
  long a failed node is left alone; and how long the database does.
\<close>

section \<open>Reservation and hand-over\<close>

text \<open>At most one request is inside the sampler.\<close>

definition exclusive :: "sampler \<Rightarrow> bool" where
  "exclusive s \<longleftrightarrow> reserving_of s = None \<or> ready_of s = None"

definition good :: "sampler \<Rightarrow> request list \<Rightarrow> bool" where
  "good s L \<longleftrightarrow> s_inv s L \<and> leased s L \<and> exclusive s"

lemma reserve_ok:
  assumes "s_inv s (r # L)" and "rq_lease r = None" and "idle s" and "sa_session s \<noteq> None" and "leased s L"
    and "reserve_request s r now fresh = (s', ro)"
  shows "good s' (case ro of None \<Rightarrow> L | Some r' \<Rightarrow> r' # L)"
proof -
  obtain se where se: "sa_session s = Some se" using assms(4) by blast
  have ex: "exclusive s" using assms(3) by (simp add: exclusive_def idle_def)
  show ?thesis
  proof (cases "sa_durable s")
    case None
    then have "s' = s" "ro = Some r" using assms(6) by (simp_all add: reserve_request_def)
    then show ?thesis using assms(1,5) None ex by (simp add: good_def leased_def)
  next
    case (Some d)
    have fault: "good (mark_storage_fault s e fresh) L" for e
      using inv_fault [OF assms(1)] leased_fault [OF assms(5)] by (simp add: good_def exclusive_def)
    consider (pass) "rq_kind r = FindNodeFallback" "s' = s" "ro = Some r"
      | (failed) e where "s' = mark_storage_fault s e fresh" "ro = None"
      | (reserved) rv where
          "s' = pause_with PauseStorage (s\<lparr>sa_deadline := None, sa_durable := Some (d\<lparr>du_reserving := Some rv\<rparr>)\<rparr>)"
          "rv_request rv = r" "ro = None"
      using assms(2,6) Some se unfolding reserve_request_def Let_def
      by (simp split: if_splits sum.splits) (metis reservation.select_convs(1))+
    then show ?thesis
    proof cases
      case pass
      then show ?thesis using assms(1,5) ex by (simp add: good_def leased_def)
    next
      case failed
      then show ?thesis using fault by simp
    next
      case reserved
      have g: "rq_generation r = sa_generation s" using assms(1) se by (simp add: s_inv_def linked_def)
      have w: "waiting s' = [r]" "\<not> stale s'" "ready_of s' = None" "waiting s = []"
        using assms(3) g reserved Some idle_waiting [OF assms(3)]
        by (simp_all add: waiting_def stale_def reserving_of_def ready_of_def idle_def)
      have f: "sa_session s' = Some se" "sa_ids s' = sa_ids s" "sa_ips s' = sa_ips s" "storage_fault s' = storage_fault s"
        "sa_generation s' = sa_generation s" "sa_durable s' \<noteq> None"
        using reserved se by simp_all
      have "mset (map rq_key (L @ [r])) = mset (map rq_key (r # L))" by simp
      then have "s_inv s' L" using assms(1) se w f by (simp add: s_inv_def linked_def)
      moreover have "leased s' L" using assms(5) w(3) Some by (simp add: leased_def)
      ultimately show ?thesis using reserved w(3) by (simp add: good_def exclusive_def)
    qed
  qed
qed

lemma take_reserved_cases:
  obtains "take_reserved s capacity now = (s, None)"
    | se where "sa_session s = Some se" "take_reserved s capacity now = (s\<lparr>sa_deadline := Some (se_next_send se)\<rparr>, None)"
    | d se r where "sa_durable s = Some d" "sa_session s = Some se" "du_ready d = Some r" "0 < capacity"
        "se_next_send se \<le> now"
        "take_reserved s capacity now =
          (s\<lparr>sa_session := Some (se\<lparr>se_next_send := now + sc_send_spacing (se_config se)\<rparr>),
             sa_durable := Some (d\<lparr>du_ready := None\<rparr>)\<rparr>, Some r)"
proof (cases "sa_durable s = None \<or> sa_session s = None \<or> ready_of s = None \<or> capacity = 0
    \<or> (\<exists>d. sa_durable s = Some d \<and> du_settling d \<noteq> [])")
  case True
  then have "take_reserved s capacity now = (s, None)"
    by (auto simp: take_reserved_def ready_of_def split: option.splits)
  then show ?thesis by (rule that(1))
next
  case False
  then obtain d se r where f: "sa_durable s = Some d" "sa_session s = Some se" "du_ready d = Some r" "0 < capacity" "du_settling d = []"
    by (auto simp: ready_of_def)
  show ?thesis
  proof (cases "now < se_next_send se")
    case True
    with f that(2) [of se] show ?thesis by (simp add: take_reserved_def)
  next
    case False
    with f that(3) [of d se r] show ?thesis by (simp add: take_reserved_def)
  qed
qed

lemma advance_ok:
  assumes "good s L" and "rt_inv rt"
  shows "\<exists>s' ro. advance_sampler s rt capacity now fresh slot random = Some (s', ro) \<and>
    good s' (case ro of None \<Rightarrow> L | Some r \<Rightarrow> r # L)"
proof (rule take_reserved_cases [of s capacity now])
  have next_case: "\<exists>s' ro. advance_sampler s rt capacity now fresh slot random = Some (s', ro) \<and>
      good s' (case ro of None \<Rightarrow> L | Some r \<Rightarrow> r # L)"
    if t: "take_reserved s capacity now = (t, None)" and g: "good t L" for t
  proof (cases "ready_of t")
    case (Some r)
    then show ?thesis using t g by (simp add: advance_sampler_def ready_of_def split: option.splits)
  next
    case None
    obtain t' ro where n: "sampler_next t rt capacity now False slot random = Some (t', ro)" "after_next t L (t', ro)"
      using next_ok [of t L rt capacity now False slot random] g assms(2) by (auto simp: good_def)
    have d: "sa_durable t' = sa_durable t" using n(2) by (simp add: after_next_def)
    then have lease: "leased t' L" "exclusive t'" using g leased_same
      by (auto simp: good_def exclusive_def ready_of_def reserving_of_def)
    have a: "advance_sampler s rt capacity now fresh slot random =
        (case ro of None \<Rightarrow> Some (t', None) | Some r \<Rightarrow> Some (reserve_request t' r now fresh))"
      using t n(1) None by (cases ro) (simp_all add: advance_sampler_def ready_of_def split: option.splits)
    show ?thesis
    proof (cases ro)
      case None
      then show ?thesis using a n(2) lease by (simp add: after_next_def good_def)
    next
      case (Some r)
      obtain u ro' where u: "reserve_request t' r now fresh = (u, ro')" by fastforce
      have "good u (case ro' of None \<Rightarrow> L | Some r' \<Rightarrow> r' # L)"
        using reserve_ok [OF _ _ _ _ lease(1) u] n(2) Some by (simp add: after_next_def)
      then show ?thesis using a Some u by simp
    qed
  qed
  { assume "take_reserved s capacity now = (s, None)"
    then show ?thesis using next_case assms(1) by blast
  next
    fix se assume "sa_session s = Some se" "take_reserved s capacity now = (s\<lparr>sa_deadline := Some (se_next_send se)\<rparr>, None)"
    moreover have "good (s\<lparr>sa_deadline := x\<rparr>) L" for x
      using assms(1) by (simp add: good_def exclusive_def leased_def ready_of_def reserving_of_def)
    ultimately show ?thesis using next_case by blast
  next
    fix d se r
    assume d: "sa_durable s = Some d" and se: "sa_session s = Some se" and r: "du_ready d = Some r"
      and t: "take_reserved s capacity now =
        (s\<lparr>sa_session := Some (se\<lparr>se_next_send := now + sc_send_spacing (se_config se)\<rparr>),
           sa_durable := Some (d\<lparr>du_ready := None\<rparr>)\<rparr>, Some r)" (is "_ = (?s', _)")
    have ready: "ready_of s = Some r" and none: "reserving_of s = None"
      using d r assms(1) by (simp_all add: ready_of_def good_def exclusive_def)
    have i: "s_inv s L" using assms(1) by (simp add: good_def)
    have w: "waiting s = [r]" "waiting ?s' = []" "\<not> stale s" "\<not> stale ?s'" "ready_of ?s' = None" "reserving_of ?s' = None"
      using ready none d by (simp_all add: waiting_def stale_def ready_of_def reserving_of_def)
    have "mset (map rq_key (r # L)) = mset (map rq_key (L @ [r]))" by simp
    then have "s_inv ?s' (r # L)" using i se w by (simp add: s_inv_def linked_def tracked_def se_ok_def cands_ok_def)
    moreover have lease: "rq_kind r = Sample \<Longrightarrow> rq_lease r \<noteq> None" and "leased ?s' (r # L)"
      using assms(1) d ready w(5) by (auto simp: good_def leased_def)
    moreover have "reserve_request ?s' r now fresh = (?s', Some r)"
      using lease by (cases "rq_kind r") (auto simp: reserve_request_def)
    ultimately show ?thesis using t w by (simp add: advance_sampler_def good_def exclusive_def) }
qed

section \<open>Outcomes\<close>

lemma exclusive_cong: "sa_durable s' = sa_durable s \<Longrightarrow> exclusive s' = exclusive s"
  by (simp add: exclusive_def ready_of_def reserving_of_def)

lemma good_cong:
  assumes "good s L" and "s_inv s' L'" and "sa_durable s' = sa_durable s" and "set L' \<subseteq> set L"
  shows "good s' L'"
  using assms leased_same [of s L' s'] leased_subset [of s L L'] exclusive_cong [OF assms(3)] by (simp add: good_def)

lemma good_finished: "good s (r # L) \<Longrightarrow> good (request_finished s r) L \<and> known (request_finished s r) r"
  using inv_finished [of s r L] good_cong [of s "r # L" "request_finished s r" L] by (auto simp: good_def [of s "r # L"])

lemma good_cooldown: "good s L \<Longrightarrow> known s r \<Longrightarrow> good (sampler_cooldown s (rq_node r) t f) L"
  by (rule good_cong [of s L]) (auto simp: good_def intro: inv_cooldown)

lemma good_fault: "good s L \<Longrightarrow> good (mark_storage_fault s e t) L"
  by (auto simp: good_def exclusive_def intro: inv_fault leased_fault)

lemma good_push: "good (push_settlement x s) L = good s L"
  by (simp add: good_def exclusive_def)

lemma good_settle: "good s L \<Longrightarrow> good (settle_request s r now fresh) L"
  by (rule settle_cases [of s r now fresh]) (auto intro: good_fault simp: good_push)

lemma good_status: "ss_storage_error st = storage_fault s \<Longrightarrow> good (s\<lparr>sa_status := st\<rparr>) L = good s L"
  by (simp add: good_def inv_status exclusive_def leased_def ready_of_def reserving_of_def)

lemma good_add_nodes:
  assumes "good s L" and "rt_inv rt" and "\<And>n. n \<in> set ns \<Longrightarrow> id_ok (dn_id n)"
  shows "\<exists>s'. add_nodes s ns rt now = Some s' \<and> good s' L \<and> storage_fault s' = storage_fault s"
proof -
  obtain s' where s': "add_nodes s ns rt now = Some s'" "s_inv s' L" "s' = s\<lparr>sa_session := sa_session s'\<rparr>"
    using add_nodes_ok [of s L rt ns now] assms by (auto simp: good_def)
  have "sa_durable s' = sa_durable s" "storage_fault s' = storage_fault s" by (subst s'(3), simp)+
  then show ?thesis using s' good_cong [OF assms(1) s'(2)] by auto
qed

lemma known_cong: "known s r \<Longrightarrow> sa_session s' = None \<longleftrightarrow> sa_session s = None \<Longrightarrow> sa_ids s' = sa_ids s \<Longrightarrow> sa_ips s' = sa_ips s \<Longrightarrow> known s' r"
  by (auto simp: known_def)

lemma success_ok:
  assumes "good s (r # L)" and "rt_inv rt" and "\<And>n. n \<in> set (sr_nodes resp) \<Longrightarrow> id_ok (dn_id n)"
  shows "\<exists>s' b. sampler_success s r resp rt now fresh sysnow = Some (s', b) \<and> good s' L"
proof -
  let ?s = "request_finished s r"
  have f: "good ?s L" "known ?s r" using good_finished [OF assms(1)] by simp_all
  show ?thesis
  proof (cases "sa_session ?s")
    case None
    then show ?thesis using f by (simp add: sampler_success_def Let_def del: finished_fields(6))
  next
    case (Some se)
    define w where "w = (case sa_durable ?s of None \<Rightarrow> Inr sysnow | Some d \<Rightarrow> wall_at (du_clock d) now)"
    define u where "u = settle_request (sampler_cooldown ?s (rq_node r) (now + max (sr_interval resp) (sc_minimum_interval (se_config se))) 0) r now fresh"
    have "good u L" using f unfolding u_def by (intro good_settle good_cooldown)
    then obtain v where v: "add_nodes u (sr_nodes resp) rt now = Some v" "good v L"
      using good_add_nodes [OF _ assms(2,3)] by blast
    have e: "sampler_success s r resp rt now fresh sysnow = (case w of
          Inl e \<Rightarrow> Some (mark_storage_fault ?s (clock_storage_error e) fresh, None)
        | Inr observed_at \<Rightarrow> (case add_nodes u (sr_nodes resp) rt now of None \<Rightarrow> None
           | Some s \<Rightarrow> Some (s\<lparr>sa_status := (sa_status s)\<lparr>ss_successful := ss_successful (sa_status s) + 1\<rparr>\<rparr>,
               if rq_permit r then Some \<lparr>sb_observed_at = observed_at, sb_responder = rq_node r,
                 sb_target = rq_target r, sb_received_at = now, sb_interval = sr_interval resp,
                 sb_num = sr_num resp, sb_samples = sr_samples resp\<rparr> else None)))"
      unfolding sampler_success_def Let_def Some option.case w_def u_def by (rule refl)
    show ?thesis using e v good_fault [OF f(1)] by (cases w) (simp_all add: good_status)
  qed
qed

lemma nodes_ok:
  assumes "good s (r # L)" and "rt_inv rt" and "\<And>n. n \<in> set ns \<Longrightarrow> id_ok (dn_id n)"
  shows "\<exists>s'. sampler_nodes s r ns rt now fresh = Some s' \<and> good s' L"
proof -
  let ?s = "request_finished s r"
  have f: "good ?s L" "known ?s r" using good_finished [OF assms(1)] by simp_all
  let ?t = "?s\<lparr>sa_status := (sa_status ?s)\<lparr>ss_unsupported := ss_unsupported (sa_status ?s) + 1\<rparr>\<rparr>"
  have "good ?t L" "known ?t r" using f known_cong [OF f(2)] by (simp_all add: good_status)
  then have "good (sampler_cooldown ?t (rq_node r) t 0) L" for t by (rule good_cooldown)
  then have "good (settle_request (if rq_kind r = Sample then sampler_cooldown ?t (rq_node r) (now + UNSUPPORTED_FOR) 0 else ?s) r now fresh) L"
    using f(1) by (intro good_settle) simp
  from good_add_nodes [OF this assms(2,3)] show ?thesis unfolding sampler_nodes_def Let_def by blast
qed

lemma failure_ok:
  assumes "good s (r # L)"
  shows "good (sampler_failure s r e now fresh) L"
proof -
  let ?s = "request_finished s r"
  have f: "good ?s L" "known ?s r" using good_finished [OF assms(1)] by simp_all
  show ?thesis
  proof (cases "sa_session ?s")
    case None
    then show ?thesis using f by (simp add: sampler_failure_def Let_def del: finished_fields(6))
  next
    case (Some se)
    define se' where "se' = (case hm_get (se_candidates se) (rq_id r) of None \<Rightarrow> se
        | Some c \<Rightarrow> se\<lparr>se_candidates := hm_put (rq_id r) (c\<lparr>ca_kind := FindNodeFallback\<rparr>) (se_candidates se)\<rparr>)"
    have ok: "se_ok se" using f(1) Some by (simp add: good_def s_inv_def del: finished_fields)
    then have co: "cands_ok se" by (simp add: se_ok_def)
    have "se_ok se' \<and> resembles se' se"
    proof (cases "hm_get (se_candidates se) (rq_id r)")
      case None
      then show ?thesis using ok by (simp add: se'_def)
    next
      case get: (Some c)
      have "cands_ok se'" using cands_ok_put [OF co, of "rq_id r" "c\<lparr>ca_kind := FindNodeFallback\<rparr>"] cands_get [OF co get]
        by (simp add: se'_def get)
      moreover have "length (hm_put (rq_id r) x (se_candidates se)) = length (se_candidates se)" for x
        by (simp add: length_hm_put get)
      ultimately show ?thesis using ok by (simp add: se_ok_def se'_def get resembles_def)
    qed
    then have "s_inv (?s\<lparr>sa_session := Some se'\<rparr>) L" using f(1) inv_session [OF _ Some] by (simp add: good_def)
    then have g1: "good (?s\<lparr>sa_session := Some se'\<rparr>) L" by (rule good_cong [OF f(1)]) simp_all
    let ?u = "?s\<lparr>sa_session := Some se', sa_status := (sa_status ?s)\<lparr>ss_unsupported := ss_unsupported (sa_status ?s) + 1\<rparr>\<rparr>"
    let ?v = "?s\<lparr>sa_status := (sa_status ?s)\<lparr>ss_failed := ss_failed (sa_status ?s) + 1\<rparr>\<rparr>"
    have "good ?u L" using g1 good_status [of "(sa_status ?s)\<lparr>ss_unsupported := ss_unsupported (sa_status ?s) + 1\<rparr>" "?s\<lparr>sa_session := Some se'\<rparr>" L]
      by simp
    moreover have "known ?u r" using f(2) Some by (auto simp: known_def simp del: finished_fields(6))
    moreover have "good ?v L" "known ?v r" using f known_cong [OF f(2)] by (simp_all add: good_status)
    ultimately have "good (sampler_cooldown ?u (rq_node r) t n) L" "good (sampler_cooldown ?v (rq_node r) t n) L" for t n
      by (auto intro: good_cooldown)
    then show ?thesis unfolding sampler_failure_def Let_def Some option.case se'_def [symmetric]
      by (intro good_settle) simp
  qed
qed

lemma abandon_good: "good s (r # L) \<Longrightarrow> good (abandon_unsent s r now) L"
  using inv_abandon [of s r L now] leased_cong [of "abandon_unsent s r now" s L] leased_subset [of s "r # L" L]
  by (auto simp: good_def exclusive_def)

lemma uncertain_good: "good s (r # L) \<Longrightarrow> good (uncertain_send s r now fresh) L"
proof -
  assume g: "good s (r # L)"
  have f: "good (request_finished s r) L" "known (request_finished s r) r" using good_finished [OF g] by simp_all
  have "good (sampler_cooldown (request_finished s r) (rq_node r) t n) L" for t n using f by (rule good_cooldown)
  then show ?thesis using f good_fault [OF f(1)]
    by (simp add: uncertain_send_def cancel_request_def Let_def good_push split: option.split)
qed

section \<open>Start, stop and database results\<close>

lemma validate_ok: "validate_sampler mp cfg pend now = Inr u \<Longrightarrow> sc_parallelism cfg \<le> sc_candidate_capacity cfg"
  by (simp add: validate_sampler_def split: if_splits)

lemma good_retained:
  assumes "good s L" and "sa_session s = None"
  shows "good (s\<lparr>sa_ids := hm_retain f (sa_ids s), sa_ips := hm_retain g (sa_ips s)\<rparr>) L"
  by (rule good_cong [OF assms(1)]) (use assms in \<open>auto simp: good_def s_inv_def ready_of_def\<close>)

lemma start_ok:
  assumes "good s L" and "\<And>r. reserving_of s = Some r \<Longrightarrow> rq_generation r \<noteq> sa_generation s + 1"
  shows "good (fst (sampler_start mp s cfg pend now random)) L"
proof (cases "storage_fault s \<noteq> None \<or> sa_session s \<noteq> None")
  case True
  then show ?thesis using assms(1) by (auto simp: sampler_start_def)
next
  case False
  then have none: "sa_session s = None" "storage_fault s = None" by simp_all
  then have L: "L = []" "ready_of s = None" using assms(1) by (simp_all add: good_def s_inv_def)
  define t where "t = s\<lparr>sa_ids := hm_retain (\<lambda>_ v. cd_until v > now) (sa_ids s), sa_ips := hm_retain (\<lambda>_ until. until > now) (sa_ips s)\<rparr>"
  have t: "good t L" unfolding t_def by (rule good_retained [OF assms(1) none(1)])
  define u where "u = t\<lparr>sa_generation := sa_generation t + 1,
                 sa_session := Some \<lparr>se_config = cfg, se_ready_permit = False, se_candidates = [], se_in_flight = [],
                   se_target = random, se_queries = 0, se_next_send = now\<rparr>,
                 sa_status := default_sampler_status\<lparr>ss_running := True\<rparr>, sa_deadline := Some now\<rparr>"
  have d: "sa_durable u = sa_durable s" by (simp add: u_def t_def)
  have gen: "sa_generation u = sa_generation s + 1" by (simp add: u_def t_def)
  have ru: "reserving_of u = reserving_of s" "ready_of u = None"
    using L(2) by (simp_all add: reserving_of_def ready_of_def d)
  have w: "waiting u = []"
    using ru assms(2) gen by (auto simp: waiting_def split: option.split)
  have *: "good u L" if "validate_sampler mp cfg pend now = Inr x" "length (sa_ids t) \<le> sc_cooldown_capacity cfg"
    "length (sa_ips t) \<le> sc_cooldown_capacity cfg" for x
  proof -
    have "s_inv u []"
      using t that(2,3) validate_ok [OF that(1)] w
      by (simp add: good_def s_inv_def se_ok_def cands_ok_def tracked_def linked_def u_def default_sampler_status_def)
    then show ?thesis using ru d L by (simp add: good_def leased_def exclusive_def)
  qed
  have e: "sampler_start mp s cfg pend now random = (if sa_durable s \<noteq> None \<and> sc_cooldown_capacity cfg > 10000 then (s, Inl InvalidSamplerConfig)
      else case validate_sampler mp cfg pend now of Inl e \<Rightarrow> (s, Inl e)
      | Inr _ \<Rightarrow> if length (sa_ids t) > sc_cooldown_capacity cfg \<or> length (sa_ips t) > sc_cooldown_capacity cfg
          then (t, Inl InvalidSamplerConfig) else (u, Inr ()))"
    unfolding sampler_start_def Let_def t_def [symmetric] u_def [symmetric] using none by simp
  show ?thesis unfolding e using assms(1) t *
    by (cases "validate_sampler mp cfg pend now") auto
qed

lemma fold_abandon: "good s (q @ L) \<Longrightarrow> good (fold (\<lambda>r s. abandon_unsent s r now) q s) L"
  by (induction q arbitrary: s) (auto dest: abandon_good)

lemma cancel_stopped:
  assumes "good s L" and "sa_session s = None"
  shows "good (cancel_request s r now fresh) L \<and> sa_session (cancel_request s r now fresh) = None"
proof -
  have "known s r" using assms(2) by (simp add: known_def)
  then have "good (sampler_cooldown s (rq_node r) t n) L" for t n using good_cooldown assms(1) by blast
  then show ?thesis using good_fault [OF assms(1)] assms
    by (auto simp: cancel_request_def Let_def good_push split: option.split)
qed

lemma fold_cancel_stopped:
  "good s L \<Longrightarrow> sa_session s = None \<Longrightarrow> good (fold (\<lambda>r s. cancel_request s r now fresh) p s) L"
proof (induction p arbitrary: s)
  case (Cons r p)
  have "good (cancel_request s r now fresh) L" "sa_session (cancel_request s r now fresh) = None"
    using cancel_stopped [OF Cons.prems] by simp_all
  from Cons.IH [OF this] show ?case by simp
qed simp

lemma stop_sampler_ok:
  assumes "good s (q @ p)"
  shows "good (stop_sampler s q p now fresh) []"
proof -
  let ?t = "fold (\<lambda>r s. abandon_unsent s r now) q s"
  have "good ?t p" using fold_abandon assms by blast
  then have "good (sampler_stop ?t now) []"
    by (auto simp: good_def exclusive_def leased_def intro: inv_stop)
  then show ?thesis unfolding stop_sampler_def by (intro fold_cancel_stopped) simp_all
qed

lemma abandon_maps: "hm_ok (sa_ids s) \<Longrightarrow> hm_ok (sa_ips s) \<Longrightarrow>
    hm_ok (sa_ids (abandon_unsent s r now)) \<and> hm_ok (sa_ips (abandon_unsent s r now))"
  by (simp add: abandon_unsent_def Let_def split: option.split)

lemma stop_hm_ok:
  assumes "hm_ok (sa_ids s)" and "hm_ok (sa_ips s)"
  shows "hm_ok (sa_ids (sampler_stop s now)) \<and> hm_ok (sa_ips (sampler_stop s now))"
proof -
  obtain s' ro where t: "take_ready s = (s', ro)" by fastforce
  have "hm_ok (sa_ids s')" "hm_ok (sa_ips s')" using take_ready_fields [OF t] assms by simp_all
  then have "hm_ok (sa_ids (abandon_ready s now))" "hm_ok (sa_ips (abandon_ready s now))"
    using abandon_maps by (auto simp: abandon_ready_def t split: option.split)
  then show ?thesis by (auto simp: sampler_stop_def Let_def hold_fold split: option.split)
qed

lemma fault_any:
  assumes "hm_ok (sa_ids s)" and "hm_ok (sa_ips s)"
    and "\<And>r. r \<in> set L \<Longrightarrow> sa_durable s \<noteq> None \<Longrightarrow> rq_kind r = Sample \<Longrightarrow> rq_lease r \<noteq> None"
  shows "good (mark_storage_fault s e now) L"
proof -
  have "s_inv (mark_storage_fault s e now) L"
    using stop_hm_ok [OF assms(1,2), of now] by (simp add: inv_stopped) (simp add: mark_storage_fault_def Let_def)
  moreover have "leased (mark_storage_fault s e now) L" using assms(3) by (auto simp: leased_def)
  ultimately show ?thesis by (simp add: good_def exclusive_def)
qed

lemma inv_abandon_foreign:
  assumes "s_inv s L" and "\<And>se. sa_session s = Some se \<Longrightarrow> se_in_flight se = []"
  shows "s_inv (abandon_unsent s r now) L"
proof -
  define s1 where "s1 = request_finished s r"
  have s1: "s_inv s1 L \<and> (\<forall>se. sa_session s1 = Some se \<longrightarrow> se_in_flight se = [])"
  proof (cases "sa_session s")
    case None
    then show ?thesis using assms(1) unfolding s1_def by (auto simp: request_finished_def)
  next
    case (Some se)
    then have "se\<lparr>se_in_flight := []\<rparr> = se" using assms(2) [OF Some] by simp
    then have "sa_session s1 = Some se" using Some assms(2) [OF Some] by (simp add: s1_def hm_remove_def)
    then show ?thesis using assms(2) [OF Some] inv_cong [OF assms(1), of s1] Some by (simp add: s1_def)
  qed
  define s2 where "s2 = (if rq_kind r = Sample
               then (let s = s1\<lparr>sa_ids := hm_remove (rq_id r) (sa_ids s1), sa_ips := hm_remove (rq_ip r) (sa_ips s1)\<rparr>
                     in case rq_lease r of None \<Rightarrow> s | Some lease \<Rightarrow> push_settlement (Abandon lease) s)
               else s1)"
  have "s_inv s2 L" using s1 inv_forget [of s1 L "rq_id r" "rq_ip r"]
    by (auto simp: s2_def Let_def split: option.split)
  moreover have "abandon_unsent s r now = (case sa_session s2 of None \<Rightarrow> s2
         | Some se \<Rightarrow> (let at = max (se_next_send se) (now + secs 1)
                       in s2\<lparr>sa_session := Some (se\<lparr>se_next_send := at\<rparr>), sa_deadline := Some at\<rparr>))"
    unfolding abandon_unsent_def s1_def s2_def Let_def by (rule refl)
  ultimately show ?thesis using next_send_inv by (auto simp: Let_def split: option.split)
qed

lemma good_durable:
  assumes "sa_durable s = Some d" and "du_ready d' = du_ready d" and "du_reserving d' = du_reserving d"
  shows "good (s\<lparr>sa_durable := Some d'\<rparr>) L = good s L"
proof -
  let ?s = "s\<lparr>sa_durable := Some d'\<rparr>"
  have r: "ready_of ?s = ready_of s" "reserving_of ?s = reserving_of s" using assms by (simp_all add: ready_of_def reserving_of_def)
  then have "waiting ?s = waiting s" "stale ?s = stale s" by (simp_all add: waiting_def stale_def cong: option.case_cong)
  then show ?thesis using r assms(1) by (simp add: good_def s_inv_def linked_def leased_def exclusive_def split: option.split)
qed

lemma event_ok:
  assumes "good s L"
  shows "good (storage_event s ev fresh) L"
proof (cases "sa_durable s")
  case None
  then show ?thesis using assms by (simp add: storage_event_def)
next
  case (Some d)
  show ?thesis
  proof (cases ev)
    case (Settled n res)
    let ?d = "d\<lparr>du_settling := take n (du_settling d) @ drop (Suc n) (du_settling d)\<rparr>"
    have "good (s\<lparr>sa_durable := Some ?d\<rparr>) L" using assms good_durable [OF Some, of ?d] by simp
    then show ?thesis using assms good_fault [of "s\<lparr>sa_durable := Some ?d\<rparr>" L]
      by (cases res) (simp_all add: storage_event_def Some Settled Let_def)
  next
    case (Reserved res)
    show ?thesis
    proof (cases "du_reserving d")
      case None
      then show ?thesis using assms by (simp add: storage_event_def Some Reserved)
    next
      case rv: (Some rv)
      define s1 where "s1 = s\<lparr>sa_durable := Some (d\<lparr>du_reserving := None\<rparr>)\<rparr>"
      have f: "sa_session s1 = sa_session s" "sa_ids s1 = sa_ids s" "sa_ips s1 = sa_ips s" "sa_generation s1 = sa_generation s"
        "storage_fault s1 = storage_fault s" "sa_durable s1 \<noteq> None" "reserving_of s1 = None" "ready_of s1 = None"
        using assms rv Some by (simp_all add: s1_def reserving_of_def ready_of_def good_def exclusive_def)
      have i: "s_inv s L" "leased s L" "ready_of s = None" and rs: "reserving_of s = Some (rv_request rv)"
        using assms rv Some by (simp_all add: good_def reserving_of_def exclusive_def)
      then have maps: "hm_ok (sa_ids s)" "hm_ok (sa_ips s)" by (simp_all add: s_inv_def)
      show ?thesis
      proof (cases res)
        case (Inl e)
        have "good (mark_storage_fault s1 e fresh) L"
          by (rule fault_any) (use maps f i(2) Some in \<open>auto simp: leased_def\<close>)
        then show ?thesis by (simp add: storage_event_def Some Reserved rv Inl Let_def s1_def)
      next
        case (Inr lease)
        define r where "r = (rv_request rv)\<lparr>rq_lease := Some lease\<rparr>"
        show ?thesis
        proof (cases "sa_session s \<noteq> None \<and> rq_generation r = sa_generation s")
          case True
          then obtain se where se: "sa_session s = Some se" by blast
          define s2 where "s2 = s1\<lparr>sa_durable := Some (d\<lparr>du_reserving := None, du_ready := Some r\<rparr>)\<rparr>"
          have w: "waiting s2 = [r]" "\<not> stale s2" "ready_of s2 = Some r" "reserving_of s2 = None" "waiting s = [rv_request rv]"
            using i(3) rs True by (simp_all add: s2_def waiting_def stale_def reserving_of_def ready_of_def r_def)
          have "s_inv s2 L" using i(1) se w f
            by (simp add: s_inv_def linked_def s2_def) (simp add: r_def rq_key_def)
          moreover have "leased s2 L" using i(2) w(3) Some by (auto simp: leased_def r_def)
          ultimately have "good s2 L" using w by (simp add: good_def exclusive_def)
          then show ?thesis using True by (simp add: storage_event_def Some Reserved rv Inr Let_def r_def s1_def s2_def)
        next
          case False
          have "s_inv s1 L \<and> (\<forall>se. sa_session s1 = Some se \<longrightarrow> se_in_flight se = [])"
          proof (cases "sa_session s")
            case None
            then show ?thesis using i(1,3) f by (simp add: s_inv_def)
          next
            case se: (Some se)
            then have "stale s" using False rs by (simp add: stale_def r_def)
            then have fl: "se_in_flight se = []" using i(1) se by (simp add: s_inv_def linked_def)
            have w: "waiting s1 = []" "\<not> stale s1" using f by (simp_all add: waiting_def stale_def)
            have "L = []" using i(1) se fl by (simp add: s_inv_def linked_def)
            then show ?thesis using i(1) se f w fl by (simp add: s_inv_def linked_def)
          qed
          then have "s_inv (abandon_unsent s1 r fresh) L" using inv_abandon_foreign by blast
          moreover have "leased (abandon_unsent s1 r fresh) L" using i(2,3) f(8) Some by (auto simp: leased_def s1_def)
          ultimately have "good (abandon_unsent s1 r fresh) L" using f by (simp add: good_def exclusive_def)
          then show ?thesis using False by (auto simp: storage_event_def Some Reserved rv Inr Let_def r_def s1_def)
        qed
      qed
    qed
  qed
qed

section \<open>Change of identity\<close>

text \<open>
  While the sampler drains, its in-flight map may still hold cancelled requests; what is known is that the
  requests that are given back are in it, or that it is empty.
\<close>

definition draining :: "sampler \<Rightarrow> request list \<Rightarrow> bool" where
  "draining s p \<longleftrightarrow> hm_ok (sa_ids s) \<and> hm_ok (sa_ips s) \<and> exclusive s \<and> (case sa_session s of None \<Rightarrow> True
     | Some se \<Rightarrow> storage_fault s = None \<and> se_ok se \<and> tracked (sa_ids s) (sa_ips s) se \<and>
         rq_key ` (set p \<union> set_option (ready_of s)) \<subseteq> set (se_in_flight se) \<and>
         (se_in_flight se = [] \<or> rq_key ` set_option (reserving_of s) \<subseteq> set (se_in_flight se)))"

lemma good_draining:
  assumes "good s p"
  shows "draining s p"
proof (cases "sa_session s")
  case None
  then show ?thesis using assms by (simp add: good_def s_inv_def draining_def)
next
  case (Some se)
  have l: "linked s se p" using assms Some by (simp add: good_def s_inv_def)
  have "rq_key ` (set p \<union> set_option (ready_of s)) \<subseteq> set (se_in_flight se)"
    using linked_key [OF l] by (force simp: waiting_def split: option.splits)
  moreover have "se_in_flight se = [] \<or> rq_key ` set_option (reserving_of s) \<subseteq> set (se_in_flight se)"
  proof (cases "stale s")
    case True
    then show ?thesis using l by (simp add: linked_def)
  next
    case False
    then have "set_option (reserving_of s) \<subseteq> set (waiting s)" by (auto simp: stale_def waiting_def)
    then show ?thesis using linked_key [OF l] by auto
  qed
  ultimately show ?thesis using assms Some by (simp add: good_def s_inv_def draining_def)
qed

lemma draining_fault: "hm_ok (sa_ids s) \<Longrightarrow> hm_ok (sa_ips s) \<Longrightarrow> draining (mark_storage_fault s e now) p"
  using stop_hm_ok [of s now] by (simp add: draining_def exclusive_def) (simp add: mark_storage_fault_def Let_def)

lemma draining_in:
  "draining s p \<Longrightarrow> sa_session s = Some se \<Longrightarrow> r \<in> set p \<union> set_option (ready_of s) \<Longrightarrow> rq_key r \<in> set (se_in_flight se)"
  "draining s p \<Longrightarrow> sa_session s = Some se \<Longrightarrow> reserving_of s = Some r \<Longrightarrow>
     se_in_flight se = [] \<or> rq_key r \<in> set (se_in_flight se)"
  by (auto simp: draining_def)

lemma draining_push [simp]: "draining (push_settlement x s) p = draining s p"
  by (simp add: draining_def exclusive_def split: option.split)

lemma draining_cooldown:
  assumes "draining s (r # p)"
  shows "draining (sampler_cooldown s (rq_node r) t n) p"
proof -
  let ?s = "sampler_cooldown s (rq_node r) t n"
  have rs: "ready_of ?s = ready_of s" "reserving_of ?s = reserving_of s" by (simp_all add: ready_of_def reserving_of_def)
  have maps: "sa_ids ?s = cool_id (sa_ids s) (rq_id r) t n" "sa_ips ?s = cool_ip (sa_ips s) (rq_ip r) t"
    by (simp_all add: sampler_cooldown_def)
  show ?thesis
  proof (cases "sa_session s")
    case None
    then show ?thesis using assms rs by (simp add: draining_def exclusive_def maps cool_keys)
  next
    case (Some se)
    have tr: "tracked (sa_ids s) (sa_ips s) se" and "(rq_id r, rq_ip r) \<in> set (se_in_flight se)"
      using assms Some by (auto simp: draining_def rq_key_def)
    then have "tracked (sa_ids ?s) (sa_ips ?s) se"
      using tracked_in [OF tr] by (auto simp: tracked_def maps cool_keys)
    then show ?thesis using assms rs Some by (simp add: draining_def exclusive_def maps cool_keys)
  qed
qed

lemma draining_drop: "draining s (r # p) \<Longrightarrow> draining s p"
  by (auto simp: draining_def split: option.splits)

lemma draining_cancel: "draining s (r # p) \<Longrightarrow> draining (cancel_request s r now fresh) p"
proof -
  assume d: "draining s (r # p)"
  then have maps: "hm_ok (sa_ids s)" "hm_ok (sa_ips s)" by (simp_all add: draining_def)
  show ?thesis using draining_cooldown [OF d] draining_drop [OF d] draining_fault [OF maps]
    by (simp add: cancel_request_def Let_def split: option.split)
qed

lemma fold_cancel: "draining s p \<Longrightarrow> draining (fold (\<lambda>r s. cancel_request s r now fresh) p s) []"
  by (induction p arbitrary: s) (auto dest: draining_cancel)

text \<open>Giving back a request that is in the map, or any request when the map is empty.\<close>

lemma draining_abandon:
  assumes "draining s []" and "ready_of s = None" and "reserving_of s = None"
    and "\<And>se. sa_session s = Some se \<Longrightarrow> se_in_flight se = [] \<or> rq_key r \<in> set (se_in_flight se)"
  shows "draining (abandon_unsent s r now) []"
proof (cases "sa_session s")
  case None
  then have n: "sa_session (abandon_unsent s r now) = None" by simp
  show ?thesis unfolding draining_def n option.case using assms abandon_maps by (simp add: draining_def exclusive_def)
next
  case (Some se)
  define fl where "fl = hm_remove (rq_id r) (se_in_flight se)"
  have ok: "se_ok se" "tracked (sa_ids s) (sa_ips s) se" "storage_fault s = None" using assms(1) Some by (simp_all add: draining_def)
  have fl1: "rq_ip r \<notin> snd ` set fl"
  proof (cases "se_in_flight se = []")
    case True
    then show ?thesis by (simp add: fl_def hm_remove_def)
  next
    case False
    then have k: "(rq_id r, rq_ip r) \<in> set (se_in_flight se)" using assms(4) [OF Some] by (simp add: rq_key_def)
    have d: "inj_on snd (set (se_in_flight se))" using ok(1) by (simp add: se_ok_def distinct_map)
    show ?thesis using inj_onD [OF d _ _ k] by (auto simp: fl_def hm_set_remove)
  qed
  have fl2: "rq_id r \<notin> fst ` set fl" by (simp add: fl_def hm_keys_remove)
  let ?se = "se\<lparr>se_in_flight := fl\<rparr>"
  have ok2: "se_ok (?se\<lparr>se_next_send := t\<rparr>)" for t
    using se_ok_remove [OF ok(1), of "rq_id r"] by (simp add: fl_def se_ok_def cands_ok_def)
  have "tracked (sa_ids s) (sa_ips s) ?se" using tracked_remove [OF ok(2)] by (simp add: fl_def)
  then have tr: "tracked (sa_ids s) (sa_ips s) (?se\<lparr>se_next_send := t\<rparr>)"
     "tracked (hm_remove (rq_id r) (sa_ids s)) (hm_remove (rq_ip r) (sa_ips s)) (?se\<lparr>se_next_send := t\<rparr>)" for t
    using tracked_forget [of _ _ ?se "rq_id r" "rq_ip r"] fl1 fl2 by (simp_all add: tracked_def)
  define a where "a = abandon_unsent s r now"
  have f: "sa_session a = Some (?se\<lparr>se_next_send := max (se_next_send se) (now + secs 1)\<rparr>)"
    "(sa_ids a, sa_ips a) = (if rq_kind r = Sample then (hm_remove (rq_id r) (sa_ids s), hm_remove (rq_ip r) (sa_ips s)) else (sa_ids s, sa_ips s))"
    using Some by (auto simp: a_def abandon_unsent_def Let_def fl_def split: option.split)
  have "draining a []"
    using assms(1-3) f ok(3) ok2 tr abandon_maps [of s r now]
    by (cases "rq_kind r") (simp_all add: draining_def exclusive_def a_def)
  then show ?thesis by (simp add: a_def)
qed

lemma draining_cong:
  assumes "draining s p" and "sa_session s' = sa_session s" and "sa_ids s' = sa_ids s" and "sa_ips s' = sa_ips s"
    and "storage_fault s' = storage_fault s" and "set_option (ready_of s') \<subseteq> set_option (ready_of s)"
    and "set_option (reserving_of s') \<subseteq> set_option (reserving_of s)"
  shows "draining s' p"
proof -
  have "exclusive s'" using assms(1,6,7) by (auto simp: draining_def exclusive_def)
  then show ?thesis using assms unfolding draining_def by (cases "sa_session s") auto
qed

text \<open>No request is ready, and one that is still being reserved belongs to an old generation.\<close>

definition old_only :: "sampler \<Rightarrow> bool" where
  "old_only s \<longleftrightarrow> draining s [] \<and> ready_of s = None \<and> (\<forall>r. reserving_of s = Some r \<longrightarrow> rq_generation r \<noteq> sa_generation s)"

lemma draining_abandon_ready:
  assumes "draining s []"
  shows "draining (abandon_ready s now) []"
proof -
  obtain s' ro where t: "take_ready s = (s', ro)" by fastforce
  note f = take_ready_fields [OF t]
  have d: "draining s' []" by (rule draining_cong [OF assms]) (use f in auto)
  show ?thesis
  proof (cases ro)
    case None
    then show ?thesis using d by (simp add: abandon_ready_def t)
  next
    case (Some r)
    then have "reserving_of s' = None" using f assms by (auto simp: draining_def exclusive_def)
    moreover have "se_in_flight se = [] \<or> rq_key r \<in> set (se_in_flight se)" if "sa_session s' = Some se" for se
      using draining_in(1) [OF assms, of se r] f Some that by auto
    ultimately have "draining (abandon_unsent s' r now) []" using d f by (intro draining_abandon) auto
    then show ?thesis by (simp add: abandon_ready_def t Some)
  qed
qed

lemma old_fault: "old_only s \<Longrightarrow> sa_generation s' = sa_generation s \<Longrightarrow> hm_ok (sa_ids s') \<Longrightarrow> hm_ok (sa_ips s') \<Longrightarrow>
    set_option (reserving_of s') \<subseteq> set_option (reserving_of s) \<Longrightarrow> old_only (mark_storage_fault s' e now)"
  using draining_fault [of s' e now "[]"] by (auto simp: old_only_def)

lemma old_event:
  assumes "old_only s"
  shows "old_only (storage_event s ev fresh) \<and> sa_generation (storage_event s ev fresh) = sa_generation s"
proof (cases "sa_durable s")
  case None
  then show ?thesis using assms by (simp add: storage_event_def)
next
  case (Some d)
  have o: "draining s []" "ready_of s = None" "\<And>r. reserving_of s = Some r \<Longrightarrow> rq_generation r \<noteq> sa_generation s"
    using assms by (simp_all add: old_only_def)
  then have maps: "hm_ok (sa_ids s)" "hm_ok (sa_ips s)" by (simp_all add: draining_def)
  show ?thesis
  proof (cases ev)
    case (Settled n res)
    define t where "t = s\<lparr>sa_durable := Some (d\<lparr>du_settling := take n (du_settling d) @ drop (Suc n) (du_settling d)\<rparr>)\<rparr>"
    have r: "ready_of t = ready_of s" "reserving_of t = reserving_of s" using Some by (simp_all add: t_def ready_of_def reserving_of_def)
    have "draining t []" by (rule draining_cong [OF o(1)]) (simp_all add: r, simp_all add: t_def)
    then have "old_only t" using o(2,3) r by (simp add: old_only_def t_def)
    moreover have "old_only (mark_storage_fault t e fresh)" for e
      using old_fault [OF assms, of t e fresh] maps r by (simp add: t_def)
    ultimately show ?thesis using assms
      by (cases res) (simp_all add: storage_event_def Some Settled Let_def t_def)
  next
    case (Reserved res)
    show ?thesis
    proof (cases "du_reserving d")
      case None
      then show ?thesis using assms by (simp add: storage_event_def Some Reserved)
    next
      case rv: (Some rv)
      define t where "t = s\<lparr>sa_durable := Some (d\<lparr>du_reserving := None\<rparr>)\<rparr>"
      have r: "ready_of t = None" "reserving_of t = None" "reserving_of s = Some (rv_request rv)"
        using Some o(2) rv by (simp_all add: t_def ready_of_def reserving_of_def)
      have d: "draining t []" by (rule draining_cong [OF o(1)]) (use r o(2) in simp_all, simp_all add: t_def)
      show ?thesis
      proof (cases res)
        case (Inl e)
        have "old_only (mark_storage_fault t e fresh)" using old_fault [OF assms, of t e fresh] maps r by (simp add: t_def)
        then show ?thesis by (simp add: storage_event_def Some Reserved rv Inl Let_def t_def)
      next
        case (Inr lease)
        define x where "x = (rv_request rv)\<lparr>rq_lease := Some lease\<rparr>"
        have x: "rq_generation x \<noteq> sa_generation s" "rq_key x = rq_key (rv_request rv)"
          using o(3) r(3) by (simp_all add: x_def rq_key_def)
        have "se_in_flight se = [] \<or> rq_key x \<in> set (se_in_flight se)" if "sa_session t = Some se" for se
          using draining_in(2) [OF o(1) _ r(3), of se] that x(2) by (simp add: t_def)
        then have "draining (abandon_unsent t x fresh) []" using d r(1,2) by (intro draining_abandon) auto
        then have "old_only (abandon_unsent t x fresh)" using r by (simp add: old_only_def)
        then show ?thesis using x(1) by (simp add: storage_event_def Some Reserved rv Inr Let_def x_def t_def)
      qed
    qed
  qed
qed

lemma old_flush: "old_only s \<Longrightarrow> flush_storage s evs = Some (s', res) \<Longrightarrow>
    old_only s' \<and> drained s' \<and> (res = Inr () \<longrightarrow> storage_fault s' = None)"
proof (induction s evs rule: flush_storage.induct)
  case (1 s evs)
  show ?case
  proof (cases "drained s")
    case True
    then show ?thesis using "1.prems" by (auto simp: flush_storage.simps [of s] split: option.splits)
  next
    case False
    then obtain ev fresh evs' where e: "evs = (ev, fresh) # evs'" and f: "flush_storage (storage_event s ev fresh) evs' = Some (s', res)"
      using "1.prems"(2) by (auto simp: flush_storage.simps [of s] split: list.splits)
    show ?thesis using "1.IH" [OF False e refl _ f] old_event [OF "1.prems"(1)] by blast
  qed
qed

lemma abandon_generation_fold [simp]: "sa_generation (fold (\<lambda>r s. abandon_unsent s r now) q s) = sa_generation s"
  "reserving_of (fold (\<lambda>r s. abandon_unsent s r now) q s) = reserving_of s"
  by (induction q arbitrary: s) simp_all

lemma cancel_fields [simp]: "sa_generation (cancel_request s r now fresh) = sa_generation s"
  "reserving_of (cancel_request s r now fresh) = reserving_of s"
proof -
  have "reserving_of (sampler_cooldown s n t f) = reserving_of s" for n t f by (rule reserving_cong) simp
  then show "sa_generation (cancel_request s r now fresh) = sa_generation s"
    "reserving_of (cancel_request s r now fresh) = reserving_of s"
    by (cases "rq_lease r"; cases "sa_durable s"; simp add: cancel_request_def Let_def split: option.split)+
qed

lemma cancel_generation_fold [simp]: "sa_generation (fold (\<lambda>r s. cancel_request s r now fresh) p s) = sa_generation s"
  "reserving_of (fold (\<lambda>r s. cancel_request s r now fresh) p s) = reserving_of s"
  by (induction p arbitrary: s) simp_all

text \<open>
  The change of identity, from a sampler whose outstanding requests were all given up: either way it ends in a
  state that satisfies the invariant without outstanding requests.
\<close>

lemma prepare_ok:
  assumes "draining a []" and "\<And>r. reserving_of a = Some r \<Longrightarrow> rq_generation r \<noteq> sa_generation a + 1"
    and "prepare_identity_change a evs now random = Some (v, res)"
  shows "case res of Inl e \<Rightarrow> good (mark_storage_fault v e fresh) [] | Inr _ \<Rightarrow> good v []"
proof -
  define b where "b = a\<lparr>sa_generation := sa_generation a + 1\<rparr>"
  have "draining b []"
    using assms(1) by (rule draining_cong) (simp_all add: b_def ready_of_def reserving_of_def)
  then have d: "draining (abandon_ready b now) []" by (rule draining_abandon_ready)
  have "reserving_of b = reserving_of a" by (rule reserving_cong) (simp add: b_def)
  then have old: "old_only (abandon_ready b now)" using d assms(2) by (simp add: old_only_def b_def)
  obtain u where f: "flush_storage (abandon_ready b now) evs = Some (u, res)"
    and v: "v = (case res of Inl _ \<Rightarrow> u | Inr _ \<Rightarrow>
      u\<lparr>sa_session := map_option (\<lambda>se. se\<lparr>se_in_flight := [], se_candidates := [],
             se_ready_permit := False, se_target := random, se_queries := 0, se_next_send := now\<rparr>) (sa_session u),
           sa_deadline := map_option (\<lambda>_. now) (sa_session u)\<rparr>)"
    using assms(3) by (auto simp: prepare_identity_change_def b_def split: option.splits prod.splits sum.splits)
  have f': "old_only u" "drained u" "res = Inr () \<longrightarrow> storage_fault u = None" using old_flush [OF old f] by auto
  then have maps: "hm_ok (sa_ids u)" "hm_ok (sa_ips u)" by (simp_all add: old_only_def draining_def)
  show ?thesis
  proof (cases res)
    case (Inl e)
    have "good (mark_storage_fault u e fresh) []" by (rule fault_any) (use maps in simp_all)
    then show ?thesis using Inl v by simp
  next
    case (Inr y)
    have n: "ready_of v = None" "reserving_of v = None"
      using f'(1,2) by (auto simp: v Inr old_only_def drained_def ready_of_def reserving_of_def split: option.splits)
    then have w: "waiting v = []" "\<not> stale v" by (simp_all add: waiting_def stale_def)
    have "s_inv v []"
    proof (cases "sa_session u")
      case None
      then show ?thesis using maps n by (simp add: s_inv_def v Inr)
    next
      case se: (Some se)
      then have "se_ok se" "tracked (sa_ids u) (sa_ips u) se" "storage_fault u = None" using f'(1) by (simp_all add: old_only_def draining_def)
      then show ?thesis using maps se w
        by (simp add: s_inv_def v Inr se_ok_def cands_ok_def tracked_def linked_def)
    qed
    then show ?thesis using n Inr by (simp add: good_def leased_def exclusive_def)
  qed
qed

lemma good_identity: "good v L \<Longrightarrow> good (identity_changed v i) L"
proof (cases "sa_durable v")
  case None
  then have "identity_changed v i = v" by (simp add: identity_changed_def)
  then show "good v L \<Longrightarrow> good (identity_changed v i) L" by simp
next
  case (Some d)
  then show "good v L \<Longrightarrow> good (identity_changed v i) L"
    using good_durable [OF Some, of "d\<lparr>du_identity := i\<rparr>"] by (simp add: identity_changed_def)
qed

lemma rotate_ok:
  assumes "good s (q @ p)" and "\<And>r. reserving_of s = Some r \<Longrightarrow> rq_generation r \<noteq> sa_generation s + 1"
    and "rotate_sampler s q p evs now fresh random bound = Some t"
  shows "good t []"
proof -
  define a where "a = fold (\<lambda>r s. cancel_request s r now fresh) p (fold (\<lambda>r s. abandon_unsent s r now) q s)"
  have "good (fold (\<lambda>r s. abandon_unsent s r now) q s) p" using fold_abandon assms(1) by blast
  then have d: "draining a []" unfolding a_def by (intro fold_cancel good_draining)
  have g: "reserving_of a = Some r \<Longrightarrow> rq_generation r \<noteq> sa_generation a + 1" for r using assms(2) by (simp add: a_def)
  obtain v res where v: "prepare_identity_change a evs now random = Some (v, res)"
    and t: "t = (case res of Inl e \<Rightarrow> mark_storage_fault v e fresh
      | Inr _ \<Rightarrow> (case bound of Inl e \<Rightarrow> mark_storage_fault v e fresh | Inr i \<Rightarrow> identity_changed v i))"
    using assms(3) by (auto simp: rotate_sampler_def a_def [symmetric] split: option.splits prod.splits sum.splits)
  from prepare_ok [OF d g v, of fresh] show ?thesis
    using good_fault good_identity by (cases res; cases bound) (auto simp: t)
qed

section \<open>Runs\<close>

text \<open>A state is the sampler with the sampling requests that the dispatcher has queued and has sent.\<close>

type_synonym sampler_run = "sampler \<times> request list \<times> request list"

datatype sampler_op =
  SStart sampler_config nat instant node_id
| SAdvance routing_table nat instant instant bool node_id
| SSent nat
| SUnsentQueued nat instant
| SUnsent nat instant
| SUncertain nat instant instant
| SSuccess nat sample_response routing_table instant instant int
| SNodes nat "discovered_node list" routing_table instant instant
| SFailure nat query_error instant instant
| SStorage storage_result instant
| SPermit
| SFault storage_error instant
| SStop instant instant
| SDiscard instant
| SRotate "(storage_result \<times> instant) list" instant instant node_id "storage_error + local_identity"

definition without :: "nat \<Rightarrow> 'a list \<Rightarrow> 'a list" where
  "without k xs = take k xs @ drop (Suc k) xs"

fun sampler_step :: "nat \<Rightarrow> sampler_run \<Rightarrow> sampler_op \<Rightarrow> sampler_run option" where
  "sampler_step mp (s, q, p) (SStart cfg pend now random) = Some (fst (sampler_start mp s cfg pend now random), q, p)"
| "sampler_step mp (s, q, p) (SAdvance rt capacity now fresh slot random) =
     (case advance_sampler s rt capacity now fresh slot random of None \<Rightarrow> None
      | Some (s, None) \<Rightarrow> Some (s, q, p) | Some (s, Some r) \<Rightarrow> Some (s, q @ [r], p))"
| "sampler_step mp (s, q, p) (SSent k) = Some (s, without k q, q ! k # p)"
| "sampler_step mp (s, q, p) (SUnsentQueued k now) = Some (abandon_unsent s (q ! k) now, without k q, p)"
| "sampler_step mp (s, q, p) (SUnsent k now) = Some (abandon_unsent s (p ! k) now, q, without k p)"
| "sampler_step mp (s, q, p) (SUncertain k now fresh) = Some (uncertain_send s (p ! k) now fresh, q, without k p)"
| "sampler_step mp (s, q, p) (SSuccess k resp rt now fresh system_now) =
     (case sampler_success s (p ! k) resp rt now fresh system_now of None \<Rightarrow> None | Some (s, _) \<Rightarrow> Some (s, q, without k p))"
| "sampler_step mp (s, q, p) (SNodes k ns rt now fresh) =
     (case sampler_nodes s (p ! k) ns rt now fresh of None \<Rightarrow> None | Some s \<Rightarrow> Some (s, q, without k p))"
| "sampler_step mp (s, q, p) (SFailure k e now fresh) = Some (sampler_failure s (p ! k) e now fresh, q, without k p)"
| "sampler_step mp (s, q, p) (SStorage ev fresh) = Some (storage_event s ev fresh, q, p)"
| "sampler_step mp (s, q, p) SPermit = Some (accept_permit s, q, p)"
| "sampler_step mp (s, q, p) (SFault e fresh) = Some (mark_storage_fault s e fresh, q, p)"
| "sampler_step mp (s, q, p) (SStop now fresh) = Some (stop_sampler s q p now fresh, [], [])"
| "sampler_step mp (s, q, p) (SDiscard now) = Some (fold (\<lambda>r s. abandon_unsent s r now) q s, [], p)"
| "sampler_step mp (s, q, p) (SRotate evs now fresh random bound) =
     (case rotate_sampler s q p evs now fresh random bound of None \<Rightarrow> None | Some s \<Rightarrow> Some (s, [], []))"

text \<open>
  Admissible operations name existing requests, a routing table that satisfies its invariant and nodes with
  20-byte identifiers; a generation number is not reused while a reservation that carries it is in progress
  (it wraps after \<open>2 ^ 64\<close> restarts), and a rotation gets the results of the operations it waits for.
\<close>

definition generation_free :: "sampler \<Rightarrow> bool" where
  "generation_free s = (case reserving_of s of None \<Rightarrow> True | Some r \<Rightarrow> rq_generation r \<noteq> sa_generation s + 1)"

definition nodes_valid :: "discovered_node list \<Rightarrow> bool" where
  "nodes_valid ns = list_all (\<lambda>n. id_ok (dn_id n)) ns"

fun sampler_adm :: "sampler_run \<Rightarrow> sampler_op \<Rightarrow> bool" where
  "sampler_adm (s, q, p) (SStart _ _ _ _) = generation_free s"
| "sampler_adm (s, q, p) (SAdvance rt _ _ _ _ _) = rt_inv rt"
| "sampler_adm (s, q, p) (SSent k) = (k < length q)"
| "sampler_adm (s, q, p) (SUnsentQueued k _) = (k < length q)"
| "sampler_adm (s, q, p) (SUnsent k _) = (k < length p)"
| "sampler_adm (s, q, p) (SUncertain k _ _) = (k < length p)"
| "sampler_adm (s, q, p) (SSuccess k resp rt _ _ _) = (k < length p \<and> rt_inv rt \<and> nodes_valid (sr_nodes resp))"
| "sampler_adm (s, q, p) (SNodes k ns rt _ _) = (k < length p \<and> rt_inv rt \<and> nodes_valid ns)"
| "sampler_adm (s, q, p) (SFailure k _ _ _) = (k < length p)"
| "sampler_adm (s, q, p) (SRotate evs now fresh random bound) =
     (generation_free s \<and> rotate_sampler s q p evs now fresh random bound \<noteq> None)"
| "sampler_adm _ _ = True"

definition run_good :: "sampler_run \<Rightarrow> bool" where
  "run_good x = (case x of (s, q, p) \<Rightarrow> good s (q @ p))"

lemma good_perm: "good s L \<Longrightarrow> mset L' = mset L \<Longrightarrow> good s L'"
proof -
  assume g: "good s L" and m: "mset L' = mset L"
  have e: "set L' = set L" "(L' = []) = (L = [])" using m by (metis set_mset_mset, metis mset_zero_iff)
  have "mset (map rq_key (L' @ waiting s)) = mset (map rq_key (L @ waiting s))" using m by simp
  then have "linked s se L' = linked s se L" for se by (simp only: linked_def e(1) set_append)
  then show ?thesis using g e by (simp add: good_def s_inv_def leased_def split: option.splits)
qed

lemma good_pick: "good s (q @ p) \<Longrightarrow> k < length p \<Longrightarrow> good s (p ! k # (q @ without k p))"
proof (erule good_perm)
  assume k: "k < length p"
  have "mset p = mset (take k p @ p ! k # drop (Suc k) p)" by (subst id_take_nth_drop [OF k]) (rule refl)
  then show "mset (p ! k # (q @ without k p)) = mset (q @ p)" by (simp add: without_def)
qed

lemma good_pick_queue: "good s (q @ p) \<Longrightarrow> k < length q \<Longrightarrow> good s (q ! k # (without k q @ p))"
proof (erule good_perm)
  assume k: "k < length q"
  have "mset q = mset (take k q @ q ! k # drop (Suc k) q)" by (subst id_take_nth_drop [OF k]) (rule refl)
  then show "mset (q ! k # (without k q @ p)) = mset (q @ p)" by (simp add: without_def)
qed

lemma inv_accept: "good s L \<Longrightarrow> good (accept_permit s) L"
proof (cases "sa_session s")
  case (Some se)
  assume g: "good s L"
  then have "s_inv (s\<lparr>sa_session := Some (se\<lparr>se_ready_permit := True\<rparr>)\<rparr>) L" using inv_permit [OF _ Some] by (simp add: good_def)
  then show ?thesis using good_cong [OF g] Some by (simp add: accept_permit_def)
qed (simp add: accept_permit_def)

interpretation sampler_ops: panic_free_ops "sampler_step mp" run_good sampler_adm for mp
proof unfold_locales
  fix x op
  assume g: "run_good x" and adm: "sampler_adm x op"
  obtain s q p where x: "x = (s, q, p)" by (cases x)
  have G: "good s (q @ p)" using g by (simp add: run_good_def x)
  have nv: "nodes_valid ns \<Longrightarrow> n \<in> set ns \<Longrightarrow> id_ok (dn_id n)" for ns n by (auto simp: nodes_valid_def list_all_iff)
  have pk: "k < length p \<Longrightarrow> good s (p ! k # (q @ without k p))" for k using good_pick [OF G] .
  have qk: "k < length q \<Longrightarrow> good s (q ! k # (without k q @ p))" for k using good_pick_queue [OF G] .
  show "\<exists>y. sampler_step mp x op = Some y \<and> run_good y"
  proof (cases op)
    case (SStart cfg pend now random)
    then have "good (fst (sampler_start mp s cfg pend now random)) (q @ p)"
      using adm by (intro start_ok [OF G]) (auto simp: x generation_free_def)
    then show ?thesis by (simp add: x run_good_def SStart)
  next
    case (SAdvance rt capacity now fresh slot random)
    then have "rt_inv rt" using adm by (simp add: x)
    from advance_ok [OF G this] obtain s' ro where a: "advance_sampler s rt capacity now fresh slot random = Some (s', ro)"
      "good s' (case ro of None \<Rightarrow> q @ p | Some r \<Rightarrow> r # q @ p)" by blast
    then have "good s' (q @ [r] @ p)" if "ro = Some r" for r using that good_perm [of s' "r # q @ p" "q @ [r] @ p"] by simp
    then show ?thesis using a by (cases ro) (simp_all add: x run_good_def SAdvance)
  next
    case (SSent k)
    then show ?thesis using qk [of k] adm good_perm [of s "q ! k # (without k q @ p)" "without k q @ q ! k # p"]
      by (simp add: x run_good_def)
  next
    case (SUnsentQueued k now)
    then show ?thesis using qk [of k] adm abandon_good by (simp add: x run_good_def)
  next
    case (SUnsent k now)
    then show ?thesis using pk [of k] adm abandon_good by (simp add: x run_good_def)
  next
    case (SUncertain k now fresh)
    then show ?thesis using pk [of k] adm uncertain_good by (simp add: x run_good_def)
  next
    case (SSuccess k resp rt now fresh sysnow)
    then obtain s' b where "sampler_success s (p ! k) resp rt now fresh sysnow = Some (s', b)" "good s' (q @ without k p)"
      using success_ok [OF pk, of k rt resp now fresh sysnow] adm nv by (auto simp: x)
    then show ?thesis by (simp add: x run_good_def SSuccess)
  next
    case (SNodes k ns rt now fresh)
    then obtain s' where "sampler_nodes s (p ! k) ns rt now fresh = Some s'" "good s' (q @ without k p)"
      using nodes_ok [OF pk, of k rt ns now fresh] adm nv by (auto simp: x)
    then show ?thesis by (simp add: x run_good_def SNodes)
  next
    case (SFailure k e now fresh)
    then show ?thesis using pk [of k] adm failure_ok by (simp add: x run_good_def)
  next
    case (SStorage ev fresh)
    then show ?thesis using event_ok [OF G] by (simp add: x run_good_def)
  next
    case SPermit
    then show ?thesis using inv_accept [OF G] by (simp add: x run_good_def)
  next
    case (SFault e fresh)
    then show ?thesis using good_fault [OF G] by (simp add: x run_good_def)
  next
    case (SStop now fresh)
    then show ?thesis using stop_sampler_ok [OF G] by (simp add: x run_good_def)
  next
    case (SDiscard now)
    then show ?thesis using fold_abandon [OF G] by (simp add: x run_good_def)
  next
    case (SRotate evs now fresh random bound)
    then obtain t where t: "rotate_sampler s q p evs now fresh random bound = Some t" using adm by (auto simp: x)
    have "good t []" by (rule rotate_ok [OF G _ t]) (use adm SRotate in \<open>auto simp: x generation_free_def\<close>)
    then show ?thesis using t by (simp add: x run_good_def SRotate)
  qed
qed

section \<open>Properties\<close>

lemma good_default: "good default_sampler []"
  by (simp add: good_def s_inv_def leased_def exclusive_def default_sampler_def ready_of_def reserving_of_def)

lemma restore_fields:
  "restore_cooldowns now s vs = (s', res) \<Longrightarrow> hm_ok (sa_ids s) \<and> hm_ok (sa_ips s) \<Longrightarrow>
     hm_ok (sa_ids s') \<and> hm_ok (sa_ips s') \<and> sa_session s' = sa_session s \<and> sa_durable s' = sa_durable s"
  by (induction now s vs rule: restore_cooldowns.induct)
    (auto simp: Let_def split: if_splits option.splits restored_cooldown.splits)

lemma good_attached:
  assumes "attach_sampler_storage default_sampler c i rs now = (s, Inr ())"
  shows "good s []"
proof -
  obtain t where t: "restore_cooldowns now default_sampler rs = (t, Inr ())"
    "s = t\<lparr>sa_durable := Some \<lparr>du_clock = c, du_identity = i, du_reserving = None, du_ready = None, du_settling = []\<rparr>\<rparr>"
    using assms by (auto simp: attach_sampler_storage_def default_sampler_def split: prod.splits sum.splits)
  have "hm_ok (sa_ids t)" "hm_ok (sa_ips t)" "sa_session t = None"
    using restore_fields [OF t(1)] by (simp_all add: default_sampler_def)
  then show ?thesis by (simp add: t(2) good_def s_inv_def leased_def exclusive_def ready_of_def reserving_of_def)
qed

text \<open>
  C24: whatever the order of starts, scheduling, sending, responses, failures, database results, faults,
  discards, identity changes and stops, the sampler never panics; in the state that is reached the requests in flight
  are exactly those outstanding (queued, sent or waiting inside the sampler), they are at most
  \<open>parallelism\<close> and address pairwise different nodes and hosts; candidates and both cooldown maps are
  within their capacities; and with a database every sample query held by the dispatcher has a confirmed
  reservation.
\<close>

theorem sampler_runs_safe:
  assumes "s0 = default_sampler \<or> attach_sampler_storage default_sampler c i rs t0 = (s0, Inr ())"
    and "ops_ok (sampler_step mp) sampler_adm (s0, [], []) ops"
  shows "\<exists>s q p. run_ops (sampler_step mp) (s0, [], []) ops = Some (s, q, p) \<and>
    (\<forall>se. sa_session s = Some se \<longrightarrow>
       mset (map rq_key (q @ p @ waiting s)) = mset (se_in_flight se) \<and>
       distinct (map fst (se_in_flight se)) \<and> distinct (map snd (se_in_flight se)) \<and>
       length (se_in_flight se) \<le> sc_parallelism (se_config se) \<and>
       length (se_candidates se) \<le> sc_candidate_capacity (se_config se) \<and>
       length (sa_ids s) \<le> sc_cooldown_capacity (se_config se) \<and>
       length (sa_ips s) \<le> sc_cooldown_capacity (se_config se)) \<and>
    (\<forall>r\<in>set (q @ p). sa_durable s \<noteq> None \<longrightarrow> rq_kind r = Sample \<longrightarrow> rq_lease r \<noteq> None)"
proof -
  have "run_good (s0, [], [])" using assms(1) good_default good_attached by (auto simp: run_good_def)
  from sampler_ops.safe_run [OF this assms(2)] obtain s q p
    where r: "run_ops (sampler_step mp) (s0, [], []) ops = Some (s, q, p)" and g: "good s (q @ p)"
    by (auto simp: run_good_def)
  show ?thesis
  proof (intro exI conjI allI impI ballI)
    show "run_ops (sampler_step mp) (s0, [], []) ops = Some (s, q, p)" by (rule r)
  next
    fix x assume "x \<in> set (q @ p)" "sa_durable s \<noteq> None" "rq_kind x = Sample"
    then show "rq_lease x \<noteq> None" using g by (auto simp: good_def leased_def)
  qed (use g in \<open>auto simp: good_def s_inv_def se_ok_def cands_ok_def tracked_def linked_def hm_ok_def\<close>)
qed

lemma empty_table_inv: "rt_inv (new_table (NodeId (replicate 20 0)) Ipv4 0)"
  by (rule rt_inv_new) simp

definition sample_config :: sampler_config where
  "sample_config = default_sampler_config\<lparr>sc_address_policy := LocalUnicast, sc_parallelism := 1\<rparr>"

lemmas sampler_eval = sampler_start_def default_sampler_def default_sampler_status_def default_sampler_config_def
  sample_config_def validate_sampler_def instant_checked_add_def hm_retain_def generation_free_def reserving_of_def
  advance_sampler_def take_reserved_def sampler_next_def storage_busy_def add_nodes_def closest_usable_def
  closest_matching_def closest_by_def retain_usable_def gate_def pause_with_def table_contacts_def new_table_def
  new_bucket_def

theorem sampler_runs_safe_witness:
  "\<exists>s q p. run_ops (sampler_step 1000) (default_sampler, [], [])
      [SStart sample_config 10 0 (NodeId (replicate 20 1)),
       SAdvance (new_table (NodeId (replicate 20 0)) Ipv4 0) 5 1 1 True (NodeId (replicate 20 2)),
       SFault Entropy 3] = Some (s, q, p) \<and> set (map rq_lease (q @ p)) \<subseteq> set (map rq_lease (q @ p @ waiting s))"
proof -
  have "ops_ok (sampler_step 1000) sampler_adm (default_sampler, [], [])
      [SStart sample_config 10 0 (NodeId (replicate 20 1)),
       SAdvance (new_table (NodeId (replicate 20 0)) Ipv4 0) 5 1 1 True (NodeId (replicate 20 2)), SFault Entropy 3]"
    using empty_table_inv by (simp add: sampler_eval)
  from sampler_runs_safe [OF disjI1 [OF refl] this] show ?thesis by auto
qed

text \<open>What the choice of a request depends on is not changed by the refill of candidates.\<close>

definition same_pace :: "sampling_session \<Rightarrow> sampling_session \<Rightarrow> bool" where
  "same_pace a b \<longleftrightarrow> se_next_send a = se_next_send b \<and> se_config a = se_config b \<and> se_in_flight a = se_in_flight b"

lemma add_node_pace: "add_node rt now se n = Some se' \<Longrightarrow> same_pace se' se"
  by (auto simp: add_node_def same_pace_def Let_def split: option.splits if_splits)

lemma add_each_pace: "add_each rt now se ns = Some se' \<Longrightarrow> same_pace se' se"
proof (induction ns arbitrary: se)
  case (Cons n ns)
  then obtain se1 where "add_node rt now se n = Some se1" "add_each rt now se1 ns = Some se'" by (auto split: option.splits)
  then show ?case using add_node_pace Cons.IH by (force simp: same_pace_def)
qed (simp add: same_pace_def)

lemma evict_pace: "same_pace (evict_excess n se) se"
proof (induction n arbitrary: se)
  case (Suc n)
  show ?case
  proof (cases "worst_candidate se")
    case (Some i)
    then show ?thesis using Suc.IH [of "se\<lparr>se_candidates := hm_remove i (se_candidates se)\<rparr>"] by (simp add: same_pace_def)
  qed (simp add: same_pace_def)
qed (simp add: same_pace_def)

lemma add_nodes_pace:
  assumes "add_nodes s ns rt now = Some s'" and "sa_session s = Some se"
  shows "\<exists>se'. s' = s\<lparr>sa_session := Some se'\<rparr> \<and> same_pace se' se"
proof -
  obtain se1 where s1: "add_each rt now se ns = Some se1"
    and s': "s' = s\<lparr>sa_session := Some (evict_excess (length (se_candidates se1) - sc_candidate_capacity (se_config se1)) se1)\<rparr>"
    using assms by (auto simp: add_nodes_def split: option.splits)
  have "same_pace (evict_excess (length (se_candidates se1) - sc_candidate_capacity (se_config se1)) se1) se"
    using add_each_pace [OF s1] evict_pace [of "length (se_candidates se1) - sc_candidate_capacity (se_config se1)" se1]
    by (simp add: same_pace_def)
  then show ?thesis using s' by blast
qed

lemma gate_request:
  assumes "gate s se capacity now closed slot random = Some (s', Some r)"
  shows "0 < capacity \<and> \<not> closed \<and> se_next_send se \<le> now \<and> length (se_in_flight se) < sc_parallelism (se_config se) \<and>
    choose_next (s\<lparr>sa_session := Some (se\<lparr>se_ready_permit := True\<rparr>)\<rparr>) (se\<lparr>se_ready_permit := True\<rparr>) now random = Some (s', Some r)"
  using assms by (auto simp: gate_def Let_def not_le not_less split: if_splits)

lemma choose_request:
  assumes "choose_next s se now random = Some (s', Some r)" and "hm_ok (sa_ids s)" and "hm_ok (sa_ips s)"
  shows "(\<exists>se'. sa_session s' = Some se' \<and> se_next_send se' = now + sc_send_spacing (se_config se)) \<and>
    hm_get (se_in_flight se) (rq_id r) = None \<and> rq_ip r \<notin> snd ` set (se_in_flight se) \<and>
    (rq_kind r = Sample \<longrightarrow> (\<forall>v. hm_get (sa_ids s) (rq_id r) = Some v \<longrightarrow> cd_until v \<le> now) \<and>
       (\<forall>t. hm_get (sa_ips s) (rq_ip r) = Some t \<longrightarrow> t \<le> now))"
proof -
  let ?p = "prune s se now"
  obtain c where c: "cs_candidate (select_candidate se (sa_ids ?p) (sa_ips ?p) now) = Some c"
    and reg: "register_request ?p se c now = Some (s', r)"
    using assms(1) by (auto simp: choose_next_def Let_def split: option.splits if_splits)
  note sel = selected [OF c]
  have r: "rq_node r = ca_node c" "rq_kind r = ca_kind c"
    "\<exists>se'. sa_session s' = Some se' \<and> se_next_send se' = now + sc_send_spacing (se_config se)"
    using reg by (auto simp: register_request_def Let_def split: option.splits)
  have "(\<forall>v. hm_get (sa_ids s) (rq_id r) = Some v \<longrightarrow> cd_until v \<le> now) \<and>
       (\<forall>t. hm_get (sa_ips s) (rq_ip r) = Some t \<longrightarrow> t \<le> now)" if "rq_kind r = Sample"
  proof -
    have due: "due_at (sa_ids ?p) (sa_ips ?p) now c \<le> now" using sel by blast
    have "cd_until v \<le> now" if v: "hm_get (sa_ids s) (rq_id r) = Some v" for v
    proof (cases "hm_get (sa_ids ?p) (rq_id r)")
      case None
      then show ?thesis using prune_lost(1) [OF assms(2) None v] by blast
    next
      case (Some w)
      then have "w = v" using prune_get(1) [OF assms(2) Some] v by simp
      then show ?thesis using due Some \<open>rq_kind r = Sample\<close> r by (simp add: due_at_def)
    qed
    moreover have "t \<le> now" if t: "hm_get (sa_ips s) (rq_ip r) = Some t" for t
    proof (cases "hm_get (sa_ips ?p) (rq_ip r)")
      case None
      then show ?thesis using prune_lost(2) [OF assms(3) None t] by blast
    next
      case (Some w)
      then have "w = t" using prune_get(2) [OF assms(3) Some] t by simp
      then show ?thesis using due Some \<open>rq_kind r = Sample\<close> r by (simp add: due_at_def)
    qed
    ultimately show ?thesis by blast
  qed
  moreover have "hm_get (se_in_flight se) (rq_id r) = None \<and> rq_ip r \<notin> snd ` set (se_in_flight se)"
    using sel r(1) by (auto simp: skipped_def hm_has_def hm_values_def)
  ultimately show ?thesis using r(3) by blast
qed

text \<open>
  C25: a request is handed out only when the session is open with a free slot, not before the send deadline, to a
  node and host with no request in flight; a sample query goes only to a node and host whose cooldowns
  have passed; and the next send deadline is one spacing later.
\<close>

theorem sampling_respects_cooldowns:
  assumes "sampler_next s rt capacity now closed slot random = Some (s', Some r)"
    and "hm_ok (sa_ids s)" and "hm_ok (sa_ips s)" and "sa_session s = Some se"
  shows "0 < capacity \<and> \<not> closed \<and> storage_fault s = None \<and> \<not> storage_busy s \<and> se_next_send se \<le> now \<and>
    length (se_in_flight se) < sc_parallelism (se_config se) \<and>
    hm_get (se_in_flight se) (rq_id r) = None \<and> rq_ip r \<notin> snd ` set (se_in_flight se) \<and>
    (rq_kind r = Sample \<longrightarrow> (\<forall>v. hm_get (sa_ids s) (rq_id r) = Some v \<longrightarrow> cd_until v \<le> now) \<and>
       (\<forall>t. hm_get (sa_ips s) (rq_ip r) = Some t \<longrightarrow> t \<le> now)) \<and>
    (\<exists>se'. sa_session s' = Some se' \<and> se_next_send se' = now + sc_send_spacing (se_config se))"
proof -
  let ?s = "s\<lparr>sa_deadline := None\<rparr>"
  have nb: "storage_fault s = None" "\<not> storage_busy s"
    using assms(1) by (auto simp: sampler_next_def Let_def storage_busy_def split: if_splits)
  define seeds where "seeds = map (\<lambda>c. \<lparr>dn_id = nc_id c, dn_address = nc_address c\<rparr>)
               (closest_usable rt (se_target se) (sc_shortlist_size (se_config se)) now)"
  have nb': "\<not> (storage_fault ?s \<noteq> None \<or> storage_busy ?s)" using nb by (simp add: storage_busy_def)
  obtain s1 where s1: "add_nodes ?s seeds rt now = Some s1"
    using assms(1,4) nb' by (auto simp: sampler_next_def Let_def seeds_def split: option.splits)
  obtain se1 where se1: "s1 = ?s\<lparr>sa_session := Some se1\<rparr>" "same_pace se1 se"
    using add_nodes_pace [OF s1, of se] assms(4) by auto
  obtain se2 where se2: "retain_usable rt now se1 = Some se2"
    and g: "gate (s1\<lparr>sa_session := Some se2, sa_status := (sa_status s1)
           \<lparr>ss_in_flight := length (se_in_flight se2), ss_candidates := length (se_candidates se2)\<rparr>\<rparr>)
         se2 capacity now closed slot random = Some (s', Some r)"
    using assms(1,4) nb' s1 se1(1) by (simp add: sampler_next_def Let_def seeds_def split: option.splits)
  have pace: "se_next_send se2 = se_next_send se" "se_config se2 = se_config se" "se_in_flight se2 = se_in_flight se"
    using se2 se1(2) by (auto simp: retain_usable_def same_pace_def split: if_splits)
  define X where "X = s1\<lparr>sa_session := Some se2, sa_status := (sa_status s1)
           \<lparr>ss_in_flight := length (se_in_flight se2), ss_candidates := length (se_candidates se2)\<rparr>\<rparr>"
  note g1 = gate_request [OF g [folded X_def]]
  have maps: "sa_ids X = sa_ids s" "sa_ips X = sa_ips s" by (simp_all add: X_def se1(1))
  have "choose_next (X\<lparr>sa_session := Some (se2\<lparr>se_ready_permit := True\<rparr>)\<rparr>) (se2\<lparr>se_ready_permit := True\<rparr>) now random
      = Some (s', Some r)" using g1 by blast
  from choose_request [OF this] show ?thesis using nb g1 assms(2,3) by (simp add: maps pace)
qed

definition one_candidate :: sampler where
  "one_candidate = (fst (sampler_start 1000 default_sampler sample_config 10 0 (NodeId (replicate 20 1))))
     \<lparr>sa_session := map_option (\<lambda>se. se\<lparr>se_candidates := [(NodeId (replicate 20 7),
        \<lparr>ca_node = \<lparr>dn_id = NodeId (replicate 20 7), dn_address = SA4 167772161 6881\<rparr>, ca_visited = False, ca_kind = Sample\<rparr>)]\<rparr>)
       (sa_session (fst (sampler_start 1000 default_sampler sample_config 10 0 (NodeId (replicate 20 1)))))\<rparr>"

theorem sampling_respects_cooldowns_witness:
  "\<exists>s' r. sampler_next one_candidate (new_table (NodeId (replicate 20 0)) Ipv4 0) 5 1 False True (NodeId []) = Some (s', Some r) \<and>
     rq_kind r = Sample \<and> rq_id r = NodeId (replicate 20 7) \<and>
     (\<exists>se'. sa_session s' = Some se' \<and> se_next_send se' = 1 + secs 1)"
proof -
  let ?rt = "new_table (NodeId (replicate 20 0)) Ipv4 0"
  define se where "se = the (sa_session one_candidate)"
  have e: "\<exists>s' r. sampler_next one_candidate ?rt 5 1 False True (NodeId []) = Some (s', Some r) \<and>
     rq_kind r = Sample \<and> rq_id r = NodeId (replicate 20 7)"
    by (simp add: sampler_eval one_candidate_def contact_def bucket_index_def prefix_contains_def prefix_root_def
        choose_next_def prune_def select_candidate_def skipped_def hm_values_def hm_has_def hm_get_def due_at_def
        untracked_def register_request_def hm_put_def Let_def)
  then obtain s' r where n: "sampler_next one_candidate ?rt 5 1 False True (NodeId []) = Some (s', Some r)"
    and r: "rq_kind r = Sample" "rq_id r = NodeId (replicate 20 7)" by blast
  have se: "sa_session one_candidate = Some se" "sc_send_spacing (se_config se) = secs 1"
    "hm_ok (sa_ids one_candidate)" "hm_ok (sa_ips one_candidate)"
    by (simp_all add: se_def one_candidate_def sampler_eval)
  show ?thesis using sampling_respects_cooldowns [OF n se(3,4,1)] n r se(2) by auto
qed

lemma retry_delay_bounds:
  assumes "sc_retry_initial cfg \<le> sc_retry_max cfg"
  shows "sc_retry_initial cfg \<le> retry_delay cfg n \<and> retry_delay cfg n \<le> sc_retry_max cfg"
proof -
  have "1 \<le> min (2 ^ (n - 1)) U32_MAX" by (simp add: U32_MAX_def)
  then have "sc_retry_initial cfg * 1 \<le> sc_retry_initial cfg * min (2 ^ (n - 1)) U32_MAX" by (rule mult_le_mono2)
  then show ?thesis using assms by (simp add: retry_delay_def)
qed

lemma retry_delay_mono: "m \<le> n \<Longrightarrow> retry_delay cfg m \<le> retry_delay cfg n"
proof -
  assume "m \<le> n"
  then have "(2 :: nat) ^ (m - 1) \<le> 2 ^ (n - 1)" by (intro power_increasing) auto
  then have "sc_retry_initial cfg * min (2 ^ (m - 1)) U32_MAX \<le> sc_retry_initial cfg * min (2 ^ (n - 1)) U32_MAX"
    by (intro mult_le_mono2) (rule min.mono, simp_all)
  then show ?thesis unfolding retry_delay_def by (rule min.mono) simp
qed

lemma settle_no_fault:
  "storage_fault (settle_request s r now fresh) = None \<Longrightarrow>
    sa_ids (settle_request s r now fresh) = sa_ids s \<and> sa_ips (settle_request s r now fresh) = sa_ips s"
  by (rule settle_cases [of s r now fresh]) auto

text \<open>
  After a failure that is not "method unknown" the node's failure count goes up by one (saturating), and the
  node and its host are left alone until at least the retry delay from now, unless an earlier and longer cooldown
  stands; the delay of the first failure is the initial delay, it never shrinks with more failures and
  stays between the initial and the maximal delay.
\<close>

theorem failure_backoff:
  assumes "sa_session s = Some se" and "\<not> (rq_kind r = Sample \<and> (\<exists>m. e = Remote 204 m))"
    and "hm_get (sa_ids s) (rq_id r) = Some v" and "storage_fault (sampler_failure s r e now fresh) = None"
    and "sc_retry_initial (se_config se) \<le> sc_retry_max (se_config se)"
  shows "\<exists>v' t. hm_get (sa_ids (sampler_failure s r e now fresh)) (rq_id r) = Some v' \<and>
    hm_get (sa_ips (sampler_failure s r e now fresh)) (rq_ip r) = Some t \<and>
    cd_failures v' = min (cd_failures v + 1) U32_MAX \<and>
    cd_until v' = max (cd_until v) (now + retry_delay (se_config se) (cd_failures v')) \<and>
    now + retry_delay (se_config se) (cd_failures v') \<le> t \<and>
    retry_delay (se_config se) 1 = sc_retry_initial (se_config se) \<and>
    (\<forall>m n. m \<le> n \<longrightarrow> retry_delay (se_config se) m \<le> retry_delay (se_config se) n) \<and>
    sc_retry_initial (se_config se) \<le> retry_delay (se_config se) (cd_failures v') \<and>
    retry_delay (se_config se) (cd_failures v') \<le> sc_retry_max (se_config se)"
proof -
  let ?s = "request_finished s r"
  define n where "n = min (cd_failures v + 1) U32_MAX"
  have e: "(case e of Remote code _ \<Rightarrow> code = 204 | _ \<Rightarrow> False) \<longleftrightarrow> (\<exists>m. e = Remote 204 m)" by (cases e) auto
  define u where "u = sampler_cooldown (?s\<lparr>sa_status := (sa_status ?s)\<lparr>ss_failed := ss_failed (sa_status ?s) + 1\<rparr>\<rparr>)
      (rq_node r) (now + retry_delay (se_config se) n) n"
  have neg: "(rq_kind r = Sample \<and> (case e of Remote code _ \<Rightarrow> code = 204 | _ \<Rightarrow> False)) = False"
    using assms(2) e by blast
  have f: "sampler_failure s r e now fresh = settle_request u r now fresh"
    unfolding sampler_failure_def Let_def neg if_False using assms(1,3) by (simp add: u_def n_def)
  have ids: "sa_ids (settle_request u r now fresh) = sa_ids u" "sa_ips (settle_request u r now fresh) = sa_ips u"
    using settle_no_fault [of u r now fresh] assms(4) unfolding f by simp_all
  have one: "retry_delay (se_config se) 1 = sc_retry_initial (se_config se)"
    using assms(5) by (simp add: retry_delay_def U32_MAX_def)
  show ?thesis unfolding f ids using assms(3) one retry_delay_bounds [OF assms(5), of n] retry_delay_mono
    unfolding n_def [symmetric]
    by (auto simp: u_def sampler_cooldown_def cool_id_def cool_ip_def split: option.split)
qed

definition busy_sampler :: sampler where
  "busy_sampler = one_candidate\<lparr>sa_ids := [(NodeId (replicate 20 7), \<lparr>cd_until = 1, cd_failures = 2\<rparr>)]\<rparr>"

definition seventh :: request where
  "seventh = \<lparr>rq_generation = 1, rq_lease = None, rq_node = \<lparr>dn_id = NodeId (replicate 20 7), dn_address = SA4 167772161 6881\<rparr>,
     rq_target = NodeId (replicate 20 1), rq_kind = Sample, rq_permit = True\<rparr>"

theorem failure_backoff_witness:
  "\<exists>v. hm_get (sa_ids (sampler_failure busy_sampler seventh Timeout 5 5)) (NodeId (replicate 20 7)) = Some v \<and>
     cd_failures v = 3 \<and> cd_until v = 5 + secs 240"
proof -
  define se where "se = the (sa_session busy_sampler)"
  have se: "sa_session busy_sampler = Some se" "sc_retry_initial (se_config se) = secs 60" "sc_retry_max (se_config se) = secs 900"
    by (simp_all add: se_def busy_sampler_def one_candidate_def sampler_eval)
  have g: "hm_get (sa_ids busy_sampler) (rq_id seventh) = Some \<lparr>cd_until = 1, cd_failures = 2\<rparr>"
    by (simp add: busy_sampler_def seventh_def hm_get_def)
  have l: "rq_lease seventh = None" by (simp add: seventh_def)
  have n: "storage_fault (sampler_failure busy_sampler seventh Timeout 5 5) = None"
    using se(1) l by (simp add: sampler_failure_def Let_def settle_request_def)
      (simp add: busy_sampler_def one_candidate_def sampler_eval)
  from failure_backoff [OF se(1) _ g n] se(2,3) show ?thesis
    by (auto simp: seventh_def retry_delay_def U32_MAX_def)
qed

lemma keep_first_spec: "set (keep_first xs seen) = set xs - seen \<and> distinct (keep_first xs seen) \<and>
    (\<exists>p. keep_first xs seen = nths xs p)"
proof (induction xs arbitrary: seen)
  case Nil
  then show ?case by simp
next
  case (Cons x xs)
  show ?case
  proof (cases "x \<in> seen")
    case True
    obtain p where p: "keep_first xs seen = nths xs p" using Cons.IH by blast
    have "keep_first (x # xs) seen = nths (x # xs) (Suc ` p)" using True p by (simp add: nths_Cons image_iff)
    then show ?thesis using True Cons.IH [of seen] by auto
  next
    case False
    obtain p where p: "keep_first xs (insert x seen) = nths xs p" using Cons.IH by blast
    have "{j. Suc j \<in> insert 0 (Suc ` p)} = p" by auto
    then have "keep_first (x # xs) seen = nths (x # xs) (insert 0 (Suc ` p))" using False p by (simp add: nths_Cons)
    then have "\<exists>p. keep_first (x # xs) seen = nths (x # xs) p" by (rule exI)
    moreover have "set (keep_first xs (insert x seen)) = set xs - insert x seen" "distinct (keep_first xs (insert x seen))"
      using Cons.IH [of "insert x seen"] by blast+
    then have "set (keep_first (x # xs) seen) = set (x # xs) - seen \<and> distinct (keep_first (x # xs) seen)"
      using False by auto
    ultimately show ?thesis by simp
  qed
qed

text \<open>
  C27: an accepted sample response is at most 1024 bytes long, its interval at most six hours, its samples are
  the distinct ones of the message in their order, and its total is not below their number; a response without
  samples is never a sample, and any other violation is an error.
\<close>

theorem decode_sample_exact:
  "(decode_sample r nodes len = Inr (Some x) \<longleftrightarrow>
     len \<le> 1024 \<and> (\<exists>samples i n. ra_samples r = Some samples \<and> ra_interval r = Some i \<and> unat i \<le> 21600 \<and> ra_num r = Some n \<and>
       card (set samples) \<le> unat n \<and> sr_samples x = keep_first samples {} \<and> sr_interval x = secs (unat i) \<and>
       sr_num x = n \<and> sr_nodes x = nodes \<and> set (sr_samples x) = set samples \<and> distinct (sr_samples x))) \<and>
   (decode_sample r nodes len = Inr None \<longleftrightarrow> len \<le> 1024 \<and> ra_samples r = None)"
proof (intro conjI)
  have k: "set (keep_first s {}) = set s" "distinct (keep_first s {})" for s :: "swarm_key list"
    using keep_first_spec [of s "{}"] by simp_all
  then have c: "length (keep_first s {}) = card (set s)" for s :: "swarm_key list" using distinct_card [of "keep_first s {}"] by simp
  have i: "(i :: u32) \<le> 21600 \<longleftrightarrow> unat i \<le> 21600" for i by (simp add: word_le_nat_alt)
  show "decode_sample r nodes len = Inr (Some x) \<longleftrightarrow>
     len \<le> 1024 \<and> (\<exists>samples i n. ra_samples r = Some samples \<and> ra_interval r = Some i \<and> unat i \<le> 21600 \<and> ra_num r = Some n \<and>
       card (set samples) \<le> unat n \<and> sr_samples x = keep_first samples {} \<and> sr_interval x = secs (unat i) \<and>
       sr_num x = n \<and> sr_nodes x = nodes \<and> set (sr_samples x) = set samples \<and> distinct (sr_samples x))"
    by (cases x) (auto simp: decode_sample_def Let_def c k i not_less split: option.splits if_splits)
  show "decode_sample r nodes len = Inr None \<longleftrightarrow> len \<le> 1024 \<and> ra_samples r = None"
    by (auto simp: decode_sample_def Let_def split: option.splits if_splits)
qed

text \<open>
  C26: the database never lets a node go earlier than the sampler does: a settled cooldown ends, in UTC
  milliseconds, not before the UTC instant of the cooldown in memory and less than two milliseconds after it.
\<close>

theorem settled_cooldown_not_early:
  assumes "sa_durable s = Some d" and "sa_durable (settle_request s r now fresh) = Some d'"
    and "du_settling d' = du_settling d @ [Settle lease (Inr at) dur n]"
    and "hm_get (sa_ids s) (rq_id r) = Some cd" and "now < cd_until cd"
  shows "ck_wall (du_clock d) + int (cd_until cd - ck_monotonic (du_clock d)) \<le> (at + dur) * 1000000 \<and>
    (at + dur) * 1000000 < ck_wall (du_clock d) + int (cd_until cd - ck_monotonic (du_clock d)) + 2000000 \<and>
    n = cd_failures cd \<and> Some lease = rq_lease r"
proof -
  obtain l where l: "rq_lease r = Some l"
    using assms(1-4) by (cases "rq_lease r") (auto simp: settle_request_def)
  have fault: "sa_durable (mark_storage_fault s e fresh) = Some d' \<Longrightarrow> False" for e
  proof -
    assume f: "sa_durable (mark_storage_fault s e fresh) = Some d'"
    have "du_settling d' = du_settling d \<or> (\<exists>x. du_settling d' = du_settling d @ [Abandon x])"
      using f assms(1)
      by (auto simp: mark_storage_fault_def sampler_stop_def Let_def abandon_ready_def take_ready_def abandon_unsent_def
          push_settlement_def request_finished_def split: option.splits if_splits)
    then show False using assms(3) by auto
  qed
  obtain a where a: "millis_at (du_clock d) now = Inr a"
    using assms(1,2,4) l fault by (cases "millis_at (du_clock d) now") (auto simp: settle_request_def)
  define m where "m = max (millis_ceil (cd_until cd - now)) 1"
  have "\<not> m \<ge> 2 ^ 63" using assms(1,2,4) l a fault by (auto simp: settle_request_def Let_def m_def split: if_splits)
  then have "d' = d\<lparr>du_settling := du_settling d @ [Settle l (Inr a) m (cd_failures cd)]\<rparr>"
    using assms(1,2,4) l a by (simp add: settle_request_def Let_def m_def push_settlement_def)
  then have e: "lease = l" "at = a" "dur = m" "n = cd_failures cd" using assms(3) by simp_all
  define w where "w = ck_wall (du_clock d) + int (now - ck_monotonic (du_clock d))"
  have w: "w \<le> a * 1000000" "a * 1000000 < w + 1000000" "ck_monotonic (du_clock d) \<le> now"
    using millis_at_Inr [OF a] ceil_millis [of a w] by (auto simp: w_def)
  define t where "t = cd_until cd - now"
  have t: "0 < t" using assms(5) by (simp add: t_def)
  have c1: "t \<le> div_ceil t 1000000 * 1000000" by (rule div_ceil_mult_ge) simp
  have c2: "(div_ceil t 1000000 - 1) * 1000000 < t" using t by (intro div_ceil_mult_less) simp_all
  have pos: "1 \<le> div_ceil t 1000000" using c1 t by (cases "div_ceil t 1000000") auto
  have m: "m = int (div_ceil t 1000000)" using pos by (simp add: m_def millis_ceil_def t_def)
  have "int t \<le> m * 1000000" "m * 1000000 < int t + 1000000"
  proof -
    show "int t \<le> m * 1000000" using c1 unfolding m by linarith
    have "div_ceil t 1000000 * 1000000 < t + 1000000" using c2 pos by (simp add: diff_mult_distrib)
    then show "m * 1000000 < int t + 1000000" unfolding m by linarith
  qed
  moreover have "ck_wall (du_clock d) + int (cd_until cd - ck_monotonic (du_clock d)) = w + int t"
    using w(3) assms(5) by (simp add: w_def t_def of_nat_diff)
  ultimately show ?thesis using w(1,2) e l by (simp add: distrib_right)
qed

definition seventh_lease :: cooldown_lease where
  "seventh_lease = \<lparr>cl_duration_ms = 60000, cl_identity = 1, cl_id = NodeId (replicate 20 7), cl_ip = IPV4 167772161, cl_token = []\<rparr>"

definition settling_sampler :: sampler where
  "settling_sampler = default_sampler\<lparr>sa_durable := Some \<lparr>du_clock = clock_new 0 7,
       du_identity = \<lparr>li_key = 1, li_node_id = NodeId (replicate 20 0), li_family = Ipv4\<rparr>, du_reserving = None,
       du_ready = None, du_settling = []\<rparr>, sa_ids := [(NodeId (replicate 20 7), \<lparr>cd_until = 5000001, cd_failures = 2\<rparr>)]\<rparr>"

theorem settled_cooldown_not_early_witness:
  "(7::int) + 5000001 \<le> (1 + 5) * 1000000 \<and> (1 + 5) * 1000000 < (7::int) + 5000001 + 2000000 \<and>
   sa_durable (settle_request settling_sampler (seventh\<lparr>rq_lease := Some seventh_lease\<rparr>) 1 1) =
     Some ((the (sa_durable settling_sampler))\<lparr>du_settling := [Settle seventh_lease (Inr 1) 5 2]\<rparr>)"
proof -
  let ?r = "seventh\<lparr>rq_lease := Some seventh_lease\<rparr>"
  define d where "d = the (sa_durable settling_sampler)"
  have d: "sa_durable settling_sampler = Some d" "du_settling d = []" "ck_wall (du_clock d) = 7" "ck_monotonic (du_clock d) = 0"
    by (simp_all add: d_def settling_sampler_def clock_new_def)
  have g: "hm_get (sa_ids settling_sampler) (rq_id ?r) = Some \<lparr>cd_until = 5000001, cd_failures = 2\<rparr>"
    by (simp add: settling_sampler_def seventh_def hm_get_def)
  have s: "sa_durable (settle_request settling_sampler ?r 1 1) = Some (d\<lparr>du_settling := [Settle seventh_lease (Inr 1) 5 2]\<rparr>)"
    using d g by (simp add: settle_request_def Let_def push_settlement_def millis_at_def wall_at_def system_time_add_def
        unix_millis_def millis_ceil_def div_ceil_def)
  have "ck_wall (du_clock d) + int (5000001 - ck_monotonic (du_clock d)) \<le> (1 + 5) * 1000000 \<and>
    (1 + 5) * 1000000 < ck_wall (du_clock d) + int (5000001 - ck_monotonic (du_clock d)) + 2000000 \<and>
    2 = cd_failures \<lparr>cd_until = 5000001, cd_failures = 2\<rparr> \<and> Some seventh_lease = rq_lease ?r"
    using settled_cooldown_not_early [OF d(1) s _ g, where lease = seventh_lease and at = 1 and dur = 5 and n = 2]
    by (simp add: d(2))
  then show ?thesis using s d by (simp flip: d_def)
qed

end
