(* ===== verification/DispatcherInv.thy ===== *)
theory DispatcherInv imports DispatcherBudget SamplerProps PeerStoreProps begin

text \<open>
  The invariant of the dispatcher and its preservation by the operations that settle a single purpose. What
  ties the component states together is the multiset of outstanding purposes: those in the queue, those that
  are pending, and those that an operation has taken out and not settled yet.
\<close>

section \<open>Outstanding purposes\<close>

fun samplings_of :: "pending_purpose \<Rightarrow> request list" where
  "samplings_of (PSampling r) = [r]"
| "samplings_of _ = []"

fun verifications_of :: "pending_purpose \<Rightarrow> (node_id \<times> socket_addr) list" where
  "verifications_of (PVerification key _) = [key]"
| "verifications_of _ = []"

fun probes_of :: "pending_purpose \<Rightarrow> (node_id \<times> socket_addr) list" where
  "probes_of (PBucketProbe incumbent _ _ _) = [probe_key incumbent]"
| "probes_of _ = []"

fun recoveries_of :: "pending_purpose \<Rightarrow> node_id list" where
  "recoveries_of (PRecovery i) = [i]"
| "recoveries_of _ = []"

fun lookups_of :: "pending_purpose \<Rightarrow> node_id list" where
  "lookups_of (PMaintenanceLookup i) = [i]"
| "lookups_of _ = []"

fun callers_of :: "pending_purpose \<Rightarrow> nat list" where
  "callers_of (PFetch c) = [c]"
| "callers_of (PUserPing c) = [c]"
| "callers_of _ = []"

definition gather :: "('a \<Rightarrow> 'b list) \<Rightarrow> 'a list \<Rightarrow> 'b list" where
  "gather f L = concat (map f L)"

lemma gather_simps [simp]: "gather f [] = []" "gather f (p # L) = f p @ gather f L" "gather f (L @ M) = gather f L @ gather f M"
  by (simp_all add: gather_def)

lemma gather_mset: "mset L = mset M \<Longrightarrow> mset (gather f L) = mset (gather f M)"
proof -
  have "mset (gather f L) = \<Sum>\<^sub># (image_mset (\<lambda>x. mset (f x)) (mset L))" for L
    by (induction L) auto
  then show "mset L = mset M \<Longrightarrow> mset (gather f L) = mset (gather f M)" by metis
qed

lemma gather_set: "mset L = mset M \<Longrightarrow> set (gather f L) = set (gather f M)"
  using gather_mset [of L M f] by (metis set_mset_mset)

lemma gather_distinct: "mset L = mset M \<Longrightarrow> distinct (gather f L) = distinct (gather f M)"
  using gather_mset [of L M f] mset_eq_imp_distinct_iff by blast

definition permits :: "pending_purpose list \<Rightarrow> nat" where
  "permits L = length (filter has_permit L)"

lemma permits_simps [simp]: "permits [] = 0" "permits (p # L) = permits L + of_bool (has_permit p)"
  "permits (L @ M) = permits L + permits M"
  by (simp_all add: permits_def)

lemma permits_mset: "mset L = mset M \<Longrightarrow> permits L = permits M"
  unfolding permits_def by (metis mset_filter size_mset)

definition outstanding :: "dispatcher \<Rightarrow> pending_purpose list" where
  "outstanding d = map qi_purpose (dp_queued d) @ map pd_purpose (hm_values (dp_pending d))"

section \<open>The invariant\<close>

definition target_ok :: "remote_node \<Rightarrow> bool" where
  "target_ok r \<longleftrightarrow> (case rn_expected_id r of None \<Rightarrow> True | Some i \<Rightarrow> id_ok i)"

fun purpose_ok :: "routing_table \<Rightarrow> pending_purpose \<Rightarrow> bool" where
  "purpose_ok rt (PBucketProbe incumbent remaining candidate _) \<longleftrightarrow>
     contact_ok rt candidate \<and> id_ok (nc_id incumbent) \<and> (\<forall>c\<in>set remaining. id_ok (nc_id c))"
| "purpose_ok rt _ \<longleftrightarrow> True"

definition lookup_links :: "pending_purpose list \<Rightarrow> maintenance_state \<Rightarrow> bool" where
  "lookup_links L ms \<longleftrightarrow> (case ms_lookup ms of None \<Rightarrow> True
     | Some l \<Rightarrow> lookup_inv (ms_config ms) l \<and> id_ok (il_target l) \<and>
         (\<forall>(i, c)\<in>set (il_candidates l). id_ok i \<and> (lc_state c = InFlight \<longrightarrow> i \<in> set (gather lookups_of L))))"

definition links :: "pending_purpose list \<Rightarrow> dispatcher \<Rightarrow> bool" where
  "links L d \<longleftrightarrow> good (dp_sampler d) (gather samplings_of L) \<and>
     distinct (gather verifications_of L) \<and> set (gather verifications_of L) = dp_verifications d \<and>
     distinct (gather probes_of L) \<and> set (gather probes_of L) = dp_bucket_probes d \<and>
     distinct (gather recoveries_of L @ map sv_id (rc_queued (dp_recovery d))) \<and>
     set (gather recoveries_of L) \<subseteq> fst ` set (rc_active (dp_recovery d)) \<and>
     (dp_identity_paused d \<or> fst ` set (rc_active (dp_recovery d)) \<subseteq> set (gather recoveries_of L)) \<and>
     lookup_links L (dp_maintenance d) \<and> (\<forall>p\<in>set L. purpose_ok (dp_routing d) p)"

text \<open>
  \<open>X\<close> are transactions that have expired and whose pending entries are still to be settled; the identifiers
  that the counter draws next are not among them.
\<close>

definition maps_ok :: "transaction_id set \<Rightarrow> dispatcher \<Rightarrow> bool" where
  "maps_ok X d \<longleftrightarrow> tm_inv (dp_transactions d) \<and> hm_ok (dp_pending d) \<and>
     fst ` set (dp_pending d) = fst ` set (tm_pending (dp_transactions d)) \<union> X \<and>
     X \<inter> fst ` set (tm_pending (dp_transactions d)) = {} \<and> occupied d \<le> tm_max_pending (dp_transactions d) \<and>
     (\<forall>i p t. hm_get (dp_pending d) i = Some p \<longrightarrow> hm_get (tm_pending (dp_transactions d)) i = Some t \<longrightarrow>
        pt_destination t = rn_address (pd_remote p)) \<and>
     (\<forall>p\<in>set (hm_values (dp_pending d)). target_ok (pd_remote p) \<and> \<not> has_permit (pd_purpose p)) \<and>
     (\<forall>q\<in>set (dp_queued d). target_ok (qi_remote q))"

definition ahead :: "transaction_id set \<Rightarrow> nat \<Rightarrow> transaction_manager \<Rightarrow> bool" where
  "ahead X m tm \<longleftrightarrow> (\<forall>k < m * Suc (tm_max_pending tm). from_counter (tm_next_counter tm + of_nat k) \<notin> X)"

definition recovery_ok :: "recovery \<Rightarrow> bool" where
  "recovery_ok rc \<longleftrightarrow> (\<forall>c\<in>set (rc_queued rc) \<union> set (hm_values (rc_active rc)). id_ok (sv_id c))"

text \<open>
  \<open>I\<close> are the callers that have asked so far, \<open>P\<close> and \<open>T\<close> the purposes and tickets in the hands of an
  operation, and \<open>r\<close> the queries that it may still start.
\<close>

definition d_inv :: "nat multiset \<Rightarrow> pending_purpose list \<Rightarrow> queue_record list \<Rightarrow> transaction_id set \<Rightarrow> nat \<Rightarrow> dispatcher \<Rightarrow> bool" where
  "d_inv I P T X r d \<longleftrightarrow> maps_ok X d \<and> ahead X (length (dp_queued d) + r) (dp_transactions d) \<and>
     rt_inv (dp_routing d) \<and> ps_inv (dp_peers d) \<and> recovery_ok (dp_recovery d) \<and>
     budget_held (dp_budget d) (T @ map qi_record (dp_queued d)) (permits (P @ outstanding d)) \<and>
     links (P @ outstanding d) d \<and>
     mset (map fst (dp_replies d)) + mset (gather callers_of (P @ outstanding d)) = I"

text \<open>What every operation leaves as it is.\<close>

definition steady :: "dispatcher \<Rightarrow> dispatcher \<Rightarrow> bool" where
  "steady d d' \<longleftrightarrow> rt_local_id (dp_routing d') = rt_local_id (dp_routing d) \<and> rt_family (dp_routing d') = rt_family (dp_routing d) \<and>
     (ms_lookup (dp_maintenance d') = None) = (ms_lookup (dp_maintenance d) = None) \<and>
     ms_config (dp_maintenance d') = ms_config (dp_maintenance d) \<and> dp_policy d' = dp_policy d \<and>
     tm_max_pending (dp_transactions d') = tm_max_pending (dp_transactions d)"

lemma steady_refl [simp]: "steady d d"
  by (simp add: steady_def)

lemma steady_trans: "steady a b \<Longrightarrow> steady b c \<Longrightarrow> steady a c"
  by (simp add: steady_def)

lemma links_mset: "links L d \<Longrightarrow> mset M = mset L \<Longrightarrow> links M d"
proof -
  assume l: "links L d" and m: "mset M = mset L"
  have "set M = set L" using m by (metis set_mset_mset)
  then show ?thesis
    using l good_perm [of "dp_sampler d" "gather samplings_of L" "gather samplings_of M"]
    unfolding links_def lookup_links_def
    by (simp add: gather_mset [OF m] gather_set [OF m] gather_distinct [OF m] split: option.splits)
qed

lemma d_inv_perm:
  assumes "d_inv I P T X r d" and "mset Q = mset P" and "mset U = mset T"
  shows "d_inv I Q U X r d"
proof -
  have "mset (Q @ outstanding d) = mset (P @ outstanding d)" using assms(2) by simp
  note m = this
  have "budget_held (dp_budget d) (U @ map qi_record (dp_queued d)) (permits (P @ outstanding d))"
    using assms(1,3) held_mset [of "dp_budget d" "T @ map qi_record (dp_queued d)"] by (auto simp: d_inv_def)
  then show ?thesis
    using assms(1) links_mset [OF _ m] unfolding d_inv_def permits_mset [OF m] gather_mset [OF m] by blast
qed

lemma ahead_less: "ahead X m tm \<Longrightarrow> n \<le> m \<Longrightarrow> ahead X n tm"
  unfolding ahead_def by (meson less_le_trans mult_le_mono1)

lemma ahead_empty [simp]: "ahead {} m tm"
  by (simp add: ahead_def)

lemma d_inv_less: "d_inv I P T X r d \<Longrightarrow> s \<le> r \<Longrightarrow> d_inv I P T X s d"
  unfolding d_inv_def using ahead_less [of X "length (dp_queued d) + r" "dp_transactions d" "length (dp_queued d) + s"] by auto

text \<open>A state that differs in nothing the invariant reads, but for the budget.\<close>

lemma d_inv_budget:
  "d_inv I P T X r d \<Longrightarrow> same_gauges (dp_budget d) b \<Longrightarrow> d_inv I P T X r (d\<lparr>dp_budget := b\<rparr>)"
  by (auto simp: d_inv_def maps_ok_def links_def outstanding_def occupied_def intro: held_same)

lemma d_inv_tickets:
  "d_inv I P T X r d \<Longrightarrow> budget_held b (U @ map qi_record (dp_queued d)) (permits (P @ outstanding d)) \<Longrightarrow>
   d_inv I P U X r (d\<lparr>dp_budget := b\<rparr>)"
  by (auto simp: d_inv_def maps_ok_def links_def outstanding_def occupied_def)

lemma d_inv_held: "d_inv I P T X r d \<Longrightarrow> budget_held (dp_budget d) (T @ map qi_record (dp_queued d)) (permits (P @ outstanding d))"
  by (simp add: d_inv_def)

lemma d_inv_budget_inv: "d_inv I P T X r d \<Longrightarrow> budget_inv (dp_budget d)"
  using held_inv by (auto simp: d_inv_def)

lemma drop_ticket_ok:
  assumes "d_inv I P (q # T) X r d"
  shows "\<exists>b. drop_ticket en d q = Some (d\<lparr>dp_budget := b\<rparr>) \<and> d_inv I P T X r (d\<lparr>dp_budget := b\<rparr>)"
proof -
  have "budget_held (dp_budget d) (q # T @ map qi_record (dp_queued d)) (permits (P @ outstanding d))"
    using d_inv_held [OF assms] by simp
  from ticket_drop_held [OF this, of "en_fresh en"] obtain b where
    b: "ticket_drop (dp_budget d) q (en_fresh en) = Some b"
    "budget_held b (T @ map qi_record (dp_queued d)) (permits (P @ outstanding d))" by blast
  have "d_inv I P T X r (d\<lparr>dp_budget := b\<rparr>)" using assms b(2) by (rule d_inv_tickets)
  moreover have "drop_ticket en d q = Some (d\<lparr>dp_budget := b\<rparr>)" using b(1) by (simp add: drop_ticket_def)
  ultimately show ?thesis by blast
qed

lemma ticket_outcome: "d_inv I P (q # T) X r d \<Longrightarrow> k < 4 \<Longrightarrow> d_inv I P (ticket_finish q k # T) X r d"
  unfolding d_inv_def using ticket_finish_held [of "dp_budget d" q "T @ map qi_record (dp_queued d)"] by auto

section \<open>Settling a purpose before it is sent\<close>

lemma outstanding_cong:
  "dp_queued d' = dp_queued d \<Longrightarrow> dp_pending d' = dp_pending d \<Longrightarrow> outstanding d' = outstanding d"
  by (simp add: outstanding_def)

lemma maps_ok_cong:
  "dp_queued d' = dp_queued d \<Longrightarrow> dp_pending d' = dp_pending d \<Longrightarrow> dp_transactions d' = dp_transactions d \<Longrightarrow>
   maps_ok X d' = maps_ok X d"
  by (simp add: maps_ok_def occupied_def)

lemma d_inv_change:
  assumes "d_inv I P T X r d" and "dp_queued d' = dp_queued d" and "dp_pending d' = dp_pending d"
    and "dp_transactions d' = dp_transactions d" and "rt_inv (dp_routing d')" and "dp_peers d' = dp_peers d"
    and "recovery_ok (dp_recovery d')"
    and "budget_held (dp_budget d') (U @ map qi_record (dp_queued d)) (permits (Q @ outstanding d))"
    and "links (Q @ outstanding d) d'"
    and "mset (map fst (dp_replies d')) + mset (gather callers_of Q) = mset (map fst (dp_replies d)) + mset (gather callers_of P)"
  shows "d_inv I Q U X r d'"
proof -
  have o: "outstanding d' = outstanding d" using assms(2,3) by (rule outstanding_cong)
  have "mset (map fst (dp_replies d')) + mset (gather callers_of (Q @ outstanding d)) =
      mset (map fst (dp_replies d)) + mset (gather callers_of (P @ outstanding d))"
    using assms(10) by (simp only: gather_simps mset_append add.assoc [symmetric])
  moreover have "maps_ok X d" "ahead X (length (dp_queued d) + r) (dp_transactions d)" "ps_inv (dp_peers d)"
    "mset (map fst (dp_replies d)) + mset (gather callers_of (P @ outstanding d)) = I"
    using assms(1) by (simp_all only: d_inv_def)
  ultimately show ?thesis using assms(5,7,8,9)
    unfolding d_inv_def o maps_ok_cong [OF assms(2-4)] assms(2,4,6) by metis
qed

lemma lookup_links_defer:
  assumes "lookup_links (PMaintenanceLookup i # L) ms" and "ms_lookup ms = Some l"
  shows "\<exists>l'. defer_candidate l i = Some l' \<and> lookup_links L (ms\<lparr>ms_lookup := Some l'\<rparr>)"
proof -
  have inv: "lookup_inv (ms_config ms) l" and t: "id_ok (il_target l)"
    and c: "\<And>j c. (j, c) \<in> set (il_candidates l) \<Longrightarrow> id_ok j \<and> (lc_state c = InFlight \<longrightarrow> j = i \<or> j \<in> set (gather lookups_of L))"
    using assms by (auto simp: lookup_links_def)
  obtain l' where l': "defer_candidate l i = Some l'" "lookup_inv (ms_config ms) l'"
    using lookup_ops.safe_step [OF inv, of "LDefer i"] by auto
  have ok: "hm_ok (il_candidates l)" using inv by (simp add: lookup_inv_def cands_inv_def)
  have "il_target l' = il_target l" using l'(1) by (auto simp: defer_candidate_def split: option.splits if_splits)
  moreover have "id_ok j \<and> (lc_state c' = InFlight \<longrightarrow> j \<in> set (gather lookups_of L))" if m: "(j, c') \<in> set (il_candidates l')" for j c'
  proof (cases "hm_get (il_candidates l) i")
    case None
    then have "i \<notin> fst ` set (il_candidates l)" by (simp add: hm_get_None)
    moreover have "l' = l" using None l'(1) by (simp add: defer_candidate_def)
    ultimately show ?thesis using c [of j c'] m by force
  next
    case (Some e)
    then have e: "(i, e) \<in> set (il_candidates l)" by (rule hm_get_in)
    show ?thesis
    proof (cases "lc_state e = InFlight")
      case True
      then have "il_candidates l' = hm_put i (e\<lparr>lc_state := Unqueried\<rparr>) (il_candidates l)"
        using Some l'(1) by (auto simp: defer_candidate_def set_state_def split: if_splits)
      then have "(j, c') = (i, e\<lparr>lc_state := Unqueried\<rparr>) \<or> ((j, c') \<in> set (il_candidates l) \<and> j \<noteq> i)"
        using m hm_set_put [OF ok] by auto
      then show ?thesis using c [of j c'] c [OF e] by auto
    next
      case False
      then have "l' = l" using Some l'(1) by (simp add: defer_candidate_def)
      then have jm: "(j, c') \<in> set (il_candidates l)" using m by simp
      have "c' = e" if "j = i" using jm that Some hm_get_Some [OF ok, of j c'] by simp
      then show ?thesis using c [OF jm] False by auto
    qed
  qed
  ultimately have "lookup_links L (ms\<lparr>ms_lookup := Some l'\<rparr>)" using l'(2) t by (auto simp: lookup_links_def)
  then show ?thesis using l'(1) by blast
qed


lemma lookup_links_cong: "set (gather lookups_of L) = set (gather lookups_of M) \<Longrightarrow> lookup_links L ms = lookup_links M ms"
  by (simp add: lookup_links_def split: option.splits)

lemma lookup_links_inert [simp]: "lookups_of p = [] \<Longrightarrow> lookup_links (p # L) ms = lookup_links L ms"
  by (rule lookup_links_cong) simp

lemma links_inert:
  "samplings_of p = [] \<Longrightarrow> verifications_of p = [] \<Longrightarrow> probes_of p = [] \<Longrightarrow> recoveries_of p = [] \<Longrightarrow> lookups_of p = [] \<Longrightarrow>
   purpose_ok (dp_routing d) p \<Longrightarrow> links (p # L) d = links L d"
  by (simp add: links_def)

lemma links_replies [simp]: "links L (d\<lparr>dp_replies := x\<rparr>) = links L d"
  by (simp add: links_def)

lemma links_recovery:
  "links (PRecovery i # L) d \<Longrightarrow> links L (d\<lparr>dp_recovery := recovery_finished (dp_recovery d) i\<rparr>)"
  by (auto simp: links_def recovery_finished_def hm_keys_remove)

lemma links_sampling:
  "links (PSampling r # L) d \<Longrightarrow> good s (gather samplings_of L) \<Longrightarrow> links L (d\<lparr>dp_sampler := s\<rparr>)"
  by (simp add: links_def)

lemma links_good: "links L d \<Longrightarrow> good (dp_sampler d) (gather samplings_of L)"
  by (simp add: links_def)

lemma links_verification:
  "links (PVerification key permit # L) d \<Longrightarrow>
   links L (d\<lparr>dp_verifications := dp_verifications d - {key}, dp_budget := b\<rparr>)"
  by (auto simp: links_def)

lemma links_probe:
  "links (PBucketProbe c cs n k # L) d \<Longrightarrow> links L (d\<lparr>dp_bucket_probes := dp_bucket_probes d - {probe_key c}\<rparr>)"
  by (auto simp: links_def)

lemma links_lookup:
  "links (PMaintenanceLookup i # L) d \<Longrightarrow> lookup_links L ms \<Longrightarrow> links L (d\<lparr>dp_maintenance := ms\<rparr>)"
  by (simp add: links_def)

lemma recovery_ok_finished: "recovery_ok rc \<Longrightarrow> recovery_ok (recovery_finished rc i)"
  by (auto simp: recovery_ok_def recovery_finished_def hm_values_def hm_set_remove)

text \<open>The parts of the invariant that the settlement of a purpose uses.\<close>

lemma d_inv_parts:
  assumes "d_inv I P T X r d"
  shows "maps_ok X d" "rt_inv (dp_routing d)" "ps_inv (dp_peers d)" "recovery_ok (dp_recovery d)"
    "links (P @ outstanding d) d"
    "budget_held (dp_budget d) (T @ map qi_record (dp_queued d)) (permits (P @ outstanding d))"
  using assms by (simp_all add: d_inv_def)

lemma settle_links:
  assumes "d_inv I (p # P) T X r d" and "links (P @ outstanding d) d'" and "dp_queued d' = dp_queued d"
    and "dp_pending d' = dp_pending d" and "dp_transactions d' = dp_transactions d" and "rt_inv (dp_routing d')"
    and "dp_peers d' = dp_peers d" and "recovery_ok (dp_recovery d')"
    and "budget_held (dp_budget d') (T @ map qi_record (dp_queued d)) (permits (P @ outstanding d))"
    and "mset (map fst (dp_replies d')) = mset (map fst (dp_replies d)) + mset (callers_of p)"
  shows "d_inv I P T X r d'"
  using assms by (intro d_inv_change [OF assms(1)]) simp_all

lemma start_error_ok:
  assumes "d_inv I (p # P) T X r d"
  shows "\<exists>d'. finish_start_error en d p e now = Some d' \<and> d_inv I P T X r d' \<and> steady d d' \<and>
    dp_queued d' = dp_queued d \<and> dp_transactions d' = dp_transactions d \<and> dp_identity_paused d' = dp_identity_paused d"
proof -
  note parts = d_inv_parts [OF assms]
  have l: "links (p # (P @ outstanding d)) d" using parts(5) by simp
  have b: "budget_held (dp_budget d) (T @ map qi_record (dp_queued d)) (permits (P @ outstanding d) + of_bool (has_permit p))"
    using parts(6) by (simp add: add.commute add.left_commute)
  have b0: "budget_held (dp_budget d) (T @ map qi_record (dp_queued d)) (permits (P @ outstanding d))"
    using held_less [OF b] by simp
  note settle = settle_links [OF assms]
  show ?thesis
  proof (cases p)
    case (PFetch c)
    then have "links (P @ outstanding d) d" using l by (simp add: links_inert)
    then have "d_inv I P T X r (answer d c y)" for y
      using parts b0 PFetch by (intro settle) (simp_all add: answer_def)
    then show ?thesis using PFetch by (simp add: answer_def steady_def)
  next
    case (PUserPing c)
    then have "links (P @ outstanding d) d" using l by (simp add: links_inert)
    then have "d_inv I P T X r (answer d c y)" for y
      using parts b0 PUserPing by (intro settle) (simp_all add: answer_def)
    then show ?thesis using PUserPing by (simp add: answer_def steady_def)
  next
    case (PRecovery i)
    then have "links (P @ outstanding d) (d\<lparr>dp_recovery := recovery_finished (dp_recovery d) i\<rparr>)"
      using l links_recovery by blast
    then have "d_inv I P T X r (d\<lparr>dp_recovery := recovery_finished (dp_recovery d) i\<rparr>)"
      using parts b0 PRecovery recovery_ok_finished by (intro settle) simp_all
    then show ?thesis using PRecovery by (simp add: steady_def)
  next
    case (PSampling rq)
    have g: "good (dp_sampler d) (rq # gather samplings_of (P @ outstanding d))"
      using links_good [OF l] PSampling by simp
    have "links (P @ outstanding d) (d\<lparr>dp_sampler := (if write_zero e then uncertain_send (dp_sampler d) rq now (en_fresh en)
       else abandon_unsent (dp_sampler d) rq now)\<rparr>)"
      using l PSampling abandon_good [OF g] uncertain_good [OF g] links_sampling by (cases "write_zero e") auto
    then have "d_inv I P T X r (d\<lparr>dp_sampler := (if write_zero e then uncertain_send (dp_sampler d) rq now (en_fresh en)
       else abandon_unsent (dp_sampler d) rq now)\<rparr>)"
      using parts b0 PSampling by (intro settle) simp_all
    then show ?thesis using PSampling by (simp add: steady_def)
  next
    case (PVerification key permit)
    then have "budget_held (dp_budget d) (T @ map qi_record (dp_queued d)) (permits (P @ outstanding d) + of_bool permit)"
      using b by (simp add: has_permit_def)
    from return_permit_held [OF this] obtain bu where bu: "return_permit permit (dp_budget d) = Some bu"
      "budget_held bu (T @ map qi_record (dp_queued d)) (permits (P @ outstanding d))" by blast
    have "links (P @ outstanding d) (d\<lparr>dp_verifications := dp_verifications d - {key}, dp_budget := bu\<rparr>)"
      using l PVerification links_verification by blast
    then have "d_inv I P T X r (d\<lparr>dp_verifications := dp_verifications d - {key}, dp_budget := bu\<rparr>)"
      using parts bu PVerification by (intro settle) simp_all
    then show ?thesis using PVerification bu by (simp add: steady_def)
  next
    case (PBucketProbe c cs n k)
    then have "links (P @ outstanding d) (d\<lparr>dp_bucket_probes := dp_bucket_probes d - {probe_key c}\<rparr>)"
      using l links_probe by blast
    then have "d_inv I P T X r (d\<lparr>dp_bucket_probes := dp_bucket_probes d - {probe_key c}\<rparr>)"
      using parts b0 PBucketProbe by (intro settle) simp_all
    then show ?thesis using PBucketProbe by (simp add: steady_def)
  next
    case (PMaintenanceLookup i)
    have ll: "lookup_links (PMaintenanceLookup i # (P @ outstanding d)) (dp_maintenance d)"
      using l PMaintenanceLookup by (simp add: links_def)
    show ?thesis
    proof (cases "ms_lookup (dp_maintenance d)")
      case None
      then have "lookup_links (P @ outstanding d) (dp_maintenance d)" by (simp add: lookup_links_def)
      then have "links (P @ outstanding d) d" using l PMaintenanceLookup links_lookup [of i _ d "dp_maintenance d"] by simp
      then have "d_inv I P T X r d" using parts b0 PMaintenanceLookup by (intro settle) simp_all
      then show ?thesis using PMaintenanceLookup None by simp
    next
      case (Some lk)
      obtain lk' where lk': "defer_candidate lk i = Some lk'"
        "lookup_links (P @ outstanding d) ((dp_maintenance d)\<lparr>ms_lookup := Some lk'\<rparr>)"
        using lookup_links_defer [OF ll Some] by blast
      then have "links (P @ outstanding d) (d\<lparr>dp_maintenance := (dp_maintenance d)\<lparr>ms_lookup := Some lk'\<rparr>\<rparr>)"
        using l PMaintenanceLookup links_lookup by blast
      then have "d_inv I P T X r (d\<lparr>dp_maintenance := (dp_maintenance d)\<lparr>ms_lookup := Some lk'\<rparr>\<rparr>)"
        using parts b0 PMaintenanceLookup by (intro settle) simp_all
      then show ?thesis using PMaintenanceLookup Some lk' by (simp add: steady_def)
    qed
  qed
qed

end
