(* ===== verification/DispatcherOut.thy ===== *)
theory DispatcherOut imports DispatcherInv begin

text \<open>The way of an outgoing query keeps the invariant: registration, sending, the queue, and starting a query.\<close>

section \<open>Registration\<close>

lemma register_loop_counter:
  "register_loop n tm dest m now = (tm', res) \<Longrightarrow>
   \<exists>j\<le>n. tm_next_counter tm' = tm_next_counter tm + of_nat j \<and>
     (\<forall>i. res = Inr i \<longrightarrow> 0 < j \<and> i = from_counter (tm_next_counter tm + of_nat (j - 1)))"
proof (induction n arbitrary: tm)
  case (Suc n)
  show ?case
  proof (cases "hm_has (tm_pending tm) (from_counter (tm_next_counter tm))")
    case True
    then have "register_loop n (tm\<lparr>tm_next_counter := tm_next_counter tm + 1\<rparr>) dest m now = (tm', res)"
      using Suc.prems by (simp add: Let_def)
    from Suc.IH [OF this] obtain j where j: "j \<le> n" "tm_next_counter tm' = tm_next_counter tm + 1 + of_nat j"
      "\<forall>i. res = Inr i \<longrightarrow> 0 < j \<and> i = from_counter (tm_next_counter tm + 1 + of_nat (j - 1))" by auto
    have prev: "tm_next_counter tm + 1 + of_nat (j - 1) = tm_next_counter tm + of_nat j" if "0 < j"
      using that by (cases j) (simp_all only: of_nat_Suc add.assoc diff_Suc_1)
    show ?thesis
    proof (intro exI [of _ "Suc j"] conjI allI impI)
      show "Suc j \<le> Suc n" using j(1) by simp
      show "tm_next_counter tm' = tm_next_counter tm + of_nat (Suc j)" by (simp only: j(2) of_nat_Suc add.assoc)
      show "i = from_counter (tm_next_counter tm + of_nat (Suc j - 1))" if "res = Inr i" for i
        using j(3) that prev by (metis diff_Suc_1)
    qed simp
  next
    case False
    then show ?thesis using Suc.prems by (intro exI [of _ 1]) (auto simp: Let_def)
  qed
qed auto

lemma register_effect:
  assumes "tm_inv tm" and "register tm dest m now = (tm', res)"
  shows "tm_inv tm' \<and> tm_max_pending tm' = tm_max_pending tm \<and>
    (\<exists>j \<le> Suc (tm_max_pending tm). tm_next_counter tm' = tm_next_counter tm + of_nat j \<and>
       (\<forall>i. res = Inr i \<longrightarrow> 0 < j \<and> i = from_counter (tm_next_counter tm + of_nat (j - 1)))) \<and>
    (case res of Inl e \<Rightarrow> tm_pending tm' = tm_pending tm
     | Inr i \<Rightarrow> hm_get (tm_pending tm) i = None \<and>
         tm_pending tm' = tm_pending tm @ [(i, \<lparr>pt_id = i, pt_destination = dest, pt_method = m, pt_started_at = now,
           pt_deadline = now + tm_timeout tm\<rparr>)])"
proof (cases "length (tm_pending tm) \<ge> tm_max_pending tm")
  case True
  then have "tm' = tm" "res = Inl (AtCapacity (tm_max_pending tm))" using assms(2) by (auto simp: register_def)
  then show ?thesis using assms(1) by (auto intro!: exI [of _ 0])
next
  case False
  then have l: "register_loop (Suc (tm_max_pending tm)) tm dest m now = (tm', res)" using assms(2) by (simp add: register_def)
  have ok: "hm_ok (tm_pending tm)" using assms(1) by (simp add: tm_inv_def)
  show ?thesis
    using register_loop_effect [OF ok l] register_loop_counter [OF l] tm_inv_register [OF assms]
    by (cases res) (simp_all add: hm_put_fresh)
qed

lemma ahead_register:
  assumes "tm_inv tm" and "register tm dest m now = (tm', res)" and "ahead X (Suc n) tm"
  shows "ahead X n tm'" and "res = Inr i \<Longrightarrow> i \<notin> X"
proof -
  let ?w = "Suc (tm_max_pending tm)"
  from register_effect [OF assms(1,2)] obtain j where m: "tm_max_pending tm' = tm_max_pending tm" and j: "j \<le> ?w"
    "tm_next_counter tm' = tm_next_counter tm + of_nat j"
    "\<forall>i. res = Inr i \<longrightarrow> 0 < j \<and> i = from_counter (tm_next_counter tm + of_nat (j - 1))" by blast
  have far: "from_counter (tm_next_counter tm + of_nat k) \<notin> X" if "k < ?w + n * ?w" for k
    using assms(3) that unfolding ahead_def by simp
  show "ahead X n tm'"
    unfolding ahead_def m j(2)
  proof (intro allI impI)
    fix k assume "k < n * ?w"
    then have "from_counter (tm_next_counter tm + of_nat (j + k)) \<notin> X" using j(1) by (intro far) linarith
    then show "from_counter (tm_next_counter tm + of_nat j + of_nat k) \<notin> X" by (simp add: add.assoc)
  qed
  show "i \<notin> X" if "res = Inr i"
  proof -
    have "j - 1 < ?w + n * ?w" using j(1,3) that by auto
    then show ?thesis using far j(3) that by blast
  qed
qed

section \<open>Sending\<close>

lemma d_inv_transactions:
  assumes "d_inv I P T X (Suc r) d" and "register (dp_transactions d) dest m now = (tm, res)"
    and "tm' = tm\<lparr>tm_pending := tm_pending (dp_transactions d)\<rparr>"
  shows "d_inv I P T X r (d\<lparr>dp_transactions := tm'\<rparr>) \<and> steady d (d\<lparr>dp_transactions := tm'\<rparr>)"
proof -
  have inv: "tm_inv (dp_transactions d)" using assms(1) by (simp add: d_inv_def maps_ok_def)
  note e = register_effect [OF inv assms(2)]
  have t: "tm_timeout tm' = tm_timeout (dp_transactions d)"
    using assms(2,3) register_loop_effect [of "dp_transactions d" "Suc (tm_max_pending (dp_transactions d))" dest m now tm res] inv
    by (auto simp: register_def tm_inv_def split: if_splits)
  have "ahead X (length (dp_queued d) + r) tm"
    using ahead_register(1) [OF inv assms(2), of X "length (dp_queued d) + r"] assms(1) by (simp add: d_inv_def)
  then have "ahead X (length (dp_queued d) + r) tm'" unfolding ahead_def assms(3) by simp
  moreover have "tm_inv tm'" using inv t e by (simp add: tm_inv_def pending_ok_def assms(3))
  moreover have "links L (d\<lparr>dp_transactions := tm'\<rparr>) = links L d" "outstanding (d\<lparr>dp_transactions := tm'\<rparr>) = outstanding d" for L
    by (simp_all add: links_def outstanding_def)
  ultimately show ?thesis using assms(1) e
    by (simp add: d_inv_def maps_ok_def occupied_def steady_def assms(3))
qed

lemma send_rpc_ok:
  assumes "d_inv I (p # P) T X (Suc r) d" and "\<not> has_permit p" and "target_ok remote"
    and "occupied d < tm_max_pending (dp_transactions d)"
  shows "\<exists>d'. send_rpc en d remote q p now = Some d' \<and> d_inv I P T X r d' \<and> steady d d' \<and> dp_queued d' = dp_queued d \<and>
    dp_identity_paused d' = dp_identity_paused d"
proof -
  let ?tm = "dp_transactions d" and ?m = "fst (outbound_fields q)"
  have inv: "tm_inv ?tm" and mo: "maps_ok X d" using assms(1) by (simp_all add: d_inv_def maps_ok_def)
  obtain tm res where reg: "register ?tm (rn_address remote) ?m now = (tm, res)" by fastforce
  note e = register_effect [OF inv reg]
  have keep: "d_inv I (p # P) T X r (d\<lparr>dp_transactions := tm\<lparr>tm_pending := tm_pending ?tm\<rparr>\<rparr>)"
    "steady d (d\<lparr>dp_transactions := tm\<lparr>tm_pending := tm_pending ?tm\<rparr>\<rparr>)"
    using d_inv_transactions [OF assms(1) reg refl] by blast+
  have fail: "\<exists>d'. finish_start_error en (d\<lparr>dp_transactions := tm\<lparr>tm_pending := tm_pending ?tm\<rparr>\<rparr>) p er now = Some d' \<and>
      d_inv I P T X r d' \<and> steady d d' \<and> dp_queued d' = dp_queued d \<and> dp_identity_paused d' = dp_identity_paused d" for er
    using start_error_ok [OF keep(1), of en er now] steady_trans [OF keep(2)] by fastforce
  show ?thesis
  proof (cases res)
    case (Inl er)
    then have "tm\<lparr>tm_pending := tm_pending ?tm\<rparr> = tm" using e by simp
    then show ?thesis using fail [of "transaction_query_error er"] Inl reg by (simp add: send_rpc_def)
  next
    case (Inr i)
    define x where "x = \<lparr>pd_remote = remote, pd_purpose = p\<rparr>"
    define t where "t = \<lparr>pt_id = i, pt_destination = rn_address remote, pt_method = ?m, pt_started_at = now,
           pt_deadline = now + tm_timeout ?tm\<rparr>"
    have i: "hm_get (tm_pending ?tm) i = None" "tm_pending tm = tm_pending ?tm @ [(i, t)]" "i \<notin> X"
      using e Inr ahead_register(2) [OF inv reg, of X "length (dp_queued d) + r" i] assms(1) by (simp_all add: d_inv_def t_def)
    then have fresh: "hm_get (dp_pending d) i = None" using mo by (auto simp: maps_ok_def hm_get_None)
    define d1 where "d1 = d\<lparr>dp_transactions := tm, dp_pending := dp_pending d @ [(i, x)]\<rparr>"
    let ?msg = "outbound_message q (rt_local_id (dp_routing d)) (tid_bytes i)"
    have unsent: "hm_remove i (m @ [(i, y)]) = m" if "hm_get m i = None" for m :: "(transaction_id, 'y) hmap" and y
      using hm_remove_absent [OF that] by (simp add: hm_remove_def)
    have s: "send_rpc en d remote q p now =
       (case try_send_to (en_encode en) (en_socket en) (dp_transport d) (rn_address remote) ?msg of
          Inl er \<Rightarrow> finish_start_error en (d\<lparr>dp_transactions := tm\<lparr>tm_pending := tm_pending ?tm\<rparr>\<rparr>) p (TransportFailed er) now
        | Inr _ \<Rightarrow> (case en_encode en ?msg of Inl _ \<Rightarrow> None
            | Inr bs \<Rightarrow> Some (note_sent (d1\<lparr>dp_budget := sent (dp_budget d) (purpose_class p) (length bs)\<rparr>) p)))"
    proof -
      have "hm_get (dp_pending d @ [(i, x)]) i = Some x" using fresh by (simp add: hm_get_def map_add_def)
      moreover have "hm_put i x (dp_pending d) = dp_pending d @ [(i, x)]" by (rule hm_put_fresh [OF fresh])
      ultimately show ?thesis
        using reg Inr unsent [OF fresh] unsent [OF i(1)]
        by (simp add: send_rpc_def Let_def cancel_def i(2) d1_def x_def cong: sum.case_cong)
    qed
    show ?thesis
    proof (cases "try_send_to (en_encode en) (en_socket en) (dp_transport d) (rn_address remote) ?msg")
      case (Inl er)
      then show ?thesis using s fail by simp
    next
      case sent: (Inr n)
      then obtain bs where bs: "en_encode en ?msg = Inr bs" by (auto simp: try_send_to_def split: sum.splits)
      have m1: "maps_ok X d1"
      proof -
        have "hm_ok (dp_pending d @ [(i, x)])"
          using fresh mo by (auto simp: maps_ok_def hm_ok_def hm_get_None)
        moreover have "pt_destination t' = rn_address (pd_remote p')"
          if "hm_get (dp_pending d @ [(i, x)]) j = Some p'" "hm_get (tm_pending ?tm @ [(i, t)]) j = Some t'" for j p' t'
          using that mo i(1) fresh unfolding maps_ok_def x_def t_def
          by (cases "j = i") (auto simp: hm_get_def map_add_def split: option.splits)
        ultimately show ?thesis using mo e assms(2-4) i Inr unfolding d1_def
          by (auto simp: maps_ok_def occupied_def hm_values_def x_def)
      qed
      have o1: "mset (P @ outstanding d1) = mset ((p # P) @ outstanding d)"
        by (simp add: outstanding_def d1_def hm_values_def x_def)
      have "d_inv I P T X r d1"
      proof -
        have "ahead X (length (dp_queued d) + r) tm"
          using ahead_register(1) [OF inv reg, of X "length (dp_queued d) + r"] assms(1) by (simp add: d_inv_def)
        moreover have "links ((p # P) @ outstanding d) d1 = links ((p # P) @ outstanding d) d" by (simp add: links_def d1_def)
        then have "links (P @ outstanding d1) d1"
          using links_mset [OF _ o1, of d1] assms(1) by (simp only: d_inv_def)
        ultimately show ?thesis using assms(1) m1 unfolding d_inv_def permits_mset [OF o1] gather_mset [OF o1]
          by (simp add: d1_def)
      qed
      then have "d_inv I P T X r (d1\<lparr>dp_budget := sent (dp_budget d) (purpose_class p) (length bs)\<rparr>)"
        using d_inv_budget_inv [OF assms(1)] by (intro d_inv_budget) (simp_all add: d1_def)
      then have "d_inv I P T X r (note_sent (d1\<lparr>dp_budget := sent (dp_budget d) (purpose_class p) (length bs)\<rparr>) p)"
        by (cases p) (simp_all add: note_sent_def d_inv_def maps_ok_def occupied_def links_def outstanding_def)
      moreover have "steady d (note_sent (d1\<lparr>dp_budget := sent (dp_budget d) (purpose_class p) (length bs)\<rparr>) p)"
        using e by (cases p) (simp_all add: note_sent_def steady_def d1_def)
      moreover have "dp_queued (note_sent d2 p) = dp_queued d2" "dp_identity_paused (note_sent d2 p) = dp_identity_paused d2" for d2
        by (cases p; simp add: note_sent_def)+
      ultimately show ?thesis using s sent bs by (simp add: d1_def)
    qed
  qed
qed


section \<open>The queue\<close>

text \<open>An intent leaves the queue: its purpose and its ticket are in the hands of the loop.\<close>

lemma d_inv_dequeue:
  assumes "d_inv I P T X r d" and "dp_queued d = kept @ q # rest"
  shows "d_inv I (qi_purpose q # P) (qi_record q # T) X (Suc r) (d\<lparr>dp_queued := kept @ rest\<rparr>)"
    and "target_ok (qi_remote q)" and "occupied (d\<lparr>dp_queued := kept @ rest\<rparr>) < tm_max_pending (dp_transactions d)"
proof -
  let ?d = "d\<lparr>dp_queued := kept @ rest\<rparr>"
  have o: "mset ((qi_purpose q # P) @ outstanding ?d) = mset (P @ outstanding d)"
    using assms(2) by (simp add: outstanding_def)
  have t: "mset ((qi_record q # T) @ map qi_record (kept @ rest)) = mset (T @ map qi_record (dp_queued d))"
    using assms(2) by simp
  have "links ((qi_purpose q # P) @ outstanding ?d) ?d"
    using links_mset [OF _ o, of d] assms(1) by (simp add: d_inv_def) (simp add: links_def)
  moreover have "budget_held (dp_budget d) ((qi_record q # T) @ map qi_record (kept @ rest)) (permits ((qi_purpose q # P) @ outstanding ?d))"
    using held_mset [OF d_inv_held [OF assms(1)] t] unfolding permits_mset [OF o] .
  ultimately show "d_inv I (qi_purpose q # P) (qi_record q # T) X (Suc r) ?d"
    using assms unfolding d_inv_def gather_mset [OF o]
    by (auto simp: maps_ok_def occupied_def)
  show "target_ok (qi_remote q)" using assms by (simp add: d_inv_def maps_ok_def)
  show "occupied ?d < tm_max_pending (dp_transactions d)" using assms by (simp add: d_inv_def maps_ok_def occupied_def)
qed

text \<open>An intent whose ticket has changed goes back to its place.\<close>

lemma d_inv_requeue:
  assumes "d_inv I (qi_purpose q' # P) (qi_record q' # T) X (Suc r) (d\<lparr>dp_queued := kept @ rest\<rparr>)"
    and "occupied (d\<lparr>dp_queued := kept @ rest\<rparr>) < tm_max_pending (dp_transactions d)" and "target_ok (qi_remote q')"
  shows "d_inv I P T X r (d\<lparr>dp_queued := kept @ q' # rest\<rparr>)"
proof -
  let ?d = "d\<lparr>dp_queued := kept @ rest\<rparr>" and ?e = "d\<lparr>dp_queued := kept @ q' # rest\<rparr>"
  have o: "mset (P @ outstanding ?e) = mset ((qi_purpose q' # P) @ outstanding ?d)" by (simp add: outstanding_def)
  have t: "mset (T @ map qi_record (kept @ q' # rest)) = mset ((qi_record q' # T) @ map qi_record (kept @ rest))" by simp
  have "links (P @ outstanding ?e) ?e"
    using links_mset [OF _ o, of ?d] assms(1) by (simp add: d_inv_def) (simp add: links_def)
  moreover have "budget_held (dp_budget d) (T @ map qi_record (kept @ q' # rest)) (permits (P @ outstanding ?e))"
    using held_mset [OF d_inv_held [OF assms(1)]] t unfolding permits_mset [OF o] by simp
  ultimately show ?thesis
    using assms unfolding d_inv_def gather_mset [OF o]
    by (auto simp: maps_ok_def occupied_def)
qed

lemma reclaim_ok:
  assumes "d_inv I (p # P) T X r d" and "purpose_cancelled gone p"
  shows "d_inv I P T X r (reclaim d p) \<and> steady d (reclaim d p) \<and> dp_queued (reclaim d p) = dp_queued d \<and>
    dp_identity_paused (reclaim d p) = dp_identity_paused d"
proof -
  note parts = d_inv_parts [OF assms(1)]
  have inert: "samplings_of p = []" "verifications_of p = []" "probes_of p = []" "recoveries_of p = []" "lookups_of p = []"
    "purpose_ok (dp_routing d) p" "\<not> has_permit p"
    using assms(2) by (cases p; simp add: has_permit_def)+
  have "links (P @ outstanding d) d" using parts(5) inert by (simp add: links_inert)
  then have "d_inv I P T X r (d\<lparr>dp_replies := dp_replies d @ [(c, y)]\<rparr>)" if "callers_of p = [c]" for c y
    using parts inert that by (intro settle_links [OF assms(1)]) simp_all
  then show ?thesis using assms(2) by (cases p) (simp_all add: reclaim_def answer_def steady_def)
qed

lemma d_inv_limited [simp]: "d_inv I P T X r (note_limited d p) = d_inv I P T X r d"
  by (cases p) (simp_all add: note_limited_def d_inv_def maps_ok_def occupied_def links_def outstanding_def)

lemma d_inv_deadline [simp]: "d_inv I P T X r (d\<lparr>dp_queue_deadline := x\<rparr>) = d_inv I P T X r d"
  by (simp add: d_inv_def maps_ok_def occupied_def links_def outstanding_def)

lemma limited_fields [simp]:
  "dp_queued (note_limited d p) = dp_queued d" "dp_queue_deadline (note_limited d p) = dp_queue_deadline d"
  "dp_identity_paused (note_limited d p) = dp_identity_paused d" "steady x (note_limited d p) = steady x d"
  by (cases p; simp add: note_limited_def steady_def)+

lemma drop_ticket_step:
  assumes "d_inv I P (q # T) X r d"
  shows "\<exists>d'. drop_ticket en d q = Some d' \<and> d_inv I P T X r d' \<and> steady d d' \<and> dp_queued d' = dp_queued d \<and>
    dp_transactions d' = dp_transactions d \<and> dp_identity_paused d' = dp_identity_paused d"
  using drop_ticket_ok [OF assms, of en] by (fastforce simp: steady_def)

lemma without_permit_simps [simp]:
  "\<not> has_permit (without_permit p)" "callers_of (without_permit p) = callers_of p"
  by (cases p; simp add: has_permit_def without_permit_def)+

lemma d_inv_permit:
  assumes "d_inv I (p # P) T X r d" and "budget_held b (T @ map qi_record (dp_queued d)) (permits P + permits (outstanding d))"
  shows "d_inv I (without_permit p # P) T X r (d\<lparr>dp_budget := b\<rparr>)"
proof -
  have f: "gather samplings_of (without_permit p # L) = gather samplings_of (p # L)"
    "gather verifications_of (without_permit p # L) = gather verifications_of (p # L)"
    "gather probes_of (without_permit p # L) = gather probes_of (p # L)"
    "gather recoveries_of (without_permit p # L) = gather recoveries_of (p # L)"
    "gather lookups_of (without_permit p # L) = gather lookups_of (p # L)"
    "gather callers_of (without_permit p # L) = gather callers_of (p # L)" for L
    by (cases p; simp add: without_permit_def)+
  have "links ((without_permit p # P) @ outstanding d) (d\<lparr>dp_budget := b\<rparr>)"
  proof -
    have "links (p # (P @ outstanding d)) d" using assms(1) by (simp add: d_inv_def)
    moreover have "lookup_links (without_permit p # L) ms = lookup_links (p # L) ms" for L ms
      by (rule lookup_links_cong) (simp only: f)
    moreover have "purpose_ok rt (without_permit p) = purpose_ok rt p" for rt by (cases p) (simp_all add: without_permit_def)
    ultimately show ?thesis unfolding links_def by (simp only: f append_Cons) simp
  qed
  then show ?thesis using assms
    by (intro d_inv_change [OF assms(1)]) (simp_all add: d_inv_def)
qed

lemma outbound_loop_ok:
  "d_inv I P T X r d \<Longrightarrow> dp_queued d = kept @ rest \<Longrightarrow>
   \<exists>d'. outbound_loop en now d kept rest = Some d' \<and> d_inv I P T X r d' \<and> steady d d' \<and>
     dp_identity_paused d' = dp_identity_paused d"
proof (induction rest arbitrary: d kept)
  case Nil
  then show ?case by simp
next
  case (Cons q rest)
  let ?d = "d\<lparr>dp_queued := kept @ rest\<rparr>" and ?p = "qi_purpose q"
  have d0: "d_inv I (?p # P) (qi_record q # T) X (Suc r) ?d" and tgt: "target_ok (qi_remote q)"
    and room: "occupied ?d < tm_max_pending (dp_transactions d)"
    using d_inv_dequeue [OF Cons.prems] by blast+
  have st: "steady d ?d" by (simp add: steady_def)
  have goal: "\<exists>d'. outbound_loop en now d1 kept rest = Some d' \<and> d_inv I P T X r d' \<and> steady d d' \<and>
      dp_identity_paused d' = dp_identity_paused d"
    if "d_inv I P T X r d1" "steady d d1" "dp_queued d1 = kept @ rest" "dp_identity_paused d1 = dp_identity_paused d" for d1
    using Cons.IH [OF that(1,3)] steady_trans [OF that(2)] that(4) by metis
  have failed: "\<exists>d'. (case finish_start_error en ?d ?p e now of None \<Rightarrow> None
         | Some d \<Rightarrow> (case drop_ticket en d (ticket_finish (qi_record q) k) of None \<Rightarrow> None
             | Some d \<Rightarrow> outbound_loop en now d kept rest)) = Some d' \<and> d_inv I P T X r d' \<and> steady d d' \<and>
      dp_identity_paused d' = dp_identity_paused d" if k4: "k < 4" for e k
  proof -
    obtain d1 where d1: "finish_start_error en ?d ?p e now = Some d1" "d_inv I P (qi_record q # T) X r d1" "steady ?d d1"
      "dp_queued d1 = kept @ rest" "dp_identity_paused d1 = dp_identity_paused d"
      using start_error_ok [OF d_inv_less [OF d0, of r], of en e now] by auto
    obtain d2 where d2: "drop_ticket en d1 (ticket_finish (qi_record q) k) = Some d2" "d_inv I P T X r d2" "steady d1 d2"
      "dp_queued d2 = kept @ rest" "dp_identity_paused d2 = dp_identity_paused d"
      using drop_ticket_step [OF ticket_outcome [OF d1(2) k4], of en] d1(4,5) by auto
    show ?thesis using d1(1) d2 goal [of d2] steady_trans [OF st steady_trans [OF d1(3) d2(3)]] by simp
  qed
  consider (gone) "purpose_cancelled (en_gone en) ?p" | (late) "\<not> purpose_cancelled (en_gone en) ?p" "now \<ge> qi_deadline q"
    | (bad) e where "\<not> purpose_cancelled (en_gone en) ?p" "\<not> now \<ge> qi_deadline q"
        "en_encode en (outbound_message (qi_query q) (rt_local_id (dp_routing d)) (replicate 4 0)) = Inl e"
    | (good) bs where "\<not> purpose_cancelled (en_gone en) ?p" "\<not> now \<ge> qi_deadline q"
        "en_encode en (outbound_message (qi_query q) (rt_local_id (dp_routing d)) (replicate 4 0)) = Inr bs"
    by (cases "en_encode en (outbound_message (qi_query q) (rt_local_id (dp_routing d)) (replicate 4 0))") auto
  then show ?case
  proof cases
    case gone
    let ?d1 = "reclaim ?d ?p"
    have d1: "d_inv I P (qi_record q # T) X r ?d1" "steady ?d ?d1" "dp_queued ?d1 = kept @ rest"
      "dp_identity_paused ?d1 = dp_identity_paused d"
      using reclaim_ok [OF d_inv_less [OF d0, of r] gone] by auto
    obtain d2 where d2: "drop_ticket en ?d1 (qi_record q) = Some d2" "d_inv I P T X r d2" "steady ?d1 d2"
      "dp_queued d2 = kept @ rest" "dp_identity_paused d2 = dp_identity_paused d"
      using drop_ticket_step [OF d1(1), of en] d1(3,4) by auto
    show ?thesis using gone d2 goal [of d2] steady_trans [OF st steady_trans [OF d1(2) d2(3)]] by simp
  next
    case late
    then show ?thesis using failed [of 2 LocalWait] by simp
  next
    case (bad e)
    then show ?thesis using failed [of 3 "TransportFailed (Encode e)"] by simp
  next
    case (good bs)
    have bi: "budget_inv (dp_budget d)" using d_inv_budget_inv [OF Cons.prems(1)] .
    obtain b dec where qo: "query_observed (en_gcra en) (dp_budget d) (purpose_class ?p) (sa_ip (rn_address (qi_remote q)))
        (length bs) (en_fresh en) = Some (b, dec)" "same_gauges (dp_budget d) b"
      using query_gauges [OF bi] by blast
    obtain b' tk where tb: "ticket_blocked b (qi_record q) (dc_reasons dec) = (b', tk)" by fastforce
    have hb: "budget_held b (qi_record q # (T @ map qi_record (kept @ rest))) (permits ((?p # P) @ outstanding ?d))"
      using held_same [OF d_inv_held [OF d0]] qo(2) by simp
    have hb': "budget_held b' (tk # (T @ map qi_record (kept @ rest))) (permits ((?p # P) @ outstanding ?d))"
      using ticket_blocked_held [OF hb tb] by blast
    show ?thesis
    proof (cases "dc_wait dec = 0")
      case False
      define q' where "q' = q\<lparr>qi_wait_reasons := dc_reasons dec, qi_record := tk\<rparr>"
      define nxt where "nxt = min (now + dc_wait dec) (qi_deadline q)"
      define d1 where "d1 = note_limited (d\<lparr>dp_budget := b', dp_queued := kept @ q' # rest\<rparr>) ?p"
      define d2 where "d2 = d1\<lparr>dp_queue_deadline := Some (case dp_queue_deadline d1 of
                          None \<Rightarrow> nxt | Some old \<Rightarrow> min old nxt)\<rparr>"
      have "d_inv I (?p # P) (tk # T) X (Suc r) (?d\<lparr>dp_budget := b'\<rparr>)"
        using hb' by (intro d_inv_tickets [OF d0]) simp
      moreover have "?d\<lparr>dp_budget := b'\<rparr> = d\<lparr>dp_budget := b', dp_queued := kept @ rest\<rparr>" by simp
      ultimately have "d_inv I P T X r (d\<lparr>dp_budget := b', dp_queued := kept @ q' # rest\<rparr>)"
        using room tgt d_inv_requeue [where I = I and q' = q' and P = P and T = T and X = X and r = r and d = "d\<lparr>dp_budget := b'\<rparr>"
            and kept = kept and rest = rest] by (simp add: q'_def occupied_def)
      then have i2: "d_inv I P T X r d2" by (simp add: d2_def d1_def)
      have q2: "dp_queued d2 = (kept @ [q']) @ rest" by (simp add: d2_def d1_def)
      have s2: "steady d d2" "dp_identity_paused d2 = dp_identity_paused d"
        by (simp_all add: d2_def d1_def steady_def) (simp_all add: note_limited_def split: pending_purpose.splits)
      have "outbound_loop en now d kept (q # rest) = outbound_loop en now d2 (kept @ [q']) rest"
        using good qo(1) tb False unfolding d2_def d1_def q'_def nxt_def by (simp add: Let_def)
      then show ?thesis using Cons.IH [OF i2 q2] steady_trans [OF s2(1)] s2(2) by metis
    next
      case True
      have "budget_held b' (tk # (T @ map qi_record (kept @ rest))) (permits P + permits (outstanding ?d) + of_bool (has_permit ?p))"
        using hb' by (simp add: add.commute add.left_commute)
      from return_permit_held [OF this] obtain b2 where b2: "return_permit (has_permit ?p) b' = Some b2"
        "budget_held b2 (tk # (T @ map qi_record (kept @ rest))) (permits P + permits (outstanding ?d))" by blast
      have i1: "d_inv I (?p # P) (tk # T) X (Suc r) (?d\<lparr>dp_budget := b'\<rparr>)"
        using hb' by (intro d_inv_tickets [OF d0]) simp
      have i2: "d_inv I (without_permit ?p # P) (tk # T) X (Suc r) (d\<lparr>dp_budget := b2, dp_queued := kept @ rest\<rparr>)"
      proof -
        have "outstanding (?d\<lparr>dp_budget := b'\<rparr>) = outstanding ?d" by (simp add: outstanding_def)
        then have "d_inv I (without_permit ?p # P) (tk # T) X (Suc r) (?d\<lparr>dp_budget := b', dp_budget := b2\<rparr>)"
          using b2(2) by (intro d_inv_permit [OF i1]) simp
        moreover have "?d\<lparr>dp_budget := b', dp_budget := b2\<rparr> = d\<lparr>dp_budget := b2, dp_queued := kept @ rest\<rparr>" by simp
        ultimately show ?thesis by (simp only:)
      qed
      obtain d3 where d3: "drop_ticket en (d\<lparr>dp_budget := b2, dp_queued := kept @ rest\<rparr>) (ticket_finish tk 0) = Some d3"
        "d_inv I (without_permit ?p # P) T X (Suc r) d3" "steady d d3" "dp_queued d3 = kept @ rest"
        "dp_transactions d3 = dp_transactions d" "dp_identity_paused d3 = dp_identity_paused d"
        using drop_ticket_step [OF ticket_outcome [OF i2, of 0], of en] by (auto simp: steady_def)
      have "occupied d3 < tm_max_pending (dp_transactions d3)" using room d3(4,5) by (simp add: occupied_def)
      then obtain d4 where d4: "send_rpc en d3 (qi_remote q) (qi_query q) (without_permit ?p) now = Some d4"
        "d_inv I P T X r d4" "steady d3 d4" "dp_queued d4 = kept @ rest" "dp_identity_paused d4 = dp_identity_paused d"
        using send_rpc_ok [OF d3(2) _ tgt, of en "qi_query q" now] d3(4,6) by auto
      have "outbound_loop en now d kept (q # rest) = outbound_loop en now d4 kept rest"
        using good qo(1) tb True b2(1) d3(1) d4(1) by simp
      then show ?thesis using goal [OF d4(2) steady_trans [OF d3(3) d4(3)] d4(4,5)] by simp
    qed
  qed
qed

lemma advance_outbound_ok:
  assumes "d_inv I P T X r d"
  shows "\<exists>d'. advance_outbound en d now = Some d' \<and> d_inv I P T X r d' \<and> steady d d' \<and>
    dp_identity_paused d' = dp_identity_paused d"
proof -
  have "d_inv I P T X r (d\<lparr>dp_queue_deadline := None\<rparr>)" "dp_queued (d\<lparr>dp_queue_deadline := None\<rparr>) = [] @ dp_queued d"
    using assms by simp_all
  from outbound_loop_ok [OF this] show ?thesis by (simp add: advance_outbound_def steady_def)
qed


section \<open>Starting a query\<close>

lemma enqueue_ok:
  assumes "d_inv I (p # P) T X (Suc r) d" and "occupied d < tm_max_pending (dp_transactions d)" and "target_ok remote"
  shows "d_inv I P T X r (enqueue en d remote q p now) \<and> steady d (enqueue en d remote q p now) \<and>
    dp_identity_paused (enqueue en d remote q p now) = dp_identity_paused d"
proof -
  obtain b tk where b: "queue_ticket (dp_budget d) (purpose_class p) (en_fresh en) = (b, tk)" by fastforce
  define qi where "qi = \<lparr>qi_wait_reasons = 0, qi_remote = remote, qi_query = q, qi_purpose = p,
    qi_deadline = now + secs 5, qi_record = tk\<rparr>"
  let ?d = "d\<lparr>dp_budget := b\<rparr>"
  have "budget_held b (tk # (T @ map qi_record (dp_queued d))) (permits ((p # P) @ outstanding d))"
    using ticket_new_held [OF d_inv_held [OF assms(1)] b] by simp
  then have "d_inv I (p # P) (tk # T) X (Suc r) ?d" by (intro d_inv_tickets [OF assms(1)]) simp
  moreover have "?d\<lparr>dp_queued := dp_queued d @ []\<rparr> = ?d" by simp
  ultimately have "d_inv I P T X r (?d\<lparr>dp_queued := dp_queued d @ qi # []\<rparr>)"
    using assms(2,3) by (intro d_inv_requeue) (simp_all add: qi_def occupied_def)
  moreover have "enqueue en d remote q p now = ?d\<lparr>dp_queued := dp_queued d @ qi # []\<rparr>"
    using b by (simp add: enqueue_def qi_def)
  ultimately show ?thesis by (simp add: steady_def)
qed

lemma start_rpc_ok:
  assumes "d_inv I (p # P) T X (Suc r) d" and "target_ok remote" and "\<not> has_permit p"
  shows "\<exists>d'. start_rpc en d remote q p now = Some d' \<and> d_inv I P T X r d' \<and> steady d d' \<and>
    dp_identity_paused d' = dp_identity_paused d"
proof -
  define limit where "limit = tm_max_pending (dp_transactions d) - (case p of PUserPing _ \<Rightarrow> 0 | _ \<Rightarrow> reserve_for d)"
  have fail: "\<exists>d'. finish_start_error en d p e now = Some d' \<and> d_inv I P T X r d' \<and> steady d d' \<and>
      dp_identity_paused d' = dp_identity_paused d" for e
    using start_error_ok [OF d_inv_less [OF assms(1), of r], of en e now] by fastforce
  have go: "\<exists>d'. advance_outbound en (enqueue en d1 remote q p1 now) now = Some d' \<and> d_inv I P T X r d' \<and> steady d d' \<and>
      dp_identity_paused d' = dp_identity_paused d"
    if d1: "d_inv I (p1 # P) T X (Suc r) d1" "steady d d1" "occupied d1 < tm_max_pending (dp_transactions d1)"
      "dp_identity_paused d1 = dp_identity_paused d" for d1 p1
  proof -
    note q1 = enqueue_ok [OF d1(1,3) assms(2), of en q now]
    from advance_outbound_ok [of I P T X r "enqueue en d1 remote q p1 now" en now] q1 obtain d2
      where "advance_outbound en (enqueue en d1 remote q p1 now) now = Some d2" "d_inv I P T X r d2"
        "steady (enqueue en d1 remote q p1 now) d2" "dp_identity_paused d2 = dp_identity_paused d" using d1(4) by auto
    then show ?thesis using steady_trans [OF d1(2) steady_trans] q1 by blast
  qed
  show ?thesis
  proof (cases "dp_identity_paused d \<or> occupied d \<ge> limit")
    case True
    then show ?thesis using fail [of IdentityChanged] fail [of "QueryAtCapacity limit"]
      by (cases "dp_identity_paused d") (simp_all add: start_rpc_def limit_def)
  next
    case False
    then have room: "occupied d < tm_max_pending (dp_transactions d)" unfolding limit_def by linarith
    show ?thesis
    proof (cases "\<exists>key permit. p = PVerification key permit")
      case True
      then obtain key where p: "p = PVerification key False" using assms(3) by (auto simp: has_permit_def)
      have "permits ((p # P) @ outstanding d) = permits (P @ outstanding d)" by (simp add: p has_permit_def)
      then have "budget_held (dp_budget d) (T @ map qi_record (dp_queued d)) (permits (P @ outstanding d))"
        using d_inv_held [OF assms(1)] by simp
      from admit_held [OF this] obtain b ok where a: "admit_verification (dp_budget d) (sa_ip (rn_address remote)) (en_fresh en) = Some (b, ok)"
        "budget_held b (T @ map qi_record (dp_queued d)) (if ok then Suc (permits (P @ outstanding d)) else permits (P @ outstanding d))"
        by blast
      have i1: "d_inv I (PVerification key ok # P) T X (Suc r) (d\<lparr>dp_budget := b\<rparr>)"
      proof -
        have "links ((PVerification key ok # P) @ outstanding d) d"
        proof -
          have "links (PVerification key False # (P @ outstanding d)) d" using assms(1) by (simp add: d_inv_def p)
          then show ?thesis by (simp add: links_def)
        qed
        then have "links ((PVerification key ok # P) @ outstanding d) (d\<lparr>dp_budget := b\<rparr>)" by (simp add: links_def)
        moreover have "permits ((PVerification key ok # P) @ outstanding d) = (if ok then Suc (permits (P @ outstanding d)) else permits (P @ outstanding d))"
          by (simp add: has_permit_def)
        ultimately show ?thesis using a(2) d_inv_parts [OF assms(1)] p by (intro d_inv_change [OF assms(1)]) simp_all
      qed
      have st: "steady d (d\<lparr>dp_budget := b\<rparr>)" by (simp add: steady_def)
      show ?thesis
      proof (cases ok)
        case True
        then show ?thesis using go [OF i1 st] room a(1) False \<open>p = _\<close>
          by (simp add: start_rpc_def limit_def occupied_def)
      next
        case ok: False
        then show ?thesis
          using start_error_ok [OF d_inv_less [OF i1, of r], of en LocalWait now] a(1) False steady_trans [OF st] p
          by (fastforce simp: start_rpc_def limit_def)
      qed
    next
      case other: False
      then have "start_rpc en d remote q p now = advance_outbound en (enqueue en d remote q p now) now"
        using False by (cases p) (simp_all add: start_rpc_def limit_def)
      then show ?thesis using go [OF assms(1) steady_refl room] by simp
    qed
  qed
qed

lemma start_query_ok:
  assumes "d_inv I (p # P) T X (Suc r) d" and "target_ok remote" and "\<not> has_permit p"
  shows "\<exists>d'. start_query en d remote m t p now = Some d' \<and> d_inv I P T X r d' \<and> steady d d' \<and>
    dp_identity_paused d' = dp_identity_paused d"
proof -
  have "\<exists>d'. finish_start_error en d p e now = Some d' \<and> d_inv I P T X r d' \<and> steady d d' \<and>
      dp_identity_paused d' = dp_identity_paused d" for e
    using start_error_ok [OF d_inv_less [OF assms(1), of r], of en e now] by fastforce
  then show ?thesis using start_rpc_ok [OF assms, of en _ now]
    by (cases m; cases t) (simp_all add: start_query_def)
qed

end
