(* ===== verification/DispatcherSettle.thy ===== *)
theory DispatcherSettle imports DispatcherOut begin

text \<open>Answers, errors and timeouts settle a purpose and keep the invariant.\<close>

section \<open>Routing\<close>

definition outcome_ok :: "routing_table \<Rightarrow> insert_outcome \<Rightarrow> bool" where
  "outcome_ok rt out \<longleftrightarrow> (case out of
     ProbeRequired incumbents c \<Rightarrow> incumbents \<noteq> [] \<and> contact_ok rt c \<and> (\<forall>x\<in>set incumbents. id_ok (nc_id x))
   | _ \<Rightarrow> True)"

definition same_net :: "routing_table \<Rightarrow> routing_table \<Rightarrow> bool" where
  "same_net rt rt' \<longleftrightarrow> rt_local_id rt' = rt_local_id rt \<and> rt_family rt' = rt_family rt"

lemma contact_ok_net: "same_net rt rt' \<Longrightarrow> contact_ok rt' c = contact_ok rt c"
  by (simp add: same_net_def contact_ok_def)

lemma purpose_ok_net: "same_net rt rt' \<Longrightarrow> purpose_ok rt' p = purpose_ok rt p"
  by (cases p) (simp_all add: contact_ok_net)

lemma outcome_ok_net: "same_net rt rt' \<Longrightarrow> outcome_ok rt' out = outcome_ok rt out"
  by (simp add: outcome_ok_def contact_ok_net split: insert_outcome.splits)

lemma steady_net: "steady d d' \<Longrightarrow> same_net (dp_routing d) (dp_routing d')"
  by (simp add: steady_def same_net_def)

lemma table_contact_ok: "rt_inv rt \<Longrightarrow> c \<in> set (table_contacts rt) \<Longrightarrow> contact_ok rt c"
  by (auto simp: rt_inv_def bucket_ok_def table_contacts_def)

lemma insert_ok:
  assumes "rt_inv rt" and "contact_ok rt c"
  shows "\<exists>rt' out. insert_verified rt c now = Some (rt', out) \<and> rt_inv rt' \<and> same_net rt rt' \<and> outcome_ok rt out"
proof -
  from insert_verified_inv [OF assms, of now] obtain rt' out where
    i: "insert_verified rt c now = Some (rt', out)" "rt_inv rt'" "same_net rt rt'" "insert_effect rt c now rt' out"
    by (auto simp: same_net_def)
  have "id_ok (nc_id x)" if "x \<in> set (table_contacts rt)" for x
    using table_contact_ok [OF assms(1) that] by (simp add: contact_ok_def)
  then have "outcome_ok rt out" using i(4) assms(2) by (auto simp: outcome_ok_def insert_effect_def split: insert_outcome.splits)
  then show ?thesis using i by blast
qed

lemma observe_ok:
  assumes "rt_inv rt" and "id_ok i"
  shows "\<exists>rt' out. observe_response rt i a now = Some (rt', out) \<and> rt_inv rt' \<and> same_net rt rt' \<and> outcome_ok rt out"
proof -
  from observe_response_inv [OF assms, of a now] obtain rt' out where
    o: "observe_response rt i a now = Some (rt', out)" "rt_inv rt'" "same_net rt rt'" by (auto simp: same_net_def)
  have "outcome_ok rt out"
  proof (cases "i = rt_local_id rt \<or> \<not> family_accepts (rt_family rt) a")
    case False
    then have "contact_ok rt (verified_contact i a now)" using assms(2) by (simp add: contact_ok_def verified_contact_def)
    from insert_ok [OF assms(1) this, of now] show ?thesis using o(1) False
      by (auto simp: observe_response_def outcome_ok_def Let_def split: option.splits)
  next
    case True
    then have "out = IgnoredSelf \<or> out = IgnoredWrongAddressFamily"
      using o(1) unfolding observe_response_def by (auto split: if_splits)
    then show ?thesis by (auto simp: outcome_ok_def)
  qed
  then show ?thesis using o by blast
qed

lemma failure_ok_net:
  assumes "rt_inv rt" and "id_ok i"
  shows "\<exists>rt' st. record_failure rt i now = Some (rt', st) \<and> rt_inv rt' \<and> same_net rt rt'"
proof -
  obtain rt' st where "record_failure rt i now = Some (rt', st)" "rt_inv rt'" using record_failure_inv [OF assms] by blast
  then show ?thesis by (auto simp: record_failure_def same_net_def Let_def split: option.splits)
qed

lemma observe_query_net:
  assumes "rt_inv rt" and "id_ok i"
  shows "\<exists>rt' out. observe_query rt i a ro now = Some (rt', out) \<and> rt_inv rt' \<and> same_net rt rt' \<and>
    (\<forall>j b. out = VerificationRequired j b \<longrightarrow> j = i)"
proof -
  obtain rt' out where "observe_query rt i a ro now = Some (rt', out)" "rt_inv rt'" using observe_query_inv [OF assms] by blast
  then show ?thesis by (auto simp: observe_query_def same_net_def Let_def split: option.splits if_splits)
qed

lemma links_routing: "same_net (dp_routing d) rt \<Longrightarrow> links L (d\<lparr>dp_routing := rt\<rparr>) = links L d"
  using purpose_ok_net by (simp add: links_def)

lemma d_inv_routing:
  assumes "d_inv I P T X r d" and "rt_inv rt" and "same_net (dp_routing d) rt"
  shows "d_inv I P T X r (d\<lparr>dp_routing := rt\<rparr>)"
  using assms links_routing [OF assms(3)] by (simp add: d_inv_def maps_ok_def occupied_def outstanding_def)

lemma steady_routing: "same_net (dp_routing d) rt \<Longrightarrow> steady d (d\<lparr>dp_routing := rt\<rparr>)"
  by (simp add: steady_def same_net_def)

section \<open>Probes of full buckets\<close>

lemma start_bucket_probe_ok:
  assumes "d_inv I P T X (Suc r) d" and "contact_ok (dp_routing d) cand" and "id_ok (nc_id c)" and "\<forall>x\<in>set cs. id_ok (nc_id x)"
  shows "\<exists>d'. start_bucket_probe en d c cs cand k now = Some d' \<and> d_inv I P T X r d' \<and> steady d d' \<and>
    dp_identity_paused d' = dp_identity_paused d"
proof (cases "probe_key c \<in> dp_bucket_probes d")
  case True
  then show ?thesis using d_inv_less [OF assms(1), of r] by (simp add: start_bucket_probe_def)
next
  case False
  let ?d = "d\<lparr>dp_bucket_probes := insert (probe_key c) (dp_bucket_probes d)\<rparr>" and ?p = "PBucketProbe c cs cand k"
  have "links ((?p # P) @ outstanding d) ?d"
  proof -
    have "links (P @ outstanding d) d" using assms(1) by (simp add: d_inv_def)
    moreover have "lookup_links (?p # L) ms = lookup_links L ms" for L ms by simp
    ultimately show ?thesis using False assms(2-4) by (simp add: links_def)
  qed
  then have "d_inv I (?p # P) T X (Suc r) ?d"
    using d_inv_parts [OF assms(1)] by (intro d_inv_change [OF assms(1)]) (simp_all add: has_permit_def)
  moreover have "target_ok (node_target c)" using assms(3) by (simp add: target_ok_def node_target_def)
  ultimately obtain d' where "start_query en ?d (node_target c) Ping None ?p now = Some d'" "d_inv I P T X r d'" "steady ?d d'"
    "dp_identity_paused d' = dp_identity_paused d"
    using start_query_ok [of I ?p P T X r ?d "node_target c" en Ping None now] by (auto simp: has_permit_def)
  moreover have "steady d ?d" by (simp add: steady_def)
  ultimately show ?thesis using False steady_trans by (auto simp: start_bucket_probe_def)
qed

lemma handle_insert_outcome_ok:
  assumes "d_inv I P T X (Suc r) d" and "outcome_ok (dp_routing d) out"
  shows "\<exists>d'. handle_insert_outcome en d out now = Some d' \<and> d_inv I P T X r d' \<and> steady d d' \<and>
    dp_identity_paused d' = dp_identity_paused d"
proof (cases "\<exists>inc c. out = ProbeRequired inc c")
  case True
  then obtain c cs cand where "out = ProbeRequired (c # cs) cand" using assms(2) by (auto simp: outcome_ok_def neq_Nil_conv)
  then show ?thesis using start_bucket_probe_ok [OF assms(1), of cand c cs en 1 now] assms(2)
    by (simp add: handle_insert_outcome_def outcome_ok_def)
next
  case False
  then have "handle_insert_outcome en d out now = Some d" by (auto simp: handle_insert_outcome_def split: insert_outcome.splits)
  then show ?thesis using d_inv_less [OF assms(1), of r] by simp
qed

lemma reconsider_ok:
  assumes "d_inv I P T X (Suc r) d" and "contact_ok (dp_routing d) cand"
  shows "\<exists>d'. reconsider en d cand now = Some d' \<and> d_inv I P T X r d' \<and> steady d d' \<and>
    dp_identity_paused d' = dp_identity_paused d"
proof -
  obtain rt out where rt: "insert_verified (dp_routing d) cand now = Some (rt, out)" "rt_inv rt" "same_net (dp_routing d) rt"
    "outcome_ok (dp_routing d) out" using insert_ok [OF d_inv_parts(2) [OF assms(1)] assms(2), of now] by blast
  have "outcome_ok rt out" using outcome_ok_net [OF rt(3)] rt(4) by simp
  then obtain d' where "handle_insert_outcome en (d\<lparr>dp_routing := rt\<rparr>) out now = Some d'" "d_inv I P T X r d'"
    "steady (d\<lparr>dp_routing := rt\<rparr>) d'" "dp_identity_paused d' = dp_identity_paused d"
    using handle_insert_outcome_ok [OF d_inv_routing [OF assms(1) rt(2,3)], of out en now] by auto
  then show ?thesis using rt(1) steady_trans [OF steady_routing [OF rt(3)]] by (auto simp: reconsider_def reconsider_candidate_def)
qed

section \<open>Lookups\<close>

lemma finish_candidate_members:
  assumes "hm_ok (il_candidates l)" and "(j, c') \<in> set (il_candidates (finish_candidate l i ok))"
  shows "\<exists>c. (j, c) \<in> set (il_candidates l) \<and> (lc_state c' = InFlight \<longrightarrow> lc_state c = InFlight \<and> j \<noteq> i)"
proof (cases "hm_get (il_candidates l) i")
  case None
  then have "i \<notin> fst ` set (il_candidates l)" by (simp add: hm_get_None)
  then have "(j, c') \<in> set (il_candidates l) \<and> j \<noteq> i" using None assms(2) by (force simp: finish_candidate_def)
  then show ?thesis by blast
next
  case (Some e)
  show ?thesis
  proof (cases "lc_state e = InFlight")
    case True
    define s where "s = (if ok then Succeeded else Failed)"
    have "il_candidates (finish_candidate l i ok) = hm_put i (e\<lparr>lc_state := s\<rparr>) (il_candidates l)"
      using Some True by (simp add: finish_candidate_def set_state_def s_def)
    then have "(j, c') = (i, e\<lparr>lc_state := s\<rparr>) \<or> ((j, c') \<in> set (il_candidates l) \<and> j \<noteq> i)"
      using assms(2) hm_set_put [OF assms(1)] by auto
    then show ?thesis using hm_get_in [OF Some] by (auto simp: s_def)
  next
    case False
    then have m: "(j, c') \<in> set (il_candidates l)" using Some assms(2) by (simp add: finish_candidate_def)
    have "c' = e" if "j = i" using m that Some hm_get_Some [OF assms(1), of j c'] by simp
    then show ?thesis using m False by blast
  qed
qed

lemma merge_members:
  "hm_ok m \<Longrightarrow> (j, c') \<in> set (merge_discovered local_id ds m) \<Longrightarrow>
   (\<exists>c. (j, c) \<in> set m \<and> (lc_state c' = InFlight \<longrightarrow> lc_state c = InFlight)) \<or>
   (lc_state c' \<noteq> InFlight \<and> j \<in> (nc_id \<circ> fst) ` set ds)"
proof (induction ds arbitrary: m)
  case (Cons x ds)
  obtain n v where x: "x = (n, v)" by fastforce
  define m' where "m' = (if nc_id n = local_id then m
      else case hm_get m (nc_id n) of
        Some e \<Rightarrow> if v \<and> \<not> lc_verified e \<and> lc_state e = Unqueried
          then hm_put (nc_id n) (e\<lparr>lc_node := n, lc_verified := True\<rparr>) m else m
      | None \<Rightarrow> hm_put (nc_id n) \<lparr>lc_node = n, lc_state = Unqueried, lc_verified = v\<rparr> m)"
  have ok: "hm_ok m'" using Cons.prems(1) by (auto simp: m'_def split: option.splits)
  have new: "(\<exists>c. (k, c) \<in> set m \<and> (lc_state e' = InFlight \<longrightarrow> lc_state c = InFlight)) \<or> (lc_state e' \<noteq> InFlight \<and> k = nc_id n)"
    if "(k, e') \<in> set m'" for k e'
    using that hm_set_put [OF Cons.prems(1)] hm_get_in [of m "nc_id n"] unfolding m'_def
    by (auto split: option.splits if_splits)
  have "(j, c') \<in> set (merge_discovered local_id ds m')" using Cons.prems(2) by (simp add: x m'_def)
  from Cons.IH [OF ok this] show ?case using new by (force simp: x)
qed auto

lemma truncate_subset: "set (truncate_candidates t m) \<subseteq> set m"
  by (auto simp: truncate_candidates_def hm_retain_def Let_def)

lemma lookup_links_step:
  assumes "lookup_links (PMaintenanceLookup i # L) ms" and "ms_lookup ms = Some l"
    and "lookup_inv (ms_config ms) l'" and "il_target l' = il_target l"
    and "\<And>j c'. (j, c') \<in> set (il_candidates l') \<Longrightarrow>
      (\<exists>c. (j, c) \<in> set (il_candidates l) \<and> (lc_state c' = InFlight \<longrightarrow> lc_state c = InFlight \<and> j \<noteq> i)) \<or>
      (lc_state c' \<noteq> InFlight \<and> id_ok j)"
  shows "lookup_links L (ms\<lparr>ms_lookup := Some l'\<rparr>)"
  using assms by (fastforce simp: lookup_links_def)

lemma lookup_links_failure:
  assumes "lookup_links (PMaintenanceLookup i # L) ms" and "ms_lookup ms = Some l"
  shows "lookup_links L (ms\<lparr>ms_lookup := Some (complete_failure l i)\<rparr>)"
proof (rule lookup_links_step [OF assms])
  have inv: "lookup_inv (ms_config ms) l" using assms by (simp add: lookup_links_def)
  then show "lookup_inv (ms_config ms) (complete_failure l i)" using lookup_ops.safe_step [of "ms_config ms" l "LFailure i"] by simp
  have ok: "hm_ok (il_candidates l)" using inv by (simp add: lookup_inv_def cands_inv_def)
  show "il_target (complete_failure l i) = il_target l"
    by (simp add: complete_failure_def finish_candidate_def split: option.split)
  show "\<And>j c'. (j, c') \<in> set (il_candidates (complete_failure l i)) \<Longrightarrow>
      (\<exists>c. (j, c) \<in> set (il_candidates l) \<and> (lc_state c' = InFlight \<longrightarrow> lc_state c = InFlight \<and> j \<noteq> i)) \<or>
      (lc_state c' \<noteq> InFlight \<and> id_ok j)"
    using finish_candidate_members [OF ok] unfolding complete_failure_def by blast
qed

lemma lookup_links_success:
  assumes "lookup_links (PMaintenanceLookup i # L) ms" and "ms_lookup ms = Some l" and "\<forall>x\<in>set ds. id_ok (nc_id (fst x))"
  shows "lookup_links L (ms\<lparr>ms_lookup := Some (complete_success l i ds local_id)\<rparr>)"
proof (rule lookup_links_step [OF assms(1,2)])
  have inv: "lookup_inv (ms_config ms) l" using assms by (simp add: lookup_links_def)
  then show "lookup_inv (ms_config ms) (complete_success l i ds local_id)"
    using lookup_ops.safe_step [of "ms_config ms" l "LSuccess i ds local_id"] by simp
  have ok: "hm_ok (il_candidates l)" using inv by (simp add: lookup_inv_def cands_inv_def)
  then have fok: "hm_ok (il_candidates (finish_candidate l i b))" for b
    by (simp add: finish_candidate_def set_state_def split: option.split)
  show "il_target (complete_success l i ds local_id) = il_target l"
    by (simp add: complete_success_def finish_candidate_def Let_def split: option.split)
  fix j c'
  assume "(j, c') \<in> set (il_candidates (complete_success l i ds local_id))"
  then obtain b where "(j, c') \<in> set (merge_discovered local_id ds (il_candidates (finish_candidate l i b)))"
    using truncate_subset by (auto simp: complete_success_def Let_def)
  from merge_members [OF fok this] show "(\<exists>c. (j, c) \<in> set (il_candidates l) \<and> (lc_state c' = InFlight \<longrightarrow> lc_state c = InFlight \<and> j \<noteq> i)) \<or>
      (lc_state c' \<noteq> InFlight \<and> id_ok j)"
  proof
    assume "\<exists>c. (j, c) \<in> set (il_candidates (finish_candidate l i b)) \<and> (lc_state c' = InFlight \<longrightarrow> lc_state c = InFlight)"
    then obtain c where c: "(j, c) \<in> set (il_candidates (finish_candidate l i b))" "lc_state c' = InFlight \<longrightarrow> lc_state c = InFlight"
      by blast
    from finish_candidate_members [OF ok c(1)] show ?thesis using c(2) by blast
  qed (use assms(3) in auto)
qed

lemma lookup_links_idle:
  "lookup_links (PMaintenanceLookup i # L) ms \<Longrightarrow> ms_lookup ms = None \<Longrightarrow> lookup_links L ms"
  by (simp add: lookup_links_def)

end
