(* ===== verification/DispatcherNet.thy ===== *)
theory DispatcherNet imports DispatcherSettle begin

text \<open>The settlement of a sent query by an answer, an error or a timeout keeps the invariant.\<close>

section \<open>Decoded responses\<close>

definition args_ok :: "response_args \<Rightarrow> bool" where
  "args_ok r \<longleftrightarrow> id_ok (ra_id r) \<and> (\<forall>ns\<in>set_option (ra_nodes r). \<forall>n\<in>set ns. id_ok (c4_id n)) \<and>
     (\<forall>ns\<in>set_option (ra_nodes6 r). \<forall>n\<in>set ns. id_ok (c6_id n))"

definition nodes_ok20 :: "discovered_node list \<Rightarrow> bool" where
  "nodes_ok20 ns \<longleftrightarrow> (\<forall>n\<in>set ns. id_ok (dn_id n))"

fun decoded_ok :: "pending_purpose \<Rightarrow> validated_response \<Rightarrow> bool" where
  "decoded_ok (PSampling _) (VSamples s) \<longleftrightarrow> nodes_ok20 (sr_nodes s)"
| "decoded_ok (PSampling _) (VNodes f) \<longleftrightarrow> nodes_ok20 (fr_nodes f)"
| "decoded_ok (PSampling _) _ \<longleftrightarrow> False"
| "decoded_ok (PMaintenanceLookup _) (VNodes f) \<longleftrightarrow> nodes_ok20 (fr_nodes f)"
| "decoded_ok (PMaintenanceLookup _) _ \<longleftrightarrow> False"
| "decoded_ok _ _ \<longleftrightarrow> True"

lemma find_node_decoded: "args_ok r \<Longrightarrow> decode_find_node_response d r = Inr f \<Longrightarrow> nodes_ok20 (fr_nodes f)"
  by (auto simp: decode_find_node_response_def args_ok_def nodes_ok20_def split: address_family.splits option.splits)

lemma decode_sample_nodes: "decode_sample r ns len = Inr (Some s) \<Longrightarrow> sr_nodes s = ns"
  by (auto simp: decode_sample_def Let_def split: option.splits if_splits)

lemma decode_for_ok: "args_ok r \<Longrightarrow> decode_for d p r len = Inr x \<Longrightarrow> decoded_ok p x"
  by (auto simp: decode_for_def find_node_decoded decode_sample_nodes
      split: pending_purpose.splits sum.splits if_splits option.splits)


section \<open>A pending query is taken out\<close>

definition popped :: "dispatcher \<Rightarrow> transaction_id \<Rightarrow> dispatcher" where
  "popped d i = d\<lparr>dp_transactions := (dp_transactions d)\<lparr>tm_pending := hm_remove i (tm_pending (dp_transactions d))\<rparr>,
     dp_pending := hm_remove i (dp_pending d)\<rparr>"

lemma drop_pending_popped: "drop_pending d i = popped d i"
  by (simp add: drop_pending_def popped_def cancel_def)

lemma popped_fields [simp]:
  "dp_queued (popped d i) = dp_queued d" "dp_budget (popped d i) = dp_budget d" "dp_sampler (popped d i) = dp_sampler d"
  "dp_identity_paused (popped d i) = dp_identity_paused d" "dp_replies (popped d i) = dp_replies d"
  "dp_routing (popped d i) = dp_routing d" "dp_maintenance (popped d i) = dp_maintenance d"
  "dp_pending (popped d i) = hm_remove i (dp_pending d)" "steady d (popped d i)"
  by (simp_all add: popped_def steady_def)

lemma values_remove:
  "hm_ok m \<Longrightarrow> hm_get m i = Some v \<Longrightarrow> mset (hm_values m) = add_mset v (mset (hm_values (hm_remove i m)))"
proof (induction m)
  case (Cons e m)
  then show ?case
  proof (cases "fst e = i")
    case True
    then have "hm_get m i = None" using Cons.prems by (auto simp: hm_ok_def hm_get_None)
    then have "hm_remove i (e # m) = m" using True hm_remove_absent [of m i] by (cases e) (simp add: hm_remove_def)
    then show ?thesis using True Cons.prems by (cases e) (simp add: hm_values_def hm_get_def)
  next
    case False
    then show ?thesis using Cons by (cases e) (simp add: hm_ok_def hm_get_def hm_values_def hm_remove_def)
  qed
qed (simp add: hm_get_def)

lemma length_remove_le: "length (hm_remove k m) \<le> length m"
  by (simp add: hm_remove_def)

lemma keys_remove: "fst ` set (hm_remove k m) = fst ` set m - {k}"
  by (auto simp: hm_set_remove)

lemma d_inv_popped:
  assumes "d_inv I P T X r d" and "hm_get (dp_pending d) i = Some p"
  shows "d_inv I (pd_purpose p # P) T (X - {i}) r (popped d i)" "target_ok (pd_remote p)" "\<not> has_permit (pd_purpose p)"
proof -
  have m: "maps_ok X d" and a: "ahead X (length (dp_queued d) + r) (dp_transactions d)" using assms(1) by (simp_all add: d_inv_def)
  have ok: "hm_ok (dp_pending d)" using m by (simp add: maps_ok_def)
  have "(i, p) \<in> set (dp_pending d)" using assms(2) by (rule hm_get_in)
  then have pv: "p \<in> set (hm_values (dp_pending d))" by (force simp: hm_values_def)
  then show "target_ok (pd_remote p)" "\<not> has_permit (pd_purpose p)" using m by (auto simp: maps_ok_def)
  have o: "mset ((pd_purpose p # P) @ outstanding (popped d i)) = mset (P @ outstanding d)"
    using values_remove [OF ok assms(2)] by (simp add: outstanding_def)
  have "links ((pd_purpose p # P) @ outstanding (popped d i)) (popped d i)"
    using links_mset [OF _ o, of d] assms(1) by (simp add: d_inv_def) (simp add: links_def popped_def)
  moreover have "maps_ok (X - {i}) (popped d i)"
  proof -
    have v: "set (hm_values (hm_remove i (dp_pending d))) \<subseteq> set (hm_values (dp_pending d))"
      by (auto simp: hm_values_def hm_set_remove)
    have "occupied (popped d i) \<le> occupied d" by (simp add: occupied_def popped_def length_remove_le)
    then have "occupied (popped d i) \<le> tm_max_pending (dp_transactions d)" using m by (simp add: maps_ok_def)
    moreover have "tm_inv ((dp_transactions d)\<lparr>tm_pending := hm_remove i (tm_pending (dp_transactions d))\<rparr>)"
      using m tm_inv_remove by (simp add: maps_ok_def)
    ultimately show ?thesis using m v unfolding maps_ok_def popped_def
      by (auto simp: keys_remove split: if_splits)
  qed
  moreover have "ahead (X - {i}) (length (dp_queued d) + r) (dp_transactions (popped d i))"
    using a by (auto simp: ahead_def popped_def)
  ultimately show "d_inv I (pd_purpose p # P) T (X - {i}) r (popped d i)"
    using assms(1) unfolding d_inv_def permits_mset [OF o] gather_mset [OF o]
    by (simp add: popped_def)
qed

lemma d_inv_any: "d_inv I P T {} r d = d_inv I P T {} s d"
  by (simp add: d_inv_def)

text \<open>Only the transaction ends: its pending entry is still to be settled, or there was none.\<close>

lemma d_inv_counters:
  assumes "d_inv I P T X r d" and "same_gauges (dp_budget d) b"
  shows "d_inv I P T X r (d\<lparr>dp_budget := b, dp_security := c, dp_pending_external_ip := x\<rparr>)"
  using d_inv_budget [OF assms] by (simp add: d_inv_def maps_ok_def occupied_def links_def outstanding_def)


section \<open>Settlement\<close>

lemma blame_ok:
  assumes "d_inv I P T X r d" and "target_ok (pd_remote p)"
  shows "\<exists>d'. blame d p e now = Some d' \<and> d_inv I P T X r d' \<and> steady d d' \<and> dp_identity_paused d' = dp_identity_paused d \<and>
    dp_sampler d' = dp_sampler d \<and> dp_maintenance d' = dp_maintenance d \<and> dp_replies d' = dp_replies d"
proof (cases "is_remote e \<or> rn_expected_id (pd_remote p) = None")
  case True
  then show ?thesis using assms(1) by (auto simp: blame_def expected_failure_def)
next
  case False
  then obtain i where i: "rn_expected_id (pd_remote p) = Some i" "id_ok i" using assms(2) by (auto simp: target_ok_def)
  obtain rt st where rt: "record_failure (dp_routing d) i now = Some (rt, st)" "rt_inv rt" "same_net (dp_routing d) rt"
    using failure_ok_net [OF d_inv_parts(2) [OF assms(1)] i(2)] by blast
  then show ?thesis using False i(1) d_inv_routing [OF assms(1) rt(2,3)] steady_routing [OF rt(3)]
    by (simp add: blame_def expected_failure_def)
qed

lemma contact_known_total: "rt_inv rt \<Longrightarrow> id_ok i \<Longrightarrow> \<exists>c. contact rt i = Some c \<and> (\<forall>x\<in>set_option c. nc_id x = i)"
proof -
  assume "rt_inv rt" "id_ok i"
  then obtain k where "bucket_index rt i = Some k" using bucket_index_total by blast
  moreover have "nc_id x = i" if "List.find (\<lambda>c. nc_id c = i) cs = Some x" for cs x
    using find_Some_iff2 [OF that] by simp
  ultimately show ?thesis by (auto simp: contact_def)
qed

lemma lookup_candidates_ok:
  "rt_inv (dp_routing d) \<Longrightarrow> nodes_ok20 ns \<Longrightarrow>
   \<exists>cs. lookup_candidates d ns now = Some cs \<and> (\<forall>x\<in>set cs. id_ok (nc_id (fst x)))"
proof (induction ns)
  case (Cons n ns)
  then have n: "id_ok (dn_id n)" "nodes_ok20 ns" by (simp_all add: nodes_ok20_def)
  obtain cs where cs: "lookup_candidates d ns now = Some cs" "\<forall>x\<in>set cs. id_ok (nc_id (fst x))" using Cons n by blast
  obtain k where k: "contact (dp_routing d) (dn_id n) = Some k" "\<forall>x\<in>set_option k. nc_id x = dn_id n"
    using contact_known_total [OF Cons.prems(1) n(1)] by blast
  then show ?case using cs n(1) by (cases k) (simp_all add: contact_for_lookup_def verified_contact_def)
qed simp

text \<open>What all settlements have in common: the purpose is gone, and possibly one query was started.\<close>

definition settled :: "nat multiset \<Rightarrow> pending_purpose list \<Rightarrow> queue_record list \<Rightarrow> transaction_id set \<Rightarrow> nat \<Rightarrow> dispatcher
    \<Rightarrow> dispatcher \<Rightarrow> bool" where
  "settled I P T X r d d' \<longleftrightarrow> d_inv I P T X r d' \<and> steady d d' \<and> dp_identity_paused d' = dp_identity_paused d"

lemma settledI: "d_inv I P T X r d' \<Longrightarrow> steady d d' \<Longrightarrow> dp_identity_paused d' = dp_identity_paused d \<Longrightarrow> settled I P T X r d d'"
  by (simp add: settled_def)

lemma settled_less: "settled I P T X r d d' \<Longrightarrow> s \<le> r \<Longrightarrow> settled I P T X s d d'"
  using d_inv_less by (auto simp: settled_def)

lemma settled_trans: "steady a b \<Longrightarrow> dp_identity_paused b = dp_identity_paused a \<Longrightarrow> settled I P T X r b c \<Longrightarrow> settled I P T X r a c"
  using steady_trans by (auto simp: settled_def)

lemma settled_caller:
  assumes "d_inv I (p # P) T X r d" and "p = PFetch c \<or> p = PUserPing c"
  shows "settled I P T X r d (answer d c y)"
proof -
  note parts = d_inv_parts [OF assms(1)]
  have "links (P @ outstanding d) d" using parts(5) assms(2) by (auto simp: links_inert)
  then have "d_inv I P T X r (answer d c y)" using parts assms(2)
    by (intro settle_links [OF assms(1)]) (auto simp: answer_def has_permit_def)
  then show ?thesis by (simp add: settled_def answer_def steady_def)
qed

lemma settled_recovery:
  assumes "d_inv I (PRecovery i # P) T X r d"
  shows "settled I P T X r d (d\<lparr>dp_recovery := recovery_finished (dp_recovery d) i\<rparr>)"
proof -
  note parts = d_inv_parts [OF assms]
  have "d_inv I P T X r (d\<lparr>dp_recovery := recovery_finished (dp_recovery d) i\<rparr>)"
    using parts links_recovery [of i "P @ outstanding d" d] recovery_ok_finished
    by (intro settle_links [OF assms]) (simp_all add: has_permit_def)
  then show ?thesis by (simp add: settled_def steady_def)
qed

lemma settled_sampling:
  assumes "d_inv I (PSampling q # P) T X r d" and "good s (gather samplings_of (P @ outstanding d))"
  shows "settled I P T X r d (d\<lparr>dp_sampler := s\<rparr>)"
proof -
  note parts = d_inv_parts [OF assms(1)]
  have "d_inv I P T X r (d\<lparr>dp_sampler := s\<rparr>)"
    using parts links_sampling [OF _ assms(2), of q d]
    by (intro settle_links [OF assms(1)]) (simp_all add: has_permit_def)
  then show ?thesis by (simp add: settled_def steady_def)
qed

lemma sampling_good: "d_inv I (PSampling q # P) T X r d \<Longrightarrow> good (dp_sampler d) (q # gather samplings_of (P @ outstanding d))"
  using links_good [of "PSampling q # (P @ outstanding d)" d] by (simp add: d_inv_def)

lemma settled_verification:
  assumes "d_inv I (PVerification key f # P) T X r d" and "\<not> f"
  shows "settled I P T X r d (d\<lparr>dp_budget := verification_result (dp_budget d) b, dp_verifications := dp_verifications d - {key}\<rparr>)"
proof -
  note parts = d_inv_parts [OF assms(1)]
  have "same_gauges (dp_budget d) (verification_result (dp_budget d) b)" using d_inv_budget_inv [OF assms(1)] by simp
  then have h: "budget_held (verification_result (dp_budget d) b) (T @ map qi_record (dp_queued d)) (permits (P @ outstanding d))"
    using held_same [OF parts(6)] assms(2) by (simp add: has_permit_def)
  have l: "links (P @ outstanding d) (d\<lparr>dp_budget := verification_result (dp_budget d) b, dp_verifications := dp_verifications d - {key}\<rparr>)"
    using parts(5) links_verification [of key f "P @ outstanding d" d "verification_result (dp_budget d) b"]
    by (simp add: links_def)
  have "d_inv I P T X r (d\<lparr>dp_budget := verification_result (dp_budget d) b, dp_verifications := dp_verifications d - {key}\<rparr>)"
    using parts h l by (intro settle_links [OF assms(1)]) simp_all
  then show ?thesis by (simp add: settled_def steady_def)
qed

lemma settled_probe:
  assumes "d_inv I (PBucketProbe c cs n k # P) T X r d"
  shows "settled I P T X r d (d\<lparr>dp_bucket_probes := dp_bucket_probes d - {probe_key c}\<rparr>)"
proof -
  note parts = d_inv_parts [OF assms]
  have "d_inv I P T X r (d\<lparr>dp_bucket_probes := dp_bucket_probes d - {probe_key c}\<rparr>)"
    using parts links_probe [of c cs n k "P @ outstanding d" d]
    by (intro settle_links [OF assms]) (simp_all add: has_permit_def)
  then show ?thesis by (simp add: settled_def steady_def)
qed

lemma probe_purpose_ok:
  assumes "d_inv I (PBucketProbe c cs n k # P) T X r d"
  shows "contact_ok (dp_routing d) n" "id_ok (nc_id c)" "\<forall>x\<in>set cs. id_ok (nc_id x)"
  using assms by (simp_all add: d_inv_def links_def)

lemma settled_lookup:
  assumes "d_inv I (PMaintenanceLookup i # P) T X r d"
    and "\<And>l. ms_lookup (dp_maintenance d) = Some l \<Longrightarrow>
      lookup_links (P @ outstanding d) ((dp_maintenance d)\<lparr>ms_lookup := Some (f l)\<rparr>)"
  shows "settled I P T X r d (update_lookup d f)"
proof -
  note parts = d_inv_parts [OF assms(1)]
  have l: "links (PMaintenanceLookup i # (P @ outstanding d)) d" using parts(5) by simp
  have "lookup_links (P @ outstanding d) ((dp_maintenance d)\<lparr>ms_lookup := map_option f (ms_lookup (dp_maintenance d))\<rparr>)"
  proof (cases "ms_lookup (dp_maintenance d)")
    case (Some lk)
    then show ?thesis using assms(2) by simp
  qed (simp add: lookup_links_def)
  then have "d_inv I P T X r (update_lookup d f)"
    using parts links_lookup [OF l] unfolding update_lookup_def
    by (intro settle_links [OF assms(1)]) (simp_all add: has_permit_def)
  then show ?thesis by (simp add: settled_def steady_def update_lookup_def)
qed

lemma lookup_linked: "d_inv I (PMaintenanceLookup i # P) T X r d \<Longrightarrow>
    lookup_links (PMaintenanceLookup i # (P @ outstanding d)) (dp_maintenance d)"
  by (simp add: d_inv_def links_def)


lemma finish_success_ok:
  assumes "d_inv I (pd_purpose p # P) T X (Suc r) d" and "decoded_ok (pd_purpose p) x" and "\<not> has_permit (pd_purpose p)"
  shows "\<exists>d'. finish_success en d p i x now = Some d' \<and> settled I P T X r d d'"
proof -
  note less = d_inv_less [OF assms(1), of r, simplified]
  have rt: "rt_inv (dp_routing d)" using assms(1) by (simp add: d_inv_def)
  show ?thesis
  proof (cases "pd_purpose p")
    case (PFetch c)
    then show ?thesis using settled_caller [OF less, of c] by (simp add: finish_success_def)
  next
    case (PUserPing c)
    then show ?thesis using settled_caller [OF less, of c] by (simp add: finish_success_def)
  next
    case (PRecovery j)
    then show ?thesis using settled_recovery [of I j] less by (simp add: finish_success_def)
  next
    case (PVerification key f)
    then show ?thesis using settled_verification [of I key f P T X r d True] less assms(3)
      by (simp add: finish_success_def has_permit_def)
  next
    case (PSampling q)
    then have g: "good (dp_sampler d) (q # gather samplings_of (P @ outstanding d))" using sampling_good [of I q] less by simp
    have ids: "id_ok (dn_id n)" if "nodes_ok20 ns" "n \<in> set ns" for ns n using that by (simp add: nodes_ok20_def)
    consider (samples) s where "x = VSamples s" "nodes_ok20 (sr_nodes s)" | (nodes) f where "x = VNodes f" "nodes_ok20 (fr_nodes f)"
      using assms(2) PSampling by (cases x) auto
    then show ?thesis
    proof cases
      case (samples s)
      obtain s' b where "sampler_success (dp_sampler d) q s (dp_routing d) now (en_fresh en) (en_system_now en) = Some (s', b)"
        "good s' (gather samplings_of (P @ outstanding d))"
        using success_ok [OF g rt, of s now "en_fresh en" "en_system_now en"] ids [OF samples(2)] by blast
      then show ?thesis using settled_sampling [of I q P T X r d s'] less PSampling samples(1) by (simp add: finish_success_def)
    next
      case (nodes f)
      obtain s' where "sampler_nodes (dp_sampler d) q (fr_nodes f) (dp_routing d) now (en_fresh en) = Some s'"
        "good s' (gather samplings_of (P @ outstanding d))"
        using nodes_ok [OF g rt, of "fr_nodes f" now "en_fresh en"] ids [OF nodes(2)] by blast
      then show ?thesis using settled_sampling [of I q P T X r d s'] less PSampling nodes(1) by (simp add: finish_success_def)
    qed
  next
    case (PMaintenanceLookup j)
    then obtain f where f: "x = VNodes f" "nodes_ok20 (fr_nodes f)" using assms(2) by (cases x) auto
    obtain cs where cs: "lookup_candidates d (fr_nodes f) now = Some cs" "\<forall>y\<in>set cs. id_ok (nc_id (fst y))"
      using lookup_candidates_ok [OF rt f(2), of now] by blast
    have less': "d_inv I (PMaintenanceLookup j # P) T X r d" using less PMaintenanceLookup by simp
    have "settled I P T X r d (update_lookup d (\<lambda>l. complete_success l j cs (rt_local_id (dp_routing d))))"
      by (rule settled_lookup [OF less']) (rule lookup_links_success [OF lookup_linked [OF less'] _ cs(2)])
    then show ?thesis using f(1) cs(1) PMaintenanceLookup by (simp add: finish_success_def)
  next
    case (PBucketProbe c cs n k)
    let ?d = "d\<lparr>dp_bucket_probes := dp_bucket_probes d - {probe_key c}\<rparr>"
    have i: "d_inv I (PBucketProbe c cs n k # P) T X (Suc r) d" using assms(1) PBucketProbe by simp
    note po = probe_purpose_ok [OF i]
    have s: "settled I P T X (Suc r) d ?d" using settled_probe [OF i] .
    then have sd: "d_inv I P T X (Suc r) ?d" "steady d ?d" by (simp_all add: settled_def)
    have "\<exists>d'. reconsider en ?d n now = Some d' \<and> settled I P T X r d d'"
      using reconsider_ok [OF sd(1), of n en now] po(1) sd(2) steady_trans by (fastforce simp: settled_def)
    moreover have "\<exists>d'. start_bucket_probe en ?d a as n 1 now = Some d' \<and> settled I P T X r d d'" if "cs = a # as" for a as
      using start_bucket_probe_ok [OF sd(1), of n a as en 1 now] po that sd(2) steady_trans by (fastforce simp: settled_def)
    ultimately show ?thesis using PBucketProbe by (cases cs) (simp_all add: finish_success_def Let_def)
  qed
qed

lemma finish_network_failure_ok:
  assumes "d_inv I (pd_purpose p # P) T X (Suc r) d" and "target_ok (pd_remote p)" and "\<not> has_permit (pd_purpose p)"
  shows "\<exists>d'. finish_network_failure en d p e now = Some d' \<and> settled I P T X r d d'"
proof -
  note less = d_inv_less [OF assms(1), of r, simplified]
  have rt: "rt_inv (dp_routing d)" using assms(1) by (simp add: d_inv_def)
  obtain b where b: "blame d p e now = Some b" "d_inv I (pd_purpose p # P) T X r b" "steady d b"
    "dp_identity_paused b = dp_identity_paused d" "dp_sampler b = dp_sampler d"
    using blame_ok [OF less assms(2), of e now] by blast
  note from_b = settled_trans [OF b(3,4)]
  show ?thesis
  proof (cases "pd_purpose p")
    case (PFetch c)
    then show ?thesis using b(1) from_b [OF settled_caller [OF b(2), of c]] by (simp add: finish_network_failure_def)
  next
    case (PUserPing c)
    then show ?thesis using b(1) from_b [OF settled_caller [OF b(2), of c]] by (simp add: finish_network_failure_def)
  next
    case (PRecovery j)
    then show ?thesis using settled_recovery [of I j] less by (simp add: finish_network_failure_def)
  next
    case (PVerification key f)
    then show ?thesis using settled_verification [of I key f P T X r d False] less assms(3)
      by (simp add: finish_network_failure_def has_permit_def)
  next
    case (PSampling q)
    then have bq: "d_inv I (PSampling q # P) T X r b" using b(2) by simp
    have "good (sampler_failure (dp_sampler b) q e now (en_fresh en)) (gather samplings_of (P @ outstanding b))"
      using failure_ok [OF sampling_good [OF bq]] .
    then show ?thesis using b(1) from_b [OF settled_sampling [OF bq]] PSampling by (simp add: finish_network_failure_def)
  next
    case (PMaintenanceLookup j)
    then have bq: "d_inv I (PMaintenanceLookup j # P) T X r b" using b(2) by simp
    have "settled I P T X r b (update_lookup b (\<lambda>l. complete_failure l j))"
      by (rule settled_lookup [OF bq]) (rule lookup_links_failure [OF lookup_linked [OF bq]])
    then show ?thesis using b(1) from_b PMaintenanceLookup by (simp add: finish_network_failure_def)
  next
    case (PBucketProbe c cs n k)
    have i: "d_inv I (PBucketProbe c cs n k # P) T X (Suc r) d" using assms(1) PBucketProbe by simp
    note po = probe_purpose_ok [OF i]
    obtain t st where t: "record_failure (dp_routing d) (nc_id c) now = Some (t, st)" "rt_inv t" "same_net (dp_routing d) t"
      using failure_ok_net [OF rt po(2)] by blast
    let ?t = "d\<lparr>dp_routing := t\<rparr>"
    let ?d = "?t\<lparr>dp_bucket_probes := dp_bucket_probes ?t - {probe_key c}\<rparr>"
    have it: "d_inv I (PBucketProbe c cs n k # P) T X (Suc r) ?t" and st: "steady d ?t"
      using d_inv_routing [OF i t(2,3)] steady_routing [OF t(3)] by blast+
    have s: "settled I P T X (Suc r) ?t ?d" using settled_probe [OF it] .
    then have sd: "d_inv I P T X (Suc r) ?d" "steady d ?d" using steady_trans [OF st] by (simp_all add: settled_def)
    have kn: "contact_ok t n" using po(1) contact_ok_net [OF t(3)] by simp
    have "\<exists>d'. reconsider en ?d n now = Some d' \<and> settled I P T X r d d'"
      using reconsider_ok [OF sd(1), of n en now] kn sd(2) steady_trans by (fastforce simp: settled_def)
    moreover have "settled I P T X r d ?d"
      using sd d_inv_less [OF sd(1), of r] by (simp add: settled_def)
    moreover have "\<exists>d'. start_query en ?t (node_target c) Ping None (PBucketProbe c cs n (k + 1)) now = Some d' \<and> settled I P T X r d d'"
    proof -
      have again: "d_inv I (PBucketProbe c cs n (k + 1) # P) T X (Suc r) ?t"
      proof -
        have "links (PBucketProbe c cs n k # (P @ outstanding ?t)) ?t" using it by (simp add: d_inv_def)
        then have "links (PBucketProbe c cs n (k + 1) # (P @ outstanding ?t)) ?t" by (simp add: links_def)
        then show ?thesis using d_inv_parts [OF it] by (intro d_inv_change [OF it]) (simp_all add: has_permit_def)
      qed
      have "target_ok (node_target c)" using po(2) by (simp add: target_ok_def node_target_def)
      from start_query_ok [OF again this, of en Ping None now] obtain d'
        where "start_query en ?t (node_target c) Ping None (PBucketProbe c cs n (k + 1)) now = Some d'" "d_inv I P T X r d'"
          "steady ?t d'" "dp_identity_paused d' = dp_identity_paused d" by (auto simp: has_permit_def)
      then show ?thesis using steady_trans [OF st] by (auto simp: settled_def)
    qed
    ultimately show ?thesis using PBucketProbe t(1) by (simp add: finish_network_failure_def Let_def)
  qed
qed


section \<open>Responses, errors and expiry\<close>

lemma match_pending_ok:
  assumes "d_inv I P T {} r d"
  shows "\<exists>x. match_pending d m now = Some x \<and>
    (case x of Unmatched d' \<Rightarrow> d' = d
     | TimedOut d' p \<Rightarrow> d_inv I (pd_purpose p # P) T {} r d' \<and> target_ok (pd_remote p) \<and> \<not> has_permit (pd_purpose p) \<and> steady d d' \<and>
         dp_identity_paused d' = dp_identity_paused d
     | Matched d' p \<Rightarrow> d_inv I (pd_purpose p # P) T {} r d' \<and> target_ok (pd_remote p) \<and> \<not> has_permit (pd_purpose p) \<and> steady d d' \<and>
         dp_identity_paused d' = dp_identity_paused d)"
proof -
  let ?tm = "dp_transactions d"
  have m: "maps_ok {} d" using assms by (simp add: d_inv_def)
  then have po: "\<forall>(i, t)\<in>set (tm_pending ?tm). pt_id t = i" and k: "fst ` set (dp_pending d) = fst ` set (tm_pending ?tm)"
    by (auto simp: maps_ok_def tm_inv_def pending_ok_def)
  have id: "pt_id t = i" if "hm_get (tm_pending ?tm) i = Some t" for i t using hm_get_in [OF that] po by auto
  have found: "\<exists>p. hm_get (dp_pending d) i = Some p" if "hm_get (tm_pending ?tm) i = Some t" for i t
  proof -
    have "i \<in> fst ` set (tm_pending ?tm)" using hm_get_in [OF that] by force
    then show ?thesis using k hm_get_None [of "dp_pending d" i] by auto
  qed
  note pop = d_inv_popped [OF assms, simplified]
  show ?thesis
  proof (cases "tid_try_from (km_t (rm_message m))")
    case (Inl e)
    then obtain n where "e = InvalidTransactionIdLength n" by (auto simp: tid_try_from_def split: if_splits)
    then show ?thesis using Inl by (simp add: match_pending_def complete_def)
  next
    case (Inr i)
    show ?thesis
    proof (cases "hm_get (tm_pending ?tm) i")
      case None
      then show ?thesis using Inr by (simp add: match_pending_def complete_def)
    next
      case (Some t)
      obtain p where p: "hm_get (dp_pending d) i = Some p" using found [OF Some] by blast
      have "d\<lparr>dp_transactions := ?tm\<lparr>tm_pending := hm_remove i (tm_pending ?tm)\<rparr>, dp_pending := hm_remove i (dp_pending d)\<rparr> = popped d i"
        by (simp add: popped_def)
      then show ?thesis using Inr Some p id [OF Some] pop [OF p] steady_refl
        by (cases "pt_destination t = rm_source m"; cases "now \<ge> pt_deadline t") (simp_all add: match_pending_def complete_def Let_def)
    qed
  qed
qed

lemma check_response_ok:
  assumes "check_response d m p = Inr (r, x)" and "\<forall>r\<in>set_option (km_r (rm_message m)). args_ok r"
  shows "args_ok r" "decoded_ok (pd_purpose p) x"
  using assms decode_for_ok [of r d "pd_purpose p" "rm_encoded_len m" x]
  by (auto simp: check_response_def Let_def split: if_splits option.splits)

lemma observe_external_ok:
  assumes "d_inv I P T X r d"
  shows "d_inv I P T X r (observe_external d s bs now)" "steady d (observe_external d s bs now)"
    "dp_identity_paused (observe_external d s bs now) = dp_identity_paused d"
    "dp_routing (observe_external d s bs now) = dp_routing d" "dp_budget (observe_external d s bs now) = dp_budget d"
proof -
  obtain c x where o: "observe_external d s bs now = d\<lparr>dp_security := c, dp_pending_external_ip := x\<rparr>"
  proof (cases "case bs of None \<Rightarrow> None | Some b \<Rightarrow> observed b")
    case None
    then have "observe_external d s bs now = d\<lparr>dp_security := dp_security d, dp_pending_external_ip := dp_pending_external_ip d\<rparr>"
      by (simp add: observe_external_def)
    then show ?thesis by (rule that)
  next
    case (Some ip)
    obtain c out where "consensus_observe (dp_security d) (sa_ip s) ip now = (c, out)" by fastforce
    then have "observe_external d s bs now = (if family_accepts (rt_family (dp_routing d)) (sa_new ip 1)
      then d\<lparr>dp_security := c, dp_pending_external_ip := (case out of Some x \<Rightarrow> Some x | None \<Rightarrow> dp_pending_external_ip d)\<rparr>
      else d\<lparr>dp_security := dp_security d, dp_pending_external_ip := dp_pending_external_ip d\<rparr>)"
      using Some by (simp add: observe_external_def)
    then show ?thesis by (metis that)
  qed
  have "d_inv I P T X r (d\<lparr>dp_budget := dp_budget d, dp_security := c, dp_pending_external_ip := x\<rparr>)"
    using d_inv_budget_inv [OF assms] by (intro d_inv_counters [OF assms]) (simp add: same_gauges_def)
  then show "d_inv I P T X r (observe_external d s bs now)" by (simp add: o)
  show "steady d (observe_external d s bs now)" "dp_identity_paused (observe_external d s bs now) = dp_identity_paused d"
    "dp_routing (observe_external d s bs now) = dp_routing d" "dp_budget (observe_external d s bs now) = dp_budget d"
    by (simp_all add: o steady_def)
qed

definition keeps_state :: "nat multiset \<Rightarrow> dispatcher \<Rightarrow> dispatcher option \<Rightarrow> bool" where
  "keeps_state I d x \<longleftrightarrow> (\<exists>d'. x = Some d' \<and> settled I [] [] {} 0 d d')"

lemma keeps_stateI: "x = Some d' \<Longrightarrow> settled I [] [] {} r d d' \<Longrightarrow> keeps_state I d x"
  unfolding keeps_state_def settled_def using d_inv_any by blast

lemma keeps_same: "d_inv I [] [] {} r d \<Longrightarrow> keeps_state I d (Some d)"
  using d_inv_any [of I "[]" "[]" r d 0] by (simp add: keeps_state_def settled_def)

lemma settled_failure:
  assumes "d_inv I (pd_purpose p # P) T {} r d'" and "target_ok (pd_remote p)" and "\<not> has_permit (pd_purpose p)"
    and "steady d d'" and "dp_identity_paused d' = dp_identity_paused d"
  shows "\<exists>x. finish_network_failure en d' p e now = Some x \<and> settled I P T {} 0 d x"
proof -
  have i: "d_inv I (pd_purpose p # P) T {} (Suc 0) d'" using assms(1) d_inv_any by blast
  show ?thesis using finish_network_failure_ok [OF i assms(2,3), of en e now] settled_trans [OF assms(4,5)] by blast
qed

definition message_ok :: "krpc_message \<Rightarrow> bool" where
  "message_ok k \<longleftrightarrow> (\<forall>r\<in>set_option (km_r k). args_ok r) \<and> (\<forall>a\<in>set_option (km_a k). id_ok (qa_id a))"

lemma handle_response_ok:
  assumes "d_inv I [] [] {} r d" and "message_ok (rm_message m)"
  shows "keeps_state I d (handle_response en d m now)"
proof -
  obtain x where x: "match_pending d m now = Some x" and c: "case x of Unmatched d' \<Rightarrow> d' = d
     | TimedOut d' p \<Rightarrow> d_inv I (pd_purpose p # []) [] {} r d' \<and> target_ok (pd_remote p) \<and> \<not> has_permit (pd_purpose p) \<and> steady d d' \<and>
         dp_identity_paused d' = dp_identity_paused d
     | Matched d' p \<Rightarrow> d_inv I (pd_purpose p # []) [] {} r d' \<and> target_ok (pd_remote p) \<and> \<not> has_permit (pd_purpose p) \<and> steady d d' \<and>
         dp_identity_paused d' = dp_identity_paused d"
    using match_pending_ok [OF assms(1), of m now] by blast
  show ?thesis
  proof (cases x)
    case (Unmatched d')
    then show ?thesis using x c keeps_same [OF assms(1)] by (simp add: handle_response_def)
  next
    case (TimedOut d' p)
    then obtain y where "finish_network_failure en d' p Timeout now = Some y" "settled I [] [] {} 0 d y"
      using settled_failure [of I p "[]" "[]" r d' d en Timeout now] c by auto
    then show ?thesis using x TimedOut by (auto simp: handle_response_def intro: keeps_stateI)
  next
    case (Matched d' p)
    then have p: "d_inv I (pd_purpose p # []) [] {} r d'" "target_ok (pd_remote p)" "\<not> has_permit (pd_purpose p)" "steady d d'"
      "dp_identity_paused d' = dp_identity_paused d" using c by auto
    show ?thesis
    proof (cases "check_response d' m p")
      case (Inl e)
      obtain y where "finish_network_failure en d' p e now = Some y" "settled I [] [] {} 0 d y"
        using settled_failure [OF p, of en e now] by blast
      then show ?thesis using x Matched Inl by (auto simp: handle_response_def intro: keeps_stateI)
    next
      case (Inr rx)
      obtain a dec where rx: "rx = (a, dec)" by fastforce
      have ok: "args_ok a" "decoded_ok (pd_purpose p) dec"
        using check_response_ok [of d' m p a dec] Inr rx assms(2) by (simp_all add: message_ok_def)
      define d1 where "d1 = observe_external d' (rm_source m) (km_ip (rm_message m)) now"
      define d2 where "d2 = d1\<lparr>dp_budget := validated (dp_budget d1) (sa_ip (rm_source m))\<rparr>"
      have d1: "d_inv I (pd_purpose p # []) [] {} (Suc (Suc 0)) d1" "steady d' d1" "dp_identity_paused d1 = dp_identity_paused d'"
        using observe_external_ok [of I _ "[]" "{}" "Suc (Suc 0)" d' "rm_source m" "km_ip (rm_message m)" now] p(1) d_inv_any
        unfolding d1_def by blast+
      have d2: "d_inv I (pd_purpose p # []) [] {} (Suc (Suc 0)) d2"
        using d_inv_budget [OF d1(1) same_counters(3)] d_inv_budget_inv [OF d1(1)] by (simp add: d2_def)
      have s2: "steady d d2" using steady_trans [OF p(4) d1(2)] by (simp add: d2_def steady_def)
      obtain rt out where rt: "observe_response (dp_routing d2) (ra_id a) (rm_source m) now = Some (rt, out)" "rt_inv rt"
        "same_net (dp_routing d2) rt" "outcome_ok (dp_routing d2) out"
        using observe_ok [of "dp_routing d2" "ra_id a" "rm_source m" now] d_inv_parts(2) [OF d2] ok(1) by (auto simp: args_ok_def)
      have d3: "d_inv I (pd_purpose p # []) [] {} (Suc (Suc 0)) (d2\<lparr>dp_routing := rt\<rparr>)" "steady d (d2\<lparr>dp_routing := rt\<rparr>)"
        using d_inv_routing [OF d2 rt(2,3)] steady_trans [OF s2 steady_routing [OF rt(3)]] by blast+
      obtain d4 where d4: "finish_success en (d2\<lparr>dp_routing := rt\<rparr>) p (ra_id a) dec now = Some d4"
        "settled I [] [] {} (Suc 0) (d2\<lparr>dp_routing := rt\<rparr>) d4"
        using finish_success_ok [OF d3(1) ok(2) p(3)] by blast
      then have s4: "d_inv I [] [] {} (Suc 0) d4" "steady (d2\<lparr>dp_routing := rt\<rparr>) d4"
        "dp_identity_paused d4 = dp_identity_paused d"
        using d1(3) p(5) by (simp_all add: settled_def d2_def)
      have "outcome_ok (dp_routing d4) out"
        using outcome_ok_net [OF steady_net [OF s4(2)]] outcome_ok_net [OF rt(3)] rt(4) by simp
      then obtain d5 where d5: "handle_insert_outcome en d4 out now = Some d5" "d_inv I [] [] {} 0 d5" "steady d4 d5"
        "dp_identity_paused d5 = dp_identity_paused d4" using handle_insert_outcome_ok [OF s4(1), of out en now] by blast
      have "handle_response en d m now = Some d5"
        using x Matched Inr rx rt(1) d4(1) d5(1) by (simp add: handle_response_def d1_def d2_def Let_def)
      moreover have "settled I [] [] {} 0 d d5" unfolding settled_def
        using d5 s4(3) steady_trans [OF steady_trans [OF d3(2) s4(2)] d5(3)] by simp
      ultimately show ?thesis by (rule keeps_stateI)
    qed
  qed
qed


lemma handle_error_ok:
  assumes "d_inv I [] [] {} r d"
  shows "keeps_state I d (handle_error en d m now)"
proof -
  obtain x where x: "match_pending d m now = Some x" and c: "case x of Unmatched d' \<Rightarrow> d' = d
     | TimedOut d' p \<Rightarrow> d_inv I (pd_purpose p # []) [] {} r d' \<and> target_ok (pd_remote p) \<and> \<not> has_permit (pd_purpose p) \<and> steady d d' \<and>
         dp_identity_paused d' = dp_identity_paused d
     | Matched d' p \<Rightarrow> d_inv I (pd_purpose p # []) [] {} r d' \<and> target_ok (pd_remote p) \<and> \<not> has_permit (pd_purpose p) \<and> steady d d' \<and>
         dp_identity_paused d' = dp_identity_paused d"
    using match_pending_ok [OF assms, of m now] by blast
  show ?thesis
  proof (cases x)
    case (Unmatched d')
    then show ?thesis using x c keeps_same [OF assms(1)] by (simp add: handle_error_def)
  next
    case (TimedOut d' p)
    then obtain y where "finish_network_failure en d' p Timeout now = Some y" "settled I [] [] {} 0 d y"
      using settled_failure [of I p "[]" "[]" r d' d en Timeout now] c by auto
    then show ?thesis using x TimedOut by (auto simp: handle_error_def intro: keeps_stateI)
  next
    case (Matched d' p)
    then have p: "d_inv I (pd_purpose p # []) [] {} r d'" "target_ok (pd_remote p)" "\<not> has_permit (pd_purpose p)" "steady d d'"
      "dp_identity_paused d' = dp_identity_paused d" using c by auto
    define e where "e = check_error (rm_message m)"
    define d1 where "d1 = (if is_remote e then observe_external d' (rm_source m) (km_ip (rm_message m)) now else d')"
    have "d_inv I (pd_purpose p # []) [] {} r d1" "steady d d1" "dp_identity_paused d1 = dp_identity_paused d"
      using observe_external_ok(1-3) [OF p(1), of "rm_source m" "km_ip (rm_message m)" now] p steady_trans [OF p(4)]
      by (simp_all add: d1_def)
    then obtain y where "finish_network_failure en d1 p e now = Some y" "settled I [] [] {} 0 d y"
      using settled_failure [of I p "[]" "[]" r d1 d en e now] p(2,3) by blast
    then show ?thesis using x Matched by (auto simp: handle_error_def e_def d1_def Let_def intro: keeps_stateI)
  qed
qed

lemma expire_each_ok:
  "d_inv I P T (pt_id ` set ts) (length ts) d \<Longrightarrow> distinct (map pt_id ts) \<Longrightarrow>
   \<exists>d'. expire_each en d ts now = Some d' \<and> settled I P T {} 0 d d'"
proof (induction ts arbitrary: d)
  case Nil
  then show ?case by (simp add: settled_def)
next
  case (Cons t ts)
  let ?i = "pt_id t" and ?X = "pt_id ` set (t # ts)"
  have m: "maps_ok ?X d" using Cons.prems(1) by (simp add: d_inv_def)
  then have "?i \<in> fst ` set (dp_pending d)" by (simp add: maps_ok_def)
  then obtain p where p: "hm_get (dp_pending d) ?i = Some p" using hm_get_None [of "dp_pending d" ?i] by auto
  have "?i \<notin> fst ` set (tm_pending (dp_transactions d))" using m by (auto simp: maps_ok_def)
  then have "hm_remove ?i (tm_pending (dp_transactions d)) = tm_pending (dp_transactions d)"
    by (intro hm_remove_absent) (simp add: hm_get_None)
  then have e: "d\<lparr>dp_pending := hm_remove ?i (dp_pending d)\<rparr> = popped d ?i" by (simp add: popped_def)
  have "?X - {?i} = pt_id ` set ts" using Cons.prems(2) by auto
  then have q: "d_inv I (pd_purpose p # P) T (pt_id ` set ts) (Suc (length ts)) (popped d ?i)" "target_ok (pd_remote p)"
    "\<not> has_permit (pd_purpose p)" using d_inv_popped [OF Cons.prems(1) p] by simp_all
  obtain d1 where d1: "finish_network_failure en (popped d ?i) p Timeout now = Some d1"
    "settled I P T (pt_id ` set ts) (length ts) (popped d ?i) d1" using finish_network_failure_ok [OF q] by blast
  then have "d_inv I P T (pt_id ` set ts) (length ts) d1" by (simp add: settled_def)
  from Cons.IH [OF this] Cons.prems(2) obtain d2 where d2: "expire_each en d1 ts now = Some d2" "settled I P T {} 0 d1 d2" by auto
  have "steady d d1" "dp_identity_paused d1 = dp_identity_paused d"
    using d1(2) steady_trans [of d "popped d ?i" d1] by (simp_all add: settled_def)
  then show ?case using p e d1(1) d2 settled_trans by simp
qed

text \<open>
  The identifiers that the counter draws while expired queries are settled must not be those of the expired
  queries: the counter would have to run through all \<open>2 ^ 32\<close> values within the timeout of a query.
\<close>

definition expiry_clear :: "dispatcher \<Rightarrow> instant \<Rightarrow> bool" where
  "expiry_clear d now = (case expire_transactions (dp_transactions d) now of (tm, ts) \<Rightarrow>
     \<forall>k < (length (dp_queued d) + length ts) * Suc (tm_max_pending tm).
       from_counter (tm_next_counter tm + of_nat k) \<notin> pt_id ` set ts)"

lemma expire_pending_ok:
  assumes "d_inv I [] [] {} r d" and "expiry_clear d now"
  shows "keeps_state I d (expire_pending en d now)"
proof -
  let ?tm = "dp_transactions d"
  obtain tm ts where e: "expire_transactions ?tm now = (tm, ts)" by fastforce
  have m: "maps_ok {} d" and inv: "tm_inv ?tm" using assms(1) by (simp_all add: d_inv_def maps_ok_def)
  then have ok: "hm_ok (tm_pending ?tm)" and po: "\<forall>(i, t)\<in>set (tm_pending ?tm). pt_id t = i"
    by (auto simp: tm_inv_def pending_ok_def)
  note eff = expire_effect [OF inv e]
  have vals: "filter (\<lambda>t. pt_deadline t \<le> now) (hm_values (tm_pending ?tm)) = map snd (filter (\<lambda>(i, t). pt_deadline t \<le> now) (tm_pending ?tm))"
    by (simp add: hm_values_def filter_map comp_def case_prod_beta')
  have fst_id: "map (pt_id \<circ> snd) (filter q (tm_pending ?tm)) = map fst (filter q (tm_pending ?tm))" for q
    using po by (auto intro!: map_cong)
  have mi: "mset (map pt_id ts) = mset (map fst (filter (\<lambda>(i, t). pt_deadline t \<le> now) (tm_pending ?tm)))"
  proof -
    have "mset (map pt_id ts) = image_mset pt_id (mset ts)" by simp
    also have "\<dots> = mset (map (pt_id \<circ> snd) (filter (\<lambda>(i, t). pt_deadline t \<le> now) (tm_pending ?tm)))"
      unfolding eff(2) vals mset_map multiset.map_comp [symmetric] ..
    finally show ?thesis unfolding fst_id .
  qed
  have d: "distinct (map pt_id ts)"
  proof -
    have "distinct (map fst (filter (\<lambda>(i, t). pt_deadline t \<le> now) (tm_pending ?tm)))"
      using hm_ok_filter [OF ok] by (simp add: hm_ok_def)
    then show ?thesis using mset_eq_imp_distinct_iff [OF mi] by simp
  qed
  have "set (map pt_id ts) = fst ` set (filter (\<lambda>(i, t). pt_deadline t \<le> now) (tm_pending ?tm))"
    using mset_eq_setD [OF mi] by simp
  then have X: "pt_id ` set ts = fst ` {x \<in> set (tm_pending ?tm). pt_deadline (snd x) \<le> now}"
    by (auto simp: case_prod_beta')
  have keep: "fst ` set (tm_pending tm) = fst ` {x \<in> set (tm_pending ?tm). now < pt_deadline (snd x)}"
    unfolding eff(1) by (auto simp: case_prod_beta')
  have split: "fst ` set (tm_pending ?tm) = fst ` set (tm_pending tm) \<union> pt_id ` set ts"
    unfolding X keep by (auto simp: image_iff not_le)
  have disj: "pt_id ` set ts \<inter> fst ` set (tm_pending tm) = {}"
  proof -
    have "snd x = snd y" if "x \<in> set (tm_pending ?tm)" "y \<in> set (tm_pending ?tm)" "fst x = fst y" for x y
      using that hm_get_Some [OF ok] by (metis option.inject prod.collapse)
    then show ?thesis unfolding X keep by (fastforce simp: image_iff)
  qed
  let ?d = "d\<lparr>dp_transactions := tm\<rparr>"
  have mp: "tm_max_pending tm = tm_max_pending ?tm" by (simp add: eff(1))
  have len: "length (tm_pending tm) \<le> length (tm_pending ?tm)" by (simp add: eff(1))
  have sub: "hm_get (tm_pending ?tm) i = Some t" if "hm_get (tm_pending tm) i = Some t" for i t
    using hm_get_in [OF that] hm_get_Some [OF ok, of i t] unfolding eff(1) by auto
  have "maps_ok (pt_id ` set ts) ?d"
    using m len mp tm_inv_expire [OF inv e] split disj sub unfolding maps_ok_def by (auto simp: occupied_def)
  moreover have "ahead (pt_id ` set ts) (length (dp_queued d) + length ts) tm"
    using assms(2) e by (simp add: expiry_clear_def ahead_def)
  moreover have "links L ?d = links L d" "outstanding ?d = outstanding d" for L by (simp_all add: links_def outstanding_def)
  ultimately have "d_inv I [] [] (pt_id ` set ts) (length ts) ?d" using assms(1) by (simp add: d_inv_def)
  from expire_each_ok [OF this d, of en now] obtain d' where "expire_each en ?d ts now = Some d'" "settled I [] [] {} 0 ?d d'" by blast
  moreover have "steady d ?d" by (simp add: steady_def mp)
  ultimately show ?thesis using e settled_trans [of d ?d]
    by (auto simp: expire_pending_def intro!: keeps_stateI)
qed

end
