(* ===== verification/DispatcherServe.thy ===== *)
theory DispatcherServe imports DispatcherNet begin

text \<open>Queries of other nodes keep the invariant; serving them changes only the parts of the state that \<open>serves\<close> lists.\<close>

section \<open>Replies\<close>

definition serves :: "dispatcher \<Rightarrow> dispatcher \<Rightarrow> bool" where
  "serves d d' \<longleftrightarrow> (\<exists>b tk ps c fi. d' = d\<lparr>dp_budget := b, dp_tokens := tk, dp_peers := ps, dp_samples := c, dp_fetch_ingress := fi\<rparr> \<and>
     same_gauges (dp_budget d) b \<and> ps_inv ps)"

lemma servesI:
  "d' = d\<lparr>dp_budget := b, dp_tokens := tk, dp_peers := ps, dp_samples := c, dp_fetch_ingress := fi\<rparr> \<Longrightarrow>
   same_gauges (dp_budget d) b \<Longrightarrow> ps_inv ps \<Longrightarrow> serves d d'"
  unfolding serves_def by blast

lemma serves_trans: "serves a b \<Longrightarrow> serves b c \<Longrightarrow> serves a c"
  unfolding serves_def using same_trans by fastforce

lemma serves_inv:
  assumes "d_inv I P T X r d" and "serves d d'"
  shows "d_inv I P T X r d'" "steady d d'" "dp_identity_paused d' = dp_identity_paused d"
proof -
  obtain b tk ps c fi where d': "d' = d\<lparr>dp_budget := b, dp_tokens := tk, dp_peers := ps, dp_samples := c, dp_fetch_ingress := fi\<rparr>"
    "same_gauges (dp_budget d) b" "ps_inv ps" using assms(2) unfolding serves_def by blast
  show "d_inv I P T X r d'" using d_inv_budget [OF assms(1) d'(2)] d'(3)
    by (simp add: d'(1) d_inv_def maps_ok_def occupied_def links_def outstanding_def)
  show "steady d d'" "dp_identity_paused d' = dp_identity_paused d" by (simp_all add: d'(1) steady_def)
qed

definition servable :: "dispatcher \<Rightarrow> bool" where
  "servable d \<longleftrightarrow> budget_inv (dp_budget d) \<and> ps_inv (dp_peers d)"

lemma servable_inv: "d_inv I P T X r d \<Longrightarrow> servable d"
  using d_inv_budget_inv d_inv_parts(3) by (simp add: servable_def)

lemma serves_servable: "serves d d' \<Longrightarrow> servable d'"
  by (auto simp: serves_def servable_def same_gauges_def)

lemma serves_budget: "servable d \<Longrightarrow> same_gauges (dp_budget d) b \<Longrightarrow> serves d (d\<lparr>dp_budget := b\<rparr>)"
  by (rule servesI [where b = b and tk = "dp_tokens d" and ps = "dp_peers d" and c = "dp_samples d" and fi = "dp_fetch_ingress d"]) (simp_all add: servable_def)

lemma serves_refl: "servable d \<Longrightarrow> serves d d"
  using serves_budget [of d "dp_budget d"] by (simp add: same_gauges_def servable_def)

lemma serves_tokens: "servable d \<Longrightarrow> serves d (d\<lparr>dp_tokens := tk\<rparr>)"
  by (rule servesI [where b = "dp_budget d" and tk = tk and ps = "dp_peers d" and c = "dp_samples d" and fi = "dp_fetch_ingress d"])
    (simp_all add: servable_def same_gauges_def)

lemma serves_samples: "servable d \<Longrightarrow> serves d (d\<lparr>dp_samples := c\<rparr>)"
  by (rule servesI [where b = "dp_budget d" and tk = "dp_tokens d" and ps = "dp_peers d" and c = c and fi = "dp_fetch_ingress d"])
    (simp_all add: servable_def same_gauges_def)

lemma serves_ingress: "servable d \<Longrightarrow> serves d (d\<lparr>dp_fetch_ingress := fi\<rparr>)"
  by (rule servesI [where b = "dp_budget d" and tk = "dp_tokens d" and ps = "dp_peers d" and c = "dp_samples d" and fi = fi])
    (simp_all add: servable_def same_gauges_def)

lemma serves_peers: "servable d \<Longrightarrow> ps_inv ps \<Longrightarrow> serves d (d\<lparr>dp_tokens := tk, dp_peers := ps\<rparr>)"
  by (rule servesI [where b = "dp_budget d" and tk = tk and ps = ps and c = "dp_samples d" and fi = "dp_fetch_ingress d"])
    (simp_all add: servable_def same_gauges_def)

lemma reply_serves: "servable d \<Longrightarrow> serves d (fst (send_reply en d dest m))"
proof -
  assume s: "servable d"
  show ?thesis
  proof (cases "en_encode en m")
    case (Inl e)
    then show ?thesis using serves_refl [OF s] by (simp add: send_reply_def)
  next
    case (Inr bs)
    obtain b ok where r: "reply (en_gcra en) (dp_budget d) (length bs) (en_fresh en) = (b, ok)" by fastforce
    have g: "same_gauges (dp_budget d) b" using reply_gauges [OF _ r] s by (simp add: servable_def)
    then have b: "budget_inv b" by (simp add: same_gauges_def)
    have "same_gauges (dp_budget d) (reply_sent b n)" "same_gauges (dp_budget d) (count_drop b)" for n
      using same_trans [OF g] same_counters [OF b] by blast+
    then show ?thesis using Inr r g serves_budget [OF s]
      by (cases ok) (auto simp: send_reply_def split: sum.split)
  qed
qed

lemma response_serves: "servable d \<Longrightarrow> serves d (fst (send_response en d dest t r))"
  using reply_serves serves_refl by (auto simp: send_response_def split: option.split)

lemma basic_serves: "servable d \<Longrightarrow> serves d (fst (send_basic_response en d dest t))"
  using response_serves by (simp add: send_basic_response_def)

lemma error_serves: "servable d \<Longrightarrow> serves d (send_error en d dest t code x)"
  using reply_serves serves_refl by (auto simp: send_error_def Let_def split: sum.split)

lemma then_serves: "serves a b \<Longrightarrow> (servable b \<Longrightarrow> serves b c) \<Longrightarrow> serves a c"
  using serves_trans serves_servable by blast

lemma get_peers_serves:
  assumes "servable d"
  shows "serves d (fst (handle_get_peers en d source t a now))"
proof -
  note e = error_serves [OF assms]
  have tk: "serves d (send_error en (d\<lparr>dp_tokens := k\<rparr>) source t code x)" for k code x
    by (rule then_serves [OF serves_tokens [OF assms] error_serves])
  have "serves d (fst (send_response en (d\<lparr>dp_tokens := k\<rparr>) source t r))" for k r
    by (rule then_serves [OF serves_tokens [OF assms] response_serves])
  then show ?thesis using e tk
    by (auto simp: handle_get_peers_def Let_def split: option.split prod.split sum.split)
qed

lemma note_serves: "servable d \<Longrightarrow> serves d (note_announce en d h peer now)"
  using serves_ingress serves_refl by (auto simp: note_announce_def split: option.split)

lemma announce_serves:
  assumes "servable d"
  shows "\<exists>x. handle_announce_peer en d source t a now = Some x \<and> serves d (fst x)"
proof -
  note e = error_serves [OF assms]
  have tk: "serves d (send_error en (d\<lparr>dp_tokens := k\<rparr>) source t code x)" for k code x
    by (rule then_serves [OF serves_tokens [OF assms] error_serves])
  have ann: "\<exists>ps res. announce (dp_peers d) h ad now = Some (ps, res) \<and> ps_inv ps" for h ad
    using announce_effect [of "dp_peers d" h ad now] assms by (auto simp: servable_def)
  have stored: "serves d (fst (send_basic_response en (note_announce en (d\<lparr>dp_tokens := k, dp_peers := ps\<rparr>) h ad now) source t))"
    if "ps_inv ps" for k ps h ad
    by (rule then_serves [OF serves_peers [OF assms that]]) (rule then_serves [OF note_serves basic_serves])
  have full: "serves d (send_error en (d\<lparr>dp_tokens := k, dp_peers := ps\<rparr>) source t code x)" if "ps_inv ps" for k ps code x
    by (rule then_serves [OF serves_peers [OF assms that] error_serves])
  have "case handle_announce_peer en d source t a now of None \<Rightarrow> False | Some x \<Rightarrow> serves d (fst x)"
  proof (cases "\<exists>h token port. qa_info_hash a = Some h \<and> qa_token a = Some token \<and> announced_port source a = Some port")
    case False
    then show ?thesis using e
      by (cases "qa_info_hash a"; cases "qa_token a"; cases "announced_port source a") (auto simp: handle_announce_peer_def)
  next
    case True
    then obtain h token port where f: "qa_info_hash a = Some h" "qa_token a = Some token" "announced_port source a = Some port" by blast
    obtain k res where v: "validate (en_mac en) (dp_tokens d) (sa_ip source) token now (en_key en) = (k, res)" by fastforce
    obtain ps r where n: "announce (dp_peers d) h (sa_new (sa_ip source) port) now = Some (ps, r)" "ps_inv ps" using ann by blast
    consider (err) x where "res = Inl x" | (bad) "res = Inr False" | (good) "res = Inr True" by (cases res) auto
    then show ?thesis
    proof cases
      case good
      then show ?thesis using e stored [OF n(2)] full [OF n(2)]
        by (cases r) (auto simp: handle_announce_peer_def Let_def f v n(1))
    qed (use e tk in \<open>auto simp: handle_announce_peer_def Let_def f v\<close>)
  qed
  then show ?thesis by (cases "handle_announce_peer en d source t a now") auto
qed

lemma sample_serves:
  assumes "servable d"
  shows "serves d (fst (handle_sample_infohashes en d source t a now))"
proof -
  have "serves d (fst (send_response en (d\<lparr>dp_samples := k\<rparr>) source t r))" for k r
    by (rule then_serves [OF serves_samples [OF assms] response_serves])
  then show ?thesis using error_serves [OF assms]
    by (auto simp: handle_sample_infohashes_def Let_def split: option.split)
qed

section \<open>Verification of the sender\<close>

lemma schedule_verification_ok:
  assumes "d_inv I [] [] {} r d" and "id_ok i"
  shows "keeps_state I d (schedule_verification en d i a now)"
proof (cases "(i, a) \<in> dp_verifications d")
  case True
  have "d_inv I [] [] {} r (d\<lparr>dp_budget := verification_duplicate (dp_budget d)\<rparr>)"
    using d_inv_budget [OF assms(1) same_counters(1)] d_inv_budget_inv [OF assms(1)] by simp
  moreover have "steady d (d\<lparr>dp_budget := verification_duplicate (dp_budget d)\<rparr>)" by (simp add: steady_def)
  ultimately show ?thesis using True by (intro keeps_stateI) (auto simp: schedule_verification_def settled_def)
next
  case False
  let ?d = "d\<lparr>dp_verifications := insert (i, a) (dp_verifications d)\<rparr>" and ?p = "PVerification (i, a) False"
  have "links (?p # (outstanding d)) ?d"
  proof -
    have "links (outstanding d) d" using assms(1) by (simp add: d_inv_def)
    moreover have "lookup_links (?p # L) ms = lookup_links L ms" for L ms by simp
    ultimately show ?thesis using False by (simp add: links_def)
  qed
  then have "d_inv I [?p] [] {} r ?d"
    using d_inv_parts [OF assms(1)] by (intro d_inv_change [OF assms(1)]) (simp_all add: has_permit_def)
  then have i: "d_inv I [?p] [] {} (Suc 0) ?d" using d_inv_any by blast
  have "target_ok \<lparr>rn_address = a, rn_expected_id = Some i\<rparr>" using assms(2) by (simp add: target_ok_def)
  from start_query_ok [OF i this, of en Ping None now] obtain d'
    where "start_query en ?d \<lparr>rn_address = a, rn_expected_id = Some i\<rparr> Ping None ?p now = Some d'" "d_inv I [] [] {} 0 d'"
      "steady ?d d'" "dp_identity_paused d' = dp_identity_paused d" by (auto simp: has_permit_def)
  moreover have "steady d ?d" by (simp add: steady_def)
  ultimately show ?thesis using False steady_trans
    by (intro keeps_stateI [of _ d']) (auto simp: schedule_verification_def settled_def)
qed

lemma keeps_after: "steady a b \<Longrightarrow> dp_identity_paused b = dp_identity_paused a \<Longrightarrow> keeps_state I b x \<Longrightarrow> keeps_state I a x"
  using settled_trans by (auto simp: keeps_state_def)

lemma observe_sender_ok:
  assumes "d_inv I [] [] {} r d" and "id_ok i"
  shows "keeps_state I d (observe_sender en d i a ro now)"
proof -
  obtain rt out where rt: "observe_query (dp_routing d) i a ro now = Some (rt, out)" "rt_inv rt" "same_net (dp_routing d) rt"
    "\<forall>j b. out = VerificationRequired j b \<longrightarrow> j = i"
    using observe_query_net [OF d_inv_parts(2) [OF assms(1)] assms(2)] by blast
  let ?d = "d\<lparr>dp_routing := rt\<rparr>"
  have i: "d_inv I [] [] {} r ?d" using d_inv_routing [OF assms(1) rt(2,3)] .
  have "keeps_state I ?d (observe_sender en d i a ro now)"
  proof (cases "\<exists>j b. out = VerificationRequired j b")
    case True
    then show ?thesis using rt schedule_verification_ok [OF i] assms(2) by (auto simp: observe_sender_def)
  next
    case False
    then have "observe_sender en d i a ro now = Some ?d" using rt(1) by (auto simp: observe_sender_def split: query_observation.splits)
    then show ?thesis using keeps_same [OF i] by simp
  qed
  then show ?thesis by (rule keeps_after [OF steady_routing [OF rt(3)], rotated]) simp
qed

lemma keeps_serves: "d_inv I [] [] {} r d \<Longrightarrow> serves d d' \<Longrightarrow> keeps_state I d (Some d')"
  using serves_inv [of I "[]" "[]" "{}" r d d'] by (intro keeps_stateI) (auto simp: settled_def)

lemma serve_ok:
  assumes "d_inv I [] [] {} r d" and "id_ok i" and "serves d (fst x)"
  shows "keeps_state I d (serve en i source ro now x)"
proof (cases "snd x")
  case True
  note s = serves_inv [OF assms(1,3)]
  show ?thesis using keeps_after [OF s(2,3) observe_sender_ok [OF s(1) assms(2)]] True
    by (cases x) (simp add: serve_def)
next
  case False
  then show ?thesis using keeps_serves [OF assms(1,3)] by (cases x) (simp add: serve_def)
qed

lemma handle_query_ok:
  assumes "d_inv I [] [] {} r d" and "message_ok (rm_message m)"
  shows "keeps_state I d (handle_query en d m now)"
proof -
  have s: "servable d" using servable_inv [OF assms(1)] .
  have err: "keeps_state I d (Some (send_error en d src t code x))" for src t code x
    using keeps_serves [OF assms(1) error_serves [OF s]] .
  show ?thesis
  proof (cases "km_a (rm_message m)")
    case None
    then show ?thesis using err by (cases "km_q (rm_message m)") (simp_all add: handle_query_def Let_def)
  next
    case (Some a)
    then have i: "id_ok (qa_id a)" using assms(2) by (simp add: message_ok_def)
    note sv = serve_ok [OF assms(1) i]
    obtain x where x: "handle_announce_peer en d (rm_source m) (km_t (rm_message m)) a now = Some x" "serves d (fst x)"
      using announce_serves [OF s] by blast
    note served = sv [OF basic_serves [OF s]] sv [OF response_serves [OF s]] sv [OF get_peers_serves [OF s]]
      sv [OF sample_serves [OF s]] sv [OF x(2)]
    show ?thesis
    proof (cases "km_q (rm_message m)")
      case None
      then show ?thesis using err by (simp add: handle_query_def Let_def)
    next
      case asked: (Some mt)
      show ?thesis using err served
        by (cases mt) (simp_all add: handle_query_def Let_def Some asked x(1) split: option.split)
    qed
  qed
qed

section \<open>Datagrams\<close>

lemma handle_received_ok:
  assumes "d_inv I [] [] {} r d" and "message_ok (rm_message m)"
  shows "keeps_state I d (handle_received en d m now)"
  using handle_query_ok [OF assms] handle_response_ok [OF assms] handle_error_ok [OF assms(1)]
  by (auto simp: handle_received_def split: message_type.split)

definition parser_ok :: "env \<Rightarrow> bool" where
  "parser_ok en \<longleftrightarrow> (\<forall>bs k. en_parse en bs = Inr k \<longrightarrow> message_ok k)"


lemma datagram_decode_ok:
  assumes "reader_ok (en_reader en)" and "parser_ok en"
  shows "\<exists>x. datagram_decode (en_reader en) (en_describe en) (en_parse en) dg = Some x \<and>
    (\<forall>m. x = Inr m \<longrightarrow> message_ok (rm_message m))"
proof -
  obtain r where "normalize (en_reader en) (dg_bytes dg) = Some r" using normalize_total(1) [OF assms(1)] by blast
  then show ?thesis using assms(2) by (cases r) (auto simp: datagram_decode_def parser_ok_def Let_def split: sum.splits)
qed

lemma handle_datagram_ok:
  assumes "d_inv I [] [] {} r d" and "reader_ok (en_reader en)" and "parser_ok en"
  shows "keeps_state I d (handle_datagram en d dg now)"
proof -
  define pending where "pending = list_ex (\<lambda>p. rn_address (pd_remote p) = dg_source dg) (hm_values (dp_pending d))"
  have budget: "keeps_state I d (Some (d\<lparr>dp_budget := b\<rparr>))" "d_inv I [] [] {} r (d\<lparr>dp_budget := b\<rparr>)" "steady d (d\<lparr>dp_budget := b\<rparr>)"
    if "same_gauges (dp_budget d) b" for b
    using keeps_serves [OF assms(1) serves_budget [OF servable_inv [OF assms(1)] that]] d_inv_budget [OF assms(1) that]
    by (simp_all add: steady_def)
  obtain b ok where b: "inbound (en_gcra en) (dp_budget d) (sa_ip (dg_source dg)) (length (dg_bytes dg)) pending (en_fresh en) = Some (b, ok)"
    "same_gauges (dp_budget d) b" using inbound_gauges [OF d_inv_budget_inv [OF assms(1)]] by blast
  then have bi: "budget_inv b" by (simp add: same_gauges_def)
  obtain b2 ok2 where b2: "disguised_query (en_gcra en) b ip (en_fresh en) = Some (b2 ip, ok2 ip)" "same_gauges (dp_budget d) (b2 ip)" for ip
    using disguised_gauges [OF bi, of "en_gcra en" _ "en_fresh en"] same_trans [OF b(2)] by metis
  obtain dec where dec: "datagram_decode (en_reader en) (en_describe en) (en_parse en) dg = Some dec"
    "\<And>m. dec = Inr m \<Longrightarrow> message_ok (rm_message m)"
    using datagram_decode_ok [OF assms(2,3)] by blast
  have go: "keeps_state I d (handle_received en (d\<lparr>dp_budget := c\<rparr>) m now)" if "same_gauges (dp_budget d) c" "dec = Inr m" for c m
    using keeps_after [OF budget(3) _ handle_received_ok [OF budget(2) dec(2)], OF that(1) _ that(1,2)] by simp
  show ?thesis
  proof (cases ok)
    case False
    then show ?thesis using b budget(1) by (simp add: handle_datagram_def pending_def Let_def)
  next
    case True
    show ?thesis
    proof (cases dec)
      case (Inl e)
      then show ?thesis using True b budget(1) dec(1) by (simp add: handle_datagram_def pending_def Let_def)
    next
      case (Inr m)
      note g1 = go [OF b(2) Inr] and g2 = go [OF b2(2) [of "sa_ip (rm_source m)"] Inr] and k2 = budget(1) [OF b2(2) [of "sa_ip (rm_source m)"]]
      show ?thesis using True b(1) dec(1) Inr b2(1) g1 g2 k2
        by (cases "ok2 (sa_ip (rm_source m))") (simp_all add: handle_datagram_def pending_def Let_def)
    qed
  qed
qed

end
