(* ===== verification/DispatcherCancel.thy ===== *)
theory DispatcherCancel imports DispatcherServe begin

text \<open>
  Withdrawing queries: the queued sampling queries, all sampling queries, the queries of callers that went away,
  and everything, when the dispatcher closes or changes its identity.
\<close>

section \<open>Queued sampling queries\<close>

definition no_sampling :: "queued_intent list \<Rightarrow> bool" where
  "no_sampling qs \<longleftrightarrow> gather samplings_of (map qi_purpose qs) = []"

lemma no_sampling_simps [simp]: "no_sampling []" "no_sampling (q # qs) \<longleftrightarrow> samplings_of (qi_purpose q) = [] \<and> no_sampling qs"
  "no_sampling (qs @ rs) \<longleftrightarrow> no_sampling qs \<and> no_sampling rs"
  by (simp_all add: no_sampling_def)

lemma discard_loop_ok:
  "d_inv I P T X r d \<Longrightarrow> dp_queued d = kept @ rest \<Longrightarrow> no_sampling kept \<Longrightarrow>
   \<exists>d'. discard_loop en now d kept rest = Some d' \<and> settled I P T X r d d' \<and> no_sampling (dp_queued d')"
proof (induction rest arbitrary: d kept)
  case Nil
  then show ?case by (simp add: settled_def)
next
  case (Cons q rest)
  show ?case
  proof (cases "\<exists>x. qi_purpose q = PSampling x")
    case True
    then obtain x where x: "qi_purpose q = PSampling x" by blast
    let ?d = "d\<lparr>dp_queued := kept @ rest\<rparr>"
    have "d_inv I (PSampling x # P) (qi_record q # T) X (Suc r) ?d" using d_inv_dequeue(1) [OF Cons.prems(1,2)] x by simp
    then have i: "d_inv I (PSampling x # P) (qi_record q # T) X r ?d" using d_inv_less by simp
    define d1 where "d1 = ?d\<lparr>dp_sampler := abandon_unsent (dp_sampler ?d) x now\<rparr>"
    have s1: "settled I P (qi_record q # T) X r ?d d1" unfolding d1_def
      using settled_sampling [OF i abandon_good [OF sampling_good [OF i]]] .
    then obtain d2 where d2: "drop_ticket en d1 (qi_record q) = Some d2" "d_inv I P T X r d2" "steady d1 d2"
      "dp_queued d2 = dp_queued d1" "dp_identity_paused d2 = dp_identity_paused d1"
      using drop_ticket_step [of I P "qi_record q" T X r d1 en] by (auto simp: settled_def)
    have q2: "dp_queued d2 = kept @ rest" using d2(4) by (simp add: d1_def)
    have st: "steady d d2" "dp_identity_paused d2 = dp_identity_paused d"
      using d2(3,5) by (simp_all add: d1_def steady_def)
    obtain d3 where d3: "discard_loop en now d2 kept rest = Some d3" "settled I P T X r d2 d3" "no_sampling (dp_queued d3)"
      using Cons.IH [OF d2(2) q2 Cons.prems(3)] by blast
    have "discard_loop en now d kept (q # rest) = Some d3" using x d2(1) d3(1) by (simp add: d1_def)
    then show ?thesis using d3 settled_trans [OF st] by blast
  next
    case False
    then have "discard_loop en now d kept (q # rest) = discard_loop en now d (kept @ [q]) rest" by (cases "qi_purpose q") simp_all
    moreover have "no_sampling (kept @ [q])" using False Cons.prems(3) by (cases "qi_purpose q") simp_all
    ultimately show ?thesis using Cons.IH [OF Cons.prems(1), of "kept @ [q]"] Cons.prems(2) by simp
  qed
qed

lemma discard_ok:
  assumes "d_inv I P T X r d"
  shows "\<exists>d'. discard_queued_sampling en d now = Some d' \<and> settled I P T X r d d' \<and> no_sampling (dp_queued d')"
  using discard_loop_ok [OF assms, of "[]"] by (simp add: discard_queued_sampling_def)

section \<open>Sent queries are taken out\<close>

definition pops :: "dispatcher \<Rightarrow> transaction_id list \<Rightarrow> dispatcher" where
  "pops d ks = foldl popped d ks"

lemma pops_simps [simp]: "pops d [] = d" "pops d (i # ks) = pops (popped d i) ks"
  by (simp_all add: pops_def)

lemma popped_sampler: "popped (d\<lparr>dp_sampler := s\<rparr>) i = (popped d i)\<lparr>dp_sampler := s\<rparr>"
  by (simp add: popped_def)

lemma pops_sampler: "pops (d\<lparr>dp_sampler := s\<rparr>) ks = (pops d ks)\<lparr>dp_sampler := s\<rparr>"
  by (induction ks arbitrary: d) (simp_all add: popped_sampler)

lemma pops_fields [simp]:
  "dp_queued (pops d ks) = dp_queued d" "dp_sampler (pops d ks) = dp_sampler d"
  "dp_identity_paused (pops d ks) = dp_identity_paused d" "dp_pending (pops d ks) = filter (\<lambda>(i, _). i \<notin> set ks) (dp_pending d)"
  by (induction ks arbitrary: d) (auto simp: hm_remove_def intro!: filter_cong)

lemma pops_steady: "steady d (pops d ks)"
proof (induction ks arbitrary: d)
  case (Cons i ks)
  show ?case using steady_trans [OF popped_fields(9) Cons] by simp
qed simp

lemma d_inv_pops:
  "d_inv I P T {} r d \<Longrightarrow> distinct (map fst es) \<Longrightarrow> \<forall>(i, p)\<in>set es. hm_get (dp_pending d) i = Some p \<Longrightarrow>
   d_inv I (map (\<lambda>e. pd_purpose (snd e)) es @ P) T {} r (pops d (map fst es))"
proof (induction es arbitrary: d P)
  case (Cons e es)
  obtain i p where e: "e = (i, p)" by fastforce
  have "hm_get (dp_pending d) i = Some p" using Cons.prems(3) by (simp add: e)
  from d_inv_popped(1) [OF Cons.prems(1) this] have d1: "d_inv I (pd_purpose p # P) T {} r (popped d i)" by simp
  have g: "\<forall>(j, q)\<in>set es. hm_get (dp_pending (popped d i)) j = Some q"
  proof safe
    fix j q assume m: "(j, q) \<in> set es"
    then have "j \<in> fst ` set es" by force
    then have "j \<noteq> i" using Cons.prems(2) by (auto simp: e)
    then show "hm_get (dp_pending (popped d i)) j = Some q" using m Cons.prems(3) by auto
  qed
  from Cons.IH [OF d1 _ g] Cons.prems(2)
  have "d_inv I (map (\<lambda>e. pd_purpose (snd e)) es @ pd_purpose p # P) T {} r (pops (popped d i) (map fst es))" by simp
  from d_inv_perm [OF this, of "map (\<lambda>e. pd_purpose (snd e)) (e # es) @ P" T] show ?case by (simp add: e)
qed simp

section \<open>Stop of the sampler\<close>

definition sampling_entries :: "(transaction_id \<times> pending_dispatch) list \<Rightarrow> (transaction_id \<times> pending_dispatch) list" where
  "sampling_entries ps = filter (\<lambda>e. samplings_of (pd_purpose (snd e)) \<noteq> []) ps"

lemma sampling_entries_simps [simp]:
  "sampling_entries [] = []"
  "sampling_entries (e # ps) = (if samplings_of (pd_purpose (snd e)) = [] then sampling_entries ps else e # sampling_entries ps)"
  by (simp_all add: sampling_entries_def)

lemma cancel_sampling_eq:
  "cancel_sampling en now d ps = (pops d (map fst (sampling_entries ps)))\<lparr>dp_sampler :=
     fold (\<lambda>r s. cancel_request s r now (en_fresh en)) (gather samplings_of (map (\<lambda>e. pd_purpose (snd e)) ps)) (dp_sampler d)\<rparr>"
proof (induction ps arbitrary: d)
  case (Cons e ps)
  obtain i p where e: "e = (i, p)" by fastforce
  show ?case
    by (cases "pd_purpose p") (simp_all add: e Cons drop_pending_popped pops_sampler)
qed simp

lemma stop_inv:
  assumes "good s L"
  shows "good (sampler_stop s now) [] \<and> sa_session (sampler_stop s now) = None"
  using assms by (auto simp: good_def exclusive_def leased_def intro: inv_stop)

lemma sampling_inert:
  assumes "\<forall>q\<in>set Q. samplings_of q \<noteq> []"
  shows "gather verifications_of Q = []" "gather probes_of Q = []" "gather recoveries_of Q = []" "gather lookups_of Q = []"
    "gather callers_of Q = []" "permits Q = 0"
  using assms
proof (induction Q)
  case (Cons q Q)
  { case 1 then show ?case using Cons by (cases q) simp_all next
    case 2 then show ?case using Cons by (cases q) simp_all next
    case 3 then show ?case using Cons by (cases q) simp_all next
    case 4 then show ?case using Cons by (cases q) simp_all next
    case 5 then show ?case using Cons by (cases q) simp_all next
    case 6 then show ?case using Cons by (cases q) (simp_all add: has_permit_def) }
qed simp_all

lemma links_sampler: "links L d \<Longrightarrow> good s (gather samplings_of M) \<Longrightarrow> mset L = mset (Q @ M) \<Longrightarrow>
    \<forall>q\<in>set Q. samplings_of q \<noteq> [] \<Longrightarrow> links M (d\<lparr>dp_sampler := s\<rparr>)"
proof -
  assume l: "links L d" and g: "good s (gather samplings_of M)" and m: "mset L = mset (Q @ M)"
    and Q: "\<forall>q\<in>set Q. samplings_of q \<noteq> []"
  have "links (Q @ M) d" using links_mset [OF l] m by simp
  note inert = sampling_inert [OF Q]
  have "lookup_links (Q @ M) ms = lookup_links M ms" for ms by (rule lookup_links_cong) (simp add: inert)
  then show ?thesis using \<open>links (Q @ M) d\<close> g by (simp add: links_def inert)
qed


lemma sampling_entries_pending:
  assumes "hm_ok m"
  shows "distinct (map fst (sampling_entries m))" "\<forall>(i, p)\<in>set (sampling_entries m). hm_get m i = Some p"
    "gather samplings_of (map pd_purpose (hm_values (filter (\<lambda>(i, _). i \<notin> set (map fst (sampling_entries m))) m))) = []"
proof -
  have "hm_ok (sampling_entries m)" unfolding sampling_entries_def using hm_ok_filter [OF assms] .
  then show "distinct (map fst (sampling_entries m))" by (simp add: hm_ok_def)
  show "\<forall>(i, p)\<in>set (sampling_entries m). hm_get m i = Some p" using hm_get_Some [OF assms] by (auto simp: sampling_entries_def)
  have "samplings_of (pd_purpose p) = []" if "(i, p) \<in> set m" "i \<notin> fst ` set (sampling_entries m)" for i p
  proof (rule ccontr)
    assume "samplings_of (pd_purpose p) \<noteq> []"
    then have "(i, p) \<in> set (sampling_entries m)" using that(1) by (simp add: sampling_entries_def)
    then show False using that(2) by (metis fst_conv image_eqI)
  qed
  then show "gather samplings_of (map pd_purpose (hm_values (filter (\<lambda>(i, _). i \<notin> set (map fst (sampling_entries m))) m))) = []"
    by (auto simp: gather_def hm_values_def)
qed

lemma stop_sampling_ok:
  assumes "d_inv I [] [] {} r d"
  shows "\<exists>d'. stop_sampling en d now = Some d' \<and> settled I [] [] {} r d d' \<and> gather samplings_of (outstanding d') = []"
proof -
  obtain d1 where d1: "discard_queued_sampling en d now = Some d1" "settled I [] [] {} r d d1" "no_sampling (dp_queued d1)"
    using discard_ok [OF assms] by blast
  then have i1: "d_inv I [] [] {} r d1" by (simp add: settled_def)
  have ok: "hm_ok (dp_pending d1)" using i1 by (simp add: d_inv_def maps_ok_def)
  note en = sampling_entries_pending [OF ok]
  define es where "es = sampling_entries (dp_pending d1)"
  define d2 where "d2 = pops d1 (map fst es)"
  define Q where "Q = map (\<lambda>e. pd_purpose (snd e)) es"
  define s where "s = fold (\<lambda>r s. cancel_request s r now (en_fresh en)) (gather samplings_of (map (\<lambda>e. pd_purpose (snd e)) (dp_pending d1)))
    (sampler_stop (dp_sampler d1) now)"
  have i2: "d_inv I Q [] {} r d2" using d_inv_pops [OF i1 en(1,2)] by (simp add: Q_def d2_def es_def)
  have free: "gather samplings_of (outstanding d2) = []"
    using d1(3) en(3) by (simp add: outstanding_def no_sampling_def d2_def es_def)
  have "good (dp_sampler d1) (gather samplings_of (outstanding d1))" using i1 links_good by (simp add: d_inv_def)
  then have st: "good (sampler_stop (dp_sampler d1) now) []" "sa_session (sampler_stop (dp_sampler d1) now) = None"
    using stop_inv by blast+
  have gs: "good s (gather samplings_of (outstanding d2))" unfolding s_def free by (rule fold_cancel_stopped [OF st])
  have Q: "\<forall>q\<in>set Q. samplings_of q \<noteq> []" by (auto simp: Q_def es_def sampling_entries_def)
  note inert = sampling_inert [OF Q]
  have e: "stop_sampling en d now = Some (d2\<lparr>dp_sampler := s\<rparr>)"
    using d1(1) by (simp add: stop_sampling_def cancel_sampling_eq pops_sampler d2_def es_def s_def Let_def)
  have "links (outstanding d2) (d2\<lparr>dp_sampler := s\<rparr>)"
    using links_sampler [OF _ gs, of "Q @ outstanding d2" d2 Q] i2 Q by (simp add: d_inv_def)
  then have "d_inv I [] [] {} r (d2\<lparr>dp_sampler := s\<rparr>)"
    using d_inv_parts [OF i2] inert by (intro d_inv_change [OF i2]) simp_all
  moreover have "steady d (d2\<lparr>dp_sampler := s\<rparr>)" "dp_identity_paused (d2\<lparr>dp_sampler := s\<rparr>) = dp_identity_paused d"
    using steady_trans [OF _ pops_steady, of d d1 "map fst es"] d1(2) by (simp_all add: settled_def d2_def steady_def)
  ultimately show ?thesis using e free by (auto simp: settled_def outstanding_def)
qed

section \<open>Callers that went away\<close>

lemma cancel_queued_ok:
  "d_inv I P T X r d \<Longrightarrow> dp_queued d = kept @ rest \<Longrightarrow>
   \<exists>d'. cancel_queued en d kept rest = Some d' \<and> settled I P T X r d d'"
proof (induction rest arbitrary: d kept)
  case Nil
  then show ?case by (simp add: settled_def)
next
  case (Cons q rest)
  show ?case
  proof (cases "purpose_cancelled (en_gone en) (qi_purpose q)")
    case True
    let ?d = "d\<lparr>dp_queued := kept @ rest\<rparr>"
    have i: "d_inv I (qi_purpose q # P) (qi_record q # T) X r ?d"
      using d_inv_less [OF d_inv_dequeue(1) [OF Cons.prems]] by simp
    note rc = reclaim_ok [OF i True]
    from drop_ticket_step [of I P "qi_record q" T X r "reclaim ?d (qi_purpose q)" en] rc obtain d2 where
      d2: "drop_ticket en (reclaim ?d (qi_purpose q)) (qi_record q) = Some d2" "d_inv I P T X r d2"
        "steady (reclaim ?d (qi_purpose q)) d2" "dp_queued d2 = kept @ rest" "dp_identity_paused d2 = dp_identity_paused d" by auto
    have "steady d ?d" by (simp add: steady_def)
    then have st: "steady d d2" using rc d2(3) steady_trans by blast
    obtain d3 where "cancel_queued en d2 kept rest = Some d3" "settled I P T X r d2 d3" using Cons.IH [OF d2(2,4)] by blast
    then show ?thesis using True d2(1) settled_trans [OF st d2(5)] by simp
  next
    case False
    then show ?thesis using Cons.IH [OF Cons.prems(1), of "kept @ [q]"] Cons.prems(2) by simp
  qed
qed

lemma cancel_sent_ok:
  assumes "d_inv I [] [] {} r d" and "hm_get (dp_pending d) i = Some p" and "purpose_cancelled gone (pd_purpose p)"
  shows "settled I [] [] {} r d (cancel_sent d i)" "dp_pending (cancel_sent d i) = hm_remove i (dp_pending d)"
proof -
  define b where "b = inflight_cancelled (dp_budget d) (purpose_class (pd_purpose p))"
  have e: "cancel_sent d i = reclaim ((popped d i)\<lparr>dp_budget := b\<rparr>) (pd_purpose p)"
    using assms(2) by (simp add: cancel_sent_def popped_def cancel_def b_def)
  have i1: "d_inv I (pd_purpose p # []) [] {} r (popped d i)" using d_inv_popped(1) [OF assms(1,2)] by simp
  then have i2: "d_inv I (pd_purpose p # []) [] {} r ((popped d i)\<lparr>dp_budget := b\<rparr>)"
    using d_inv_budget [OF i1, of b] d_inv_budget_inv [OF i1] by (simp add: b_def)
  have "steady d ((popped d i)\<lparr>dp_budget := b\<rparr>)" by (simp add: steady_def popped_def)
  then show "settled I [] [] {} r d (cancel_sent d i)"
    using reclaim_ok [OF i2 assms(3)] steady_trans unfolding e settled_def by fastforce
  show "dp_pending (cancel_sent d i) = hm_remove i (dp_pending d)"
    by (simp add: e reclaim_def answer_def split: pending_purpose.split)
qed

lemma cancel_sent_fold:
  "d_inv I [] [] {} r d \<Longrightarrow> distinct ks \<Longrightarrow> \<forall>i\<in>set ks. \<exists>p. hm_get (dp_pending d) i = Some p \<and> purpose_cancelled gone (pd_purpose p) \<Longrightarrow>
   settled I [] [] {} r d (foldl cancel_sent d ks)"
proof (induction ks arbitrary: d)
  case Nil
  then show ?case by (simp add: settled_def)
next
  case (Cons i ks)
  then obtain p where p: "hm_get (dp_pending d) i = Some p" "purpose_cancelled gone (pd_purpose p)" by auto
  note c = cancel_sent_ok [OF Cons.prems(1) p]
  have "\<forall>j\<in>set ks. \<exists>p. hm_get (dp_pending (cancel_sent d i)) j = Some p \<and> purpose_cancelled gone (pd_purpose p)"
    using Cons.prems(2,3) by (auto simp: c(2))
  then have "settled I [] [] {} r (cancel_sent d i) (foldl cancel_sent (cancel_sent d i) ks)"
    using Cons.IH [of "cancel_sent d i"] c(1) Cons.prems(2) by (simp add: settled_def)
  then show ?case using settled_trans [of d "cancel_sent d i"] c(1) by (simp add: settled_def)
qed

lemma cancel_fetch_queries_ok:
  assumes "d_inv I [] [] {} r d"
  shows "keeps_state I d (cancel_fetch_queries en d)"
proof -
  obtain d1 where d1: "cancel_queued en d [] (dp_queued d) = Some d1" "settled I [] [] {} r d d1"
    using cancel_queued_ok [OF assms, of "[]"] by auto
  then have i1: "d_inv I [] [] {} r d1" by (simp add: settled_def)
  then have ok: "hm_ok (dp_pending d1)" by (simp add: d_inv_def maps_ok_def)
  define ks where "ks = map fst (filter (\<lambda>(_, p). purpose_cancelled (en_gone en) (pd_purpose p)) (dp_pending d1))"
  have "distinct ks" using hm_ok_filter [OF ok] by (simp add: ks_def hm_ok_def)
  moreover have "\<forall>i\<in>set ks. \<exists>p. hm_get (dp_pending d1) i = Some p \<and> purpose_cancelled (en_gone en) (pd_purpose p)"
    using hm_get_Some [OF ok] by (force simp: ks_def)
  ultimately have s: "settled I [] [] {} r d1 (foldl cancel_sent d1 ks)" by (rule cancel_sent_fold [OF i1])
  have "settled I [] [] {} r d (foldl cancel_sent d1 ks)"
    by (rule settled_trans [OF _ _ s]) (use d1(2) in \<open>simp_all add: settled_def\<close>)
  moreover have "cancel_fetch_queries en d = Some (foldl cancel_sent d1 ks)"
    using d1(1) by (simp add: cancel_fetch_queries_def ks_def)
  ultimately show ?thesis by (intro keeps_stateI)
qed

end
