(* ===== verification/DispatcherStages.thy ===== *)
theory DispatcherStages imports DispatcherCancel RoutingProps begin

text \<open>The stages after an event keep the invariant: maintenance, recovery and sampling; then the commands.\<close>

section \<open>Lookups\<close>

definition keyed :: "(node_id, lookup_candidate) hmap \<Rightarrow> bool" where
  "keyed m \<longleftrightarrow> hm_ok m \<and> (\<forall>(i, c)\<in>set m. nc_id (lc_node c) = i)"

lemma keyed_inv: "lookup_inv cfg l \<Longrightarrow> keyed (il_candidates l)"
  using hm_get_Some [of "il_candidates l"] by (auto simp: lookup_inv_def cands_inv_def keyed_def)

lemma keyed_state:
  assumes "keyed (il_candidates l)" and "hm_get (il_candidates l) j = Some e"
  shows "keyed (il_candidates (set_state l j e s))" "nc_id (lc_node e) = j" "(j, e) \<in> set (il_candidates l)"
    "set (il_candidates (set_state l j e s)) = insert (j, e\<lparr>lc_state := s\<rparr>) {p \<in> set (il_candidates l). fst p \<noteq> j}"
proof -
  have ok: "hm_ok (il_candidates l)" using assms(1) by (simp add: keyed_def)
  show je: "(j, e) \<in> set (il_candidates l)" using assms(2) by (rule hm_get_in)
  then show id: "nc_id (lc_node e) = j" using assms(1) by (auto simp: keyed_def)
  show cs: "set (il_candidates (set_state l j e s)) = insert (j, e\<lparr>lc_state := s\<rparr>) {p \<in> set (il_candidates l). fst p \<noteq> j}"
    by (simp add: set_state_def hm_set_put [OF ok])
  have "hm_ok (il_candidates (set_state l j e s))" using ok by (simp add: set_state_def)
  then show "keyed (il_candidates (set_state l j e s))" using assms(1) id unfolding keyed_def cs by auto
qed

definition takes :: "iterative_lookup \<Rightarrow> iterative_lookup \<Rightarrow> node_contact list \<Rightarrow> bool" where
  "takes l l' ns \<longleftrightarrow> il_target l' = il_target l \<and>
   (\<forall>i c. (i, c) \<in> set (il_candidates l') \<longrightarrow>
      (\<exists>e. (i, e) \<in> set (il_candidates l) \<and> (lc_state c = InFlight \<longrightarrow> lc_state e = InFlight \<or> i \<in> nc_id ` set ns))) \<and>
   nc_id ` set ns \<subseteq> fst ` set (il_candidates l)"

lemma takesD:
  assumes "takes l l' ns"
  shows "il_target l' = il_target l" "nc_id ` set ns \<subseteq> fst ` set (il_candidates l)"
    "(i, c) \<in> set (il_candidates l') \<Longrightarrow>
      \<exists>e. (i, e) \<in> set (il_candidates l) \<and> (lc_state c = InFlight \<longrightarrow> lc_state e = InFlight \<or> i \<in> nc_id ` set ns)"
  using assms by (simp_all add: takes_def)

lemma takes_refl: "takes l l []"
  by (auto simp: takes_def)

lemma takes_failed:
  assumes "keyed (il_candidates l)" and "hm_get (il_candidates l) j = Some e" and "takes (set_state l j e Failed) l' ns"
  shows "takes l l' ns"
proof -
  note k = keyed_state [OF assms(1,2)]
  have "\<exists>x. (i, x) \<in> set (il_candidates l) \<and> (lc_state c = InFlight \<longrightarrow> lc_state x = InFlight)"
    if "(i, c) \<in> set (il_candidates (set_state l j e Failed))" for i c
    using that k(3) unfolding k(4) by auto
  moreover have "fst ` set (il_candidates (set_state l j e Failed)) \<subseteq> fst ` set (il_candidates l)"
    using k(3) unfolding k(4) by force
  ultimately show ?thesis using assms(3) unfolding takes_def by (simp only: set_state_sel(5)) (meson subset_trans)
qed

lemma takes_started:
  assumes "keyed (il_candidates l)" and "hm_get (il_candidates l) j = Some e" and "takes l1 l' ns"
    and "il_candidates l1 = il_candidates (set_state l j e InFlight)" and "il_target l1 = il_target l"
  shows "takes l l' (lc_node e # ns)"
proof -
  note k = keyed_state [OF assms(1,2)]
  have old: "\<exists>x. (i, x) \<in> set (il_candidates l) \<and> (lc_state c = InFlight \<longrightarrow> lc_state x = InFlight \<or> i = j)"
    if "(i, c) \<in> set (il_candidates l1)" for i c
    using that k(3) unfolding assms(4) k(4) by auto
  have members: "\<exists>x. (i, x) \<in> set (il_candidates l) \<and> (lc_state c = InFlight \<longrightarrow> lc_state x = InFlight \<or> i \<in> nc_id ` set (lc_node e # ns))"
    if ic: "(i, c) \<in> set (il_candidates l')" for i c
  proof -
    obtain c1 where c1: "(i, c1) \<in> set (il_candidates l1)" "lc_state c = InFlight \<longrightarrow> lc_state c1 = InFlight \<or> i \<in> nc_id ` set ns"
      using takesD(3) [OF assms(3) ic] by blast
    from old [OF c1(1)] obtain x where "(i, x) \<in> set (il_candidates l)" "lc_state c1 = InFlight \<longrightarrow> lc_state x = InFlight \<or> i = j" by blast
    then show ?thesis using c1(2) k(2) by (intro exI [of _ x]) auto
  qed
  have "fst ` set (il_candidates l1) \<subseteq> fst ` set (il_candidates l)"
    using k(3) unfolding assms(4) k(4) by force
  then have "nc_id ` set ns \<subseteq> fst ` set (il_candidates l)" using assms(3) unfolding takes_def by blast
  moreover have "j \<in> fst ` set (il_candidates l)" using k(3) by force
  ultimately have keys: "nc_id ` set (lc_node e # ns) \<subseteq> fst ` set (il_candidates l)" using k(2) by simp
  have "il_target l' = il_target l" using assms(3,5) by (simp add: takes_def)
  then show ?thesis unfolding takes_def using members keys by blast
qed

lemma take_ids_takes:
  "keyed (il_candidates l) \<Longrightarrow> take_ids l js = (l', ns) \<Longrightarrow> takes l l' ns"
proof (induction js arbitrary: l ns)
  case Nil
  then show ?case using takes_refl by simp
next
  case (Cons j js)
  show ?case
  proof (cases "hm_get (il_candidates l) j")
    case None
    then show ?thesis using Cons by simp
  next
    case (Some e)
    note k = keyed_state [OF Cons.prems(1) Some]
    show ?thesis
    proof (cases "nc_address (lc_node e) \<in> il_attempted l")
      case True
      have "take_ids (set_state l j e Failed) js = (l', ns)" using Cons.prems(2) Some True by simp
      from takes_failed [OF Cons.prems(1) Some Cons.IH [OF k(1) this]] show ?thesis .
    next
      case False
      define l1 where "l1 = (set_state l j e InFlight)\<lparr>il_attempted := insert (nc_address (lc_node e)) (il_attempted l),
         il_in_flight := il_in_flight l + 1, il_queries_started := il_queries_started l + 1\<rparr>"
      obtain ns' where t: "take_ids l1 js = (l', ns')" "ns = lc_node e # ns'"
        using Cons.prems(2) Some False by (auto simp: l1_def Let_def split: prod.splits)
      have f: "il_candidates l1 = il_candidates (set_state l j e InFlight)" "il_target l1 = il_target l" by (simp_all add: l1_def)
      have "keyed (il_candidates l1)" using k(1) by (simp add: f(1))
      from takes_started [OF Cons.prems(1) Some Cons.IH [OF this t(1)] f] show ?thesis by (simp add: t(2))
    qed
  qed
qed

lemma take_next_links:
  assumes "lookup_links L ms" and "ms_lookup ms = Some l"
  shows "\<exists>l' ns. take_next l (ms_config ms) n = Some (l', ns) \<and> il_target l' = il_target l \<and> (\<forall>c\<in>set ns. id_ok (nc_id c)) \<and>
    lookup_links (map (\<lambda>c. PMaintenanceLookup (nc_id c)) ns @ L) (ms\<lparr>ms_lookup := Some l'\<rparr>)"
proof -
  have inv: "lookup_inv (ms_config ms) l" and t: "id_ok (il_target l)"
    and c: "\<And>i c. (i, c) \<in> set (il_candidates l) \<Longrightarrow> id_ok i \<and> (lc_state c = InFlight \<longrightarrow> i \<in> set (gather lookups_of L))"
    using assms by (auto simp: lookup_links_def)
  obtain l' ns where n: "take_next l (ms_config ms) n = Some (l', ns)" "lookup_inv (ms_config ms) l'"
    using take_next_inv [OF inv] by blast
  have tk: "takes l l' ns" using n(1) take_ids_takes [OF keyed_inv [OF inv]] takes_refl
    unfolding take_next_def by (auto simp: Let_def split: if_splits)
  have ids: "id_ok (nc_id x)" if "x \<in> set ns" for x
  proof -
    have "nc_id x \<in> fst ` set (il_candidates l)" using tk that unfolding takes_def by blast
    then show ?thesis using c by auto
  qed
  have g: "set (gather lookups_of (map (\<lambda>c. PMaintenanceLookup (nc_id c)) ns)) = nc_id ` set ns"
    by (induction ns) auto
  have "lookup_links (map (\<lambda>c. PMaintenanceLookup (nc_id c)) ns @ L) (ms\<lparr>ms_lookup := Some l'\<rparr>)"
  proof -
    have m: "id_ok i \<and> (lc_state e = InFlight \<longrightarrow> i \<in> nc_id ` set ns \<union> set (gather lookups_of L))" if i: "(i, e) \<in> set (il_candidates l')" for i e
    proof -
      obtain e0 where e0: "(i, e0) \<in> set (il_candidates l)" "lc_state e = InFlight \<longrightarrow> lc_state e0 = InFlight \<or> i \<in> nc_id ` set ns"
        using takesD(3) [OF tk i] by blast
      show ?thesis using c [OF e0(1)] e0(2) by auto
    qed
    have "\<forall>x\<in>set (il_candidates l'). id_ok (fst x) \<and> (lc_state (snd x) = InFlight \<longrightarrow> fst x \<in> nc_id ` set ns \<union> set (gather lookups_of L))"
      by (rule ballI) (rule m, simp)
    then show ?thesis using n(2) t takesD(1) [OF tk] by (simp add: lookup_links_def g case_prod_beta')
  qed
  then show ?thesis using n(1) ids takesD(1) [OF tk] by blast
qed

section \<open>Maintenance\<close>

lemma inert_lookups:
  "gather samplings_of (map (\<lambda>c. PMaintenanceLookup (nc_id c)) ns) = []"
  "gather verifications_of (map (\<lambda>c. PMaintenanceLookup (nc_id c)) ns) = []"
  "gather probes_of (map (\<lambda>c. PMaintenanceLookup (nc_id c)) ns) = []"
  "gather recoveries_of (map (\<lambda>c. PMaintenanceLookup (nc_id c)) ns) = []"
  "gather callers_of (map (\<lambda>c. PMaintenanceLookup (nc_id c)) ns) = []"
  "permits (map (\<lambda>c. PMaintenanceLookup (nc_id c)) ns) = 0"
  by (induction ns) (simp_all add: has_permit_def)

lemma query_each_ok:
  "d_inv I (map (\<lambda>c. PMaintenanceLookup (nc_id c)) ns) [] {} r d \<Longrightarrow> ms_lookup (dp_maintenance d) \<noteq> None \<Longrightarrow>
   \<forall>c\<in>set ns. id_ok (nc_id c) \<Longrightarrow> \<exists>d'. query_each en d target ns now = Some d' \<and> settled I [] [] {} r d d'"
proof (induction ns arbitrary: d)
  case Nil
  then show ?case by (simp add: settled_def)
next
  case (Cons n ns)
  let ?P = "map (\<lambda>c. PMaintenanceLookup (nc_id c)) ns"
  have i: "d_inv I (PMaintenanceLookup (nc_id n) # ?P) [] {} r d" using Cons.prems(1) by simp
  have step: "\<exists>d'. query_each en d1 target ns now = Some d' \<and> settled I [] [] {} r d d'" if "settled I ?P [] {} r d d1" for d1
  proof -
    have "d_inv I ?P [] {} r d1" "ms_lookup (dp_maintenance d1) \<noteq> None" using that Cons.prems(2) by (simp_all add: settled_def steady_def)
    then obtain d' where "query_each en d1 target ns now = Some d'" "settled I [] [] {} r d1 d'" using Cons.IH Cons.prems(3) by force
    then show ?thesis using that settled_trans by (auto simp: settled_def [of I ?P])
  qed
  show ?case
  proof (cases "policy_accepts (dp_policy d) (nc_address n)")
    case False
    have "settled I ?P [] {} r d (update_lookup d (\<lambda>l. complete_failure l (nc_id n)))"
      by (rule settled_lookup [OF i]) (rule lookup_links_failure [OF lookup_linked [OF i]])
    from step [OF this] show ?thesis using False Cons.prems(2) by simp
  next
    case True
    have "d_inv I (PMaintenanceLookup (nc_id n) # ?P) [] {} (Suc r) d" using i d_inv_any by blast
    moreover have "target_ok (node_target n)" using Cons.prems(3) by (simp add: target_ok_def node_target_def)
    ultimately obtain d1 where "start_query en d (node_target n) FindNode (Some target) (PMaintenanceLookup (nc_id n)) now = Some d1"
      "d_inv I ?P [] {} r d1" "steady d d1" "dp_identity_paused d1 = dp_identity_paused d"
      using start_query_ok [of I "PMaintenanceLookup (nc_id n)" ?P "[]" "{}" r d "node_target n" en FindNode "Some target" now]
      by (auto simp: has_permit_def)
    then show ?thesis using True step [of d1] by (simp add: settled_def)
  qed
qed


text \<open>What a stage ensures: it does not panic, and the invariant holds afterwards.\<close>

definition safe :: "nat multiset \<Rightarrow> dispatcher option \<Rightarrow> bool" where
  "safe I x \<longleftrightarrow> (\<exists>d. x = Some d \<and> d_inv I [] [] {} 0 d)"

lemma safeI: "x = Some d \<Longrightarrow> d_inv I [] [] {} r d \<Longrightarrow> safe I x"
  unfolding safe_def using d_inv_any [of I "[]" "[]" r d 0] by simp

lemma keeps_safe: "keeps_state I d x \<Longrightarrow> safe I x"
  by (auto simp: keeps_state_def safe_def settled_def)

lemma d_inv_maintenance:
  assumes "d_inv I [] [] {} r d" and "lookup_links (outstanding d) ms" and "rt_inv rt" and "same_net (dp_routing d) rt"
  shows "d_inv I [] [] {} r (d\<lparr>dp_maintenance := ms, dp_routing := rt\<rparr>)"
proof -
  have "links (outstanding d) (d\<lparr>dp_maintenance := ms, dp_routing := rt\<rparr>)"
    using d_inv_parts(5) [OF assms(1)] assms(2) purpose_ok_net [OF assms(4)] by (simp add: links_def)
  then show ?thesis using d_inv_parts [OF assms(1)] assms(3) by (intro d_inv_change [OF assms(1)]) simp_all
qed

lemma closest_usable_contacts: "set (closest_usable rt target n now) \<subseteq> set (table_contacts rt)"
proof
  fix c assume "c \<in> set (closest_usable rt target n now)"
  from subsetD [OF closest_by_subset this [unfolded closest_usable_def]] show "c \<in> set (table_contacts rt)"
    unfolding closest_matching_def using closest_by_subset by fastforce
qed

lemma seed_members:
  "hm_ok m \<Longrightarrow> (i, c) \<in> set (seed_candidates ns m) \<Longrightarrow> (i, c) \<in> set m \<or> (lc_state c = Unqueried \<and> i \<in> nc_id ` set ns)"
proof (induction ns m rule: seed_candidates.induct)
  case (2 n ns m)
  then show ?case using hm_set_put [of m "nc_id n"] by (auto split: option.splits)
qed simp

lemma begin_if_due_links:
  assumes "lookup_links L ms" and "rt_inv rt" and "length random = 20"
  shows "lookup_links L (begin_if_due ms rt now random)"
proof -
  have seeds: "id_ok (nc_id c)" if "c \<in> set (closest_usable rt t n now)" for c t n
    using subsetD [OF closest_usable_contacts that] table_contact_ok [OF assms(2), of c] by (simp add: contact_ok_def)
  have new: "lookup_links L (ms\<lparr>ms_lookup := Some (lookup_new kind t (closest_usable rt t 256 now))\<rparr>)" if "id_ok t" for kind t
  proof -
    have "length (closest_usable rt t 256 now) \<le> 256" by (simp add: closest_usable_def)
    then have inv: "lookup_inv (ms_config ms) (lookup_new kind t (closest_usable rt t 256 now))" by (rule lookup_new_inv)
    have "lc_state c = Unqueried \<and> i \<in> nc_id ` set ns" if "(i, c) \<in> set (seed_candidates ns [])" for i c ns
      using seed_members [OF _ that] by (auto simp: hm_ok_def)
    then have "id_ok i \<and> lc_state c \<noteq> InFlight" if "(i, c) \<in> set (seed_candidates (closest_usable rt t 256 now) [])" for i c
      using that seeds by fastforce
    then show ?thesis using inv \<open>id_ok t\<close> by (auto simp: lookup_links_def lookup_new_def)
  qed
  have target: "id_ok t" if st: "stale_refresh_target rt now after random = Some t" for after t
  proof -
    obtain b where "b \<in> set (rt_buckets rt)" "t = random_target (bk_range b) random"
      using st min_by_key_Some by (fastforce simp: stale_refresh_target_def split: if_splits)
    moreover have "prefix_ok (bk_range b)" using assms(2) calculation(1) by (simp add: rt_inv_def bucket_ok_def)
    ultimately show ?thesis using random_target_bits [OF assms(3)] by simp
  qed
  have retry: "lookup_links L (schedule_retry ms now)" if "ms_lookup ms = None" using that by (simp add: lookup_links_def schedule_retry_def)
  have "id_ok (rt_local_id rt)" using assms(2) by (simp add: rt_inv_def)
  then show ?thesis using assms(1) new target retry
    by (auto simp: begin_if_due_def Let_def split: option.splits if_splits)
qed

lemma finish_lookup_ok:
  assumes "d_inv I [] [] {} r d"
  shows "\<exists>d'. finish_lookup d now = Some d' \<and> d_inv I [] [] {} r d' \<and> dp_policy d' = dp_policy d"
proof (cases "ms_lookup (dp_maintenance d)")
  case None
  then have "finish_lookup d now = Some (d\<lparr>dp_maintenance := dp_maintenance d, dp_routing := dp_routing d\<rparr>)"
    by (simp add: finish_lookup_def finish_if_complete_def)
  then show ?thesis using assms by simp
next
  case (Some l)
  have ll: "lookup_links (outstanding d) (dp_maintenance d)" using d_inv_parts(5) [OF assms] by (simp add: links_def)
  then have t: "id_ok (il_target l)" using Some by (simp add: lookup_links_def)
  have rt: "rt_inv (dp_routing d)" using d_inv_parts(2) [OF assms] .
  have "\<not> list_ex (\<lambda>i. hm_get (il_candidates l) i = None) (shortlist (ms_config (dp_maintenance d)) l)"
    using shortlist_known by (auto simp: list_ex_iff)
  then obtain b where b: "is_complete l (ms_config (dp_maintenance d)) = Some b"
    by (cases "il_in_flight l = 0"; cases "il_queries_started l \<ge> mc_max_queries (ms_config (dp_maintenance d))")
      (auto simp: is_complete_def Let_def)
  obtain rt' where rt': "mark_refreshed (dp_routing d) (il_target l) now = Some rt'" "rt_inv rt'"
    using mark_refreshed_inv [OF rt t] by blast
  then have net: "same_net (dp_routing d) rt'" by (auto simp: mark_refreshed_def same_net_def put_bucket_def split: option.splits)
  have none: "lookup_links (outstanding d) ms" if "ms_lookup ms = None" for ms using that by (simp add: lookup_links_def)
  obtain ms rt2 where f: "finish_if_complete (dp_maintenance d) (dp_routing d) now = Some (ms, rt2)"
    "lookup_links (outstanding d) ms" "rt_inv rt2" "same_net (dp_routing d) rt2"
    using Some b ll rt rt' net none
    by (cases b; cases "lookup_succeeded l"; cases "il_kind l") (auto simp: finish_if_complete_def Let_def same_net_def schedule_retry_def)
  then show ?thesis using d_inv_maintenance [OF assms f(2-4)] by (simp add: finish_lookup_def)
qed

lemma advance_maintenance_ok:
  assumes "d_inv I [] [] {} r d" and "id_ok (en_random en)"
  shows "safe I (advance_maintenance en d now)"
proof -
  let ?ms = "begin_if_due (dp_maintenance d) (dp_routing d) now (id_bytes (en_random en))"
  have ll: "lookup_links (outstanding d) (dp_maintenance d)" and rt: "rt_inv (dp_routing d)"
    using d_inv_parts(5,2) [OF assms(1)] by (simp_all add: links_def)
  have "length (id_bytes (en_random en)) = 20" using assms(2) by (simp add: id_ok_def arr20_def)
  from begin_if_due_links [OF ll rt this] have "lookup_links (outstanding d) ?ms" .
  then have "d_inv I [] [] {} r (d\<lparr>dp_maintenance := ?ms\<rparr>)"
    using d_inv_maintenance [OF assms(1) _ rt, of ?ms] by (simp add: same_net_def)
  then obtain d1 where d1: "finish_lookup (d\<lparr>dp_maintenance := ?ms\<rparr>) now = Some d1" "d_inv I [] [] {} r d1"
    using finish_lookup_ok by blast
  show ?thesis
  proof (cases "ms_lookup (dp_maintenance d1)")
    case None
    then show ?thesis using d1 by (intro safeI [OF _ d1(2)]) (simp add: advance_maintenance_def)
  next
    case (Some l)
    define n where "n = tm_max_pending (dp_transactions d1) - reserve_for d1 - occupied d1"
    have l1: "lookup_links (outstanding d1) (dp_maintenance d1)" using d_inv_parts(5) [OF d1(2)] by (simp add: links_def)
    obtain l' ns where tn: "take_next l (ms_config (dp_maintenance d1)) n = Some (l', ns)" "\<forall>c\<in>set ns. id_ok (nc_id c)"
      "lookup_links (map (\<lambda>c. PMaintenanceLookup (nc_id c)) ns @ outstanding d1) ((dp_maintenance d1)\<lparr>ms_lookup := Some l'\<rparr>)"
      using take_next_links [OF l1 Some, of n] by blast
    let ?d = "d1\<lparr>dp_maintenance := (dp_maintenance d1)\<lparr>ms_lookup := Some l'\<rparr>\<rparr>" and ?P = "map (\<lambda>c. PMaintenanceLookup (nc_id c)) ns"
    have "\<forall>p\<in>set ?P. purpose_ok rt p" for rt by auto
    then have "links (?P @ outstanding d1) ?d"
      using d_inv_parts(5) [OF d1(2)] tn(3) by (auto simp: links_def inert_lookups)
    then have "d_inv I ?P [] {} r ?d"
      using d_inv_parts [OF d1(2)] by (intro d_inv_change [OF d1(2)]) (simp_all add: inert_lookups)
    then obtain d2 where d2: "query_each en ?d (il_target l) ns now = Some d2" "settled I [] [] {} r ?d d2"
      using query_each_ok [OF _ _ tn(2), of I r ?d en "il_target l" now] by auto
    then obtain d3 where d3: "finish_lookup d2 now = Some d3" "d_inv I [] [] {} r d3"
      using finish_lookup_ok [of I r d2 now] by (auto simp: settled_def)
    have "advance_maintenance en d now = Some d3"
      using d1(1) Some tn(1) d2(1) d3(1) by (simp add: advance_maintenance_def n_def)
    then show ?thesis using d3(2) by (rule safeI)
  qed
qed

end
