(* ===== verification/DispatcherCommands.thy ===== *)
theory DispatcherCommands imports DispatcherStages begin

text \<open>Recovery, sampling and the commands keep the invariant.\<close>

section \<open>Recovery\<close>

lemma advance_recovery_ok:
  assumes "d_inv I [] [] {} r d"
  shows "safe I (advance_recovery en d now)"
proof (cases "(case recovery_deadline (dp_recovery d) (recovery_capacity d) of None \<Rightarrow> True | Some at \<Rightarrow> at > now) \<or> rc_queued (dp_recovery d) = []")
  case True
  then have "advance_recovery en d now = Some d" by (auto simp: advance_recovery_def split: list.split)
  then show ?thesis using assms by (rule safeI)
next
  case False
  then obtain c cs where q: "rc_queued (dp_recovery d) = c # cs" by (auto simp: neq_Nil_conv)
  let ?rc = "\<lparr>rc_queued = cs, rc_active = hm_put (sv_id c) c (rc_active (dp_recovery d)), rc_next = Some (now + secs 1)\<rparr>"
  let ?d = "d\<lparr>dp_recovery := ?rc\<rparr>" and ?p = "PRecovery (sv_id c)"
  have rok: "recovery_ok (dp_recovery d)" using d_inv_parts(4) [OF assms] .
  then have id: "id_ok (sv_id c)" using q by (simp add: recovery_ok_def)
  have "set (hm_values (hm_put (sv_id c) c m)) \<subseteq> insert c (set (hm_values m))" for m
  proof
    fix x assume "x \<in> set (hm_values (hm_put (sv_id c) c m))"
    then show "x \<in> insert c (set (hm_values m))" by (induction m) (auto simp: hm_values_def hm_put_def split: if_splits)
  qed
  then have ok: "recovery_ok ?rc" using rok q by (fastforce simp: recovery_ok_def)
  have "links (?p # outstanding d) ?d"
  proof -
    have l: "links (outstanding d) d" using d_inv_parts(5) [OF assms] by simp
    have "set (map fst (hm_put (sv_id c) c (rc_active (dp_recovery d)))) = insert (sv_id c) (set (map fst (rc_active (dp_recovery d))))"
      using hm_get_None [of "rc_active (dp_recovery d)" "sv_id c"] by (simp only: hm_put_keys) auto
    then have keys: "fst ` set (hm_put (sv_id c) c (rc_active (dp_recovery d))) = insert (sv_id c) (fst ` set (rc_active (dp_recovery d)))"
      by simp
    have "lookup_links (?p # L) ms = lookup_links L ms" for L ms by simp
    then show ?thesis using l q keys by (auto simp: links_def)
  qed
  moreover have i0: "d_inv I [] [] {} (Suc 0) d" using assms d_inv_any by blast
  ultimately have i: "d_inv I [?p] [] {} (Suc 0) ?d"
    using d_inv_parts [OF assms] ok by (intro d_inv_change [OF i0]) (simp_all add: has_permit_def)
  have "target_ok \<lparr>rn_address = sv_address c, rn_expected_id = Some (sv_id c)\<rparr>" using id by (simp add: target_ok_def)
  from start_query_ok [OF i this, of en Ping None now] obtain d' where
    "start_query en ?d \<lparr>rn_address = sv_address c, rn_expected_id = Some (sv_id c)\<rparr> Ping None ?p now = Some d'" "d_inv I [] [] {} 0 d'"
    by (auto simp: has_permit_def)
  then show ?thesis using False q by (intro safeI [of _ d' I 0]) (auto simp: advance_recovery_def)
qed

section \<open>Sampling\<close>

lemma reserve_returned: "reserve_request s r now fresh = (s', Some r') \<Longrightarrow> s' = s \<and> r' = r"
  by (auto simp: reserve_request_def Let_def split: option.splits if_splits sum.splits)

lemma next_session: "s_inv s L \<Longrightarrow> rt_inv rt \<Longrightarrow> sampler_next s rt capacity now closed slot random = Some (s', Some r) \<Longrightarrow> sa_session s' \<noteq> None"
  using next_ok [of s L rt capacity now closed slot random] by (auto simp: after_next_def)

lemma advance_session:
  assumes "good s L" and "rt_inv rt" and "advance_sampler s rt capacity now fresh slot random = Some (s', Some r)"
  shows "sa_session s' \<noteq> None"
proof (rule take_reserved_cases [of s capacity now])
  have go: "sa_session s' \<noteq> None" if t: "take_reserved s capacity now = (t, None)" and g: "good t L" for t
  proof -
    obtain u x where u: "sampler_next t rt capacity now False slot random = Some (u, Some x)" "reserve_request u x now fresh = (s', Some r)"
      using assms(3) t by (auto simp: advance_sampler_def split: if_splits option.splits prod.splits)
    have "s_inv t L" using g by (simp add: good_def)
    from next_session [OF this assms(2) u(1)] have "sa_session u \<noteq> None" .
    then show ?thesis using reserve_returned [OF u(2)] by simp
  qed
  {
    assume "take_reserved s capacity now = (s, None)"
    then show ?thesis using go assms(1) by blast
  next
    fix se assume "take_reserved s capacity now = (s\<lparr>sa_deadline := Some (se_next_send se)\<rparr>, None)"
    moreover have "good (s\<lparr>sa_deadline := x\<rparr>) L" for x
      using assms(1) by (simp add: good_def exclusive_def leased_def ready_of_def reserving_of_def)
    ultimately show ?thesis using go by blast
  next
    fix d se x
    assume "take_reserved s capacity now =
        (s\<lparr>sa_session := Some (se\<lparr>se_next_send := now + sc_send_spacing (se_config se)\<rparr>),
           sa_durable := Some (d\<lparr>du_ready := None\<rparr>)\<rparr>, Some x)"
    then show ?thesis using assms(3) by (auto simp: advance_sampler_def dest!: reserve_returned)
  }
qed

lemma good_head_id: "good s (r # L) \<Longrightarrow> sa_session s \<noteq> None \<Longrightarrow> id_ok (rq_id r)"
proof -
  assume g: "good s (r # L)" and "sa_session s \<noteq> None"
  then obtain se where se: "sa_session s = Some se" by blast
  then have l: "linked s se (r # L)" and c: "cands_ok se" using g by (simp_all add: good_def s_inv_def se_ok_def)
  have "rq_key r \<in># mset (map rq_key ((r # L) @ waiting s))" by simp
  then have "rq_key r \<in> set (se_in_flight se)" using l unfolding linked_def by (metis set_mset_mset)
  then have "rq_id r \<in> fst ` set (se_in_flight se)" by (force simp: rq_key_def)
  then have "rq_id r \<in> fst ` set (se_candidates se)" using c by (auto simp: cands_ok_def)
  then show ?thesis using c by (auto simp: cands_ok_def)
qed

lemma d_inv_sampler:
  assumes "d_inv I P T X r d" and "good s (gather samplings_of (Q @ outstanding d))" and "Q = P \<or> (\<exists>x. Q = PSampling x # P)"
  shows "d_inv I Q T X r (d\<lparr>dp_sampler := s\<rparr>)"
proof -
  have q: "gather verifications_of Q = gather verifications_of P" "gather probes_of Q = gather probes_of P"
    "gather recoveries_of Q = gather recoveries_of P" "gather lookups_of Q = gather lookups_of P"
    "gather callers_of Q = gather callers_of P" "permits Q = permits P" "(\<forall>p\<in>set Q. purpose_ok rt p) = (\<forall>p\<in>set P. purpose_ok rt p)" for rt
    using assms(3) by (auto simp: has_permit_def)
  have "lookup_links (Q @ L) ms = lookup_links (P @ L) ms" for L ms by (rule lookup_links_cong) (simp add: q)
  then have "links (Q @ outstanding d) (d\<lparr>dp_sampler := s\<rparr>)"
    using d_inv_parts(5) [OF assms(1)] assms(2) q by (simp add: links_def ball_Un)
  then show ?thesis using d_inv_parts [OF assms(1)] q by (intro d_inv_change [OF assms(1)]) simp_all
qed

lemma outstanding_good: "d_inv I [] T X r d \<Longrightarrow> good (dp_sampler d) (gather samplings_of (outstanding d))"
  using d_inv_parts(5) [of I "[]" T X r d] links_good by simp

lemma advance_sampling_ok:
  assumes "d_inv I [] [] {} r d"
  shows "safe I (advance_sampling en d now)"
proof -
  consider (paused) "dp_sampling_paused d" | (closed) "\<not> dp_sampling_paused d" "sa_session (dp_sampler d) \<noteq> None" "en_output_closed en"
    | (go) "\<not> dp_sampling_paused d" "\<not> (sa_session (dp_sampler d) \<noteq> None \<and> en_output_closed en)" by blast
  then show ?thesis
  proof cases
    case paused
    then show ?thesis using assms by (intro safeI [OF _ assms]) (simp add: advance_sampling_def)
  next
    case closed
    obtain d' where "stop_sampling en d now = Some d'" "settled I [] [] {} r d d'" using stop_sampling_ok [OF assms] by blast
    then show ?thesis using closed by (intro safeI [of _ d' I r]) (auto simp: advance_sampling_def settled_def)
  next
    case go
    define n where "n = tm_max_pending (dp_transactions d) - reserve_for d - occupied d"
    have rt: "rt_inv (dp_routing d)" using d_inv_parts(2) [OF assms] .
    note g = outstanding_good [OF assms]
    obtain s ro where a: "advance_sampler (dp_sampler d) (dp_routing d) n now (en_fresh en) (en_slot en) (en_random en) = Some (s, ro)"
      "good s (case ro of None \<Rightarrow> gather samplings_of (outstanding d) | Some q \<Rightarrow> q # gather samplings_of (outstanding d))"
      using advance_ok [OF g rt] by blast
    show ?thesis
    proof (cases ro)
      case None
      have "d_inv I [] [] {} r (d\<lparr>dp_sampler := s\<rparr>)" using d_inv_sampler [OF assms, of s "[]"] a(2) None by simp
      then show ?thesis by (intro safeI [of _ "d\<lparr>dp_sampler := s\<rparr>" I r])
          (use go a(1) None in \<open>auto simp: advance_sampling_def n_def Let_def\<close>)
    next
      case (Some q)
      have id: "id_ok (rq_id q)" using good_head_id [of s q] advance_session [OF g rt] a Some by auto
      let ?d = "d\<lparr>dp_sampler := s\<rparr>"
      have "d_inv I [PSampling q] [] {} r ?d" using d_inv_sampler [OF assms, of s "[PSampling q]"] a(2) Some by simp
      then have i: "d_inv I [PSampling q] [] {} (Suc 0) ?d" using d_inv_any by blast
      have "target_ok \<lparr>rn_address = dn_address (rq_node q), rn_expected_id = Some (rq_id q)\<rparr>" using id by (simp add: target_ok_def)
      from start_query_ok [OF i this, of en "if rq_kind q = FindNodeFallback then FindNode else SampleInfohashes" "Some (rq_target q)" now]
      obtain d' where "start_query en ?d \<lparr>rn_address = dn_address (rq_node q), rn_expected_id = Some (rq_id q)\<rparr>
          (if rq_kind q = FindNodeFallback then FindNode else SampleInfohashes) (Some (rq_target q)) (PSampling q) now = Some d'"
        "d_inv I [] [] {} 0 d'" by (auto simp: has_permit_def)
      then show ?thesis by (intro safeI [of _ d' I 0])
          (use go a(1) Some in \<open>auto simp: advance_sampling_def n_def Let_def\<close>)
    qed
  qed
qed

section \<open>Commands\<close>

text \<open>A caller asks, and its query is in hand, or it is answered at once.\<close>

lemma d_inv_asked:
  assumes "d_inv I P T X r d" and "p = PFetch c \<or> p = PUserPing c"
  shows "d_inv (add_mset c I) (p # P) T X r d"
proof -
  have l: "links ((p # P) @ outstanding d) d" using d_inv_parts(5) [OF assms(1)] assms(2) by (auto simp: links_inert)
  have "permits ((p # P) @ outstanding d) = permits (P @ outstanding d)" using assms(2) by (auto simp: has_permit_def)
  then show ?thesis using assms l by (auto simp: d_inv_def)
qed

lemma d_inv_answer: "d_inv I P T X r d \<Longrightarrow> d_inv (add_mset c I) P T X r (answer d c y)"
  by (simp add: d_inv_def answer_def maps_ok_def occupied_def links_def outstanding_def)

lemma d_inv_settings [simp]:
  "d_inv I P T X r (d\<lparr>dp_fetch_ingress := x\<rparr>) = d_inv I P T X r d"
  "d_inv I P T X r (d\<lparr>dp_sampling_paused := b\<rparr>) = d_inv I P T X r d"
  by (simp_all add: d_inv_def maps_ok_def occupied_def links_def outstanding_def)

lemma settled_sampler_fault:
  "d_inv I [] [] {} r d \<Longrightarrow> d_inv I [] [] {} r (sampler_fault en d e)"
  using d_inv_sampler [of I "[]" "[]" "{}" r d _ "[]"] outstanding_good good_fault by (simp add: sampler_fault_def)

fun command_ok :: "dispatcher \<Rightarrow> command \<Rightarrow> bool" where
  "command_ok d (CGetPeers remote _) = target_ok remote"
| "command_ok d (CBootstrapPing remote) = target_ok remote"
| "command_ok d (CStartSampling _) = generation_free (dp_sampler d)"
| "command_ok d _ = True"

lemma handle_command_ok:
  assumes "d_inv I [] [] {} r d" and "command_ok d cmd"
  shows "safe (add_mset c I) (handle_command en d c cmd now)"
proof -
  have reply: "safe (add_mset c I) (Some (answer d' c y))" if "d_inv I [] [] {} s d'" for d' s y
    using d_inv_answer [OF that] by (rule safeI [OF refl])
  obtain st where st: "stop_sampling en d now = Some st" "d_inv I [] [] {} r st"
    using stop_sampling_ok [OF assms(1)] by (auto simp: settled_def)
  have ask: "d_inv (add_mset c I) [p] [] {} (Suc 0) d" if "p = PFetch c \<or> p = PUserPing c" for p
    using d_inv_asked [OF assms(1) that] d_inv_any by blast
  show ?thesis
  proof (cases cmd)
    case (CGetPeers remote h)
    have "\<exists>d'. start_rpc en d remote (OutGetPeers h) (PFetch c) now = Some d' \<and> d_inv (add_mset c I) [] [] {} 0 d'"
      using start_rpc_ok [OF ask, of "PFetch c" remote en "OutGetPeers h" now] assms(2) CGetPeers by (auto simp: has_permit_def)
    then have "safe (add_mset c I) (start_rpc en d remote (OutGetPeers h) (PFetch c) now)" by (auto simp: safe_def)
    moreover have "d_inv I [] [] {} r (note_limited d (PFetch c))" using assms(1) by simp
    ultimately show ?thesis using CGetPeers reply [OF assms(1)] reply by (simp add: handle_command_def)
  next
    case (CBootstrapPing remote)
    have "\<exists>d'. start_query en d remote Ping None (PUserPing c) now = Some d' \<and> d_inv (add_mset c I) [] [] {} 0 d'"
      using start_query_ok [OF ask, of "PUserPing c" remote en Ping None now] assms(2) CBootstrapPing by (auto simp: has_permit_def)
    then have "safe (add_mset c I) (start_query en d remote Ping None (PUserPing c) now)" by (auto simp: safe_def)
    then show ?thesis using CBootstrapPing reply [OF assms(1)] by (simp add: handle_command_def)
  next
    case (CFetchSeeds h)
    then show ?thesis using reply [OF assms(1)] by (simp add: handle_command_def)
  next
    case (CFetchIngress fi)
    then show ?thesis using reply [of r "d\<lparr>dp_fetch_ingress := fi\<rparr>"] assms(1) by (simp add: handle_command_def)
  next
    case (CSamplingPause b)
    have i: "d_inv I [] [] {} r (d\<lparr>dp_sampling_paused := b\<rparr>)" using assms(1) by simp
    obtain d' where "discard_queued_sampling en (d\<lparr>dp_sampling_paused := b\<rparr>) now = Some d'" "d_inv I [] [] {} r d'"
      using discard_ok [OF i] by (auto simp: settled_def)
    then show ?thesis using CSamplingPause reply i by (cases b) (simp_all add: handle_command_def Let_def)
  next
    case CRoutingSnapshot
    then show ?thesis using reply [OF assms(1)] by (simp add: handle_command_def)
  next
    case (CStoragePause e)
    then show ?thesis using st reply [OF settled_sampler_fault [OF st(2)]] by (simp add: handle_command_def)
  next
    case (CStartSampling cfg)
    define n where "n = tm_max_pending (dp_transactions d) - reserve_for d + 1"
    obtain s res where s: "sampler_start (en_max_permits en) (dp_sampler d) cfg n now (en_random en) = (s, res)" by fastforce
    have "good (fst (sampler_start (en_max_permits en) (dp_sampler d) cfg n now (en_random en))) (gather samplings_of (outstanding d))"
      using outstanding_good [OF assms(1)] assms(2) CStartSampling by (intro start_ok) (auto simp: generation_free_def)
    then have "d_inv I [] [] {} r (d\<lparr>dp_sampler := s\<rparr>)" using d_inv_sampler [OF assms(1), of s "[]"] s by simp
    from reply [OF this] show ?thesis using CStartSampling s by (simp add: handle_command_def n_def Let_def)
  next
    case CStopSampling
    then show ?thesis using st reply [OF st(2)] by (simp add: handle_command_def)
  next
    case CStatus
    then show ?thesis using reply [OF assms(1)] by (simp add: handle_command_def)
  qed
qed

end
