(* ===== verification/DispatcherLoop.thy ===== *)
theory DispatcherLoop imports DispatcherCommands begin

text \<open>
  The end of all queries when the dispatcher closes or changes its identity, the change itself, the events and
  one iteration of the loop.
\<close>

section \<open>The end of all queries\<close>

lemma clear_queued_ok:
  "d_inv I P T X r d \<Longrightarrow> dp_queued d = qs \<Longrightarrow>
   \<exists>d'. clear_queued en e d qs = Some d' \<and> settled I P T X r d d' \<and> dp_queued d' = []"
proof (induction qs arbitrary: d)
  case Nil
  then show ?case by (simp add: settled_def)
next
  case (Cons q qs)
  let ?d = "d\<lparr>dp_queued := qs\<rparr>"
  have "dp_queued d = [] @ q # qs" using Cons.prems(2) by simp
  from d_inv_less [OF d_inv_dequeue(1) [OF Cons.prems(1) this], of r]
  have i: "d_inv I (qi_purpose q # P) (qi_record q # T) X r ?d" by simp
  obtain d1 where d1: "finish_start_error en ?d (qi_purpose q) e (en_fresh en) = Some d1" "d_inv I P (qi_record q # T) X r d1"
    "steady ?d d1" "dp_queued d1 = qs" "dp_identity_paused d1 = dp_identity_paused d"
    using start_error_ok [OF i, of en e "en_fresh en"] by auto
  obtain d2 where d2: "drop_ticket en d1 (qi_record q) = Some d2" "d_inv I P T X r d2" "steady d1 d2" "dp_queued d2 = qs"
    "dp_identity_paused d2 = dp_identity_paused d"
    using drop_ticket_step [OF d1(2), of en] d1(4,5) by auto
  have "steady d ?d" by (simp add: steady_def)
  then have st: "steady d d2" using d1(3) d2(3) steady_trans by blast
  obtain d3 where "clear_queued en e d2 qs = Some d3" "settled I P T X r d2 d3" "dp_queued d3 = []"
    using Cons.IH [OF d2(2,4)] by blast
  then show ?case using d1(1) d2(1) settled_trans [OF st d2(5)] by simp
qed

lemma start_error_pending: "finish_start_error en d p e now = Some d' \<Longrightarrow> dp_pending d' = dp_pending d"
  by (cases p) (auto simp: answer_def split: option.splits)

lemma clear_queued_pending: "clear_queued en e d qs = Some d' \<Longrightarrow> dp_pending d' = dp_pending d"
proof (induction qs arbitrary: d)
  case (Cons q qs)
  then show ?case
    by (auto simp: drop_ticket_def split: option.splits dest!: start_error_pending)
qed simp

text \<open>The loop over the pending queries, at once.\<close>

definition cleared :: "env \<Rightarrow> pending_purpose list \<Rightarrow> transaction_id set \<Rightarrow> dispatcher \<Rightarrow> dispatcher \<Rightarrow> bool" where
  "cleared en ps ks d d' \<longleftrightarrow> (\<exists>b rs. d' = d\<lparr>dp_budget := b,
     dp_transactions := (dp_transactions d)\<lparr>tm_pending := filter (\<lambda>x. fst x \<notin> ks) (tm_pending (dp_transactions d))\<rparr>,
     dp_sampler := fold (\<lambda>r s. cancel_request s r (en_fresh en) (en_fresh en)) (gather samplings_of ps) (dp_sampler d),
     dp_replies := dp_replies d @ rs\<rparr> \<and> same_gauges (dp_budget d) b \<and> mset (map fst rs) = mset (gather callers_of ps))"

lemma clear_one_cleared:
  assumes "budget_inv (dp_budget d)"
  shows "cleared en [pd_purpose p] {i} d (clear_one en e d (i, p))"
proof -
  have g: "same_gauges (dp_budget d) (inflight_cancelled (dp_budget d) c)" for c using assms by simp
  have t: "hm_remove i m = filter (\<lambda>x. fst x \<notin> {i}) m" for m :: "(transaction_id, pending_transaction) hmap"
    by (auto simp: hm_remove_def intro!: filter_cong)
  show ?thesis
    unfolding cleared_def
    by (rule exI [of _ "inflight_cancelled (dp_budget d) (purpose_class (pd_purpose p))"],
        rule exI [of _ "case pd_purpose p of PFetch c \<Rightarrow> [(c, RPeers (Inl e))] | PUserPing c \<Rightarrow> [(c, RPing (Inl e))] | _ \<Rightarrow> []"],
        cases "pd_purpose p") (simp_all add: clear_one_def Let_def cancel_def answer_def t g)
qed

lemma cleared_trans:
  assumes "cleared en ps ks a b" and "cleared en qs ls b c"
  shows "cleared en (ps @ qs) (ks \<union> ls) a c"
proof -
  obtain b1 r1 where 1: "b = a\<lparr>dp_budget := b1,
     dp_transactions := (dp_transactions a)\<lparr>tm_pending := filter (\<lambda>x. fst x \<notin> ks) (tm_pending (dp_transactions a))\<rparr>,
     dp_sampler := fold (\<lambda>r s. cancel_request s r (en_fresh en) (en_fresh en)) (gather samplings_of ps) (dp_sampler a),
     dp_replies := dp_replies a @ r1\<rparr>" "same_gauges (dp_budget a) b1" "mset (map fst r1) = mset (gather callers_of ps)"
    using assms(1) unfolding cleared_def by blast
  obtain b2 r2 where 2: "c = b\<lparr>dp_budget := b2,
     dp_transactions := (dp_transactions b)\<lparr>tm_pending := filter (\<lambda>x. fst x \<notin> ls) (tm_pending (dp_transactions b))\<rparr>,
     dp_sampler := fold (\<lambda>r s. cancel_request s r (en_fresh en) (en_fresh en)) (gather samplings_of qs) (dp_sampler b),
     dp_replies := dp_replies b @ r2\<rparr>" "same_gauges (dp_budget b) b2" "mset (map fst r2) = mset (gather callers_of qs)"
    using assms(2) unfolding cleared_def by blast
  have "same_gauges (dp_budget a) b2" using 1 2(2) same_trans by simp
  then show ?thesis unfolding cleared_def using 1 2
    by (intro exI [of _ b2] exI [of _ "r1 @ r2"]) simp
qed

lemma clear_fold:
  "budget_inv (dp_budget d) \<Longrightarrow> cleared en (map (\<lambda>x. pd_purpose (snd x)) es) (fst ` set es) d (foldl (clear_one en e) d es)"
proof (induction es arbitrary: d)
  case Nil
  have "d = d\<lparr>dp_budget := dp_budget d, dp_transactions := (dp_transactions d)\<lparr>tm_pending := filter (\<lambda>x. fst x \<notin> {}) (tm_pending (dp_transactions d))\<rparr>,
     dp_sampler := dp_sampler d, dp_replies := dp_replies d @ []\<rparr>" by (simp add: filter_True case_prod_beta')
  then show ?case unfolding cleared_def using Nil
    by (intro exI [of _ "dp_budget d"] exI [of _ "[]"]) (simp add: same_gauges_def)
next
  case (Cons x es)
  obtain i p where x: "x = (i, p)" by fastforce
  have one: "cleared en [pd_purpose p] {i} d (clear_one en e d (i, p))" using clear_one_cleared [OF Cons.prems] .
  then have "budget_inv (dp_budget (clear_one en e d (i, p)))" by (auto simp: cleared_def same_gauges_def)
  from cleared_trans [OF one Cons.IH [OF this]] show ?case by (simp add: x)
qed

lemma clear_queries_ok:
  assumes "d_inv I [] [] {} r d"
  shows "\<exists>d'. clear_queries en d rotating = Some d' \<and> draining (dp_sampler d') [] \<and>
    (gather samplings_of (outstanding d) = [] \<longrightarrow> good (dp_sampler d') []) \<and>
    dp_queued d' = [] \<and> dp_pending d' = [] \<and> dp_identity_paused d' = dp_identity_paused d \<and> mset (map fst (dp_replies d')) = I \<and>
    (\<forall>s. good s [] \<longrightarrow> d_inv I [] [] {} 0 (d'\<lparr>dp_identity_paused := True, dp_sampler := s\<rparr>))"
proof -
  define er where "er = (if rotating then IdentityChanged else ShuttingDown)"
  obtain d1 where d1: "clear_queued en er d (dp_queued d) = Some d1" "settled I [] [] {} r d d1" "dp_queued d1 = []"
    using clear_queued_ok [OF assms refl] by blast
  then have i: "d_inv I [] [] {} r d1" by (simp add: settled_def)
  define es where "es = dp_pending d1"
  define ps where "ps = map (\<lambda>x. pd_purpose (snd x)) es"
  have out: "outstanding d1 = ps" using d1(3) by (simp add: outstanding_def hm_values_def es_def ps_def comp_def)
  define d2 where "d2 = foldl (clear_one en er) (d1\<lparr>dp_pending := []\<rparr>) es"
  have "cleared en ps (fst ` set es) (d1\<lparr>dp_pending := []\<rparr>) d2"
    unfolding d2_def ps_def by (rule clear_fold) (use d_inv_budget_inv [OF i] in simp)
  then obtain b rs where d2: "d2 = d1\<lparr>dp_pending := [], dp_budget := b,
     dp_transactions := (dp_transactions d1)\<lparr>tm_pending := filter (\<lambda>x. fst x \<notin> fst ` set es) (tm_pending (dp_transactions d1))\<rparr>,
     dp_sampler := fold (\<lambda>r s. cancel_request s r (en_fresh en) (en_fresh en)) (gather samplings_of ps) (dp_sampler d1),
     dp_replies := dp_replies d1 @ rs\<rparr>" "same_gauges (dp_budget d1) b" "mset (map fst rs) = mset (gather callers_of ps)"
    unfolding cleared_def by auto
  have m: "maps_ok {} d1" using d_inv_parts(1) [OF i] .
  then have "fst ` set es = fst ` set (tm_pending (dp_transactions d1))" by (simp add: maps_ok_def es_def)
  then have empty: "filter (\<lambda>x. fst x \<notin> fst ` set es) (tm_pending (dp_transactions d1)) = []"
    by (force simp: filter_empty_conv)
  define d' where "d' = d2\<lparr>dp_queue_deadline := None, dp_verifications := {}, dp_bucket_probes := {},
    dp_maintenance := maintenance_clear (dp_maintenance d2)\<rparr>"
  have e: "clear_queries en d rotating = Some d'"
    using d1(1) by (simp add: clear_queries_def er_def [symmetric] Let_def d2_def es_def d'_def)
  have g1: "good (dp_sampler d1) (gather samplings_of ps)" using outstanding_good [OF i] by (simp add: out)
  have dr: "draining (dp_sampler d') []" unfolding d'_def d2(1) using fold_cancel [OF good_draining [OF g1]] by simp
  have gd: "gather samplings_of ps = [] \<longrightarrow> good (dp_sampler d') []" using g1 by (auto simp: d'_def d2(1))
  have replies: "mset (map fst (dp_replies d')) = I" using i d2(3) by (simp add: d_inv_def out d'_def d2(1))
  have all: "d_inv I [] [] {} 0 (d'\<lparr>dp_identity_paused := True, dp_sampler := s\<rparr>)" if g: "good s []" for s
  proof -
    let ?d = "d'\<lparr>dp_identity_paused := True, dp_sampler := s\<rparr>"
    have o: "outstanding ?d = []" using d1(3) by (simp add: outstanding_def d'_def d2(1) hm_values_def)
    have "tm_inv ((dp_transactions d1)\<lparr>tm_pending := []\<rparr>)" by (simp add: tm_inv_def pending_ok_def)
    then have "maps_ok {} ?d"
      using d1(3) by (simp add: maps_ok_def d'_def d2(1) empty occupied_def hm_values_def)
    moreover have "budget_held b [] 0"
      using held_less [OF held_same [OF d_inv_parts(6) [OF i] d2(2)], of 0] d1(3) by simp
    moreover have "links [] ?d"
    proof -
      have "links ps d1" using d_inv_parts(5) [OF i] by (simp add: out)
      then have "distinct (map sv_id (rc_queued (dp_recovery d1)))" by (simp add: links_def)
      then show ?thesis using g by (simp add: links_def d'_def d2(1) lookup_links_def maintenance_clear_def)
    qed
    moreover have "mset (map fst (dp_replies ?d)) = I" using replies by simp
    ultimately show ?thesis using d_inv_parts(2-4) [OF i] d1(3)
      by (simp add: d_inv_def o) (simp add: d'_def d2(1))
  qed
  have keep: "gather samplings_of (outstanding d) = [] \<longrightarrow> gather samplings_of ps = []"
    using clear_queued_pending [OF d1(1)] by (simp add: outstanding_def hm_values_def es_def ps_def comp_def)
  show ?thesis
    by (intro exI [of _ d'] conjI)
      (use e dr gd keep d1 all replies in \<open>simp_all add: d'_def d2(1) settled_def\<close>)
qed


section \<open>The change of identity\<close>

definition saved_ok :: "(node_id, saved_contact) hmap \<Rightarrow> bool" where
  "saved_ok m \<longleftrightarrow> hm_ok m \<and> (\<forall>(i, c)\<in>set m. sv_id c = i \<and> id_ok i)"

lemma saved_ok_fold: "saved_ok m \<Longrightarrow> \<forall>c\<in>set cs. id_ok (sv_id c) \<Longrightarrow> saved_ok (fold (\<lambda>c m. hm_put (sv_id c) c m) cs m)"
proof (induction cs arbitrary: m)
  case (Cons c cs)
  have "saved_ok (hm_put (sv_id c) c m)" using Cons.prems hm_set_put [of m "sv_id c" c] by (auto simp: saved_ok_def)
  then show ?case using Cons by simp
qed simp

lemma collect_members: "collect_results f xs = Inr ys \<Longrightarrow> y \<in> set ys \<Longrightarrow> \<exists>x\<in>set xs. f x = Inr y"
  by (induction xs arbitrary: ys) auto

lemma snapshot_ids:
  assumes "rt_inv rt" and "routing_snapshot rt now wall = Inr cs" and "c \<in> set cs"
  shows "id_ok (sv_id c)"
proof -
  obtain n where n: "n \<in> set (table_contacts rt)" "saved_of now wall n = Inr c"
    using collect_members [OF assms(2) [unfolded routing_snapshot_def] assms(3)] by auto
  have "sv_id c = nc_id n" using n(2) by (auto simp: saved_of_def split: if_splits option.splits sum.splits)
  then show ?thesis using table_contact_ok [OF assms(1) n(1)] by (simp add: contact_ok_def)
qed

lemma saved_contacts_ok:
  assumes "rt_inv (dp_routing d)" and "recovery_ok (dp_recovery d)" and "saved_contacts d now = Inr cs"
  shows "distinct (map sv_id cs)" "\<forall>c\<in>set cs. id_ok (sv_id c)"
proof -
  define old where "old = fold (\<lambda>c m. hm_put (sv_id c) c m) (rc_queued (dp_recovery d) @ hm_values (rc_active (dp_recovery d))) []"
  have old: "saved_ok old" unfolding old_def
    using assms(2) by (intro saved_ok_fold) (auto simp: recovery_ok_def saved_ok_def)
  obtain wall new where w: "routing_snapshot (dp_routing d) now wall = Inr new"
    and cs: "cs = take 2048 (sort_key (\<lambda>c. (- sv_responded_at c, id_bytes (sv_id c)))
            (hm_values (fold (\<lambda>c m. hm_put (sv_id c) c m) new old)))"
    using assms(3) by (auto simp: saved_contacts_def old_def Let_def split: sum.splits)
  have m: "saved_ok (fold (\<lambda>c m. hm_put (sv_id c) c m) new old)" (is "saved_ok ?m")
    using snapshot_ids [OF assms(1) w] by (intro saved_ok_fold [OF old]) simp
  then have "map sv_id (hm_values ?m) = map fst ?m" by (auto simp: hm_values_def saved_ok_def)
  then have d: "distinct (map sv_id (hm_values ?m))" using m by (simp add: saved_ok_def hm_ok_def)
  have "distinct (map sv_id (sort_key k (hm_values ?m)))" for k :: "saved_contact \<Rightarrow> int \<times> bytes"
    using d by (simp add: distinct_map)
  then show "distinct (map sv_id cs)" unfolding cs by (simp add: take_map [symmetric] distinct_take)
  have "set cs \<subseteq> set (hm_values ?m)" unfolding cs using set_take_subset by fastforce
  then show "\<forall>c\<in>set cs. id_ok (sv_id c)" using m by (fastforce simp: saved_ok_def hm_values_def)
qed

text \<open>
  A rotation that is due needs results of the database that end its wait, a new identifier of 20 bytes, and
  a generation number that no reservation in progress carries.
\<close>

definition rotation_ok :: "env \<Rightarrow> dispatcher \<Rightarrow> (storage_result \<times> instant) list \<Rightarrow> storage_error + local_identity \<Rightarrow> instant \<Rightarrow> bool" where
  "rotation_ok en d evs bound now \<longleftrightarrow>
     (case bound of Inl _ \<Rightarrow> True | Inr i \<Rightarrow> id_ok (li_node_id i)) \<and>
     (dp_pending_external_ip d \<noteq> None \<and> dp_identity_store d \<noteq> None \<longrightarrow>
       (case cancel_for_identity en (d\<lparr>dp_pending_external_ip := None, dp_identity_paused := True\<rparr>) of
          None \<Rightarrow> True
        | Some d' \<Rightarrow> generation_free (dp_sampler d') \<and> prepare_identity_change (dp_sampler d') evs now (en_random en) \<noteq> None))"

lemma d_inv_external [simp]:
  "d_inv I P T X r (d\<lparr>dp_pending_external_ip := x\<rparr>) = d_inv I P T X r d"
  "d_inv I P T X r (d\<lparr>dp_identity_store := y\<rparr>) = d_inv I P T X r d"
  "d_inv I P T X r (d\<lparr>dp_security := z\<rparr>) = d_inv I P T X r d"
  by (simp_all add: d_inv_def maps_ok_def occupied_def links_def outstanding_def)

lemma d_inv_paused: "d_inv I P T X r d \<Longrightarrow> d_inv I P T X r (d\<lparr>dp_identity_paused := True\<rparr>)"
  by (simp add: d_inv_def maps_ok_def occupied_def links_def outstanding_def)

lemma rotate_identity_ok:
  assumes "d_inv I [] [] {} r d" and "rotation_ok en d evs bound now"
  shows "safe I (rotate_identity en d evs bound now)"
proof (cases "dp_pending_external_ip d = None \<or> dp_identity_store d = None")
  case True
  then have "rotate_identity en d evs bound now = Some d \<or> rotate_identity en d evs bound now = Some (d\<lparr>dp_pending_external_ip := None\<rparr>)"
    by (auto simp: rotate_identity_def Let_def split: option.split)
  then show ?thesis using assms(1) by (auto intro: safeI)
next
  case False
  then obtain ip st where f: "dp_pending_external_ip d = Some ip" "dp_identity_store d = Some st" by auto
  let ?d = "d\<lparr>dp_pending_external_ip := None\<rparr>"
  have i0: "d_inv I [] [] {} r ?d" using assms(1) by simp
  show ?thesis
  proof (cases "saved_contacts ?d (en_fresh en)")
    case (Inl e)
    then show ?thesis using f settled_sampler_fault [OF i0] by (intro safeI) (auto simp: rotate_identity_def Let_def)
  next
    case (Inr cs)
    have cs: "distinct (map sv_id cs)" "\<forall>c\<in>set cs. id_ok (sv_id c)"
      using saved_contacts_ok [OF _ _ Inr] d_inv_parts(2,4) [OF i0] by blast+
    have i1: "d_inv I [] [] {} r (?d\<lparr>dp_identity_paused := True\<rparr>)" using d_inv_paused [OF i0] .
    obtain d' where d': "cancel_for_identity en (?d\<lparr>dp_identity_paused := True\<rparr>) = Some d'" "draining (dp_sampler d') []"
      "dp_queued d' = []" "dp_pending d' = []" "dp_identity_paused d' = True"
      "\<forall>s. good s [] \<longrightarrow> d_inv I [] [] {} 0 (d'\<lparr>dp_identity_paused := True, dp_sampler := s\<rparr>)"
      using clear_queries_ok [OF i1, of en True] by (auto simp: cancel_for_identity_def)
    have gf: "generation_free (dp_sampler d')" and pr: "prepare_identity_change (dp_sampler d') evs now (en_random en) \<noteq> None"
      using assms(2) f d'(1) by (simp_all add: rotation_ok_def)
    obtain v res where v: "prepare_identity_change (dp_sampler d') evs now (en_random en) = Some (v, res)" using pr by auto
    have "reserving_of (dp_sampler d') = Some q \<Longrightarrow> rq_generation q \<noteq> sa_generation (dp_sampler d') + 1" for q
      using gf by (simp add: generation_free_def)
    note ok = prepare_ok [OF d'(2) this v, of "en_fresh en"]
    have "d'\<lparr>dp_identity_paused := dp_identity_paused d'\<rparr> = d'" by simp
    then have same: "d'\<lparr>dp_identity_paused := True\<rparr> = d'" by (simp only: d'(5))
    have all: "d_inv I [] [] {} 0 (d'\<lparr>dp_sampler := s\<rparr>)" if "good s []" for s
      using d'(6) that unfolding same by blast
    show ?thesis
    proof (cases res)
      case (Inl e)
      have "rotate_identity en d evs bound now = Some (sampler_fault en (d'\<lparr>dp_sampler := v\<rparr>) e)"
        using f Inr d'(1) v Inl by (simp add: rotate_identity_def Let_def)
      moreover have "sampler_fault en (d'\<lparr>dp_sampler := v\<rparr>) e = d'\<lparr>dp_sampler := mark_storage_fault v e (en_fresh en)\<rparr>"
        by (simp add: sampler_fault_def)
      ultimately show ?thesis using all ok Inl by (auto intro: safeI)
    next
      case prepared: (Inr u)
      then have gv: "good v []" using ok by simp
      show ?thesis
      proof (cases bound)
        case (Inl e)
        have "rotate_identity en d evs bound now = Some (d'\<lparr>dp_sampler := mark_storage_fault v e (en_fresh en)\<rparr>)"
          using f Inr d'(1) v prepared Inl by (simp add: rotate_identity_def Let_def sampler_fault_def)
        then show ?thesis using all [OF good_fault [OF gv]] by (auto intro: safeI)
      next
        case bound: (Inr identity)
        let ?e = "d'\<lparr>dp_identity_store := Some identity, dp_sampler := identity_changed v identity,
          dp_routing := new_table (li_node_id identity) (li_family identity) now,
          dp_recovery := \<lparr>rc_queued = cs, rc_active = [], rc_next = Some now\<rparr>,
          dp_maintenance := maintenance_new (ms_config (dp_maintenance d')) now,
          dp_security := committed (dp_security d') ip now, dp_identity_paused := False\<rparr>"
        have "rotate_identity en d evs bound now = Some ?e"
          using f Inr d'(1) v prepared bound by (simp add: rotate_identity_def Let_def)
        moreover have "d_inv I [] [] {} 0 ?e"
        proof -
          have b: "d_inv I [] [] {} 0 (d'\<lparr>dp_sampler := identity_changed v identity\<rparr>)" using all [OF good_identity [OF gv]] .
          have rt: "rt_inv (new_table (li_node_id identity) (li_family identity) now)"
            using assms(2) bound by (intro rt_inv_new) (simp add: rotation_ok_def)
          have rc: "recovery_ok \<lparr>rc_queued = cs, rc_active = [], rc_next = Some now\<rparr>"
            using cs(2) by (simp add: recovery_ok_def hm_values_def)
          have o: "outstanding ?e = []" "outstanding (d'\<lparr>dp_sampler := identity_changed v identity\<rparr>) = []"
            using d'(3,4) by (simp_all add: outstanding_def hm_values_def)
          have "links [] (d'\<lparr>dp_sampler := identity_changed v identity\<rparr>)" using d_inv_parts(5) [OF b] o by simp
          then have "links [] ?e" using cs(1) by (simp add: links_def lookup_links_def maintenance_new_def)
          then show ?thesis using b rt rc o by (simp add: d_inv_def) (simp add: maps_ok_def occupied_def)
        qed
        ultimately show ?thesis by (rule safeI)
      qed
    qed
  qed
qed


section \<open>The events\<close>

text \<open>The place of the sampler in the invariant when no query of the sampler is outstanding or moves.\<close>

lemma sampler_step:
  assumes "d_inv I [] [] {} r d"
    and "good (dp_sampler d) (gather samplings_of (outstanding d)) \<Longrightarrow> good s (gather samplings_of (outstanding d))"
  shows "d_inv I [] [] {} r (d\<lparr>dp_sampler := s\<rparr>)"
  using d_inv_sampler [of I "[]" "[]" "{}" r d s "[]"] assms outstanding_good [OF assms(1)] by simp

definition ended :: "nat multiset \<Rightarrow> dispatcher \<Rightarrow> bool" where
  "ended I d \<longleftrightarrow> dp_queued d = [] \<and> dp_pending d = [] \<and> mset (map fst (dp_replies d)) = I"

lemma close_pending_ok:
  assumes "d_inv I [] [] {} r d"
  shows "\<exists>d'. close_pending en d = Some d' \<and> ended I d'"
proof -
  obtain d1 where d1: "stop_sampling en d (en_fresh en) = Some d1" "d_inv I [] [] {} r d1"
    using stop_sampling_ok [OF assms] by (auto simp: settled_def)
  show ?thesis using clear_queries_ok [OF d1(2), of en False] d1(1) by (auto simp: close_pending_def ended_def)
qed

fun flow_ok :: "nat multiset \<Rightarrow> flow \<Rightarrow> bool" where
  "flow_ok I (Running d) \<longleftrightarrow> d_inv I [] [] {} 0 d"
| "flow_ok I (Stopped d e) \<longleftrightarrow> ended I d"

text \<open>The callers that an event brings, and what is asked of its surroundings.\<close>

fun event_callers :: "event \<Rightarrow> nat multiset" where
  "event_callers (ECommand c _) = {#c#}"
| "event_callers (EShutdown c) = {#c#}"
| "event_callers _ = {#}"

fun event_fits :: "env \<Rightarrow> dispatcher \<Rightarrow> event \<Rightarrow> bool" where
  "event_fits en d (EDatagram _) \<longleftrightarrow> reader_ok (en_reader en) \<and> parser_ok en"
| "event_fits en d (ECommand _ cmd) \<longleftrightarrow> command_ok d cmd"
| "event_fits en d EExpire \<longleftrightarrow> expiry_clear d (en_fresh en)"
| "event_fits en d _ \<longleftrightarrow> True"

definition flows :: "nat multiset \<Rightarrow> flow option \<Rightarrow> bool" where
  "flows I x \<longleftrightarrow> (case x of None \<Rightarrow> False | Some f \<Rightarrow> flow_ok I f)"

lemma running_flows: "safe I x \<Longrightarrow> flows I (running x)"
  by (auto simp: flows_def running_def safe_def)

lemma stopped_flows:
  assumes "d_inv I [] [] {} r d"
  shows "flows I (map_option (\<lambda>d. Stopped d e) (close_pending en d))"
    "flows (add_mset c I) (map_option (\<lambda>d. Stopped (answer d c RDone) e) (close_pending en d))"
  using close_pending_ok [OF assms, of en] by (auto simp: flows_def ended_def answer_def)

lemma handle_event_ok:
  assumes "d_inv I [] [] {} r d" and "event_fits en d ev"
  shows "flows (event_callers ev + I) (handle_event en d ev)"
proof (cases ev)
  case ECancelled
  show ?thesis using running_flows [OF keeps_safe [OF cancel_fetch_queries_ok [OF assms(1)]]]
    by (simp add: ECancelled handle_event_def)
next
  case EDeadline
  show ?thesis using running_flows [OF safeI [OF refl assms(1)]] by (simp add: EDeadline handle_event_def)
next
  case (EStorage result)
  have "d_inv I [] [] {} r (d\<lparr>dp_sampler := storage_event (dp_sampler d) result (en_fresh en)\<rparr>)"
    by (rule sampler_step [OF assms(1)]) (rule event_ok)
  from running_flows [OF safeI [OF refl this]] show ?thesis by (simp add: EStorage handle_event_def)
next
  case (EPermit got)
  have "d_inv I [] [] {} r (d\<lparr>dp_sampler := accept_permit (dp_sampler d)\<rparr>)"
    by (rule sampler_step [OF assms(1)]) (rule inv_accept)
  moreover have "safe I (stop_sampling en d (en_fresh en))"
    using stop_sampling_ok [OF assms(1), of en "en_fresh en"] by (auto simp: settled_def intro: safeI)
  ultimately show ?thesis using running_flows safeI [OF refl] by (simp add: EPermit handle_event_def)
next
  case (EDatagram dg)
  have "keeps_state I d (handle_datagram en d dg (en_fresh en))"
    using assms(2) by (intro handle_datagram_ok [OF assms(1)]) (simp_all add: EDatagram)
  from running_flows [OF keeps_safe [OF this]] show ?thesis by (simp add: EDatagram handle_event_def)
next
  case (ETransportError e)
  have "flows I (running (Some d))" using running_flows [OF safeI [OF refl assms(1)]] .
  then show ?thesis using stopped_flows(1) [OF assms(1)]
    by (auto simp: ETransportError handle_event_def split: udp_error.split option.split)
next
  case (ECommand c cmd)
  have "safe (add_mset c I) (handle_command en d c cmd (en_fresh en))"
    using assms(2) by (intro handle_command_ok [OF assms(1)]) (simp add: ECommand)
  from running_flows [OF this] show ?thesis by (simp add: ECommand handle_event_def)
next
  case (EShutdown c)
  show ?thesis using stopped_flows(2) [OF assms(1)] by (simp add: EShutdown handle_event_def)
next
  case ECommandsClosed
  show ?thesis using stopped_flows(1) [OF assms(1)] by (simp add: ECommandsClosed handle_event_def)
next
  case EExpire
  have "keeps_state I d (expire_pending en d (en_fresh en))"
    using assms(2) by (intro expire_pending_ok [OF assms(1)]) (simp add: EExpire)
  from running_flows [OF keeps_safe [OF this]] show ?thesis by (simp add: EExpire handle_event_def)
next
  case EPeersExpire
  have i: "ps_inv (dp_peers d)" using d_inv_parts(3) [OF assms(1)] .
  then obtain ps where ps: "ps_expire (dp_peers d) (en_fresh en) 256 = Some ps" "shrinks (dp_peers d) ps"
    using expire_effect_peers [of "dp_peers d" "en_fresh en" 256] by (auto simp: ps_inv_def)
  have "d_inv I [] [] {} r (d\<lparr>dp_peers := ps\<rparr>)"
    using shrinks_sizes [OF i ps(2)] assms(1) by (simp add: d_inv_def maps_ok_def occupied_def links_def outstanding_def)
  from running_flows [OF safeI [OF refl this]] show ?thesis by (simp add: EPeersExpire handle_event_def ps(1))
qed

section \<open>One iteration\<close>

lemma safe_stages:
  "safe I x \<Longrightarrow> (\<forall>f\<in>set fs. \<forall>d. d_inv I [] [] {} 0 d \<longrightarrow> safe I (f d)) \<Longrightarrow> safe I (case x of None \<Rightarrow> None | Some d \<Rightarrow> stages fs d)"
proof (induction fs arbitrary: x)
  case Nil
  then show ?case by (auto simp: safe_def)
next
  case (Cons f fs)
  then obtain d where d: "x = Some d" "d_inv I [] [] {} 0 d" by (auto simp: safe_def)
  then have "safe I (f d)" using Cons.prems(2) by simp
  from Cons.IH [OF this] Cons.prems(2) show ?case by (simp add: d(1))
qed

lemma advance_outbound_safe: "d_inv I [] [] {} r d \<Longrightarrow> safe I (advance_outbound en d now)"
  using advance_outbound_ok [of I "[]" "[]" "{}" r d en now] by (auto intro: safeI)

definition iteration_ok :: "(nat \<Rightarrow> env) \<Rightarrow> dispatcher \<Rightarrow> event \<Rightarrow> (storage_result \<times> instant) list
    \<Rightarrow> storage_error + local_identity \<Rightarrow> bool" where
  "iteration_ok en d ev evs bound \<longleftrightarrow> event_fits (en 0) d ev \<and> id_ok (en_random (en 3)) \<and>
     (case handle_event (en 0) d ev of
        Some (Running d') \<Rightarrow> rotation_ok (en 1) d' evs bound (en_fresh (en 1))
      | _ \<Rightarrow> True)"

lemma loop_iteration_ok:
  assumes "d_inv I [] [] {} r d" and "iteration_ok en d ev evs bound"
  shows "flows (event_callers ev + I) (loop_iteration en d ev evs bound)"
proof -
  let ?I = "event_callers ev + I"
  have fits: "event_fits (en 0) d ev" and rnd: "id_ok (en_random (en 3))" using assms(2) by (simp_all add: iteration_ok_def)
  obtain f where f: "handle_event (en 0) d ev = Some f" "flow_ok ?I f"
    using handle_event_ok [OF assms(1) fits] by (auto simp: flows_def split: option.splits)
  show ?thesis
  proof (cases f)
    case (Stopped d1 e)
    then show ?thesis using f by (simp add: loop_iteration_def flows_def)
  next
    case (Running d1)
    have r: "rotation_ok (en 1) d1 evs bound (en_fresh (en 1))" using assms(2) f(1) Running by (simp add: iteration_ok_def)
    have i: "d_inv ?I [] [] {} 0 d1" using f(2) Running by simp
    obtain d2 where d2: "rotate_identity (en 1) d1 evs bound (en_fresh (en 1)) = Some d2" "d_inv ?I [] [] {} 0 d2"
      using rotate_identity_ok [OF i r] by (auto simp: safe_def)
    have "safe ?I (case Some d2 of None \<Rightarrow> None | Some d \<Rightarrow> stages [\<lambda>d. advance_outbound (en 2) d (en_fresh (en 2)),
      \<lambda>d. advance_maintenance (en 3) d (en_fresh (en 3)), \<lambda>d. advance_recovery (en 4) d (en_fresh (en 4)),
      \<lambda>d. advance_sampling (en 5) d (en_fresh (en 5))] d)"
      by (rule safe_stages [OF safeI [OF refl d2(2)]])
        (use advance_outbound_safe advance_maintenance_ok [OF _ rnd] advance_recovery_ok advance_sampling_ok in auto)
    then show ?thesis using running_flows running_flows [OF safeI [OF refl d2(2)]] f(1) Running d2(1)
      by (simp add: loop_iteration_def running_def flows_def)
  qed
qed

end
