(* ===== verification/DispatcherProps.thy ===== *)
theory DispatcherProps imports DispatcherLoop begin

text \<open>
  Whole runs of the dispatcher's loop, from its creation to its end, and the properties of its components that
  are stated about the code alone.
\<close>

section \<open>Runs\<close>

text \<open>
  One turn of the loop: the surroundings of its stages, the event, the results of the database and the new
  identity that a rotation would receive, and the traffic budget, which the nodes of both address families
  share, as the other node leaves it. The state also has the callers that have asked so far. A loop that has
  ended takes no further event.
\<close>

record turn =
  tn_env :: "nat \<Rightarrow> env"
  tn_event :: event
  tn_results :: "(storage_result \<times> instant) list"
  tn_bound :: "storage_error + local_identity"
  tn_budget :: budget

fun turn_step :: "flow \<times> nat multiset \<Rightarrow> turn \<Rightarrow> (flow \<times> nat multiset) option" where
  "turn_step (Running d, I) t = map_option (\<lambda>f. (f, event_callers (tn_event t) + I))
     (loop_iteration (tn_env t) (d\<lparr>dp_budget := tn_budget t\<rparr>) (tn_event t) (tn_results t) (tn_bound t))"
| "turn_step (Stopped d e, I) t = Some (Stopped d e, I)"

fun turn_ok :: "flow \<times> nat multiset \<Rightarrow> turn \<Rightarrow> bool" where
  "turn_ok (Running d, I) t \<longleftrightarrow>
     budget_held (tn_budget t) (map qi_record (dp_queued d)) (permits (outstanding d)) \<and>
     iteration_ok (tn_env t) (d\<lparr>dp_budget := tn_budget t\<rparr>) (tn_event t) (tn_results t) (tn_bound t)"
| "turn_ok (Stopped _ _, _) _ \<longleftrightarrow> True"

definition run_ok :: "flow \<times> nat multiset \<Rightarrow> bool" where
  "run_ok x = (case x of (f, I) \<Rightarrow> flow_ok I f)"

interpretation turns: panic_free_ops turn_step run_ok turn_ok
proof unfold_locales
  fix s t
  assume i: "run_ok s" and a: "turn_ok s t"
  obtain f I where s: "s = (f, I)" by fastforce
  show "\<exists>u. turn_step s t = Some u \<and> run_ok u"
  proof (cases f)
    case (Running d)
    have "d_inv I [] [] {} 0 d" using i by (simp add: run_ok_def s Running)
    then have d: "d_inv I [] [] {} 0 (d\<lparr>dp_budget := tn_budget t\<rparr>)"
      using a by (simp add: s Running d_inv_def maps_ok_def occupied_def links_def outstanding_def)
    have "iteration_ok (tn_env t) (d\<lparr>dp_budget := tn_budget t\<rparr>) (tn_event t) (tn_results t) (tn_bound t)"
      using a by (simp add: s Running)
    from loop_iteration_ok [OF d this] show ?thesis
      by (auto simp: s Running run_ok_def flows_def split: option.splits)
  next
    case (Stopped d e)
    then show ?thesis using i by (simp add: s run_ok_def)
  qed
qed

lemma created_ok:
  assumes "with_budget tr local rt tm cfg b ck key now = Inr d" and "rt_inv rt" and "tm_inv tm" and "tm_pending tm = []"
    and "budget_inv b" and "length (bu_queued_current b) = 4"
  shows "d_inv {#} [] [] {} 0 d" "dp_sampler d = default_sampler" "dp_recovery d = \<lparr>rc_queued = [], rc_active = [], rc_next = None\<rparr>"
proof -
  have d: "ps_inv (dp_peers d)" "d = d\<lparr>dp_identity_paused := False, dp_budget := b, dp_queued := [], dp_routing := rt, dp_transactions := tm,
    dp_pending := [], dp_verifications := {}, dp_bucket_probes := {}, dp_sampler := default_sampler, dp_replies := [],
    dp_maintenance := maintenance_new (dc_maintenance cfg) now, dp_recovery := \<lparr>rc_queued = [], rc_active = [], rc_next = None\<rparr>\<rparr>"
    using assms(1) ps_new_inv by (auto simp: with_budget_def ps_inv_cfg_def split: if_splits sum.splits)
  show "dp_sampler d = default_sampler" "dp_recovery d = \<lparr>rc_queued = [], rc_active = [], rc_next = None\<rparr>"
    by (subst d(2), simp)+
  have "d_inv {#} [] [] {} 0 (d\<lparr>dp_identity_paused := False, dp_budget := b, dp_queued := [], dp_routing := rt, dp_transactions := tm,
    dp_pending := [], dp_verifications := {}, dp_bucket_probes := {}, dp_sampler := default_sampler, dp_replies := [],
    dp_maintenance := maintenance_new (dc_maintenance cfg) now, dp_recovery := \<lparr>rc_queued = [], rc_active = [], rc_next = None\<rparr>\<rparr>)"
    using assms(2-) d(1) good_default
    by (simp add: d_inv_def maps_ok_def outstanding_def occupied_def hm_values_def recovery_ok_def links_def
        lookup_links_def maintenance_new_def budget_held_def alive_def)
  then show "d_inv {#} [] [] {} 0 d" using d(2) by simp
qed

lemma keep_first: "set (keep_first_id cs seen) \<subseteq> set cs \<and> distinct (map sv_id (keep_first_id cs seen)) \<and>
    sv_id ` set (keep_first_id cs seen) \<inter> seen = {}"
  by (induction cs seen rule: keep_first_id.induct) auto

lemma attached_ok:
  assumes "d_inv {#} [] [] {} 0 d" and "dp_sampler d = default_sampler"
    and "dp_recovery d = \<lparr>rc_queued = [], rc_active = [], rc_next = None\<rparr>" and "outstanding d = []"
    and "attach_storage d ck identity contacts cooldowns policy now = (d', Inr ())" and "\<forall>c\<in>set contacts. id_ok (sv_id c)"
  shows "d_inv {#} [] [] {} 0 d'"
proof -
  define cs where "cs = keep_first_id (filter (\<lambda>c. sv_id c \<noteq> li_node_id identity \<and> family_accepts (li_family identity) (sv_address c)
    \<and> policy_accepts policy (sv_address c)) contacts) {}"
  obtain s where s: "attach_sampler_storage default_sampler ck identity cooldowns now = (s, Inr ())"
    and d': "d' = d\<lparr>dp_identity_store := Some identity, dp_sampler := s, dp_recovery := (dp_recovery d)\<lparr>rc_queued := cs, rc_next := Some now\<rparr>\<rparr>"
    using assms(5) by (auto simp: attach_storage_def Let_def assms(2) cs_def split: if_splits prod.splits sum.splits)
  have cs: "distinct (map sv_id cs)" "\<forall>c\<in>set cs. id_ok (sv_id c)"
    using keep_first assms(6) unfolding cs_def by fastforce+
  have o: "outstanding d' = []" using assms(4) by (simp add: d' outstanding_def)
  have "links [] d" using d_inv_parts(5) [OF assms(1)] assms(4) by simp
  then have "links [] d'" using good_attached [OF s] cs(1) assms(3) by (simp add: d' links_def)
  then show ?thesis using assms(1) cs(2) o assms(3,4)
    by (simp add: d_inv_def) (simp add: d' maps_ok_def occupied_def recovery_ok_def hm_values_def)
qed


text \<open>
  C1: from its creation, with or without an attached database, the loop never panics, whatever events
  arrive and in whatever order: datagrams of any content, storage results, permits, timer ticks, commands and
  the change of identity. While it runs, the pending queries are the pending transactions, queued and pending
  queries stay within \<open>max_pending\<close>, the sets of verifications and bucket probes are those of the outstanding
  queries, and every caller that has asked has either one reply or one outstanding query. When the loop has ended, nothing is
  outstanding and every caller has been answered exactly once.
\<close>

theorem dispatcher_runs_safe:
  assumes "with_budget tr local rt tm cfg b ck key now = Inr d0" and "rt_inv rt" and "tm_inv tm" and "tm_pending tm = []"
    and "budget_inv b" and "length (bu_queued_current b) = 4"
    and "d = d0 \<or> attach_storage d0 ck identity contacts cooldowns policy at = (d, Inr ()) \<and> (\<forall>c\<in>set contacts. id_ok (sv_id c))"
    and "ops_ok turn_step turn_ok (Running d, {#}) ts"
  shows "\<exists>f I. run_ops turn_step (Running d, {#}) ts = Some (f, I) \<and>
    (case f of
       Running e \<Rightarrow> fst ` set (dp_pending e) = fst ` set (tm_pending (dp_transactions e)) \<and>
         occupied e \<le> tm_max_pending (dp_transactions e) \<and>
         distinct (gather verifications_of (outstanding e)) \<and> set (gather verifications_of (outstanding e)) = dp_verifications e \<and>
         distinct (gather probes_of (outstanding e)) \<and> set (gather probes_of (outstanding e)) = dp_bucket_probes e \<and>
         mset (map fst (dp_replies e)) + mset (gather callers_of (outstanding e)) = I
     | Stopped e _ \<Rightarrow> dp_queued e = [] \<and> dp_pending e = [] \<and> mset (map fst (dp_replies e)) = I)"
proof -
  note c = created_ok [OF assms(1-6)]
  have "outstanding d0 = []"
    using assms(1) by (auto simp: with_budget_def outstanding_def hm_values_def split: if_splits sum.splits)
  from attached_ok [OF c this] have "d_inv {#} [] [] {} 0 d" using assms(7) c(1) by blast
  then have "run_ok (Running d, {#})" by (simp add: run_ok_def)
  from turns.safe_run [OF this assms(8)] obtain f I where
    r: "run_ops turn_step (Running d, {#}) ts = Some (f, I)" and ok: "flow_ok I f" by (auto simp: run_ok_def)
  show ?thesis
    by (rule exI [of _ f], rule exI [of _ I]) (use r ok in \<open>cases f, auto simp: d_inv_def maps_ok_def links_def ended_def\<close>)
qed


text \<open>A first dispatcher, and surroundings in which nothing is heard.\<close>

definition quiet_env :: "instant \<Rightarrow> env" where
  "quiet_env now = \<lparr>en_encode = (\<lambda>_. Inr [0]), en_socket = (\<lambda>_ b. Inr (length b)), en_reader = (\<lambda>_. None),
     en_describe = (\<lambda>_. ''none''), en_parse = (\<lambda>_. Inl ''none''), en_gcra = (\<lambda>_ _ _ _. Granted 0), en_gone = (\<lambda>_. False),
     en_fresh = now, en_system_now = 0, en_mac = (\<lambda>_ _. []), en_key = Inr [], en_text = (\<lambda>_. []),
     en_random = NodeId (replicate 20 7), en_pick_peers = (\<lambda>xs n. take n xs), en_pick_hashes = (\<lambda>xs n. take n xs),
     en_shuffle = (\<lambda>xs. xs), en_output_closed = False, en_slot = True, en_max_permits = 1000,
     en_ingress_paused = False, en_ingress_room = True\<rparr>"

lemma quiet_env_simps [simp]: "en_fresh (quiet_env now) = now" "id_ok (en_random (quiet_env now))"
  by (simp_all add: quiet_env_def)

definition first_dispatcher :: "budget \<Rightarrow> create_error + dispatcher" where
  "first_dispatcher b = with_budget \<lparr>ut_max_message_size = 1400\<rparr> (Inr (SA4 10 6881)) (new_table (NodeId (replicate 20 0)) Ipv4 0)
     (tm_new (secs 5) 64) \<lparr>dc_external_ip = None, dc_command_capacity = 8, dc_maintenance = default_maintenance_config,
       dc_peer_store = default_peer_store_config\<rparr> b (clock_new 0 0) (Inr (replicate 16 1)) 0"

lemma first_created:
  "\<exists>d. first_dispatcher b = Inr d \<and> dp_pending_external_ip d = None"
  by (simp add: first_dispatcher_def with_budget_def maintenance_config_ok_def default_maintenance_config_def new_table_def
      ps_new_def config_ok_def default_peer_store_config_def tk_with_source_def instant_checked_add_def DEFAULT_BUCKET_REFRESH_AFTER_def)

lemma event_running: "handle_event (en 0) d ev = Some (Running d1) \<Longrightarrow> loop_iteration en d ev evs bound = Some f \<Longrightarrow> \<exists>d2. f = Running d2"
  by (auto simp: loop_iteration_def running_def split: option.splits if_splits)

theorem dispatcher_runs_safe_witness:
  "\<exists>d b b' e x. first_dispatcher b = Inr d \<and>
     run_ops turn_step (Running d, {#})
       [\<lparr>tn_env = \<lambda>_. quiet_env 5, tn_event = ECommand 7 CStatus, tn_results = [], tn_bound = Inl Entropy, tn_budget = b\<rparr>,
        \<lparr>tn_env = \<lambda>_. quiet_env 9, tn_event = EShutdown 8, tn_results = [], tn_bound = Inl Entropy, tn_budget = b'\<rparr>] =
       Some (Stopped e x, {#8, 7#}) \<and> dp_pending e = [] \<and> mset (map fst (dp_replies e)) = {#8, 7#}"
proof -
  obtain b where b0: "budget_new default_traffic_config 0 = Some (Inr b)" "bu_queued_current b = replicate 4 0"
    "bu_ips b = []" "length (bu_queries b) = 4" "bu_verification_queued b = 0"
    by (simp add: budget_new_def validate_config_def default_traffic_config_def config_classes_def limiter_new_def)
  then have b: "budget_inv b" "length (bu_queued_current b) = 4" by (simp_all add: budget_inv_def)
  obtain d where d: "first_dispatcher b = Inr d" "dp_pending_external_ip d = None" using first_created by blast
  define t1 where "t1 = \<lparr>tn_env = \<lambda>_. quiet_env 5, tn_event = ECommand 7 CStatus, tn_results = [], tn_bound = Inl Entropy, tn_budget = b\<rparr>"
  have tm: "tm_inv (tm_new (secs 5) 64)" "tm_pending (tm_new (secs 5) 64) = []"
    by (simp_all add: tm_new_def tm_with_initial_counter_def tm_inv_def pending_ok_def)
  note c = created_ok [OF d(1) [unfolded first_dispatcher_def] empty_table_inv tm b]
  let ?d = "d\<lparr>dp_budget := b\<rparr>"
  have o: "dp_queued d = []" "outstanding d = []"
    using d(1) by (auto simp: first_dispatcher_def with_budget_def outstanding_def hm_values_def split: if_splits sum.splits)
  have held: "budget_held b [] 0" using b by (simp add: budget_held_def alive_def)
  have i: "d_inv {#} [] [] {} 0 ?d" using c(1) held o
    by (simp add: d_inv_def maps_ok_def occupied_def links_def outstanding_def)
  have status: "handle_event (quiet_env 5) ?d (ECommand 7 CStatus) = Some (Running (answer ?d 7 (RStatus (dispatcher_status ?d 5))))"
    by (simp add: handle_event_def handle_command_def running_def)
  have it: "iteration_ok (\<lambda>_. quiet_env 5) ?d (ECommand 7 CStatus) [] (Inl Entropy)"
    using d(2) by (simp add: iteration_ok_def status rotation_ok_def answer_def)
  obtain f1 where f1: "loop_iteration (\<lambda>_. quiet_env 5) ?d (ECommand 7 CStatus) [] (Inl Entropy) = Some f1" "flow_ok {#7#} f1"
    using loop_iteration_ok [OF i it] by (auto simp: flows_def split: option.splits)
  obtain d1 where d1: "f1 = Running d1" using event_running [OF status f1(1)] by blast
  have i1: "d_inv {#7#} [] [] {} 0 d1" using f1(2) d1 by simp
  define n where "n = length (dp_queued d1) + length (outstanding d1)"
  define b' where "b' = b\<lparr>bu_queued_current := replicate 4 n, bu_verification_queued := n, bu_verification_limit := n\<rparr>"
  have "alive (map qi_record (dp_queued d1)) k \<le> n" for k
    unfolding alive_def n_def by (rule trans_le_add1) (rule order_trans [OF length_filter_le], simp)
  moreover have "permits (outstanding d1) \<le> n" by (simp add: permits_def n_def trans_le_add2)
  moreover have "\<forall>q\<in>set (map qi_record (dp_queued d1)). qr_outcome q < 4" using d_inv_held [OF i1] by (simp add: budget_held_def)
  ultimately have h1: "budget_held b' (map qi_record (dp_queued d1)) (permits (outstanding d1))"
    using b0 by (simp add: budget_held_def budget_inv_def b'_def)
  define t2 where "t2 = \<lparr>tn_env = \<lambda>_. quiet_env 9, tn_event = EShutdown 8, tn_results = [], tn_bound = Inl Entropy, tn_budget = b'\<rparr>"
  have shut: "handle_event en e (EShutdown 8) = Some f \<Longrightarrow> \<exists>e'. f = Stopped e' None" for en e f
    by (auto simp: handle_event_def)
  have "iteration_ok (\<lambda>_. quiet_env 9) e (EShutdown 8) [] (Inl Entropy)" for e
    using shut [of "quiet_env 9" e] by (auto simp: iteration_ok_def split: option.split flow.split)
  then have ok: "ops_ok turn_step turn_ok (Running d, {#}) [t1, t2]"
    using it held o h1 by (simp add: t1_def t2_def f1 d1 split: option.split)
  have "d_inv {#7#} [] [] {} 0 (d1\<lparr>dp_budget := b'\<rparr>)"
    using i1 h1 by (simp add: d_inv_def maps_ok_def occupied_def links_def outstanding_def)
  from handle_event_ok [OF this, of "quiet_env 9" "EShutdown 8"] obtain e
    where "handle_event (quiet_env 9) (d1\<lparr>dp_budget := b'\<rparr>) (EShutdown 8) = Some (Stopped e None)"
    using shut by (auto simp: flows_def split: option.splits)
  then have r: "run_ops turn_step (Running d, {#}) [t1, t2] = Some (Stopped e None, {#8, 7#})"
    by (simp add: t1_def t2_def f1 d1 loop_iteration_def [of _ _ "EShutdown 8"])
  from dispatcher_runs_safe [OF d(1) [unfolded first_dispatcher_def] empty_table_inv tm b disjI1 [OF refl] ok]
  have "dp_pending e = []" "mset (map fst (dp_replies e)) = {#8, 7#}" unfolding r by auto
  then show ?thesis using d(1) r unfolding t1_def t2_def by blast
qed

end
