(* ===== verification/DispatcherEffects.thy ===== *)
theory DispatcherEffects imports DispatcherProps PeerStoreProps begin

text \<open>
  What messages from the network can and cannot change: the tables of the node, apart from what the sending
  of queries and replies touches, and the properties of the dispatcher's handlers that follow from it.
\<close>

section \<open>Sending leaves the tables alone\<close>

definition local_state :: "dispatcher \<Rightarrow> routing_table \<times> peer_store \<times> token_manager \<times> sample_cache \<times> consensus \<times> fetch_ingress option" where
  "local_state d = (dp_routing d, dp_peers d, dp_tokens d, dp_samples d, dp_security d, dp_fetch_ingress d)"

lemma local_state_simps [simp]:
  "local_state (answer d c r) = local_state d"
  "local_state (d\<lparr>dp_budget := x1\<rparr>) = local_state d"
  "local_state (d\<lparr>dp_queued := x2\<rparr>) = local_state d"
  "local_state (d\<lparr>dp_recovery := x3\<rparr>) = local_state d"
  "local_state (d\<lparr>dp_sampler := x4\<rparr>) = local_state d"
  "local_state (d\<lparr>dp_verifications := x5\<rparr>) = local_state d"
  "local_state (d\<lparr>dp_bucket_probes := x6\<rparr>) = local_state d"
  "local_state (d\<lparr>dp_maintenance := x7\<rparr>) = local_state d"
  "local_state (d\<lparr>dp_transactions := x8\<rparr>) = local_state d"
  "local_state (d\<lparr>dp_pending := x9\<rparr>) = local_state d"
  "local_state (d\<lparr>dp_queue_deadline := x10\<rparr>) = local_state d"
  "local_state (note_sent d p) = local_state d"
  "local_state (note_limited d p) = local_state d"
  "local_state (reclaim d p) = local_state d"
  by (simp_all add: local_state_def answer_def note_sent_def note_limited_def reclaim_def split: pending_purpose.split)

lemma start_error_local: "finish_start_error en d p e now = Some d' \<Longrightarrow> local_state d' = local_state d"
  by (cases p) (auto split: option.splits)

lemma drop_ticket_local: "drop_ticket en d q = Some d' \<Longrightarrow> local_state d' = local_state d"
  by (auto simp: drop_ticket_def)

lemma send_rpc_local: "send_rpc en d r query p now = Some d' \<Longrightarrow> local_state d' = local_state d"
  by (auto simp: send_rpc_def Let_def split: prod.splits sum.splits option.splits dest!: start_error_local)

lemma outbound_local: "outbound_loop en now d kept qs = Some d' \<Longrightarrow> local_state d' = local_state d"
proof (induction qs arbitrary: d kept)
  case (Cons q qs)
  consider (gone) "purpose_cancelled (en_gone en) (qi_purpose q)"
    | (late) "\<not> purpose_cancelled (en_gone en) (qi_purpose q)" "now \<ge> qi_deadline q"
    | (due) "\<not> purpose_cancelled (en_gone en) (qi_purpose q)" "\<not> now \<ge> qi_deadline q" by blast
  then show ?case
  proof cases
    case gone
    then show ?thesis using Cons by (auto split: option.splits dest!: drop_ticket_local)
  next
    case late
    then show ?thesis using Cons by (auto split: option.splits dest!: drop_ticket_local start_error_local)
  next
    case due
    show ?thesis
    proof (cases "en_encode en (outbound_message (qi_query q) (rt_local_id (dp_routing d)) (replicate 4 0))")
      case (Inl e)
      then show ?thesis using due Cons by (auto split: option.splits dest!: drop_ticket_local start_error_local)
    next
      case (Inr bs)
      obtain b dec where b: "query_observed (en_gcra en) (dp_budget d) (purpose_class (qi_purpose q))
                  (sa_ip (rn_address (qi_remote q))) (length bs) (en_fresh en) = Some (b, dec)"
        using due Inr Cons.prems by (auto split: option.splits)
      obtain b1 ticket where t: "ticket_blocked b (qi_record q) (dc_reasons dec) = (b1, ticket)" by fastforce
      show ?thesis
      proof (cases "dc_wait dec = 0")
        case True
        then show ?thesis using due Inr b t Cons
          by (auto split: option.splits dest!: drop_ticket_local send_rpc_local)
      next
        case False
        from Cons.prems have "\<exists>x k y. outbound_loop en now (note_limited (d\<lparr>dp_budget := b1, dp_queued := x\<rparr>) (qi_purpose q)\<lparr>dp_queue_deadline := y\<rparr>) k qs = Some d'"
          using due Inr b t False by (auto simp: Let_def)
        then show ?thesis using Cons.IH by force
      qed
    qed
  qed
qed simp

lemma advance_local: "advance_outbound en d now = Some d' \<Longrightarrow> local_state d' = local_state d"
  by (auto simp: advance_outbound_def dest!: outbound_local)

lemma enqueue_local [simp]: "local_state (enqueue en d r query p now) = local_state d"
  by (simp add: enqueue_def split: prod.split)

lemma start_rpc_local: "start_rpc en d r query p now = Some d' \<Longrightarrow> local_state d' = local_state d"
  by (cases p) (auto simp: start_rpc_def Let_def split: if_splits option.splits dest!: start_error_local advance_local)

lemma start_query_local: "start_query en d r q target p now = Some d' \<Longrightarrow> local_state d' = local_state d"
  by (auto simp: start_query_def split: query_method.splits option.splits dest!: start_rpc_local start_error_local)

lemma reply_local [simp]: "local_state (fst (send_reply en d dest m)) = local_state d"
  by (simp add: send_reply_def split: sum.split prod.split bool.split)

lemma response_local [simp]: "local_state (fst (send_response en d dest t r)) = local_state d"
  by (simp add: send_response_def split: option.split)

lemma basic_local [simp]: "local_state (fst (send_basic_response en d dest t)) = local_state d"
  by (simp add: send_basic_response_def)

lemma error_local [simp]: "local_state (send_error en d dest t code x) = local_state d"
  by (simp add: send_error_def Let_def split: sum.split)


lemma local_stateD:
  "local_state a = local_state b \<Longrightarrow> dp_routing a = dp_routing b \<and> dp_peers a = dp_peers b \<and> dp_security a = dp_security b"
  by (simp add: local_state_def)

section \<open>Queries of other nodes\<close>

text \<open>What a query may do to the table of contacts and to the stored peers.\<close>

definition known_nodes :: "routing_table \<Rightarrow> (node_id \<times> socket_addr) list" where
  "known_nodes rt = map (\<lambda>c. (nc_id c, nc_address c)) (table_contacts rt)"

lemma known_put:
  assumes "map (\<lambda>c. (nc_id c, nc_address c)) (bk_nodes b) = map (\<lambda>c. (nc_id c, nc_address c)) (bk_nodes (rt_buckets rt ! k))"
  shows "known_nodes (put_bucket rt k b) = known_nodes rt"
proof -
  have "map (\<lambda>b. map (\<lambda>c. (nc_id c, nc_address c)) (bk_nodes b)) ((rt_buckets rt)[k := b]) =
      map (\<lambda>b. map (\<lambda>c. (nc_id c, nc_address c)) (bk_nodes b)) (rt_buckets rt)"
  proof (cases "k < length (rt_buckets rt)")
    case True
    then show ?thesis using assms by (intro map_update_same) simp_all
  qed (simp add: list_update_beyond)
  then show ?thesis
    by (simp add: known_nodes_def table_contacts_def put_bucket_def map_concat comp_def)
qed

lemma observe_query_known: "observe_query rt i a ro now = Some (rt', out) \<Longrightarrow> known_nodes rt' = known_nodes rt"
proof -
  assume o: "observe_query rt i a ro now = Some (rt', out)"
  show ?thesis
  proof (cases "rt' = rt")
    case False
    then obtain k ns where k: "update_nodes (\<lambda>c. nc_id c = i \<and> nc_address c = a) (\<lambda>c. c\<lparr>nc_last_query := Some now\<rparr>)
        (bk_nodes (rt_buckets rt ! k)) = Some ns" "rt' = put_bucket rt k ((rt_buckets rt ! k)\<lparr>bk_nodes := ns\<rparr>)"
      using o by (auto simp: observe_query_def Let_def split: if_splits option.splits)
    from k(1) obtain j where j: "j < length (bk_nodes (rt_buckets rt ! k))"
      "ns = (bk_nodes (rt_buckets rt ! k))[j := (bk_nodes (rt_buckets rt ! k) ! j)\<lparr>nc_last_query := Some now\<rparr>]"
      by (rule update_nodes_Some)
    then have "map (\<lambda>c. (nc_id c, nc_address c)) ns = map (\<lambda>c. (nc_id c, nc_address c)) (bk_nodes (rt_buckets rt ! k))"
      by (simp only: j(2)) (intro map_update_same, simp_all add: j(1))
    then show ?thesis unfolding k(2) by (intro known_put) simp
  qed simp
qed

lemma observe_sender_known:
  assumes "observe_sender en d i a ro now = Some d'"
  shows "known_nodes (dp_routing d') = known_nodes (dp_routing d) \<and> dp_peers d' = dp_peers d"
proof -
  obtain rt out where o: "observe_query (dp_routing d) i a ro now = Some (rt, out)"
    using assms by (auto simp: observe_sender_def split: option.splits)
  note k = observe_query_known [OF o]
  show ?thesis
  proof (cases out)
    case (VerificationRequired j b)
    then have v: "schedule_verification en (d\<lparr>dp_routing := rt\<rparr>) j b now = Some d'"
      using assms o by (simp add: observe_sender_def)
    show ?thesis
    proof (cases "(j, b) \<in> dp_verifications d")
      case True
      then show ?thesis using v k by (auto simp: schedule_verification_def)
    next
      case False
      then have "start_query en (d\<lparr>dp_routing := rt, dp_verifications := insert (j, b) (dp_verifications d)\<rparr>)
        \<lparr>rn_address = b, rn_expected_id = Some j\<rparr> Ping None (PVerification (j, b) False) now = Some d'"
        using v by (simp add: schedule_verification_def)
      from local_stateD [OF start_query_local [OF this]] show ?thesis using k by simp
    qed
  qed (use assms o k in \<open>auto simp: observe_sender_def\<close>)
qed

lemma serve_known:
  assumes "serve en i source ro now x = Some d'"
  shows "known_nodes (dp_routing d') = known_nodes (dp_routing (fst x)) \<and> dp_peers d' = dp_peers (fst x)"
  using assms observe_sender_known by (cases x) (auto simp: serve_def split: if_splits)

lemma get_peers_known: "dp_routing (fst (handle_get_peers en d source t a now)) = dp_routing d \<and>
    dp_peers (fst (handle_get_peers en d source t a now)) = dp_peers d"
proof (cases "qa_info_hash a")
  case None
  then show ?thesis using local_stateD [OF error_local] by (simp add: handle_get_peers_def)
next
  case (Some h)
  obtain tk res where i: "issue (en_mac en) (dp_tokens d) (sa_ip source) now (en_key en) = (tk, res)" by fastforce
  show ?thesis using Some i local_stateD [OF error_local, of en d source t]
    local_stateD [OF error_local, of en "d\<lparr>dp_tokens := tk\<rparr>" source t] local_stateD [OF response_local, of en "d\<lparr>dp_tokens := tk\<rparr>" source t]
    by (cases res) (simp_all add: handle_get_peers_def Let_def)
qed

lemma sample_known: "dp_routing (fst (handle_sample_infohashes en d source t a now)) = dp_routing d \<and>
    dp_peers (fst (handle_sample_infohashes en d source t a now)) = dp_peers d"
proof (cases "qa_target a")
  case None
  then show ?thesis using local_stateD [OF error_local] by (simp add: handle_sample_infohashes_def)
next
  case (Some x)
  then show ?thesis using local_stateD [OF error_local, of en d source t]
    local_stateD [OF response_local, of en "d\<lparr>dp_samples := y\<rparr>" source t for y]
    by (simp add: handle_sample_infohashes_def Let_def)
qed


text \<open>The conditions under which \<open>announce_peer\<close> stores an address.\<close>

definition authorised :: "env \<Rightarrow> dispatcher \<Rightarrow> socket_addr \<Rightarrow> query_args \<Rightarrow> instant \<Rightarrow> swarm_key \<Rightarrow> socket_addr \<Rightarrow> bool" where
  "authorised en d source a now h x \<longleftrightarrow> qa_info_hash a = Some h \<and>
     (\<exists>port. announced_port source a = Some port \<and> x = sa_new (sa_ip source) port) \<and> ps_accepts (dp_peers d) x \<and>
     (\<exists>token. qa_token a = Some token \<and> snd (validate (en_mac en) (dp_tokens d) (sa_ip source) token now (en_key en)) = Inr True)"

lemma note_announce_fields [simp]:
  "dp_routing (note_announce en d h p now) = dp_routing d" "dp_peers (note_announce en d h p now) = dp_peers d"
  by (simp_all add: note_announce_def split: option.split)

lemma announce_known:
  assumes "handle_announce_peer en d source t a now = Some (d', ok)"
  shows "dp_routing d' = dp_routing d \<and> (dp_peers d' = dp_peers d \<or>
    (\<exists>h x r. authorised en d source a now h x \<and> announce (dp_peers d) h x now = Some (dp_peers d', r)))"
proof -
  have err: "dp_routing (send_error en e source t code tx) = dp_routing e" "dp_peers (send_error en e source t code tx) = dp_peers e"
    "dp_routing (fst (send_basic_response en e source t)) = dp_routing e" "dp_peers (fst (send_basic_response en e source t)) = dp_peers e"
    for e code tx
    using local_stateD [OF error_local] local_stateD [OF basic_local] by blast+
  show ?thesis
  proof (cases "qa_info_hash a = None \<or> qa_token a = None \<or> qa_target a \<noteq> None \<or> qa_want a \<noteq> [] \<or>
      \<not> (qa_implied_port a = None \<or> qa_implied_port a = Some 0 \<or> qa_implied_port a = Some 1) \<or> announced_port source a = None")
    case True
    then show ?thesis using assms err by (auto simp: handle_announce_peer_def split: option.splits if_splits)
  next
    case False
    then obtain h token port where f: "qa_info_hash a = Some h" "qa_token a = Some token" "announced_port source a = Some port" by auto
    let ?x = "sa_new (sa_ip source) port"
    obtain tk res where v: "validate (en_mac en) (dp_tokens d) (sa_ip source) token now (en_key en) = (tk, res)" by fastforce
    note step = assms [unfolded handle_announce_peer_def]
    show ?thesis
    proof (cases "ps_accepts (dp_peers d) ?x \<and> res = Inr True")
      case True
      then have auth: "authorised en d source a now h ?x" using f v by (simp add: authorised_def)
      obtain ps r where ps: "announce (dp_peers d) h ?x now = Some (ps, r)"
        using step f False v True by (auto simp: Let_def split: option.splits)
      have "dp_routing d' = dp_routing d \<and> dp_peers d' = ps"
      proof (cases r)
        case (Inl e)
        then show ?thesis using step f False v True ps err by (auto simp: Let_def split: if_splits)
      next
        case (Inr u)
        have "d' = fst (send_basic_response en (note_announce en (d\<lparr>dp_tokens := tk, dp_peers := ps\<rparr>) h ?x now) source t)"
          using step f False v True ps Inr by (auto simp: Let_def split: if_splits)
        then show ?thesis using err by simp
      qed
      then show ?thesis using auth ps by blast
    next
      case rejected: False
      then show ?thesis using step f False v err by (cases res) (auto simp: Let_def split: if_splits bool.splits)
    qed
  qed
qed

lemma handle_query_known:
  assumes "handle_query en d m now = Some d'"
  shows "known_nodes (dp_routing d') = known_nodes (dp_routing d) \<and> (dp_peers d' = dp_peers d \<or>
    (\<exists>a h x r. km_q (rm_message m) = Some AnnouncePeer \<and> km_a (rm_message m) = Some a \<and>
       authorised en d (rm_source m) a now h x \<and> announce (dp_peers d) h x now = Some (dp_peers d', r)))"
proof -
  let ?k = "rm_message m" and ?s = "rm_source m"
  have err: "known_nodes (dp_routing (send_error en e s t code tx)) = known_nodes (dp_routing e) \<and>
      dp_peers (send_error en e s t code tx) = dp_peers e" for e s t code tx
    using local_stateD [OF error_local, of en e s t code tx] by simp
  show ?thesis
  proof (cases "km_r ?k \<noteq> None \<or> km_e ?k \<noteq> None \<or> \<not> (km_ro ?k = None \<or> km_ro ?k = Some 1) \<or> km_q ?k = None \<or> km_a ?k = None")
    case True
    then have "\<exists>code tx. d' = send_error en d ?s (km_t ?k) code tx"
      using assms by (auto simp: handle_query_def Let_def split: option.splits if_splits)
    then show ?thesis using err by blast
  next
    case False
    then obtain mt a where qa: "km_q ?k = Some mt" "km_a ?k = Some a" by auto
    let ?f = "serve en (qa_id a) ?s (km_ro ?k = Some 1) now"
    note step = assms [unfolded handle_query_def Let_def]
    have fin: "known_nodes (dp_routing d') = known_nodes (dp_routing (fst x)) \<and> dp_peers d' = dp_peers (fst x)"
      if "?f x = Some d'" for x using serve_known [OF that] .
    show ?thesis
    proof (cases "mt = AnnouncePeer")
      case True
      obtain x where x: "handle_announce_peer en d ?s (km_t ?k) a now = Some x" "?f x = Some d'"
        using step False qa True by (auto split: option.splits)
      then obtain d1 ok where d1: "x = (d1, ok)" by fastforce
      show ?thesis using announce_known [OF x(1) [unfolded d1]] fin [OF x(2)] qa True by (auto simp: d1)
    next
      case other: False
      consider code tx where "d' = send_error en d ?s (km_t ?k) code tx"
        | r where "?f (send_response en d ?s (km_t ?k) r) = Some d'"
        | "?f (handle_get_peers en d ?s (km_t ?k) a now) = Some d'"
        | "?f (handle_sample_infohashes en d ?s (km_t ?k) a now) = Some d'"
        using step False qa other by (cases mt) (auto simp: send_basic_response_def split: option.splits if_splits)
      then show ?thesis
      proof cases
        case 1
        then show ?thesis using err by blast
      next
        case 2
        then show ?thesis using fin [OF 2] local_stateD [OF response_local] by metis
      next
        case 3
        then show ?thesis using fin [OF 3] get_peers_known by metis
      next
        case 4
        then show ?thesis using fin [OF 4] sample_known by metis
      qed
    qed
  qed
qed


lemma first_inv: "\<exists>b d. first_dispatcher b = Inr d \<and> d_inv {#} [] [] {} 0 d"
proof -
  obtain b where b0: "budget_new default_traffic_config 0 = Some (Inr b)" "bu_queued_current b = replicate 4 0"
    "bu_ips b = []" "length (bu_queries b) = 4" "bu_verification_queued b = 0"
    by (simp add: budget_new_def validate_config_def default_traffic_config_def config_classes_def limiter_new_def)
  then have b: "budget_inv b" "length (bu_queued_current b) = 4" by (simp_all add: budget_inv_def)
  have tm: "tm_inv (tm_new (secs 5) 64)" "tm_pending (tm_new (secs 5) 64) = []"
    by (simp_all add: tm_new_def tm_with_initial_counter_def tm_inv_def pending_ok_def)
  obtain d where d: "first_dispatcher b = Inr d" using first_created by blast
  from created_ok(1) [OF d [unfolded first_dispatcher_def] empty_table_inv tm b] d show ?thesis by blast
qed

definition ping_message :: received_message where
  "ping_message = \<lparr>rm_source = SA4 20 1000, rm_message = \<lparr>km_t = [1, 2], km_y = Query, km_q = Some Ping,
     km_a = Some \<lparr>qa_id = NodeId (replicate 20 9), qa_target = None, qa_info_hash = None, qa_port = None, qa_token = None,
       qa_implied_port = None, qa_want = []\<rparr>, km_r = None, km_e = None, km_ro = None, km_ip = None\<rparr>, rm_encoded_len = 60\<rparr>"

lemma ping_message_ok: "message_ok (rm_message ping_message)"
  by (simp add: ping_message_def message_ok_def)

text \<open>
  C20: a query, whatever it asks and whoever sends it, puts no node into the routing table, removes none
  and moves none to another address; it is handled without panic.
\<close>

theorem query_never_inserts:
  assumes "d_inv I [] [] {} r d" and "message_ok (rm_message m)"
  shows "\<exists>d'. handle_query en d m now = Some d' \<and> known_nodes (dp_routing d') = known_nodes (dp_routing d)"
proof -
  obtain d' where "handle_query en d m now = Some d'" using handle_query_ok [OF assms] by (auto simp: keeps_state_def)
  then show ?thesis using handle_query_known by blast
qed

theorem query_never_inserts_witness:
  "\<exists>b d d'. first_dispatcher b = Inr d \<and> handle_query (quiet_env 5) d ping_message 5 = Some d' \<and>
     known_nodes (dp_routing d') = known_nodes (dp_routing d)"
proof -
  obtain b d where d: "first_dispatcher b = Inr d" "d_inv {#} [] [] {} 0 d" using first_inv by blast
  from query_never_inserts [OF d(2) ping_message_ok] d(1) show ?thesis by blast
qed

text \<open>
  C2: a query stores or refreshes a peer only when it is an \<open>announce_peer\<close> with a token that the node accepts
  for the address of its sender; the peer is this address with the announced (or implied) port, it passes the
  address policy and the family of the store, it is filed under the announced hash and gets the full time to live.
\<close>

theorem peers_stored_with_token:
  assumes "d_inv I [] [] {} r d" and "handle_query en d m now = Some d'"
    and "entry (dp_peers d') h x = Some t" and "entry (dp_peers d) h x \<noteq> Some t"
  shows "km_q (rm_message m) = Some AnnouncePeer \<and> t = now + pc_ttl (ps_config (dp_peers d)) \<and>
    (\<exists>a token port. km_a (rm_message m) = Some a \<and> qa_info_hash a = Some h \<and> qa_token a = Some token \<and>
       snd (validate (en_mac en) (dp_tokens d) (sa_ip (rm_source m)) token now (en_key en)) = Inr True \<and>
       announced_port (rm_source m) a = Some port \<and> x = sa_new (sa_ip (rm_source m)) port \<and> ps_accepts (dp_peers d) x)"
proof -
  have "dp_peers d' \<noteq> dp_peers d" using assms(3,4) by auto
  then obtain a k y res where a: "km_q (rm_message m) = Some AnnouncePeer" "km_a (rm_message m) = Some a"
    "authorised en d (rm_source m) a now k y" "announce (dp_peers d) k y now = Some (dp_peers d', res)"
    using handle_query_known [OF assms(2)] by blast
  obtain ps r where e: "announce (dp_peers d) k y now = Some (ps, r)" "case r of Inl er \<Rightarrow> ps = dp_peers d
     | Inr _ \<Rightarrow> entry ps k y = Some (now + pc_ttl (ps_config (dp_peers d))) \<and>
         (\<forall>j b v. (j, b) \<noteq> (k, y) \<longrightarrow> entry ps j b = Some v \<longrightarrow> entry (dp_peers d) j b = Some v)"
    using announce_effect [OF d_inv_parts(3) [OF assms(1)], of k y now] by (fastforce split: sum.splits)
  then have ps: "ps = dp_peers d'" using a(4) by simp
  then obtain u where "r = Inr u" using e(2) \<open>dp_peers d' \<noteq> dp_peers d\<close> by (cases r) auto
  then have new: "entry ps k y = Some (now + pc_ttl (ps_config (dp_peers d)))"
    and old: "\<forall>j b v. (j, b) \<noteq> (k, y) \<longrightarrow> entry ps j b = Some v \<longrightarrow> entry (dp_peers d) j b = Some v" using e(2) by simp_all
  have "(h, x) = (k, y)" using old assms(3,4) ps by blast
  then have "k = h" "y = x" "t = now + pc_ttl (ps_config (dp_peers d))" using new assms(3) ps by simp_all
  then show ?thesis using a by (auto simp: authorised_def)
qed

lemma first_fields:
  assumes "first_dispatcher b = Inr d"
  shows "dp_tokens d = \<lparr>tk_current = replicate 16 1, tk_previous = None, tk_epoch = 0\<rparr>"
    "ps_new default_peer_store_config Ipv4 0 = Inr (dp_peers d)"
  using assms by (auto simp: first_dispatcher_def with_budget_def tk_with_source_def new_table_def split: if_splits sum.splits)

definition announce_message :: received_message where
  "announce_message = \<lparr>rm_source = SA4 0x08080808 80, rm_message = \<lparr>km_t = [1, 2], km_y = Query, km_q = Some AnnouncePeer,
     km_a = Some \<lparr>qa_id = NodeId (replicate 20 9), qa_target = None, qa_info_hash = Some (SwarmKey (replicate 20 3)),
       qa_port = None, qa_token = Some (Token []), qa_implied_port = Some 1, qa_want = []\<rparr>,
     km_r = None, km_e = None, km_ro = None, km_ip = None\<rparr>, rm_encoded_len = 90\<rparr>"

theorem peers_stored_with_token_witness:
  "\<exists>b d d'. first_dispatcher b = Inr d \<and> handle_query (quiet_env 5) d announce_message 5 = Some d' \<and>
     entry (dp_peers d') (SwarmKey (replicate 20 3)) (SA4 0x08080808 80) = Some (5 + secs 1800) \<and>
     ps_accepts (dp_peers d) (SA4 0x08080808 80)"
proof -
  obtain b d where d: "first_dispatcher b = Inr d" "d_inv {#} [] [] {} 0 d" using first_inv by blast
  note f = first_fields [OF d(1)]
  have p: "ps_config (dp_peers d) = default_peer_store_config" "ps_family (dp_peers d) = Ipv4" "ps_peers (dp_peers d) = []"
    using f(2) by (auto simp: ps_new_def split: if_splits dest!: sym [of _ "dp_peers d"])
  have acc: "ps_accepts (dp_peers d) (SA4 0x08080808 80)"
    using p by (simp add: ps_accepts_def default_peer_store_config_def policy_accepts_def public_v4_blocks reserved_blocks_def
        in_block_def v4_def del: policy_accepts_ip.simps)
  have ann: "announced_port (rm_source announce_message) (the (km_a (rm_message announce_message))) = Some 80"
    by (simp add: announce_message_def announced_port_def)
  obtain ps r where ps: "announce (dp_peers d) (SwarmKey (replicate 20 3)) (SA4 0x08080808 80) 5 = Some (ps, r)"
    "case r of Inl e \<Rightarrow> instant_checked_add 5 (secs 1800) = None | Inr _ \<Rightarrow> entry ps (SwarmKey (replicate 20 3)) (SA4 0x08080808 80) = Some (5 + secs 1800)"
    using announce_effect [OF d_inv_parts(3) [OF d(2)], of "SwarmKey (replicate 20 3)" "SA4 0x08080808 80" 5] acc p(1)
    by (fastforce simp: default_peer_store_config_def split: sum.splits)
  then obtain u where r: "r = Inr u" by (cases r) (simp_all add: instant_checked_add_def)
  let ?a = "the (km_a (rm_message announce_message))"
  have "validate (en_mac (quiet_env 5)) (dp_tokens d) (sa_ip (SA4 0x08080808 80)) (Token []) 5 (en_key (quiet_env 5)) = (dp_tokens d, Inr True)"
    by (simp add: validate_def rotate_key_def f(1) quiet_env_def ROTATION_def)
  then have x: "handle_announce_peer (quiet_env 5) d (SA4 0x08080808 80) [1, 2] ?a 5 = Some (send_basic_response (quiet_env 5)
      (note_announce (quiet_env 5) (d\<lparr>dp_peers := ps\<rparr>) (SwarmKey (replicate 20 3)) (SA4 0x08080808 80) 5) (SA4 0x08080808 80) [1, 2])"
    (is "_ = Some ?x") using acc ps(1) r ann by (simp add: handle_announce_peer_def announce_message_def Let_def)
  have peers: "dp_peers (fst ?x) = ps" using local_stateD [OF basic_local] by simp
  obtain d' where d': "handle_query (quiet_env 5) d announce_message 5 = Some d'"
    using handle_query_ok [OF d(2), of announce_message] by (auto simp: keeps_state_def announce_message_def message_ok_def)
  then have "serve (quiet_env 5) (qa_id ?a) (SA4 0x08080808 80) False 5 ?x = Some d'"
    using x by (simp add: handle_query_def announce_message_def Let_def)
  from serve_known [OF this] have e: "entry (dp_peers d') (SwarmKey (replicate 20 3)) (SA4 0x08080808 80) = Some (5 + secs 1800)"
    using ps(2) r peers by simp
  have "entry (dp_peers d) (SwarmKey (replicate 20 3)) (SA4 0x08080808 80) = None" using p(3) by (simp add: entry_def)
  then show ?thesis using peers_stored_with_token [OF d(2) d' e] d(1) d' e by auto
qed


section \<open>Responses and errors\<close>

text \<open>
  C3: a response or an error whose transaction identifier does not belong to a pending query that was sent
  to the very address and port of the sender, or is not four bytes long, changes nothing at all: a node off
  the path cannot answer for another.
\<close>

theorem unmatched_reply_ignored:
  assumes "km_y (rm_message m) \<noteq> Query"
    and "case tid_try_from (km_t (rm_message m)) of Inl _ \<Rightarrow> True | Inr i \<Rightarrow>
      (case hm_get (tm_pending (dp_transactions d)) i of None \<Rightarrow> True | Some t \<Rightarrow> pt_destination t \<noteq> rm_source m)"
  shows "handle_received en d m now = Some d"
proof -
  have "\<exists>e. complete (dp_transactions d) (km_t (rm_message m)) (rm_source m) now = Some (dp_transactions d, Inl e) \<and>
      (\<forall>t. e \<noteq> Expired t)"
    using assms(2) by (auto simp: complete_def split: sum.splits option.splits)
      (auto simp: tid_try_from_def split: if_splits)
  then obtain e where e: "complete (dp_transactions d) (km_t (rm_message m)) (rm_source m) now = Some (dp_transactions d, Inl e)"
    "\<forall>t. e \<noteq> Expired t" by blast
  have "d\<lparr>dp_transactions := dp_transactions d\<rparr> = d" by simp
  then have "match_pending d m now = Some (Unmatched d)"
    using e by (cases e) (simp_all add: match_pending_def)
  then show ?thesis using assms(1)
    by (cases "km_y (rm_message m)") (simp_all add: handle_received_def handle_response_def handle_error_def)
qed

definition spoofed_message :: received_message where
  "spoofed_message = \<lparr>rm_source = SA4 20 1000, rm_message = \<lparr>km_t = [0, 0, 0, 0], km_y = Response, km_q = None,
     km_a = None, km_r = None, km_e = None, km_ro = None, km_ip = None\<rparr>, rm_encoded_len = 60\<rparr>"

theorem unmatched_reply_ignored_witness:
  "\<exists>b d. first_dispatcher b = Inr d \<and> handle_received (quiet_env 5) d spoofed_message 5 = Some d"
proof -
  obtain b d where d: "first_dispatcher b = Inr d" using first_inv by blast
  then have "tm_pending (dp_transactions d) = []"
    by (auto simp: first_dispatcher_def with_budget_def tm_new_def tm_with_initial_counter_def split: if_splits sum.splits)
  then have "handle_received (quiet_env 5) d spoofed_message 5 = Some d"
    by (intro unmatched_reply_ignored) (simp_all add: spoofed_message_def tid_try_from_def)
  then show ?thesis using d by blast
qed

definition peers_message :: received_message where
  "peers_message = \<lparr>rm_source = SA4 20 1000, rm_message = \<lparr>km_t = [0, 0, 0, 1], km_y = Response, km_q = None, km_a = None,
     km_r = Some \<lparr>ra_id = NodeId (replicate 20 9), ra_token = Some (Token [1]), ra_nodes = None, ra_nodes6 = None,
       ra_values = Some [], ra_samples = None, ra_interval = None, ra_num = None\<rparr>, km_e = None, km_ro = None, km_ip = None\<rparr>,
     rm_encoded_len = 60\<rparr>"

text \<open>The form of a checked response that the purpose of its query needs.\<close>

fun form_fits :: "address_family \<Rightarrow> pending_purpose \<Rightarrow> validated_response \<Rightarrow> bool" where
  "form_fits fam (PFetch _) x \<longleftrightarrow>
     (case x of VPeers g \<Rightarrow> (\<forall>n\<in>set (gp_nodes g). family_accepts fam (dn_address n)) | _ \<Rightarrow> False)"
| "form_fits fam (PMaintenanceLookup _) x \<longleftrightarrow>
     (case x of VNodes f \<Rightarrow> (\<forall>n\<in>set (fr_nodes f). family_accepts fam (dn_address n)) | _ \<Rightarrow> False)"
| "form_fits fam (PSampling r) x \<longleftrightarrow> (case x of
     VNodes f \<Rightarrow> (\<forall>n\<in>set (fr_nodes f). family_accepts fam (dn_address n))
   | VSamples s \<Rightarrow> rq_kind r \<noteq> FindNodeFallback \<and> (\<forall>n\<in>set (sr_nodes s). family_accepts fam (dn_address n))
   | _ \<Rightarrow> False)"
| "form_fits fam _ x \<longleftrightarrow> x = VBasic"

lemma socket6_family [simp]: "family_accepts Ipv6 (socket6 a)"
  by (cases a) simp

lemma find_node_family: "decode_find_node_response d r = Inr f \<Longrightarrow>
    \<forall>n\<in>set (fr_nodes f). family_accepts (rt_family (dp_routing d)) (dn_address n)"
  by (auto simp: decode_find_node_response_def split: address_family.splits option.splits)

lemma peers_family: "decode_peers d r = Inr g \<Longrightarrow>
    \<forall>n\<in>set (gp_nodes g). family_accepts (rt_family (dp_routing d)) (dn_address n)"
  by (auto simp: decode_peers_def Let_def keep_first_spec split: if_splits dest!: in_set_takeD)

text \<open>
  C22: a response that passes the checks has the form that the purpose of its query expects (peers for a
  search, nodes for a lookup, samples or nodes for sampling, nothing else for a ping), all its nodes are of the
  family of the table, its identifier is the expected one and it carries no field of another kind of message: no
  query, no arguments, no error and no read-only flag. So the \<open>unreachable\<close> arms of the settlement are never taken.
\<close>

theorem checked_response_typed:
  assumes "check_response d m p = Inr (r, x)"
  shows "form_fits (rt_family (dp_routing d)) (pd_purpose p) x \<and> km_r (rm_message m) = Some r \<and>
    (case rn_expected_id (pd_remote p) of None \<Rightarrow> True | Some i \<Rightarrow> ra_id r = i) \<and>
    km_q (rm_message m) = None \<and> km_a (rm_message m) = None \<and> km_e (rm_message m) = None \<and> km_ro (rm_message m) = None"
proof -
  have f: "decode_for d (pd_purpose p) r (rm_encoded_len m) = Inr x" and rest: "km_r (rm_message m) = Some r"
    "case rn_expected_id (pd_remote p) of None \<Rightarrow> True | Some i \<Rightarrow> ra_id r = i"
    "km_q (rm_message m) = None" "km_a (rm_message m) = None" "km_e (rm_message m) = None"
    "km_ro (rm_message m) = None"
    using assms by (cases "km_e (rm_message m)"; auto simp: check_response_def Let_def split: if_splits option.splits)+
  have "form_fits (rt_family (dp_routing d)) (pd_purpose p) x"
  proof (cases "pd_purpose p")
    case (PSampling rq)
    obtain ns where ns: "decode_find_node_response d r = Inr ns" using f PSampling by (auto simp: decode_for_def)
    show ?thesis
    proof (cases "rq_kind rq = FindNodeFallback")
      case True
      then show ?thesis using f PSampling ns find_node_family [OF ns] by (auto simp: decode_for_def)
    next
      case False
      then obtain so where "decode_sample r (fr_nodes ns) (rm_encoded_len m) = Inr so"
        "x = (case so of Some s \<Rightarrow> VSamples s | None \<Rightarrow> VNodes ns)"
        using f PSampling ns by (auto simp: decode_for_def)
      then show ?thesis using PSampling False find_node_family [OF ns] decode_sample_nodes by (cases so) auto
    qed
  qed (use f find_node_family peers_family in \<open>auto simp: decode_for_def\<close>)
  then show ?thesis using rest by blast
qed


theorem checked_response_typed_witness:
  "\<exists>b d g. first_dispatcher b = Inr d \<and> decode_peers d (the (km_r (rm_message peers_message))) = Inr g \<and>
     check_response d peers_message \<lparr>pd_remote = \<lparr>rn_address = SA4 20 1000, rn_expected_id = None\<rparr>, pd_purpose = PFetch 7\<rparr> =
       Inr (the (km_r (rm_message peers_message)), VPeers g) \<and> form_fits Ipv4 (PFetch 7) (VPeers g)"
proof -
  obtain b d where d: "first_dispatcher b = Inr d" using first_inv by blast
  let ?p = "\<lparr>pd_remote = \<lparr>rn_address = SA4 20 1000, rn_expected_id = None\<rparr>, pd_purpose = PFetch 7\<rparr>"
  have c: "check_response d peers_message ?p = Inr (the (km_r (rm_message peers_message)), VPeers \<lparr>gp_nodes = [], gp_peers = []\<rparr>)"
    "decode_peers d (the (km_r (rm_message peers_message))) = Inr \<lparr>gp_nodes = [], gp_peers = []\<rparr>"
    by (simp_all add: check_response_def peers_message_def decode_for_def decode_peers_def)
  show ?thesis using checked_response_typed [OF c(1)] c d by fastforce
qed

definition acceptable_node :: "dispatcher \<Rightarrow> response_args \<Rightarrow> discovered_node \<Rightarrow> bool" where
  "acceptable_node d r n \<longleftrightarrow> family_accepts (rt_family (dp_routing d)) (dn_address n) \<and> policy_accepts (dp_policy d) (dn_address n) \<and>
     dn_id n \<noteq> rt_local_id (dp_routing d) \<and>
     ((\<exists>ns. ra_nodes r = Some ns \<and> n \<in> discovered4 ` set ns) \<or> (\<exists>ns. ra_nodes6 r = Some ns \<and> n \<in> discovered6 ` set ns))"

definition acceptable_peer :: "dispatcher \<Rightarrow> response_args \<Rightarrow> socket_addr \<Rightarrow> bool" where
  "acceptable_peer d r a \<longleftrightarrow> policy_accepts (dp_policy d) a \<and> (\<exists>ps. ra_values r = Some ps \<and> a \<in> peer_socket ` set ps)"

lemma keep_first_prefix:
  assumes "set xs = A"
  shows "length (take n (keep_first xs {})) \<le> n \<and> distinct (take n (keep_first xs {})) \<and> set (take n (keep_first xs {})) \<subseteq> A \<and>
    (set (take n (keep_first xs {})) = A \<or> length (take n (keep_first xs {})) = n)"
  using keep_first_spec [of xs "{}"] assms set_take_subset [of n "keep_first xs {}"]
  by (cases "length (keep_first xs {}) \<le> n") auto

text \<open>
  C23: the peers and nodes of an accepted \<open>get_peers\<close> response are at most 32 and 256, pairwise different, allowed by the
  address policy and taken from the response; the nodes are of the table's family and none is the node itself. None
  that meets these conditions is left out before the limit is reached. The response is accepted exactly when it has a token of 1 to 256 bytes and one of the three fields.
\<close>

theorem decoded_peers_bounded:
  "case decode_peers d r of
     Inl e \<Rightarrow> (\<nexists>t. ra_token r = Some t \<and> length (token_bytes t) \<in> {1..256}) \<or>
       ra_values r = None \<and> ra_nodes r = None \<and> ra_nodes6 r = None
   | Inr g \<Rightarrow> (\<exists>t. ra_token r = Some t \<and> length (token_bytes t) \<in> {1..256}) \<and>
       \<not> (ra_values r = None \<and> ra_nodes r = None \<and> ra_nodes6 r = None) \<and>
       length (gp_nodes g) \<le> 256 \<and> distinct (gp_nodes g) \<and> set (gp_nodes g) \<subseteq> Collect (acceptable_node d r) \<and>
       (set (gp_nodes g) = Collect (acceptable_node d r) \<or> length (gp_nodes g) = 256) \<and>
       length (gp_peers g) \<le> 32 \<and> distinct (gp_peers g) \<and> set (gp_peers g) \<subseteq> Collect (acceptable_peer d r) \<and>
       (set (gp_peers g) = Collect (acceptable_peer d r) \<or> length (gp_peers g) = 32)"
proof (cases "decode_peers d r")
  case (Inl e)
  then show ?thesis by (auto simp: decode_peers_def Let_def Suc_le_eq split: if_splits option.splits)
next
  case (Inr g)
  define ns where "ns = filter (\<lambda>n. family_accepts (rt_family (dp_routing d)) (dn_address n)
      \<and> policy_accepts (dp_policy d) (dn_address n) \<and> dn_id n \<noteq> rt_local_id (dp_routing d))
    ((case ra_nodes r of None \<Rightarrow> [] | Some ns \<Rightarrow> map discovered4 ns) @ (case ra_nodes6 r of None \<Rightarrow> [] | Some ns \<Rightarrow> map discovered6 ns))"
  define ps where "ps = filter (policy_accepts (dp_policy d)) (map peer_socket (case ra_values r of None \<Rightarrow> [] | Some ps \<Rightarrow> ps))"
  have g: "gp_nodes g = take 256 (keep_first ns {})" "gp_peers g = take 32 (keep_first ps {})"
    and t: "\<exists>t. ra_token r = Some t \<and> length (token_bytes t) \<in> {1..256}"
    and some: "\<not> (ra_values r = None \<and> ra_nodes r = None \<and> ra_nodes6 r = None)"
    using Inr by (auto simp: decode_peers_def Let_def ns_def ps_def Suc_le_eq split: if_splits option.splits)
  have "set ns = Collect (acceptable_node d r)"
    by (cases "ra_nodes r"; cases "ra_nodes6 r") (auto simp del: discovered4.simps discovered6.simps simp: ns_def acceptable_node_def)
  moreover have "set ps = Collect (acceptable_peer d r)"
    by (cases "ra_values r") (auto simp: ps_def acceptable_peer_def)
  ultimately show ?thesis
    using keep_first_prefix [of ns "Collect (acceptable_node d r)" 256] keep_first_prefix [of ps "Collect (acceptable_peer d r)" 32] t some
    unfolding Inr sum.case g by blast
qed

theorem decoded_peers_bounded_witness:
  "\<exists>b d g. first_dispatcher b = Inr d \<and> decode_peers d (the (km_r (rm_message peers_message))) = Inr g \<and>
     length (gp_nodes g) \<le> 256 \<and> set (gp_peers g) \<subseteq> Collect (acceptable_peer d (the (km_r (rm_message peers_message))))"
proof -
  obtain b d where d: "first_dispatcher b = Inr d" using first_inv by blast
  let ?r = "the (km_r (rm_message peers_message))" and ?g = "\<lparr>gp_nodes = [], gp_peers = []\<rparr>"
  have e: "decode_peers d ?r = Inr ?g" by (simp add: peers_message_def decode_peers_def)
  have "length (gp_nodes ?g) \<le> 256 \<and> set (gp_peers ?g) \<subseteq> Collect (acceptable_peer d ?r)"
    using decoded_peers_bounded [where d = d and r = ?r] unfolding e sum.case by blast
  then show ?thesis using d e by blast
qed

section \<open>Replies\<close>

definition cut :: "'a list option \<Rightarrow> 'a list option \<Rightarrow> bool" where
  "cut old new \<longleftrightarrow> (case new of None \<Rightarrow> True | Some ys \<Rightarrow> (\<exists>xs n. old = Some xs \<and> ys = take n xs))"

definition spent :: "'a list option \<Rightarrow> bool" where
  "spent x \<longleftrightarrow> x = None \<or> x = Some []"

text \<open>What is left of a response: prefixes of its lists, cut in the order values, samples, nodes, nodes6.\<close>

definition shrunk :: "response_args \<Rightarrow> response_args \<Rightarrow> bool" where
  "shrunk r r' \<longleftrightarrow> ra_id r' = ra_id r \<and> ra_token r' = ra_token r \<and> ra_interval r' = ra_interval r \<and> ra_num r' = ra_num r \<and>
     cut (ra_values r) (ra_values r') \<and> cut (ra_samples r) (ra_samples r') \<and> cut (ra_nodes r) (ra_nodes r') \<and>
     cut (ra_nodes6 r) (ra_nodes6 r') \<and>
     (ra_values r' = Some [] \<longrightarrow> ra_values r = Some []) \<and>
     (ra_samples r' = None) = (ra_samples r = None) \<and> (ra_nodes r' = None) = (ra_nodes r = None) \<and>
     (ra_nodes6 r' = None) = (ra_nodes6 r = None) \<and>
     (ra_samples r' \<noteq> ra_samples r \<longrightarrow> ra_values r' = None) \<and>
     (ra_nodes r' \<noteq> ra_nodes r \<longrightarrow> ra_values r' = None \<and> spent (ra_samples r')) \<and>
     (ra_nodes6 r' \<noteq> ra_nodes6 r \<longrightarrow> ra_values r' = None \<and> spent (ra_samples r') \<and> spent (ra_nodes r'))"

lemma cut_refl [simp]: "cut x x"
proof (cases x)
  case (Some a)
  have "a = take (length a) a" by simp
  then show ?thesis unfolding Some cut_def option.case by blast
qed (simp add: cut_def)

lemma cut_butlast: "cut (Some (butlast xs)) z \<Longrightarrow> cut (Some xs) z"
  by (auto simp: cut_def butlast_conv_take split: option.splits)

lemma shrunk_refl [simp]: "shrunk r r"
  by (simp add: shrunk_def)

lemma cut_None [simp]: "cut None z \<longleftrightarrow> z = None" "cut (Some []) z \<longleftrightarrow> z = None \<or> z = Some []" "cut x None"
  by (auto simp: cut_def split: option.splits)

lemma not_spent: "(case x of None \<Rightarrow> False | Some xs \<Rightarrow> xs \<noteq> []) = (\<not> spent x)"
  by (simp add: spent_def split: option.split)

lemma unspent: "\<not> spent x \<Longrightarrow> \<exists>y ys. x = Some (y # ys)"
  by (cases x) (auto simp: spent_def neq_Nil_conv)

lemma shrunk_step:
  assumes "shrink_response r = Some r1" and "shrunk r1 r'"
  shows "shrunk r r'"
proof (cases "ra_values r")
  case (Some vs)
  then have r1: "r1 = r\<lparr>ra_values := (if butlast vs = [] then None else Some (butlast vs))\<rparr>"
    using assms(1) by (simp add: shrink_response_def)
  have "cut (Some vs) (ra_values r')"
    using assms(2) cut_butlast [of vs "ra_values r'"] by (auto simp: shrunk_def r1 split: if_splits)
  then show ?thesis using assms(2) Some unfolding shrunk_def r1 by (simp split: if_splits)
next
  case None
  consider (samples) x xs where "ra_samples r = Some (x # xs)" "r1 = r\<lparr>ra_samples := Some (butlast (x # xs))\<rparr>"
    | (nodes) x xs where "spent (ra_samples r)" "ra_nodes r = Some (x # xs)" "r1 = r\<lparr>ra_nodes := Some (butlast (x # xs))\<rparr>"
    | (nodes6) x xs where "spent (ra_samples r)" "spent (ra_nodes r)" "ra_nodes6 r = Some (x # xs)"
        "r1 = r\<lparr>ra_nodes6 := Some (butlast (x # xs))\<rparr>"
    using assms(1) None unspent [of "ra_samples r"] unspent [of "ra_nodes r"] unspent [of "ra_nodes6 r"]
    by (simp only: shrink_response_def not_spent option.case) (auto split: if_splits)
  then show ?thesis
  proof cases
    case samples
    have "cut (Some (x # xs)) (ra_samples r')" using assms(2) cut_butlast [of "x # xs"] by (simp add: shrunk_def samples(2))
    then show ?thesis using assms(2) None samples unfolding shrunk_def by simp
  next
    case nodes
    have "cut (Some (x # xs)) (ra_nodes r')" using assms(2) cut_butlast [of "x # xs"] by (simp add: shrunk_def nodes(3))
    then show ?thesis using assms(2) None nodes unfolding shrunk_def by (auto simp: spent_def)
  next
    case nodes6
    have "cut (Some (x # xs)) (ra_nodes6 r')" using assms(2) cut_butlast [of "x # xs"] by (simp add: shrunk_def nodes6(4))
    then show ?thesis using assms(2) None nodes6 unfolding shrunk_def by (auto simp: spent_def)
  qed
qed


lemma cut_proper: "cut (Some xs) (Some ys) \<Longrightarrow> ys \<noteq> xs \<Longrightarrow> cut (Some (butlast xs)) (Some ys)"
proof -
  assume "cut (Some xs) (Some ys)" "ys \<noteq> xs"
  then obtain n where n: "ys = take n xs" "n < length xs" by (auto simp: cut_def not_le [symmetric])
  then have "ys = take n (butlast xs)" by (simp add: butlast_conv_take)
  then show ?thesis unfolding cut_def option.case by blast
qed

lemma shrunk_weight: "shrunk r r' \<Longrightarrow> response_weight r' \<le> response_weight r"
proof -
  have "option_weight y \<le> option_weight x" if "cut x y" for x y :: "'b list option"
    using that by (cases y) (auto simp: cut_def option_weight_def)
  note w = this
  show "shrunk r r' \<Longrightarrow> response_weight r' \<le> response_weight r"
    unfolding shrunk_def response_weight_def by (intro add_mono w) simp_all
qed

text \<open>One round removes the least that can be removed: what is smaller than a response is no larger than the next.\<close>

lemma shrunk_next:
  assumes "shrink_response r = Some r1" and "shrunk r r2" and "r2 \<noteq> r"
  shows "shrunk r1 r2"
proof (cases "ra_values r")
  case (Some vs)
  then have r1: "r1 = r\<lparr>ra_values := (if butlast vs = [] then None else Some (butlast vs))\<rparr>"
    using assms(1) by (simp add: shrink_response_def)
  show ?thesis
  proof (cases "ra_values r2")
    case None
    then show ?thesis using assms(2) by (simp add: shrunk_def r1)
  next
    case (Some ys)
    then have same: "ra_samples r2 = ra_samples r" "ra_nodes r2 = ra_nodes r" "ra_nodes6 r2 = ra_nodes6 r"
      using assms(2) by (auto simp: shrunk_def)
    have "ys \<noteq> vs"
    proof
      assume "ys = vs"
      then have "r2 = r" using same assms(2) Some \<open>ra_values r = Some vs\<close>
        by (intro response_args.equality) (simp_all add: shrunk_def)
      with assms(3) show False ..
    qed
    moreover have c: "cut (Some vs) (Some ys)" using assms(2) Some \<open>ra_values r = Some vs\<close> by (simp add: shrunk_def)
    ultimately have cut: "cut (Some (butlast vs)) (Some ys)" by (rule cut_proper [rotated])
    have "ys \<noteq> []" using assms(2) Some \<open>ra_values r = Some vs\<close> \<open>ys \<noteq> vs\<close> by (auto simp: shrunk_def)
    then have "butlast vs \<noteq> []" using cut by auto
    then show ?thesis using assms(2) same cut Some \<open>ys \<noteq> []\<close> by (simp add: shrunk_def r1)
  qed
next
  case None
  then have v: "ra_values r2 = None" using assms(2) by (simp add: shrunk_def)
  have step: "cut (Some (butlast xs)) y" if "cut (Some xs) y" "y \<noteq> None" "y \<noteq> Some xs" for xs :: "'b list" and y
    using that cut_proper by (cases y) auto
  have keep: "y = x" if "spent x" "cut x y" "(y = None) = (x = None)" for x y :: "'b list option"
    using that by (auto simp: spent_def)
  have eq: "r2 = r" if "ra_samples r2 = ra_samples r" "ra_nodes r2 = ra_nodes r" "ra_nodes6 r2 = ra_nodes6 r"
    using that assms(2) v None by (intro response_args.equality) (simp_all add: shrunk_def)
  consider (samples) x xs where "ra_samples r = Some (x # xs)" "r1 = r\<lparr>ra_samples := Some (butlast (x # xs))\<rparr>"
    | (nodes) x xs where "spent (ra_samples r)" "ra_nodes r = Some (x # xs)" "r1 = r\<lparr>ra_nodes := Some (butlast (x # xs))\<rparr>"
    | (nodes6) x xs where "spent (ra_samples r)" "spent (ra_nodes r)" "ra_nodes6 r = Some (x # xs)"
        "r1 = r\<lparr>ra_nodes6 := Some (butlast (x # xs))\<rparr>"
    using assms(1) None unspent [of "ra_samples r"] unspent [of "ra_nodes r"] unspent [of "ra_nodes6 r"]
    by (simp only: shrink_response_def not_spent option.case) (auto split: if_splits)
  then show ?thesis
  proof cases
    case samples
    have "ra_samples r2 \<noteq> ra_samples r"
    proof
      assume e: "ra_samples r2 = ra_samples r"
      then have "\<not> spent (ra_samples r2)" using samples(1) by (simp add: spent_def)
      then have "ra_nodes r2 = ra_nodes r" "ra_nodes6 r2 = ra_nodes6 r" using assms(2) unfolding shrunk_def by blast+
      with e eq assms(3) show False by blast
    qed
    then have "cut (Some (butlast (x # xs))) (ra_samples r2)"
      using assms(2) samples(1) by (intro step) (simp_all add: shrunk_def)
    then show ?thesis using assms(2) v samples unfolding shrunk_def by simp
  next
    case nodes
    have s: "ra_samples r2 = ra_samples r" using assms(2) nodes(1) by (intro keep) (simp_all add: shrunk_def)
    have "ra_nodes r2 \<noteq> ra_nodes r"
    proof
      assume e: "ra_nodes r2 = ra_nodes r"
      then have "\<not> spent (ra_nodes r2)" using nodes(2) by (simp add: spent_def)
      then have "ra_nodes6 r2 = ra_nodes6 r" using assms(2) unfolding shrunk_def by blast
      with s e eq assms(3) show False by blast
    qed
    then have "cut (Some (butlast (x # xs))) (ra_nodes r2)"
      using assms(2) nodes(2) by (intro step) (simp_all add: shrunk_def)
    then show ?thesis using assms(2) v nodes s unfolding shrunk_def by simp
  next
    case nodes6
    have s: "ra_samples r2 = ra_samples r" using assms(2) nodes6(1) by (intro keep) (simp_all add: shrunk_def)
    have n: "ra_nodes r2 = ra_nodes r" using assms(2) nodes6(2) by (intro keep) (simp_all add: shrunk_def)
    have "ra_nodes6 r2 \<noteq> ra_nodes6 r" using eq [OF s n] assms(3) by blast
    then have "cut (Some (butlast (x # xs))) (ra_nodes6 r2)"
      using assms(2) nodes6(3) by (intro step) (simp_all add: shrunk_def)
    then show ?thesis using assms(2) v nodes6 s n unfolding shrunk_def by simp
  qed
qed

text \<open>
  C34: a response that is sent fits into the limit, keeps the identifier, the token and the counters, and loses no more than
  it must: its lists are prefixes of the prepared ones, cut in the order peers, samples, IPv4 nodes, IPv6 nodes
  (a later one only when the earlier ones are used up, and peers are left out altogether before an empty list of
  them would remain); every larger response of this form, in number of records and of lists that are there,
  is longer than the limit; and a response that fits is sent as it is.
\<close>

theorem fit_response_bounded:
  assumes "fit_response encode limit m = Some m'"
  shows "(\<exists>bs. encode m' = Inr bs \<and> length bs \<le> limit) \<and> (m' = m \<or> (\<exists>bs. encode m = Inr bs \<and> limit < length bs)) \<and>
    (case km_r m of None \<Rightarrow> m' = m | Some r \<Rightarrow> \<exists>r'. m' = m\<lparr>km_r := Some r'\<rparr> \<and> shrunk r r' \<and>
       (\<forall>r2. shrunk r r2 \<longrightarrow> response_weight r' < response_weight r2 \<longrightarrow>
          (\<exists>bs. encode (m\<lparr>km_r := Some r2\<rparr>) = Inr bs \<and> limit < length bs)))"
  using assms
proof (induction encode limit m rule: fit_response.induct)
  case (1 encode limit m)
  obtain bs where bs: "encode m = Inr bs" using "1.prems" by (subst (asm) fit_response.simps) (auto split: sum.splits)
  show ?case
  proof (cases "length bs \<le> limit")
    case True
    then have "m' = m" using "1.prems" bs by (subst (asm) fit_response.simps) simp
    moreover have "\<exists>r'. m = m\<lparr>km_r := Some r'\<rparr> \<and> shrunk r r' \<and> (\<forall>r2. shrunk r r2 \<longrightarrow> response_weight r' < response_weight r2 \<longrightarrow>
        (\<exists>bs. encode (m\<lparr>km_r := Some r2\<rparr>) = Inr bs \<and> limit < length bs))" if "km_r m = Some r" for r
      using that shrunk_weight by (intro exI [of _ r]) (auto simp: not_less [symmetric])
    ultimately show ?thesis using bs True by (simp split: option.split)
  next
    case False
    obtain r r1 where r: "km_r m = Some r" "shrink_response r = Some r1" "fit_response encode limit (m\<lparr>km_r := Some r1\<rparr>) = Some m'"
      using "1.prems" bs False by (subst (asm) fit_response.simps) (auto split: option.splits)
    from "1.IH" [OF bs False r] obtain r' where r': "\<exists>bs. encode m' = Inr bs \<and> length bs \<le> limit"
      "m' = m\<lparr>km_r := Some r'\<rparr>" "shrunk r1 r'"
      and larger: "\<And>r2. shrunk r1 r2 \<Longrightarrow> response_weight r' < response_weight r2 \<Longrightarrow>
          \<exists>bs. encode (m\<lparr>km_r := Some r2\<rparr>) = Inr bs \<and> limit < length bs" by auto
    have whole: "m\<lparr>km_r := Some r\<rparr> = m" using r(1) by simp
    have "\<exists>bs. encode (m\<lparr>km_r := Some r2\<rparr>) = Inr bs \<and> limit < length bs"
      if "shrunk r r2" "response_weight r' < response_weight r2" for r2
    proof (cases "r2 = r")
      case True
      then show ?thesis using bs False whole by simp
    next
      case different: False
      from larger [OF shrunk_next [OF r(2) that(1) different] that(2)] show ?thesis .
    qed
    then show ?thesis using r' bs False r(1) shrunk_step [OF r(2) r'(3)] by auto
  qed
qed

definition sized_encoder :: "krpc_message \<Rightarrow> string + bytes" where
  "sized_encoder m = Inr (replicate (40 + 6 * (case km_r m of None \<Rightarrow> 0
     | Some r \<Rightarrow> (case ra_values r of None \<Rightarrow> 0 | Some vs \<Rightarrow> length vs))) 0)"

definition peer_reply :: krpc_message where
  "peer_reply = response_message (SA4 1 2) [7] ((empty_response (NodeId []))
     \<lparr>ra_values := Some [PeerV4 (SocketV4 1 1), PeerV4 (SocketV4 2 2), PeerV4 (SocketV4 3 3)]\<rparr>)"

theorem fit_response_bounded_witness:
  "\<exists>m r. fit_response sized_encoder 52 peer_reply = Some m \<and> km_r m = Some r \<and>
     ra_values r = Some [PeerV4 (SocketV4 1 1), PeerV4 (SocketV4 2 2)] \<and> (\<exists>bs. sized_encoder m = Inr bs \<and> length bs \<le> 52)"
proof -
  let ?m = "peer_reply\<lparr>km_r := Some ((empty_response (NodeId []))\<lparr>ra_values := Some [PeerV4 (SocketV4 1 1), PeerV4 (SocketV4 2 2)]\<rparr>)\<rparr>"
  have "fit_response sized_encoder 52 ?m = Some ?m"
    by (subst fit_response.simps) (simp add: sized_encoder_def)
  then have f: "fit_response sized_encoder 52 peer_reply = Some ?m"
    by (subst fit_response.simps) (simp add: sized_encoder_def peer_reply_def response_message_def shrink_response_def)
  then show ?thesis using fit_response_bounded [OF f] by simp
qed

section \<open>The reply to a caller\<close>

definition grows :: "dispatcher \<Rightarrow> dispatcher \<Rightarrow> bool" where
  "grows d d' \<longleftrightarrow> (\<exists>rs. dp_replies d' = dp_replies d @ rs)"

lemma grows_trans [trans]: "grows a b \<Longrightarrow> grows b c \<Longrightarrow> grows a c"
  by (auto simp: grows_def)

lemma grows_refl [simp]: "grows d d"
  by (simp add: grows_def)


lemma grows_eq: "dp_replies b = dp_replies a \<Longrightarrow> grows b c \<Longrightarrow> grows a c"
  by (simp add: grows_def)

lemma grows_answer [simp]: "grows d (answer d c r)" "grows d (reclaim d p)"
  by (simp_all add: grows_def answer_def reclaim_def split: pending_purpose.split)

lemma noted_replies [simp]: "dp_replies (note_sent d p) = dp_replies d" "dp_replies (note_limited d p) = dp_replies d"
  by (simp_all add: note_sent_def note_limited_def split: pending_purpose.split)

lemma start_error_grows: "finish_start_error en d p e now = Some d' \<Longrightarrow> grows d d'"
  by (cases p) (auto simp: grows_def answer_def split: option.splits)

lemma drop_ticket_replies: "drop_ticket en d q = Some d' \<Longrightarrow> dp_replies d' = dp_replies d"
  by (auto simp: drop_ticket_def)

lemma send_rpc_grows:
  assumes "send_rpc en d r query p now = Some d'"
  shows "grows d d'"
proof -
  obtain tm res where reg: "register (dp_transactions d) (rn_address r) (fst (outbound_fields query)) now = (tm, res)" by fastforce
  show ?thesis
  proof (cases res)
    case (Inl e)
    then show ?thesis using assms reg start_error_grows [of en "d\<lparr>dp_transactions := tm\<rparr>"] by (auto simp: send_rpc_def grows_def)
  next
    case (Inr i)
    then show ?thesis using assms reg
      by (auto simp: send_rpc_def Let_def grows_def split: sum.splits option.splits dest!: start_error_grows)
  qed
qed

lemma outbound_grows: "outbound_loop en now d kept qs = Some d' \<Longrightarrow> grows d d'"
proof (induction qs arbitrary: d kept)
  case (Cons q qs)
  let ?d = "d\<lparr>dp_queued := kept @ qs\<rparr>" and ?p = "qi_purpose q"
  have later: "grows d d'" if "grows ?d e" "drop_ticket en e t = Some e'" "outbound_loop en now e' kept qs = Some d'" for e e' t
    using that drop_ticket_replies [OF that(2)] Cons.IH [OF that(3)] by (auto simp: grows_def)
  consider (gone) "purpose_cancelled (en_gone en) ?p"
    | (late) "\<not> purpose_cancelled (en_gone en) ?p" "now \<ge> qi_deadline q"
    | (due) "\<not> purpose_cancelled (en_gone en) ?p" "\<not> now \<ge> qi_deadline q" by blast
  then show ?case
  proof cases
    case gone
    then obtain e' where "drop_ticket en (reclaim ?d ?p) (qi_record q) = Some e'" "outbound_loop en now e' kept qs = Some d'"
      using Cons.prems by (auto split: option.splits)
    then show ?thesis using later [of "reclaim ?d ?p"] by simp
  next
    case late
    then obtain e e' where "finish_start_error en ?d ?p LocalWait now = Some e"
      "drop_ticket en e (ticket_finish (qi_record q) 2) = Some e'" "outbound_loop en now e' kept qs = Some d'"
      using Cons.prems by (auto split: option.splits)
    then show ?thesis using later start_error_grows by blast
  next
    case due
    show ?thesis
    proof (cases "en_encode en (outbound_message (qi_query q) (rt_local_id (dp_routing d)) (replicate 4 0))")
      case (Inl x)
      then obtain e e' where "finish_start_error en ?d ?p (TransportFailed (Encode x)) now = Some e"
        "drop_ticket en e (ticket_finish (qi_record q) 3) = Some e'" "outbound_loop en now e' kept qs = Some d'"
        using due Cons.prems by (auto split: option.splits)
      then show ?thesis using later start_error_grows by blast
    next
      case (Inr bs)
      obtain b dec where b: "query_observed (en_gcra en) (dp_budget d) (purpose_class ?p)
                  (sa_ip (rn_address (qi_remote q))) (length bs) (en_fresh en) = Some (b, dec)"
        using due Inr Cons.prems by (auto split: option.splits)
      obtain b1 ticket where t: "ticket_blocked b (qi_record q) (dc_reasons dec) = (b1, ticket)" by fastforce
      show ?thesis
      proof (cases "dc_wait dec = 0")
        case True
        then obtain b2 e e' where e: "drop_ticket en (d\<lparr>dp_budget := b2, dp_queued := kept @ qs\<rparr>) (ticket_finish ticket 0) = Some e"
          "send_rpc en e (qi_remote q) (qi_query q) (without_permit ?p) now = Some e'" "outbound_loop en now e' kept qs = Some d'"
          using due Inr b t Cons.prems by (auto split: option.splits)
        show ?thesis using drop_ticket_replies [OF e(1)] send_rpc_grows [OF e(2)] Cons.IH [OF e(3)] by (auto simp: grows_def)
      next
        case False
        from Cons.prems have "\<exists>x k y. outbound_loop en now (note_limited (d\<lparr>dp_budget := b1, dp_queued := x\<rparr>) ?p\<lparr>dp_queue_deadline := y\<rparr>) k qs = Some d'"
          using due Inr b t False by (auto simp: Let_def)
        then obtain x k y where "outbound_loop en now (note_limited (d\<lparr>dp_budget := b1, dp_queued := x\<rparr>) ?p\<lparr>dp_queue_deadline := y\<rparr>) k qs = Some d'"
          by blast
        from Cons.IH [OF this] show ?thesis by (simp add: grows_def)
      qed
    qed
  qed
qed simp

lemma advance_grows: "advance_outbound en d now = Some d' \<Longrightarrow> grows d d'"
  unfolding advance_outbound_def by (drule outbound_grows) (simp add: grows_def)

lemma start_rpc_grows:
  assumes "start_rpc en d r query p now = Some d'"
  shows "grows d d'"
proof -
  have q: "dp_replies (enqueue en x r query p' now) = dp_replies x" for x p' by (simp add: enqueue_def split: prod.split)
  show ?thesis using assms
    by (cases p) (auto simp: start_rpc_def Let_def grows_def q answer_def split: if_splits option.splits dest!: start_error_grows advance_grows)
qed

lemma start_query_grows: "start_query en d r q target p now = Some d' \<Longrightarrow> grows d d'"
  by (auto simp: start_query_def split: query_method.splits option.splits dest!: start_rpc_grows start_error_grows)

lemma insert_outcome_grows: "handle_insert_outcome en d out now = Some d' \<Longrightarrow> grows d d'"
  by (cases out) (auto simp: handle_insert_outcome_def start_bucket_probe_def split: list.splits if_splits dest!: start_query_grows
      intro: grows_eq [rotated])

lemma match_pending_removes:
  assumes "tm_inv (dp_transactions d)" and "match_pending d m now = Some (Matched d1 p)"
  obtains i where "tid_try_from (km_t (rm_message m)) = Inr i" and "hm_get (dp_pending d) i = Some p"
    and "hm_get (dp_pending d1) i = None" and "hm_get (tm_pending (dp_transactions d1)) i = None"
proof -
  obtain tm c where c: "complete (dp_transactions d) (km_t (rm_message m)) (rm_source m) now = Some (tm, Inr c)"
    "hm_get (dp_pending d) (pt_id (ct_transaction c)) = Some p"
    "d1 = d\<lparr>dp_transactions := tm, dp_pending := hm_remove (pt_id (ct_transaction c)) (dp_pending d)\<rparr>"
    using assms(2) by (auto simp: match_pending_def Let_def split: option.splits sum.splits transaction_error.splits)
  then obtain i t where i: "tid_try_from (km_t (rm_message m)) = Inr i" "hm_get (tm_pending (dp_transactions d)) i = Some t"
    "ct_transaction c = t" "tm = (dp_transactions d)\<lparr>tm_pending := hm_remove i (tm_pending (dp_transactions d))\<rparr>"
    by (auto simp: complete_def Let_def split: option.splits sum.splits if_splits)
  have "pt_id t = i" using assms(1) hm_get_in [OF i(2)] by (auto simp: tm_inv_def pending_ok_def)
  then show ?thesis using that [of i] c i by simp
qed

text \<open>
  C21: a response that belongs to a pending \<open>get_peers\<close> query of a caller and passes the checks is delivered: the
  next reply that the dispatcher hands out is that caller's, with the peers and nodes decoded from the
  response. The query was pending under the transaction identifier of the response; it is taken out of both maps, and
  in the end the caller has fewer queries queued or pending than before.
\<close>

theorem fetch_is_answered:
  assumes "d_inv I [] [] {} r d" and "message_ok (rm_message m)" and "km_y (rm_message m) = Response"
    and "match_pending d m now = Some (Matched d1 p)" and "pd_purpose p = PFetch c"
    and "check_response d1 m p = Inr (a, VPeers g)"
  shows "\<exists>d' rest i. handle_received en d m now = Some d' \<and> dp_replies d' = dp_replies d @ (c, RPeers (Inr g)) # rest \<and>
    tid_try_from (km_t (rm_message m)) = Inr i \<and> hm_get (dp_pending d) i = Some p \<and>
    hm_get (dp_pending d1) i = None \<and> hm_get (tm_pending (dp_transactions d1)) i = None \<and>
    count (mset (gather callers_of (outstanding d'))) c < count (mset (gather callers_of (outstanding d))) c"
proof -
  obtain d' where d': "handle_response en d m now = Some d'" and inv: "d_inv I [] [] {} 0 d'"
    using handle_response_ok [OF assms(1,2)] by (auto simp: keeps_state_def settled_def)
  obtain i where i: "tid_try_from (km_t (rm_message m)) = Inr i" "hm_get (dp_pending d) i = Some p"
    "hm_get (dp_pending d1) i = None" "hm_get (tm_pending (dp_transactions d1)) i = None"
    using match_pending_removes [OF _ assms(4)] assms(1) by (auto simp: d_inv_def maps_ok_def)
  have same: "dp_replies d1 = dp_replies d"
    using assms(4) by (auto simp: match_pending_def Let_def split: option.splits sum.splits transaction_error.splits)
  let ?d = "(observe_external d1 (rm_source m) (km_ip (rm_message m)) now)\<lparr>dp_budget := validated (dp_budget (observe_external d1 (rm_source m) (km_ip (rm_message m)) now)) (sa_ip (rm_source m))\<rparr>"
  have e: "dp_replies (observe_external d1 s bs now) = dp_replies d1" for s bs
    by (simp add: observe_external_def split: option.split prod.split)
  obtain rt out where "handle_insert_outcome en (answer (?d\<lparr>dp_routing := rt\<rparr>) c (RPeers (Inr g))) out now = Some d'"
    using d' assms(4-6) by (auto simp: handle_response_def Let_def finish_success_def split: option.splits)
  from insert_outcome_grows [OF this] obtain rest where rest: "dp_replies d' = dp_replies d @ (c, RPeers (Inr g)) # rest"
    by (auto simp: grows_def answer_def e same)
  have "mset (map fst (dp_replies d)) + mset (gather callers_of (outstanding d)) =
      mset (map fst (dp_replies d')) + mset (gather callers_of (outstanding d'))"
    using assms(1) inv by (simp add: d_inv_def)
  from arg_cong [OF this, of "\<lambda>M. count M c"]
  have "count (mset (gather callers_of (outstanding d'))) c < count (mset (gather callers_of (outstanding d))) c"
    by (simp add: rest)
  with i rest d' assms(3) show ?thesis by (auto simp: handle_received_def)
qed


definition searching :: "dispatcher \<Rightarrow> dispatcher" where
  "searching d = d\<lparr>dp_transactions := (dp_transactions d)\<lparr>tm_pending := [(TransactionId [0, 0, 0, 1],
       \<lparr>pt_id = TransactionId [0, 0, 0, 1], pt_destination = SA4 20 1000, pt_method = GetPeers, pt_started_at = 0, pt_deadline = secs 5\<rparr>)]\<rparr>,
     dp_pending := [(TransactionId [0, 0, 0, 1], \<lparr>pd_remote = \<lparr>rn_address = SA4 20 1000, rn_expected_id = None\<rparr>, pd_purpose = PFetch 7\<rparr>)]\<rparr>"

theorem fetch_is_answered_witness:
  "\<exists>b d d' rest. first_dispatcher b = Inr d \<and> handle_received (quiet_env 5) (searching d) peers_message 5 = Some d' \<and>
     dp_replies d' = (7, RPeers (Inr \<lparr>gp_nodes = [], gp_peers = []\<rparr>)) # rest \<and>
     count (mset (gather callers_of (outstanding d'))) 7 < count (mset (gather callers_of (outstanding (searching d)))) 7"
proof -
  obtain b d where d: "first_dispatcher b = Inr d" "d_inv {#} [] [] {} 0 d" using first_inv by blast
  have f: "dp_queued d = []" "dp_replies d = []" "dp_pending d = []" "tm_max_pending (dp_transactions d) = 64" "tm_timeout (dp_transactions d) = secs 5" "ms_lookup (dp_maintenance d) = None"
    using d(1) by (auto simp: first_dispatcher_def with_budget_def tm_new_def tm_with_initial_counter_def maintenance_new_def
        split: if_splits sum.splits)
  have "hm_get [(k, v)] i = Some x \<longleftrightarrow> i = k \<and> x = v" for k v i x
    by (auto simp: hm_get_def)
  note single = this
  have "links [] d" "maps_ok {} d" using d(2) f by (simp_all add: d_inv_def outstanding_def hm_values_def)
  then have "d_inv {#7#} [] [] {} 0 (searching d)"
    using d(2) f by (simp add: d_inv_def searching_def outstanding_def hm_values_def maps_ok_def links_def lookup_links_def
        hm_ok_def tm_inv_def pending_ok_def occupied_def target_ok_def has_permit_def single)
  moreover have "message_ok (rm_message peers_message)" by (simp add: message_ok_def peers_message_def args_ok_def)
  moreover have "km_y (rm_message peers_message) = Response" by (simp add: peers_message_def)
  moreover have "\<exists>d1. match_pending (searching d) peers_message 5 = Some (Matched d1
      \<lparr>pd_remote = \<lparr>rn_address = SA4 20 1000, rn_expected_id = None\<rparr>, pd_purpose = PFetch 7\<rparr>)"
  proof -
    obtain tm t where "complete (dp_transactions (searching d)) [0, 0, 0, 1] (SA4 20 1000) 5 = Some (tm, Inr t)"
      "pt_id (ct_transaction t) = TransactionId [0, 0, 0, 1]"
      by (simp add: complete_def tid_try_from_def searching_def hm_get_def)
    then show ?thesis by (simp add: match_pending_def peers_message_def) (simp add: searching_def hm_get_def)
  qed
  moreover have "\<exists>a. check_response d1 peers_message \<lparr>pd_remote = \<lparr>rn_address = SA4 20 1000, rn_expected_id = None\<rparr>, pd_purpose = PFetch 7\<rparr> =
      Inr (a, VPeers \<lparr>gp_nodes = [], gp_peers = []\<rparr>)" for d1
    by (simp add: check_response_def peers_message_def decode_for_def decode_peers_def)
  moreover have "dp_replies (searching d) = []" by (simp add: searching_def f)
  ultimately show ?thesis using fetch_is_answered [of "{#7#}" 0 "searching d" peers_message 5] d(1) by fastforce
qed

end
