(* ===== verification/PeerWire.thy ===== *)
theory PeerWire imports Metainfo Ordering begin

text \<open>
  The byte level of the peer protocol: \<open>src/collection/peer/wire/mod.rs\<close> (standard handshake, extension
  handshake, metadata messages) with the error kinds of \<open>wire/error.rs\<close>. The decoder of the bendy crate is
  a parameter: the object that \<open>next_object\<close> finds, as a \<open>raw\<close> value of theory Metainfo, and the length of the
  dictionary that \<open>into_raw\<close> returns. The bounded text and the key inspection that an error carries for
  diagnostics are left out.
\<close>

section \<open>Handshake\<close>

datatype wire_error = ProtocolName | HandshakeHash | MalformedBencode | MissingDictionary | DictionaryRoot
  | InvalidDictionary | IntegerType | IntegerOverflow | ExtensionTooLarge | ExtensionTrailing | ExtensionMalformed
  | ExtensionMapType | ExtensionMapMalformed | ExtensionIdRange | MetadataSizeRange | MetadataHeaderMalformed
  | PieceRange | TotalSizeRange | MissingPiece | MissingMessageType | MissingTotalSize | UnexpectedPayload
  | PieceOrSizeMismatch | PieceLength | ConflictingPiece | UnrequestedPiece | MetadataSizeChanged | InfoTrailing
  | MissingExtensionId | MetadataBeforeNegotiation

definition BLOCK_SIZE :: nat where
  "BLOCK_SIZE = 16384"

definition LOCAL_METADATA_ID :: u8 where
  "LOCAL_METADATA_ID = 1"

type_synonym peer_id = bytes

definition handshake :: "swarm_key \<Rightarrow> peer_id \<Rightarrow> bytes" where
  "handshake h i = [19] @ ascii ''BitTorrent protocol'' @ [0, 0, 0, 0, 0, 0x10, 0, 0] @ key_bytes h @ i"

record handshake_info =
  hi_peer_id :: peer_id
  hi_supports_extensions :: bool

definition parse_handshake :: "bytes \<Rightarrow> swarm_key \<Rightarrow> wire_error + handshake_info" where
  "parse_handshake bs h =
     (if bs ! 0 \<noteq> 19 \<or> take 19 (drop 1 bs) \<noteq> ascii ''BitTorrent protocol'' then Inl ProtocolName
      else if take 20 (drop 28 bs) \<noteq> key_bytes h then Inl HandshakeHash
      else Inr \<lparr>hi_peer_id = drop 48 bs, hi_supports_extensions = (and (bs ! 25) 0x10 \<noteq> 0)\<rparr>)"

section \<open>Dictionaries\<close>

text \<open>What the decoder with a depth limit returns: an error, nothing, or an object; and the length of a root dictionary.\<close>

record wire_decoder =
  wd_next :: "nat \<Rightarrow> bytes \<Rightarrow> raw option option"
  wd_raw :: "nat \<Rightarrow> bytes \<Rightarrow> nat option"

definition root_dictionary :: "wire_decoder \<Rightarrow> bytes \<Rightarrow> nat \<Rightarrow> wire_error \<Rightarrow> wire_error \<Rightarrow> wire_error + (bytes \<times> raw) list \<times> bool" where
  "root_dictionary wd bs depth malformed root =
     (case wd_next wd depth bs of
        None \<Rightarrow> Inl malformed
      | Some None \<Rightarrow> Inl MissingDictionary
      | Some (Some (RDict ps broken)) \<Rightarrow> Inr (ps, broken)
      | Some (Some _) \<Rightarrow> Inl root)"

definition dictionary_prefix :: "wire_decoder \<Rightarrow> bytes \<Rightarrow> nat \<Rightarrow> wire_error + bytes" where
  "dictionary_prefix wd bs depth =
     and_then (root_dictionary wd bs depth MalformedBencode DictionaryRoot) (\<lambda>_.
       case wd_raw wd depth bs of None \<Rightarrow> Inl InvalidDictionary | Some n \<Rightarrow> Inr (take n bs))"

fun wire_integer :: "raw \<Rightarrow> wire_error + int" where
  "wire_integer (RInteger t) = (case parse_i64 t of None \<Rightarrow> Inl IntegerOverflow | Some n \<Rightarrow> Inr n)"
| "wire_integer _ = Inl IntegerType"

section \<open>The extension handshake\<close>

datatype extension_mode = Strict | UnsortedCompatible

record extension_update =
  eu_mode :: extension_mode
  eu_metadata_id :: "u8 option"
  eu_metadata_size :: "nat option"

fun extension_ids :: "(bytes \<times> raw) list \<Rightarrow> bool \<Rightarrow> u8 option \<Rightarrow> wire_error + u8 option" where
  "extension_ids [] broken i = (if broken then Inl ExtensionMapMalformed else Inr i)"
| "extension_ids ((name, v) # ps) broken i =
     (if name = ascii ''ut_metadata'' then and_then (wire_integer v) (\<lambda>n.
        if n < 0 \<or> 255 < n then Inl ExtensionIdRange else extension_ids ps broken (Some (of_int n)))
      else extension_ids ps broken i)"

fun extension_fields :: "(bytes \<times> raw) list \<Rightarrow> bool \<Rightarrow> extension_update \<Rightarrow> wire_error + extension_update" where
  "extension_fields [] broken u = (if broken then Inl ExtensionMalformed else Inr u)"
| "extension_fields ((key, v) # ps) broken u =
     (if key = ascii ''m'' then
        (case v of
           RDict es bad \<Rightarrow> and_then (extension_ids es bad (eu_metadata_id u)) (\<lambda>i.
             extension_fields ps broken (u\<lparr>eu_metadata_id := i\<rparr>))
         | _ \<Rightarrow> Inl ExtensionMapType)
      else if key = ascii ''metadata_size'' then and_then (wire_integer v) (\<lambda>n.
        if n < 0 then Inl MetadataSizeRange else extension_fields ps broken (u\<lparr>eu_metadata_size := Some (nat n)\<rparr>))
      else extension_fields ps broken u)"

definition parse_extension_strict :: "wire_decoder \<Rightarrow> bytes \<Rightarrow> nat \<Rightarrow> nat \<Rightarrow> wire_error + extension_update" where
  "parse_extension_strict wd bs header_limit depth =
     (if length bs > header_limit then Inl ExtensionTooLarge
      else and_then (dictionary_prefix wd bs depth) (\<lambda>raw.
        if length raw \<noteq> length bs then Inl ExtensionTrailing
        else and_then (root_dictionary wd raw depth ExtensionMalformed DictionaryRoot) (\<lambda>(ps, broken).
          extension_fields ps broken \<lparr>eu_mode = Strict, eu_metadata_id = None, eu_metadata_size = None\<rparr>)))"

text \<open>A panic inside the normalisation is \<open>None\<close>.\<close>

definition parse_extension :: "wire_decoder \<Rightarrow> object_reader \<Rightarrow> bytes \<Rightarrow> nat \<Rightarrow> nat \<Rightarrow> (wire_error + extension_update) option" where
  "parse_extension wd nx bs header_limit depth =
     (case parse_extension_strict wd bs header_limit depth of
        Inr u \<Rightarrow> Some (Inr u)
      | Inl e \<Rightarrow>
          if e \<noteq> InvalidDictionary then Some (Inl e)
          else (case normalize_extension nx bs header_limit depth of
              None \<Rightarrow> None
            | Some (Inl _) \<Rightarrow> Some (Inl e)
            | Some (Inr normalized) \<Rightarrow> Some (case parse_extension_strict wd normalized header_limit depth of
                  Inl _ \<Rightarrow> Inl e
                | Inr u \<Rightarrow> Inr (u\<lparr>eu_mode := UnsortedCompatible\<rparr>))))"

section \<open>Metadata messages\<close>

datatype metadata_message = MRequest nat | MData nat nat bytes | MReject nat | MUnknown

text \<open>The fields of a header; \<open>None\<close> is a message type beyond 2, at which the scan stops.\<close>

fun metadata_fields :: "(bytes \<times> raw) list \<Rightarrow> bool \<Rightarrow> int option \<Rightarrow> nat option \<Rightarrow> nat option
    \<Rightarrow> wire_error + (int option \<times> nat option \<times> nat option) option" where
  "metadata_fields [] broken kind piece tot = (if broken then Inl MetadataHeaderMalformed else Inr (Some (kind, piece, tot)))"
| "metadata_fields ((key, v) # ps) broken kind piece tot =
     (if key = ascii ''msg_type'' then and_then (wire_integer v) (\<lambda>n.
        if n < 0 \<or> 2 < n then Inr None else metadata_fields ps broken (Some n) piece tot)
      else if key = ascii ''piece'' then and_then (wire_integer v) (\<lambda>n.
        if n < 0 then Inl PieceRange else metadata_fields ps broken kind (Some (nat n)) tot)
      else if key = ascii ''total_size'' then and_then (wire_integer v) (\<lambda>n.
        if n < 0 then Inl TotalSizeRange else metadata_fields ps broken kind piece (Some (nat n)))
      else metadata_fields ps broken kind piece tot)"

definition parse_metadata :: "wire_decoder \<Rightarrow> bytes \<Rightarrow> nat \<Rightarrow> nat \<Rightarrow> wire_error + metadata_message" where
  "parse_metadata wd bs header_limit depth =
     and_then (dictionary_prefix wd (take header_limit bs) depth) (\<lambda>raw.
       let payload = drop (length raw) bs in
       and_then (root_dictionary wd raw depth MetadataHeaderMalformed MetadataHeaderMalformed) (\<lambda>(ps, broken).
         and_then (metadata_fields ps broken None None None) (\<lambda>fs. case fs of
             None \<Rightarrow> Inr MUnknown
           | Some (kind, piece, tot) \<Rightarrow>
               and_then (ok_or piece MissingPiece) (\<lambda>piece.
                 and_then (ok_or kind MissingMessageType) (\<lambda>kind.
                   if kind = 0 \<and> payload = [] then Inr (MRequest piece)
                   else if kind = 2 \<and> payload = [] then Inr (MReject piece)
                   else if kind = 1 then and_then (ok_or tot MissingTotalSize) (\<lambda>tot. Inr (MData piece tot payload))
                   else Inl UnexpectedPayload)))))"

definition extended :: "u8 \<Rightarrow> bytes \<Rightarrow> bytes" where
  "extended i payload = [20, i] @ payload"

definition extension_handshake :: bytes where
  "extension_handshake = extended 0 (ascii ''d1:md11:ut_metadatai1eee'')"

text \<open>\<open>header\<close> is the bencode of \<open>{msg_type, piece}\<close> that the serializer writes; its failure is a panic.\<close>

definition metadata_control :: "(u8 \<Rightarrow> nat \<Rightarrow> bytes option) \<Rightarrow> u8 \<Rightarrow> u8 \<Rightarrow> nat \<Rightarrow> bytes option" where
  "metadata_control header i kind piece = map_option (extended i) (header kind piece)"

section \<open>Properties of the messages\<close>

lemma ascii_length [simp]: "length (ascii s) = length s"
  by (simp add: ascii_def)

text \<open>
  The two sides of the standard handshake agree: what \<open>handshake\<close> writes is 68 bytes long and is parsed to
  the identifier that was put in, with the extension bit; for any other hash it is refused as a mismatch.
\<close>

lemma handshake_parts:
  assumes "length (key_bytes h) = 20" and "length i = 20"
  shows "length (handshake h i) = 68" "take 19 (drop 1 (handshake h i)) = ascii ''BitTorrent protocol''"
    "take 20 (drop 28 (handshake h i)) = key_bytes h" "drop 48 (handshake h i) = i" "handshake h i ! 0 = 19" "handshake h i ! 25 = 0x10"
  using assms by (simp_all add: handshake_def ascii_def)

theorem handshake_roundtrip:
  assumes "length (key_bytes h) = 20" and "length i = 20"
  shows "length (handshake h i) = 68 \<and>
    parse_handshake (handshake h i) h = Inr \<lparr>hi_peer_id = i, hi_supports_extensions = True\<rparr> \<and>
    (\<forall>k. key_bytes k \<noteq> key_bytes h \<longrightarrow> parse_handshake (handshake h i) k = Inl HandshakeHash)"
  using handshake_parts [OF assms] by (simp add: parse_handshake_def)

lemma prefix_of_dictionary: "dictionary_prefix wd bs depth = Inr raw \<Longrightarrow> \<exists>n. raw = take n bs"
  by (auto simp: dictionary_prefix_def split: option.splits)

lemma metadata_payload:
  "parse_metadata wd bs limit depth = Inr (MData piece tot data) \<Longrightarrow> \<exists>n. data = drop n bs"
  by (auto simp: parse_metadata_def Let_def split: option.splits if_splits)

end
