(* ===== verification/PeerSession.thy ===== *)
theory PeerSession imports PeerWire Address begin

text \<open>
  One metadata download from one peer: \<open>src/collection/peer/session/mod.rs\<close>, with the configuration and the
  errors of \<open>src/collection/peer/mod.rs\<close>. The socket is an input: per iteration of the loop, the times that are
  read, the outcome of every send and what the stream yields next. An \<open>expect\<close>, an index out of range or a
  failure of the serializer is \<open>None\<close>. What was sent is kept as a list.
\<close>

section \<open>Configuration and errors\<close>

record metadata_config =
  me_task_timeout :: duration
  me_peer_timeout :: duration
  me_connect_timeout :: duration
  me_handshake_timeout :: duration
  me_piece_timeout :: duration
  me_request_window :: nat
  me_max_metadata_size :: nat
  me_max_frame_size :: nat
  me_max_header_size :: nat
  me_max_depth :: nat
  me_max_received_bytes :: nat
  me_max_received_frames :: nat
  me_address_policy :: address_policy

definition default_metadata_config :: metadata_config where
  "default_metadata_config = \<lparr>me_task_timeout = secs 120, me_peer_timeout = secs 30, me_connect_timeout = secs 5,
     me_handshake_timeout = secs 5, me_piece_timeout = secs 10, me_request_window = 4,
     me_max_metadata_size = 4 * 1024 * 1024, me_max_frame_size = 64 * 1024, me_max_header_size = 4096, me_max_depth = 64,
     me_max_received_bytes = 16 * 1024 * 1024, me_max_received_frames = 4096, me_address_policy = PublicOnly\<rparr>"

text \<open>\<open>now\<close> is the clock that \<open>Instant::now\<close> reads; additions beyond \<open>2 ^ 63\<close> seconds are refused by \<open>checked_add\<close>.\<close>

definition metadata_config_ok :: "metadata_config \<Rightarrow> instant \<Rightarrow> bool" where
  "metadata_config_ok c now \<longleftrightarrow> me_request_window c > 0 \<and> me_max_metadata_size c > 0 \<and> me_max_metadata_size c < 2 ^ 63 \<and>
     me_max_header_size c > 0 \<and> me_max_header_size c + (BLOCK_SIZE + 2) < 2 ^ 64 \<and>
     me_max_header_size c + (BLOCK_SIZE + 2) \<le> me_max_frame_size c \<and> me_max_frame_size c < 2 ^ 32 \<and>
     me_max_depth c > 0 \<and> me_max_depth c \<le> 64 \<and> me_max_received_bytes c \<ge> me_max_metadata_size c \<and>
     me_max_received_frames c > 0 \<and>
     list_all (\<lambda>d. d \<noteq> 0 \<and> now + d < secs (2 ^ 63)) [me_task_timeout c, me_peer_timeout c, me_connect_timeout c,
       me_handshake_timeout c, me_piece_timeout c]"

datatype deadline = NoDeadline | StageDeadline | PeerDeadline | TaskDeadline

datatype resource_limit = FrameLength | ReceiveOverflow | ReceiveBudget | MetadataSize

datatype peer_error = PeerIo | PeerTimeout deadline | PeerProtocol wire_error | PeerUnsupported | PeerLimit resource_limit
  | PeerRejected nat | PeerDisconnected | PeerHashMismatch | HandshakeHashMismatch

record verified_metadata =
  vm_used_extension_compatibility :: bool
  vm_info_hash :: swarm_key
  vm_source :: socket_addr
  vm_peer_id :: peer_id
  vm_info :: bytes

section \<open>Pieces\<close>

record pieces =
  pc_bytes :: bytes
  pc_complete :: "bool list"
  pc_deadlines :: "instant option list"
  pc_next :: nat
  pc_received :: nat

definition div_up :: "nat \<Rightarrow> nat \<Rightarrow> nat" where
  "div_up n k = (n + k - 1) div k"

definition pieces_new :: "nat \<Rightarrow> pieces" where
  "pieces_new n = (let k = div_up n BLOCK_SIZE in
     \<lparr>pc_bytes = replicate n 0, pc_complete = replicate k False, pc_deadlines = replicate k None, pc_next = 0, pc_received = 0\<rparr>)"

definition in_flight :: "pieces \<Rightarrow> instant list" where
  "in_flight p = List.map_filter id (pc_deadlines p)"

definition piece_deadline :: "pieces \<Rightarrow> instant \<Rightarrow> instant" where
  "piece_deadline p fallback = (case in_flight p of [] \<Rightarrow> fallback | d # ds \<Rightarrow> foldl min d ds)"

definition put_bytes :: "bytes \<Rightarrow> nat \<Rightarrow> bytes \<Rightarrow> bytes" where
  "put_bytes bs start data = take start bs @ data @ drop (start + length data) bs"

definition piece_data :: "pieces \<Rightarrow> nat \<Rightarrow> nat \<Rightarrow> bytes \<Rightarrow> (peer_error + pieces) option" where
  "piece_data p piece tot data =
     (if tot \<noteq> length (pc_bytes p) \<or> piece \<ge> length (pc_complete p) then Some (Inl (PeerProtocol PieceOrSizeMismatch))
      else let start = piece * BLOCK_SIZE; stop = min (start + BLOCK_SIZE) tot in
        if stop < start then None
        else if length data \<noteq> stop - start then Some (Inl (PeerProtocol PieceLength))
        else if pc_complete p ! piece then
          (if take (stop - start) (drop start (pc_bytes p)) \<noteq> data then Some (Inl (PeerProtocol ConflictingPiece)) else Some (Inr p))
        else if piece \<ge> length (pc_deadlines p) then None
        else if pc_deadlines p ! piece = None then Some (Inl (PeerProtocol UnrequestedPiece))
        else Some (Inr (p\<lparr>pc_bytes := put_bytes (pc_bytes p) start data, pc_complete := (pc_complete p)[piece := True],
          pc_deadlines := (pc_deadlines p)[piece := None], pc_received := pc_received p + 1\<rparr>)))"

section \<open>The session\<close>

text \<open>What the stream yields within the deadline.\<close>

datatype received = TimedOut | Closed | FrameTooLong | StreamError | Frame bytes

text \<open>
  The inputs of one iteration: the clock where the loop reads it, for every request the error or the time at which
  it was sent, the outcome of a reject, and the next frame.
\<close>

record session_input =
  si_now :: instant
  si_check :: instant
  si_request :: "nat \<Rightarrow> peer_error + instant"
  si_reject :: "peer_error option"
  si_received :: received

record session_params =
  sp_config :: metadata_config
  sp_hash :: swarm_key
  sp_address :: socket_addr
  sp_peer_id :: peer_id
  sp_handshake_deadline :: instant
  sp_decoder :: wire_decoder
  sp_reader :: object_reader
  sp_header :: "u8 \<Rightarrow> nat \<Rightarrow> bytes option"
  sp_matches :: "bytes \<Rightarrow> swarm_key \<Rightarrow> torrent_identity option"

record session =
  ss_remote_id :: "u8 option"
  ss_size :: "nat option"
  ss_pieces :: "pieces option"
  ss_bytes :: nat
  ss_frames :: nat
  ss_compatible :: bool
  ss_sent :: "bytes list"

definition initial_session :: session where
  "initial_session = \<lparr>ss_remote_id = None, ss_size = None, ss_pieces = None, ss_bytes = 68, ss_frames = 0,
     ss_compatible = False, ss_sent = [extension_handshake]\<rparr>"

text \<open>The window of requests is filled; \<open>sent\<close> are the messages that left.\<close>

function request_pieces :: "session_params \<Rightarrow> session_input \<Rightarrow> u8 \<Rightarrow> pieces \<Rightarrow> bytes list
    \<Rightarrow> (peer_error + pieces \<times> bytes list) option" where
  "request_pieces sp inp i p sent =
     (if pc_next p < length (pc_complete p) \<and> length (in_flight p) < me_request_window (sp_config sp) then
        (case metadata_control (sp_header sp) i 0 (pc_next p) of
           None \<Rightarrow> None
         | Some m \<Rightarrow>
            (case si_request inp (pc_next p) of
               Inl e \<Rightarrow> Some (Inl e)
             | Inr now \<Rightarrow>
                if pc_next p \<ge> length (pc_deadlines p) then None
                else request_pieces sp inp i
                  (p\<lparr>pc_deadlines := (pc_deadlines p)[pc_next p := Some (now + me_piece_timeout (sp_config sp))],
                     pc_next := pc_next p + 1\<rparr>) (sent @ [m])))
      else Some (Inr (p, sent)))"
  by pat_completeness auto
termination
  by (relation "measure (\<lambda>(_, _, _, p, _). length (pc_complete p) - pc_next p)") auto

declare request_pieces.simps [simp del]

definition receive_frame :: "metadata_config \<Rightarrow> received \<Rightarrow> session \<Rightarrow> peer_error + session \<times> bytes" where
  "receive_frame c r s =
     (case r of
        TimedOut \<Rightarrow> Inl (PeerTimeout StageDeadline)
      | Closed \<Rightarrow> Inl PeerDisconnected
      | FrameTooLong \<Rightarrow> Inl (PeerLimit FrameLength)
      | StreamError \<Rightarrow> Inl PeerIo
      | Frame f \<Rightarrow>
          if ss_bytes s + (length f + 4) \<ge> 2 ^ 64 then Inl (PeerLimit ReceiveOverflow)
          else (let s = s\<lparr>ss_bytes := ss_bytes s + (length f + 4), ss_frames := ss_frames s + 1\<rparr> in
            if ss_bytes s > me_max_received_bytes c \<or> ss_frames s > me_max_received_frames c
            then Inl (PeerLimit ReceiveBudget) else Inr (s, f)))"

definition apply_extension :: "metadata_config \<Rightarrow> extension_update \<Rightarrow> session \<Rightarrow> peer_error + session" where
  "apply_extension c u s =
     and_then (case eu_metadata_id u of
        None \<Rightarrow> Inr s
      | Some i \<Rightarrow> if i = 0 then Inl PeerUnsupported else Inr (s\<lparr>ss_remote_id := Some i\<rparr>)) (\<lambda>s.
     and_then (case eu_metadata_size u of
        None \<Rightarrow> Inr s
      | Some n \<Rightarrow>
          if n = 0 \<or> n > me_max_metadata_size c then Inl (PeerLimit MetadataSize)
          else if ss_pieces s \<noteq> None \<and> ss_size s \<noteq> Some n then Inl (PeerProtocol MetadataSizeChanged)
          else Inr (s\<lparr>ss_size := Some n\<rparr>)) (\<lambda>s.
     Inr (if ss_pieces s = None \<and> ss_remote_id s \<noteq> None
          then (case ss_size s of None \<Rightarrow> s | Some n \<Rightarrow> s\<lparr>ss_pieces := Some (pieces_new n)\<rparr>) else s)))"

definition verify_metadata :: "session_params \<Rightarrow> pieces \<Rightarrow> bool \<Rightarrow> peer_error + verified_metadata" where
  "verify_metadata sp p compatible =
     (if sp_matches sp (pc_bytes p) (sp_hash sp) = None then Inl PeerHashMismatch
      else case dictionary_prefix (sp_decoder sp) (pc_bytes p) (me_max_depth (sp_config sp)) of
        Inl e \<Rightarrow> Inl (PeerProtocol e)
      | Inr raw \<Rightarrow> if length raw \<noteq> length (pc_bytes p) then Inl (PeerProtocol InfoTrailing)
          else Inr \<lparr>vm_used_extension_compatibility = compatible, vm_info_hash = sp_hash sp, vm_source = sp_address sp,
            vm_peer_id = sp_peer_id sp, vm_info = pc_bytes p\<rparr>)"

datatype progress = Going session | Broken peer_error | Done verified_metadata

text \<open>The end of an iteration that handled a metadata message: the check for completion.\<close>

definition finish_if_received :: "session_params \<Rightarrow> session \<Rightarrow> pieces \<Rightarrow> progress" where
  "finish_if_received sp s p =
     (if pc_received p = length (pc_complete p)
      then (case verify_metadata sp p (ss_compatible s) of Inl e \<Rightarrow> Broken e | Inr m \<Rightarrow> Done m)
      else Going (s\<lparr>ss_pieces := Some p\<rparr>))"

definition handle_metadata :: "session_params \<Rightarrow> session_input \<Rightarrow> session \<Rightarrow> bytes \<Rightarrow> progress option" where
  "handle_metadata sp inp s body =
     (case ss_pieces s of
        None \<Rightarrow> Some (Broken (PeerProtocol MetadataBeforeNegotiation))
      | Some p \<Rightarrow>
         (case parse_metadata (sp_decoder sp) body (me_max_header_size (sp_config sp)) (me_max_depth (sp_config sp)) of
            Inl e \<Rightarrow> Some (Broken (PeerProtocol e))
          | Inr MUnknown \<Rightarrow> Some (finish_if_received sp s p)
          | Inr (MRequest piece) \<Rightarrow>
             (case ss_remote_id s of
                None \<Rightarrow> None
              | Some i \<Rightarrow>
                 (case metadata_control (sp_header sp) i 2 piece of
                    None \<Rightarrow> None
                  | Some m \<Rightarrow> (case si_reject inp of
                        Some e \<Rightarrow> Some (Broken e)
                      | None \<Rightarrow> Some (finish_if_received sp (s\<lparr>ss_sent := ss_sent s @ [m]\<rparr>) p))))
          | Inr (MReject piece) \<Rightarrow>
              if piece < length (pc_deadlines p) \<and> pc_deadlines p ! piece \<noteq> None then Some (Broken (PeerRejected piece))
              else Some (finish_if_received sp s p)
          | Inr (MData piece tot data) \<Rightarrow>
             (case piece_data p piece tot data of
                None \<Rightarrow> None
              | Some (Inl e) \<Rightarrow> Some (Broken e)
              | Some (Inr p) \<Rightarrow> Some (finish_if_received sp s p))))"

definition handle_frame :: "session_params \<Rightarrow> session_input \<Rightarrow> session \<Rightarrow> bytes \<Rightarrow> progress option" where
  "handle_frame sp inp s frame =
     (case frame of
        [] \<Rightarrow> Some (Going s)
      | k # rest \<Rightarrow>
          if k \<noteq> 20 then Some (Going s)
          else case rest of
            [] \<Rightarrow> Some (Broken (PeerProtocol MissingExtensionId))
          | i # body \<Rightarrow>
              if i = 0 then
                (case parse_extension (sp_decoder sp) (sp_reader sp) body (me_max_header_size (sp_config sp)) (me_max_depth (sp_config sp)) of
                   None \<Rightarrow> None
                 | Some (Inl e) \<Rightarrow> Some (Broken (PeerProtocol e))
                 | Some (Inr u) \<Rightarrow>
                    (case apply_extension (sp_config sp) u (s\<lparr>ss_compatible := ss_compatible s \<or> eu_mode u = UnsortedCompatible\<rparr>) of
                       Inl e \<Rightarrow> Some (Broken e)
                     | Inr s \<Rightarrow> Some (Going s)))
              else if i \<noteq> LOCAL_METADATA_ID then Some (Going s)
              else handle_metadata sp inp s body)"

definition session_step :: "session_params \<Rightarrow> session_input \<Rightarrow> session \<Rightarrow> progress option" where
  "session_step sp inp s =
     (case (case ss_pieces s of
        None \<Rightarrow> Some (Inr s)
      | Some p \<Rightarrow>
         (case ss_remote_id s of
            None \<Rightarrow> None
          | Some i \<Rightarrow> map_option (\<lambda>r. and_then r (\<lambda>(p, sent). Inr (s\<lparr>ss_pieces := Some p, ss_sent := sent\<rparr>)))
              (request_pieces sp inp i p (ss_sent s)))) of
        None \<Rightarrow> None
      | Some (Inl e) \<Rightarrow> Some (Broken e)
      | Some (Inr s) \<Rightarrow>
         (let at = (case ss_pieces s of
                Some p \<Rightarrow> piece_deadline p (si_now inp + me_piece_timeout (sp_config sp))
              | None \<Rightarrow> sp_handshake_deadline sp) in
          case (if si_check inp \<ge> at then Inl (PeerTimeout StageDeadline) else receive_frame (sp_config sp) (si_received inp) s) of
            Inl e \<Rightarrow> Some (Broken e)
          | Inr (s, frame) \<Rightarrow> handle_frame sp inp s frame))"

fun session_loop :: "session_params \<Rightarrow> session_input list \<Rightarrow> session \<Rightarrow> progress option" where
  "session_loop sp [] s = Some (Going s)"
| "session_loop sp (inp # is) s =
     (case session_step sp inp s of
        None \<Rightarrow> None
      | Some (Going s) \<Rightarrow> session_loop sp is s
      | Some x \<Rightarrow> Some x)"

text \<open>
  The whole fetch: the outcome of connecting, of the standard handshake (the 68 bytes read) and of sending the
  extension handshake, then the loop.
\<close>

definition exchange_handshake :: "swarm_key \<Rightarrow> peer_error + bytes \<Rightarrow> peer_error + handshake_info" where
  "exchange_handshake h io =
     and_then io (\<lambda>bs. case parse_handshake bs h of
        Inr info \<Rightarrow> Inr info
      | Inl e \<Rightarrow> Inl (if e = HandshakeHash then HandshakeHashMismatch else PeerProtocol e))"

definition fetch_peer :: "session_params \<Rightarrow> peer_error option \<Rightarrow> peer_error + bytes \<Rightarrow> peer_error option \<Rightarrow> session_input list
    \<Rightarrow> progress option" where
  "fetch_peer sp connect io greeting inputs =
     (case connect of
        Some e \<Rightarrow> Some (Broken e)
      | None \<Rightarrow>
         (case exchange_handshake (sp_hash sp) io of
            Inl e \<Rightarrow> Some (Broken e)
          | Inr info \<Rightarrow>
              if \<not> hi_supports_extensions info then Some (Broken PeerUnsupported)
              else case greeting of
                Some e \<Rightarrow> Some (Broken e)
              | None \<Rightarrow> session_loop (sp\<lparr>sp_peer_id := hi_peer_id info\<rparr>) inputs initial_session))"

section \<open>The client\<close>

datatype peer_init_error = InvalidConfig | Entropy

datatype peer_fetch_error = NoUsablePeers | FetchCancelled | TaskTimeout | PeerFailed socket_addr peer_error

record peer_client =
  cl_config :: metadata_config
  cl_peer_id :: peer_id

text \<open>\<open>fill\<close> is what the random source of the system returns.\<close>

definition build_client :: "metadata_config \<Rightarrow> instant \<Rightarrow> peer_init_error + bytes \<Rightarrow> peer_init_error + peer_client" where
  "build_client c now fill =
     (if \<not> metadata_config_ok c now then Inl InvalidConfig
      else and_then fill (\<lambda>i. Inr \<lparr>cl_config = c, cl_peer_id = i\<rparr>))"

text \<open>
  How the \<open>select!\<close> of \<open>fetch_one\<close> ends: by the cancellation, by the limit of the task, by the limit of the peer
  inside the task, or because the session has run to its end. A session that is still going is no end (\<open>None\<close>).
\<close>

datatype fetch_end = CancelEnd | TaskEnd | PeerEnd | SessionEnd progress

definition fetch_one :: "peer_client \<Rightarrow> socket_addr \<Rightarrow> bool \<Rightarrow> fetch_end \<Rightarrow> (peer_fetch_error + verified_metadata) option" where
  "fetch_one cl addr cancelled ended =
     (if cancelled then Some (Inl FetchCancelled)
      else if \<not> policy_accepts (me_address_policy (cl_config cl)) addr then Some (Inl NoUsablePeers)
      else case ended of
        CancelEnd \<Rightarrow> Some (Inl FetchCancelled)
      | TaskEnd \<Rightarrow> Some (Inl TaskTimeout)
      | PeerEnd \<Rightarrow> Some (Inl (PeerFailed addr (PeerTimeout PeerDeadline)))
      | SessionEnd (Going s) \<Rightarrow> None
      | SessionEnd (Broken e) \<Rightarrow> Some (Inl (PeerFailed addr e))
      | SessionEnd (Done m) \<Rightarrow> Some (Inr m))"

end
