(* ===== verification/PeerSessionProps.thy ===== *)
theory PeerSessionProps imports PeerSession begin

text \<open>
  The invariant of a download session: the pieces belong together, the window and the budgets hold, and every
  completed piece is the content of a data message that the peer sent for it.
\<close>

section \<open>Blocks of the buffer\<close>

definition block :: "bytes \<Rightarrow> nat \<Rightarrow> bytes" where
  "block bs k = take BLOCK_SIZE (drop (k * BLOCK_SIZE) bs)"

lemma block_size_pos [simp]: "0 < BLOCK_SIZE" "BLOCK_SIZE \<noteq> 0"
  by (simp_all add: BLOCK_SIZE_def)

lemma div_up_less: "k < div_up n BLOCK_SIZE \<longleftrightarrow> k * BLOCK_SIZE < n"
proof -
  have "k < div_up n BLOCK_SIZE \<longleftrightarrow> Suc k \<le> (n + BLOCK_SIZE - 1) div BLOCK_SIZE" by (simp add: div_up_def Suc_le_eq)
  also have "\<dots> \<longleftrightarrow> Suc k * BLOCK_SIZE \<le> n + BLOCK_SIZE - 1" by (rule less_eq_div_iff_mult_less_eq) simp
  also have "\<dots> \<longleftrightarrow> k * BLOCK_SIZE < n" by (simp add: BLOCK_SIZE_def) arith
  finally show ?thesis .
qed

lemma put_length: "start + length data \<le> length bs \<Longrightarrow> length (put_bytes bs start data) = length bs"
  by (simp add: put_bytes_def)

lemma put_nth:
  assumes "start + length data \<le> length bs" and "i < length bs"
  shows "put_bytes bs start data ! i = (if start \<le> i \<and> i < start + length data then data ! (i - start) else bs ! i)"
  using assms by (auto simp: put_bytes_def nth_append)

lemma block_put:
  assumes "start = k * BLOCK_SIZE" and "length data = min (start + BLOCK_SIZE) (length bs) - start" and "start < length bs"
  shows "block (put_bytes bs start data) j = (if j = k then data else block bs j)"
proof -
  have fit: "start + length data \<le> length bs" "length data \<le> BLOCK_SIZE" using assms(2,3) by auto
  note len = put_length [OF fit(1)]
  show ?thesis
  proof (cases "j = k")
    case True
    have "block (put_bytes bs start data) k = data"
      using assms fit(2) by (simp add: block_def put_bytes_def) linarith
    then show ?thesis by (simp add: True)
  next
    case False
    have out: "\<not> (start \<le> j * BLOCK_SIZE + i \<and> j * BLOCK_SIZE + i < start + length data)" if "i < BLOCK_SIZE" for i
    proof (cases "j < k")
      case True
      then have "Suc j * BLOCK_SIZE \<le> start" unfolding assms(1) by (intro mult_le_mono1) simp
      then show ?thesis using that by simp
    next
      case g: False
      then have "Suc k * BLOCK_SIZE \<le> j * BLOCK_SIZE" using False by (intro mult_le_mono1) simp
      then show ?thesis using fit(2) assms(1) by simp
    qed
    have "block (put_bytes bs start data) j = block bs j"
    proof (rule nth_equalityI)
      show "length (block (put_bytes bs start data) j) = length (block bs j)" by (simp add: block_def len)
      fix i assume "i < length (block (put_bytes bs start data) j)"
      then have i: "i < BLOCK_SIZE" "j * BLOCK_SIZE + i < length bs" by (auto simp: block_def len)
      then show "block (put_bytes bs start data) j ! i = block bs j ! i"
        using put_nth [OF fit(1) i(2)] out [OF i(1)] by (simp add: block_def len)
    qed
    then show ?thesis by (simp add: False)
  qed
qed

section \<open>Pieces\<close>

lemma filter_update:
  "k < length xs \<Longrightarrow> length (filter P (xs[k := v])) + of_bool (P (xs ! k)) = length (filter P xs) + of_bool (P v)"
proof (induction xs arbitrary: k)
  case (Cons x xs)
  then show ?case by (cases k) auto
qed simp

lemma in_flight_length: "length (in_flight p) = length (filter (\<lambda>x. x \<noteq> None) (pc_deadlines p))"
proof -
  have "length (List.map_filter id xs) = length (filter (\<lambda>x. x \<noteq> None) xs)" for xs :: "instant option list"
    by (induction xs) (auto simp: List.map_filter_simps split: option.split)
  then show ?thesis by (simp add: in_flight_def)
qed

definition pieces_inv :: "nat \<Rightarrow> pieces \<Rightarrow> bool" where
  "pieces_inv w p \<longleftrightarrow> length (pc_deadlines p) = length (pc_complete p) \<and>
     length (pc_complete p) = div_up (length (pc_bytes p)) BLOCK_SIZE \<and> pc_bytes p \<noteq> [] \<and>
     pc_next p \<le> length (pc_complete p) \<and> pc_received p = length (filter id (pc_complete p)) \<and> length (in_flight p) \<le> w \<and>
     (\<forall>k<length (pc_complete p). (pc_complete p ! k \<longrightarrow> pc_deadlines p ! k = None) \<and>
        (pc_complete p ! k \<or> pc_deadlines p ! k \<noteq> None \<longleftrightarrow> k < pc_next p))"

text \<open>\<open>D k n d\<close>: the peer has sent the data \<open>d\<close> for the piece \<open>k\<close> of \<open>n\<close> bytes.\<close>

definition filled :: "(nat \<Rightarrow> nat \<Rightarrow> bytes \<Rightarrow> bool) \<Rightarrow> pieces \<Rightarrow> bool" where
  "filled D p \<longleftrightarrow> (\<forall>k<length (pc_complete p). pc_complete p ! k \<longrightarrow> D k (length (pc_bytes p)) (block (pc_bytes p) k))"

lemma pieces_new_ok: "0 < n \<Longrightarrow> pieces_inv w (pieces_new n)" "filled D (pieces_new n)" "length (pc_bytes (pieces_new n)) = n"
  by (auto simp: pieces_new_def Let_def pieces_inv_def filled_def in_flight_length)

lemma control_total: "\<forall>k n. header k n \<noteq> None \<Longrightarrow> \<exists>m. metadata_control header i kind piece = Some m"
  by (drule spec [of _ kind], drule spec [of _ piece]) (auto simp: metadata_control_def)

lemma request_ok:
  "\<forall>k n. sp_header sp k n \<noteq> None \<Longrightarrow> pieces_inv (me_request_window (sp_config sp)) p \<Longrightarrow> \<exists>r. request_pieces sp inp i p out = Some r \<and> (case r of Inl e \<Rightarrow> True
    | Inr (p', out') \<Rightarrow> pieces_inv (me_request_window (sp_config sp)) p' \<and> pc_bytes p' = pc_bytes p \<and> pc_complete p' = pc_complete p \<and>
        set out' \<subseteq> set out \<union> {m. \<exists>j k. metadata_control (sp_header sp) j 0 k = Some m})"
proof (induction sp inp i p out rule: request_pieces.induct)
  case (1 sp inp i p out)
  let ?w = "me_request_window (sp_config sp)"
  show ?case
  proof (cases "pc_next p < length (pc_complete p) \<and> length (in_flight p) < ?w")
    case False
    then show ?thesis using "1.prems"(2) by (subst request_pieces.simps) auto
  next
    case True
    obtain m where m: "metadata_control (sp_header sp) i 0 (pc_next p) = Some m"
      using control_total [OF "1.prems"(1)] by blast
    show ?thesis
    proof (cases "si_request inp (pc_next p)")
      case (Inl e)
      then show ?thesis using True m by (subst request_pieces.simps) simp
    next
      case (Inr now)
      let ?p = "p\<lparr>pc_deadlines := (pc_deadlines p)[pc_next p := Some (now + me_piece_timeout (sp_config sp))], pc_next := pc_next p + 1\<rparr>"
      have len: "pc_next p < length (pc_deadlines p)" using True "1.prems" by (simp add: pieces_inv_def)
      have free: "pc_deadlines p ! pc_next p = None" "\<not> pc_complete p ! pc_next p"
        using True "1.prems" by (auto simp: pieces_inv_def)
      have "length (in_flight ?p) = Suc (length (in_flight p))"
        using filter_update [OF len, of "\<lambda>x. x \<noteq> None"] free by (simp add: in_flight_length)
      then have "pieces_inv ?w ?p"
        using "1.prems"(2) True free by (auto simp: pieces_inv_def nth_list_update less_Suc_eq)
      from "1.IH" [OF True m Inr _ "1.prems"(1) this] len obtain r where
        r: "request_pieces sp inp i ?p (out @ [m]) = Some r" "case r of Inl e \<Rightarrow> True
          | Inr (p', out') \<Rightarrow> pieces_inv ?w p' \<and> pc_bytes p' = pc_bytes ?p \<and> pc_complete p' = pc_complete ?p \<and>
              set out' \<subseteq> set (out @ [m]) \<union> {m. \<exists>j k. metadata_control (sp_header sp) j 0 k = Some m}"
        by auto
      have "request_pieces sp inp i p out = Some r" using True m Inr len r(1) by (subst request_pieces.simps) simp
      then show ?thesis using r(2) m by (auto split: sum.splits)
    qed
  qed
qed

lemma data_ok:
  assumes "pieces_inv w p" and "filled D p"
  shows "\<exists>r. piece_data p k n data = Some r \<and> (case r of Inl e \<Rightarrow> True
    | Inr p' \<Rightarrow> pieces_inv w p' \<and> length (pc_bytes p') = length (pc_bytes p) \<and> (D k n data \<longrightarrow> filled D p'))"
proof (cases "n \<noteq> length (pc_bytes p) \<or> k \<ge> length (pc_complete p)")
  case True
  then show ?thesis by (simp add: piece_data_def)
next
  case False
  let ?start = "k * BLOCK_SIZE" and ?stop = "min (k * BLOCK_SIZE + BLOCK_SIZE) n"
  have k: "k < length (pc_complete p)" "k < length (pc_deadlines p)" "n = length (pc_bytes p)"
    using False assms(1) by (simp_all add: pieces_inv_def)
  then have start: "?start < n" using assms(1) div_up_less by (simp add: pieces_inv_def)
  show ?thesis
  proof (cases "length data = ?stop - ?start \<and> \<not> pc_complete p ! k \<and> pc_deadlines p ! k \<noteq> None")
    case bad: False
    then show ?thesis using False start k assms by (auto simp: piece_data_def Let_def)
  next
    case good: True
    let ?p = "p\<lparr>pc_bytes := put_bytes (pc_bytes p) ?start data, pc_complete := (pc_complete p)[k := True],
          pc_deadlines := (pc_deadlines p)[k := None], pc_received := pc_received p + 1\<rparr>"
    have r: "piece_data p k n data = Some (Inr ?p)" using False start k good by (simp add: piece_data_def Let_def)
    have fit: "length data = min (?start + BLOCK_SIZE) (length (pc_bytes p)) - ?start" "?start < length (pc_bytes p)"
      using good start k(3) by simp_all
    then have len: "length (put_bytes (pc_bytes p) ?start data) = length (pc_bytes p)" by (intro put_length) simp
    have "length (in_flight ?p) \<le> length (in_flight p)"
      using filter_update [OF k(2), of "\<lambda>x. x \<noteq> None" None] by (simp add: in_flight_length)
    moreover have "length (filter id ((pc_complete p)[k := True])) = Suc (length (filter id (pc_complete p)))"
      using filter_update [OF k(1), of id True] good by simp
    moreover have "put_bytes (pc_bytes p) ?start data \<noteq> []" using len start k(3) by fastforce
    ultimately have "pieces_inv w ?p"
      using assms(1) k good len by (auto simp: pieces_inv_def nth_list_update)
    moreover have "filled D ?p" if "D k n data"
      using that assms(2) k(3) block_put [OF refl fit] len by (auto simp: filled_def nth_list_update)
    ultimately show ?thesis using r len by simp
  qed
qed


section \<open>One iteration\<close>

lemma extension_total:
  assumes "reader_ok nx"
  shows "\<exists>r. parse_extension wd nx bs limit depth = Some r"
proof -
  obtain r where "normalize_extension nx bs limit depth = Some r"
    using normalize_total(2) [OF assms] by blast
  then show ?thesis by (cases "parse_extension_strict wd bs limit depth"; cases r) (simp_all add: parse_extension_def)
qed

definition delivered :: "session_params \<Rightarrow> session_input list \<Rightarrow> nat \<Rightarrow> nat \<Rightarrow> bytes \<Rightarrow> bool" where
  "delivered sp inputs k n data \<longleftrightarrow> (\<exists>inp\<in>set inputs. \<exists>body. si_received inp = Frame (20 # LOCAL_METADATA_ID # body) \<and>
     parse_metadata (sp_decoder sp) body (me_max_header_size (sp_config sp)) (me_max_depth (sp_config sp)) = Inr (MData k n data))"

text \<open>The messages that a session may send: the greeting, requests and rejects, so never a piece.\<close>

definition polite :: "session_params \<Rightarrow> bytes \<Rightarrow> bool" where
  "polite sp m \<longleftrightarrow> m = extension_handshake \<or> (\<exists>i k. metadata_control (sp_header sp) i 0 k = Some m) \<or>
     (\<exists>i k. metadata_control (sp_header sp) i 2 k = Some m)"

definition session_ok :: "session_params \<Rightarrow> (nat \<Rightarrow> nat \<Rightarrow> bytes \<Rightarrow> bool) \<Rightarrow> session \<Rightarrow> bool" where
  "session_ok sp D s \<longleftrightarrow> ss_frames s \<le> me_max_received_frames (sp_config sp) \<and>
     (ss_bytes s \<le> me_max_received_bytes (sp_config sp) \<or> ss_frames s = 0) \<and> set (ss_sent s) \<subseteq> Collect (polite sp) \<and>
     (case ss_size s of None \<Rightarrow> True | Some n \<Rightarrow> 0 < n \<and> n \<le> me_max_metadata_size (sp_config sp)) \<and>
     (case ss_pieces s of None \<Rightarrow> True
      | Some p \<Rightarrow> ss_remote_id s \<noteq> None \<and> ss_size s = Some (length (pc_bytes p)) \<and>
          length (pc_bytes p) \<le> me_max_metadata_size (sp_config sp) \<and>
          pieces_inv (me_request_window (sp_config sp)) p \<and> filled D p)"

definition certified :: "session_params \<Rightarrow> (nat \<Rightarrow> nat \<Rightarrow> bytes \<Rightarrow> bool) \<Rightarrow> verified_metadata \<Rightarrow> bool" where
  "certified sp D m \<longleftrightarrow> sp_matches sp (vm_info m) (sp_hash sp) \<noteq> None \<and>
     dictionary_prefix (sp_decoder sp) (vm_info m) (me_max_depth (sp_config sp)) = Inr (vm_info m) \<and>
     length (vm_info m) \<le> me_max_metadata_size (sp_config sp) \<and>
     (\<forall>k. k * BLOCK_SIZE < length (vm_info m) \<longrightarrow> D k (length (vm_info m)) (block (vm_info m) k))"

definition progress_ok :: "session_params \<Rightarrow> (nat \<Rightarrow> nat \<Rightarrow> bytes \<Rightarrow> bool) \<Rightarrow> nat \<Rightarrow> progress \<Rightarrow> bool" where
  "progress_ok sp D n x \<longleftrightarrow> (case x of
     Going s \<Rightarrow> session_ok sp D s \<and> ss_frames s = n
   | Broken e \<Rightarrow> True
   | Done m \<Rightarrow> certified sp D m)"

lemma filled_mono: "filled D p \<Longrightarrow> (\<And>k n d. D k n d \<Longrightarrow> E k n d) \<Longrightarrow> filled E p"
  by (auto simp: filled_def)

lemma session_mono: "session_ok sp D s \<Longrightarrow> (\<And>k n d. D k n d \<Longrightarrow> E k n d) \<Longrightarrow> session_ok sp E s"
  by (cases "ss_pieces s") (auto simp: session_ok_def intro: filled_mono)

lemma all_complete:
  assumes "length (filter id xs) = length xs" and "k < length xs"
  shows "xs ! k"
  using assms by (metis filter_id_conv length_filter_less id_apply less_irrefl nth_mem)

lemma finish_ok:
  assumes "session_ok sp D (s\<lparr>ss_pieces := Some p\<rparr>)"
  shows "progress_ok sp D (ss_frames s) (finish_if_received sp s p)"
proof (cases "pc_received p = length (pc_complete p)")
  case False
  then show ?thesis using assms by (simp add: finish_if_received_def progress_ok_def)
next
  case True
  have inv: "pieces_inv (me_request_window (sp_config sp)) p" "filled D p"
    "length (pc_bytes p) \<le> me_max_metadata_size (sp_config sp)" using assms by (simp_all add: session_ok_def)
  then have all: "D k (length (pc_bytes p)) (block (pc_bytes p) k)" if "k * BLOCK_SIZE < length (pc_bytes p)" for k
    using that True all_complete [of "pc_complete p" k] div_up_less by (simp add: filled_def pieces_inv_def)
  show ?thesis
  proof (cases "verify_metadata sp p (ss_compatible s)")
    case (Inl e)
    then show ?thesis using True by (simp add: finish_if_received_def progress_ok_def)
  next
    case (Inr m)
    then obtain raw where raw: "dictionary_prefix (sp_decoder sp) (pc_bytes p) (me_max_depth (sp_config sp)) = Inr raw"
      "length raw = length (pc_bytes p)" "sp_matches sp (pc_bytes p) (sp_hash sp) \<noteq> None" "vm_info m = pc_bytes p"
      by (auto simp: verify_metadata_def split: if_splits sum.splits)
    obtain n where "raw = take n (pc_bytes p)" using prefix_of_dictionary [OF raw(1)] by blast
    then have "raw = pc_bytes p" using raw(2) by simp
    then show ?thesis using True Inr raw all inv(3) by (simp add: finish_if_received_def progress_ok_def certified_def)
  qed
qed

lemma metadata_ok:
  assumes "\<forall>k n. sp_header sp k n \<noteq> None" and "session_ok sp D s" and "\<And>k n d. D k n d \<Longrightarrow> E k n d"
    and "\<And>k n d. parse_metadata (sp_decoder sp) body (me_max_header_size (sp_config sp)) (me_max_depth (sp_config sp)) = Inr (MData k n d) \<Longrightarrow> E k n d"
  shows "\<exists>x. handle_metadata sp inp s body = Some x \<and> progress_ok sp E (ss_frames s) x"
proof -
  have s: "session_ok sp E s" using session_mono [OF assms(2,3)] .
  have broken: "progress_ok sp E n (Broken e)" for n e by (simp add: progress_ok_def)
  show ?thesis
  proof (cases "ss_pieces s")
    case None
    then show ?thesis using broken by (simp add: handle_metadata_def)
  next
    case (Some p)
    have keep: "progress_ok sp E (ss_frames s) (finish_if_received sp s p)"
      using s Some by (intro finish_ok) (auto simp: session_ok_def)
    let ?msg = "parse_metadata (sp_decoder sp) body (me_max_header_size (sp_config sp)) (me_max_depth (sp_config sp))"
    show ?thesis
    proof (cases ?msg)
      case (Inl e)
      then show ?thesis using Some broken by (simp add: handle_metadata_def)
    next
      case (Inr msg)
      show ?thesis
      proof (cases msg)
        case (MRequest k)
        obtain i where i: "ss_remote_id s = Some i" using s Some by (auto simp: session_ok_def)
        obtain m where m: "metadata_control (sp_header sp) i 2 k = Some m" using control_total [OF assms(1)] by blast
        then have "session_ok sp E ((s\<lparr>ss_sent := ss_sent s @ [m]\<rparr>)\<lparr>ss_pieces := Some p\<rparr>)"
          using s Some by (auto simp: session_ok_def polite_def)
        from finish_ok [OF this] show ?thesis using Some Inr MRequest i m broken
          by (cases "si_reject inp") (simp_all add: handle_metadata_def)
      next
        case (MData k n d)
        have "E k n d" using assms(4) Inr MData by simp
        moreover have "pieces_inv (me_request_window (sp_config sp)) p" "filled E p" using s Some by (simp_all add: session_ok_def)
        ultimately obtain r where r: "piece_data p k n d = Some r" "case r of Inl e \<Rightarrow> True
            | Inr p' \<Rightarrow> pieces_inv (me_request_window (sp_config sp)) p' \<and> length (pc_bytes p') = length (pc_bytes p) \<and> filled E p'"
          using data_ok [of _ p E k n d] by (fastforce split: sum.splits)
        show ?thesis
        proof (cases r)
          case (Inl e)
          then show ?thesis using Some Inr MData r(1) broken by (simp add: handle_metadata_def)
        next
          case good: (Inr p')
          have "session_ok sp E (s\<lparr>ss_pieces := Some p'\<rparr>)" using s Some r(2) good by (auto simp: session_ok_def)
          from finish_ok [OF this] show ?thesis using Some Inr MData r(1) good by (simp add: handle_metadata_def)
        qed
      next
        case (MReject k)
        then show ?thesis using Some Inr keep broken by (simp add: handle_metadata_def)
      next
        case MUnknown
        then show ?thesis using Some Inr keep by (simp add: handle_metadata_def)
      qed
    qed
  qed
qed

lemma apply_ok:
  assumes "session_ok sp D s" and "apply_extension (sp_config sp) u s = Inr s'"
  shows "session_ok sp D s' \<and> ss_frames s' = ss_frames s"
proof -
  obtain a b where a: "(case eu_metadata_id u of None \<Rightarrow> Inr s
      | Some i \<Rightarrow> if i = 0 then Inl PeerUnsupported else Inr (s\<lparr>ss_remote_id := Some i\<rparr>)) = Inr a"
    and b: "(case eu_metadata_size u of None \<Rightarrow> Inr a
      | Some n \<Rightarrow>
          if n = 0 \<or> n > me_max_metadata_size (sp_config sp) then Inl (PeerLimit MetadataSize)
          else if ss_pieces a \<noteq> None \<and> ss_size a \<noteq> Some n then Inl (PeerProtocol MetadataSizeChanged)
          else Inr (a\<lparr>ss_size := Some n\<rparr>)) = Inr b"
    and c: "s' = (if ss_pieces b = None \<and> ss_remote_id b \<noteq> None
          then (case ss_size b of None \<Rightarrow> b | Some n \<Rightarrow> b\<lparr>ss_pieces := Some (pieces_new n)\<rparr>) else b)"
    using assms(2) by (auto simp: apply_extension_def)
  have "session_ok sp D a \<and> ss_frames a = ss_frames s"
    using a assms(1) by (cases "eu_metadata_id u") (auto simp: session_ok_def split: if_splits option.splits)
  then have ok: "session_ok sp D b" "ss_frames b = ss_frames s"
    using b by (cases "eu_metadata_size u"; auto simp: session_ok_def split: if_splits option.splits)+
  show ?thesis
  proof (cases "ss_pieces b = None \<and> ss_remote_id b \<noteq> None \<and> ss_size b \<noteq> None")
    case True
    then obtain n where n: "ss_size b = Some n" "0 < n" "n \<le> me_max_metadata_size (sp_config sp)"
      using ok(1) by (auto simp: session_ok_def)
    then show ?thesis using True ok pieces_new_ok(1) [OF n(2)] pieces_new_ok(2,3) by (auto simp: c session_ok_def)
  next
    case False
    then have "s' = b" by (auto simp: c split: option.split)
    then show ?thesis using ok by simp
  qed
qed

lemma frame_ok:
  assumes "\<forall>k n. sp_header sp k n \<noteq> None" and "reader_ok (sp_reader sp)" and "session_ok sp D s" and "\<And>k n d. D k n d \<Longrightarrow> E k n d"
    and "\<And>body k n d. frame = 20 # LOCAL_METADATA_ID # body \<Longrightarrow>
      parse_metadata (sp_decoder sp) body (me_max_header_size (sp_config sp)) (me_max_depth (sp_config sp)) = Inr (MData k n d) \<Longrightarrow> E k n d"
  shows "\<exists>x. handle_frame sp inp s frame = Some x \<and> progress_ok sp E (ss_frames s) x"
proof -
  have s: "session_ok sp E s" using session_mono [OF assms(3,4)] .
  have simple: "progress_ok sp E n (Broken e)" "progress_ok sp E (ss_frames s) (Going s)" for n e
    using s by (simp_all add: progress_ok_def)
  show ?thesis
  proof (cases "frame = [] \<or> hd frame \<noteq> 20")
    case True
    then show ?thesis using simple by (cases frame) (auto simp: handle_frame_def)
  next
    case False
    then obtain rest where f: "frame = 20 # rest" by (cases frame) auto
    show ?thesis
    proof (cases rest)
      case Nil
      then show ?thesis using f simple by (simp add: handle_frame_def)
    next
      case (Cons i body)
      consider (ext) "i = 0" | (meta) "i = LOCAL_METADATA_ID" | (foreign) "i \<noteq> 0" "i \<noteq> LOCAL_METADATA_ID" by blast
      then show ?thesis
      proof cases
        case ext
        let ?s = "\<lambda>u. s\<lparr>ss_compatible := ss_compatible s \<or> eu_mode u = UnsortedCompatible\<rparr>"
        have u: "session_ok sp E (?s u)" for u using s by (cases "ss_pieces s") (auto simp: session_ok_def)
        obtain r where r: "parse_extension (sp_decoder sp) (sp_reader sp) body (me_max_header_size (sp_config sp)) (me_max_depth (sp_config sp)) = Some r"
          using extension_total [OF assms(2)] by blast
        show ?thesis
        proof (cases r)
          case (Inl e)
          then show ?thesis using f Cons ext r simple by (simp add: handle_frame_def)
        next
          case (Inr eu)
          show ?thesis
          proof (cases "apply_extension (sp_config sp) eu (?s eu)")
            case (Inl e)
            then show ?thesis using f Cons ext r Inr simple by (simp add: handle_frame_def)
          next
            case good: (Inr s')
            then show ?thesis using f Cons ext r Inr apply_ok [OF u good] by (simp add: handle_frame_def progress_ok_def)
          qed
        qed
      next
        case meta
        have "LOCAL_METADATA_ID \<noteq> 0" by (simp add: LOCAL_METADATA_ID_def)
        moreover have "frame = 20 # LOCAL_METADATA_ID # body" by (simp add: f Cons meta)
        ultimately show ?thesis using metadata_ok [OF assms(1,3,4), where body = body and inp = inp] assms(5) [of body] by (simp add: handle_frame_def)
      next
        case foreign
        then show ?thesis using f Cons simple by (simp add: handle_frame_def)
      qed
    qed
  qed
qed


lemma receive_ok:
  assumes "session_ok sp D s" and "receive_frame (sp_config sp) r s = Inr (s', frame)"
  shows "session_ok sp D s' \<and> ss_frames s' = Suc (ss_frames s) \<and> r = Frame frame"
  using assms by (cases r; cases "ss_pieces s") (auto simp: receive_frame_def Let_def session_ok_def split: if_splits)

lemma step_ok:
  assumes "\<forall>k n. sp_header sp k n \<noteq> None" and "reader_ok (sp_reader sp)" and "session_ok sp D s" and "\<And>k n d. D k n d \<Longrightarrow> E k n d"
    and "\<And>body k n d. si_received inp = Frame (20 # LOCAL_METADATA_ID # body) \<Longrightarrow>
      parse_metadata (sp_decoder sp) body (me_max_header_size (sp_config sp)) (me_max_depth (sp_config sp)) = Inr (MData k n d) \<Longrightarrow> E k n d"
  shows "\<exists>x. session_step sp inp s = Some x \<and> progress_ok sp E (Suc (ss_frames s)) x"
proof -
  let ?r = "case ss_pieces s of None \<Rightarrow> Some (Inr s)
      | Some p \<Rightarrow> (case ss_remote_id s of None \<Rightarrow> None
          | Some i \<Rightarrow> map_option (\<lambda>r. and_then r (\<lambda>(p, sent). Inr (s\<lparr>ss_pieces := Some p, ss_sent := sent\<rparr>)))
              (request_pieces sp inp i p (ss_sent s)))"
  have broken: "progress_ok sp E n (Broken e)" for n e by (simp add: progress_ok_def)
  obtain r where r: "?r = Some r" "case r of Inl e \<Rightarrow> True | Inr s' \<Rightarrow> session_ok sp D s' \<and> ss_frames s' = ss_frames s"
  proof (cases "ss_pieces s")
    case None
    then show ?thesis using assms(3) that [of "Inr s"] by simp
  next
    case (Some p)
    then obtain i where i: "ss_remote_id s = Some i" using assms(3) by (auto simp: session_ok_def)
    have p: "pieces_inv (me_request_window (sp_config sp)) p" "filled D p" using assms(3) Some by (simp_all add: session_ok_def)
    obtain q where q: "request_pieces sp inp i p (ss_sent s) = Some q" "case q of Inl e \<Rightarrow> True
      | Inr (p', out') \<Rightarrow> pieces_inv (me_request_window (sp_config sp)) p' \<and> pc_bytes p' = pc_bytes p \<and> pc_complete p' = pc_complete p \<and>
        set out' \<subseteq> set (ss_sent s) \<union> {m. \<exists>j k. metadata_control (sp_header sp) j 0 k = Some m}"
      using request_ok [OF assms(1) p(1)] by blast
    show ?thesis
    proof (cases q)
      case (Inl e)
      then show ?thesis using Some i q(1) that [of "Inl e"] by simp
    next
      case (Inr po)
      obtain p' out' where po: "po = (p', out')" by fastforce
      have q': "pieces_inv (me_request_window (sp_config sp)) p'" "pc_bytes p' = pc_bytes p" "pc_complete p' = pc_complete p"
        "set out' \<subseteq> set (ss_sent s) \<union> {m. \<exists>j k. metadata_control (sp_header sp) j 0 k = Some m}" using q(2) Inr po by simp_all
      have "{m. \<exists>j k. metadata_control (sp_header sp) j 0 k = Some m} \<subseteq> Collect (polite sp)" unfolding polite_def by blast
      then have "set out' \<subseteq> Collect (polite sp)" using q'(4) assms(3) by (fastforce simp: session_ok_def)
      then have "session_ok sp D (s\<lparr>ss_pieces := Some p', ss_sent := out'\<rparr>)"
        using assms(3) Some q'(1-3) p(2) by (auto simp: session_ok_def filled_def)
      then show ?thesis using Some i q(1) Inr po that [of "Inr (s\<lparr>ss_pieces := Some p', ss_sent := out'\<rparr>)"] by simp
    qed
  qed
  show ?thesis
  proof (cases r)
    case (Inl e)
    then show ?thesis using r(1) broken by (simp add: session_step_def)
  next
    case (Inr s1)
    let ?at = "case ss_pieces s1 of Some p \<Rightarrow> piece_deadline p (si_now inp + me_piece_timeout (sp_config sp)) | None \<Rightarrow> sp_handshake_deadline sp"
    let ?f = "if si_check inp \<ge> ?at then Inl (PeerTimeout StageDeadline) else receive_frame (sp_config sp) (si_received inp) s1"
    have step: "session_step sp inp s = (case ?f of Inl e \<Rightarrow> Some (Broken e) | Inr (s, frame) \<Rightarrow> handle_frame sp inp s frame)"
      using r(1) Inr by (simp add: session_step_def)
    show ?thesis
    proof (cases ?f)
      case (Inl e)
      then show ?thesis using step broken by simp
    next
      case f: (Inr sf)
      obtain s2 frame where sf: "sf = (s2, frame)" by fastforce
      then have "receive_frame (sp_config sp) (si_received inp) s1 = Inr (s2, frame)" using f by (simp split: if_splits)
      moreover have s1: "session_ok sp D s1" "ss_frames s1 = ss_frames s" using r(2) Inr by simp_all
      ultimately have s2: "session_ok sp D s2" "ss_frames s2 = Suc (ss_frames s)" "si_received inp = Frame frame"
        using receive_ok [OF s1(1)] by auto
      have "\<exists>x. handle_frame sp inp s2 frame = Some x \<and> progress_ok sp E (ss_frames s2) x"
        by (rule frame_ok [OF assms(1,2) s2(1)]) (use assms(4,5) s2(3) in simp_all)
      then show ?thesis using s2(2) step f sf by simp
    qed
  qed
qed

lemma loop_ok:
  assumes "\<forall>k n. sp_header sp k n \<noteq> None" and "reader_ok (sp_reader sp)"
  shows "session_ok sp (delivered sp old) s \<Longrightarrow>
    \<exists>x. session_loop sp inputs s = Some x \<and> progress_ok sp (delivered sp (old @ inputs)) (ss_frames s + length inputs) x"
proof (induction inputs arbitrary: old s)
  case Nil
  then show ?case by (simp add: progress_ok_def)
next
  case (Cons inp inputs)
  obtain x where x: "session_step sp inp s = Some x" "progress_ok sp (delivered sp (old @ [inp])) (Suc (ss_frames s)) x"
    using step_ok [OF assms Cons.prems, of "delivered sp (old @ [inp])" inp] by (auto simp: delivered_def)
  show ?case
  proof (cases x)
    case (Going s')
    then have s': "session_ok sp (delivered sp (old @ [inp])) s'" "ss_frames s' = Suc (ss_frames s)"
      using x(2) by (simp_all add: progress_ok_def)
    from Cons.IH [OF s'(1)] show ?thesis using x(1) Going s'(2) by simp
  next
    case (Broken e)
    then show ?thesis using x(1) by (simp add: progress_ok_def)
  next
    case (Done m)
    then have "certified sp (delivered sp (old @ inp # inputs)) m"
      using x(2) by (auto simp: progress_ok_def certified_def delivered_def)
    then show ?thesis using x(1) Done by (simp add: progress_ok_def)
  qed
qed

lemma initial_ok: "session_ok sp D initial_session"
  by (simp add: session_ok_def initial_session_def polite_def)


section \<open>The download\<close>

text \<open>
  C13: whatever a peer sends and however its messages arrive, the download does not panic, stays within the budgets of frames and
  bytes (so the loop ends after at most \<open>max_received_frames\<close> frames), never has more requests under way than the window and sends nothing
  but the greeting, requests and rejects. Metadata that it delivers matches the info hash, is exactly one
  dictionary, is not larger than the limit, and each of its 16 KiB blocks is the content of a data message of this very peer.
\<close>

theorem download_certified:
  assumes "\<forall>k n. sp_header sp k n \<noteq> None" and "reader_ok (sp_reader sp)"
  shows "\<exists>x. session_loop sp inputs initial_session = Some x \<and>
    (case x of
       Going s \<Rightarrow> length inputs \<le> me_max_received_frames (sp_config sp) \<and>
         (inputs \<noteq> [] \<longrightarrow> ss_bytes s \<le> me_max_received_bytes (sp_config sp)) \<and> set (ss_sent s) \<subseteq> Collect (polite sp) \<and>
         (\<forall>p. ss_pieces s = Some p \<longrightarrow> length (in_flight p) \<le> me_request_window (sp_config sp) \<and>
            length (pc_bytes p) \<le> me_max_metadata_size (sp_config sp))
     | Broken e \<Rightarrow> True
     | Done m \<Rightarrow> sp_matches sp (vm_info m) (sp_hash sp) \<noteq> None \<and>
         dictionary_prefix (sp_decoder sp) (vm_info m) (me_max_depth (sp_config sp)) = Inr (vm_info m) \<and>
         length (vm_info m) \<le> me_max_metadata_size (sp_config sp) \<and>
         (\<forall>k. k * BLOCK_SIZE < length (vm_info m) \<longrightarrow>
            delivered sp inputs k (length (vm_info m)) (block (vm_info m) k)))"
proof -
  obtain x where x: "session_loop sp inputs initial_session = Some x"
    "progress_ok sp (delivered sp ([] @ inputs)) (ss_frames initial_session + length inputs) x"
    using loop_ok [OF assms initial_ok] by blast
  show ?thesis
  proof (cases x)
    case (Going s)
    then have s: "session_ok sp (delivered sp inputs) s" "ss_frames s = length inputs"
      using x(2) by (simp_all add: progress_ok_def initial_session_def)
    then show ?thesis using x(1) Going by (auto simp: session_ok_def pieces_inv_def)
  qed (use x in \<open>auto simp: progress_ok_def certified_def\<close>)
qed


text \<open>A peer that announces two bytes of metadata and sends them: the download ends with these two bytes.\<close>

definition two_byte_decoder :: wire_decoder where
  "two_byte_decoder =
     \<lparr>wd_next = (\<lambda>_ bs. Some (Some (RDict
        (if bs = [101] then [(ascii ''m'', RDict [(ascii ''ut_metadata'', RInteger [49])] False), (ascii ''metadata_size'', RInteger [50])]
         else if hd bs = 104 then [(ascii ''msg_type'', RInteger [49]), (ascii ''piece'', RInteger [48]), (ascii ''total_size'', RInteger [50])]
         else []) False))),
      wd_raw = (\<lambda>_ bs. Some (if hd bs = 100 then 2 else 1))\<rparr>"

definition two_byte_params :: session_params where
  "two_byte_params = \<lparr>sp_config = default_metadata_config, sp_hash = SwarmKey [], sp_address = SA4 0 1, sp_peer_id = [],
     sp_handshake_deadline = 10, sp_decoder = two_byte_decoder, sp_reader = (\<lambda>_. None), sp_header = (\<lambda>_ _. Some []),
     sp_matches = (\<lambda>bs _. if bs = [100, 101] then Some (TV1 (InfoHashV1 [])) else None)\<rparr>"

definition two_byte_inputs :: "session_input list" where
  "two_byte_inputs = map (\<lambda>f. \<lparr>si_now = 1, si_check = 1, si_request = (\<lambda>_. Inr 1), si_reject = None, si_received = Frame f\<rparr>)
     [[20, 0, 101], [20, 1, 104, 100, 101]]"

lemma two_byte_download:
  "session_loop two_byte_params two_byte_inputs initial_session =
     Some (Done \<lparr>vm_used_extension_compatibility = False, vm_info_hash = SwarmKey [], vm_source = SA4 0 1, vm_peer_id = [],
       vm_info = [100, 101]\<rparr>)"
  by (simp add: two_byte_params_def two_byte_inputs_def two_byte_decoder_def initial_session_def session_step_def receive_frame_def
    default_metadata_config_def handle_frame_def LOCAL_METADATA_ID_def parse_extension_def parse_extension_strict_def
    dictionary_prefix_def root_dictionary_def ascii_def parse_i64_def apply_extension_def pieces_new_def div_up_def BLOCK_SIZE_def
    request_pieces.simps metadata_control_def extended_def in_flight_def List.map_filter_simps piece_deadline_def handle_metadata_def
    parse_metadata_def piece_data_def put_bytes_def finish_if_received_def verify_metadata_def Let_def)

theorem download_certified_witness:
  "length [100 :: u8, 101] \<le> me_max_metadata_size default_metadata_config \<and>
   (\<exists>x. session_loop two_byte_params two_byte_inputs initial_session = Some (Done x) \<and>
      delivered two_byte_params two_byte_inputs 0 2 (block (vm_info x) 0))"
proof -
  have "\<forall>k n. sp_header two_byte_params k n \<noteq> None" "reader_ok (sp_reader two_byte_params)"
    by (simp_all add: two_byte_params_def reader_ok_def)
  from download_certified [OF this, of two_byte_inputs]
  have "length [100 :: u8, 101] \<le> me_max_metadata_size (sp_config two_byte_params) \<and>
    (\<forall>k. k * BLOCK_SIZE < 2 \<longrightarrow> delivered two_byte_params two_byte_inputs k 2 (block [100, 101] k))"
    unfolding two_byte_download by (simp add: numeral_2_eq_2)
  then show ?thesis unfolding two_byte_download by (simp add: two_byte_params_def)
qed

end
