(* ===== verification/Policies.thy ===== *)
theory Policies imports Address begin

text \<open>
  The synchronous policies of the collection side: the back pressure on active sampling
  (\<open>src/collection/backpressure.rs\<close>), the order of the peers of one job (\<open>candidate_selector/mod.rs\<close>), the rotation
  between the classes of jobs (\<open>jobs/policy/mod.rs\<close>) and the limit of one TCP connection per address
  (\<open>tcp_limits.rs\<close>). Times are UTC milliseconds in an \<open>i64\<close>, written as \<open>int\<close> with the saturation of the code;
  \<open>max_active as i64 * 8\<close> does not overflow because a capacity is far below \<open>2 ^ 60\<close>.
\<close>

section \<open>Back pressure\<close>

datatype bp_mode = Freshness | Capacity

record backpressure =
  bp_mode :: bp_mode
  bp_max_active :: nat
  bp_recent_limit :: nat
  bp_capacity :: bool
  bp_backlog :: bool
  bp_storage :: bool
  bp_recovery_since :: "int option"
  bp_last_at :: "int option"
  bp_paused_ms :: nat
  bp_resumes :: nat

text \<open>\<open>saturating_sub\<close> on \<open>i64\<close>.\<close>

definition sub_i64 :: "int \<Rightarrow> int \<Rightarrow> int" where
  "sub_i64 a b = max (- (2 ^ 63)) (min (2 ^ 63 - 1) (a - b))"

definition bp_new :: "bp_mode \<Rightarrow> nat \<Rightarrow> nat \<Rightarrow> backpressure" where
  "bp_new m max_active concurrency =
     \<lparr>bp_mode = m, bp_max_active = max_active, bp_recent_limit = min max_active (min (2 ^ 64 - 1) (concurrency * 4)),
      bp_capacity = False, bp_backlog = False, bp_storage = False, bp_recovery_since = None, bp_last_at = None,
      bp_paused_ms = 0, bp_resumes = 0\<rparr>"

definition paused :: "backpressure \<Rightarrow> bool" where
  "paused b \<longleftrightarrow> bp_capacity b \<or> bp_backlog b \<or> bp_storage b"

definition bp_account :: "int \<Rightarrow> backpressure \<Rightarrow> backpressure" where
  "bp_account now b =
     (case bp_last_at b of
        Some prev \<Rightarrow> (if paused b then b\<lparr>bp_paused_ms := min (2 ^ 64 - 1) (bp_paused_ms b + nat (max 0 (sub_i64 now prev)))\<rparr> else b)
      | None \<Rightarrow> b)\<lparr>bp_last_at := Some now\<rparr>"

definition bp_recent :: "int \<Rightarrow> int \<Rightarrow> backpressure \<Rightarrow> backpressure" where
  "bp_recent now recent b =
     (if \<not> bp_backlog b then b\<lparr>bp_backlog := recent \<ge> int (bp_recent_limit b)\<rparr>
      else if recent \<le> int (bp_recent_limit b div 4) then
        (let since = (case bp_recovery_since b of Some t \<Rightarrow> t | None \<Rightarrow> now) in
         if sub_i64 now since \<ge> 30000 then b\<lparr>bp_backlog := False, bp_recovery_since := None\<rparr>
         else b\<lparr>bp_recovery_since := Some since\<rparr>)
      else b\<lparr>bp_recovery_since := None\<rparr>)"

text \<open>The arguments of one call of \<open>update\<close>.\<close>

record observation =
  ob_now :: int
  ob_active :: int
  ob_recent :: "int option"
  ob_storage :: bool

definition bp_update :: "observation \<Rightarrow> backpressure \<Rightarrow> backpressure \<times> bool" where
  "bp_update u b =
     (let b = bp_account (ob_now u) b;
          old = paused b;
          b = b\<lparr>bp_storage := ob_storage u\<rparr>;
          b = (if ob_storage u then b
               else b\<lparr>bp_capacity := (if bp_capacity b then ob_active u \<ge> max 1 (int (bp_max_active b) * 8 div 10)
                 else ob_active u \<ge> int (bp_max_active b))\<rparr>);
          b = (case ob_recent u of
                 Some recent \<Rightarrow> if bp_mode b = Freshness then bp_recent (ob_now u) recent b else b
               | None \<Rightarrow> b);
          b = (if old \<and> \<not> paused b then b\<lparr>bp_resumes := bp_resumes b + 1\<rparr> else b)
      in (b, old \<noteq> paused b))"

section \<open>The candidates of one job\<close>

datatype candidate_source = AnnounceSource | DhtSource

record selector =
  cs_first_hints :: "socket_addr list"
  cs_remaining_hints :: "socket_addr list"
  cs_selected :: "socket_addr list"

definition selector_new :: "socket_addr list \<Rightarrow> selector" where
  "selector_new hints = \<lparr>cs_first_hints = take 2 hints, cs_remaining_hints = drop 2 hints, cs_selected = []\<rparr>"

text \<open>\<open>poll\<close> is what the channel of the lookup has ready; the flag says whether it was taken.\<close>

definition next_ready :: "socket_addr option \<Rightarrow> selector \<Rightarrow> (socket_addr \<times> candidate_source) option \<times> bool \<times> selector" where
  "next_ready poll s =
     (case cs_first_hints s of
        a # as \<Rightarrow> (Some (a, AnnounceSource), False, s\<lparr>cs_first_hints := as\<rparr>)
      | [] \<Rightarrow>
         (case poll of
            Some a \<Rightarrow> (Some (a, DhtSource), True, s)
          | None \<Rightarrow>
             (case cs_remaining_hints s of
                a # as \<Rightarrow> (Some (a, AnnounceSource), True, s\<lparr>cs_remaining_hints := as\<rparr>)
              | [] \<Rightarrow> (None, True, s))))"

definition select_once :: "socket_addr \<Rightarrow> selector \<Rightarrow> bool \<times> selector" where
  "select_once a s = (if a \<in> set (cs_selected s) then (False, s) else (True, s\<lparr>cs_selected := a # cs_selected s\<rparr>))"

definition selected_count :: "selector \<Rightarrow> nat" where
  "selected_count s = length (cs_selected s)"

section \<open>The rotation between classes\<close>

datatype claim_class = HintClass | RecentClass | RetryClass | HistoryClass

definition CLAIM_ROTATION :: "claim_class list" where
  "CLAIM_ROTATION = [HintClass, RecentClass, RetryClass, HintClass, HistoryClass, RecentClass, RetryClass, HintClass]"

definition BORROW_ORDER :: "claim_class list" where
  "BORROW_ORDER = [HintClass, RecentClass, HistoryClass, RetryClass]"

definition order_for :: "claim_class \<Rightarrow> claim_class list" where
  "order_for preferred = preferred # filter (\<lambda>c. c \<noteq> preferred) BORROW_ORDER"

text \<open>The state of \<open>ClaimPolicy\<close> is its cursor; an index out of range is \<open>None\<close>.\<close>

definition claim_policy_new :: nat where
  "claim_policy_new = 0"

definition claim_order :: "nat \<Rightarrow> claim_class list option" where
  "claim_order turn = (if turn < length CLAIM_ROTATION then Some (order_for (CLAIM_ROTATION ! turn)) else None)"

definition on_claimed :: "nat \<Rightarrow> nat" where
  "on_claimed turn = (turn + 1) mod length CLAIM_ROTATION"

section \<open>Properties of the back pressure\<close>

fun bp_run :: "backpressure \<Rightarrow> observation list \<Rightarrow> backpressure" where
  "bp_run b [] = b"
| "bp_run b (u # us) = bp_run (fst (bp_update u b)) us"

lemma bp_run_append: "bp_run b (us @ vs) = bp_run (bp_run b us) vs"
  by (induction us arbitrary: b) auto

lemma account_fields [simp]:
  "bp_mode (bp_account n b) = bp_mode b" "bp_recent_limit (bp_account n b) = bp_recent_limit b"
  "bp_max_active (bp_account n b) = bp_max_active b" "bp_capacity (bp_account n b) = bp_capacity b"
  "bp_backlog (bp_account n b) = bp_backlog b" "bp_recovery_since (bp_account n b) = bp_recovery_since b"
  by (auto simp: bp_account_def split: option.splits)

lemma bp_update_fields:
  "bp_mode (fst (bp_update u b)) = bp_mode b" "bp_recent_limit (fst (bp_update u b)) = bp_recent_limit b"
  "bp_max_active (fst (bp_update u b)) = bp_max_active b" "bp_storage (fst (bp_update u b)) = ob_storage u"
  "bp_capacity (fst (bp_update u b)) = (if ob_storage u then bp_capacity b
     else if bp_capacity b then ob_active u \<ge> max 1 (int (bp_max_active b) * 8 div 10) else ob_active u \<ge> int (bp_max_active b))"
  "bp_backlog (fst (bp_update u b)) = (case ob_recent u of
     Some q \<Rightarrow> if bp_mode b = Freshness then bp_backlog (bp_recent (ob_now u) q b) else bp_backlog b | None \<Rightarrow> bp_backlog b)"
  "bp_recovery_since (fst (bp_update u b)) = (case ob_recent u of
     Some q \<Rightarrow> if bp_mode b = Freshness then bp_recovery_since (bp_recent (ob_now u) q b) else bp_recovery_since b | None \<Rightarrow> bp_recovery_since b)"
  by (auto simp: bp_update_def Let_def bp_recent_def split: option.splits)

lemma run_limit [simp]: "bp_recent_limit (bp_run b us) = bp_recent_limit b" "bp_mode (bp_run b us) = bp_mode b"
  by (induction us arbitrary: b) (simp_all add: bp_update_fields)

text \<open>A quiet stretch: it starts with a low number of recent jobs, and no number in it is above the low mark.\<close>

definition quiet :: "nat \<Rightarrow> int \<Rightarrow> observation list \<Rightarrow> bool" where
  "quiet limit since us \<longleftrightarrow> (\<exists>ys z zs q. us = ys @ z # zs \<and> ob_now z = since \<and> ob_recent z = Some q \<and>
     (\<forall>u\<in>set (z # zs). \<forall>q. ob_recent u = Some q \<longrightarrow> q \<le> int (limit div 4)))"

lemma quiet_snoc:
  "quiet limit since us \<Longrightarrow> (\<And>q. ob_recent u = Some q \<Longrightarrow> q \<le> int (limit div 4)) \<Longrightarrow> quiet limit since (us @ [u])"
proof -
  assume "quiet limit since us" and u: "\<And>q. ob_recent u = Some q \<Longrightarrow> q \<le> int (limit div 4)"
  then obtain ys z zs q where "us = ys @ z # zs" "ob_now z = since" "ob_recent z = Some q"
    "\<forall>u\<in>set (z # zs). \<forall>q. ob_recent u = Some q \<longrightarrow> q \<le> int (limit div 4)" unfolding quiet_def by blast
  then show ?thesis unfolding quiet_def using u by (intro exI [of _ ys] exI [of _ z] exI [of _ "zs @ [u]"] exI [of _ q]) auto
qed

lemma quiet_start: "ob_recent u = Some q \<Longrightarrow> q \<le> int (limit div 4) \<Longrightarrow> quiet limit (ob_now u) (us @ [u])"
  unfolding quiet_def by (intro exI [of _ us] exI [of _ u] exI [of _ "[]"] exI [of _ q]) auto

lemma recovery_backlog:
  assumes "bp_recovery_since b = None"
  shows "bp_recovery_since (bp_run b us) \<noteq> None \<Longrightarrow> bp_backlog (bp_run b us) \<and> bp_mode b = Freshness"
proof (induction us rule: rev_induct)
  case (snoc u us)
  then show ?case
    by (auto simp: bp_run_append bp_update_fields bp_recent_def Let_def split: option.splits if_splits)
qed (simp add: assms)

text \<open>The recovery mark of an update: where it comes from, and that the stretch since then is quiet.\<close>

lemma recovery_quiet:
  assumes "bp_recovery_since b = None"
  shows "bp_recovery_since (bp_run b us) = Some since \<Longrightarrow> quiet (bp_recent_limit b) since us"
proof (induction us arbitrary: since rule: rev_induct)
  case Nil
  then show ?case using assms by simp
next
  case (snoc u us)
  let ?b = "bp_run b us"
  have now: "bp_recovery_since (fst (bp_update u ?b)) = Some since" using snoc.prems by (simp add: bp_run_append)
  show ?case
  proof (cases "ob_recent u")
    case None
    then have "bp_recovery_since ?b = Some since" using now by (simp add: bp_update_fields)
    show ?thesis by (rule quiet_snoc [OF snoc.IH [OF \<open>bp_recovery_since ?b = Some since\<close>]]) (use None in simp)
  next
    case (Some q)
    show ?thesis
    proof (cases "bp_mode b = Freshness \<and> bp_backlog ?b")
      case True
      then have low: "q \<le> int (bp_recent_limit b div 4)" and
        since: "since = (case bp_recovery_since ?b of Some t \<Rightarrow> t | None \<Rightarrow> ob_now u)"
        using now Some by (auto simp: bp_update_fields bp_recent_def Let_def split: if_splits)
      show ?thesis
      proof (cases "bp_recovery_since ?b")
        case None
        then show ?thesis using since quiet_start [OF Some low] by simp
      next
        case (Some t)
        have "quiet (bp_recent_limit b) t (us @ [u])"
          by (rule quiet_snoc [OF snoc.IH [OF Some]]) (use low \<open>ob_recent u = Some q\<close> in simp)
        then show ?thesis using since Some by simp
      qed
    next
      case False
      then have "bp_recovery_since ?b = Some since" using now Some by (auto simp: bp_update_fields bp_recent_def split: if_splits)
      then show ?thesis using recovery_backlog [OF assms, of us] False by simp
    qed
  qed
qed

lemma backlog_quiet:
  assumes "bp_backlog (bp_run (bp_new m cap workers) us)" and "\<not> bp_backlog (bp_run (bp_new m cap workers) (us @ [u]))"
  shows "\<exists>since. sub_i64 (ob_now u) since \<ge> 30000 \<and> quiet (bp_recent_limit (bp_new m cap workers)) since (us @ [u])"
proof -
  let ?b = "bp_run (bp_new m cap workers) us" and ?l = "bp_recent_limit (bp_new m cap workers)"
  have fresh: "bp_recovery_since (bp_new m cap workers) = None" by (simp add: bp_new_def)
  obtain q where q: "ob_recent u = Some q" "q \<le> int (?l div 4)"
    "sub_i64 (ob_now u) (case bp_recovery_since ?b of Some t \<Rightarrow> t | None \<Rightarrow> ob_now u) \<ge> 30000"
    using assms by (auto simp: bp_run_append bp_update_fields bp_recent_def Let_def split: option.splits if_splits)
  show ?thesis
  proof (cases "bp_recovery_since ?b")
    case None
    then show ?thesis using q quiet_start [OF q(1,2)] by auto
  next
    case (Some t)
    have "quiet ?l t (us @ [u])" by (rule quiet_snoc [OF recovery_quiet [OF fresh Some]]) (use q(1,2) in simp)
    then show ?thesis using q(3) Some by (intro exI [of _ t]) simp
  qed
qed

text \<open>
  C19: sampling resumes after a backlog only when, over at least 30 seconds up to that moment, no reported number of recent jobs
  was above a quarter of the high mark. Independently, in every update, the pause for capacity starts at the limit, ends
  below four fifths of it, and does not move while storage is paused; and sampling is paused while any of the three reasons
  holds.
\<close>

theorem backlog_released_after_quiet:
  "let before = bp_run (bp_new m cap workers) us; after = bp_run (bp_new m cap workers) (us @ [u]) in
    (bp_backlog before \<and> \<not> bp_backlog after \<longrightarrow>
      (\<exists>since. sub_i64 (ob_now u) since \<ge> 30000 \<and> quiet (bp_recent_limit (bp_new m cap workers)) since (us @ [u]))) \<and>
    bp_capacity after = (if ob_storage u then bp_capacity before
       else ob_active u \<ge> (if bp_capacity before then max 1 (int cap * 8 div 10) else int cap)) \<and>
    paused after = (bp_capacity after \<or> bp_backlog after \<or> ob_storage u)"
proof -
  let ?b = "bp_run (bp_new m cap workers) us" and ?a = "bp_run (bp_new m cap workers) (us @ [u])"
  have "bp_max_active (bp_run b us) = bp_max_active b" for b
    by (induction us arbitrary: b) (simp_all add: bp_update_fields)
  then have "bp_max_active ?b = cap" by (simp add: bp_new_def)
  then have "bp_capacity ?a = (if ob_storage u then bp_capacity ?b
       else ob_active u \<ge> (if bp_capacity ?b then max 1 (int cap * 8 div 10) else int cap))"
    by (auto simp: bp_run_append bp_update_fields)
  moreover have "paused ?a = (bp_capacity ?a \<or> bp_backlog ?a \<or> ob_storage u)"
    by (simp add: bp_run_append paused_def bp_update_fields(4))
  ultimately show ?thesis using backlog_quiet [of m cap workers us u] unfolding Let_def by blast
qed

definition busy :: observation where
  "busy = \<lparr>ob_now = 0, ob_active = 0, ob_recent = Some 16, ob_storage = False\<rparr>"

definition idle :: "int \<Rightarrow> observation" where
  "idle now = \<lparr>ob_now = now, ob_active = 0, ob_recent = Some 4, ob_storage = False\<rparr>"

theorem backlog_released_after_quiet_witness:
  "\<exists>since. sub_i64 70000 since \<ge> 30000 \<and> quiet 16 since [busy, idle 40000, idle 70000]"
proof -
  have run: "bp_backlog (bp_run (bp_new Freshness 10000 4) [busy, idle 40000])"
    "\<not> bp_backlog (bp_run (bp_new Freshness 10000 4) ([busy, idle 40000] @ [idle 70000]))"
    by (simp_all add: busy_def idle_def bp_update_fields bp_recent_def bp_new_def sub_i64_def)
  have "ob_now (idle 70000) = 70000" "bp_recent_limit (bp_new Freshness 10000 4) = 16" by (simp_all add: idle_def bp_new_def)
  then show ?thesis
    using backlog_released_after_quiet [of Freshness 10000 4 "[busy, idle 40000]" "idle 70000"] run
    by (simp add: Let_def)
qed

section \<open>Properties of the orders\<close>

text \<open>Every order asks each class once, the preferred one first, and eight claims go round the reserved shares.\<close>

lemma order_complete: "distinct (order_for c) \<and> set (order_for c) = UNIV \<and> hd (order_for c) = c \<and> length (order_for c) = 4"
proof -
  have "x \<in> {HintClass, RecentClass, RetryClass, HistoryClass}" for x by (cases x) auto
  then show ?thesis by (cases c) (auto simp: order_for_def BORROW_ORDER_def)
qed

lemma rotation_table:
  "list_all (\<lambda>turn. list_all (\<lambda>c. count_list (map (\<lambda>n. CLAIM_ROTATION ! ((turn + n) mod 8)) [0..<8]) c = count_list CLAIM_ROTATION c)
     [HintClass, RecentClass, RetryClass, HistoryClass]) [0..<8]"
  by code_simp

lemma rotation_shares: "turn < 8 \<Longrightarrow>
  count_list (map (\<lambda>n. CLAIM_ROTATION ! ((on_claimed ^^ n) turn)) [0..<8]) c = count_list CLAIM_ROTATION c"
proof -
  assume t: "turn < 8"
  have "(on_claimed ^^ n) turn = (turn + n) mod 8" for n
    by (induction n) (use t in \<open>auto simp: on_claimed_def CLAIM_ROTATION_def mod_Suc_eq\<close>)
  moreover have "c \<in> set [HintClass, RecentClass, RetryClass, HistoryClass]" by (cases c) auto
  ultimately show ?thesis using rotation_table t unfolding list_all_iff by auto
qed

lemma hints_first: "next_ready poll s = (Some (a, src), polled, s') \<Longrightarrow>
  (if cs_first_hints s = [] \<and> poll \<noteq> None then poll = Some a \<and> s' = s
   else cs_first_hints s @ cs_remaining_hints s = a # cs_first_hints s' @ cs_remaining_hints s')"
  by (auto simp: next_ready_def split: list.splits option.splits)

lemma selected_distinct: "distinct (cs_selected s) \<Longrightarrow> distinct (cs_selected (snd (select_once a s))) \<and>
  selected_count (snd (select_once a s)) = card (insert a (set (cs_selected s)))"
  by (auto simp: select_once_def selected_count_def distinct_card card_insert_if)

end
