(* ===== verification/TcpLimits.thy ===== *)
theory TcpLimits imports Address begin

text \<open>
  One TCP connection per address at a time: \<open>src/collection/tcp_limits.rs\<close>. A semaphore of tokio is a count of free
  permits and a queue of waiters in order of arrival; an \<open>Arc\<close> is its strong count, written out because the code
  reads it when a ticket is dropped; the table holds \<open>Weak\<close> references, so it does not add to the count. A ticket
  is named by a number. A waiter that has been handed the permit owns it at once, whether or not its future has been
  polled: dropping the future then gives it back.
\<close>

record semaphore =
  sm_strong :: nat
  sm_free :: nat
  sm_queue :: "nat list"
  sm_holders :: "nat list"

record tcp_limits =
  tl_ips :: "(ip_addr, nat) hmap"
  tl_semaphores :: "(nat, semaphore) hmap"
  tl_tickets :: "(nat, ip_addr \<times> nat) hmap"
  tl_fresh :: nat

definition tcp_limits_new :: tcp_limits where
  "tcp_limits_new = \<lparr>tl_ips = [], tl_semaphores = [], tl_tickets = [], tl_fresh = 0\<rparr>"

text \<open>\<open>Weak::upgrade\<close>: the semaphore, if a strong reference is left.\<close>

definition upgrade :: "tcp_limits \<Rightarrow> nat \<Rightarrow> semaphore option" where
  "upgrade st k = (case hm_get (tl_semaphores st) k of
     None \<Rightarrow> None | Some s \<Rightarrow> if sm_strong s > 0 then Some s else None)"

text \<open>
  The first poll of \<open>acquire_for_ip\<close>: the ticket takes a reference, \<open>acquire_owned\<close> a second one; then the
  permit is taken or the ticket waits. \<open>tl_fresh\<close> names new semaphores and tickets.
\<close>

definition acquire_permit :: "nat \<Rightarrow> semaphore \<Rightarrow> semaphore" where
  "acquire_permit t s =
     (if sm_free s > 0 \<and> sm_queue s = [] then s\<lparr>sm_free := sm_free s - 1, sm_holders := sm_holders s @ [t]\<rparr>
      else s\<lparr>sm_queue := sm_queue s @ [t]\<rparr>)"

definition acquire_for_ip :: "ip_addr \<Rightarrow> tcp_limits \<Rightarrow> tcp_limits \<times> nat" where
  "acquire_for_ip ip st =
     (let t = tl_fresh st;
          (k, s, st) = (case (case hm_get (tl_ips st) ip of None \<Rightarrow> None | Some k \<Rightarrow> map_option (Pair k) (upgrade st k)) of
             Some (k, s) \<Rightarrow> (k, s, st)
           | None \<Rightarrow> (t, \<lparr>sm_strong = 0, sm_free = 1, sm_queue = [], sm_holders = []\<rparr>, st\<lparr>tl_ips := hm_put ip t (tl_ips st)\<rparr>));
          s = acquire_permit t (s\<lparr>sm_strong := sm_strong s + 2\<rparr>)
      in (st\<lparr>tl_semaphores := hm_put k s (tl_semaphores st), tl_tickets := hm_put t (ip, k) (tl_tickets st), tl_fresh := t + 1\<rparr>, t))"

text \<open>
  The permit of a holder or the place of a waiter goes first, with its reference; a freed permit goes to the waiter
  that came first.
\<close>

definition release_permit :: "nat \<Rightarrow> semaphore \<Rightarrow> semaphore" where
  "release_permit t s =
     (if t \<in> set (sm_holders s) then
        (case sm_queue s of
           [] \<Rightarrow> s\<lparr>sm_holders := removeAll t (sm_holders s), sm_free := sm_free s + 1\<rparr>
         | w # ws \<Rightarrow> s\<lparr>sm_holders := removeAll t (sm_holders s) @ [w], sm_queue := ws\<rparr>)
      else s\<lparr>sm_queue := removeAll t (sm_queue s)\<rparr>)\<lparr>sm_strong := sm_strong s - 1\<rparr>"

text \<open>Then \<open>Drop for TcpTicket\<close>: the entry of the table goes with the last reference. A missing semaphore is \<open>None\<close>.\<close>

definition drop_ticket :: "nat \<Rightarrow> tcp_limits \<Rightarrow> tcp_limits option" where
  "drop_ticket t st =
     (case hm_get (tl_tickets st) t of
        None \<Rightarrow> Some st
      | Some (ip, k) \<Rightarrow>
         (case hm_get (tl_semaphores st) k of
            None \<Rightarrow> None
          | Some s \<Rightarrow>
             (let s = release_permit t s;
                  ips = (if sm_strong s = 1 then hm_remove ip (tl_ips st) else tl_ips st);
                  s = s\<lparr>sm_strong := sm_strong s - 1\<rparr>
              in Some (st\<lparr>tl_ips := ips, tl_tickets := hm_remove t (tl_tickets st),
                   tl_semaphores := (if sm_strong s = 0 then hm_remove k (tl_semaphores st) else hm_put k s (tl_semaphores st))\<rparr>))))"

definition tracked_tcp_ips :: "tcp_limits \<Rightarrow> nat" where
  "tracked_tcp_ips st = length (tl_ips st)"

section \<open>Runs\<close>

datatype tcp_op = Acquire ip_addr | Release nat

fun tcp_step :: "tcp_limits \<Rightarrow> tcp_op \<Rightarrow> tcp_limits option" where
  "tcp_step st (Acquire ip) = Some (fst (acquire_for_ip ip st))"
| "tcp_step st (Release t) = drop_ticket t st"

definition users :: "semaphore \<Rightarrow> nat list" where
  "users s = sm_holders s @ sm_queue s"

definition semaphore_ok :: "semaphore \<Rightarrow> bool" where
  "semaphore_ok s \<longleftrightarrow> distinct (users s) \<and> sm_strong s = 2 * length (users s) \<and> users s \<noteq> [] \<and> length (sm_holders s) = 1 \<and> sm_free s = 0"

definition tcp_inv :: "tcp_limits \<Rightarrow> bool" where
  "tcp_inv st \<longleftrightarrow> hm_ok (tl_ips st) \<and> hm_ok (tl_semaphores st) \<and> hm_ok (tl_tickets st) \<and>
     (\<forall>ip k. hm_get (tl_ips st) ip = Some k \<longrightarrow> k < tl_fresh st \<and> (\<exists>s. hm_get (tl_semaphores st) k = Some s \<and> semaphore_ok s)) \<and>
     (\<forall>ip ip' k. hm_get (tl_ips st) ip = Some k \<longrightarrow> hm_get (tl_ips st) ip' = Some k \<longrightarrow> ip = ip') \<and>
     (\<forall>k s. hm_get (tl_semaphores st) k = Some s \<longrightarrow> k < tl_fresh st \<and> (\<exists>ip. hm_get (tl_ips st) ip = Some k)) \<and>
     (\<forall>k s t. hm_get (tl_semaphores st) k = Some s \<longrightarrow> t \<in> set (users s) \<longrightarrow> (\<exists>ip. hm_get (tl_tickets st) t = Some (ip, k))) \<and>
     (\<forall>t ip k. hm_get (tl_tickets st) t = Some (ip, k) \<longrightarrow> t < tl_fresh st \<and> hm_get (tl_ips st) ip = Some k \<and>
        (\<exists>s. hm_get (tl_semaphores st) k = Some s \<and> t \<in> set (users s)))"


section \<open>One semaphore\<close>

lemma acquire_new:
  "semaphore_ok (acquire_permit t \<lparr>sm_strong = 2, sm_free = 1, sm_queue = [], sm_holders = []\<rparr>)"
  "users (acquire_permit t \<lparr>sm_strong = 2, sm_free = 1, sm_queue = [], sm_holders = []\<rparr>) = [t]"
  by (simp_all add: acquire_permit_def semaphore_ok_def users_def)

lemma acquire_shared:
  assumes "semaphore_ok s" and "t \<notin> set (users s)"
  shows "semaphore_ok (acquire_permit t (s\<lparr>sm_strong := sm_strong s + 2\<rparr>))"
    and "users (acquire_permit t (s\<lparr>sm_strong := sm_strong s + 2\<rparr>)) = users s @ [t]"
  using assms by (auto simp: acquire_permit_def semaphore_ok_def users_def)

lemma release_users:
  assumes "semaphore_ok s" and "t \<in> set (users s)"
  shows "set (users (release_permit t s)) = set (users s) - {t}" "distinct (users (release_permit t s))"
    "sm_strong (release_permit t s) = 2 * length (users s) - 1"
proof -
  obtain h where h: "sm_holders s = [h]" using assms(1) by (cases "sm_holders s") (auto simp: semaphore_ok_def)
  have "h \<notin> set (sm_queue s)" "distinct (sm_queue s)" "sm_strong s = 2 * length (users s)" using assms(1) h by (auto simp: semaphore_ok_def users_def)
  then show "set (users (release_permit t s)) = set (users s) - {t}" "distinct (users (release_permit t s))"
    "sm_strong (release_permit t s) = 2 * length (users s) - 1"
    using assms(2) h by (auto simp: release_permit_def users_def distinct_removeAll split: list.splits)
qed

lemma release_ok:
  assumes "semaphore_ok s" and "t \<in> set (users s)" and "users (release_permit t s) \<noteq> []"
  shows "semaphore_ok ((release_permit t s)\<lparr>sm_strong := sm_strong (release_permit t s) - 1\<rparr>)"
proof -
  let ?r = "release_permit t s"
  obtain h where h: "sm_holders s = [h]" using assms(1) by (cases "sm_holders s") (auto simp: semaphore_ok_def)
  have q: "h \<notin> set (sm_queue s)" "distinct (sm_queue s)" "sm_free s = 0" using assms(1) h by (auto simp: semaphore_ok_def users_def)
  have "length (users ?r) = card (set (users s) - {t})"
    using distinct_card [OF release_users(2) [OF assms(1,2)]] release_users(1) [OF assms(1,2)] by simp
  also have "\<dots> = length (users s) - 1"
    using assms(1,2) distinct_card [of "users s"] by (simp add: semaphore_ok_def)
  finally have len: "length (users ?r) = length (users s) - 1" .
  have "length (sm_holders ?r) = 1 \<and> sm_free ?r = 0"
    using assms(2,3) h q by (auto simp: release_permit_def users_def split: list.splits)
  then show ?thesis
    using assms(3) release_users [OF assms(1,2)] len by (simp add: semaphore_ok_def users_def)
qed


section \<open>The table\<close>

lemma tcp_invD:
  assumes "tcp_inv st"
  shows "hm_ok (tl_ips st)" "hm_ok (tl_semaphores st)" "hm_ok (tl_tickets st)"
    and "hm_get (tl_ips st) ip = Some k \<Longrightarrow> k < tl_fresh st \<and> (\<exists>s. hm_get (tl_semaphores st) k = Some s \<and> semaphore_ok s)"
    and "hm_get (tl_ips st) ip = Some k \<Longrightarrow> hm_get (tl_ips st) ip' = Some k \<Longrightarrow> ip = ip'"
    and "hm_get (tl_semaphores st) k = Some s \<Longrightarrow> k < tl_fresh st \<and> (\<exists>ip. hm_get (tl_ips st) ip = Some k)"
    and "hm_get (tl_semaphores st) k = Some s \<Longrightarrow> t \<in> set (users s) \<Longrightarrow> \<exists>ip. hm_get (tl_tickets st) t = Some (ip, k)"
    and "hm_get (tl_tickets st) t = Some (ip, k) \<Longrightarrow> t < tl_fresh st \<and> hm_get (tl_ips st) ip = Some k \<and>
      (\<exists>s. hm_get (tl_semaphores st) k = Some s \<and> t \<in> set (users s))"
  using assms unfolding tcp_inv_def by blast+

lemma tcp_fresh:
  assumes "tcp_inv st"
  shows "hm_get (tl_tickets st) (tl_fresh st) = None" "hm_get (tl_semaphores st) (tl_fresh st) = None"
    "hm_get (tl_semaphores st) k = Some s \<Longrightarrow> tl_fresh st \<notin> set (users s)"
proof -
  show t: "hm_get (tl_tickets st) (tl_fresh st) = None"
    using tcp_invD(8) [OF assms] by (cases "hm_get (tl_tickets st) (tl_fresh st)") fastforce+
  show "hm_get (tl_semaphores st) (tl_fresh st) = None"
    using tcp_invD(6) [OF assms] by (cases "hm_get (tl_semaphores st) (tl_fresh st)") fastforce+
  show "hm_get (tl_semaphores st) k = Some s \<Longrightarrow> tl_fresh st \<notin> set (users s)"
    using tcp_invD(7) [OF assms] t by fastforce
qed

lemma acquire_unfold:
  assumes "tcp_inv st"
  shows "fst (acquire_for_ip ip st) =
    (case hm_get (tl_ips st) ip of
       None \<Rightarrow> st\<lparr>tl_ips := hm_put ip (tl_fresh st) (tl_ips st),
         tl_semaphores := hm_put (tl_fresh st) (acquire_permit (tl_fresh st) \<lparr>sm_strong = 2, sm_free = 1, sm_queue = [], sm_holders = []\<rparr>) (tl_semaphores st),
         tl_tickets := hm_put (tl_fresh st) (ip, tl_fresh st) (tl_tickets st), tl_fresh := tl_fresh st + 1\<rparr>
     | Some k \<Rightarrow> (let s = the (hm_get (tl_semaphores st) k) in
         st\<lparr>tl_semaphores := hm_put k (acquire_permit (tl_fresh st) (s\<lparr>sm_strong := sm_strong s + 2\<rparr>)) (tl_semaphores st),
         tl_tickets := hm_put (tl_fresh st) (ip, k) (tl_tickets st), tl_fresh := tl_fresh st + 1\<rparr>))"
proof (cases "hm_get (tl_ips st) ip")
  case None
  then show ?thesis by (simp add: acquire_for_ip_def Let_def numeral_2_eq_2)
next
  case (Some k)
  then obtain s where s: "hm_get (tl_semaphores st) k = Some s" "semaphore_ok s" using tcp_invD(4) [OF assms] by blast
  then have "upgrade st k = Some s" by (auto simp: upgrade_def semaphore_ok_def)
  then show ?thesis using Some s by (simp add: acquire_for_ip_def Let_def)
qed

lemma tcp_invI:
  assumes "hm_ok (tl_ips st)" "hm_ok (tl_semaphores st)" "hm_ok (tl_tickets st)"
    and "\<And>ip k. hm_get (tl_ips st) ip = Some k \<Longrightarrow> k < tl_fresh st \<and> (\<exists>s. hm_get (tl_semaphores st) k = Some s \<and> semaphore_ok s)"
    and "\<And>ip ip' k. hm_get (tl_ips st) ip = Some k \<Longrightarrow> hm_get (tl_ips st) ip' = Some k \<Longrightarrow> ip = ip'"
    and "\<And>k s. hm_get (tl_semaphores st) k = Some s \<Longrightarrow> k < tl_fresh st \<and> (\<exists>ip. hm_get (tl_ips st) ip = Some k)"
    and "\<And>k s t. hm_get (tl_semaphores st) k = Some s \<Longrightarrow> t \<in> set (users s) \<Longrightarrow> \<exists>ip. hm_get (tl_tickets st) t = Some (ip, k)"
    and "\<And>t ip k. hm_get (tl_tickets st) t = Some (ip, k) \<Longrightarrow> t < tl_fresh st \<and> hm_get (tl_ips st) ip = Some k \<and>
      (\<exists>s. hm_get (tl_semaphores st) k = Some s \<and> t \<in> set (users s))"
  shows "tcp_inv st"
  using assms unfolding tcp_inv_def by blast

text \<open>The state after a semaphore is updated or added and a new ticket uses it.\<close>

lemma acquire_inv: "tcp_inv st \<Longrightarrow> tcp_inv (fst (acquire_for_ip ip st))"
proof -
  assume inv: "tcp_inv st"
  note D = tcp_invD [OF inv] and F = tcp_fresh [OF inv]
  let ?n = "tl_fresh st"
  define k where "k = (case hm_get (tl_ips st) ip of None \<Rightarrow> ?n | Some k \<Rightarrow> k)"
  obtain s where s: "semaphore_ok s" "set (users s) = insert ?n (case hm_get (tl_semaphores st) k of None \<Rightarrow> {} | Some s \<Rightarrow> set (users s))"
    and eq: "fst (acquire_for_ip ip st) = st\<lparr>tl_ips := (if hm_get (tl_ips st) ip = None then hm_put ip k (tl_ips st) else tl_ips st),
      tl_semaphores := hm_put k s (tl_semaphores st), tl_tickets := hm_put ?n (ip, k) (tl_tickets st), tl_fresh := ?n + 1\<rparr>"
  proof (cases "hm_get (tl_ips st) ip")
    case None
    then have k: "k = ?n" by (simp add: k_def)
    show ?thesis
      by (rule that [of "acquire_permit ?n \<lparr>sm_strong = 2, sm_free = 1, sm_queue = [], sm_holders = []\<rparr>"])
        (use None k F(2) acquire_new acquire_unfold [OF inv, of ip] in \<open>simp_all\<close>)
  next
    case (Some j)
    then have k: "k = j" by (simp add: k_def)
    obtain s where s: "hm_get (tl_semaphores st) j = Some s" "semaphore_ok s" using D(4) [OF Some] by blast
    show ?thesis
      by (rule that [of "acquire_permit ?n (s\<lparr>sm_strong := sm_strong s + 2\<rparr>)"])
        (use Some k s F(3) [OF s(1)] acquire_shared [OF s(2) F(3) [OF s(1)]] acquire_unfold [OF inv, of ip] in \<open>simp_all add: Let_def\<close>)
  qed
  have ips: "hm_get (tl_ips (fst (acquire_for_ip ip st))) i = (if i = ip then Some k else hm_get (tl_ips st) i)" for i
    unfolding eq by (auto simp: k_def split: option.splits)
  have k: "k \<le> ?n" "k = ?n \<and> hm_get (tl_ips st) ip = None \<or> hm_get (tl_ips st) ip = Some k"
    using D(4) [of ip] by (auto simp: k_def split: option.splits)
  have other: "i = ip" if "hm_get (tl_ips st) i = Some k" for i
    using D(5) [OF that] D(4) [OF that] k(2) by auto
  show ?thesis
  proof (rule tcp_invI)
    show "hm_ok (tl_ips (fst (acquire_for_ip ip st)))" "hm_ok (tl_semaphores (fst (acquire_for_ip ip st)))" "hm_ok (tl_tickets (fst (acquire_for_ip ip st)))"
      unfolding eq using D(1-3) by simp_all
  next
    fix i j assume "hm_get (tl_ips (fst (acquire_for_ip ip st))) i = Some j"
    then show "j < tl_fresh (fst (acquire_for_ip ip st)) \<and> (\<exists>s. hm_get (tl_semaphores (fst (acquire_for_ip ip st))) j = Some s \<and> semaphore_ok s)"
      unfolding ips unfolding eq using D(4) [of i j] s(1) k(1) by (auto split: if_splits)
  next
    fix i i' j assume "hm_get (tl_ips (fst (acquire_for_ip ip st))) i = Some j" "hm_get (tl_ips (fst (acquire_for_ip ip st))) i' = Some j"
    then show "i = i'" unfolding ips using D(5) [of i j i'] other by (auto split: if_splits)
  next
    fix j s' assume "hm_get (tl_semaphores (fst (acquire_for_ip ip st))) j = Some s'"
    then have j: "j = k \<or> j \<noteq> k \<and> hm_get (tl_semaphores st) j = Some s'" unfolding eq by (auto split: if_splits)
    show "j < tl_fresh (fst (acquire_for_ip ip st)) \<and> (\<exists>i. hm_get (tl_ips (fst (acquire_for_ip ip st))) i = Some j)"
    proof (cases "j = k")
      case False
      then obtain i where i: "j < ?n" "hm_get (tl_ips st) i = Some j" using D(6) j by blast
      then have "i \<noteq> ip" using k(2) False by auto
      then show ?thesis unfolding ips unfolding eq using i by (auto intro!: exI [of _ i])
    next
      case True
      then have "hm_get (tl_ips (fst (acquire_for_ip ip st))) ip = Some j" by (simp add: ips)
      moreover have "j < tl_fresh (fst (acquire_for_ip ip st))" unfolding eq using k(1) True by simp
      ultimately show ?thesis by blast
    qed
  next
    fix j s' t assume "hm_get (tl_semaphores (fst (acquire_for_ip ip st))) j = Some s'" "t \<in> set (users s')"
    then show "\<exists>i. hm_get (tl_tickets (fst (acquire_for_ip ip st))) t = Some (i, j)"
      unfolding eq using D(7) [of j _ t] s(2) F(3) by (auto split: if_splits option.splits)
  next
    fix t i j assume "hm_get (tl_tickets (fst (acquire_for_ip ip st))) t = Some (i, j)"
    then show "t < tl_fresh (fst (acquire_for_ip ip st)) \<and> hm_get (tl_ips (fst (acquire_for_ip ip st))) i = Some j \<and>
      (\<exists>s. hm_get (tl_semaphores (fst (acquire_for_ip ip st))) j = Some s \<and> t \<in> set (users s))"
      unfolding ips unfolding eq using D(8) [of t i j] s(2) k by (auto split: if_splits)
  qed
qed


lemma release_inv:
  assumes "tcp_inv st"
  shows "\<exists>st'. drop_ticket t st = Some st' \<and> tcp_inv st'"
proof (cases "hm_get (tl_tickets st) t")
  case None
  then show ?thesis using assms by (simp add: drop_ticket_def)
next
  case (Some x)
  note D = tcp_invD [OF assms]
  obtain ip k where x: "hm_get (tl_tickets st) t = Some (ip, k)" using Some by fastforce
  then obtain s where s: "hm_get (tl_semaphores st) k = Some s" "t \<in> set (users s)" "hm_get (tl_ips st) ip = Some k" using D(8) by blast
  then have ok: "semaphore_ok s" using D(4) by fastforce
  let ?r = "release_permit t s"
  note R = release_users [OF ok s(2)]
  have n: "sm_strong ?r = 1 \<longleftrightarrow> users ?r = []"
  proof -
    have "length (users ?r) = card (set (users s) - {t})" using distinct_card [OF R(2)] R(1) by simp
    then have "length (users ?r) = length (users s) - 1" using ok s(2) distinct_card [of "users s"] by (simp add: semaphore_ok_def)
    moreover have "0 < length (users s)" using s(2) by auto
    ultimately have "sm_strong ?r = 1 \<longleftrightarrow> length (users ?r) = 0" using R(3) by arith
    then show ?thesis by simp
  qed
  let ?gone = "users ?r = []"
  let ?st = "st\<lparr>tl_ips := (if ?gone then hm_remove ip (tl_ips st) else tl_ips st), tl_tickets := hm_remove t (tl_tickets st),
    tl_semaphores := (if ?gone then hm_remove k (tl_semaphores st)
      else hm_put k (?r\<lparr>sm_strong := sm_strong ?r - 1\<rparr>) (tl_semaphores st))\<rparr>"
  have zero: "sm_strong ?r - 1 = 0 \<longleftrightarrow> ?gone" using n R(3) s(2) by (cases "users s") auto
  have eq: "drop_ticket t st = Some ?st"
    using x s(1) n zero by (simp add: drop_ticket_def Let_def)
  have others: "i = ip" if "hm_get (tl_ips st) i = Some k" for i using D(5) [OF that s(3)] .
  have owner: "u \<in> set (users s) \<and> u \<noteq> t" if "hm_get (tl_tickets st) u = Some (i, k)" "u \<noteq> t" for u i
    using D(8) [OF that(1)] s(1) that(2) by auto
  have ok': "semaphore_ok (?r\<lparr>sm_strong := sm_strong ?r - 1\<rparr>)" if "\<not> ?gone" using release_ok [OF ok s(2)] that .
  have users': "users (?r\<lparr>sm_strong := sm_strong ?r - 1\<rparr>) = users ?r" by (simp add: users_def)
  have "tcp_inv ?st"
  proof (rule tcp_invI)
    show "hm_ok (tl_ips ?st)" "hm_ok (tl_semaphores ?st)" "hm_ok (tl_tickets ?st)" using D(1-3) by simp_all
  next
    fix i j assume "hm_get (tl_ips ?st) i = Some j"
    then show "j < tl_fresh ?st \<and> (\<exists>s. hm_get (tl_semaphores ?st) j = Some s \<and> semaphore_ok s)"
      using D(4) [of i j] ok' others by (auto split: if_splits)
  next
    fix i i' j assume "hm_get (tl_ips ?st) i = Some j" "hm_get (tl_ips ?st) i' = Some j"
    then show "i = i'" using D(5) [of i j i'] by (auto split: if_splits)
  next
    fix j s' assume "hm_get (tl_semaphores ?st) j = Some s'"
    then show "j < tl_fresh ?st \<and> (\<exists>i. hm_get (tl_ips ?st) i = Some j)"
    proof (cases "j = k")
      case True
      then show ?thesis using \<open>hm_get (tl_semaphores ?st) j = Some s'\<close> D(4) [OF s(3)] s(3) by (auto split: if_splits)
    next
      case False
      then obtain i where i: "j < tl_fresh st" "hm_get (tl_ips st) i = Some j"
        using \<open>hm_get (tl_semaphores ?st) j = Some s'\<close> D(6) [of j s'] by (auto split: if_splits)
      then have "i \<noteq> ip" using s(3) False by auto
      then show ?thesis using i by auto
    qed
  next
    fix j s' u assume su: "hm_get (tl_semaphores ?st) j = Some s'" "u \<in> set (users s')"
    then show "\<exists>i. hm_get (tl_tickets ?st) u = Some (i, j)"
    proof (cases "j = k")
      case True
      then have "u \<in> set (users ?r)" using su users' by (auto split: if_splits)
      then have "u \<in> set (users s)" "u \<noteq> t" using R(1) by auto
      then show ?thesis using D(7) [OF s(1)] True by auto
    next
      case False
      then have j: "hm_get (tl_semaphores st) j = Some s'" using su by (auto split: if_splits)
      have "u \<noteq> t" using D(7) [OF j su(2)] x False by auto
      then show ?thesis using D(7) [OF j su(2)] by auto
    qed
  next
    fix u i j assume "hm_get (tl_tickets ?st) u = Some (i, j)"
    then have u: "u \<noteq> t" "hm_get (tl_tickets st) u = Some (i, j)" by (auto split: if_splits)
    show "u < tl_fresh ?st \<and> hm_get (tl_ips ?st) i = Some j \<and> (\<exists>s. hm_get (tl_semaphores ?st) j = Some s \<and> u \<in> set (users s))"
    proof (cases "j = k")
      case True
      then have "u \<in> set (users ?r)" using owner u R(1) by blast
      then show ?thesis using D(8) [OF u(2)] True users' by auto
    next
      case False
      then show ?thesis using D(8) [OF u(2)] s(3) by auto
    qed
  qed
  then show ?thesis using eq by blast
qed

lemma tcp_initial: "tcp_inv tcp_limits_new"
  by (simp add: tcp_inv_def tcp_limits_new_def)

interpretation tcp: panic_free_ops tcp_step tcp_inv "\<lambda>_ _. True"
proof
  fix s x assume "tcp_inv s"
  then show "\<exists>t. tcp_step s x = Some t \<and> tcp_inv t" by (cases x) (auto simp: acquire_inv release_inv)
qed


section \<open>Runs of acquisitions and releases\<close>

definition holds_permit :: "tcp_limits \<Rightarrow> ip_addr \<Rightarrow> nat \<Rightarrow> bool" where
  "holds_permit st ip t \<longleftrightarrow> (case hm_get (tl_tickets st) t of
     None \<Rightarrow> False
   | Some (i, k) \<Rightarrow> i = ip \<and> (case hm_get (tl_semaphores st) k of None \<Rightarrow> False | Some s \<Rightarrow> t \<in> set (sm_holders s)))"

lemma holder_of_ip:
  assumes "tcp_inv st" and "hm_get (tl_tickets st) t = Some (ip, k)"
  shows "\<exists>h. \<forall>u. holds_permit st ip u \<longleftrightarrow> u = h"
proof -
  note D = tcp_invD [OF assms(1)]
  obtain s where s: "hm_get (tl_ips st) ip = Some k" "hm_get (tl_semaphores st) k = Some s" "semaphore_ok s"
    using D(8) [OF assms(2)] D(4) by fastforce
  obtain h where h: "sm_holders s = [h]" using s(3) by (cases "sm_holders s") (auto simp: semaphore_ok_def)
  have "holds_permit st ip u \<longleftrightarrow> u = h" for u
  proof
    assume "holds_permit st ip u"
    then obtain k' s' where u: "hm_get (tl_tickets st) u = Some (ip, k')" "hm_get (tl_semaphores st) k' = Some s'" "u \<in> set (sm_holders s')"
      by (auto simp: holds_permit_def split: option.splits)
    then have "k' = k" using D(8) [OF u(1)] s(1) by simp
    then show "u = h" using u s(2) h by simp
  next
    assume u: "u = h"
    then obtain i where i: "hm_get (tl_tickets st) h = Some (i, k)" using D(7) [OF s(2), of h] h by (auto simp: users_def)
    then have "i = ip" using D(8) [OF i] D(5) s(1) by blast
    then show "holds_permit st ip u" using i u s(2) h by (simp add: holds_permit_def)
  qed
  then show ?thesis by blast
qed

text \<open>
  C17: after any sequence of acquisitions and releases (cancelled waiters included) no address has two permits out, an
  address that has a ticket has exactly one holder, so no permit is lost while somebody waits, and the table tracks
  exactly the addresses with a ticket: no entry leaks.
\<close>

theorem one_connection_per_address:
  "\<exists>st. run_ops tcp_step tcp_limits_new ops = Some st \<and>
     (\<forall>ip t u. \<not> (holds_permit st ip t \<and> holds_permit st ip u \<and> t \<noteq> u)) \<and>
     (\<forall>ip. (\<exists>t k. hm_get (tl_tickets st) t = Some (ip, k)) = (\<exists>t. holds_permit st ip t)) \<and>
     tracked_tcp_ips st = card {ip. \<exists>t. holds_permit st ip t}"
proof -
  have "ops_ok tcp_step (\<lambda>_ _. True) s ops" for s
    by (induction ops arbitrary: s) (auto split: option.splits)
  then obtain st where st: "run_ops tcp_step tcp_limits_new ops = Some st" "tcp_inv st"
    using tcp.safe_run [OF tcp_initial] by blast
  note D = tcp_invD [OF st(2)]
  have ticket: "\<exists>k. hm_get (tl_tickets st) t = Some (ip, k)" if "holds_permit st ip t" for ip t
    using that by (auto simp: holds_permit_def split: option.splits)
  have one: "(\<exists>t k. hm_get (tl_tickets st) t = Some (ip, k)) = (\<exists>t. holds_permit st ip t)" for ip
    using ticket holder_of_ip [OF st(2)] by metis
  have "(\<exists>t k. hm_get (tl_tickets st) t = Some (ip, k)) \<longleftrightarrow> hm_get (tl_ips st) ip \<noteq> None" for ip
  proof
    assume "hm_get (tl_ips st) ip \<noteq> None"
    then obtain k s where k: "hm_get (tl_ips st) ip = Some k" "hm_get (tl_semaphores st) k = Some s" "semaphore_ok s" using D(4) by blast
    then obtain t i where t: "hm_get (tl_tickets st) t = Some (i, k)" using D(7) [OF k(2), of "hd (users s)"]
      by (auto simp: semaphore_ok_def)
    then show "\<exists>t k. hm_get (tl_tickets st) t = Some (ip, k)" using D(8) [OF t] D(5) k(1) by blast
  qed (use D(8) in blast)
  then have "{ip. \<exists>t. holds_permit st ip t} = fst ` set (tl_ips st)"
    using one by (auto simp: hm_get_None)
  then have "tracked_tcp_ips st = card {ip. \<exists>t. holds_permit st ip t}"
    using hm_card [OF D(1)] by (simp add: tracked_tcp_ips_def)
  moreover have "\<not> (holds_permit st ip t \<and> holds_permit st ip u \<and> t \<noteq> u)" for ip t u
    using ticket holder_of_ip [OF st(2)] by metis
  ultimately show ?thesis using st(1) one by blast
qed

end
