(* ===== verification/PeerLookup.thy ===== *)
theory PeerLookup imports Dispatcher begin

text \<open>
  The search for peers of the collection side: \<open>src/collection/lookup.rs\<close>. The pacer of the queries, the iterative
  search of one address family and the stream that joins the families over one list of results. The future of a
  query is an entry of \<open>pending\<close>; which of them completes next, and with what, is an input. A lookup of
  a candidate that is not there is \<open>None\<close>. Metrics, the channel to the worker and the limit of 30 seconds, which
  only drops the search, are not modelled.
\<close>

section \<open>The pace of queries\<close>

record rate =
  rt_next :: "instant option"
  rt_ips :: "(ip_addr, instant) hmap"

definition rate_new :: rate where
  "rate_new = \<lparr>rt_next = None, rt_ips = []\<rparr>"

text \<open>One turn of the loop of \<open>pace\<close>: the slot is taken (\<open>None\<close>) or the caller sleeps until the time that is due.\<close>

definition pace_turn :: "instant \<Rightarrow> ip_addr \<Rightarrow> rate \<Rightarrow> rate \<times> instant option" where
  "pace_turn now ip r =
     (let r = r\<lparr>rt_ips := hm_retain (\<lambda>_ until. until > now) (rt_ips r)\<rparr>;
          due = max (case rt_next r of None \<Rightarrow> now | Some t \<Rightarrow> t) (case hm_get (rt_ips r) ip of None \<Rightarrow> now | Some t \<Rightarrow> t)
      in if due \<le> now then (r\<lparr>rt_next := Some (now + millis 100), rt_ips := hm_put ip (now + secs 1) (rt_ips r)\<rparr>, None)
         else (r, Some due))"

text \<open>Callers that poll in order of time, each with the address it asks for; the list of slots that were taken.\<close>

fun pace_run :: "rate \<Rightarrow> (instant \<times> ip_addr) list \<Rightarrow> rate \<times> (instant \<times> ip_addr) list" where
  "pace_run r [] = (r, [])"
| "pace_run r ((now, ip) # polls) =
     (case pace_turn now ip r of
        (r', None) \<Rightarrow> (case pace_run r' polls of (s, slots) \<Rightarrow> (s, (now, ip) # slots))
      | (r', Some _) \<Rightarrow> pace_run r' polls)"

text \<open>\<open>query\<close> tries again while the dispatcher has no place; its result is the first other answer.\<close>

fun query_result :: "(query_error + get_peers_response) list \<Rightarrow> (query_error + get_peers_response) option" where
  "query_result [] = None"
| "query_result (r # rs) =
     (case r of
        Inl (QueryAtCapacity _) \<Rightarrow> query_result rs
      | Inl LocalWait \<Rightarrow> query_result rs
      | _ \<Rightarrow> Some r)"

section \<open>The search of one family\<close>

record search =
  sr_candidates :: "(node_id, discovered_node) hmap"
  sr_states :: "(node_id, candidate_state) hmap"
  sr_addresses :: "socket_addr list"
  sr_pending :: "discovered_node list"
  sr_queries :: nat

definition search_new :: "discovered_node list \<Rightarrow> search" where
  "search_new seeds = \<lparr>sr_candidates = foldl (\<lambda>m n. hm_put (dn_id n) n m) [] seeds, sr_states = [], sr_addresses = [],
     sr_pending = [], sr_queries = 0\<rparr>"

definition search_closest :: "swarm_key \<Rightarrow> search \<Rightarrow> node_id list" where
  "search_closest h s = closest_valid
     (map (\<lambda>(i, _). (i, case hm_get (sr_states s) i of None \<Rightarrow> Unqueried | Some st \<Rightarrow> st)) (sr_candidates s))
     (NodeId (key_bytes h)) 8"

fun issue_queries :: "node_id list \<Rightarrow> search \<Rightarrow> search option" where
  "issue_queries [] s = Some s"
| "issue_queries (i # ns) s =
     (if length (sr_pending s) \<ge> 3 \<or> sr_queries s \<ge> 32 then Some s
      else if hm_has (sr_states s) i then issue_queries ns s
      else case hm_get (sr_candidates s) i of
        None \<Rightarrow> None
      | Some node \<Rightarrow>
          if dn_address node \<in> set (sr_addresses s) then issue_queries ns (s\<lparr>sr_states := hm_put i Failed (sr_states s)\<rparr>)
          else issue_queries ns (s\<lparr>sr_addresses := dn_address node # sr_addresses s,
            sr_states := hm_put i InFlight (sr_states s), sr_queries := sr_queries s + 1,
            sr_pending := sr_pending s @ [node]\<rparr>))"

definition unqueried_count :: "search \<Rightarrow> nat" where
  "unqueried_count s = length (filter (\<lambda>(i, _). \<not> hm_has (sr_states s) i) (sr_candidates s))"

lemma closest_is_candidate: "i \<in> set (search_closest h s) \<Longrightarrow> hm_has (sr_candidates s) i"
proof -
  assume "i \<in> set (search_closest h s)"
  then obtain v where "(i, v) \<in> set (sr_candidates s)"
    unfolding search_closest_def closest_valid_def by (auto dest!: subsetD [OF closest_by_subset])
  then have "i \<in> fst ` set (sr_candidates s)" by force
  then show ?thesis by (simp add: hm_has_def hm_get_None)
qed

text \<open>The cases of one candidate of the shortlist.\<close>

lemma issue_cases:
  assumes "issue_queries (i # ns) s = Some t"
  obtains (stop) "t = s" "length (sr_pending s) \<ge> 3 \<or> sr_queries s \<ge> 32"
    | (known) "hm_has (sr_states s) i" "issue_queries ns s = Some t"
    | (duplicate) node where "\<not> hm_has (sr_states s) i" "hm_get (sr_candidates s) i = Some node" "dn_address node \<in> set (sr_addresses s)"
        "issue_queries ns (s\<lparr>sr_states := hm_put i Failed (sr_states s)\<rparr>) = Some t"
    | (query) node where "\<not> hm_has (sr_states s) i" "hm_get (sr_candidates s) i = Some node" "dn_address node \<notin> set (sr_addresses s)"
        "length (sr_pending s) < 3" "sr_queries s < 32"
        "issue_queries ns (s\<lparr>sr_addresses := dn_address node # sr_addresses s, sr_states := hm_put i InFlight (sr_states s),
            sr_queries := sr_queries s + 1, sr_pending := sr_pending s @ [node]\<rparr>) = Some t"
proof (cases "length (sr_pending s) \<ge> 3 \<or> sr_queries s \<ge> 32")
  case True
  then show ?thesis using assms stop by auto
next
  case False
  then show ?thesis using assms known duplicate query by (cases "hm_has (sr_states s) i"; cases "hm_get (sr_candidates s) i") (auto split: if_splits)
qed

definition grows :: "search \<Rightarrow> search \<Rightarrow> bool" where
  "grows s t \<longleftrightarrow> sr_candidates t = sr_candidates s \<and> (\<forall>i. hm_has (sr_states s) i \<longrightarrow> hm_has (sr_states t) i) \<and>
     length (sr_pending s) \<le> length (sr_pending t) \<and> sr_queries s \<le> sr_queries t"

lemma issue_grows: "issue_queries ns s = Some t \<Longrightarrow> grows s t"
proof (induction ns arbitrary: s)
  case (Cons i ns)
  from Cons.prems show ?case
  proof (cases rule: issue_cases)
    case (duplicate node)
    from Cons.IH [OF duplicate(4)] show ?thesis by (simp add: grows_def hm_has_def)
  next
    case (query node)
    from Cons.IH [OF query(6)] show ?thesis by (simp add: grows_def hm_has_def)
  qed (use Cons.IH in \<open>simp_all add: grows_def\<close>)
qed (simp add: grows_def)

lemma issue_marks:
  "issue_queries ns s = Some t \<Longrightarrow> sr_pending t = [] \<Longrightarrow> sr_queries t < 32 \<Longrightarrow> i \<in> set ns \<Longrightarrow> hm_has (sr_states t) i"
proof (induction ns arbitrary: s)
  case (Cons j ns)
  from Cons.prems(1) show ?case
  proof (cases rule: issue_cases)
    case stop
    then show ?thesis using Cons.prems(2,3) by simp
  next
    case known
    then show ?thesis using Cons issue_grows [OF known(2)] by (cases "i = j") (auto simp: grows_def)
  next
    case (duplicate node)
    then show ?thesis using Cons issue_grows [OF duplicate(4)] by (cases "i = j") (auto simp: grows_def hm_has_def)
  next
    case (query node)
    then show ?thesis using Cons.prems issue_grows [OF query(6)] by (simp add: grows_def)
  qed
qed simp

lemma turn_decreases:
  assumes "issue_queries (search_closest h s) s = Some t" and "sr_pending t = []" and "sr_queries t < 32"
    and "list_ex (\<lambda>i. \<not> hm_has (sr_states t) i) (search_closest h t)"
  shows "unqueried_count t < unqueried_count s"
proof -
  have g: "grows s t" using issue_grows [OF assms(1)] .
  have "\<exists>i\<in>set (search_closest h s). \<not> hm_has (sr_states s) i"
  proof (rule ccontr)
    assume all: "\<not> ?thesis"
    have "issue_queries ns s = Some s" if "set ns \<subseteq> set (search_closest h s)" for ns
      using that all by (induction ns) auto
    then have "t = s" using assms(1) by simp
    then show False using assms(4) all by (auto simp: list_ex_iff)
  qed
  then obtain i where i: "i \<in> set (search_closest h s)" "\<not> hm_has (sr_states s) i" by blast
  then have "hm_has (sr_states t) i" using issue_marks [OF assms(1-3)] by blast
  moreover obtain v where v: "(i, v) \<in> set (sr_candidates s)"
    using closest_is_candidate [OF i(1)] by (auto simp: hm_has_def dest: hm_get_in)
  have "length (filter Q xs) < length (filter P xs)" if "\<And>x. Q x \<Longrightarrow> P x" "y \<in> set xs" "P y" "\<not> Q y" for P Q :: "node_id \<times> discovered_node \<Rightarrow> bool" and xs y
    using that(2-4)
  proof (induction xs)
    case (Cons x xs)
    have "length (filter Q xs) \<le> length (filter P xs)"
      by (induction xs) (use that(1) in auto)
    then show ?case using Cons that(1) by (auto simp: less_Suc_eq_le)
  qed simp
  from this [of "\<lambda>(i, _). \<not> hm_has (sr_states t) i" "\<lambda>(i, _). \<not> hm_has (sr_states s) i" "(i, v)" "sr_candidates s"]
  show ?thesis using g v i(2) calculation by (auto simp: unqueried_count_def grows_def)
qed

text \<open>
  The loop up to the point where it waits for an answer (\<open>True\<close>) or breaks (\<open>False\<close>); it goes round while duplicate
  addresses use up the shortlist.
\<close>

function search_turn :: "swarm_key \<Rightarrow> bool \<Rightarrow> search \<Rightarrow> (search \<times> bool) option" where
  "search_turn h full s =
     (if full then Some (s, False)
      else case issue_queries (search_closest h s) s of
        None \<Rightarrow> None
      | Some t \<Rightarrow>
          if sr_pending t \<noteq> [] then Some (t, True)
          else if sr_queries t < 32 \<and> list_ex (\<lambda>i. \<not> hm_has (sr_states t) i) (search_closest h t) then search_turn h full t
          else Some (t, False))"
  by pat_completeness auto

termination
  by (relation "measure (\<lambda>(_, _, s). unqueried_count s)") (auto intro: turn_decreases)

declare search_turn.simps [simp del]

section \<open>Answers\<close>

fun control_fault :: "query_error \<Rightarrow> bool" where
  "control_fault IdentityChanged = True"
| "control_fault DispatcherClosed = True"
| "control_fault ShuttingDown = True"
| "control_fault (TransactionFailed _) = True"
| "control_fault _ = False"

text \<open>The results that the families share: distinct, at most 32.\<close>

definition collect_peers :: "socket_addr list \<Rightarrow> socket_addr list \<Rightarrow> socket_addr list" where
  "collect_peers found ps = foldl (\<lambda>c p. if length c < 32 \<and> p \<notin> set c then c @ [p] else c) found ps"

definition add_candidates :: "swarm_key \<Rightarrow> discovered_node list \<Rightarrow> (node_id, discovered_node) hmap \<Rightarrow> (node_id, discovered_node) hmap" where
  "add_candidates h nodes m =
     (let m = foldl (\<lambda>m n. if hm_has m (dn_id n) then m else hm_put (dn_id n) n m) m nodes in
      if length m > 256 then closest_by (\<lambda>(i, _). xor_distance (id_bytes i) (key_bytes h)) 256 m else m)"

definition search_answer :: "swarm_key \<Rightarrow> discovered_node \<Rightarrow> query_error + get_peers_response \<Rightarrow> search \<Rightarrow> socket_addr list
    \<Rightarrow> search \<times> socket_addr list" where
  "search_answer h node r s found =
     (let s = s\<lparr>sr_states := hm_put (dn_id node)
        (if (case r of Inl e \<Rightarrow> False | Inr g \<Rightarrow> trusted (dn_id node) (sa_ip (dn_address node))) then Succeeded else Failed) (sr_states s)\<rparr>
      in case r of
        Inl e \<Rightarrow> (s, found)
      | Inr g \<Rightarrow> (s\<lparr>sr_candidates := add_candidates h (gp_nodes g) (sr_candidates s)\<rparr>, collect_peers found (gp_peers g)))"

section \<open>The stream of both families\<close>

datatype family_search = AwaitSeeds | Searching search | FamilyDone

record peer_stream =
  ps_families :: "family_search list"
  ps_peers :: "socket_addr list"
  ps_had_seeds :: bool
  ps_fault :: "query_error option"

definition stream_new :: "nat \<Rightarrow> peer_stream" where
  "stream_new n = \<lparr>ps_families = replicate n AwaitSeeds, ps_peers = [], ps_had_seeds = False, ps_fault = None\<rparr>"

text \<open>A family runs on to its next wait, or ends.\<close>

definition run_family :: "swarm_key \<Rightarrow> nat \<Rightarrow> search \<Rightarrow> peer_stream \<Rightarrow> peer_stream option" where
  "run_family h i s st =
     (case search_turn h (length (ps_peers st) \<ge> 32) s of
        None \<Rightarrow> None
      | Some (s, waits) \<Rightarrow> Some (st\<lparr>ps_families := (ps_families st)[i := if waits then Searching s else FamilyDone]\<rparr>))"

definition end_family :: "nat \<Rightarrow> query_error option \<Rightarrow> peer_stream \<Rightarrow> peer_stream" where
  "end_family i e st = st\<lparr>ps_families := (ps_families st)[i := FamilyDone],
     ps_fault := (case e of None \<Rightarrow> ps_fault st | Some _ \<Rightarrow> e)\<rparr>"

definition family_seeds :: "swarm_key \<Rightarrow> nat \<Rightarrow> query_error + discovered_node list \<Rightarrow> peer_stream \<Rightarrow> peer_stream option" where
  "family_seeds h i r st =
     (case r of
        Inl e \<Rightarrow> Some (end_family i (Some e) st)
      | Inr seeds \<Rightarrow> if seeds = [] then Some (end_family i None st)
          else run_family h i (search_new seeds) (st\<lparr>ps_had_seeds := True\<rparr>))"

definition family_answer :: "swarm_key \<Rightarrow> nat \<Rightarrow> nat \<Rightarrow> query_error + get_peers_response \<Rightarrow> search \<Rightarrow> peer_stream \<Rightarrow> peer_stream option" where
  "family_answer h i k r s st =
     (let node = sr_pending s ! k; s = s\<lparr>sr_pending := take k (sr_pending s) @ drop (k + 1) (sr_pending s)\<rparr> in
      case r of
        Inl e \<Rightarrow> if control_fault e then Some (end_family i (Some e) st)
          else run_family h i (fst (search_answer h node r s (ps_peers st))) st
      | Inr g \<Rightarrow> (case search_answer h node r s (ps_peers st) of
          (s, found) \<Rightarrow> run_family h i s (st\<lparr>ps_peers := found\<rparr>)))"

text \<open>
  The events that the stream may take while no fault has ended it: the seeds of a family arrive, or one of the
  queries under way is answered.
\<close>

inductive stream_step :: "swarm_key \<Rightarrow> peer_stream \<Rightarrow> peer_stream option \<Rightarrow> bool" for h where
  seeds: "ps_fault st = None \<Longrightarrow> i < length (ps_families st) \<Longrightarrow> ps_families st ! i = AwaitSeeds \<Longrightarrow>
    stream_step h st (family_seeds h i r st)"
| answer: "ps_fault st = None \<Longrightarrow> i < length (ps_families st) \<Longrightarrow> ps_families st ! i = Searching s \<Longrightarrow> k < length (sr_pending s) \<Longrightarrow>
    stream_step h st (family_answer h i k r s st)"

inductive stream_reaches :: "swarm_key \<Rightarrow> nat \<Rightarrow> nat \<Rightarrow> peer_stream \<Rightarrow> bool" for h families where
  start: "stream_reaches h families 0 (stream_new families)"
| more: "stream_reaches h families n st \<Longrightarrow> stream_step h st (Some st') \<Longrightarrow> stream_reaches h families (Suc n) st'"

end
