(* ===== verification/PeerLookupProps.thy ===== *)
theory PeerLookupProps imports PeerLookup begin

text \<open>
  The bounds of the search for peers: what one family may have under way, that no address is asked twice, and that
  the stream comes to an end; and the distance between the slots of the pacer.
\<close>

section \<open>Pace\<close>

text \<open>\<open>g\<close> lists the slots that were taken, in order; \<open>now\<close> is the time of the last poll.\<close>

definition rate_ok :: "instant \<Rightarrow> (instant \<times> ip_addr) list \<Rightarrow> rate \<Rightarrow> bool" where
  "rate_ok now g r \<longleftrightarrow> hm_ok (rt_ips r) \<and>
     (\<forall>(t, ip)\<in>set g. (\<exists>n. rt_next r = Some n \<and> t + millis 100 \<le> n) \<and>
        (t + secs 1 \<le> now \<or> (\<exists>u. hm_get (rt_ips r) ip = Some u \<and> t + secs 1 \<le> u)))"

definition spaced :: "(instant \<times> ip_addr) list \<Rightarrow> bool" where
  "spaced g \<longleftrightarrow> sorted_wrt (\<lambda>(t, ip) (u, ip'). t + millis 100 \<le> u \<and> (ip = ip' \<longrightarrow> t + secs 1 \<le> u)) g"

lemma pace_sleeps:
  assumes "rate_ok now g r" and "now \<le> t" and "pace_turn t ip r = (r', Some d)"
  shows "rate_ok t g r' \<and> t < d"
  using assms by (fastforce simp: rate_ok_def pace_turn_def Let_def hm_get_retain split: if_splits)

lemma pace_takes:
  assumes "rate_ok now g r" and "now \<le> t" and "pace_turn t ip r = (r', None)"
  shows "rate_ok t (g @ [(t, ip)]) r'" and "(u, ip') \<in> set g \<Longrightarrow> u + millis 100 \<le> t \<and> (ip' = ip \<longrightarrow> u + secs 1 \<le> t)"
proof -
  let ?kept = "hm_retain (\<lambda>_ until. until > t) (rt_ips r)"
  have due: "(case rt_next r of None \<Rightarrow> t | Some x \<Rightarrow> x) \<le> t" "(case hm_get ?kept ip of None \<Rightarrow> t | Some x \<Rightarrow> x) \<le> t"
    and r': "r' = r\<lparr>rt_ips := hm_put ip (t + secs 1) ?kept, rt_next := Some (t + millis 100)\<rparr>"
    using assms(3) by (auto simp: pace_turn_def Let_def split: if_splits)
  have ok: "hm_ok (rt_ips r)" using assms(1) by (simp add: rate_ok_def)
  have free: "hm_get (rt_ips r) ip = Some x \<Longrightarrow> x \<le> t" for x
    using due(2) by (auto simp: hm_get_retain [OF ok] split: if_splits)
  have old: "(\<exists>n. rt_next r = Some n \<and> u + millis 100 \<le> n) \<and> (u + secs 1 \<le> now \<or> (\<exists>x. hm_get (rt_ips r) ip' = Some x \<and> u + secs 1 \<le> x))"
    if "(u, ip') \<in> set g" for u ip' using assms(1) that unfolding rate_ok_def by fastforce
  show "u + millis 100 \<le> t \<and> (ip' = ip \<longrightarrow> u + secs 1 \<le> t)" if "(u, ip') \<in> set g"
    using old [OF that] due(1) free assms(2) by fastforce
  have keep: "u + millis 100 \<le> t + millis 100 \<and> (u + secs 1 \<le> t \<or> (\<exists>x. hm_get (hm_put ip (t + secs 1) ?kept) ip' = Some x \<and> u + secs 1 \<le> x))"
    if mem: "(u, ip') \<in> set g" for u ip'
  proof (cases "ip' = ip \<or> u + secs 1 \<le> t")
    case True
    then show ?thesis using old [OF mem] due(1) free assms(2) by fastforce
  next
    case False
    then obtain x where "hm_get (rt_ips r) ip' = Some x" "u + secs 1 \<le> x" using old [OF mem] assms(2) by auto
    then show ?thesis using False old [OF mem] due(1) by (auto simp: hm_get_retain [OF ok])
  qed
  show "rate_ok t (g @ [(t, ip)]) r'"
    using keep ok unfolding rate_ok_def r' by (fastforce split: if_splits)
qed

lemma pace_run_ok:
  "rate_ok now g r \<Longrightarrow> sorted (now # map fst polls) \<Longrightarrow> spaced g \<Longrightarrow> spaced (g @ snd (pace_run r polls))"
proof (induction polls arbitrary: now g r)
  case (Cons p polls)
  obtain t ip where p: "p = (t, ip)" by fastforce
  obtain r' d where turn: "pace_turn t ip r = (r', d)" by fastforce
  have t: "now \<le> t" "sorted (t # map fst polls)" using Cons.prems(2) p by auto
  show ?case
  proof (cases d)
    case (Some x)
    then show ?thesis using Cons.IH [OF conjunct1 [OF pace_sleeps [OF Cons.prems(1) t(1)]] t(2) Cons.prems(3)] turn p by simp
  next
    case None
    note takes = pace_takes [OF Cons.prems(1) t(1) turn [unfolded None]]
    have "spaced (g @ [(t, ip)])" using Cons.prems(3) takes(2) by (auto simp: spaced_def sorted_wrt_append)
    from Cons.IH [OF takes(1) t(2) this] show ?thesis using turn None p by (cases "pace_run r' polls") simp
  qed
qed simp

text \<open>
  C18: the queries of all workers keep their distance: however the polls fall, two slots are at least 100 ms apart, and two slots
  for the same address at least one second; and a caller is told to sleep only until a later time.
\<close>

theorem queries_are_paced:
  assumes "sorted (map fst polls)"
  shows "sorted_wrt (\<lambda>(t, ip) (u, ip'). t + millis 100 \<le> u \<and> (ip = ip' \<longrightarrow> t + secs 1 \<le> u)) (snd (pace_run rate_new polls)) \<and>
    (\<forall>now ip r d. snd (pace_turn now ip r) = Some d \<longrightarrow> now < d)"
proof -
  have "rate_ok 0 [] rate_new" "sorted (0 # map fst polls)" "spaced []"
    using assms by (simp_all add: rate_ok_def rate_new_def spaced_def)
  from pace_run_ok [OF this] show ?thesis by (auto simp: spaced_def pace_turn_def Let_def split: if_splits)
qed

definition five_polls :: "(instant \<times> ip_addr) list" where
  "five_polls = [(0, IPV4 1), (50000000, IPV4 2), (100000000, IPV4 2), (200000000, IPV4 1), (1000000000, IPV4 1)]"

theorem queries_are_paced_witness:
  "sorted_wrt (\<lambda>(t, _) (u, _). t + millis 100 \<le> u) (snd (pace_run rate_new five_polls)) \<and>
   map fst (snd (pace_run rate_new five_polls)) = [0, 100000000, 1000000000]"
proof
  have "sorted (map fst five_polls)" by (simp add: five_polls_def)
  from conjunct1 [OF queries_are_paced [OF this]]
  show "sorted_wrt (\<lambda>(t, _) (u, _). t + millis 100 \<le> u) (snd (pace_run rate_new five_polls))"
    by (rule sorted_wrt_mono_rel [rotated]) auto
  show "map fst (snd (pace_run rate_new five_polls)) = [0, 100000000, 1000000000]"
    by (simp add: five_polls_def rate_new_def pace_turn_def hm_retain_def hm_get_def hm_put_def)
qed

section \<open>The search of one family\<close>

definition search_ok :: "search \<Rightarrow> bool" where
  "search_ok s \<longleftrightarrow> hm_ok (sr_candidates s) \<and> length (sr_pending s) \<le> 3 \<and> sr_queries s \<le> 32 \<and> length (sr_pending s) \<le> sr_queries s \<and>
     length (sr_addresses s) = sr_queries s \<and> distinct (sr_addresses s) \<and> set (map dn_address (sr_pending s)) \<subseteq> set (sr_addresses s)"

lemma seeds_ok: "search_ok (search_new seeds)"
proof -
  have "hm_ok (foldl (\<lambda>m n. hm_put (dn_id n) n m) m seeds)" if "hm_ok m" for m :: "(node_id, discovered_node) hmap"
    using that by (induction seeds arbitrary: m) simp_all
  then show ?thesis by (simp add: search_new_def search_ok_def)
qed

lemma issue_ok:
  "search_ok s \<Longrightarrow> \<forall>i\<in>set ns. hm_has (sr_candidates s) i \<Longrightarrow>
   \<exists>t. issue_queries ns s = Some t \<and> search_ok t \<and> sr_candidates t = sr_candidates s \<and>
     sr_queries t + length (sr_pending s) = sr_queries s + length (sr_pending t)"
proof (induction ns arbitrary: s)
  case (Cons i ns)
  show ?case
  proof (cases "length (sr_pending s) \<ge> 3 \<or> sr_queries s \<ge> 32 \<or> hm_has (sr_states s) i")
    case True
    then show ?thesis using Cons by auto
  next
    case False
    obtain node where node: "hm_get (sr_candidates s) i = Some node" using Cons.prems(2) by (auto simp: hm_has_def)
    show ?thesis
    proof (cases "dn_address node \<in> set (sr_addresses s)")
      case True
      have "search_ok (s\<lparr>sr_states := hm_put i Failed (sr_states s)\<rparr>)" using Cons.prems(1) by (simp add: search_ok_def)
      from Cons.IH [OF this] show ?thesis using Cons.prems(2) False node True by simp
    next
      case fresh: False
      let ?t = "s\<lparr>sr_addresses := dn_address node # sr_addresses s, sr_states := hm_put i InFlight (sr_states s),
            sr_queries := sr_queries s + 1, sr_pending := sr_pending s @ [node]\<rparr>"
      have "search_ok ?t" using Cons.prems(1) False fresh by (auto simp: search_ok_def)
      from Cons.IH [OF this] obtain t where "issue_queries ns ?t = Some t" "search_ok t" "sr_candidates t = sr_candidates s"
        "sr_queries t + length (sr_pending ?t) = sr_queries ?t + length (sr_pending t)"
        using Cons.prems(2) by auto
      then show ?thesis using False node fresh by simp
    qed
  qed
qed simp

lemma turn_ok:
  "search_ok s \<Longrightarrow> \<exists>t w. search_turn h full s = Some (t, w) \<and> (w \<longrightarrow> search_ok t \<and> sr_pending t \<noteq> [] \<and>
     sr_queries t + length (sr_pending s) = sr_queries s + length (sr_pending t))"
proof (induction h full s rule: search_turn.induct)
  case (1 h full s)
  obtain t where t: "issue_queries (search_closest h s) s = Some t" "search_ok t"
    "sr_queries t + length (sr_pending s) = sr_queries s + length (sr_pending t)"
    using issue_ok [OF "1.prems"] closest_is_candidate by blast
  show ?case
  proof (cases "\<not> full \<and> sr_pending t = [] \<and> sr_queries t < 32 \<and> list_ex (\<lambda>i. \<not> hm_has (sr_states t) i) (search_closest h t)")
    case True
    then have "search_turn h full s = search_turn h full t" using t(1) by (subst search_turn.simps) simp
    moreover have "sr_pending s = []" using issue_grows [OF t(1)] True by (simp add: grows_def)
    moreover have "\<exists>u w. search_turn h full t = Some (u, w) \<and> (w \<longrightarrow> search_ok u \<and> sr_pending u \<noteq> [] \<and>
        sr_queries u + length (sr_pending t) = sr_queries t + length (sr_pending u))"
      using "1.IH" [OF _ t(1)] True t(2) by auto
    ultimately show ?thesis using True t(3) by auto
  next
    case False
    then show ?thesis using t by (subst search_turn.simps) auto
  qed
qed

lemma candidates_bounded: "length (add_candidates h nodes m) \<le> 256"
  by (simp add: add_candidates_def Let_def)

lemma add_ok: "hm_ok m \<Longrightarrow> hm_ok (add_candidates h nodes m)"
proof -
  assume "hm_ok m"
  then have ok: "hm_ok (foldl (\<lambda>m n. if hm_has m (dn_id n) then m else hm_put (dn_id n) n m) m nodes)"
    by (induction nodes arbitrary: m) simp_all
  have "hm_ok (closest_by f n m)" if "hm_ok m" for f :: "node_id \<times> discovered_node \<Rightarrow> bytes" and n m
  proof -
    have "distinct (map fst (sort_key f m))"
      using that unfolding hm_ok_def by (metis distinct_map set_sort mset_sort mset_map mset_eq_imp_distinct_iff)
    then show ?thesis by (simp add: hm_ok_def closest_by_def take_map [symmetric] distinct_take)
  qed
  then show ?thesis using ok by (simp add: add_candidates_def Let_def)
qed

lemma answer_ok:
  assumes "search_ok s" and "k < length (sr_pending s)"
  defines "s' \<equiv> s\<lparr>sr_pending := take k (sr_pending s) @ drop (k + 1) (sr_pending s)\<rparr>"
  shows "search_ok (fst (search_answer h node r s' found))"
    and "length (sr_pending (fst (search_answer h node r s' found))) + 1 = length (sr_pending s)"
    and "sr_queries (fst (search_answer h node r s' found)) = sr_queries s"
proof -
  have "set (take k (sr_pending s) @ drop (k + 1) (sr_pending s)) \<subseteq> set (sr_pending s)"
    using set_take_subset set_drop_subset by fastforce
  then show "search_ok (fst (search_answer h node r s' found))"
    using assms(1,2) by (auto simp: search_ok_def search_answer_def s'_def Let_def add_ok split: sum.splits)
  show "length (sr_pending (fst (search_answer h node r s' found))) + 1 = length (sr_pending s)"
    "sr_queries (fst (search_answer h node r s' found)) = sr_queries s"
    using assms(2) by (auto simp: search_answer_def s'_def Let_def split: sum.splits)
qed

lemma collect_ok: "distinct found \<Longrightarrow> length found \<le> 32 \<Longrightarrow> distinct (collect_peers found ps) \<and> length (collect_peers found ps) \<le> 32"
  unfolding collect_peers_def by (induction ps arbitrary: found) auto

section \<open>The stream\<close>

text \<open>The answers that a family can still get, one more before its seeds have come.\<close>

fun family_cost :: "family_search \<Rightarrow> nat" where
  "family_cost AwaitSeeds = 33"
| "family_cost (Searching s) = 32 - (sr_queries s - length (sr_pending s))"
| "family_cost FamilyDone = 0"

fun family_ok :: "family_search \<Rightarrow> bool" where
  "family_ok (Searching s) \<longleftrightarrow> search_ok s \<and> sr_pending s \<noteq> []"
| "family_ok _ \<longleftrightarrow> True"

definition stream_ok :: "peer_stream \<Rightarrow> bool" where
  "stream_ok st \<longleftrightarrow> (\<forall>f\<in>set (ps_families st). family_ok f) \<and> distinct (ps_peers st) \<and> length (ps_peers st) \<le> 32"

definition stream_cost :: "peer_stream \<Rightarrow> nat" where
  "stream_cost st = sum_list (map family_cost (ps_families st))"

lemma cost_update: "i < length fs \<Longrightarrow> family_cost f < family_cost (fs ! i) \<Longrightarrow>
  sum_list (map family_cost (fs[i := f])) < sum_list (map family_cost fs)"
proof (induction fs arbitrary: i)
  case (Cons g fs)
  then show ?case by (cases i) auto
qed simp

lemma update_ok: "stream_ok st \<Longrightarrow> family_ok f \<Longrightarrow> \<forall>f\<in>set ((ps_families st)[i := f]). family_ok f"
  unfolding stream_ok_def by (auto dest: subsetD [OF set_update_subset_insert])

lemma run_family_ok:
  assumes "stream_ok st" and "search_ok s" and "i < length (ps_families st)"
    and "33 \<le> family_cost (ps_families st ! i) + (sr_queries s - length (sr_pending s))"
  shows "\<exists>st'. run_family h i s st = Some st' \<and> stream_ok st' \<and> stream_cost st' < stream_cost st"
proof -
  obtain t w where t: "search_turn h (length (ps_peers st) \<ge> 32) s = Some (t, w)" "w \<longrightarrow> search_ok t \<and> sr_pending t \<noteq> [] \<and>
     sr_queries t + length (sr_pending s) = sr_queries s + length (sr_pending t)"
    using turn_ok [OF assms(2)] by blast
  let ?f = "if w then Searching t else FamilyDone"
  have s: "length (sr_pending s) \<le> sr_queries s" "sr_queries s \<le> 32" using assms(2) by (simp_all add: search_ok_def)
  have "family_cost ?f < family_cost (ps_families st ! i)"
  proof (cases w)
    case True
    then have tt: "search_ok t" "sr_pending t \<noteq> []" "sr_queries t + length (sr_pending s) = sr_queries s + length (sr_pending t)" using t(2) by auto
    then have "0 < length (sr_pending t)" "length (sr_pending t) \<le> sr_queries t" "sr_queries t \<le> 32" by (simp_all add: search_ok_def)
    then show ?thesis using True tt(3) assms(4) s by simp
  next
    case False
    then show ?thesis using assms(4) s by simp
  qed
  then have "stream_cost (st\<lparr>ps_families := (ps_families st)[i := ?f]\<rparr>) < stream_cost st"
    using cost_update [OF assms(3)] by (simp add: stream_cost_def)
  moreover have "stream_ok (st\<lparr>ps_families := (ps_families st)[i := ?f]\<rparr>)"
    using assms(1) t(2) update_ok [OF assms(1), of ?f i] by (auto simp: stream_ok_def)
  ultimately show ?thesis using t(1) by (simp add: run_family_def)
qed

lemma end_family_ok:
  assumes "stream_ok st" and "i < length (ps_families st)" and "0 < family_cost (ps_families st ! i)"
  shows "stream_ok (end_family i e st) \<and> stream_cost (end_family i e st) < stream_cost st"
  using cost_update [OF assms(2), of FamilyDone] assms(3) update_ok [OF assms(1), of FamilyDone i] assms(1)
  by (simp add: end_family_def stream_ok_def stream_cost_def)

lemma step_progress:
  assumes "stream_ok st" and "stream_step h st x"
  shows "\<exists>st'. x = Some st' \<and> stream_ok st' \<and> stream_cost st' < stream_cost st"
  using assms(2)
proof cases
  case (seeds i r)
  have ended: "stream_ok (end_family i e st) \<and> stream_cost (end_family i e st) < stream_cost st" for e
    using end_family_ok [OF assms(1) seeds(3)] seeds(4) by simp
  show ?thesis
  proof (cases "\<exists>ns. r = Inr ns \<and> ns \<noteq> []")
    case True
    then obtain ns where ns: "r = Inr ns" "ns \<noteq> []" by blast
    have st: "stream_ok (st\<lparr>ps_had_seeds := True\<rparr>)" using assms(1) by (simp add: stream_ok_def)
    have "\<exists>st'. run_family h i (search_new ns) (st\<lparr>ps_had_seeds := True\<rparr>) = Some st' \<and> stream_ok st' \<and>
        stream_cost st' < stream_cost (st\<lparr>ps_had_seeds := True\<rparr>)"
      by (rule run_family_ok [OF st seeds_ok]) (use seeds in simp_all)
    then show ?thesis using ns seeds(1) by (simp add: family_seeds_def stream_cost_def)
  next
    case False
    then show ?thesis using ended seeds(1) by (cases r) (simp_all add: family_seeds_def)
  qed
next
  case (answer i s k r)
  let ?s = "s\<lparr>sr_pending := take k (sr_pending s) @ drop (k + 1) (sr_pending s)\<rparr>"
  let ?a = "search_answer h (sr_pending s ! k) r ?s (ps_peers st)"
  have s: "search_ok s" using assms(1) answer(3,4) nth_mem [of i "ps_families st"] by (fastforce simp: stream_ok_def)
  have p: "0 < length (sr_pending s)" "length (sr_pending s) \<le> sr_queries s" "sr_queries s \<le> 32"
    using s answer(5) by (auto simp: search_ok_def)
  note ok = answer_ok [OF s answer(5), of h "sr_pending s ! k" r "ps_peers st"]
  have cost: "33 \<le> family_cost (ps_families st ! i) + (sr_queries (fst ?a) - length (sr_pending (fst ?a)))"
    using ok(2,3) p answer(4) by simp
  have run: "\<exists>st'. run_family h i (fst ?a) (st\<lparr>ps_peers := found\<rparr>) = Some st' \<and> stream_ok st' \<and> stream_cost st' < stream_cost st"
    if "distinct found" "length found \<le> 32" for found
  proof -
    have "stream_ok (st\<lparr>ps_peers := found\<rparr>)" using assms(1) that by (simp add: stream_ok_def)
    from run_family_ok [OF this ok(1), of i] answer(3) cost show ?thesis by (simp add: stream_cost_def)
  qed
  have found: "distinct (ps_peers st)" "length (ps_peers st) \<le> 32" using assms(1) by (simp_all add: stream_ok_def)
  show ?thesis
  proof (cases r)
    case (Inl e)
    have "0 < 32 - (sr_queries s - length (sr_pending s))" using p by arith
    then have "0 < family_cost (ps_families st ! i)" using answer(4) by simp
    with end_family_ok [OF assms(1) answer(3)] run [OF found] show ?thesis
      using answer(1) Inl by (simp add: family_answer_def Let_def)
  next
    case (Inr g)
    have "snd ?a = collect_peers (ps_peers st) (gp_peers g)" using Inr by (simp add: search_answer_def Let_def)
    then have "\<exists>st'. run_family h i (fst ?a) (st\<lparr>ps_peers := snd ?a\<rparr>) = Some st' \<and> stream_ok st' \<and> stream_cost st' < stream_cost st"
      using run collect_ok [OF found] by simp
    moreover have "family_answer h i k r s st = run_family h i (fst ?a) (st\<lparr>ps_peers := snd ?a\<rparr>)"
      using Inr by (simp add: family_answer_def Let_def split: prod.split)
    ultimately show ?thesis using answer(1) by simp
  qed
qed

lemma stream_initial: "stream_ok (stream_new n)" "stream_cost (stream_new n) = 33 * n"
  by (simp_all add: stream_new_def stream_ok_def stream_cost_def sum_list_replicate)

lemma reaches_ok: "stream_reaches h families n st \<Longrightarrow> stream_ok st \<and> n + stream_cost st \<le> 33 * families"
proof (induction rule: stream_reaches.induct)
  case start
  show ?case using stream_initial by simp
next
  case (more n st st')
  with step_progress [of st h "Some st'"] show ?case by auto
qed

text \<open>
  C15: a lookup ends: whatever the nodes answer and however the two families interleave, the stream takes at most
  33 steps per family (the seeds and 32 answers), and no step panics.
\<close>

theorem peer_search_ends:
  assumes "stream_reaches h families n st"
  shows "n \<le> 33 * families \<and> (\<forall>x. stream_step h st x \<longrightarrow> x \<noteq> None)"
  using reaches_ok [OF assms] step_progress [of st h] by fastforce

text \<open>
  C16: a lookup stays small and is polite: at most three queries of a family are under way, it asks at most 32 nodes, no address
  twice, it waits only while something is under way, and the results of both families together are at most 32 distinct peers.
\<close>

theorem peer_search_bounded:
  assumes "stream_reaches h families n st"
  shows "distinct (ps_peers st) \<and> length (ps_peers st) \<le> 32 \<and>
    (\<forall>s. Searching s \<in> set (ps_families st) \<longrightarrow> 0 < length (sr_pending s) \<and> length (sr_pending s) \<le> 3 \<and> sr_queries s \<le> 32 \<and>
      length (sr_addresses s) = sr_queries s \<and> distinct (sr_addresses s) \<and> set (map dn_address (sr_pending s)) \<subseteq> set (sr_addresses s))"
  using reaches_ok [OF assms] unfolding stream_ok_def by (fastforce simp: search_ok_def)

text \<open>A lookup with one seed, whose answer names one peer and no further node.\<close>

definition one_seed :: discovered_node where
  "one_seed = \<lparr>dn_id = NodeId (replicate 20 1), dn_address = SA4 0x7F000001 1\<rparr>"

definition asking :: peer_stream where
  "asking = (stream_new 1)\<lparr>ps_had_seeds := True, ps_families := [Searching ((search_new [one_seed])\<lparr>
     sr_states := [(dn_id one_seed, InFlight)], sr_addresses := [dn_address one_seed], sr_pending := [one_seed], sr_queries := 1\<rparr>)]\<rparr>"

lemma asks_seed: "stream_reaches (SwarmKey (replicate 20 0)) 1 1 asking"
proof -
  have "family_seeds (SwarmKey (replicate 20 0)) 0 (Inr [one_seed]) (stream_new 1) = Some asking" by code_simp
  then have "stream_step (SwarmKey (replicate 20 0)) (stream_new 1) (Some asking)"
    using stream_step.seeds [of "stream_new 1" 0 "SwarmKey (replicate 20 0)" "Inr [one_seed]"] by (simp add: stream_new_def)
  from stream_reaches.more [OF stream_reaches.start this] show ?thesis by simp
qed

lemma run_family_peers: "run_family h i s st = Some st' \<Longrightarrow> ps_peers st' = ps_peers st"
  by (auto simp: run_family_def split: option.splits)

lemma gets_peer: "\<exists>st. stream_reaches (SwarmKey (replicate 20 0)) 1 2 st \<and> ps_peers st = [SA4 2 2]"
proof -
  let ?h = "SwarmKey (replicate 20 0)" and ?g = "\<lparr>gp_nodes = [], gp_peers = [SA4 2 2, SA4 2 2]\<rparr>"
  let ?s = "(search_new [one_seed])\<lparr>sr_states := [(dn_id one_seed, InFlight)], sr_addresses := [dn_address one_seed],
    sr_pending := [one_seed], sr_queries := 1\<rparr>"
  have answer: "stream_step ?h asking (family_answer ?h 0 0 (Inr ?g) ?s asking)"
    by (rule stream_step.answer) (simp_all add: asking_def stream_new_def)
  have "stream_ok asking" using reaches_ok [OF asks_seed] by blast
  from step_progress [OF this answer] obtain st where st: "family_answer ?h 0 0 (Inr ?g) ?s asking = Some st" by blast
  then have "ps_peers st = collect_peers (ps_peers asking) (gp_peers ?g)"
    by (auto simp: family_answer_def search_answer_def Let_def dest!: run_family_peers)
  then have "ps_peers st = [SA4 2 2]" by (simp add: collect_peers_def asking_def stream_new_def)
  then show ?thesis using stream_reaches.more [OF asks_seed answer [unfolded st]] by (auto simp: numeral_2_eq_2)
qed

theorem peer_search_bounded_witness:
  "length (ps_peers asking) \<le> 32 \<and> (\<exists>s. Searching s \<in> set (ps_families asking) \<and> length (sr_pending s) \<le> 3 \<and> distinct (sr_addresses s))"
  using peer_search_bounded [OF asks_seed] by (auto simp: asking_def)

theorem peer_search_ends_witness:
  "(2 :: nat) \<le> 33 * 1 \<and> (\<exists>st. stream_reaches (SwarmKey (replicate 20 0)) 1 2 st \<and> ps_peers st = [SA4 2 2])"
  using gets_peer peer_search_ends [of "SwarmKey (replicate 20 0)" 1 2] by fastforce

section \<open>Convergence\<close>

definition keyed :: "(node_id, discovered_node) hmap \<Rightarrow> bool" where
  "keyed m \<longleftrightarrow> (\<forall>(i, n)\<in>set m. dn_id n = i)"

lemma keyed_put [simp]: "hm_ok m \<Longrightarrow> keyed m \<Longrightarrow> keyed (hm_put (dn_id n) n m)"
  by (auto simp: keyed_def hm_set_put)

lemma keyed_get: "keyed m \<Longrightarrow> hm_get m i = Some n \<Longrightarrow> dn_id n = i"
  by (auto simp: keyed_def dest: hm_get_in)

text \<open>The states tell the truth: what is in flight is pending, and only nodes that were tried have a state.\<close>

definition search_wf :: "search \<Rightarrow> bool" where
  "search_wf s \<longleftrightarrow> keyed (sr_candidates s) \<and>
     (\<forall>i. hm_get (sr_states s) i = Some InFlight \<longrightarrow> i \<in> dn_id ` set (sr_pending s)) \<and> (\<forall>i. hm_get (sr_states s) i \<noteq> Some Unqueried)"

lemma seeds_wf: "search_wf (search_new seeds)"
proof -
  have "keyed (foldl (\<lambda>m n. hm_put (dn_id n) n m) m seeds)" if "hm_ok m" "keyed m" for m
    using that by (induction seeds arbitrary: m) simp_all
  from this [of "[]"] have "keyed (foldl (\<lambda>m n. hm_put (dn_id n) n m) [] seeds)" by (simp add: keyed_def)
  then show ?thesis by (simp add: search_new_def search_wf_def)
qed

lemma issue_wf: "search_wf s \<Longrightarrow> issue_queries ns s = Some t \<Longrightarrow> search_wf t"
proof (induction ns arbitrary: s)
  case (Cons i ns)
  from Cons.prems(2) show ?case
  proof (cases rule: issue_cases)
    case (duplicate node)
    have "search_wf (s\<lparr>sr_states := hm_put i Failed (sr_states s)\<rparr>)" using Cons.prems(1) by (auto simp: search_wf_def)
    then show ?thesis using Cons.IH duplicate(4) by blast
  next
    case (query node)
    have "search_wf (s\<lparr>sr_addresses := dn_address node # sr_addresses s, sr_states := hm_put i InFlight (sr_states s),
            sr_queries := sr_queries s + 1, sr_pending := sr_pending s @ [node]\<rparr>)"
      using Cons.prems(1) query(2) by (auto simp: search_wf_def dest: keyed_get)
    then show ?thesis using Cons.IH query(6) by blast
  qed (use Cons in blast)+
qed simp

lemma turn_wf: "search_wf s \<Longrightarrow> search_turn h full s = Some (t, w) \<Longrightarrow> search_wf t"
proof (induction h full s rule: search_turn.induct)
  case (1 h full s)
  from "1.prems"(2) [unfolded search_turn.simps [of h full s]] "1.prems"(1) show ?case
    by (auto split: if_splits option.splits dest: issue_wf [OF "1.prems"(1)] intro: "1.IH")
qed

text \<open>A search that breaks off while it may still ask has heard from every node of its shortlist.\<close>

lemma turn_converged:
  "search_wf s \<Longrightarrow> search_turn h False s = Some (t, False) \<Longrightarrow> sr_queries t < 32 \<Longrightarrow> i \<in> set (search_closest h t) \<Longrightarrow>
   hm_get (sr_states t) i = Some Succeeded"
proof (induction h False s rule: search_turn.induct)
  case (1 h s)
  obtain u where u: "issue_queries (search_closest h s) s = Some u"
    using "1.prems"(2) [unfolded search_turn.simps [of h False s]] by (auto split: option.splits)
  have wf: "search_wf u" using issue_wf [OF "1.prems"(1) u] .
  show ?case
  proof (cases "sr_pending u = [] \<and> sr_queries u < 32 \<and> list_ex (\<lambda>i. \<not> hm_has (sr_states u) i) (search_closest h u)")
    case True
    then have "search_turn h False u = Some (t, False)" using "1.prems"(2) [unfolded search_turn.simps [of h False s]] u by simp
    then show ?thesis using "1.hyps" [OF _ u] True wf "1.prems"(3,4) by auto
  next
    case False
    then have t: "t = u" "sr_pending u = []" using "1.prems"(2) [unfolded search_turn.simps [of h False s]] u by (auto split: if_splits)
    then have "hm_has (sr_states t) i" using False "1.prems"(3,4) by (auto simp: list_ex_iff)
    then obtain x where x: "hm_get (sr_states t) i = Some x" by (auto simp: hm_has_def)
    have "(case hm_get (sr_states t) i of None \<Rightarrow> Unqueried | Some st \<Rightarrow> st) \<noteq> Failed"
      using "1.prems"(4) unfolding search_closest_def closest_valid_def by (auto dest!: subsetD [OF closest_by_subset])
    then show ?thesis using x wf t by (cases x) (auto simp: search_wf_def)
  qed
qed

lemma add_wf:
  assumes "hm_ok m" and "keyed m"
  shows "keyed (add_candidates h nodes m)"
proof -
  let ?m = "foldl (\<lambda>m n. if hm_has m (dn_id n) then m else hm_put (dn_id n) n m) m nodes"
  have "keyed ?m" using assms by (induction nodes arbitrary: m) simp_all
  then show ?thesis unfolding add_candidates_def Let_def keyed_def by (auto dest: subsetD [OF closest_by_subset])
qed

lemma answer_wf:
  assumes "search_wf s" and "search_ok s" and "k < length (sr_pending s)"
  shows "search_wf (fst (search_answer h (sr_pending s ! k) r (s\<lparr>sr_pending := take k (sr_pending s) @ drop (k + 1) (sr_pending s)\<rparr>) found))"
proof -
  let ?p = "take k (sr_pending s) @ drop (k + 1) (sr_pending s)"
  have split: "sr_pending s = take k (sr_pending s) @ (sr_pending s ! k) # drop (k + 1) (sr_pending s)"
    using id_take_nth_drop [OF assms(3)] by simp
  have "set (sr_pending s) = insert (sr_pending s ! k) (set ?p)"
    using arg_cong [OF split, of set] by simp
  then have keep: "i \<in> dn_id ` set ?p" if "hm_get (sr_states s) i = Some InFlight" "i \<noteq> dn_id (sr_pending s ! k)" for i
    using assms(1) that unfolding search_wf_def by auto
  have cands: "hm_ok (sr_candidates s)" "keyed (sr_candidates s)"
    using assms(1,2) by (simp_all add: search_ok_def search_wf_def)
  show ?thesis
    using assms(1) keep add_wf [OF cands] by (cases r) (auto simp: search_answer_def Let_def search_wf_def)
qed

definition stream_wf :: "peer_stream \<Rightarrow> bool" where
  "stream_wf st \<longleftrightarrow> (\<forall>s. Searching s \<in> set (ps_families st) \<longrightarrow> search_wf s)"

lemma stream_wf_update: "stream_wf st \<Longrightarrow> (\<And>s. f = Searching s \<Longrightarrow> search_wf s) \<Longrightarrow> ps_families st' = (ps_families st)[i := f] \<Longrightarrow> stream_wf st'"
  unfolding stream_wf_def by (auto dest!: subsetD [OF set_update_subset_insert])

lemma run_family_wf:
  assumes "stream_wf st" and "search_wf s" and "run_family h i s st = Some st'"
  shows "stream_wf st'"
proof -
  obtain t w where "search_turn h (length (ps_peers st) \<ge> 32) s = Some (t, w)"
    "st' = st\<lparr>ps_families := (ps_families st)[i := if w then Searching t else FamilyDone]\<rparr>"
    using assms(3) by (auto simp: run_family_def split: option.splits)
  then show ?thesis
    using turn_wf [OF assms(2)] by (intro stream_wf_update [OF assms(1), of "if w then Searching t else FamilyDone" _ i]) (auto split: if_splits)
qed

lemma end_family_wf: "stream_wf st \<Longrightarrow> stream_wf (end_family i e st)"
  by (rule stream_wf_update [of st FamilyDone]) (simp_all add: end_family_def)

lemma step_wf:
  assumes "stream_ok st" and "stream_wf st" and "stream_step h st (Some st')"
  shows "stream_wf st'"
  using assms(3)
proof cases
  case (seeds i r)
  show ?thesis
  proof (cases "\<exists>ns. r = Inr ns \<and> ns \<noteq> []")
    case True
    then obtain ns where "run_family h i (search_new ns) (st\<lparr>ps_had_seeds := True\<rparr>) = Some st'"
      using seeds(1) by (auto simp: family_seeds_def)
    moreover have "stream_wf (st\<lparr>ps_had_seeds := True\<rparr>)" using assms(2) by (simp add: stream_wf_def)
    ultimately show ?thesis using run_family_wf seeds_wf by blast
  next
    case False
    then show ?thesis using seeds(1) end_family_wf [OF assms(2)] by (cases r) (auto simp: family_seeds_def)
  qed
next
  case (answer i s k r)
  have s: "search_ok s" using assms(1) answer(3,4) nth_mem [of i "ps_families st"] by (fastforce simp: stream_ok_def)
  have wf: "search_wf s" using assms(2) answer(3,4) nth_mem [of i "ps_families st"] by (simp add: stream_wf_def)
  note done_wf = answer_wf [OF wf s answer(5), of h r "ps_peers st"]
  have st: "stream_wf (st\<lparr>ps_peers := ps\<rparr>)" for ps using assms(2) by (simp add: stream_wf_def)
  show ?thesis
  proof (cases r)
    case (Inl e)
    then show ?thesis using answer(1) end_family_wf [OF assms(2)] run_family_wf [OF assms(2) done_wf]
      by (auto simp: family_answer_def Let_def split: if_splits)
  next
    case (Inr g)
    then show ?thesis using answer(1) run_family_wf [OF st done_wf] by (simp add: family_answer_def Let_def split: prod.splits)
  qed
qed

lemma reaches_wf: "stream_reaches h families n st \<Longrightarrow> stream_wf st"
proof (induction rule: stream_reaches.induct)
  case start
  show ?case by (auto simp: stream_new_def stream_wf_def)
next
  case (more n st st')
  then show ?case using step_wf reaches_ok by blast
qed

text \<open>
  C14: a lookup converges: when a family stops after an answer although results are missing and it may still ask, then every one
  of the closest eight candidates that have not failed has itself answered.
\<close>

theorem peer_search_converges:
  assumes "stream_reaches h families n st" and "Searching s \<in> set (ps_families st)" and "k < length (sr_pending s)"
    and "search_answer h (sr_pending s ! k) r (s\<lparr>sr_pending := take k (sr_pending s) @ drop (k + 1) (sr_pending s)\<rparr>) (ps_peers st) = (s', found)"
    and "search_turn h False s' = Some (t, False)" and "sr_queries t < 32"
  shows "\<forall>i\<in>set (search_closest h t). hm_get (sr_states t) i = Some Succeeded"
proof
  fix i assume i: "i \<in> set (search_closest h t)"
  have "search_wf s" "search_ok s"
    using reaches_wf [OF assms(1)] reaches_ok [OF assms(1)] assms(2) by (auto simp: stream_wf_def stream_ok_def)
  then have "search_wf s'" using answer_wf [of s k h r "ps_peers st"] assms(3,4) by simp
  from turn_converged [OF this assms(5,6) i] show "hm_get (sr_states t) i = Some Succeeded" .
qed

text \<open>The lookup with one seed stops after its answer, and the seed has succeeded.\<close>

definition asked :: search where
  "asked = (search_new [one_seed])\<lparr>sr_states := [(dn_id one_seed, InFlight)], sr_addresses := [dn_address one_seed],
    sr_pending := [one_seed], sr_queries := 1\<rparr>"

lemma seed_trusted: "trusted (dn_id one_seed) (IPV4 0x7F000001)"
proof -
  have "v4_is_loopback 0x7F000001" by (simp add: v4_is_loopback_def octet_at_unfold)
  then show ?thesis by (simp add: trusted_def id_class_def)
qed

lemma seed_answer:
  "search_answer h one_seed (Inr \<lparr>gp_nodes = [], gp_peers = []\<rparr>) (asked\<lparr>sr_pending := []\<rparr>) [] =
     (asked\<lparr>sr_pending := [], sr_states := [(dn_id one_seed, Succeeded)]\<rparr>, [])"
  using seed_trusted
  by (simp add: search_answer_def asked_def one_seed_def search_new_def hm_put_def add_candidates_def collect_peers_def)

lemma seed_turn:
  "search_turn h False (asked\<lparr>sr_pending := [], sr_states := [(dn_id one_seed, Succeeded)]\<rparr>) =
     Some (asked\<lparr>sr_pending := [], sr_states := [(dn_id one_seed, Succeeded)]\<rparr>, False)"
  by (subst search_turn.simps)
    (simp add: search_closest_def closest_valid_def closest_by_def asked_def search_new_def hm_put_def hm_get_def hm_has_def)

lemma seed_closest:
  "search_closest h (asked\<lparr>sr_pending := [], sr_states := [(dn_id one_seed, Succeeded)]\<rparr>) = [dn_id one_seed]"
  by (simp add: search_closest_def closest_valid_def closest_by_def asked_def search_new_def hm_put_def hm_get_def)

theorem peer_search_converges_witness:
  "search_closest (SwarmKey (replicate 20 0)) (asked\<lparr>sr_pending := [], sr_states := [(dn_id one_seed, Succeeded)]\<rparr>) = [dn_id one_seed] \<and>
   hm_get [(dn_id one_seed, Succeeded)] (dn_id one_seed) = Some Succeeded"
proof -
  let ?t = "asked\<lparr>sr_pending := [], sr_states := [(dn_id one_seed, Succeeded)]\<rparr>"
  have asking: "Searching asked \<in> set (ps_families asking)" "ps_peers asking = []"
    by (simp_all add: asking_def asked_def stream_new_def)
  have asked: "sr_pending asked = [one_seed]" "sr_queries ?t = 1" by (simp_all add: asked_def)
  have "\<forall>i\<in>set (search_closest (SwarmKey (replicate 20 0)) ?t). hm_get (sr_states ?t) i = Some Succeeded"
    by (rule peer_search_converges [OF asks_seed asking(1), of 0 "Inr \<lparr>gp_nodes = [], gp_peers = []\<rparr>" ?t "[]"])
      (use asking asked seed_answer seed_turn in simp_all)
  from bspec [OF this, of "dn_id one_seed"] seed_closest show ?thesis by simp
qed

end
