(* ===== verification/Spec2Isabelle.thy ===== *)
theory Spec2Isabelle
  imports RoutingProps Krpc Transaction TokenKeys PeerStoreProps Security Traffic OrderingProps
    MetainfoProps DispatcherEffects PeerSessionProps Policies TcpLimits PeerLookupProps
begin

text \<open>
  A model of bt-sniffer, a BitTorrent DHT crawler written in Rust: the node keeps a Kademlia
  routing table, answers and sends KRPC queries over UDP, stores announced peers, samples the
  info hashes of other nodes, and fetches and analyses torrent metadata over TCP.

  Conventions. Instants and durations are natural numbers of nanoseconds since an origin
  (\<open>secs\<close> converts seconds), without an upper end: where the source writes \<open>Instant + Duration\<close> the
  panic on overflow, some 2^63 seconds after the origin, is not modelled (registering a transaction, the deadlines of
  maintenance, sampler and queue), whereas its \<open>checked_add\<close> is (\<open>instant_checked_add\<close>); so the theorems that
  an operation does not panic leave this overflow aside; a \<open>HashMap\<close> is an association list with distinct keys
  (\<open>hmap\<close> of theory Prelude) whose order stands for the unspecified iteration order; an
  \<open>Option\<close> that models a panic (an \<open>expect\<close>, an index or an overflow) is the outermost
  \<open>option\<close> of an operation, so \<open>None\<close> is a panic and every operation is proved free of it;
  a \<open>Result\<close> is a sum whose left part is the error. Randomness, digests, encoders and crates
  outside src/ are arguments of the definitions that use them.

  Theories, in import order, with the files under src/src they model.

  \<^item> Prelude: results, maps, sorting, the postcondition predicate \<open>ensures\<close> with its collection
    \<open>ensures_intros\<close>, and the locale \<open>panic_free_ops\<close> of a component whose operations keep an
    invariant and never panic; its runs are the \<open>runs_safe\<close> theorems below.
  \<^item> Bytes, Utf8: byte strings, big-endian ports, lossless UTF-8 decoding, display of paths.
  \<^item> Address (address.rs, part of dht/routing/mod.rs): socket addresses, the address policy.
  \<^item> InfoHash (info_hash.rs, dht/krpc/message.rs): identities.
  \<^item> Routing, RoutingInv, RoutingOps, RoutingProps (dht/routing/mod.rs, dht/shortlist.rs): the
    bucket tree, its invariant (buckets partition the identifier space, at most eight contacts,
    each in the bucket of its prefix), every operation, and what lookups return.
  \<^item> Krpc (dht/krpc/compact.rs, dht/krpc/message.rs): compact nodes, peers and samples.
  \<^item> Transaction (dht/transaction/mod.rs): pending queries, allocation, matching, expiry.
  \<^item> TokenKeys (dht/token/mod.rs): announce tokens and the rotation of their keys.
  \<^item> PeerStore, PeerStoreProps (dht/peer_store/mod.rs): announced peers with three limits.
  \<^item> Security (dht/security.rs): node identifiers bound to addresses, the address consensus.
  \<^item> Histogram (histogram.rs): bounded histograms and quantiles.
  \<^item> Traffic (dht/traffic/api.rs, limiter.rs, state.rs): quotas and admission.
  \<^item> Ordering, OrderingProps (dht/udp/ordering.rs, collection/peer/wire/extension_ordering.rs): tolerance for
    unsorted dictionaries; OrderingProps defines the admitted encodings (\<open>writes\<close>) apart from the reader.
  \<^item> Metainfo, MetainfoProps (collection/metainfo.rs): analysis of the info dictionary.
  \<^item> Maintenance (dht/dispatcher/maintenance.rs): iterative lookups and retries.
  \<^item> Clock (clock.rs), DispatcherApi (shared types of dht/dispatcher/api.rs and storage/mod.rs), Udp
    (dht/udp/mod.rs): times of the database, identities, limits of datagrams.
  \<^item> Sampler, SamplerInv, SamplerNext, SamplerProps (dht/dispatcher/sampler/): candidates, cooldowns by
    identifier and by address, reservations in the database, responses and backoff. \<open>good s L\<close> is the
    invariant, where \<open>L\<close> are the requests that the dispatcher holds.
  \<^item> Dispatcher (runtime/outbound.rs, runtime/state.rs, traffic.rs, fetch.rs): the state of the event loop, the
    queue of outgoing queries with its reclaiming and deadlines, sending, and the end of queries.
    DispatcherResponse (response/): validation, decoding and completion of responses and errors, expiry.
    DispatcherQuery (query.rs, peer_queries/, sampling/): the server side. DispatcherRun (runtime/driver.rs,
    runtime/commands.rs, recovery.rs, maintenance.rs, sampler/driver.rs): commands, stages, change of
    identity, events and one iteration of the loop.
  \<^item> DispatcherInv defines the invariant \<open>d_inv I P T X r d\<close>: \<open>I\<close> are the callers that have asked, \<open>P\<close> and
    \<open>T\<close> the purposes and queue tickets that an operation holds outside the state, \<open>X\<close> the expired transactions that
    are still to be settled and \<open>r\<close> the queries that the operation may still start. DispatcherBudget,
    DispatcherOut, DispatcherSettle, DispatcherNet, DispatcherServe, DispatcherCancel, DispatcherStages,
    DispatcherCommands and DispatcherLoop prove, operation by operation, that nothing panics and that the
    invariant is kept; DispatcherProps composes them over whole runs (\<open>turn_step\<close>), between whose turns the
    other node of the process may change the shared traffic budget.
  \<^item> DispatcherEffects: what messages can change. Sending leaves the tables alone (\<open>local_state\<close>), queries never
    insert contacts, peers are stored only with a valid token, replies that match no pending query are ignored,
    checked responses have the form their purpose needs, responses are cut to the datagram, and a response to a
    search reaches its caller.

  \<^item> PeerWire, PeerSession, PeerSessionProps (collection/peer/): the handshakes and metadata messages of the peer
    protocol and one download session, its pieces, request window and budgets; the inputs of every iteration of its
    loop are the clock, the outcome of sends and the next frame. \<open>session_ok\<close> is its invariant.
  \<^item> PeerLookup, PeerLookupProps (collection/lookup.rs): the pace of queries, the search of one address family and
    the stream that joins the families; \<open>stream_step\<close> lets any query under way be answered next. They show
    the limits, termination and convergence of the search.
  \<^item> TcpLimits (collection/tcp_limits.rs): semaphores per address with their waiters and reference counts.
  \<^item> Policies (collection/backpressure.rs, candidate_selector/mod.rs, jobs/policy/mod.rs): back pressure, order of
    candidates, rotation of classes.

  How the dispatcher's parts are tied together. Every query outstanding in the queue or in the map of pending
  queries is linked to the part that waits for it: a caller, a verification, a bucket probe, a candidate of
  the lookup in flight, a saved contact or a request of the sampler (\<open>links\<close>). The keys of the pending map
  are the pending transactions (\<open>maps_ok\<close>), the tickets of the queue are those that the shared budget counts
  (\<open>budget_held\<close>). A verification holds its place in the budget only until it is sent. The surroundings of an operation (\<open>env\<close>)
  hold what is outside src/ or random: encoder and decoder, socket, HMAC, quotas of the governor crate, random
  choices, clock.

  What the runs assume of the surroundings is \<open>turn_ok\<close>: decoded messages have identifiers and targets of their fixed
  length, as the types of the source enforce; the tokenizer consumes at least one byte; the 64-bit
  generation of the sampler and the 32-bit counter of transactions do not run through all their values while a
  request from the previous round is still open; and the database answers during a change of identity.

  Fuel. The loops over the queue, over expired entries and over allocated transactions are structural recursions on
  lists or on a counter whose bound the source has (\<open>max_pending + 1\<close> draws of a transaction identifier,
  \<open>max_nodes\<close> steps of a lookup), so no fuel can run out unnoticed.

  Not modelled: tasks, channels and sockets of the tokio runtime, SQL statements (storage/, collection/store.rs,
  collection/jobs/, collection/catalog/), HTTP routes, logging, counters, reports and the JSON of inspections.
  The workers and the scheduler of collection/ drive the modelled parts from tokio tasks and SQL transactions.
\<close>

end
